(* ===== verification/Prelude.thy ===== *)
theory Prelude
  imports Main "HOL-Library.Word" "HOL-Library.List_Lexorder" "HOL-Library.Sublist"
begin

unbundle bit_operations_syntax

section \<open>Shared types, byte-level memory and little-endian integers\<close>

text \<open>
  This theory holds what every component of the storage engine shares: the fixed-width
  identifiers of \<^verbatim>\<open>include/kvstore/types.h\<close>, the error model of
  \<^verbatim>\<open>include/kvstore/status.h\<close>, page memory as a total map from byte offsets to bytes,
  the little-endian integer encodings used by the page layout, the record encodings and
  the write-ahead log, and the arithmetic facts on machine words that the component
  proofs rewrite with.

  The diagnostic text a \<^verbatim>\<open>Status\<close> carries is not modelled: a status is its
  \<^verbatim>\<open>StatusCode\<close>, and a \<^verbatim>\<open>Result<T>\<close> is a sum whose left side is that code.
\<close>

named_theorems mem_simps \<open>reads of page memory after writes\<close>
named_theorems le_simps \<open>little-endian encodings and their lengths\<close>
named_theorems unat_simps \<open>machine-word arithmetic read as natural numbers\<close>

subsection \<open>Identifiers (types.h)\<close>

type_synonym byte = "8 word"
type_synonym bytes = "8 word list"
type_synonym u16 = "16 word"
type_synonym u32 = "32 word"
type_synonym u64 = "64 word"
type_synonym PageId = "32 word"
type_synonym Lsn = "64 word"
type_synonym TxId = "64 word"
type_synonym FrameId = nat

definition kInvalidPageId :: PageId where
  "kInvalidPageId = 0xFFFFFFFF"

definition kInvalidLsn :: Lsn where
  "kInvalidLsn = 0"

definition kFirstLsn :: Lsn where
  "kFirstLsn = 1"

definition kInvalidTxId :: TxId where
  "kInvalidTxId = 0"

subsection \<open>Status codes and results (status.h)\<close>

datatype StatusCode =
    kOk | kNotFound | kIoError | kCorruption | kInvalidArgument | kBusy | kInternal | kNoSpace

type_synonym Status = StatusCode
type_synonym 'a Result = "StatusCode + 'a"

definition ok :: "Status \<Rightarrow> bool" where
  "ok s \<longleftrightarrow> s = kOk"

lemma ok_kOk [simp]: "ok kOk"
  by (simp add: ok_def)

subsection \<open>Byte memory\<close>

text \<open>
  The bytes of a page are a total map from offsets to bytes. \<open>mem_read\<close> and
  \<open>mem_write\<close> are \<^verbatim>\<open>memcpy\<close> out of and into that memory; a \<^verbatim>\<open>memmove\<close> is a
  write of bytes read beforehand.
\<close>

type_synonym mem = "nat \<Rightarrow> byte"

definition mem_read :: "mem \<Rightarrow> nat \<Rightarrow> nat \<Rightarrow> bytes" where
  "mem_read m a n = map m [a ..< a + n]"

definition mem_write :: "mem \<Rightarrow> nat \<Rightarrow> bytes \<Rightarrow> mem" where
  "mem_write m a xs = (\<lambda>k. if a \<le> k \<and> k < a + length xs then xs ! (k - a) else m k)"

lemma length_mem_read [simp]: "length (mem_read m a n) = n"
  by (simp add: mem_read_def)

lemma nth_mem_read [mem_simps]: "i < n \<Longrightarrow> mem_read m a n ! i = m (a + i)"
  by (simp add: mem_read_def)

lemma mem_read_0 [simp]: "mem_read m a 0 = []"
  by (simp add: mem_read_def)

lemma mem_write_Nil [simp]: "mem_write m a [] = m"
  by (rule ext) (auto simp: mem_write_def)

lemma mem_write_in [mem_simps]:
  "a \<le> k \<Longrightarrow> k < a + length xs \<Longrightarrow> mem_write m a xs k = xs ! (k - a)"
  by (simp add: mem_write_def)

lemma mem_write_out [mem_simps]:
  "k < a \<or> a + length xs \<le> k \<Longrightarrow> mem_write m a xs k = m k"
  by (auto simp: mem_write_def)

lemma mem_read_eqI:
  "(\<And>k. a \<le> k \<Longrightarrow> k < a + n \<Longrightarrow> m k = m' k) \<Longrightarrow> mem_read m a n = mem_read m' a n"
  by (simp add: mem_read_def)

lemma mem_read_write_same [mem_simps]:
  "length xs = n \<Longrightarrow> mem_read (mem_write m a xs) a n = xs"
  by (rule nth_equalityI) (auto simp: nth_mem_read mem_write_def)

lemma mem_read_write_disjoint [mem_simps]:
  "a + n \<le> b \<or> b + length xs \<le> a \<Longrightarrow> mem_read (mem_write m b xs) a n = mem_read m a n"
  by (rule mem_read_eqI) (auto simp: mem_write_def)

lemma mem_read_write_inside [mem_simps]:
  assumes "b \<le> a" and "a + n \<le> b + length xs"
  shows "mem_read (mem_write m b xs) a n = take n (drop (a - b) xs)"
  using assms by (intro nth_equalityI) (auto simp: nth_mem_read mem_write_def)

lemma mem_read_inside:
  "i + k \<le> n \<Longrightarrow> take k (drop i (mem_read m a n)) = mem_read m (a + i) k"
  by (rule nth_equalityI) (auto simp: nth_mem_read add.assoc)

lemma mem_read_append: "mem_read m a (n + k) = mem_read m a n @ mem_read m (a + n) k"
  using upt_add_eq_append [of a "a + n" k] by (simp add: mem_read_def add.assoc)

lemma mem_read_take: "k \<le> n \<Longrightarrow> take k (mem_read m a n) = mem_read m a k"
  using mem_read_inside [of 0 k n m a] by simp

lemma mem_read_drop: "k \<le> n \<Longrightarrow> drop k (mem_read m a n) = mem_read m (a + k) (n - k)"
  using mem_read_inside [of k "n - k" n m a] by simp

subsection \<open>Little-endian integers\<close>

text \<open>
  \<open>PutLE n w\<close> is the \<open>n\<close>-byte little-endian encoding of a word, \<open>GetLE\<close> the decoding
  (\<^verbatim>\<open>WriteLE16\<close>, \<^verbatim>\<open>ReadLE32\<close>, \<^verbatim>\<open>PutLE<T>\<close>, \<^verbatim>\<open>GetLE<T>\<close> of the sources; the width
  is the type \<open>'a\<close>).
\<close>

definition PutLE :: "nat \<Rightarrow> 'a::len word \<Rightarrow> bytes" where
  "PutLE n w = map (\<lambda>i. ucast (drop_bit (8 * i) w)) [0 ..< n]"

fun GetLE :: "bytes \<Rightarrow> 'a::len word" where
  "GetLE [] = 0"
| "GetLE (b # bs) = ucast b OR push_bit 8 (GetLE bs)"

lemma length_PutLE [simp, le_simps]: "length (PutLE n w) = n"
  by (simp add: PutLE_def)

lemma bit_GetLE:
  "bit (GetLE bs :: 'a::len word) k \<longleftrightarrow>
     k < LENGTH('a) \<and> k div 8 < length bs \<and> bit (bs ! (k div 8)) (k mod 8)"
proof (induction bs arbitrary: k)
  case Nil
  then show ?case by simp
next
  case (Cons b bs)
  show ?case
  proof (cases "k < 8")
    case True
    then show ?thesis by (auto simp: bit_simps)
  next
    case False
    then have d: "k div 8 = Suc ((k - 8) div 8)" and m: "k mod 8 = (k - 8) mod 8"
      by (auto simp: le_div_geq le_mod_geq)
    have nb: "\<not> bit b k" using False bit_imp_le_length [of b k] by auto
    show ?thesis
      using False by (auto simp: bit_simps Cons.IH d m nb)
  qed
qed

lemma GetLE_PutLE [le_simps]:
  assumes "LENGTH('a) \<le> 8 * n"
  shows "GetLE (PutLE n (w :: 'a::len word)) = w"
proof (rule bit_word_eqI)
  fix k assume k: "k < LENGTH('a)"
  with assms have "k div 8 < n" by auto
  with k show "bit (GetLE (PutLE n w) :: 'a word) k \<longleftrightarrow> bit w k"
    by (simp add: bit_GetLE PutLE_def bit_simps)
qed

lemma PutLE_GetLE:
  assumes "LENGTH('a) = 8 * length bs"
  shows "PutLE (length bs) (GetLE bs :: 'a::len word) = bs"
proof (rule nth_equalityI)
  show "length (PutLE (length bs) (GetLE bs :: 'a word)) = length bs" by simp
next
  fix i assume "i < length (PutLE (length bs) (GetLE bs :: 'a word))"
  then have i: "i < length bs" by simp
  show "PutLE (length bs) (GetLE bs :: 'a word) ! i = bs ! i"
  proof (rule bit_word_eqI)
    fix k assume k: "k < LENGTH(8)"
    then have "(8 * i + k) div 8 = i" "(8 * i + k) mod 8 = k" by auto
    with i k assms show "bit (PutLE (length bs) (GetLE bs :: 'a word) ! i) k \<longleftrightarrow> bit (bs ! i) k"
      by (simp add: PutLE_def bit_simps bit_GetLE)
  qed
qed

subsection \<open>Word arithmetic as natural numbers\<close>

lemma unat_sub_le [unat_simps]:
  fixes a b :: "'a::len word"
  shows "b \<le> a \<Longrightarrow> unat (a - b) = unat a - unat b"
  by (rule unat_sub)

lemma unat_add_less [unat_simps]:
  fixes a b :: "'a::len word"
  shows "unat a + unat b < 2 ^ LENGTH('a) \<Longrightarrow> unat (a + b) = unat a + unat b"
  by (simp add: unat_word_ariths)

lemma unat_of_nat_less [unat_simps]:
  "n < 2 ^ LENGTH('a) \<Longrightarrow> unat (of_nat n :: 'a::len word) = n"
  by (simp add: unat_of_nat)

lemma unat16_bound [simp]: "unat (w :: u16) < 65536"
  using unsigned_less [of w] by simp

lemma unat16_le_bound [simp]: "unat (w :: u16) \<le> 65535"
  using unat16_bound [of w] by linarith

subsection \<open>The interface of a record store\<close>

text \<open>
  A record store holds a list of records and a bounded amount of room. The client of the
  slotted page (node rebuilds after a split, index rebuilds of an internal node) only uses
  the laws below: an append that fits succeeds, appends to the list and takes a known
  amount of room. \<open>append_all\<close> is the rebuild loop of the clients.
\<close>

fun append_all :: "('p \<Rightarrow> 'r \<Rightarrow> 'p option) \<Rightarrow> 'p \<Rightarrow> 'r list \<Rightarrow> 'p option" where
  "append_all app p [] = Some p"
| "append_all app p (r # rs) = (case app p r of None \<Rightarrow> None | Some q \<Rightarrow> append_all app q rs)"

locale record_store =
  fixes app :: "'p \<Rightarrow> 'r \<Rightarrow> 'p option"
    and invar :: "'p \<Rightarrow> bool"
    and content :: "'p \<Rightarrow> 'r list"
    and room :: "'p \<Rightarrow> nat"
    and cost :: "'r \<Rightarrow> nat"
  assumes app_fits: "invar p \<Longrightarrow> cost r \<le> room p \<Longrightarrow> app p r \<noteq> None"
    and app_full: "invar p \<Longrightarrow> room p < cost r \<Longrightarrow> app p r = None"
    and app_invar: "invar p \<Longrightarrow> app p r = Some q \<Longrightarrow> invar q"
    and app_content: "invar p \<Longrightarrow> app p r = Some q \<Longrightarrow> content q = content p @ [r]"
    and app_room: "invar p \<Longrightarrow> app p r = Some q \<Longrightarrow> room q + cost r = room p"
begin

lemma append_all_Some:
  "invar p \<Longrightarrow> append_all app p rs = Some q \<Longrightarrow>
     invar q \<and> content q = content p @ rs \<and> room q + sum_list (map cost rs) = room p"
proof (induction rs arbitrary: p)
  case (Cons r rs)
  then obtain p' where p': "app p r = Some p'" "append_all app p' rs = Some q"
    by (auto split: option.splits)
  note Cons.IH [OF app_invar [OF Cons.prems(1) p'(1)] p'(2)]
  with app_content [OF Cons.prems(1) p'(1)] app_room [OF Cons.prems(1) p'(1)] show ?case by auto
qed simp

lemma append_all_fits:
  "invar p \<Longrightarrow> sum_list (map cost rs) \<le> room p \<Longrightarrow> append_all app p rs \<noteq> None"
proof (induction rs arbitrary: p)
  case (Cons r rs)
  then obtain p' where p': "app p r = Some p'" using app_fits [of p r] by auto
  then have "append_all app p' rs \<noteq> None"
    using Cons.prems app_room [OF Cons.prems(1) p'] app_invar [OF Cons.prems(1) p'] by (intro Cons.IH) auto
  with p' show ?case by simp
qed simp

lemma append_all_iff:
  assumes "invar p"
  shows "append_all app p rs \<noteq> None \<longleftrightarrow> sum_list (map cost rs) \<le> room p"
  using append_all_fits [OF assms] append_all_Some [OF assms] by fastforce

end

end
