(* ===== verification/Checksum.thy ===== *)
theory Checksum
  imports Prelude
begin

section \<open>CRC-32 checksums (page.cc)\<close>

text \<open>
  The portable checksum of \<^verbatim>\<open>src/storage/page.cc\<close>: the eight compile-time tables of
  \<^verbatim>\<open>GenerateCrc32Tables\<close>, the slicing-by-8 loop \<^verbatim>\<open>Crc32Update\<close> and the two entry points
  \<^verbatim>\<open>Crc32\<close> and \<^verbatim>\<open>Crc32WithZeroedField\<close>. The reference is the bit-serial CRC with the
  reflected polynomial \<open>0xEDB88320\<close>; the theorems show that the table-driven loop computes it on every input,
  whatever the split into calls.
\<close>

unbundle bit_operations_syntax

subsection \<open>Definitions\<close>

text \<open>One iteration of the inner loop of \<^verbatim>\<open>GenerateCrc32Tables\<close>.\<close>

definition crc_bit :: "u32 \<Rightarrow> u32" where
  "crc_bit crc = (if crc AND 1 \<noteq> 0 then drop_bit 1 crc XOR 0xEDB88320 else drop_bit 1 crc)"

fun crc_table :: "nat \<Rightarrow> u32 list" where
  "crc_table 0 = map (\<lambda>i. (crc_bit ^^ 8) (of_nat i)) [0 ..< 256]"
| "crc_table (Suc k) = map (\<lambda>t. drop_bit 8 t XOR crc_table 0 ! unat (t AND 0xFF)) (crc_table k)"

definition GenerateCrc32Tables :: "u32 list list" where
  "GenerateCrc32Tables = map crc_table [0 ..< 8]"

abbreviation tbl :: "nat \<Rightarrow> u32 \<Rightarrow> u32" where
  "tbl k i \<equiv> GenerateCrc32Tables ! k ! unat i"

fun crc_tail :: "u32 \<Rightarrow> bytes \<Rightarrow> u32" where
  "crc_tail crc [] = crc"
| "crc_tail crc (b # bs) = crc_tail (tbl 0 ((crc XOR ucast b) AND 0xFF) XOR drop_bit 8 crc) bs"

definition crc_slice8 :: "u32 \<Rightarrow> u32 \<Rightarrow> u32 \<Rightarrow> u32" where
  "crc_slice8 crc lo high =
     (let low = lo XOR crc in
        tbl 7 (low AND 0xFF) XOR tbl 6 (drop_bit 8 low AND 0xFF) XOR
        tbl 5 (drop_bit 16 low AND 0xFF) XOR tbl 4 (drop_bit 24 low) XOR
        tbl 3 (high AND 0xFF) XOR tbl 2 (drop_bit 8 high AND 0xFF) XOR
        tbl 1 (drop_bit 16 high AND 0xFF) XOR tbl 0 (drop_bit 24 high))"

function Crc32Update :: "u32 \<Rightarrow> bytes \<Rightarrow> u32" where
  "Crc32Update crc data =
     (if 8 \<le> length data
      then Crc32Update (crc_slice8 crc (GetLE (take 4 data)) (GetLE (take 4 (drop 4 data)))) (drop 8 data)
      else crc_tail crc data)"
  by pat_completeness auto
termination
  by (relation "measure (\<lambda>(crc, data). length data)") auto

declare Crc32Update.simps [simp del]

definition Crc32 :: "bytes \<Rightarrow> u32" where
  "Crc32 data = Crc32Update 0xFFFFFFFF data XOR 0xFFFFFFFF"

definition Crc32WithZeroedField :: "bytes \<Rightarrow> nat \<Rightarrow> u32" where
  "Crc32WithZeroedField data field_offset =
     (let crc = Crc32Update 0xFFFFFFFF (take field_offset data);
          crc = Crc32Update crc [0, 0, 0, 0];
          crc = Crc32Update crc (drop (field_offset + 4) data)
      in crc XOR 0xFFFFFFFF)"

text \<open>The bit-serial reference: feed each byte, then eight shift steps.\<close>

definition crc_ref_byte :: "byte \<Rightarrow> u32 \<Rightarrow> u32" where
  "crc_ref_byte b crc = (crc_bit ^^ 8) (crc XOR ucast b)"

definition crc_ref :: "u32 \<Rightarrow> bytes \<Rightarrow> u32" where
  "crc_ref crc bs = fold crc_ref_byte bs crc"

subsection \<open>Linearity of the shift register\<close>

lemma crc_bit_alt:
  "crc_bit c = drop_bit 1 c XOR (if bit c 0 then 0xEDB88320 else 0)"
  by (simp add: crc_bit_def and_one_eq bit_0 flip: odd_iff_mod_2_eq_one)

lemma crc_bit_xor: "crc_bit (a XOR b) = crc_bit a XOR crc_bit b"
  by (auto simp: crc_bit_alt bit_simps ac_simps xor.assoc xor.left_commute)

lemma crc_bits_xor: "(crc_bit ^^ n) (a XOR b) = (crc_bit ^^ n) a XOR (crc_bit ^^ n) b"
  by (induction n) (simp_all add: crc_bit_xor)

lemma crc_bit_push:
  assumes "\<not> bit d (31 - n)" and "n < 32"
  shows "crc_bit (push_bit (Suc n) d) = push_bit n d"
proof -
  have "drop_bit 1 (push_bit (Suc n) d) = push_bit n d"
  proof (rule bit_word_eqI)
    fix k assume "k < LENGTH(32)"
    then show "bit (drop_bit 1 (push_bit (Suc n) d)) k \<longleftrightarrow> bit (push_bit n d) k"
      using assms by (cases "k = 31") (auto simp: bit_drop_bit_eq bit_push_bit_iff simp del: push_bit_Suc)
  qed
  moreover have "\<not> bit (push_bit (Suc n) d) 0"
    by (simp add: bit_push_bit_iff del: push_bit_Suc)
  ultimately show ?thesis by (simp add: crc_bit_alt del: push_bit_Suc)
qed

lemma crc_bits_push:
  assumes "\<And>j. 24 \<le> j \<Longrightarrow> \<not> bit (d::u32) j"
  shows "n \<le> 8 \<Longrightarrow> (crc_bit ^^ n) (push_bit n d) = d"
proof (induction n)
  case 0
  then show ?case by simp
next
  case (Suc n)
  then have "crc_bit (push_bit (Suc n) d) = push_bit n d"
    by (intro crc_bit_push assms) auto
  with Suc show ?case by (simp add: funpow_Suc_right del: funpow.simps)
qed

definition crc_byte :: "u32 \<Rightarrow> u32" where
  "crc_byte c = (crc_bit ^^ 8) c"

lemma crc_byte_xor: "crc_byte (a XOR b) = crc_byte a XOR crc_byte b"
  by (simp add: crc_byte_def crc_bits_xor)

lemma crc_byte_pow_xor: "(crc_byte ^^ n) (a XOR b) = (crc_byte ^^ n) a XOR (crc_byte ^^ n) b"
  by (induction n) (simp_all add: crc_byte_xor)

lemma crc_byte_push: "(\<And>j. 24 \<le> j \<Longrightarrow> \<not> bit d j) \<Longrightarrow> crc_byte (push_bit 8 d) = d"
  unfolding crc_byte_def by (rule crc_bits_push) auto

lemma and_FF: "(c::u32) AND 0xFF = take_bit 8 c"
  by (simp add: take_bit_eq_mask mask_eq_exp_minus_1)

lemma word_split_byte: "(c::u32) = push_bit 8 (drop_bit 8 c) XOR (c AND 0xFF)"
  unfolding and_FF by (rule bit_word_eqI) (auto simp: bit_simps)

lemma crc_byte_split: "crc_byte c = drop_bit 8 c XOR crc_byte (c AND 0xFF)"
proof -
  have "\<And>j. 24 \<le> j \<Longrightarrow> \<not> bit (drop_bit 8 c) j"
    using bit_imp_le_length [of c] by (fastforce simp: bit_simps)
  then have "crc_byte (push_bit 8 (drop_bit 8 c)) = drop_bit 8 c"
    by (rule crc_byte_push)
  then show ?thesis
    using crc_byte_xor [of "push_bit 8 (drop_bit 8 c)" "c AND 0xFF"] by (simp flip: word_split_byte)
qed


subsection \<open>The tables hold powers of the byte step\<close>

lemma unat_and_FF: "unat ((c::u32) AND 0xFF) < 256"
proof -
  have "unat (take_bit 8 c) = take_bit 8 (unat c)" by (simp add: unsigned_take_bit_eq)
  also have "\<dots> < 256" using take_bit_nat_less_exp [of 8 "unat c"] by simp
  finally show ?thesis by (simp add: and_FF)
qed

lemma length_crc_table [simp]: "length (crc_table k) = 256"
  by (induction k) simp_all

lemma crc_table_nth: "n < 256 \<Longrightarrow> crc_table k ! n = (crc_byte ^^ Suc k) (of_nat n)"
proof (induction k)
  case 0
  then show ?case by (simp add: crc_byte_def)
next
  case (Suc k)
  let ?t = "crc_table k ! n"
  have "crc_table 0 ! unat (?t AND 0xFF) = crc_byte (?t AND 0xFF)"
    using unat_and_FF [of ?t] by (simp add: crc_byte_def del: word_of_nat_eq_0_iff)
  with Suc.prems have "crc_table (Suc k) ! n = crc_byte ?t"
    by (simp add: crc_byte_split [of ?t])
  with Suc show ?case by simp
qed

lemma tbl_eq: "k < 8 \<Longrightarrow> unat i < 256 \<Longrightarrow> tbl k i = (crc_byte ^^ Suc k) i"
  by (simp add: GenerateCrc32Tables_def crc_table_nth del: funpow.simps)

lemma crc_byte_pow_split:
  "(crc_byte ^^ Suc n) w = (crc_byte ^^ n) (drop_bit 8 w) XOR (crc_byte ^^ Suc n) (w AND 0xFF)"
proof -
  have "(crc_byte ^^ Suc n) w = (crc_byte ^^ n) (drop_bit 8 w XOR crc_byte (w AND 0xFF))"
    by (simp only: funpow_Suc_right o_def crc_byte_split [of w])
  then show ?thesis by (simp only: crc_byte_pow_xor funpow_Suc_right o_def)
qed

lemma unat_drop_bit_24: "unat (drop_bit 24 (w::u32)) < 256"
proof -
  have "unat (drop_bit 24 w) = unat w div 2 ^ 24"
    by (simp add: drop_bit_eq_div unat_div)
  moreover have "unat w < 2 ^ 32" using unsigned_less [where ?'a = nat, of w] by simp
  ultimately show ?thesis by (simp add: less_mult_imp_div_less)
qed

lemma crc_byte_pow_4:
  assumes "3 \<le> n" and "n < 8"
  shows "(crc_byte ^^ Suc n) w =
    tbl n (w AND 0xFF) XOR tbl (n - 1) (drop_bit 8 w AND 0xFF) XOR
    tbl (n - 2) (drop_bit 16 w AND 0xFF) XOR tbl (n - 3) (drop_bit 24 w)"
proof -
  from assms obtain m where n: "n = Suc (Suc (Suc m))"
    by (metis Suc_le_D numeral_3_eq_3 Suc_le_mono)
  have s1: "(crc_byte ^^ Suc n) w = (crc_byte ^^ n) (drop_bit 8 w) XOR tbl n (w AND 0xFF)"
    using assms crc_byte_pow_split [of n w] by (simp add: tbl_eq unat_and_FF del: funpow.simps)
  have s2: "(crc_byte ^^ n) (drop_bit 8 w) =
      (crc_byte ^^ (n - 1)) (drop_bit 16 w) XOR tbl (n - 1) (drop_bit 8 w AND 0xFF)"
    using assms crc_byte_pow_split [of "n - 1" "drop_bit 8 w"] n
    by (simp add: tbl_eq unat_and_FF drop_bit_drop_bit del: funpow.simps)
  have s3: "(crc_byte ^^ (n - 1)) (drop_bit 16 w) =
      (crc_byte ^^ (n - 2)) (drop_bit 24 w) XOR tbl (n - 2) (drop_bit 16 w AND 0xFF)"
    using assms crc_byte_pow_split [of "n - 2" "drop_bit 16 w"] n
    by (simp add: tbl_eq unat_and_FF drop_bit_drop_bit del: funpow.simps)
  have s4: "(crc_byte ^^ (n - 2)) (drop_bit 24 w) = tbl (n - 3) (drop_bit 24 w)"
    using assms n by (simp add: tbl_eq unat_drop_bit_24 del: funpow.simps)
  show ?thesis by (simp only: s1 s2 s3 s4) (simp only: xor.assoc xor.commute xor.left_commute)
qed

subsection \<open>Slicing-by-8 equals the bit-serial reference\<close>

lemma crc_ref_byte_alt: "crc_ref_byte b c = crc_byte (c XOR ucast b)"
  by (simp add: crc_ref_byte_def crc_byte_def)

lemma drop_bit_8_byte: "drop_bit 8 (ucast (b::byte) :: u32) = 0"
  by (rule bit_word_eqI) (auto simp: bit_simps dest: bit_imp_le_length)

lemma crc_tail_step: "tbl 0 ((c XOR ucast b) AND 0xFF) XOR drop_bit 8 c = crc_ref_byte b c"
  using crc_byte_split [of "c XOR ucast b"]
  by (simp add: crc_ref_byte_alt tbl_eq unat_and_FF drop_bit_8_byte xor.commute xor.left_commute)

lemma crc_tail_ref: "crc_tail c bs = crc_ref c bs"
  by (induction bs arbitrary: c) (simp_all add: crc_ref_def crc_tail_step)

lemma crc_ref_append: "crc_ref c (xs @ ys) = crc_ref (crc_ref c xs) ys"
  by (simp add: crc_ref_def)

lemma GetLE_Cons_xor: "(GetLE (b # bs) :: u32) = ucast b XOR push_bit 8 (GetLE bs)"
  by (rule bit_word_eqI) (auto simp: bit_simps dest: bit_imp_le_length)

lemma crc_ref_word:
  "length bs \<le> 4 \<Longrightarrow> crc_ref c bs = (crc_byte ^^ length bs) (c XOR GetLE bs)"
proof (induction bs arbitrary: c)
  case Nil
  then show ?case by (simp add: crc_ref_def)
next
  case (Cons b bs)
  have hi: "crc_byte (push_bit 8 (GetLE bs)) = GetLE bs"
    using Cons.prems by (intro crc_byte_push) (auto simp: bit_GetLE)
  have "crc_ref c (b # bs) = crc_ref (crc_byte (c XOR ucast b)) bs"
    by (simp add: crc_ref_def crc_ref_byte_alt)
  also have "\<dots> = (crc_byte ^^ length bs) (crc_byte (c XOR ucast b) XOR GetLE bs)"
    using Cons by simp
  also have "crc_byte (c XOR ucast b) XOR GetLE bs = crc_byte (c XOR GetLE (b # bs))"
    by (simp add: GetLE_Cons_xor crc_byte_xor hi xor.assoc del: GetLE.simps)
  finally show ?case by (simp only: length_Cons funpow_Suc_right o_def)
qed

lemma crc_slice8_ref:
  assumes "length lo = 4" and "length hi = 4"
  shows "crc_slice8 c (GetLE lo) (GetLE hi) = crc_ref c (lo @ hi)"
proof -
  let ?low = "GetLE lo XOR c" and ?high = "GetLE hi :: u32"
  have "crc_ref c (lo @ hi) = (crc_byte ^^ 4) ((crc_byte ^^ 4) ?low XOR ?high)"
    using assms by (simp add: crc_ref_append crc_ref_word xor.commute)
  also have "\<dots> = (crc_byte ^^ Suc 7) ?low XOR (crc_byte ^^ Suc 3) ?high"
    by (simp add: crc_byte_xor eval_nat_numeral)
  also have "\<dots> = crc_slice8 c (GetLE lo) ?high"
    unfolding crc_slice8_def Let_def
    by (simp only: crc_byte_pow_4 [of 7 ?low] crc_byte_pow_4 [of 3 ?high]) (simp add: xor.assoc)
  finally show ?thesis by simp
qed

lemma Crc32Update_ref: "Crc32Update c data = crc_ref c data"
proof (induction c data rule: Crc32Update.induct)
  case (1 c data)
  show ?case
  proof (cases "8 \<le> length data")
    case True
    then have "take 4 data @ take 4 (drop 4 data) = take 8 data"
      using take_add [of 4 4 data] by simp
    with True have "crc_slice8 c (GetLE (take 4 data)) (GetLE (take 4 (drop 4 data))) = crc_ref c (take 8 data)"
      by (subst crc_slice8_ref) auto
    with True 1 show ?thesis
      by (simp add: Crc32Update.simps [of c data] crc_ref_append [symmetric])
  next
    case False
    then show ?thesis by (simp add: Crc32Update.simps [of c data] crc_tail_ref)
  qed
qed

lemma Crc32Update_append: "Crc32Update c (xs @ ys) = Crc32Update (Crc32Update c xs) ys"
  by (simp add: Crc32Update_ref crc_ref_append)

subsection \<open>Injectivity of the shift register\<close>

lemma xor_cancel_right: "(a::u32) XOR c = b XOR c \<Longrightarrow> a = b"
proof -
  assume "a XOR c = b XOR c"
  then have "(a XOR c) XOR c = (b XOR c) XOR c" by (simp only:)
  then show "a = b" by (simp only: xor.assoc xor_self_eq xor.right_neutral)
qed

lemma xor_cancel_left: "(c::u32) XOR a = c XOR b \<Longrightarrow> a = b"
  by (rule xor_cancel_right [of a c b]) (simp only: xor.commute)

lemma crc_bit_eq_0: "crc_bit c = 0 \<Longrightarrow> c = 0"
proof -
  assume z: "crc_bit c = 0"
  have b31: "bit (0xEDB88320 :: u32) 31" by simp
  have nb: "\<not> bit (drop_bit 1 c) 31"
    using bit_imp_le_length [of c 32] by (auto simp: bit_drop_bit_eq)
  have even: "\<not> bit c 0"
  proof
    assume "bit c 0"
    with z have "drop_bit 1 c XOR 0xEDB88320 = 0" by (simp add: crc_bit_alt)
    then have "\<not> bit (drop_bit 1 c XOR 0xEDB88320) 31" by simp
    then show False using b31 nb by (simp only: bit_xor_iff) simp
  qed
  with z have d: "drop_bit 1 c = 0" by (simp add: crc_bit_alt)
  show "c = 0"
  proof (rule bit_word_eqI)
    fix k show "bit c k = bit 0 k"
    proof (cases k)
      case (Suc j)
      have "bit (drop_bit 1 c) j = bit c (Suc j)" by (simp add: bit_drop_bit_eq)
      with d Suc show ?thesis by simp
    qed (use even in simp)
  qed
qed

lemma crc_byte_eq_0: "crc_byte c = 0 \<Longrightarrow> c = 0"
proof -
  have "(crc_bit ^^ n) c = 0 \<Longrightarrow> c = 0" for n
    by (induction n) (auto dest: crc_bit_eq_0)
  then show "crc_byte c = 0 \<Longrightarrow> c = 0" by (simp add: crc_byte_def)
qed

lemma crc_byte_pow_inj: "(crc_byte ^^ n) a = (crc_byte ^^ n) b \<Longrightarrow> a = b"
proof -
  assume eq: "(crc_byte ^^ n) a = (crc_byte ^^ n) b"
  have "(crc_byte ^^ n) (a XOR b) = 0" by (simp add: crc_byte_pow_xor eq)
  moreover have "(crc_byte ^^ m) c = 0 \<Longrightarrow> c = 0" for m c
    by (induction m) (auto dest: crc_byte_eq_0)
  ultimately have "a XOR b = 0" by blast
  then have "a XOR b = b XOR b" by simp
  then show "a = b" by (rule xor_cancel_right)
qed

lemma crc_ref_inj: "crc_ref a bs = crc_ref b bs \<Longrightarrow> a = b"
proof (induction bs arbitrary: a b)
  case (Cons x bs)
  then have "crc_byte (a XOR ucast x) = crc_byte (b XOR ucast x)"
    by (auto simp: crc_ref_def crc_ref_byte_alt)
  then have "a XOR ucast x = b XOR ucast x"
    using crc_byte_pow_inj [of 1] by simp
  then show ?case by (rule xor_cancel_right)
qed (simp add: crc_ref_def)

lemma GetLE_inj32:
  assumes "length xs = length ys" and "length xs \<le> 4" and "(GetLE xs :: u32) = GetLE ys"
  shows "xs = ys"
proof (rule nth_equalityI)
  fix i assume i: "i < length xs"
  show "xs ! i = ys ! i"
  proof (rule bit_word_eqI)
    fix k assume k: "k < LENGTH(8)"
    have "bit (GetLE xs :: u32) (8 * i + k) = bit (GetLE ys :: u32) (8 * i + k)"
      using assms(3) by simp
    moreover have "8 * i + k < 32" using i k assms(2) by simp
    ultimately show "bit (xs ! i) k = bit (ys ! i) k"
      using i k assms(1) by (simp add: bit_GetLE)
  qed
qed (use assms in simp)

subsection \<open>Properties\<close>

text \<open>
  C32: the table-driven slicing-by-8 CRC-32 of page.cc returns, on every input, the
  bit-serial CRC-32 with the reflected polynomial 0xEDB88320, initial value and final XOR
  0xFFFFFFFF; and on the digits 1 to 9 it returns the published check value of that CRC, 0xCBF43926.
\<close>

theorem Crc32_is_bit_serial_crc:
  "Crc32 data = crc_ref 0xFFFFFFFF data XOR 0xFFFFFFFF \<and> Crc32 [49, 50, 51, 52, 53, 54, 55, 56, 57] = 0xCBF43926"
proof
  show e: "Crc32 data = crc_ref 0xFFFFFFFF data XOR 0xFFFFFFFF" for data by (simp add: Crc32_def Crc32Update_ref)
  have b: "crc_ref_byte b c = crc_bit (crc_bit (crc_bit (crc_bit (crc_bit (crc_bit (crc_bit (crc_bit (c XOR ucast b))))))))" for b c
    by (simp add: crc_ref_byte_def numeral_eq_Suc)
  show "Crc32 [49, 50, 51, 52, 53, 54, 55, 56, 57] = 0xCBF43926"
    unfolding e by (simp add: crc_ref_def b crc_bit_def)
qed

text \<open>
  A checksum never feeds into its own computation. The checksum with a zeroed field is
  the CRC-32 of the whole buffer in which the four field bytes are replaced by zeros, so it does not depend
  on the value stored in the field.
\<close>

theorem Crc32WithZeroedField_ignores_field:
  assumes "field_offset + 4 \<le> length data" and "length stored = 4"
  shows "Crc32WithZeroedField (take field_offset data @ stored @ drop (field_offset + 4) data) field_offset
           = Crc32 (take field_offset data @ [0, 0, 0, 0] @ drop (field_offset + 4) data)"
  using assms
  by (simp add: Crc32WithZeroedField_def Crc32_def Crc32Update_append [symmetric] Let_def)

theorem Crc32WithZeroedField_ignores_field_witness:
  "Crc32WithZeroedField (take 1 [7, 8, 9, 10, 11, 12] @ [1, 2, 3, 4] @ drop (1 + 4) [7, 8, 9, 10, 11, 12]) 1
     = Crc32 (take 1 [7, 8, 9, 10, 11, 12] @ [0, 0, 0, 0] @ drop (1 + 4) [7, 8, 9, 10, 11, 12])"
  by (rule Crc32WithZeroedField_ignores_field) simp_all

text \<open>
  CRC-32 detects every corruption confined to four consecutive bytes: two buffers that
  agree outside one window of at most four bytes and differ inside it have different checksums.
\<close>

theorem Crc32_detects_burst:
  assumes "length ds = length es" and "length ds \<le> 4" and "ds \<noteq> es"
  shows "Crc32 (pre @ ds @ post) \<noteq> Crc32 (pre @ es @ post)"
proof
  let ?c = "crc_ref 0xFFFFFFFF pre"
  assume "Crc32 (pre @ ds @ post) = Crc32 (pre @ es @ post)"
  then have "crc_ref (crc_ref ?c ds) post = crc_ref (crc_ref ?c es) post"
    unfolding Crc32_def Crc32Update_ref crc_ref_append by (rule xor_cancel_right)
  then have "crc_ref ?c ds = crc_ref ?c es" by (rule crc_ref_inj)
  then have "(crc_byte ^^ length ds) (?c XOR GetLE ds) = (crc_byte ^^ length ds) (?c XOR GetLE es)"
    using assms by (simp add: crc_ref_word)
  then have "?c XOR GetLE ds = ?c XOR GetLE es" by (rule crc_byte_pow_inj)
  then have "(GetLE ds :: u32) = GetLE es" by (rule xor_cancel_left)
  with assms show False using GetLE_inj32 by blast
qed

theorem Crc32_detects_burst_witness:
  "Crc32 ([1, 2] @ [3, 4, 5] @ [6]) \<noteq> Crc32 ([1, 2] @ [3, 9, 5] @ [6])"
  by (rule Crc32_detects_burst) simp_all

end
