(* ===== verification/Page.thy ===== *)
theory Page
  imports Checksum "HOL-Library.Product_Lexorder"
begin

section \<open>Slotted pages (page_format.h, page.cc)\<close>

text \<open>
  A page is 4096 bytes: a 40-byte header, a slot directory of 8-byte entries that grows
  forward, and a record heap that grows backward from the end of the page. The header is
  a record of machine words (its bytes, offsets 0 to 39, are written out by
  \<open>header_bytes\<close>); everything from offset 40 on is byte memory, so the slot directory
  and the record heap share one address space and a write of one could destroy the other.

  The operations are \<^verbatim>\<open>Page::Init\<close>, \<^verbatim>\<open>GetRecordPtr\<close>, \<^verbatim>\<open>InsertRecord\<close>,
  \<^verbatim>\<open>InsertRecordAt\<close>, \<^verbatim>\<open>DeleteRecord\<close>, \<^verbatim>\<open>Compact\<close> and \<^verbatim>\<open>Validate\<close>. The theorems
  say that \<^verbatim>\<open>Validate\<close> decides the layout invariant, that every mutation keeps it and the
  space accounting, and that the page refines a list of records: an insertion inserts
  into that list and leaves every other record alone, compaction does not change it.
\<close>

unbundle bit_operations_syntax

subsection \<open>Header and slots\<close>

definition kPageSize :: nat where "kPageSize = 4096"
definition kHeaderSize :: nat where "kHeaderSize = 40"  \<comment> \<open>sizeof(PageHeader)\<close>
definition kSlotSize :: nat where "kSlotSize = 8"  \<comment> \<open>sizeof(SlotEntry)\<close>

lemmas layout_defs = kPageSize_def kHeaderSize_def kSlotSize_def

type_synonym PageType = "8 word"  \<comment> \<open>enum class PageType : uint8\_t; a page read from disk may hold any byte\<close>

definition kMeta :: PageType where "kMeta = 0"
definition kInternalNode :: PageType where "kInternalNode = 1"
definition kLeaf :: PageType where "kLeaf = 2"
definition kFree :: PageType where "kFree = 3"
definition kOverflow :: PageType where "kOverflow = 4"

lemmas page_type_defs = kMeta_def kInternalNode_def kLeaf_def kFree_def kOverflow_def

record PageHeader =
  page_id :: PageId
  ptype :: PageType
  flags :: byte
  num_slots :: u16
  page_lsn :: Lsn
  free_space_start :: u16
  free_space_end :: u16
  next_page :: PageId
  prev_page :: PageId
  checksum :: u32
  rightmost_child :: PageId
  dead_bytes :: u16
  reserved2 :: u16

definition header_Init :: "PageId \<Rightarrow> PageType \<Rightarrow> PageHeader" where
  "header_Init pid t = \<lparr>page_id = pid, ptype = t, flags = 0, num_slots = 0, page_lsn = kInvalidLsn,
     free_space_start = of_nat kHeaderSize, free_space_end = of_nat kPageSize,
     next_page = kInvalidPageId, prev_page = kInvalidPageId, checksum = 0,
     rightmost_child = kInvalidPageId, dead_bytes = 0, reserved2 = 0\<rparr>"

definition header_FreeSpace :: "PageHeader \<Rightarrow> u16" where
  "header_FreeSpace h =
     (if free_space_end h \<le> free_space_start h then 0
      else free_space_end h - free_space_start h)"

text \<open>The header as the compiler lays it out (little-endian, no padding).\<close>

definition header_bytes :: "PageHeader \<Rightarrow> bytes" where
  "header_bytes h =
     PutLE 4 (page_id h) @ [ptype h] @ [flags h] @ PutLE 2 (num_slots h) @ PutLE 8 (page_lsn h) @
     PutLE 2 (free_space_start h) @ PutLE 2 (free_space_end h) @ PutLE 4 (next_page h) @
     PutLE 4 (prev_page h) @ PutLE 4 (checksum h) @ PutLE 4 (rightmost_child h) @
     PutLE 2 (dead_bytes h) @ PutLE 2 (reserved2 h)"

definition header_of_bytes :: "bytes \<Rightarrow> PageHeader" where
  "header_of_bytes bs =
     (let f = (\<lambda>off n. take n (drop off bs)) in
      \<lparr>page_id = GetLE (f 0 4), ptype = bs ! 4, flags = bs ! 5, num_slots = GetLE (f 6 2),
       page_lsn = GetLE (f 8 8), free_space_start = GetLE (f 16 2), free_space_end = GetLE (f 18 2),
       next_page = GetLE (f 20 4), prev_page = GetLE (f 24 4), checksum = GetLE (f 28 4),
       rightmost_child = GetLE (f 32 4), dead_bytes = GetLE (f 36 2), reserved2 = GetLE (f 38 2)\<rparr>)"

record SlotEntry =
  s_offset :: u16
  s_length :: u16
  s_flags :: u16
  s_reserved :: u16

definition kFlagDeleted :: u16 where "kFlagDeleted = 1"

definition slot_Init :: "u16 \<Rightarrow> u16 \<Rightarrow> SlotEntry" where
  "slot_Init off len = \<lparr>s_offset = off, s_length = len, s_flags = 0, s_reserved = 0\<rparr>"

definition slot_IsValid :: "SlotEntry \<Rightarrow> bool" where
  "slot_IsValid s \<longleftrightarrow> s_flags s AND kFlagDeleted = 0"

definition slot_MarkDeleted :: "SlotEntry \<Rightarrow> SlotEntry" where
  "slot_MarkDeleted s = s\<lparr>s_flags := s_flags s OR kFlagDeleted\<rparr>"

definition slot_bytes :: "SlotEntry \<Rightarrow> bytes" where
  "slot_bytes s = PutLE 2 (s_offset s) @ PutLE 2 (s_length s) @ PutLE 2 (s_flags s) @ PutLE 2 (s_reserved s)"

definition slot_of_bytes :: "bytes \<Rightarrow> SlotEntry" where
  "slot_of_bytes bs = \<lparr>s_offset = GetLE (take 2 bs), s_length = GetLE (take 2 (drop 2 bs)),
     s_flags = GetLE (take 2 (drop 4 bs)), s_reserved = GetLE (take 2 (drop 6 bs))\<rparr>"

subsection \<open>The page class\<close>

record Page =
  hdr :: PageHeader
  dat :: mem

definition slot_addr :: "nat \<Rightarrow> nat" where
  "slot_addr i = kHeaderSize + i * kSlotSize"

definition slot_at :: "mem \<Rightarrow> nat \<Rightarrow> SlotEntry" where
  "slot_at m i = slot_of_bytes (mem_read m (slot_addr i) kSlotSize)"

definition slot_write :: "mem \<Rightarrow> nat \<Rightarrow> SlotEntry \<Rightarrow> mem" where
  "slot_write m i s = mem_write m (slot_addr i) (slot_bytes s)"

abbreviation slot :: "Page \<Rightarrow> nat \<Rightarrow> SlotEntry" where
  "slot p i \<equiv> slot_at (dat p) i"

definition Page_Init :: "PageId \<Rightarrow> PageType \<Rightarrow> Page" where
  "Page_Init pid t = \<lparr>hdr = header_Init pid t, dat = (\<lambda>_. 0)\<rparr>"

definition nslots :: "Page \<Rightarrow> nat" where "nslots p = unat (num_slots (hdr p))"
definition fstart :: "Page \<Rightarrow> nat" where "fstart p = unat (free_space_start (hdr p))"
definition fend :: "Page \<Rightarrow> nat" where "fend p = unat (free_space_end (hdr p))"
definition dead :: "Page \<Rightarrow> nat" where "dead p = unat (dead_bytes (hdr p))"

lemmas view_defs = nslots_def fstart_def fend_def dead_def

definition GetRecordPtr :: "Page \<Rightarrow> nat \<Rightarrow> nat option" where
  "GetRecordPtr p i =
     (if nslots p \<le> i then None
      else if \<not> slot_IsValid (slot p i) then None
      else Some (unat (s_offset (slot p i))))"

definition GetRecordLength :: "Page \<Rightarrow> nat \<Rightarrow> u16" where
  "GetRecordLength p i =
     (if nslots p \<le> i then 0
      else if \<not> slot_IsValid (slot p i) then 0
      else s_length (slot p i))"

definition GetRecordView :: "Page \<Rightarrow> nat \<Rightarrow> bytes" where
  "GetRecordView p i =
     (case GetRecordPtr p i of None \<Rightarrow> []
      | Some a \<Rightarrow> mem_read (dat p) a (unat (GetRecordLength p i)))"

definition FreeSpace :: "Page \<Rightarrow> u16" where
  "FreeSpace p = header_FreeSpace (hdr p)"

text \<open>The sum is computed in 16 bits, as in the source: it wraps for records near 64 KB.\<close>

definition CanFit :: "Page \<Rightarrow> u16 \<Rightarrow> bool" where
  "CanFit p record_size = (let needed = of_nat kSlotSize + record_size in needed \<le> FreeSpace p)"

text \<open>
  \<^verbatim>\<open>InsertRecord\<close> and \<^verbatim>\<open>InsertRecordAt\<close> stand for the code on sizes for which that sum does not wrap, below 65528. For a wrapped
  size the code copies past the end of the page, which C++ leaves undefined; no theorem says anything about the value here.
\<close>

definition InsertRecord :: "Page \<Rightarrow> bytes \<Rightarrow> u16 \<Rightarrow> nat Result \<times> Page" where
  "InsertRecord p data len =
     (if \<not> CanFit p len then (Inl kNoSpace, p)
      else
        let new_slot_id = nslots p;
            new_data_offset = free_space_end (hdr p) - len;
            n = num_slots (hdr p) + 1;
            h = (hdr p)\<lparr>num_slots := n,
                  free_space_start := of_nat kHeaderSize + n * of_nat kSlotSize,
                  free_space_end := new_data_offset\<rparr>;
            m = slot_write (dat p) new_slot_id (slot_Init new_data_offset len);
            m = mem_write m (unat new_data_offset) (take (unat len) data)
        in (Inr new_slot_id, \<lparr>hdr = h, dat = m\<rparr>))"

definition InsertRecordAt :: "Page \<Rightarrow> nat \<Rightarrow> bytes \<Rightarrow> u16 \<Rightarrow> nat Result \<times> Page" where
  "InsertRecordAt p index data len =
     (if nslots p < index then (Inl kInvalidArgument, p)
      else if \<not> CanFit p len then (Inl kNoSpace, p)
      else
        let new_data_offset = free_space_end (hdr p) - len;
            m = mem_write (dat p) (slot_addr (index + 1))
                  (mem_read (dat p) (slot_addr index) ((nslots p - index) * kSlotSize));
            m = slot_write m index (slot_Init new_data_offset len);
            n = num_slots (hdr p) + 1;
            h = (hdr p)\<lparr>num_slots := n,
                  free_space_start := of_nat kHeaderSize + n * of_nat kSlotSize,
                  free_space_end := new_data_offset\<rparr>;
            m = mem_write m (unat new_data_offset) (take (unat len) data)
        in (Inr index, \<lparr>hdr = h, dat = m\<rparr>))"

definition DeleteRecord :: "Page \<Rightarrow> nat \<Rightarrow> Status \<times> Page" where
  "DeleteRecord p i =
     (if nslots p \<le> i then (kInvalidArgument, p)
      else let s = slot p i in
        if \<not> slot_IsValid s then (kNotFound, p)
        else (kOk, \<lparr>hdr = (hdr p)\<lparr>dead_bytes := dead_bytes (hdr p) + s_length s\<rparr>,
                    dat = slot_write (dat p) i (slot_MarkDeleted s)\<rparr>))"

text \<open>The loop of \<^verbatim>\<open>Compact\<close>: slot \<open>i\<close> onwards, \<open>scratch\<close> being rebuilt, \<open>e\<close> the variable \<^verbatim>\<open>end\<close>.\<close>

function compact_loop :: "mem \<Rightarrow> nat \<Rightarrow> nat \<Rightarrow> mem \<Rightarrow> u16 \<Rightarrow> mem \<times> u16" where
  "compact_loop old n i scratch e =
     (if i < n then
        let out = slot_at scratch i in
        if \<not> slot_IsValid out
        then compact_loop old n (i + 1) (slot_write scratch i (out\<lparr>s_offset := 0, s_length := 0\<rparr>)) e
        else
          let e' = e - s_length out;
              scratch = mem_write scratch (unat e') (mem_read old (unat (s_offset out)) (unat (s_length out)))
          in compact_loop old n (i + 1) (slot_write scratch i (out\<lparr>s_offset := e'\<rparr>)) e'
      else (scratch, e))"
  by pat_completeness auto
termination
  by (relation "measure (\<lambda>(old, n, i, scratch, e). n - i)") auto

declare compact_loop.simps [simp del]

definition Compact :: "Page \<Rightarrow> Page" where
  "Compact p =
     (let scratch = mem_write (\<lambda>_. 0) kHeaderSize (mem_read (dat p) kHeaderSize (nslots p * kSlotSize));
          (scratch, e) = compact_loop (dat p) (nslots p) 0 scratch (of_nat kPageSize)
      in \<lparr>hdr = (hdr p)\<lparr>free_space_end := e, dead_bytes := 0\<rparr>, dat = scratch\<rparr>)"

fun adjacent_ok :: "(nat \<times> nat) list \<Rightarrow> bool" where
  "adjacent_ok (x # y # rest) = (if fst x + snd x > fst y then False else adjacent_ok (y # rest))"
| "adjacent_ok _ = True"

definition live_spans :: "Page \<Rightarrow> (nat \<times> nat) list" where
  "live_spans p = map (\<lambda>i. (unat (s_offset (slot p i)), unat (s_length (slot p i))))
     (filter (\<lambda>i. slot_IsValid (slot p i)) [0 ..< nslots p])"

definition Validate :: "Page \<Rightarrow> bool" where
  "Validate p =
     (if fstart p \<noteq> kHeaderSize + nslots p * kSlotSize then False
      else if fend p < fstart p \<or> kPageSize < fend p then False
      else if \<exists>x \<in> set (live_spans p). fst x < fend p \<or> kPageSize < fst x + snd x then False
      else adjacent_ok (sort (live_spans p)))"

text \<open>The 4096 bytes as they are checksummed and written to disk.\<close>

definition RawData :: "Page \<Rightarrow> bytes" where
  "RawData p = header_bytes (hdr p) @ mem_read (dat p) kHeaderSize (kPageSize - kHeaderSize)"

definition page_of_bytes :: "bytes \<Rightarrow> Page" where
  "page_of_bytes bs = \<lparr>hdr = header_of_bytes bs,
     dat = (\<lambda>k. if kHeaderSize \<le> k \<and> k < kPageSize then bs ! k else 0)\<rparr>"

definition ComputeChecksum :: "Page \<Rightarrow> u32" where
  "ComputeChecksum p = Crc32WithZeroedField (RawData p) 28"  \<comment> \<open>offsetof(PageHeader, checksum)\<close>

definition IsZeroed :: "Page \<Rightarrow> bool" where
  "IsZeroed p \<longleftrightarrow> list_all (\<lambda>b. b = 0) (RawData p)"

subsection \<open>Slots in page memory\<close>

lemma length_slot_bytes [simp]: "length (slot_bytes s) = kSlotSize"
  by (simp add: slot_bytes_def kSlotSize_def)

lemma slot_of_bytes_slot_bytes [simp]: "slot_of_bytes (slot_bytes s) = s"
  by (cases s) (simp add: slot_of_bytes_def slot_bytes_def le_simps)

lemma slot_addr_mono: "i < j \<Longrightarrow> slot_addr i + kSlotSize \<le> slot_addr j"
  by (simp add: slot_addr_def kSlotSize_def)

lemma slot_addr_Suc: "slot_addr (Suc i) = slot_addr i + kSlotSize"
  by (simp add: slot_addr_def)

lemma slot_at_slot_write [simp]:
  "slot_at (slot_write m i s) j = (if i = j then s else slot_at m j)"
proof (cases "i = j")
  case False
  then have "slot_addr i + kSlotSize \<le> slot_addr j \<or> slot_addr j + kSlotSize \<le> slot_addr i"
    by (cases "i < j") (auto simp: slot_addr_mono)
  with False show ?thesis
    by (auto simp: slot_at_def slot_write_def mem_read_write_disjoint)
qed (simp add: slot_at_def slot_write_def mem_read_write_same)

lemma slot_at_mem_write [simp]:
  "slot_addr (Suc j) \<le> a \<Longrightarrow> slot_at (mem_write m a xs) j = slot_at m j"
  by (simp add: slot_at_def slot_addr_Suc mem_read_write_disjoint)

lemma mem_read_slot_write [simp]:
  "slot_addr (Suc i) \<le> a \<Longrightarrow> mem_read (slot_write m i s) a n = mem_read m a n"
  by (simp add: slot_write_def slot_addr_Suc mem_read_write_disjoint)

lemma slot_write_out:
  "slot_addr (Suc i) \<le> k \<Longrightarrow> slot_write m i s k = m k"
  by (simp add: slot_write_def slot_addr_Suc mem_write_out)

text \<open>Moving the tail of the slot directory up by one entry.\<close>

lemma slot_at_shift:
  fixes m :: mem and n i :: nat
  defines "m' \<equiv> mem_write m (slot_addr (Suc i)) (mem_read m (slot_addr i) ((n - i) * kSlotSize))"
  assumes "i \<le> n" and "j \<le> n"
  shows "slot_at m' j = (if j \<le> i then slot_at m j else slot_at m (j - 1))"
proof (cases "j \<le> i")
  case True
  then have "slot_addr (Suc j) \<le> slot_addr (Suc i)" by (simp add: slot_addr_def)
  with True show ?thesis unfolding m'_def by simp
next
  case False
  then obtain k where j: "j = Suc k" and k: "i \<le> k" by (cases j) auto
  have d: "slot_addr j - slot_addr (Suc i) = (k - i) * kSlotSize"
    unfolding slot_addr_def j kSlotSize_def kHeaderSize_def using k by (simp add: diff_mult_distrib)
  have e: "slot_addr i + (k - i) * kSlotSize = slot_addr k"
    unfolding slot_addr_def kSlotSize_def kHeaderSize_def using k by (simp add: diff_mult_distrib)
  have f: "(k - i) * kSlotSize + kSlotSize \<le> (n - i) * kSlotSize"
    using assms(3) j k by (simp add: kSlotSize_def)
  have "mem_read m' (slot_addr j) kSlotSize =
        take kSlotSize (drop (slot_addr j - slot_addr (Suc i)) (mem_read m (slot_addr i) ((n - i) * kSlotSize)))"
    unfolding m'_def
    using j k f d by (intro mem_read_write_inside) (auto simp: slot_addr_def kSlotSize_def kHeaderSize_def)
  also have "\<dots> = mem_read m (slot_addr k) kSlotSize"
    unfolding d using mem_read_inside [OF f, of m "slot_addr i"] e by simp
  finally show ?thesis using False j by (simp add: slot_at_def)
qed

subsection \<open>The layout invariant and what Validate decides\<close>

definition live :: "Page \<Rightarrow> nat \<Rightarrow> bool" where
  "live p i \<longleftrightarrow> i < nslots p \<and> slot_IsValid (slot p i)"

definition roff :: "Page \<Rightarrow> nat \<Rightarrow> nat" where "roff p i = unat (s_offset (slot p i))"
definition rlen :: "Page \<Rightarrow> nat \<Rightarrow> nat" where "rlen p i = unat (s_length (slot p i))"

definition apart :: "nat \<times> nat \<Rightarrow> nat \<times> nat \<Rightarrow> bool" where
  "apart x y \<longleftrightarrow> fst x + snd x \<le> fst y \<or> fst y + snd y \<le> fst x"

definition layout_ok :: "Page \<Rightarrow> bool" where
  "layout_ok p \<longleftrightarrow>
     fstart p = kHeaderSize + nslots p * kSlotSize \<and> fstart p \<le> fend p \<and> fend p \<le> kPageSize \<and>
     (\<forall>i. live p i \<longrightarrow> fend p \<le> roff p i \<and> roff p i + rlen p i \<le> kPageSize) \<and>
     (\<forall>i j. i < j \<longrightarrow> live p i \<longrightarrow> live p j \<longrightarrow> apart (roff p i, rlen p i) (roff p j, rlen p j))"

lemma sorted_wrt_insort:
  assumes "\<And>x y. D x y = D y x"
  shows "sorted_wrt D (insort x xs) \<longleftrightarrow> sorted_wrt D (x # xs)"
  using assms by (induction xs) (auto simp: set_insort_key)

lemma sorted_wrt_sort:
  assumes "\<And>x y. D x y = D y x"
  shows "sorted_wrt D (sort xs) \<longleftrightarrow> sorted_wrt D xs"
  by (induction xs) (use sorted_wrt_insort [of D, OF assms] in auto)

lemma adjacent_ok_iff:
  "adjacent_ok xs \<longleftrightarrow> sorted_wrt (\<lambda>x y. fst x + snd x \<le> fst y) xs"
proof (induction xs rule: adjacent_ok.induct)
  case (1 x y rest)
  show ?case
  proof (cases "fst x + snd x \<le> fst y")
    case True
    then have "\<forall>z \<in> set rest. fst y + snd y \<le> fst z \<longrightarrow> fst x + snd x \<le> fst z" by auto
    with 1 True show ?thesis by auto
  qed simp
qed auto

lemma adjacent_ok_sort: "adjacent_ok (sort xs) \<longleftrightarrow> sorted_wrt apart xs"
proof -
  have sym: "apart x y = apart y x" for x y by (auto simp: apart_def)
  have "sorted_wrt (\<lambda>x y. fst x + snd x \<le> fst y) (sort xs) \<longleftrightarrow> sorted_wrt apart (sort xs)" (is "?l = ?r")
  proof
    show "?l \<Longrightarrow> ?r" by (erule sorted_wrt_mono_rel [rotated]) (simp add: apart_def)
    assume ?r
    then have "sorted_wrt (\<lambda>x y. x \<le> y \<and> apart x y) (sort xs)"
      using sorted_sort [of xs] by (simp add: sorted_wrt_iff_nth_less)
    then show ?l
      by (rule sorted_wrt_mono_rel [rotated]) (auto simp: apart_def less_eq_prod_def)
  qed
  then show ?thesis by (simp add: adjacent_ok_iff sorted_wrt_sort sym)
qed

lemma sorted_wrt_filter_upt:
  "sorted_wrt D (map f (filter P [0 ..< n])) \<longleftrightarrow>
     (\<forall>i j. i < j \<longrightarrow> j < n \<longrightarrow> P i \<longrightarrow> P j \<longrightarrow> D (f i) (f j))"
  by (induction n) (auto simp: sorted_wrt_append less_Suc_eq)

lemma Validate_iff: "Validate p \<longleftrightarrow> layout_ok p"
proof -
  have "adjacent_ok (sort (live_spans p)) \<longleftrightarrow>
      (\<forall>i j. i < j \<longrightarrow> live p i \<longrightarrow> live p j \<longrightarrow> apart (roff p i, rlen p i) (roff p j, rlen p j))"
    unfolding adjacent_ok_sort live_spans_def sorted_wrt_filter_upt live_def roff_def rlen_def by auto
  moreover have "(\<exists>x \<in> set (live_spans p). fst x < fend p \<or> kPageSize < fst x + snd x) \<longleftrightarrow>
      \<not> (\<forall>i. live p i \<longrightarrow> fend p \<le> roff p i \<and> roff p i + rlen p i \<le> kPageSize)"
    by (auto simp: live_spans_def live_def roff_def rlen_def not_le not_less)
  ultimately show ?thesis
    unfolding Validate_def layout_ok_def by (auto simp: not_less)
qed

subsection \<open>Space accounting and the record view\<close>

text \<open>
  \<open>live_sum m n\<close> is the number of record bytes the live slots below \<open>n\<close> hold;
  \<open>page_ok\<close> adds to the layout invariant that live bytes, dead bytes and the free space
  account for the whole page. \<open>slots_view\<close> is the abstract content: one entry per slot,
  \<open>None\<close> for a tombstone.
\<close>

definition live_sum :: "mem \<Rightarrow> nat \<Rightarrow> nat" where
  "live_sum m n = (\<Sum>i<n. if slot_IsValid (slot_at m i) then unat (s_length (slot_at m i)) else 0)"

definition page_ok :: "Page \<Rightarrow> bool" where
  "page_ok p \<longleftrightarrow> layout_ok p \<and> fend p + live_sum (dat p) (nslots p) + dead p = kPageSize"

definition slot_view :: "mem \<Rightarrow> nat \<Rightarrow> bytes option" where
  "slot_view m i = (let s = slot_at m i in
     if slot_IsValid s then Some (mem_read m (unat (s_offset s)) (unat (s_length s))) else None)"

definition slots_view :: "Page \<Rightarrow> bytes option list" where
  "slots_view p = map (slot_view (dat p)) [0 ..< nslots p]"

lemma length_slots_view [simp]: "length (slots_view p) = nslots p"
  by (simp add: slots_view_def)

lemma nth_slots_view [simp]: "i < nslots p \<Longrightarrow> slots_view p ! i = slot_view (dat p) i"
  by (simp add: slots_view_def)

lemma slot_IsValid_Init [simp]: "slot_IsValid (slot_Init a b)"
  by (simp add: slot_IsValid_def slot_Init_def)

lemma slot_Init_simps [simp]: "s_offset (slot_Init a b) = a" "s_length (slot_Init a b) = b"
  by (simp_all add: slot_Init_def)

lemma slot_MarkDeleted_simps [simp]:
  "s_offset (slot_MarkDeleted s) = s_offset s" "s_length (slot_MarkDeleted s) = s_length s"
  "\<not> slot_IsValid (slot_MarkDeleted s)"
proof -
  have "bit ((s_flags s OR 1) AND 1) 0" by (simp add: bit_or_iff bit_and_iff del: or_one_eq)
  then have "(s_flags s OR 1) AND 1 \<noteq> 0" by auto
  then show "\<not> slot_IsValid (slot_MarkDeleted s)"
    by (simp add: slot_IsValid_def slot_MarkDeleted_def kFlagDeleted_def)
qed (simp_all add: slot_MarkDeleted_def)

lemma layout_bounds:
  assumes "layout_ok p"
  shows "nslots p \<le> 507" and "fstart p = 40 + nslots p * 8" and "fend p \<le> 4096"
    and "fstart p \<le> fend p" and "slot_addr (nslots p) = fstart p"
  using assms by (auto simp: layout_ok_def layout_defs slot_addr_def)

lemma unat_FreeSpace: "layout_ok p \<Longrightarrow> unat (FreeSpace p) = fend p - fstart p"
  using layout_bounds [of p]
  by (auto simp: FreeSpace_def header_FreeSpace_def fend_def fstart_def unat_sub_le word_le_nat_alt)

lemma CanFit_iff:
  assumes "layout_ok p" and "unat len < 65528"
  shows "CanFit p len \<longleftrightarrow> unat len + 8 \<le> fend p - fstart p"
proof -
  have "unat (8 + len) = 8 + unat len"
    using assms(2) by (subst unat_add_less) auto
  then show ?thesis
    using assms by (simp add: CanFit_def kSlotSize_def word_le_nat_alt unat_FreeSpace add.commute)
qed

lemma layout_apart:
  assumes "layout_ok p" and "live p i" and "live p j" and "i \<noteq> j"
  shows "roff p i + rlen p i \<le> roff p j \<or> roff p j + rlen p j \<le> roff p i"
proof -
  have "i < j \<or> j < i" using assms(4) by auto
  then have "apart (roff p i, rlen p i) (roff p j, rlen p j) \<or> apart (roff p j, rlen p j) (roff p i, rlen p i)"
    using assms(1-3) unfolding layout_ok_def by blast
  then show ?thesis by (auto simp: apart_def)
qed

subsection \<open>Insertion\<close>

lemma InsertRecord_eq: "InsertRecord p d l = InsertRecordAt p (nslots p) d l"
  by (simp add: InsertRecord_def InsertRecordAt_def Let_def)

lemma InsertRecordAt_post:
  assumes lo: "layout_ok p" and i: "i \<le> nslots p" and d: "length d = unat l"
    and fit: "unat l + 8 \<le> fend p - fstart p" and res: "InsertRecordAt p i d l = (r, q)"
  shows "r = Inr i" and "nslots q = Suc (nslots p)" and "fstart q = fstart p + 8"
    and "fend q = fend p - unat l" and "dead q = dead p"
    and "\<And>j. j \<le> nslots p \<Longrightarrow> slot q j =
           (if j < i then slot p j else if j = i then slot_Init (free_space_end (hdr q)) l else slot p (j - 1))"
    and "\<And>k. fend p \<le> k \<Longrightarrow> dat q k = dat p k"
    and "mem_read (dat q) (fend q) (unat l) = d"
    and "hdr q = (hdr p)\<lparr>num_slots := num_slots (hdr q), free_space_start := free_space_start (hdr q),
           free_space_end := free_space_end (hdr q)\<rparr>"
proof -
  note b = layout_bounds [OF lo]
  have lb: "unat l < 65528" using fit b by auto
  have cf: "CanFit p l" using CanFit_iff [OF lo lb] fit by simp
  let ?o = "free_space_end (hdr p) - l"
  let ?m1 = "mem_write (dat p) (slot_addr (Suc i)) (mem_read (dat p) (slot_addr i) ((nslots p - i) * kSlotSize))"
  let ?m2 = "slot_write ?m1 i (slot_Init ?o l)"
  have q: "r = Inr i" "q = \<lparr>hdr = (hdr p)\<lparr>num_slots := num_slots (hdr p) + 1,
      free_space_start := of_nat kHeaderSize + (num_slots (hdr p) + 1) * of_nat kSlotSize,
      free_space_end := ?o\<rparr>, dat = mem_write ?m2 (unat ?o) d\<rparr>"
    using res cf i d by (auto simp: InsertRecordAt_def Let_def)
  have uo: "unat ?o = fend p - unat l"
    using fit unfolding fend_def by (intro unat_sub_le) (simp add: word_le_nat_alt)
  have un: "unat (num_slots (hdr p) + 1) = Suc (nslots p)"
    using b(1) unfolding nslots_def by (subst unat_add_less) auto
  have us: "unat (of_nat kHeaderSize + (num_slots (hdr p) + 1) * of_nat kSlotSize) = fstart p + 8"
  proof -
    have "unat ((num_slots (hdr p) + 1) * (8::u16)) = Suc (nslots p) * 8"
      using b(1) by (simp only: unat_word_ariths(2) un) simp
    then show ?thesis
      using b by (subst unat_add_less) (auto simp: layout_defs)
  qed
  show "r = Inr i" by (rule q)
  show "nslots q = Suc (nslots p)" "fstart q = fstart p + 8" "fend q = fend p - unat l" "dead q = dead p"
    unfolding nslots_def fstart_def fend_def dead_def using q(2) un us uo
    by (auto simp: nslots_def fstart_def fend_def)
  have top: "slot_addr (Suc (nslots p)) \<le> unat ?o"
    using uo fit b by (simp add: slot_addr_def layout_defs)
  show "slot q j = (if j < i then slot p j else if j = i then slot_Init (free_space_end (hdr q)) l else slot p (j - 1))"
    if "j \<le> nslots p" for j
  proof -
    have "slot_addr (Suc j) \<le> unat ?o"
      using top that by (simp add: slot_addr_def kSlotSize_def)
    then show ?thesis
      using q(2) slot_at_shift [OF i that, of "dat p"] by auto
  qed
  show "dat q k = dat p k" if "fend p \<le> k" for k
  proof -
    have k: "unat ?o + length d \<le> k" "slot_addr (Suc (nslots p)) \<le> k"
      using that uo d top fit by auto
    moreover have "slot_addr (Suc i) \<le> k" "slot_addr (Suc i) + (nslots p - i) * kSlotSize \<le> k"
      using k(2) i by (auto simp: slot_addr_def layout_defs)
    ultimately show ?thesis
      using q(2) by (simp add: mem_write_out slot_write_out)
  qed
  show "mem_read (dat q) (fend q) (unat l) = d"
    using q(2) d by (simp add: fend_def mem_read_write_same)
  show "hdr q = (hdr p)\<lparr>num_slots := num_slots (hdr q), free_space_start := free_space_start (hdr q),
           free_space_end := free_space_end (hdr q)\<rparr>"
    using q(2) by simp
qed

definition view_size :: "bytes option list \<Rightarrow> nat" where
  "view_size v = sum_list (map (\<lambda>x. case x of None \<Rightarrow> 0 | Some b \<Rightarrow> length b) v)"

lemma view_size_simps [simp]:
  "view_size [] = 0" "view_size (x # v) = (case x of None \<Rightarrow> 0 | Some b \<Rightarrow> length b) + view_size v"
  "view_size (v @ w) = view_size v + view_size w"
  by (simp_all add: view_size_def)

lemma view_size_take_drop: "view_size (take i v) + view_size (drop i v) = view_size v"
  by (metis append_take_drop_id view_size_simps(3))

lemma live_sum_view: "live_sum (dat p) (nslots p) = view_size (slots_view p)"
proof -
  have "live_sum (dat p) (nslots p) = sum_list (map (\<lambda>i. if slot_IsValid (slot p i) then unat (s_length (slot p i)) else 0) [0 ..< nslots p])"
    unfolding live_sum_def by (subst sum_set_upt_conv_sum_list_nat [symmetric]) (simp add: lessThan_atLeast0)
  also have "\<dots> = view_size (slots_view p)"
    unfolding view_size_def slots_view_def map_map
    by (rule arg_cong [where f = sum_list]) (auto simp: slot_view_def Let_def)
  finally show ?thesis .
qed

lemma slot_view_cong:
  assumes "slot_at m i = slot_at m' j"
    and "\<And>k. slot_IsValid (slot_at m' j) \<Longrightarrow> unat (s_offset (slot_at m' j)) \<le> k \<Longrightarrow> m k = m' k"
  shows "slot_view m i = slot_view m' j"
  using assms by (auto simp: slot_view_def Let_def intro!: mem_read_eqI)

lemma InsertRecordAt_view:
  assumes lo: "layout_ok p" and i: "i \<le> nslots p" and d: "length d = unat l"
    and fit: "unat l + 8 \<le> fend p - fstart p" and res: "InsertRecordAt p i d l = (r, q)"
  shows "slots_view q = take i (slots_view p) @ Some d # drop i (slots_view p)"
proof -
  note post = InsertRecordAt_post [OF lo i d fit res]
  have mv: "slot_view (dat q) j = slot_view (dat p) k"
    if eq: "slot q j = slot p k" and k: "k < nslots p" for j k
  proof (rule slot_view_cong [OF eq])
    fix a assume "slot_IsValid (slot p k)" and a: "unat (s_offset (slot p k)) \<le> a"
    with k have "fend p \<le> unat (s_offset (slot p k))"
      using lo unfolding layout_ok_def live_def roff_def by blast
    with a show "dat q a = dat p a" by (intro post(7)) simp
  qed
  show ?thesis
  proof (rule nth_equalityI)
    show "length (slots_view q) = length (take i (slots_view p) @ Some d # drop i (slots_view p))"
      using i post(2) by simp
  next
    fix j assume "j < length (slots_view q)"
    then have j: "j \<le> nslots p" using post(2) by simp
    consider "j < i" | "j = i" | "i < j" by linarith
    then show "slots_view q ! j = (take i (slots_view p) @ Some d # drop i (slots_view p)) ! j"
    proof cases
      case 1
      then show ?thesis using i j post(2) post(6) [OF j] by (simp add: nth_append mv)
    next
      case 2
      have "free_space_end (hdr q) = free_space_end (hdr q)" ..
      then show ?thesis using i j 2 post(2) post(6) [OF j] post(8)
        by (simp add: nth_append slot_view_def Let_def fend_def)
    next
      case 3
      then have "j - 1 < nslots p" using j by simp
      then have "slot_view (dat q) j = slot_view (dat p) (j - 1)"
        using post(6) [OF j] 3 by (intro mv) auto
      with 3 show ?thesis using i j post(2) by (auto simp: nth_append nth_Cons')
    qed
  qed
qed

lemma InsertRecordAt_layout:
  assumes lo: "layout_ok p" and i: "i \<le> nslots p" and d: "length d = unat l"
    and fit: "unat l + 8 \<le> fend p - fstart p" and res: "InsertRecordAt p i d l = (r, q)"
  shows "layout_ok q"
proof -
  note post = InsertRecordAt_post [OF lo i d fit res]
  note b = layout_bounds [OF lo]
  define t where "t = (\<lambda>j. if j < i then j else j - 1)"
  have old: "live p (t j) \<and> roff q j = roff p (t j) \<and> rlen q j = rlen p (t j)" if "live q j" "j \<noteq> i" for j
    using that i post(2) post(6) [of j] unfolding live_def roff_def rlen_def t_def by (auto split: if_splits)
  have new: "roff q i = fend q" "rlen q i = unat l"
    using post(6) [OF i] by (simp_all add: roff_def rlen_def fend_def)
  have inj: "t j \<noteq> t k" if "j \<noteq> i" "k \<noteq> i" "j < k" for j k
    using that by (auto simp: t_def)
  have bounds: "fend p \<le> roff p j" "roff p j + rlen p j \<le> kPageSize" if "live p j" for j
    using lo that by (auto simp: layout_ok_def)
  have fe: "fend q + unat l = fend p" "fend p \<le> kPageSize" using post(4) fit b by (auto simp: layout_defs)
  show ?thesis
    unfolding layout_ok_def
  proof (intro conjI allI impI)
    show "fstart q = kHeaderSize + nslots q * kSlotSize" "fstart q \<le> fend q" "fend q \<le> kPageSize"
      using post(2,3,4) b fit by (auto simp: layout_defs)
  next
    fix j assume j: "live q j"
    show "fend q \<le> roff q j" "roff q j + rlen q j \<le> kPageSize"
      using old [OF j] bounds [of "t j"] new fe by (cases "j = i"; simp)+
  next
    fix j k assume "j < k" and j: "live q j" and k: "live q k"
    show "apart (roff q j, rlen q j) (roff q k, rlen q k)"
    proof (cases "j = i \<or> k = i")
      case True
      then show ?thesis
        using old [OF j] old [OF k] bounds [of "t j"] bounds [of "t k"] new fe \<open>j < k\<close> by (auto simp: apart_def)
    next
      case False
      then show ?thesis
        using old [OF j] old [OF k] inj [of j k] \<open>j < k\<close> layout_apart [OF lo, of "t j" "t k"] by (auto simp: apart_def)
    qed
  qed
qed

lemma InsertRecordAt_page_ok:
  assumes ok: "page_ok p" and i: "i \<le> nslots p" and d: "length d = unat l"
    and fit: "unat l + 8 \<le> fend p - fstart p" and res: "InsertRecordAt p i d l = (r, q)"
  shows "page_ok q"
proof -
  from ok have lo: "layout_ok p" by (simp add: page_ok_def)
  note post = InsertRecordAt_post [OF lo i d fit res]
  have "view_size (slots_view q) = view_size (slots_view p) + unat l"
    unfolding InsertRecordAt_view [OF lo i d fit res] using d view_size_take_drop [of i "slots_view p"] by simp
  with ok post(4,5) fit InsertRecordAt_layout [OF lo i d fit res] show ?thesis
    by (auto simp: page_ok_def live_sum_view)
qed

subsection \<open>Initialisation and tombstones\<close>

lemma Page_Init_views [simp]:
  "nslots (Page_Init pid t) = 0" "fstart (Page_Init pid t) = 40" "fend (Page_Init pid t) = 4096"
  "dead (Page_Init pid t) = 0" "slots_view (Page_Init pid t) = []"
  by (simp_all add: Page_Init_def header_Init_def view_defs layout_defs slots_view_def)

lemma page_ok_Init [simp]: "page_ok (Page_Init pid t)"
  by (simp add: page_ok_def layout_ok_def live_def live_sum_def layout_defs)

lemma live_sum_le_page: "page_ok p \<Longrightarrow> live_sum (dat p) (nslots p) + dead p + fstart p \<le> 4096"
  using layout_bounds [of p] by (auto simp: page_ok_def layout_defs)

lemma rlen_le_live_sum: "live p i \<Longrightarrow> rlen p i \<le> live_sum (dat p) (nslots p)"
  unfolding live_sum_def live_def rlen_def
  by (rule order_trans [OF _ member_le_sum [of i]]) auto

lemma DeleteRecord_page_ok:
  assumes ok: "page_ok p" and i: "live p i" and res: "DeleteRecord p i = (r, q)"
  shows "r = kOk" and "page_ok q" and "slots_view q = (slots_view p)[i := None]"
    and "nslots q = nslots p" and "fend q = fend p" and "dead q = dead p + rlen p i"
proof -
  have q: "r = kOk" "q = \<lparr>hdr = (hdr p)\<lparr>dead_bytes := dead_bytes (hdr p) + s_length (slot p i)\<rparr>,
      dat = slot_write (dat p) i (slot_MarkDeleted (slot p i))\<rparr>"
    using i res by (auto simp: DeleteRecord_def live_def Let_def)
  from ok have lo: "layout_ok p" by (simp add: page_ok_def)
  note b = layout_bounds [OF lo]
  have v: "nslots q = nslots p" "fend q = fend p" "fstart q = fstart p"
    using q(2) by (simp_all add: view_defs)
  show dq: "dead q = dead p + rlen p i"
  proof -
    have "rlen p i + dead p \<le> 4096"
      using live_sum_le_page [OF ok] rlen_le_live_sum [OF i] by linarith
    then show ?thesis
      using q(2) unfolding dead_def rlen_def by (subst unat_add_less [symmetric]) auto
  qed
  have sl: "slot q j = (if j = i then slot_MarkDeleted (slot p i) else slot p j)" for j
    using q(2) by auto
  have top: "slot_addr (Suc i) \<le> fend p"
    using b i by (simp add: slot_addr_def layout_defs live_def)
  have lv: "live q j \<longleftrightarrow> live p j \<and> j \<noteq> i" for j
    by (auto simp: live_def sl v)
  have lay: "layout_ok q"
    using lo unfolding layout_ok_def v lv by (auto simp: roff_def rlen_def sl)
  show vw: "slots_view q = (slots_view p)[i := None]"
  proof (rule nth_equalityI)
    fix j assume "j < length (slots_view q)"
    then have j: "j < nslots p" by (simp add: v)
    have "slot_view (dat q) j = slot_view (dat p) j" if "j \<noteq> i"
    proof (rule slot_view_cong)
      fix a assume "slot_IsValid (slot p j)" and "unat (s_offset (slot p j)) \<le> a"
      with j lo have "fend p \<le> a" unfolding layout_ok_def live_def roff_def by (meson order_trans)
      with top show "dat q a = dat p a" using q(2) by (simp add: slot_write_out)
    qed (use that sl in simp)
    with j show "slots_view q ! j = (slots_view p)[i := None] ! j"
      by (cases "j = i") (auto simp: v slot_view_def sl Let_def)
  qed (simp add: v)
  have sz: "view_size (slots_view q) + rlen p i = view_size (slots_view p)"
  proof -
    have il: "i < length (slots_view p)" "slots_view p ! i = Some (mem_read (dat p) (roff p i) (rlen p i))"
      using i by (auto simp: live_def slot_view_def roff_def rlen_def Let_def)
    have "view_size (slots_view p) = view_size (take i (slots_view p)) + rlen p i + view_size (drop (Suc i) (slots_view p))"
      using il id_take_nth_drop [OF il(1)] by (metis (no_types, lifting) add.assoc length_mem_read option.simps(5) view_size_simps(2,3))
    moreover have "view_size (slots_view q) = view_size (take i (slots_view p)) + view_size (drop (Suc i) (slots_view p))"
      unfolding vw using il(1) by (simp add: upd_conv_take_nth_drop)
    ultimately show ?thesis by simp
  qed
  show "r = kOk" by (rule q)
  show "nslots q = nslots p" "fend q = fend p" by (rule v)+
  show "page_ok q"
    using ok lay dq sz unfolding page_ok_def live_sum_view by (simp add: v)
qed

subsection \<open>Compaction\<close>

lemma live_sum_Suc:
  "live_sum m (Suc i) = live_sum m i + (if slot_IsValid (slot_at m i) then unat (s_length (slot_at m i)) else 0)"
  by (simp add: live_sum_def)

lemma live_sum_mono: "i \<le> n \<Longrightarrow> live_sum m i \<le> live_sum m n"
  unfolding live_sum_def by (rule sum_mono2) auto

definition packed :: "mem \<Rightarrow> mem \<Rightarrow> nat \<Rightarrow> bool" where
  "packed old m j \<longleftrightarrow>
     (let s = slot_at old j; e = kPageSize - live_sum old (Suc j) in
      if slot_IsValid s
      then slot_at m j = s\<lparr>s_offset := of_nat e\<rparr> \<and>
           mem_read m e (unat (s_length s)) = mem_read old (unat (s_offset s)) (unat (s_length s))
      else slot_at m j = s\<lparr>s_offset := 0, s_length := 0\<rparr>)"

lemma compact_loop_post:
  assumes "compact_loop old n i scratch e = (m, e')" and "i \<le> n"
    and "\<And>j. i \<le> j \<Longrightarrow> j < n \<Longrightarrow> slot_at scratch j = slot_at old j"
    and "unat e + live_sum old i = kPageSize" and "slot_addr n + live_sum old n \<le> kPageSize"
  shows "unat e' + live_sum old n = kPageSize \<and> (\<forall>j<i. slot_at m j = slot_at scratch j) \<and>
    (\<forall>k\<ge>unat e. m k = scratch k) \<and> (\<forall>j. i \<le> j \<longrightarrow> j < n \<longrightarrow> packed old m j)"
  using assms
proof (induction old n i scratch e arbitrary: m e' rule: compact_loop.induct)
  case (1 old n i scratch e)
  show ?case
  proof (cases "i < n")
    case False
    with 1(4) have "i = n" by simp
    with 1(3,6) show ?thesis by (auto simp: compact_loop.simps [of old n n])
  next
    case True
    let ?s = "slot_at old i"
    have s: "slot_at scratch i = ?s" using 1(5) True by simp
    have addr: "slot_addr (Suc j) \<le> slot_addr n" if "j < n" for j
      using that by (simp add: slot_addr_def kSlotSize_def)
    have le: "live_sum old (Suc i) \<le> live_sum old n" using True by (intro live_sum_mono) simp
    show ?thesis
    proof (cases "slot_IsValid ?s")
      case False
      let ?sc = "slot_write scratch i (?s\<lparr>s_offset := 0, s_length := 0\<rparr>)"
      have "compact_loop old n (i + 1) ?sc e = (m, e')"
        using 1(3) True False s by (simp add: compact_loop.simps [of old n i] Let_def)
      with 1(1) [of ?s] True False s 1(4,5,6,7)
      have IH: "unat e' + live_sum old n = kPageSize \<and> (\<forall>j<i + 1. slot_at m j = slot_at ?sc j) \<and>
          (\<forall>k\<ge>unat e. m k = ?sc k) \<and> (\<forall>j. i + 1 \<le> j \<longrightarrow> j < n \<longrightarrow> packed old m j)"
        by (simp add: live_sum_Suc)
      have pk: "packed old m i" using IH False by (simp add: packed_def Let_def)
      have "slot_addr (Suc i) \<le> unat e"
        using addr [OF True] 1(6,7) live_sum_mono [of i n old] True by linarith
      then have "\<forall>k\<ge>unat e. m k = scratch k" using IH by (auto simp: slot_write_out)
      moreover have "\<forall>j<i. slot_at m j = slot_at scratch j" using IH by simp
      moreover have "packed old m j" if "i \<le> j" "j < n" for j
        using that IH pk by (cases "j = i") simp_all
      ultimately show ?thesis using IH by blast
    next
      case valid: True
      let ?e = "e - s_length ?s"
      let ?sc1 = "mem_write scratch (unat ?e) (mem_read old (unat (s_offset ?s)) (unat (s_length ?s)))"
      let ?sc = "slot_write ?sc1 i (?s\<lparr>s_offset := ?e\<rparr>)"
      have ls: "live_sum old (Suc i) = live_sum old i + unat (s_length ?s)"
        using valid by (simp add: live_sum_Suc)
      have ue: "unat ?e = unat e - unat (s_length ?s)"
        using ls le 1(6,7) by (intro unat_sub_le) (simp add: word_le_nat_alt)
      have ue2: "unat ?e + live_sum old (Suc i) = kPageSize"
        using ue ls le 1(6,7) by simp
      have lo: "slot_addr n \<le> unat ?e" using ue2 le 1(7) by linarith
      have c1: "compact_loop old n (i + 1) ?sc ?e = (m, e')"
        using 1(3) True valid s by (simp add: compact_loop.simps [of old n i] Let_def)
      have c2: "slot_at ?sc j = slot_at old j" if "i + 1 \<le> j" "j < n" for j
        using that addr [of j] lo 1(5) by simp
      have IH: "unat e' + live_sum old n = kPageSize \<and> (\<forall>j<i + 1. slot_at m j = slot_at ?sc j) \<and>
          (\<forall>k\<ge>unat ?e. m k = ?sc k) \<and> (\<forall>j. i + 1 \<le> j \<longrightarrow> j < n \<longrightarrow> packed old m j)"
        by (rule 1(2) [OF True refl _ refl refl, unfolded s]) (use c1 c2 valid True ue2 1(7) in simp_all)
      have "mem_read m (unat ?e) (unat (s_length ?s)) = mem_read ?sc (unat ?e) (unat (s_length ?s))"
        using IH by (intro mem_read_eqI) simp
      also have "\<dots> = mem_read old (unat (s_offset ?s)) (unat (s_length ?s))"
        using addr [OF True] lo by (simp add: mem_read_write_same)
      finally have rd: "mem_read m (unat ?e) (unat (s_length ?s)) = mem_read old (unat (s_offset ?s)) (unat (s_length ?s))" .
      have eq: "kPageSize - live_sum old (Suc i) = unat ?e" using ue2 by linarith
      have pk: "packed old m i"
        using IH valid rd by (simp add: packed_def eq Let_def)
      have "\<forall>k\<ge>unat e. m k = scratch k"
      proof (intro allI impI)
        fix k assume k: "unat e \<le> k"
        then have "unat ?e \<le> k" "unat ?e + unat (s_length ?s) \<le> k" "slot_addr (Suc i) \<le> k"
          using ue ls le 1(6,7) lo addr [OF True] by linarith+
        then show "m k = scratch k" using IH by (simp add: slot_write_out mem_write_out)
      qed
      moreover have "\<forall>j<i. slot_at m j = slot_at scratch j"
      proof (intro allI impI)
        fix j assume "j < i"
        then have "slot_addr (Suc j) \<le> unat ?e" using addr [of j] lo True by simp
        with \<open>j < i\<close> show "slot_at m j = slot_at scratch j" using IH by simp
      qed
      moreover have "packed old m j" if "i \<le> j" "j < n" for j
        using that IH pk by (cases "j = i") simp_all
      ultimately show ?thesis using IH by blast
    qed
  qed
qed

lemma spans_sum:
  "sorted_wrt (\<lambda>x y. fst x + snd x \<le> fst y) xs \<Longrightarrow>
   \<forall>x \<in> set xs. a \<le> fst x \<and> fst x + snd x \<le> b \<Longrightarrow> a \<le> b \<Longrightarrow> a + sum_list (map snd xs) \<le> (b::nat)"
proof (induction xs arbitrary: a)
  case (Cons x xs)
  then have "fst x + snd x + sum_list (map snd xs) \<le> b" by (intro Cons.IH) auto
  with Cons.prems show ?case by auto
qed simp

lemma sum_list_sort: "sum_list (map f (sort xs)) = sum_list (map (f :: 'a::linorder \<Rightarrow> nat) xs)"
proof -
  have "sum_list (map f (insort x ys)) = f x + sum_list (map f ys)" for x ys
    by (induction ys) auto
  then show ?thesis by (induction xs) auto
qed

lemma live_sum_spans: "live_sum (dat p) (nslots p) = sum_list (map snd (live_spans p))"
proof -
  have "sum_list (map snd (map (\<lambda>i. (g i, f i)) (filter P [0 ..< n]))) = (\<Sum>i<n. if P i then f i else (0::nat))"
    for f g :: "nat \<Rightarrow> nat" and P n
    by (induction n) auto
  then show ?thesis by (simp add: live_sum_def live_spans_def)
qed

lemma live_sum_le: "layout_ok p \<Longrightarrow> fend p + live_sum (dat p) (nslots p) \<le> kPageSize"
proof -
  assume lo: "layout_ok p"
  then have v: "Validate p" by (simp add: Validate_iff)
  then have "sorted_wrt (\<lambda>x y. fst x + snd x \<le> fst y) (sort (live_spans p))"
    by (simp add: Validate_def adjacent_ok_iff split: if_splits)
  moreover have "\<forall>x \<in> set (sort (live_spans p)). fend p \<le> fst x \<and> fst x + snd x \<le> kPageSize"
    using v by (auto simp: Validate_def not_less split: if_splits)
  ultimately have "fend p + sum_list (map snd (sort (live_spans p))) \<le> kPageSize"
    using lo by (intro spans_sum) (simp_all add: layout_ok_def)
  then show ?thesis by (simp add: live_sum_spans sum_list_sort)
qed

lemma Compact_post:
  assumes lo: "layout_ok p"
  shows "nslots (Compact p) = nslots p" and "fstart (Compact p) = fstart p" and "dead (Compact p) = 0"
    and "fend (Compact p) + live_sum (dat p) (nslots p) = kPageSize"
    and "\<And>j. j < nslots p \<Longrightarrow> packed (dat p) (dat (Compact p)) j"
    and "hdr (Compact p) = (hdr p)\<lparr>free_space_end := free_space_end (hdr (Compact p)), dead_bytes := 0\<rparr>"
proof -
  note b = layout_bounds [OF lo]
  let ?s0 = "mem_write (\<lambda>_. 0) kHeaderSize (mem_read (dat p) kHeaderSize (nslots p * kSlotSize))"
  obtain m e where r: "compact_loop (dat p) (nslots p) 0 ?s0 (of_nat kPageSize) = (m, e)"
    by (cases "compact_loop (dat p) (nslots p) 0 ?s0 (of_nat kPageSize)")
  have s0: "slot_at ?s0 j = slot p j" if "j < nslots p" for j
  proof -
    have j: "j * kSlotSize + kSlotSize \<le> nslots p * kSlotSize" using that by (simp add: kSlotSize_def)
    then have "mem_read ?s0 (slot_addr j) kSlotSize = mem_read (dat p) (slot_addr j) kSlotSize"
      using mem_read_inside [OF j, of "dat p" kHeaderSize]
      by (subst mem_read_write_inside) (auto simp: slot_addr_def)
    then show ?thesis by (simp add: slot_at_def)
  qed
  have kp: "unat (of_nat kPageSize :: u16) = kPageSize" by (simp add: kPageSize_def)
  have room: "slot_addr (nslots p) + live_sum (dat p) (nslots p) \<le> kPageSize"
    using live_sum_le [OF lo] b by simp
  note post = compact_loop_post [OF r _ s0 _ room]
  have q: "Compact p = \<lparr>hdr = (hdr p)\<lparr>free_space_end := e, dead_bytes := 0\<rparr>, dat = m\<rparr>"
    using r by (simp add: Compact_def)
  show "nslots (Compact p) = nslots p" "fstart (Compact p) = fstart p" "dead (Compact p) = 0"
    unfolding q by (simp_all add: view_defs)
  show "fend (Compact p) + live_sum (dat p) (nslots p) = kPageSize"
    using post kp unfolding q by (simp add: fend_def live_sum_def)
  show "packed (dat p) (dat (Compact p)) j" if "j < nslots p" for j
    using post kp that unfolding q by (simp add: live_sum_def)
  show "hdr (Compact p) = (hdr p)\<lparr>free_space_end := free_space_end (hdr (Compact p)), dead_bytes := 0\<rparr>"
    unfolding q by simp
qed

lemma packed_slot:
  assumes lo: "layout_ok p" and j: "j < nslots p"
  shows "live (Compact p) j \<longleftrightarrow> live p j"
    and "live p j \<Longrightarrow> roff (Compact p) j + live_sum (dat p) (Suc j) = kPageSize"
    and "live p j \<Longrightarrow> rlen (Compact p) j = rlen p j"
    and "slot_view (dat (Compact p)) j = slot_view (dat p) j"
proof -
  note post = Compact_post [OF lo]
  let ?e = "kPageSize - live_sum (dat p) (Suc j)"
  have "live_sum (dat p) (Suc j) \<le> live_sum (dat p) (nslots p)"
    using j by (intro live_sum_mono) simp
  then have le: "live_sum (dat p) (Suc j) \<le> kPageSize" using post(4) by linarith
  have ue: "unat (of_nat ?e :: u16) = ?e" by (rule unat_of_nat_less) (simp add: kPageSize_def)
  have inv: "slot_IsValid (s\<lparr>s_offset := a\<rparr>) = slot_IsValid s"
    "slot_IsValid (s\<lparr>s_offset := a, s_length := c\<rparr>) = slot_IsValid s" for s :: SlotEntry and a c
    by (simp_all add: slot_IsValid_def)
  show "live (Compact p) j \<longleftrightarrow> live p j" "live p j \<Longrightarrow> roff (Compact p) j + live_sum (dat p) (Suc j) = kPageSize"
    "live p j \<Longrightarrow> rlen (Compact p) j = rlen p j" "slot_view (dat (Compact p)) j = slot_view (dat p) j"
    using post(1) post(5) [OF j] le ue
    by (auto simp: packed_def live_def roff_def rlen_def slot_view_def Let_def inv split: if_splits)
qed

lemma Compact_page_ok:
  assumes lo: "layout_ok p"
  shows "page_ok (Compact p)" and "slots_view (Compact p) = slots_view p"
    and "fend (Compact p) = kPageSize - live_sum (dat p) (nslots p)"
proof -
  note post = Compact_post [OF lo] and pk = packed_slot [OF lo]
  note b = layout_bounds [OF lo]
  show vw: "slots_view (Compact p) = slots_view p"
    using post(1) pk(4) by (intro nth_equalityI) auto
  show "fend (Compact p) = kPageSize - live_sum (dat p) (nslots p)" using post(4) by linarith
  have lv: "live (Compact p) j \<Longrightarrow> live p j \<and> j < nslots p" for j
    using pk(1) [of j] post(1) by (auto simp: live_def)
  have ls: "live_sum (dat p) (Suc j) = live_sum (dat p) j + rlen p j" if "live p j" for j
    using that by (simp add: live_sum_Suc live_def rlen_def)
  have lay: "layout_ok (Compact p)"
    unfolding layout_ok_def
  proof (intro conjI allI impI)
    show "fstart (Compact p) = kHeaderSize + nslots (Compact p) * kSlotSize"
      using lo post(1,2) by (simp add: layout_ok_def)
    show "fstart (Compact p) \<le> fend (Compact p)"
      using live_sum_le [OF lo] post(2,4) b(4) by linarith
    show "fend (Compact p) \<le> kPageSize" using post(4) by linarith
  next
    fix j assume "live (Compact p) j"
    then have j: "live p j" "j < nslots p" using lv by auto
    have "live_sum (dat p) (Suc j) \<le> live_sum (dat p) (nslots p)" using j by (intro live_sum_mono) simp
    with pk(2) [OF j(2,1)] post(4) show "fend (Compact p) \<le> roff (Compact p) j" by linarith
    show "roff (Compact p) j + rlen (Compact p) j \<le> kPageSize"
      using pk(2,3) [OF j(2,1)] ls [OF j(1)] by linarith
  next
    fix i j assume ij: "i < j" and "live (Compact p) i" and "live (Compact p) j"
    then have i: "live p i" "i < nslots p" and j: "live p j" "j < nslots p" using lv by auto
    have "live_sum (dat p) (Suc i) \<le> live_sum (dat p) j" using ij by (intro live_sum_mono) simp
    with pk(2,3) [OF i(2,1)] pk(2,3) [OF j(2,1)] ls [OF j(1)]
    show "apart (roff (Compact p) i, rlen (Compact p) i) (roff (Compact p) j, rlen (Compact p) j)"
      unfolding apart_def fst_conv snd_conv by linarith
  qed
  show "page_ok (Compact p)"
    unfolding page_ok_def live_sum_view vw using lay post(3,4) by (simp add: live_sum_view)
qed

subsection \<open>Bytes of a page\<close>

lemma length_header_bytes [simp]: "length (header_bytes h) = kHeaderSize"
  by (simp add: header_bytes_def kHeaderSize_def)

lemma header_of_bytes_header_bytes [simp]: "header_of_bytes (header_bytes h @ xs) = h"
  by (cases h) (simp add: header_of_bytes_def header_bytes_def Let_def le_simps nth_append)

lemma length_RawData [simp]: "length (RawData p) = kPageSize"
  by (simp add: RawData_def layout_defs)

definition mem_ok :: "Page \<Rightarrow> bool" where
  "mem_ok p \<longleftrightarrow> (\<forall>k. k < kHeaderSize \<or> kPageSize \<le> k \<longrightarrow> dat p k = 0)"

lemma page_of_bytes_RawData:
  assumes "mem_ok p"
  shows "page_of_bytes (RawData p) = p"
proof -
  have "(if kHeaderSize \<le> k \<and> k < kPageSize then RawData p ! k else 0) = dat p k" for k
    using assms by (auto simp: RawData_def nth_append nth_mem_read mem_ok_def not_le not_less)
  then have "(\<lambda>k. if kHeaderSize \<le> k \<and> k < kPageSize then RawData p ! k else 0) = dat p" by (rule ext)
  moreover have "header_of_bytes (RawData p) = hdr p" by (simp add: RawData_def)
  ultimately show ?thesis by (simp add: page_of_bytes_def)
qed

lemma take_PutLE_GetLE:
  "LENGTH('a) = 8 * n \<Longrightarrow> length bs = n \<Longrightarrow> PutLE n (GetLE bs :: 'a::len word) = bs"
  using PutLE_GetLE [where ?'a = 'a, of bs] by auto

lemma header_bytes_header_of_bytes:
  assumes "length bs = kHeaderSize"
  shows "header_bytes (header_of_bytes (bs @ rest)) = bs"
proof -
  let ?f = "\<lambda>a n. take n (drop a bs)"
  have one: "[bs ! i] = ?f i 1" if "i < 40" for i
    using that assms by (simp add: kHeaderSize_def take_Suc_conv_app_nth drop_eq_Nil hd_drop_conv_nth [symmetric] take_Suc)
  have cat: "?f a n @ ?f (a + n) m = ?f a (n + m)" for a n m
    using take_add [of n m "drop a bs"] by (simp add: add.commute)
  have "header_bytes (header_of_bytes (bs @ rest)) =
     ?f 0 4 @ ?f 4 1 @ ?f 5 1 @ ?f 6 2 @ ?f 8 8 @ ?f 16 2 @ ?f 18 2 @ ?f 20 4 @ ?f 24 4 @ ?f 28 4 @ ?f 32 4 @ ?f 36 2 @ ?f 38 2"
    using assms unfolding header_bytes_def header_of_bytes_def Let_def
    by (simp add: kHeaderSize_def take_PutLE_GetLE nth_append one [symmetric] del: One_nat_def take_0 drop_0)
  also have "\<dots> = ?f 0 40"
    using cat [of 2 36 2] cat [of 4 32 4] cat [of 4 28 8] cat [of 4 24 12] cat [of 4 20 16] cat [of 2 18 20]
      cat [of 2 16 22] cat [of 8 8 24] cat [of 2 6 32] cat [of 1 5 34] cat [of 1 4 35] cat [of 4 0 36]
    by (simp del: One_nat_def take_0 drop_0)
  finally show ?thesis using assms by (simp add: kHeaderSize_def)
qed

lemma RawData_page_of_bytes:
  assumes "length bs = kPageSize"
  shows "RawData (page_of_bytes bs) = bs"
proof -
  have "header_bytes (header_of_bytes bs) = take kHeaderSize bs"
    using header_bytes_header_of_bytes [of "take kHeaderSize bs" "drop kHeaderSize bs"] assms
    by (simp add: layout_defs)
  moreover have "mem_read (dat (page_of_bytes bs)) kHeaderSize (kPageSize - kHeaderSize) = drop kHeaderSize bs"
    using assms by (intro nth_equalityI) (auto simp: nth_mem_read page_of_bytes_def layout_defs)
  ultimately show ?thesis by (simp add: RawData_def page_of_bytes_def)
qed

lemma mem_ok_page_of_bytes [simp]: "mem_ok (page_of_bytes bs)"
  by (auto simp: mem_ok_def page_of_bytes_def)

text \<open>Stamping the checksum field does not change the checksum.\<close>

abbreviation stamp :: "Page \<Rightarrow> u32 \<Rightarrow> Page" where
  "stamp p c \<equiv> p\<lparr>hdr := (hdr p)\<lparr>checksum := c\<rparr>\<rparr>"

lemma ComputeChecksum_stamp [simp]: "ComputeChecksum (stamp p c) = ComputeChecksum p"
  by (simp add: ComputeChecksum_def Crc32WithZeroedField_def RawData_def header_bytes_def Let_def)

subsection \<open>The page provides a record store\<close>

text \<open>
  \<open>append_record\<close> is \<^verbatim>\<open>InsertRecord\<close> at its call sites: the length argument is the size
  of the encoded record narrowed to 16 bits. Records of at most 4056 bytes never wrap.
\<close>

definition append_record :: "Page \<Rightarrow> bytes \<Rightarrow> Page option" where
  "append_record p d = (case InsertRecord p d (of_nat (length d)) of (Inl _, _) \<Rightarrow> None | (Inr _, q) \<Rightarrow> Some q)"

definition all_live :: "Page \<Rightarrow> bool" where
  "all_live p \<longleftrightarrow> None \<notin> set (slots_view p)"

definition records :: "Page \<Rightarrow> bytes list" where
  "records p = map the (slots_view p)"

definition slack :: "Page \<Rightarrow> nat" where
  "slack p = fend p - fstart p"

lemma slots_view_records: "all_live p \<Longrightarrow> slots_view p = map Some (records p)"
  by (auto simp: all_live_def records_def intro!: nth_equalityI) (metis nth_mem option.collapse length_slots_view nth_slots_view)

lemma InsertRecordAt_cases:
  assumes "page_ok p" and "length d < 65528" and "InsertRecordAt p i d (of_nat (length d)) = (r, q)"
  shows "if nslots p < i then r = Inl kInvalidArgument \<and> q = p
         else if slack p < length d + 8 then r = Inl kNoSpace \<and> q = p
         else r = Inr i \<and> page_ok q \<and> slots_view q = take i (slots_view p) @ Some d # drop i (slots_view p) \<and>
              slack q + (length d + 8) = slack p \<and> dead q = dead p"
proof -
  let ?l = "of_nat (length d) :: u16"
  have lo: "layout_ok p" using assms(1) by (simp add: page_ok_def)
  have l: "unat ?l = length d" using assms(2) by (intro unat_of_nat_less) simp
  have cf: "CanFit p ?l \<longleftrightarrow> length d + 8 \<le> slack p"
    using CanFit_iff [OF lo, of ?l] l assms(2) by (simp add: slack_def)
  show ?thesis
  proof (cases "nslots p < i \<or> slack p < length d + 8")
    case True
    with assms(3) cf show ?thesis by (auto simp: InsertRecordAt_def)
  next
    case False
    then have i: "i \<le> nslots p" and fit: "unat ?l + 8 \<le> fend p - fstart p" using l by (auto simp: slack_def)
    note args = i l [symmetric] fit assms(3)
    show ?thesis
      using False InsertRecordAt_post(1,3,4,5) [OF lo args] InsertRecordAt_page_ok [OF assms(1) args]
        InsertRecordAt_view [OF lo args] fit l layout_bounds(4) [OF lo]
      by (auto simp: slack_def)
  qed
qed

lemma append_record_cases:
  assumes "page_ok p" and "length d < 65528"
  shows "if slack p < length d + 8 then append_record p d = None
         else \<exists>q. append_record p d = Some q \<and> page_ok q \<and> slots_view q = slots_view p @ [Some d] \<and>
              slack q + (length d + 8) = slack p"
proof -
  obtain r q where rq: "InsertRecordAt p (nslots p) d (of_nat (length d)) = (r, q)" by (cases "InsertRecordAt p (nslots p) d (of_nat (length d))")
  from InsertRecordAt_cases [OF assms rq] rq show ?thesis
    by (auto simp: append_record_def InsertRecord_eq split: if_splits)
qed

definition rec_ok :: "bytes \<Rightarrow> bool" where
  "rec_ok d \<longleftrightarrow> length d < 65528"

text \<open>
  A record no page can hold costs more than any page has, so that the laws hold for every
  record; \<open>append_small\<close> refuses it where the code would wrap around.
\<close>

definition append_small :: "Page \<Rightarrow> bytes \<Rightarrow> Page option" where
  "append_small p d = (if rec_ok d then append_record p d else None)"

lemma slack_bound: "page_ok p \<Longrightarrow> slack p \<le> 4056"
  using layout_bounds [of p] by (auto simp: page_ok_def slack_def)

interpretation pg: record_store append_small "\<lambda>p. page_ok p \<and> all_live p" records slack "\<lambda>d. length d + 8"
proof unfold_locales
  fix p :: Page and r :: bytes
  assume p: "page_ok p \<and> all_live p"
  show "append_small p r \<noteq> None" if "length r + 8 \<le> slack p"
    using p that slack_bound [of p] append_record_cases [of p r] by (auto simp: append_small_def rec_ok_def)
  show "append_small p r = None" if "slack p < length r + 8"
    using p that append_record_cases [of p r] by (auto simp: append_small_def rec_ok_def)
  fix q assume q: "append_small p r = Some q"
  then have r: "length r < 65528" and q': "append_record p r = Some q"
    by (auto simp: append_small_def rec_ok_def split: if_splits)
  have post: "page_ok q" "slots_view q = slots_view p @ [Some r]" "slack q + (length r + 8) = slack p"
    using p append_record_cases [of p r, OF _ r] q' by (auto split: if_splits)
  show "page_ok q \<and> all_live q" using p post by (auto simp: all_live_def)
  show "records q = records p @ [r]" using post by (simp add: records_def)
  show "slack q + (length r + 8) = slack p" by (rule post)
qed

subsection \<open>Properties\<close>

text \<open>
  \<^verbatim>\<open>Validate\<close> accepts a page exactly when the slot directory ends where the free space
  starts, the free space lies inside the page, and all live records lie behind the free
  space, inside the page, and pairwise do not overlap.
\<close>

theorem Validate_decides_layout:
  "Validate p \<longleftrightarrow>
     fstart p = kHeaderSize + nslots p * kSlotSize \<and> fstart p \<le> fend p \<and> fend p \<le> kPageSize \<and>
     (\<forall>i. live p i \<longrightarrow> fend p \<le> roff p i \<and> roff p i + rlen p i \<le> kPageSize) \<and>
     (\<forall>i j. i \<noteq> j \<longrightarrow> live p i \<longrightarrow> live p j \<longrightarrow>
        roff p i + rlen p i \<le> roff p j \<or> roff p j + rlen p j \<le> roff p i)"
  unfolding Validate_iff
  by (rule iffI) (use layout_apart in \<open>auto simp: layout_ok_def apart_def\<close>)

theorem Validate_decides_layout_witness:
  "Validate (Page_Init 2 kLeaf) \<and> fstart (Page_Init 2 kLeaf) \<le> fend (Page_Init 2 kLeaf)"
  unfolding Validate_decides_layout [of "Page_Init 2 kLeaf"] by (simp add: live_def layout_defs)

text \<open>
  On a well-formed page \<^verbatim>\<open>InsertRecordAt\<close> inserts the record at the given slot of the
  record list, moves no other record, keeps the page valid and accounted, and uses exactly
  the record's size plus one slot of free space; an index past the end and a record that does not fit
  are refused and leave the page unchanged.
\<close>

theorem InsertRecordAt_refines_list_insert:
  assumes "page_ok p" and "length d < 65528" and "InsertRecordAt p i d (of_nat (length d)) = (r, q)"
  shows "if nslots p < i then r = Inl kInvalidArgument \<and> q = p
         else if slack p < length d + 8 then r = Inl kNoSpace \<and> q = p
         else r = Inr i \<and> page_ok q \<and> Validate q \<and> slack q + (length d + 8) = slack p \<and>
              slots_view q = take i (slots_view p) @ Some d # drop i (slots_view p)"
  using InsertRecordAt_cases [OF assms] by (auto simp: Validate_iff page_ok_def)

theorem InsertRecordAt_refines_list_insert_witness:
  "let q = snd (InsertRecordAt (Page_Init 7 kLeaf) 0 [1, 2, 3] (of_nat (length [1, 2, 3 :: byte])))
   in page_ok q \<and> Validate q \<and> slots_view q = [Some [1, 2, 3]]"
proof -
  obtain r q where rq: "InsertRecordAt (Page_Init 7 kLeaf) 0 [1, 2, 3] (of_nat (length [1, 2, 3 :: byte])) = (r, q)"
    by (cases "InsertRecordAt (Page_Init 7 kLeaf) 0 [1, 2, 3] (of_nat (length [1, 2, 3 :: byte]))")
  show ?thesis
    using InsertRecordAt_refines_list_insert [OF page_ok_Init _ rq] rq by (simp add: slack_def)
qed

text \<open>
  \<^verbatim>\<open>Compact\<close> on any page that passes \<^verbatim>\<open>Validate\<close> keeps the content of every slot (live
  records byte for byte, tombstones as tombstones), returns a valid page with no dead
  bytes, and frees exactly the bytes that \<open>dead_bytes\<close> accounted for.
\<close>

theorem Compact_keeps_records:
  assumes "Validate p"
  shows "Validate (Compact p) \<and> slots_view (Compact p) = slots_view p \<and> dead (Compact p) = 0 \<and>
    (page_ok p \<longrightarrow> unat (FreeSpace (Compact p)) = unat (FreeSpace p) + unat (dead_bytes (hdr p)))"
proof -
  have lo: "layout_ok p" using assms by (simp add: Validate_iff)
  have pc: "page_ok (Compact p)" by (rule Compact_page_ok [OF lo])
  have "unat (FreeSpace (Compact p)) = unat (FreeSpace p) + unat (dead_bytes (hdr p))" if "page_ok p"
  proof -
    have "fend (Compact p) = fend p + dead p"
      using that Compact_post(4) [OF lo] by (simp add: page_ok_def)
    then show ?thesis
      using pc layout_bounds(4) [OF lo] Compact_post(2) [OF lo]
      by (simp add: unat_FreeSpace lo page_ok_def dead_def)
  qed
  then show ?thesis
    using pc Compact_page_ok(2) [OF lo] Compact_post(3) [OF lo] by (simp add: Validate_iff page_ok_def)
qed

theorem Compact_keeps_records_witness:
  "let p = snd (InsertRecordAt (Page_Init 7 kLeaf) 0 [1, 2, 3] 3)
   in slots_view (Compact p) = [Some [1, 2, 3]] \<and> dead (Compact p) = 0"
proof -
  obtain r q where rq: "InsertRecordAt (Page_Init 7 kLeaf) 0 [1, 2, 3] (of_nat (length [1, 2, 3 :: byte])) = (r, q)"
    by (cases "InsertRecordAt (Page_Init 7 kLeaf) 0 [1, 2, 3] (of_nat (length [1, 2, 3 :: byte]))")
  have q: "page_ok q" "slots_view q = [Some [1, 2, 3]]"
    using InsertRecordAt_cases [OF page_ok_Init _ rq] by (simp_all add: slack_def)
  then have "Validate q" by (simp add: Validate_iff page_ok_def)
  from Compact_keeps_records [OF this] q rq show ?thesis by simp
qed

text \<open>
  The pages that the record operations build, in any order and with any arguments whose size the 16-bit length and the sum of
  \<^verbatim>\<open>CanFit\<close> can express: a record has fewer than 65528 bytes.
\<close>

inductive built :: "Page \<Rightarrow> bool" where
  init: "built (Page_Init pid t)"
| append: "built p \<Longrightarrow> length d < 65528 \<Longrightarrow> built (snd (InsertRecord p d (of_nat (length d))))"
| insert_at: "built p \<Longrightarrow> length d < 65528 \<Longrightarrow> built (snd (InsertRecordAt p i d (of_nat (length d))))"
| delete: "built p \<Longrightarrow> built (snd (DeleteRecord p i))"
| compact: "built p \<Longrightarrow> built (Compact p)"

lemma InsertRecordAt_keeps_ok: "page_ok p \<Longrightarrow> length d < 65528 \<Longrightarrow> page_ok (snd (InsertRecordAt p i d (of_nat (length d))))"
  using InsertRecordAt_cases [of p d i "fst (InsertRecordAt p i d (of_nat (length d)))" "snd (InsertRecordAt p i d (of_nat (length d)))"]
  by (auto split: if_splits)

text \<open>
  C25: the layout of a page is an invariant of its type. Every page that record insertions, deletions and compactions produce from a fresh
  page, with records of any size below 65528 (the bound from which \<^verbatim>\<open>CanFit\<close> wraps around) and at any index, and
  whether they succeed or are refused, passes \<^verbatim>\<open>Validate\<close>: slots and records do not
  overlap, records lie in the page and do not overlap each other; and its header accounts for every byte: free space ends
  where the live and the dead record bytes begin.
\<close>

theorem built_pages_are_valid:
  assumes "built p"
  shows "Validate p \<and> fstart p = kHeaderSize + nslots p * kSlotSize \<and> fstart p \<le> fend p \<and>
    fend p + (\<Sum>i \<in> {i. live p i}. rlen p i) + dead p = kPageSize"
proof -
  have ok: "page_ok p" using assms
  proof induction
    case (append p d)
    then show ?case by (simp add: InsertRecord_eq InsertRecordAt_keeps_ok)
  next
    case (insert_at p d i)
    then show ?case by (simp add: InsertRecordAt_keeps_ok)
  next
    case (delete p i)
    show ?case
    proof (cases "live p i")
      case True
      then show ?thesis using DeleteRecord_page_ok(2) [OF delete.IH True] by (metis prod.collapse)
    next
      case False
      then show ?thesis using delete.IH by (auto simp: DeleteRecord_def live_def Let_def)
    qed
  next
    case (compact p)
    then have "layout_ok p" by (simp add: page_ok_def)
    then show ?case by (rule Compact_page_ok(1))
  qed simp
  then have lo: "layout_ok p" by (simp add: page_ok_def)
  have "live_sum (dat p) (nslots p) = (\<Sum>i \<in> {i. live p i}. rlen p i)"
    unfolding live_sum_def live_def rlen_def using sum.inter_filter [of "{..<nslots p}" "\<lambda>i. unat (s_length (slot p i))" "\<lambda>i. slot_IsValid (slot p i)"] by simp
  then show ?thesis using ok lo layout_bounds [OF lo] by (simp add: Validate_iff page_ok_def layout_ok_def)
qed

theorem built_pages_are_valid_witness:
  "let p = Compact (snd (DeleteRecord (snd (InsertRecord (Page_Init 7 kLeaf) [1, 2, 3] (of_nat (length [1, 2, 3 :: byte])))) 0)) in Validate p"
  unfolding Let_def by (rule conjunct1 [OF built_pages_are_valid]) (intro built.intros, simp)

text \<open>
  A page written to disk and read back is the same page, and 4096 bytes read into a
  page are the bytes the page holds; in between, stamping the checksum field does not change
  the checksum.
\<close>

theorem page_bytes_roundtrip:
  "(mem_ok p \<longrightarrow> page_of_bytes (RawData p) = p) \<and>
   (length bs = kPageSize \<longrightarrow> RawData (page_of_bytes bs) = bs) \<and>
   ComputeChecksum (stamp p c) = ComputeChecksum p"
  by (simp add: page_of_bytes_RawData RawData_page_of_bytes)

theorem page_bytes_roundtrip_witness:
  "page_of_bytes (RawData (Page_Init 3 kFree)) = Page_Init 3 kFree \<and>
   RawData (page_of_bytes (replicate 4096 7)) = replicate 4096 7"
  using page_bytes_roundtrip [of "Page_Init 3 kFree" "replicate 4096 7" 0]
  by (simp add: mem_ok_def Page_Init_def kPageSize_def)

text \<open>
  C40: what \<^verbatim>\<open>CanFit\<close> answers, for every valid page and every 16-bit size. It says yes exactly when the record and its
  slot fit the free space, or when the size is one of the last eight, where the 16-bit sum wraps around: from 65528 on the bytes needed are taken to be
  \<open>n - 65528\<close>. So no page refuses a record of 65528 bytes, nearly sixteen times its own size, and the answer is
  exact for all sizes below.
\<close>

theorem CanFit_is_exact_below_wrap:
  assumes "Validate p" and "n < 2 ^ 16"
  shows "(CanFit p (of_nat n) \<longleftrightarrow> fstart p + kSlotSize + n \<le> fend p \<or> 65528 \<le> n \<and> n - 65528 \<le> fend p - fstart p) \<and>
    (n < 65528 \<longrightarrow> (CanFit p (of_nat n) \<longleftrightarrow> fstart p + kSlotSize + n \<le> fend p)) \<and>
    (n = 65528 \<longrightarrow> CanFit p (of_nat n) \<and> kPageSize < kSlotSize + n)"
proof -
  have lo: "layout_ok p" using assms(1) by (simp add: Validate_iff)
  have f: "fstart p \<le> fend p" "fend p \<le> 4096" using layout_bounds [OF lo] by auto
  have w: "unat (of_nat n :: u16) = n" using assms(2) by (simp add: unat_of_nat)
  have c: "CanFit p (of_nat n) \<longleftrightarrow> (8 + n) mod 65536 \<le> fend p - fstart p"
    by (simp add: CanFit_def kSlotSize_def word_le_nat_alt unat_FreeSpace [OF lo] unat_word_ariths w)
  have "(8 + n) mod 65536 = (if n < 65528 then 8 + n else n - 65528)" using assms(2) by (auto simp: mod_if)
  then show ?thesis using c f by (auto simp: layout_defs)
qed

theorem CanFit_is_exact_below_wrap_witness:
  "let p = snd (InsertRecord (Page_Init 7 kLeaf) [1, 2, 3] (of_nat (length [1, 2, 3 :: byte]))) in
     CanFit p (of_nat 4037) \<and> \<not> CanFit p (of_nat 4038) \<and> \<not> CanFit p (of_nat 65527) \<and> CanFit p (of_nat 65530)"
proof -
  let ?p = "snd (InsertRecord (Page_Init 7 kLeaf) [1, 2, 3] (of_nat (length [1, 2, 3 :: byte])))"
  have "page_ok ?p" unfolding InsertRecord_eq by (rule InsertRecordAt_keeps_ok) simp_all
  then have v: "Validate ?p" by (simp add: Validate_iff page_ok_def)
  have "fstart ?p = 48" "fend ?p = 4093"
    by (simp_all add: fstart_def fend_def InsertRecord_def Let_def CanFit_def FreeSpace_def header_FreeSpace_def Page_Init_def header_Init_def layout_defs)
  then show ?thesis using CanFit_is_exact_below_wrap [OF v, of 4037] CanFit_is_exact_below_wrap [OF v, of 4038]
      CanFit_is_exact_below_wrap [OF v, of 65527] CanFit_is_exact_below_wrap [OF v, of 65530] by (simp add: Let_def kSlotSize_def)
qed

end
