(* ===== verification/Node.thy ===== *)
theory Node
  imports Page
begin

section \<open>B+ tree nodes over pages (node.h, node.cc)\<close>

text \<open>
  \<^verbatim>\<open>NodeView\<close> interprets a slotted page as a B+ tree node. A leaf record is
  \<open>[key_len:2][key][value_len:2][value]\<close>, an internal record \<open>[key_len:2][key][child:4]\<close>.
  Every operation of the class is a definition here, on the byte-level page; indices are
  natural numbers (they stay below the 16-bit slot count, so the 16-bit arithmetic on them
  cannot wrap), sizes that the source narrows to 16 bits are narrowed here.

  The theorems show that a well-formed leaf refines a sorted association list: the binary
  search is a lower bound, insertion, update and deletion change the list as a map update
  does, and each fails exactly when the node is full; a well-formed internal node routes
  a key to the child whose separator interval contains it.
\<close>

subsection \<open>Record encodings\<close>

type_synonym key = bytes

definition EncodeLeafRecord :: "key \<Rightarrow> bytes \<Rightarrow> bytes" where
  "EncodeLeafRecord key val =
     PutLE 2 (of_nat (length key) :: u16) @ key @ PutLE 2 (of_nat (length val) :: u16) @ val"

definition DecodeLeafRecord :: "mem \<Rightarrow> nat \<Rightarrow> key \<times> bytes" where
  "DecodeLeafRecord m a =
     (let key_len = GetLE (mem_read m a 2) :: u16;
          a = a + 2;
          key = mem_read m a (unat key_len);
          a = a + unat key_len;
          value_len = GetLE (mem_read m a 2) :: u16;
          a = a + 2
      in (key, mem_read m a (unat value_len)))"

definition EncodeInternalRecord :: "key \<Rightarrow> PageId \<Rightarrow> bytes" where
  "EncodeInternalRecord key child = PutLE 2 (of_nat (length key) :: u16) @ key @ PutLE 4 child"

definition DecodeInternalRecord :: "mem \<Rightarrow> nat \<Rightarrow> key \<times> PageId" where
  "DecodeInternalRecord m a =
     (let key_len = GetLE (mem_read m a 2) :: u16;
          a = a + 2;
          key = mem_read m a (unat key_len);
          a = a + unat key_len
      in (key, GetLE (mem_read m a 4)))"

subsection \<open>Node type and key access\<close>

definition InitLeaf :: "Page \<Rightarrow> Page" where
  "InitLeaf p = p\<lparr>hdr := (hdr p)\<lparr>ptype := kLeaf, next_page := kInvalidPageId, prev_page := kInvalidPageId\<rparr>\<rparr>"

definition InitInternal :: "Page \<Rightarrow> Page" where
  "InitInternal p = p\<lparr>hdr := (hdr p)\<lparr>ptype := kInternalNode, rightmost_child := kInvalidPageId\<rparr>\<rparr>"

definition IsLeaf :: "Page \<Rightarrow> bool" where
  "IsLeaf p \<longleftrightarrow> ptype (hdr p) = kLeaf"

definition IsInternal :: "Page \<Rightarrow> bool" where
  "IsInternal p \<longleftrightarrow> ptype (hdr p) = kInternalNode"

definition NumKeys :: "Page \<Rightarrow> nat" where
  "NumKeys p = unat (num_slots (hdr p))"

definition GetKey :: "Page \<Rightarrow> nat \<Rightarrow> key" where
  "GetKey p index =
     (if NumKeys p \<le> index then []
      else case GetRecordPtr p index of
        None \<Rightarrow> []
      | Some a \<Rightarrow> let key_len = GetLE (mem_read (dat p) a 2) :: u16
                  in mem_read (dat p) (a + 2) (unat key_len))"

function find_loop :: "Page \<Rightarrow> key \<Rightarrow> nat \<Rightarrow> nat \<Rightarrow> nat \<times> bool" where
  "find_loop p key left right =
     (if left < right then
        let mid = left + (right - left) div 2;
            mid_key = GetKey p mid
        in if key = mid_key then (mid, True)
           else if key < mid_key then find_loop p key left mid
           else find_loop p key (mid + 1) right
      else (left, False))"
  by pat_completeness auto
termination
  by (relation "measure (\<lambda>(p, key, left, right). right - left)") auto

declare find_loop.simps [simp del]

definition FindKeyIndex :: "Page \<Rightarrow> key \<Rightarrow> nat \<times> bool" where
  "FindKeyIndex p key = (if NumKeys p = 0 then (0, False) else find_loop p key 0 (NumKeys p))"

definition LowerBound :: "Page \<Rightarrow> key \<Rightarrow> nat" where
  "LowerBound p key = fst (FindKeyIndex p key)"

subsection \<open>Leaf operations\<close>

definition GetValueAt :: "Page \<Rightarrow> nat \<Rightarrow> bytes" where
  "GetValueAt p index =
     (if NumKeys p \<le> index then []
      else case GetRecordPtr p index of
        None \<Rightarrow> []
      | Some a \<Rightarrow> if GetRecordLength p index = 0 then [] else snd (DecodeLeafRecord (dat p) a))"

definition GetValue :: "Page \<Rightarrow> key \<Rightarrow> bytes option" where
  "GetValue p key =
     (if \<not> IsLeaf p then None
      else case FindKeyIndex p key of (index, found) \<Rightarrow>
        if \<not> found then None else Some (GetValueAt p index))"

definition InsertAt :: "Page \<Rightarrow> nat \<Rightarrow> bytes \<Rightarrow> bool \<times> Page" where
  "InsertAt p index encoded =
     (if NumKeys p < index then (False, p)
      else case InsertRecordAt p index encoded (of_nat (length encoded)) of
        (Inl _, q) \<Rightarrow> (False, q)
      | (Inr _, q) \<Rightarrow> (True, q))"

definition EnsureFit :: "Page \<Rightarrow> nat \<Rightarrow> bool \<times> Page" where
  "EnsureFit p needed =
     (if needed \<le> unat (FreeSpace p) then (True, p)
      else if needed \<le> unat (FreeSpace p) + unat (dead_bytes (hdr p))
      then let q = Compact p in (needed \<le> unat (FreeSpace q), q)
      else (False, p))"

definition InsertLeaf :: "Page \<Rightarrow> key \<Rightarrow> bytes \<Rightarrow> bool \<times> Page" where
  "InsertLeaf p key val =
     (if \<not> IsLeaf p then (False, p)
      else case EnsureFit p (kSlotSize + 4 + length key + length val) of (fits, p) \<Rightarrow>
        if \<not> fits then (False, p)
        else case FindKeyIndex p key of (index, found) \<Rightarrow>
          if found then (False, p)
          else InsertAt p index (EncodeLeafRecord key val))"

text \<open>
  \<open>put_record\<close> is the \<^verbatim>\<open>memcpy\<close> to \<^verbatim>\<open>GetRecordPtr(index)\<close>; the pointer of a tombstone is
  null there, where nothing is written.
\<close>

definition put_record :: "Page \<Rightarrow> nat \<Rightarrow> bytes \<Rightarrow> Page" where
  "put_record p index xs =
     (case GetRecordPtr p index of None \<Rightarrow> p | Some a \<Rightarrow> p\<lparr>dat := mem_write (dat p) a xs\<rparr>)"

definition place_record :: "Page \<Rightarrow> nat \<Rightarrow> bytes \<Rightarrow> u16 \<Rightarrow> Page" where
  "place_record p index record new_len =
     (let off = free_space_end (hdr p) - new_len;
          p = p\<lparr>hdr := (hdr p)\<lparr>free_space_end := off\<rparr>\<rparr>;
          p = p\<lparr>dat := slot_write (dat p) index (slot_Init off new_len)\<rparr>
      in put_record p index (take (unat new_len) record))"

definition UpdateLeaf :: "Page \<Rightarrow> key \<Rightarrow> bytes \<Rightarrow> bool \<times> Page" where
  "UpdateLeaf p key new_value =
     (if \<not> IsLeaf p then (False, p)
      else case FindKeyIndex p key of (index, found) \<Rightarrow>
        if \<not> found then (False, p)
        else
          let record = EncodeLeafRecord key new_value;
              new_len = of_nat (length record) :: u16;
              old_len = GetRecordLength p index
          in if new_len \<le> old_len then
               let q = put_record p index (take (unat new_len) record) in
               if new_len < old_len then
                 (True, q\<lparr>hdr := (hdr q)\<lparr>dead_bytes := dead_bytes (hdr q) + (old_len - new_len)\<rparr>,
                          dat := slot_write (dat q) index ((slot q index)\<lparr>s_length := new_len\<rparr>)\<rparr>)
               else (True, q)
             else if FreeSpace p < new_len then
               if unat (FreeSpace p) + unat (dead_bytes (hdr p)) + unat old_len < unat new_len
               then (False, p)
               else (True, place_record (Compact (snd (DeleteRecord p index))) index record new_len)
             else
               (True, place_record (p\<lparr>hdr := (hdr p)\<lparr>dead_bytes := dead_bytes (hdr p) + old_len\<rparr>\<rparr>)
                        index record new_len))"

function shift_slots :: "mem \<Rightarrow> nat \<Rightarrow> nat \<Rightarrow> mem" where
  "shift_slots m i n = (if i + 1 < n then shift_slots (slot_write m i (slot_at m (i + 1))) (i + 1) n else m)"
  by pat_completeness auto
termination
  by (relation "measure (\<lambda>(m, i, n). n - i)") auto

declare shift_slots.simps [simp del]

definition DeleteAt :: "Page \<Rightarrow> nat \<Rightarrow> bool \<times> Page" where
  "DeleteAt p index =
     (let num_keys = NumKeys p in
      if num_keys \<le> index then (False, p)
      else
        let d = dead_bytes (hdr p) + s_length (slot p index);
            m = shift_slots (dat p) index num_keys;
            n = of_nat (num_keys - 1) :: u16;
            m = mem_write m (slot_addr (num_keys - 1)) (replicate kSlotSize 0)
        in (True, p\<lparr>hdr := (hdr p)\<lparr>dead_bytes := d, num_slots := n,
                     free_space_start := of_nat kHeaderSize + n * of_nat kSlotSize\<rparr>, dat := m\<rparr>))"

subsection \<open>Internal-node operations\<close>

definition GetChild :: "Page \<Rightarrow> nat \<Rightarrow> PageId" where
  "GetChild p index =
     (if NumKeys p \<le> index then kInvalidPageId
      else case GetRecordPtr p index of
        None \<Rightarrow> kInvalidPageId
      | Some a \<Rightarrow> if GetRecordLength p index = 0 then kInvalidPageId
                  else snd (DecodeInternalRecord (dat p) a))"

definition GetRightmostChild :: "Page \<Rightarrow> PageId" where
  "GetRightmostChild p = rightmost_child (hdr p)"

definition SetRightmostChild :: "Page \<Rightarrow> PageId \<Rightarrow> Page" where
  "SetRightmostChild p child = p\<lparr>hdr := (hdr p)\<lparr>rightmost_child := child\<rparr>\<rparr>"

definition FindChildIndex :: "Page \<Rightarrow> key \<Rightarrow> nat" where
  "FindChildIndex p key = (case FindKeyIndex p key of (index, found) \<Rightarrow> if found then index + 1 else index)"

definition FindChild :: "Page \<Rightarrow> key \<Rightarrow> PageId" where
  "FindChild p key =
     (if \<not> IsInternal p then kInvalidPageId
      else let child_index = FindChildIndex p key in
        if child_index < NumKeys p then GetChild p child_index else GetRightmostChild p)"

definition InsertInternal :: "Page \<Rightarrow> key \<Rightarrow> PageId \<Rightarrow> bool \<times> Page" where
  "InsertInternal p key left_child =
     (if \<not> IsInternal p then (False, p)
      else case EnsureFit p (kSlotSize + 6 + length key) of (fits, p) \<Rightarrow>
        if \<not> fits then (False, p)
        else case FindKeyIndex p key of (index, found) \<Rightarrow>
          InsertAt p index (EncodeInternalRecord key left_child))"

text \<open>The 16-bit sum of \<^verbatim>\<open>CanFitInternal\<close>.\<close>

definition CanFitInternal :: "Page \<Rightarrow> u16 \<Rightarrow> bool" where
  "CanFitInternal p key_len = (let needed = of_nat kSlotSize + 2 + key_len + 4 in needed \<le> FreeSpace p)"

definition CanFitLeaf :: "Page \<Rightarrow> u16 \<Rightarrow> u16 \<Rightarrow> bool" where
  "CanFitLeaf p key_len value_len =
     (let needed = of_nat kSlotSize + 2 + key_len + 2 + value_len in needed \<le> FreeSpace p)"

definition ShouldSplit :: "Page \<Rightarrow> bool" where
  "ShouldSplit p \<longleftrightarrow> unat (FreeSpace p) < kPageSize div 10"

definition GetSplitIndex :: "Page \<Rightarrow> nat" where
  "GetSplitIndex p = NumKeys p div 2"

text \<open>The re-insertion loop: the page as it stands is returned with \<open>False\<close> at the first failure.\<close>

fun reinsert :: "Page \<Rightarrow> (key \<times> PageId) list \<Rightarrow> bool \<times> Page" where
  "reinsert p [] = (True, p)"
| "reinsert p ((k, c) # es) =
     (let record = EncodeInternalRecord k c in
      case InsertRecord p record (of_nat (length record)) of
        (Inl _, q) \<Rightarrow> (False, q)
      | (Inr _, q) \<Rightarrow> reinsert q es)"

definition split_entries :: "Page \<Rightarrow> nat \<Rightarrow> key \<Rightarrow> PageId \<Rightarrow> PageId \<Rightarrow> (key \<times> PageId) list" where
  "split_entries p insert_index split_key left_child right_child =
     concat (map (\<lambda>i. if i = insert_index then [(split_key, left_child), (GetKey p i, right_child)]
                      else [(GetKey p i, GetChild p i)]) [0 ..< NumKeys p]) @
     (if insert_index = NumKeys p then [(split_key, left_child)] else [])"

definition InsertInternalAfterSplit :: "Page \<Rightarrow> key \<Rightarrow> PageId \<Rightarrow> PageId \<Rightarrow> bool \<times> Page" where
  "InsertInternalAfterSplit p split_key left_child right_child =
     (if \<not> IsInternal p then (False, p)
      else if \<not> CanFitInternal p (of_nat (length split_key)) then (False, p)
      else
        let insert_index = fst (FindKeyIndex p split_key);
            entries = split_entries p insert_index split_key left_child right_child;
            new_rightmost = (if insert_index = NumKeys p then right_child else GetRightmostChild p);
            total_needed = sum_list (map (\<lambda>(k, _). kSlotSize + 2 + length k + 4) entries)
        in if total_needed > kPageSize - kHeaderSize then (False, p)
           else
             let q = Page_Init (page_id (hdr p)) kInternalNode;
                 q = q\<lparr>hdr := (hdr q)\<lparr>page_lsn := page_lsn (hdr p)\<rparr>\<rparr>;
                 q = SetRightmostChild q new_rightmost
             in reinsert q entries)"

subsection \<open>Sibling links\<close>

definition GetNextLeaf :: "Page \<Rightarrow> PageId" where "GetNextLeaf p = next_page (hdr p)"
definition GetPrevLeaf :: "Page \<Rightarrow> PageId" where "GetPrevLeaf p = prev_page (hdr p)"

definition SetNextLeaf :: "Page \<Rightarrow> PageId \<Rightarrow> Page" where
  "SetNextLeaf p n = p\<lparr>hdr := (hdr p)\<lparr>next_page := n\<rparr>\<rparr>"

definition SetPrevLeaf :: "Page \<Rightarrow> PageId \<Rightarrow> Page" where
  "SetPrevLeaf p n = p\<lparr>hdr := (hdr p)\<lparr>prev_page := n\<rparr>\<rparr>"

lemmas link_defs = InitLeaf_def InitInternal_def SetRightmostChild_def SetNextLeaf_def SetPrevLeaf_def
  GetNextLeaf_def GetPrevLeaf_def GetRightmostChild_def

subsection \<open>Binary search\<close>

definition keys :: "Page \<Rightarrow> key list" where
  "keys p = map (GetKey p) [0 ..< nslots p]"

text \<open>The specification of the search: the number of keys below the one sought.\<close>

definition lb :: "key list \<Rightarrow> key \<Rightarrow> nat" where
  "lb ks k = length (takeWhile (\<lambda>x. x < k) ks)"

lemma NumKeys_nslots [simp]: "NumKeys p = nslots p"
  by (simp add: NumKeys_def nslots_def)

lemma length_keys [simp]: "length (keys p) = nslots p"
  by (simp add: keys_def)

lemma nth_keys [simp]: "i < nslots p \<Longrightarrow> keys p ! i = GetKey p i"
  by (simp add: keys_def)

lemma lb_eqI:
  assumes "l \<le> length ks" and "\<And>i. i < l \<Longrightarrow> ks ! i < k" and "l < length ks \<Longrightarrow> \<not> ks ! l < k"
  shows "lb ks k = l"
proof -
  have "takeWhile (\<lambda>x. x < k) ks = take l ks"
    using assms by (intro takeWhile_eq_take_P_nth) auto
  then show ?thesis using assms(1) by (simp add: lb_def)
qed

lemma lb_le [simp]: "lb ks k \<le> length ks"
  by (simp add: lb_def length_takeWhile_le)

lemma lb_props:
  assumes "sorted_wrt (<) ks"
  shows "i < lb ks k \<Longrightarrow> ks ! i < k" and "lb ks k \<le> i \<Longrightarrow> i < length ks \<Longrightarrow> k \<le> ks ! i"
proof -
  show "i < lb ks k \<Longrightarrow> ks ! i < k"
    unfolding lb_def using nth_mem [of i "takeWhile (\<lambda>x. x < k) ks"] takeWhile_nth [of i "\<lambda>x. x < k" ks]
    by (auto dest: set_takeWhileD)
  assume i: "lb ks k \<le> i" "i < length ks"
  then have "\<not> ks ! lb ks k < k"
    using nth_length_takeWhile [of "\<lambda>x. x < k" ks] by (simp add: lb_def)
  moreover have "ks ! lb ks k \<le> ks ! i"
    using assms i sorted_wrt_nth_less [OF assms, of "lb ks k" i] by (cases "lb ks k = i") auto
  ultimately show "k \<le> ks ! i" by simp
qed

lemma find_loop_correct:
  assumes "sorted_wrt (<) (keys p)" and "left \<le> right" and "right \<le> nslots p"
    and "\<And>i. i < left \<Longrightarrow> GetKey p i < k" and "\<And>i. right \<le> i \<Longrightarrow> i < nslots p \<Longrightarrow> k < GetKey p i"
  shows "find_loop p k left right = (lb (keys p) k, k \<in> set (keys p))"
  using assms
proof (induction p k left right rule: find_loop.induct)
  case (1 p k left right)
  note s = 1(3) and le = 1(4,5) and lo = 1(6) and hi = 1(7)
  let ?mid = "left + (right - left) div 2"
  have mono: "GetKey p i < GetKey p j" if "i < j" "j < nslots p" for i j
    using sorted_wrt_nth_less [OF s, of i j] that by simp
  have mono': "GetKey p i \<le> GetKey p j" if "i \<le> j" "j < nslots p" for i j
    using mono [of i j] that by (cases "i = j") auto
  show ?case
  proof (cases "left < right")
    case False
    with le have "left = right" by simp
    have "k \<notin> set (keys p)"
    proof
      assume "k \<in> set (keys p)"
      then obtain i where "i < nslots p" "GetKey p i = k" by (auto simp: in_set_conv_nth)
      with lo [of i] hi [of i] \<open>left = right\<close> show False by (cases "i < left") auto
    qed
    moreover have "lb (keys p) k = left"
      using le lo hi [of left] \<open>left = right\<close> by (intro lb_eqI) auto
    ultimately show ?thesis using False by (simp add: find_loop.simps [of p k left])
  next
    case True
    then have mid: "left \<le> ?mid" "?mid < right" "?mid < nslots p" using le by auto
    consider "k = GetKey p ?mid" | "k < GetKey p ?mid" | "GetKey p ?mid < k" by fastforce
    then show ?thesis
    proof cases
      case 1
      then have "k \<in> set (keys p)" using mid(3) by (auto simp: in_set_conv_nth)
      moreover have "lb (keys p) k = ?mid"
        using mid(3) 1 mono [of _ ?mid] by (intro lb_eqI) auto
      moreover have "find_loop p k left right = (?mid, True)"
        using True 1 by (subst find_loop.simps) (simp add: Let_def)
      ultimately show ?thesis by simp
    next
      case 2
      have "find_loop p k left ?mid = (lb (keys p) k, k \<in> set (keys p))"
      proof (rule "1.IH"(1) [OF True refl refl _ 2 s])
        show "k < GetKey p i" if "?mid \<le> i" "i < nslots p" for i
          using 2 mono' [of ?mid i] that by auto
      qed (use 2 mid le lo in auto)
      moreover have "k \<noteq> GetKey p ?mid" "(k < GetKey p ?mid) = True" using 2 by auto
      ultimately show ?thesis using True by (subst find_loop.simps) (simp add: Let_def)
    next
      case 3
      have "find_loop p k (?mid + 1) right = (lb (keys p) k, k \<in> set (keys p))"
      proof (rule "1.IH"(2) [OF True refl refl _ _ s])
        show "GetKey p i < k" if "i < ?mid + 1" for i
          using 3 mono' [of i ?mid] that mid by auto
      qed (use 3 mid le hi in auto)
      moreover have "k \<noteq> GetKey p ?mid" "(k < GetKey p ?mid) = False" using 3 by auto
      ultimately show ?thesis using True by (subst find_loop.simps) (simp add: Let_def)
    qed
  qed
qed

lemma FindKeyIndex_eq:
  assumes "sorted_wrt (<) (keys p)"
  shows "FindKeyIndex p k = (lb (keys p) k, k \<in> set (keys p))"
proof (cases "nslots p = 0")
  case True
  then show ?thesis by (simp add: FindKeyIndex_def lb_def keys_def)
next
  case False
  then show ?thesis using find_loop_correct [OF assms, of 0 "nslots p" k] by (simp add: FindKeyIndex_def)
qed

lemma lb_found:
  assumes "sorted_wrt (<) ks" and "k \<in> set ks"
  shows "lb ks k < length ks" and "ks ! lb ks k = k"
proof -
  from assms(2) obtain i where i: "i < length ks" "ks ! i = k" by (auto simp: in_set_conv_nth)
  have "lb ks k = i"
    using i sorted_wrt_nth_less [OF assms(1), of _ i] by (intro lb_eqI) auto
  with i show "lb ks k < length ks" "ks ! lb ks k = k" by auto
qed

subsection \<open>Reading encoded records\<close>

lemma mem_read_sub:
  assumes "mem_read m a n = xs @ ys @ zs"
  shows "mem_read m (a + length xs) (length ys) = ys"
proof -
  have "n = length xs + length ys + length zs"
    using arg_cong [OF assms, of length] by simp
  then have "mem_read m (a + length xs) (length ys) = take (length ys) (drop (length xs) (xs @ ys @ zs))"
    unfolding assms [symmetric] by (subst mem_read_inside) auto
  then show ?thesis by simp
qed

lemma slot_view_Some:
  assumes "slot_view (dat p) i = Some b" and "i < nslots p"
  shows "live p i" and "GetRecordPtr p i = Some (roff p i)" and "unat (GetRecordLength p i) = rlen p i"
    and "mem_read (dat p) (roff p i) (rlen p i) = b" and "rlen p i = length b"
proof -
  show "live p i" "GetRecordPtr p i = Some (roff p i)" "unat (GetRecordLength p i) = rlen p i"
    "mem_read (dat p) (roff p i) (rlen p i) = b"
    using assms by (auto simp: slot_view_def live_def GetRecordPtr_def GetRecordLength_def roff_def rlen_def Let_def
        split: if_splits)
  then show "rlen p i = length b" by auto
qed

lemma GetKey_prefix:
  assumes "slot_view (dat p) i = Some (PutLE 2 (of_nat (length k) :: u16) @ k @ rest)"
    and "i < nslots p" and "length k < 65536"
  shows "GetKey p i = k"
proof -
  note v = slot_view_Some [OF assms(1,2)]
  have u: "unat (of_nat (length k) :: u16) = length k" using assms(3) by (intro unat_of_nat_less) simp
  have "mem_read (dat p) (roff p i) 2 = PutLE 2 (of_nat (length k) :: u16)"
    using mem_read_sub [of "dat p" "roff p i" "rlen p i" "[]" "PutLE 2 (of_nat (length k) :: u16)" "k @ rest"] v(4)
    by simp
  moreover have "mem_read (dat p) (roff p i + 2) (length k) = k"
    using mem_read_sub [of "dat p" "roff p i" "rlen p i" "PutLE 2 (of_nat (length k) :: u16)" k rest] v(4) by simp
  ultimately show ?thesis
    using v(2) assms(2) u by (simp add: GetKey_def le_simps Let_def)
qed

lemma GetValueAt_enc:
  assumes "slot_view (dat p) i = Some (EncodeLeafRecord k v)"
    and "i < nslots p" and "length k < 65536" and "length v < 65536"
  shows "GetValueAt p i = v"
proof -
  note w = slot_view_Some [OF assms(1,2)]
  let ?m = "dat p" and ?a = "roff p i" and ?kl = "of_nat (length k) :: u16" and ?vl = "of_nat (length v) :: u16"
  have e: "mem_read ?m ?a (rlen p i) = PutLE 2 ?kl @ k @ PutLE 2 ?vl @ v"
    using w(4) by (simp add: EncodeLeafRecord_def)
  have u: "unat ?kl = length k" "unat ?vl = length v"
    using assms(3,4) by (auto intro!: unat_of_nat_less)
  have "mem_read ?m ?a 2 = PutLE 2 ?kl" 
    using mem_read_sub [of ?m ?a "rlen p i" "[]" "PutLE 2 ?kl" "k @ PutLE 2 ?vl @ v"] e by simp
  moreover have "mem_read ?m (?a + 2 + length k) 2 = PutLE 2 ?vl"
    using mem_read_sub [of ?m ?a _ "PutLE 2 ?kl @ k" "PutLE 2 ?vl" v] e by (simp add: add.assoc)
  moreover have "mem_read ?m (?a + 2 + length k + 2) (length v) = v"
    using mem_read_sub [of ?m ?a _ "PutLE 2 ?kl @ k @ PutLE 2 ?vl" v "[]"] e by (simp add: ac_simps)
  moreover have "GetRecordLength p i \<noteq> 0"
    using w(3,5) by (auto simp: EncodeLeafRecord_def)
  ultimately show ?thesis
    using w(2) assms(2) u by (simp add: GetValueAt_def DecodeLeafRecord_def le_simps Let_def)
qed

lemma GetChild_enc:
  assumes "slot_view (dat p) i = Some (EncodeInternalRecord k c)" and "i < nslots p" and "length k < 65536"
  shows "GetChild p i = c"
proof -
  note w = slot_view_Some [OF assms(1,2)]
  let ?m = "dat p" and ?a = "roff p i" and ?kl = "of_nat (length k) :: u16"
  have e: "mem_read ?m ?a (rlen p i) = PutLE 2 ?kl @ k @ PutLE 4 c"
    using w(4) by (simp add: EncodeInternalRecord_def)
  have u: "unat ?kl = length k" using assms(3) by (intro unat_of_nat_less) simp
  have "mem_read ?m ?a 2 = PutLE 2 ?kl" 
    using mem_read_sub [of ?m ?a "rlen p i" "[]" "PutLE 2 ?kl" "k @ PutLE 4 c"] e by simp
  moreover have "mem_read ?m (?a + 2 + length k) 4 = PutLE 4 c"
    using mem_read_sub [of ?m ?a _ "PutLE 2 ?kl @ k" "PutLE 4 c" "[]"] e by (simp add: add.assoc)
  moreover have "GetRecordLength p i \<noteq> 0"
    using w(3,5) by (auto simp: EncodeInternalRecord_def)
  ultimately show ?thesis
    using w(2) assms(2) u by (simp add: GetChild_def DecodeInternalRecord_def le_simps Let_def)
qed

subsection \<open>Header identity, and room after compaction\<close>

text \<open>
  \<open>ident p\<close> is the part of the header that the record operations leave alone: page id, type,
  LSN, sibling links and rightmost child.
\<close>

definition ident :: "Page \<Rightarrow> PageHeader" where
  "ident p = (hdr p)\<lparr>num_slots := 0, free_space_start := 0, free_space_end := 0, dead_bytes := 0\<rparr>"

lemma identI:
  "hdr q = (hdr p)\<lparr>num_slots := a, free_space_start := b, free_space_end := c, dead_bytes := d\<rparr> \<Longrightarrow> ident q = ident p"
  by (simp add: ident_def)

lemma ident_fields:
  assumes "ident q = ident p"
  shows "page_id (hdr q) = page_id (hdr p)" and "ptype (hdr q) = ptype (hdr p)"
    and "page_lsn (hdr q) = page_lsn (hdr p)" and "next_page (hdr q) = next_page (hdr p)"
    and "prev_page (hdr q) = prev_page (hdr p)" and "rightmost_child (hdr q) = rightmost_child (hdr p)"
  using arg_cong [OF assms, of page_id] arg_cong [OF assms, of ptype] arg_cong [OF assms, of page_lsn]
    arg_cong [OF assms, of next_page] arg_cong [OF assms, of prev_page] arg_cong [OF assms, of rightmost_child]
  by (simp_all add: ident_def)

lemma ident_type: "ident q = ident p \<Longrightarrow> IsLeaf q = IsLeaf p" "ident q = ident p \<Longrightarrow> IsInternal q = IsInternal p"
  by (auto simp: IsLeaf_def IsInternal_def dest: ident_fields(2))

lemma ident_InsertRecordAt:
  assumes "InsertRecordAt p i d l = (r, q)"
  shows "ident q = ident p"
  using assms by (auto simp: InsertRecordAt_def Let_def ident_def split: if_splits)

lemma ident_Compact: "ident (Compact p) = ident p"
  by (simp add: Compact_def ident_def split: prod.split)

definition room :: "Page \<Rightarrow> nat" where
  "room p = slack p + dead p"

lemma room_view: "page_ok p \<Longrightarrow> room p + view_size (slots_view p) + 8 * nslots p = 4056"
  using layout_bounds [of p] by (auto simp: room_def slack_def page_ok_def live_sum_view layout_defs)

lemma EnsureFit_ok:
  assumes ok: "page_ok p" and res: "EnsureFit p n = (b, q)"
  shows "b \<longleftrightarrow> n \<le> room p" and "page_ok q" and "slots_view q = slots_view p" and "room q = room p"
    and "ident q = ident p" and "b \<Longrightarrow> n \<le> slack q"
proof -
  have lo: "layout_ok p" using ok by (simp add: page_ok_def)
  note c = Compact_page_ok [OF lo] Compact_post(1,2,3) [OF lo]
  have fs: "unat (FreeSpace p) = slack p" using unat_FreeSpace [OF lo] by (simp add: slack_def)
  have fc: "unat (FreeSpace (Compact p)) = slack (Compact p)"
    using unat_FreeSpace c(1) by (simp add: slack_def page_ok_def)
  have rc: "slack (Compact p) = room p" "room (Compact p) = room p"
    using room_view [OF ok] room_view [OF c(1)] c(2,4,6) by (simp_all add: room_def)
  have d: "unat (dead_bytes (hdr p)) = dead p" by (simp add: dead_def)
  have cases: "(b, q) = (if n \<le> slack p then (True, p) else if n \<le> room p then (True, Compact p) else (False, p))"
    using res by (simp add: EnsureFit_def fs fc d rc room_def Let_def split: if_splits)
  then show "b \<longleftrightarrow> n \<le> room p" by (auto simp: room_def split: if_splits)
  show "page_ok q" "slots_view q = slots_view p" "room q = room p" "ident q = ident p" "b \<Longrightarrow> n \<le> slack q"
    using cases ok c(1,2) rc ident_Compact [of p] by (auto split: if_splits)
qed

lemma InsertAt_ok:
  assumes ok: "page_ok p" and i: "i \<le> nslots p" and fit: "length d + 8 \<le> slack p" and res: "InsertAt p i d = (b, q)"
  shows "b" and "page_ok q" and "slots_view q = take i (slots_view p) @ Some d # drop i (slots_view p)"
    and "room q + (length d + 8) = room p" and "ident q = ident p"
proof -
  obtain r q' where rq: "InsertRecordAt p i d (of_nat (length d)) = (r, q')"
    by (cases "InsertRecordAt p i d (of_nat (length d))")
  have "length d < 65528" using fit slack_bound [OF ok] by simp
  note c = InsertRecordAt_cases [OF ok this rq]
  have bq: "b" "q = q'" using res rq i c fit by (auto simp: InsertAt_def)
  then show "b" "page_ok q" "slots_view q = take i (slots_view p) @ Some d # drop i (slots_view p)"
    "room q + (length d + 8) = room p" "ident q = ident p"
    using c i fit ident_InsertRecordAt [OF rq] by (auto simp: room_def)
qed

subsection \<open>Leaves as sorted association lists\<close>

text \<open>
  \<open>leaf_rep p es\<close>: the page is a well-formed leaf whose slots hold exactly the encodings of
  the entries \<open>es\<close>, in strictly increasing key order.
\<close>

definition leaf_entries :: "Page \<Rightarrow> (key \<times> bytes) list" where
  "leaf_entries p = map (\<lambda>i. (GetKey p i, GetValueAt p i)) [0 ..< nslots p]"

definition enc_leaf :: "key \<times> bytes \<Rightarrow> bytes" where
  "enc_leaf e = EncodeLeafRecord (fst e) (snd e)"

definition leaf_rep :: "Page \<Rightarrow> (key \<times> bytes) list \<Rightarrow> bool" where
  "leaf_rep p es \<longleftrightarrow> page_ok p \<and> IsLeaf p \<and> slots_view p = map (Some \<circ> enc_leaf) es \<and> sorted_wrt (<) (map fst es)"

definition leaf_ok :: "Page \<Rightarrow> bool" where
  "leaf_ok p \<longleftrightarrow> leaf_rep p (leaf_entries p)"

lemma length_enc_leaf [simp]: "length (enc_leaf (k, v)) = length k + length v + 4"
  by (simp add: enc_leaf_def EncodeLeafRecord_def)

lemma view_size_ge: "Some d \<in> set v \<Longrightarrow> length d \<le> view_size v"
  by (induction v) (auto split: option.splits)

lemma leaf_rep_entries:
  assumes "leaf_rep p es"
  shows "nslots p = length es" and "leaf_entries p = es" and "keys p = map fst es" and "leaf_ok p"
proof -
  have ok: "page_ok p" and v: "slots_view p = map (Some \<circ> enc_leaf) es"
    using assms by (auto simp: leaf_rep_def)
  show n: "nslots p = length es" using arg_cong [OF v, of length] by simp
  have e: "GetKey p i = fst (es ! i)" "GetValueAt p i = snd (es ! i)" if i: "i < length es" for i
  proof -
    obtain k w where kw: "es ! i = (k, w)" by fastforce
    have sv: "slot_view (dat p) i = Some (EncodeLeafRecord k w)"
      using arg_cong [OF v, of "\<lambda>x. x ! i"] i n kw by (simp add: enc_leaf_def)
    have "Some (enc_leaf (k, w)) \<in> set (slots_view p)" using v i kw by (metis comp_apply nth_mem image_eqI set_map)
    then have "length k + length w + 4 \<le> 4056"
      using view_size_ge room_view [OF ok] by fastforce
    then have l: "length k < 65536" "length w < 65536" by auto
    show "GetKey p i = fst (es ! i)"
      using GetKey_prefix [of p i k] sv i n l kw by (simp add: EncodeLeafRecord_def)
    show "GetValueAt p i = snd (es ! i)" using GetValueAt_enc [OF sv] i n l kw by simp
  qed
  show le: "leaf_entries p = es"
    by (rule nth_equalityI) (auto simp: leaf_entries_def n e)
  show "keys p = map fst es" by (rule nth_equalityI) (auto simp: n e)
  show "leaf_ok p" using assms le by (simp add: leaf_ok_def)
qed

lemma leaf_ok_rep: "leaf_ok p \<longleftrightarrow> (\<exists>es. leaf_rep p es)"
  using leaf_rep_entries(4) leaf_ok_def by blast

definition ins_at :: "('k :: linorder \<times> 'v) list \<Rightarrow> 'k \<Rightarrow> 'v \<Rightarrow> ('k \<times> 'v) list" where
  "ins_at es k v = takeWhile (\<lambda>e. fst e < k) es @ (k, v) # dropWhile (\<lambda>e. fst e < k) es"

lemma map_of_insert: "k \<notin> fst ` set xs \<Longrightarrow> map_of (xs @ (k, v) # ys) = (map_of (xs @ ys))(k \<mapsto> v)"
  by (induction xs) (auto simp: fun_eq_iff)

lemma sorted_keys_distinct: "sorted_wrt (<) (map fst es) \<Longrightarrow> distinct (map fst (es :: ('k :: linorder \<times> 'v) list))"
  by (simp add: strict_sorted_iff)

lemma lb_takeWhile:
  "takeWhile (\<lambda>e. fst e < k) es = take (lb (map fst es) k) es"
  "dropWhile (\<lambda>e. fst e < k) es = drop (lb (map fst es) k) es"
  by (simp_all add: lb_def takeWhile_map comp_def takeWhile_eq_take [symmetric] dropWhile_eq_drop [symmetric])

lemma ins_at_props:
  assumes s: "sorted_wrt (<) (map fst (es :: (key \<times> 'v) list))" and k: "k \<notin> fst ` set es"
  shows "sorted_wrt (<) (map fst (ins_at es k v))" and "map_of (ins_at es k v) = (map_of es)(k \<mapsto> v)"
    and "ins_at es k v = take (lb (map fst es) k) es @ (k, v) # drop (lb (map fst es) k) es"
proof -
  let ?i = "lb (map fst es) k"
  show eq: "ins_at es k v = take ?i es @ (k, v) # drop ?i es" by (simp add: ins_at_def lb_takeWhile)
  have il: "?i \<le> length es" using lb_le [of "map fst es" k] by simp
  have lo: "fst e < k" if "e \<in> set (take ?i es)" for e
    using that lb_props(1) [OF s, of _ k] il by (auto simp: in_set_conv_nth)
  have hi: "k < fst e" if e: "e \<in> set (drop ?i es)" for e
  proof -
    obtain j where j: "?i \<le> j" "j < length es" "es ! j = e"
      using e il by (auto simp: in_set_conv_nth) (metis add.commute le_add1 less_diff_conv)
    then have "k \<le> fst e" using lb_props(2) [OF s, of k j] by auto
    moreover have "k \<noteq> fst e" using e k in_set_dropD by fastforce
    ultimately show ?thesis by simp
  qed
  have "sorted_wrt (<) (map fst (take ?i es @ drop ?i es))" using s by simp
  then show "sorted_wrt (<) (map fst (ins_at es k v))"
    unfolding eq using lo hi by (auto simp: sorted_wrt_append simp del: append_take_drop_id)
  have "k \<notin> fst ` set (take ?i es)" using k set_take_subset [of ?i es] by auto
  then show "map_of (ins_at es k v) = (map_of es)(k \<mapsto> v)" 
    using map_of_insert [of k "take ?i es" v "drop ?i es"] by (simp add: eq del: map_of_append)
qed

lemma list_split_at: "i < length es \<Longrightarrow> es = take i es @ es ! i # drop (Suc i) es"
  by (rule id_take_nth_drop)

lemma del_at_props:
  assumes s: "sorted_wrt (<) (map fst (es :: (key \<times> 'v) list))" and i: "i < length es"
  shows "sorted_wrt (<) (map fst (take i es @ drop (Suc i) es))"
    and "map_of (take i es @ drop (Suc i) es) = (map_of es)(fst (es ! i) := None)"
proof -
  obtain xs k v ys where es: "es = xs @ (k, v) # ys" "length xs = i"
    using list_split_at [OF i] i by (metis length_take min.absorb4 surj_pair)
  show "sorted_wrt (<) (map fst (take i es @ drop (Suc i) es))"
    using s es by (auto simp: sorted_wrt_append)
  have "k \<notin> fst ` set xs" "k \<notin> fst ` set ys" using sorted_keys_distinct [OF s] es by auto
  then have "(map_of (xs @ ys))(k := None) = map_of (xs @ ys)" 
    by (intro fun_upd_idem) (simp add: map_of_eq_None_iff map_add_None)
  with \<open>k \<notin> fst ` set xs\<close> show "map_of (take i es @ drop (Suc i) es) = (map_of es)(fst (es ! i) := None)"
    using es map_of_insert [of k xs v ys] by (simp add: nth_append del: map_of_append)
qed

lemma upd_at_props:
  assumes s: "sorted_wrt (<) (map fst (es :: (key \<times> 'v) list))" and i: "i < length es" and k: "fst (es ! i) = k"
  shows "sorted_wrt (<) (map fst (es[i := (k, v)]))" and "map_of (es[i := (k, v)]) = (map_of es)(k \<mapsto> v)"
proof -
  obtain xs w ys where es: "es = xs @ (k, w) # ys" "length xs = i"
    using list_split_at [OF i] i k by (metis length_take min.absorb4 prod.collapse)
  show "sorted_wrt (<) (map fst (es[i := (k, v)]))" using s es by (auto simp: sorted_wrt_append)
  have "k \<notin> fst ` set xs" using sorted_keys_distinct [OF s] es by auto
  then show "map_of (es[i := (k, v)]) = (map_of es)(k \<mapsto> v)" 
    using es(1) es(2) [symmetric] map_of_insert [of k xs _ ys] by (simp del: map_of_append)
qed

lemma leaf_FindKeyIndex:
  assumes "leaf_rep p es"
  shows "FindKeyIndex p k = (lb (map fst es) k, k \<in> fst ` set es)"
  using FindKeyIndex_eq [of p k] assms leaf_rep_entries(3) [OF assms] by (simp add: leaf_rep_def)

lemma lb_entry:
  assumes "sorted_wrt (<) (map fst es)" and "k \<in> fst ` set es"
  shows "lb (map fst es) k < length es" and "fst (es ! lb (map fst es) k) = k"
  using lb_found [OF assms(1), of k] assms(2) by auto

lemma GetValue_ok:
  assumes "leaf_rep p es"
  shows "GetValue p k = map_of es k"
proof -
  have s: "sorted_wrt (<) (map fst es)" and l: "IsLeaf p" using assms by (auto simp: leaf_rep_def)
  let ?i = "lb (map fst es) k"
  show ?thesis
  proof (cases "k \<in> fst ` set es")
    case True
    note i = lb_entry [OF s True]
    have "GetValueAt p ?i = snd (es ! ?i)"
      using arg_cong [OF leaf_rep_entries(2) [OF assms], of "\<lambda>x. x ! ?i"] i(1) leaf_rep_entries(1) [OF assms]
      by (auto simp: leaf_entries_def dest: arg_cong [of _ _ snd])
    moreover have "map_of es k = Some (snd (es ! ?i))"
      using i nth_mem [OF i(1)] sorted_keys_distinct [OF s] by (metis map_of_eq_Some_iff prod.collapse)
    ultimately show ?thesis using True l by (simp add: GetValue_def leaf_FindKeyIndex [OF assms])
  next
    case False
    then show ?thesis by (simp add: GetValue_def leaf_FindKeyIndex [OF assms] map_of_eq_None_iff [THEN iffD2])
  qed
qed

lemma InsertLeaf_ok:
  assumes rep: "leaf_rep p es" and res: "InsertLeaf p k v = (b, q)"
  shows "b \<longleftrightarrow> k \<notin> fst ` set es \<and> length k + length v + 12 \<le> room p"
    and "leaf_rep q (if b then ins_at es k v else es)" and "ident q = ident p"
    and "room q + (if b then length k + length v + 12 else 0) = room p"
proof -
  have ok: "page_ok p" and l: "IsLeaf p" and v: "slots_view p = map (Some \<circ> enc_leaf) es"
    and s: "sorted_wrt (<) (map fst es)" using rep by (auto simp: leaf_rep_def)
  let ?n = "kSlotSize + 4 + length k + length v"
  obtain f p1 where ef: "EnsureFit p ?n = (f, p1)" by (cases "EnsureFit p ?n")
  note e = EnsureFit_ok [OF ok ef]
  have rep1: "leaf_rep p1 es" using e(2,3,5) rep ident_type [OF e(5)] by (simp add: leaf_rep_def)
  have n1: "nslots p1 = length es" by (rule leaf_rep_entries(1) [OF rep1])
  let ?i = "lb (map fst es) k" and ?d = "EncodeLeafRecord k v"
  have d: "length ?d + 8 = ?n" by (simp add: EncodeLeafRecord_def kSlotSize_def)
  have main: "(b \<longleftrightarrow> f \<and> k \<notin> fst ` set es) \<and> leaf_rep q (if b then ins_at es k v else es) \<and> ident q = ident p \<and>
      room q + (if b then ?n else 0) = room p"
  proof (cases "f \<and> k \<notin> fst ` set es")
    case True
    have "?i \<le> nslots p1" using n1 lb_le [of "map fst es" k] by simp
    moreover have "InsertAt p1 ?i ?d = (b, q)"
      using res True l by (simp add: InsertLeaf_def ef leaf_FindKeyIndex [OF rep1])
    ultimately have i: "b" "page_ok q" "slots_view q = take ?i (slots_view p1) @ Some ?d # drop ?i (slots_view p1)"
      "room q + (length ?d + 8) = room p1" "ident q = ident p1"
      using InsertAt_ok [OF e(2), of ?i ?d b q] True e(6) d by auto
    have "IsLeaf q" using i(5) e(5) l ident_type(1) by metis
    then show ?thesis
      using True i e(3,4,5) d v ins_at_props [OF s, of k v]
      by (simp add: leaf_rep_def take_map drop_map enc_leaf_def)
  next
    case False
    then have "(b, q) = (False, p1)"
      using res l by (cases f) (simp_all add: InsertLeaf_def ef leaf_FindKeyIndex [OF rep1])
    then have "\<not> b" "q = p1" by auto
    then show ?thesis using False rep1 e(4,5) by simp
  qed
  then show "b \<longleftrightarrow> k \<notin> fst ` set es \<and> length k + length v + 12 \<le> room p"
    "leaf_rep q (if b then ins_at es k v else es)" "ident q = ident p"
    "room q + (if b then length k + length v + 12 else 0) = room p"
    using e(1) by (auto simp: kSlotSize_def split: if_splits)
qed

subsection \<open>Deletion from the slot directory\<close>

lemma shift_slots_post:
  assumes "i < n"
  shows "slot_at (shift_slots m i n) j = (if i \<le> j \<and> j + 1 < n then slot_at m (j + 1) else slot_at m j)"
    and "slot_addr n \<le> k \<Longrightarrow> shift_slots m i n k = m k"
  using assms
proof (induction m i n arbitrary: j rule: shift_slots.induct)
  case (1 m i n)
  note unf = shift_slots.simps [of m i n]
  case 1
  show ?case
  proof (cases "i + 1 < n")
    case True
    then show ?thesis using "1.IH"(1) [OF True] by (auto simp: unf)
  qed (use 1 in \<open>auto simp: unf\<close>)
  case 2
  show ?case
  proof (cases "i + 1 < n")
    case True
    then have "slot_addr (Suc i) \<le> k" using 2 by (simp add: slot_addr_def kSlotSize_def)
    then show ?thesis using "1.IH"(2) [OF True] True 2 by (simp add: unf slot_write_out)
  qed (simp add: unf)
qed

lemma slot_at_zero_out:
  "j < n \<Longrightarrow> slot_at (mem_write m (slot_addr n) xs) j = slot_at m j"
  by (rule slot_at_mem_write) (simp add: slot_addr_def kSlotSize_def)

lemma DeleteAt_slots:
  assumes lo: "layout_ok p" and i: "i < nslots p" and res: "DeleteAt p i = (b, q)"
  shows "b" and "nslots q = nslots p - 1" and "fstart q = fstart p - 8" and "fend q = fend p"
    and "ident q = ident p" and "\<And>k. fend p \<le> k \<Longrightarrow> dat q k = dat p k"
    and "\<And>j. j < nslots p - 1 \<Longrightarrow> slot q j = slot p (if j < i then j else Suc j)"
    and "dead_bytes (hdr q) = dead_bytes (hdr p) + s_length (slot p i)"
proof -
  note bd = layout_bounds [OF lo]
  let ?n = "nslots p" and ?m = "shift_slots (dat p) i (nslots p)"
  have un: "unat (of_nat (?n - 1) :: u16) = ?n - 1" using bd(1) by (intro unat_of_nat_less) simp
  have us: "unat (of_nat kHeaderSize + (of_nat (?n - 1) :: u16) * of_nat kSlotSize) = fstart p - 8"
  proof -
    have "unat ((of_nat (?n - 1) :: u16) * 8) = (?n - 1) * 8"
      using bd(1) by (simp only: unat_word_ariths(2) un) simp
    then show ?thesis using bd i by (subst unat_add_less) (auto simp: layout_defs diff_mult_distrib)
  qed
  have q: "b" "dat q = mem_write ?m (slot_addr (?n - 1)) (replicate kSlotSize 0)"
    "hdr q = (hdr p)\<lparr>dead_bytes := dead_bytes (hdr p) + s_length (slot p i), num_slots := of_nat (?n - 1),
       free_space_start := of_nat kHeaderSize + of_nat (?n - 1) * of_nat kSlotSize\<rparr>"
    using res i by (auto simp: DeleteAt_def Let_def)
  show "b" "dead_bytes (hdr q) = dead_bytes (hdr p) + s_length (slot p i)" using q by simp_all
  show "nslots q = ?n - 1" using q(3) un by (simp add: nslots_def)
  show "fstart q = fstart p - 8" using q(3) us by (simp add: fstart_def nslots_def)
  show "fend q = fend p" using q(3) by (simp add: fend_def)
  show "ident q = ident p" using q(3) by (simp add: ident_def)
  show "slot q j = slot p (if j < i then j else Suc j)" if "j < ?n - 1" for j
    using that q(2) shift_slots_post(1) [OF i, of "dat p" j] by (auto simp: slot_at_zero_out)
  show "dat q k = dat p k" if "fend p \<le> k" for k
  proof -
    have "slot_addr ?n \<le> k" using that bd by simp
    moreover have "slot_addr (?n - 1) + kSlotSize = slot_addr ?n" using i by (simp add: slot_addr_def kSlotSize_def)
    ultimately show ?thesis using q(2) shift_slots_post(2) [OF i] by (simp add: mem_write_out)
  qed
qed

lemma slots_view_above:
  assumes "layout_ok p" and "slot q j = slot p k" and "k < nslots p" and "\<And>a. fend p \<le> a \<Longrightarrow> dat q a = dat p a"
  shows "slot_view (dat q) j = slot_view (dat p) k"
proof (rule slot_view_cong [OF assms(2)])
  fix a assume "slot_IsValid (slot p k)" and "unat (s_offset (slot p k)) \<le> a"
  with assms(1,3) have "fend p \<le> a" unfolding layout_ok_def live_def roff_def by (meson order_trans)
  with assms(4) show "dat q a = dat p a" .
qed

lemma view_size_nth:
  assumes "i < length v"
  shows "view_size v = view_size (take i v) + (case v ! i of None \<Rightarrow> 0 | Some b \<Rightarrow> length b) + view_size (drop (Suc i) v)"
  using arg_cong [OF id_take_nth_drop [OF assms], of view_size] by simp

lemma slot_view_live:
  "live p i \<Longrightarrow> slot_view (dat p) i = Some (mem_read (dat p) (roff p i) (rlen p i))"
  by (simp add: slot_view_def live_def roff_def rlen_def Let_def)

lemma DeleteAt_ok:
  assumes ok: "page_ok p" and i: "live p i" and res: "DeleteAt p i = (b, q)"
  shows "b" and "page_ok q" and "slots_view q = take i (slots_view p) @ drop (Suc i) (slots_view p)"
    and "ident q = ident p" and "room q = room p + rlen p i + 8"
proof -
  have lo: "layout_ok p" using ok by (simp add: page_ok_def)
  have il: "i < nslots p" using i by (simp add: live_def)
  note d = DeleteAt_slots [OF lo il res] and bd = layout_bounds [OF lo]
  show "b" "ident q = ident p" by (rule d)+
  let ?t = "\<lambda>j. if j < i then j else Suc j"
  have sl: "slot q j = slot p (?t j)" "?t j < nslots p" if "j < nslots q" for j
    using that d(2,7) by auto
  have lv: "live p (?t j) \<and> roff q j = roff p (?t j) \<and> rlen q j = rlen p (?t j)" if "live q j" for j
    using that sl [of j] by (simp add: live_def roff_def rlen_def)
  have lay: "layout_ok q"
    unfolding layout_ok_def
  proof (intro conjI allI impI)
    show "fstart q = kHeaderSize + nslots q * kSlotSize" "fstart q \<le> fend q" "fend q \<le> kPageSize"
      using d(2,3,4) bd il by (auto simp: layout_defs diff_mult_distrib)
  next
    fix j assume "live q j"
    with lv lo d(4) show "fend q \<le> roff q j" "roff q j + rlen q j \<le> kPageSize" by (auto simp: layout_ok_def)
  next
    fix j k assume jk: "j < k" and j: "live q j" and k: "live q k"
    have "?t j \<noteq> ?t k" using jk by auto
    with lv [OF j] lv [OF k] show "apart (roff q j, rlen q j) (roff q k, rlen q k)"
      using layout_apart [OF lo, of "?t j" "?t k"] by (auto simp: apart_def)
  qed
  show vw: "slots_view q = take i (slots_view p) @ drop (Suc i) (slots_view p)"
  proof (rule nth_equalityI)
    show "length (slots_view q) = length (take i (slots_view p) @ drop (Suc i) (slots_view p))"
      using d(2) il by simp
  next
    fix j assume "j < length (slots_view q)"
    then have j: "j < nslots q" by simp
    have "slot_view (dat q) j = slot_view (dat p) (?t j)"
      using sl [OF j] d(6) by (intro slots_view_above [OF lo]) auto
    with j d(2) il show "slots_view q ! j = (take i (slots_view p) @ drop (Suc i) (slots_view p)) ! j"
      by (auto simp: nth_append)
  qed
  have rl: "rlen p i + dead p \<le> 4096" using live_sum_le_page [OF ok] rlen_le_live_sum [OF i] by linarith
  have dd: "dead q = dead p + rlen p i"
    using d(8) rl unfolding dead_def rlen_def by (simp add: unat_add_less)
  have "view_size (slots_view p) = view_size (slots_view q) + rlen p i"
    using view_size_nth [of i "slots_view p"] il slot_view_live [OF i] vw by simp
  then show "page_ok q"
    using lay ok d(4) dd unfolding page_ok_def live_sum_view by auto
  show "room q = room p + rlen p i + 8"
    using d(3,4) dd bd il by (auto simp: room_def slack_def)
qed

lemma leaf_live:
  assumes "leaf_rep p es" and "i < length es"
  shows "live p i" and "rlen p i = length (enc_leaf (es ! i))"
proof -
  have n: "nslots p = length es" by (rule leaf_rep_entries(1) [OF assms(1)])
  have v: "slots_view p = map (Some \<circ> enc_leaf) es" using assms(1) by (simp add: leaf_rep_def)
  have "slot_view (dat p) i = Some (enc_leaf (es ! i))"
    using arg_cong [OF v, of "\<lambda>x. x ! i"] assms(2) n by simp
  then show "live p i" "rlen p i = length (enc_leaf (es ! i))"
    using slot_view_Some(1,5) [of p i] assms(2) n by auto
qed

lemma DeleteAt_leaf:
  assumes rep: "leaf_rep p es" and res: "DeleteAt p i = (b, q)"
  shows "b \<longleftrightarrow> i < length es" and "leaf_rep q (if b then take i es @ drop (Suc i) es else es)"
    and "ident q = ident p" and "b \<Longrightarrow> map_of (take i es @ drop (Suc i) es) = (map_of es)(fst (es ! i) := None)"
proof -
  have n: "nslots p = length es" by (rule leaf_rep_entries(1) [OF rep])
  have ok: "page_ok p" "IsLeaf p" and v: "slots_view p = map (Some \<circ> enc_leaf) es"
    and s: "sorted_wrt (<) (map fst es)" using rep by (auto simp: leaf_rep_def)
  have "(b \<longleftrightarrow> i < length es) \<and> leaf_rep q (if b then take i es @ drop (Suc i) es else es) \<and> ident q = ident p"
  proof (cases "i < length es")
    case True
    note d = DeleteAt_ok [OF ok(1) leaf_live(1) [OF rep True] res]
    from True d show ?thesis
      using ok(2) ident_type(1) [OF d(4)] v del_at_props(1) [OF s True] by (simp add: leaf_rep_def take_map drop_map)
  next
    case False
    with res n have "\<not> b" "q = p" by (auto simp: DeleteAt_def Let_def)
    with False rep show ?thesis by simp
  qed
  then show "b \<longleftrightarrow> i < length es" "leaf_rep q (if b then take i es @ drop (Suc i) es else es)" "ident q = ident p"
    "b \<Longrightarrow> map_of (take i es @ drop (Suc i) es) = (map_of es)(fst (es ! i) := None)"
    using del_at_props(2) [OF s] by auto
qed

subsection \<open>Updates in place\<close>

lemma view_size_update:
  assumes "i < length v"
  shows "view_size (v[i := Some d]) + (case v ! i of None \<Rightarrow> 0 | Some b \<Rightarrow> length b) = view_size v + length d"
  using view_size_nth [of i v] view_size_nth [of i "v[i := Some d]"] assms by simp

lemma place_record_ok:
  assumes lo: "layout_ok p" and i: "i < nslots p" and l: "unat l = length d" and fit: "length d \<le> slack p"
  defines "q \<equiv> place_record p i d l"
  shows "layout_ok q" and "slots_view q = (slots_view p)[i := Some d]" and "nslots q = nslots p"
    and "fend q = fend p - length d" and "fstart q = fstart p" and "dead q = dead p" and "ident q = ident p"
proof -
  note b = layout_bounds [OF lo]
  let ?o = "free_space_end (hdr p) - l"
  have uo: "unat ?o = fend p - length d"
    using fit l unfolding fend_def slack_def by (subst unat_sub_le) (auto simp: word_le_nat_alt)
  have q: "q = \<lparr>hdr = (hdr p)\<lparr>free_space_end := ?o\<rparr>, dat = mem_write (slot_write (dat p) i (slot_Init ?o l)) (unat ?o) d\<rparr>"
    using i l by (simp add: q_def place_record_def put_record_def GetRecordPtr_def nslots_def Let_def)
  have top: "slot_addr (nslots p) \<le> unat ?o" using uo fit b by (simp add: slack_def)
  then have sa: "slot_addr (Suc j) \<le> unat ?o" if "j < nslots p" for j
    using that by (simp add: slot_addr_def kSlotSize_def)
  have sl: "slot q j = (if j = i then slot_Init ?o l else slot p j)" if "j < nslots p" for j
    using sa [OF that] q by simp
  show v: "nslots q = nslots p" "fend q = fend p - length d" "fstart q = fstart p" "dead q = dead p" "ident q = ident p"
    using q uo by (simp_all add: view_defs ident_def)
  have mem: "dat q k = dat p k" if "fend p \<le> k" for k
  proof -
    have "unat ?o + length d \<le> k" "slot_addr (Suc i) \<le> k" using that uo fit sa [OF i] by (auto simp: slack_def)
    then show ?thesis using q by (simp add: mem_write_out slot_write_out)
  qed
  have new: "roff q i = fend p - length d" "rlen q i = length d" using sl [OF i] uo l by (simp_all add: roff_def rlen_def)
  have old: "live p j \<and> roff q j = roff p j \<and> rlen q j = rlen p j" if "live q j" "j \<noteq> i" for j
    using that sl [of j] v(1) by (simp add: live_def roff_def rlen_def)
  have bnd: "fend p \<le> roff p j" "roff p j + rlen p j \<le> kPageSize" if "live p j" for j
    using lo that by (auto simp: layout_ok_def)
  have fl: "length d \<le> fend p" "fend p \<le> kPageSize" using fit b by (auto simp: slack_def layout_defs)
  show "layout_ok q"
    unfolding layout_ok_def
  proof (intro conjI allI impI)
    show "fstart q = kHeaderSize + nslots q * kSlotSize" "fstart q \<le> fend q" "fend q \<le> kPageSize"
      using v b fit by (auto simp: layout_defs slack_def)
  next
    fix j assume "live q j"
    then show "fend q \<le> roff q j" "roff q j + rlen q j \<le> kPageSize"
      using old [of j] bnd [of j] new v(2) fl by (cases "j = i"; auto)+
  next
    fix j k assume jk: "j < k" and j: "live q j" and k: "live q k"
    show "apart (roff q j, rlen q j) (roff q k, rlen q k)"
      using old [OF j] old [OF k] bnd [of j] bnd [of k] new fl jk layout_apart [OF lo, of j k]
      by (cases "j = i"; cases "k = i") (auto simp: apart_def)
  qed
  show "slots_view q = (slots_view p)[i := Some d]"
  proof (rule nth_equalityI)
    fix j assume "j < length (slots_view q)"
    then have j: "j < nslots p" using v(1) by simp
    show "slots_view q ! j = (slots_view p)[i := Some d] ! j"
    proof (cases "j = i")
      case True
      then show ?thesis using i v(1) sl [OF i] q l by (simp add: slot_view_def Let_def mem_read_write_same)
    next
      case False
      then have "slot_view (dat q) j = slot_view (dat p) j"
        using sl [OF j] mem j by (intro slots_view_above [OF lo]) auto
      with False j v(1) show ?thesis by simp
    qed
  qed (simp add: v)
qed

lemma shrink_record_ok:
  assumes lo: "layout_ok p" and i: "live p i" and l: "unat l = length d" and le: "length d \<le> rlen p i"
    and q: "hdr q = (hdr p)\<lparr>dead_bytes := db\<rparr>" "dat q = slot_write (mem_write (dat p) (roff p i) d) i ((slot p i)\<lparr>s_length := l\<rparr>)"
  shows "layout_ok q" and "slots_view q = (slots_view p)[i := Some d]" and "nslots q = nslots p"
    and "fend q = fend p" and "fstart q = fstart p" and "ident q = ident p"
proof -
  note b = layout_bounds [OF lo]
  have il: "i < nslots p" using i by (simp add: live_def)
  show v: "nslots q = nslots p" "fend q = fend p" "fstart q = fstart p" "ident q = ident p"
    using q by (simp_all add: view_defs ident_def)
  have bnd: "fend p \<le> roff p j" "roff p j + rlen p j \<le> kPageSize" if "live p j" for j
    using lo that by (auto simp: layout_ok_def)
  have sa: "slot_addr (Suc j) \<le> fend p" if "j < nslots p" for j
    using that b by (simp add: slot_addr_def layout_defs)
  have sl: "slot q j = (if j = i then (slot p i)\<lparr>s_length := l\<rparr> else slot p j)" if "j < nslots p" for j
    using sa [OF that] bnd(1) [OF i] q by simp
  have fl: "live q j \<longleftrightarrow> live p j" "roff q j = roff p j" "rlen q j = (if j = i then length d else rlen p j)"
    if "j < nslots p" for j
    using that sl [OF that] v(1) l by (auto simp: live_def roff_def rlen_def slot_IsValid_def)
  have lv: "live p j" "j < nslots p" if "live q j" for j using that fl(1) [of j] v(1) by (auto simp: live_def)
  show "layout_ok q"
    unfolding layout_ok_def
  proof (intro conjI allI impI)
    show "fstart q = kHeaderSize + nslots q * kSlotSize" "fstart q \<le> fend q" "fend q \<le> kPageSize"
      using v b by (auto simp: layout_defs)
  next
    fix j assume "live q j"
    from lv [OF this] show "fend q \<le> roff q j" "roff q j + rlen q j \<le> kPageSize"
      using fl(2,3) [of j] bnd [of j] le v(2) by (cases "j = i"; auto)+
  next
    fix j k assume jk: "j < k" and "live q j" and "live q k"
    then have "live p j" "j < nslots p" "live p k" "k < nslots p" using lv by auto
    then show "apart (roff q j, rlen q j) (roff q k, rlen q k)"
      using fl(2,3) [of j] fl(2,3) [of k] layout_apart [OF lo, of j k] jk le by (auto simp: apart_def)
  qed
  show "slots_view q = (slots_view p)[i := Some d]"
  proof (rule nth_equalityI)
    fix j assume "j < length (slots_view q)"
    then have j: "j < nslots p" using v(1) by simp
    have rd: "mem_read (dat q) (roff p j) n = mem_read (mem_write (dat p) (roff p i) d) (roff p j) n" if "live p j" for n
      using sa [OF il] bnd(1) [OF that] q(2) by simp
    consider "j = i" | "j \<noteq> i" "live p j" | "j \<noteq> i" "\<not> live p j" by auto
    then show "slots_view q ! j = (slots_view p)[i := Some d] ! j"
    proof cases
      case 1
      then show ?thesis
        using fl [OF il] slot_view_live [of q i] rd [of "length d"] i il v(1) by (simp add: mem_read_write_same)
    next
      case 2
      then have "mem_read (dat q) (roff p j) (rlen p j) = mem_read (dat p) (roff p j) (rlen p j)"
        using layout_apart [OF lo 2(2) i 2(1)] le rd by (subst rd) (auto simp: mem_read_write_disjoint)
      then show ?thesis
        using 2 fl [OF j] slot_view_live [of q j] slot_view_live [of p j] j v(1) by simp
    next
      case 3
      then show ?thesis using sl [OF j] j v(1) by (simp add: slot_view_def live_def Let_def)
    qed
  qed (simp add: v)
qed

lemma slot_bytes_slot_of_bytes: "length bs = kSlotSize \<Longrightarrow> slot_bytes (slot_of_bytes bs) = bs"
proof -
  assume l: "length bs = kSlotSize"
  have "slot_bytes (slot_of_bytes bs) = take 2 bs @ take 2 (drop 2 bs) @ take 2 (drop 4 bs) @ take 2 (drop 6 bs)"
    using l by (simp add: slot_bytes_def slot_of_bytes_def take_PutLE_GetLE kSlotSize_def)
  also have "\<dots> = bs"
    using l take_add [of 2 2 "drop 4 bs"] take_add [of 2 4 "drop 2 bs"] take_add [of 2 6 bs] by (simp add: kSlotSize_def)
  finally show ?thesis .
qed

lemma mem_write_read_same: "mem_write m a (mem_read m a n) = m"
  by (rule ext) (auto simp: mem_write_def nth_mem_read)

lemma slot_write_same: "s = slot_at m i \<Longrightarrow> slot_write m i s = m"
  by (simp add: slot_write_def slot_at_def slot_bytes_slot_of_bytes mem_write_read_same)

lemma slot_view_old_size: "live p i \<Longrightarrow> (case slots_view p ! i of None \<Rightarrow> 0 | Some b \<Rightarrow> length b) = rlen p i"
  by (simp add: slot_view_live live_def)

text \<open>The three ways \<^verbatim>\<open>UpdateLeaf\<close> stores a record over an old one.\<close>

lemma update_shrink:
  assumes ok: "page_ok p" and i: "live p i" and l: "unat l = length d" and le: "length d \<le> rlen p i"
    and q: "hdr q = (hdr p)\<lparr>dead_bytes := dead_bytes (hdr p) + (s_length (slot p i) - l)\<rparr>"
      "dat q = slot_write (mem_write (dat p) (roff p i) d) i ((slot p i)\<lparr>s_length := l\<rparr>)"
  shows "page_ok q" and "slots_view q = (slots_view p)[i := Some d]" and "ident q = ident p"
proof -
  have lo: "layout_ok p" using ok by (simp add: page_ok_def)
  note s = shrink_record_ok [OF lo i l le q]
  show "slots_view q = (slots_view p)[i := Some d]" "ident q = ident p" by (rule s)+
  have "unat (s_length (slot p i) - l) = rlen p i - length d"
    using le l by (subst unat_sub_le) (auto simp: rlen_def word_le_nat_alt)
  moreover have "rlen p i + dead p \<le> 4096" using live_sum_le_page [OF ok] rlen_le_live_sum [OF i] by linarith
  ultimately have "dead q = dead p + (rlen p i - length d)"
    using q(1) unfolding dead_def by (simp add: unat_add_less)
  moreover have "view_size (slots_view q) + rlen p i = view_size (slots_view p) + length d"
    using view_size_update [of i "slots_view p" d] s(2) i slot_view_old_size [OF i] by (simp add: live_def)
  ultimately show "page_ok q" using ok s(1,4) le unfolding page_ok_def live_sum_view by linarith
qed

lemma update_append:
  assumes ok: "page_ok p" and i: "live p i" and l: "unat l = length d" and fit: "length d \<le> slack p"
  defines "q \<equiv> place_record (p\<lparr>hdr := (hdr p)\<lparr>dead_bytes := dead_bytes (hdr p) + s_length (slot p i)\<rparr>\<rparr>) i d l"
  shows "page_ok q" and "slots_view q = (slots_view p)[i := Some d]" and "ident q = ident p"
proof -
  let ?p = "p\<lparr>hdr := (hdr p)\<lparr>dead_bytes := dead_bytes (hdr p) + s_length (slot p i)\<rparr>\<rparr>"
  have same: "nslots ?p = nslots p" "fend ?p = fend p" "fstart ?p = fstart p" "slots_view ?p = slots_view p"
    "slack ?p = slack p" "ident ?p = ident p"
    by (simp_all add: view_defs slots_view_def slack_def ident_def)
  have lo: "layout_ok ?p"
    using ok same(1-3) by (simp add: page_ok_def layout_ok_def live_def roff_def rlen_def)
  have il: "i < nslots p" using i by (simp add: live_def)
  note r = place_record_ok [OF lo _ l, unfolded same, OF il fit, folded q_def]
  show "slots_view q = (slots_view p)[i := Some d]" "ident q = ident p" using r(2,7) same by simp_all
  have "rlen p i + dead p \<le> 4096" using live_sum_le_page [OF ok] rlen_le_live_sum [OF i] by linarith
  then have "dead q = dead p + rlen p i"
    using r(6) unfolding dead_def rlen_def by (simp add: unat_add_less)
  moreover have "view_size (slots_view q) + rlen p i = view_size (slots_view p) + length d"
    using view_size_update [of i "slots_view p" d] r(2) il slot_view_old_size [OF i] by simp
  ultimately show "page_ok q"
    using ok r(1,4) fit unfolding page_ok_def live_sum_view slack_def by linarith
qed

lemma update_compact:
  assumes ok: "page_ok p" and i: "live p i" and l: "unat l = length d" and fit: "length d \<le> room p + rlen p i"
  defines "q \<equiv> place_record (Compact (snd (DeleteRecord p i))) i d l"
  shows "page_ok q" and "slots_view q = (slots_view p)[i := Some d]" and "ident q = ident p"
proof -
  obtain r t where rt: "DeleteRecord p i = (r, t)" by (cases "DeleteRecord p i")
  note d = DeleteRecord_page_ok [OF ok i rt]
  have il: "i < nslots p" using i by (simp add: live_def)
  have it: "ident t = ident p" using rt by (auto simp: DeleteRecord_def Let_def ident_def split: if_splits)
  have lt: "layout_ok t" using d(2) by (simp add: page_ok_def)
  note c = Compact_page_ok [OF lt] and c' = Compact_post [OF lt]
  have lc: "layout_ok (Compact t)" using c(1) by (simp add: page_ok_def)
  have "view_size (slots_view p) = view_size (slots_view t) + rlen p i"
    using view_size_nth [of i "slots_view p"] view_size_nth [of i "slots_view t"] il slot_view_old_size [OF i] d(3)
    by simp
  then have "slack (Compact t) = room p + rlen p i"
    using room_view [OF c(1)] room_view [OF ok] c(2) c'(1,3) d(4) by (simp add: room_def)
  then have "length d \<le> slack (Compact t)" using fit by simp
  note p = place_record_ok [OF lc _ l this]
  have q: "q = place_record (Compact t) i d l" using rt by (simp add: q_def)
  have vw: "slots_view q = (slots_view t)[i := Some d]" using p(2) il c'(1) d(4) c(2) q by simp
  then show "slots_view q = (slots_view p)[i := Some d]" using d(3) by simp
  show "ident q = ident p" using p(7) il c'(1) d(4) q it ident_Compact [of t] by simp
  have "view_size (slots_view q) = view_size (slots_view t) + length d"
    using view_size_update [of i "slots_view t" d] vw il d(3,4) by simp
  moreover have "fend (Compact t) + view_size (slots_view t) = kPageSize" using c'(4) by (simp add: live_sum_view)
  moreover have "layout_ok q" "fend q = fend (Compact t) - length d" "dead q = 0"
    using p(1,4,6) il c'(1,3) d(4) q by auto
  moreover have "length d \<le> fend (Compact t)" using \<open>length d \<le> slack (Compact t)\<close> by (simp add: slack_def)
  ultimately show "page_ok q" unfolding page_ok_def live_sum_view by simp
qed

lemma UpdateLeaf_cases:
  assumes ok: "page_ok p" and lf: "IsLeaf p" and fi: "FindKeyIndex p k = (i, True)" and lv: "live p i"
    and sz: "length k + length v < 65532" and res: "UpdateLeaf p k v = (b, q)"
  defines "d \<equiv> EncodeLeafRecord k v"
  defines "l \<equiv> (of_nat (length d) :: u16)"
  shows "if length d \<le> rlen p i
         then b \<and> hdr q = (hdr p)\<lparr>dead_bytes := dead_bytes (hdr p) + (s_length (slot p i) - l)\<rparr> \<and>
              dat q = slot_write (mem_write (dat p) (roff p i) d) i ((slot p i)\<lparr>s_length := l\<rparr>)
         else if length d \<le> slack p
         then b \<and> q = place_record (p\<lparr>hdr := (hdr p)\<lparr>dead_bytes := dead_bytes (hdr p) + s_length (slot p i)\<rparr>\<rparr>) i d l
         else if length d \<le> room p + rlen p i
         then b \<and> q = place_record (Compact (snd (DeleteRecord p i))) i d l
         else \<not> b \<and> q = p"
proof -
  have lo: "layout_ok p" using ok by (simp add: page_ok_def)
  have ul: "unat l = length d" unfolding l_def using sz by (intro unat_of_nat_less) (simp add: d_def EncodeLeafRecord_def)
  have ol: "GetRecordLength p i = s_length (slot p i)" "GetRecordPtr p i = Some (roff p i)"
    using lv by (simp_all add: GetRecordLength_def GetRecordPtr_def live_def roff_def)
  have fs: "unat (FreeSpace p) = slack p" using unat_FreeSpace [OF lo] by (simp add: slack_def)
  have so: "unat (s_length (slot p i)) = rlen p i" by (simp add: rlen_def)
  have "slot_addr (Suc i) \<le> roff p i"
    using lo lv layout_bounds [OF lo] by (auto simp: layout_ok_def live_def slot_addr_def layout_defs)
  then have sb: "slot_at (mem_write (dat p) (roff p i) d) i = slot p i" by simp
  note res' = res [unfolded UpdateLeaf_def fi ol Let_def put_record_def prod.case option.case, folded d_def, folded l_def]
  consider "length d = rlen p i" | "length d < rlen p i" | "rlen p i < length d" by linarith
  then show ?thesis
  proof cases
    case 1
    then have "l = s_length (slot p i)" using ul so by (metis word_unat_eq_iff)
    then show ?thesis
      using res' lf ul sb 1 by (auto simp: ol intro!: slot_write_same [symmetric])
  next
    case 2
    then have "l < s_length (slot p i)" "l \<le> s_length (slot p i)"
      using ul so by (simp_all add: word_less_nat_alt word_le_nat_alt)
    then show ?thesis using res' lf ul sb 2 by (auto simp: ol)
  next
    case 3
    then have "\<not> l \<le> s_length (slot p i)" using ul so by (simp add: word_le_nat_alt)
    then show ?thesis
      using res' lf ul 3 fs so by (auto simp: ol word_less_nat_alt room_def dead_def split: if_splits)
  qed
qed

lemma UpdateLeaf_ok:
  assumes rep: "leaf_rep p es" and sz: "length k + length v < 65532" and res: "UpdateLeaf p k v = (b, q)"
  shows "b \<longleftrightarrow> (\<exists>w. map_of es k = Some w \<and> length v \<le> length w + room p)"
    and "leaf_rep q (if b then es[lb (map fst es) k := (k, v)] else es)" and "ident q = ident p"
    and "b \<Longrightarrow> map_of (es[lb (map fst es) k := (k, v)]) = (map_of es)(k \<mapsto> v)"
proof -
  have ok: "page_ok p" and lf: "IsLeaf p" and vw: "slots_view p = map (Some \<circ> enc_leaf) es"
    and s: "sorted_wrt (<) (map fst es)" using rep by (auto simp: leaf_rep_def)
  let ?i = "lb (map fst es) k" and ?d = "EncodeLeafRecord k v"
  have dl: "length ?d = length k + length v + 4" by (simp add: EncodeLeafRecord_def)
  have "(b \<longleftrightarrow> (\<exists>w. map_of es k = Some w \<and> length v \<le> length w + room p)) \<and>
    leaf_rep q (if b then es[?i := (k, v)] else es) \<and> ident q = ident p \<and>
    (b \<longrightarrow> map_of (es[?i := (k, v)]) = (map_of es)(k \<mapsto> v))"
  proof (cases "k \<in> fst ` set es")
    case False
    then have "b = False \<and> q = p" using res lf by (simp add: UpdateLeaf_def leaf_FindKeyIndex [OF rep])
    moreover have "map_of es k = None" using False by (simp add: map_of_eq_None_iff)
    ultimately show ?thesis using rep by simp
  next
    case True
    note i = lb_entry [OF s True]
    obtain w where w: "es ! ?i = (k, w)" using i(2) by (metis prod.collapse)
    have mw: "map_of es k = Some w"
      using w nth_mem [OF i(1)] sorted_keys_distinct [OF s] by (metis map_of_eq_Some_iff)
    have lv: "live p ?i" and rl: "rlen p ?i = length k + length w + 4"
      using leaf_live [OF rep i(1)] w by simp_all
    have fi: "FindKeyIndex p k = (?i, True)" using True by (simp add: leaf_FindKeyIndex [OF rep])
    have ul: "unat (of_nat (length ?d) :: u16) = length ?d" using sz dl by (intro unat_of_nat_less) simp
    note cases = UpdateLeaf_cases [OF ok lf fi lv sz res]
    have upd: "page_ok q" "slots_view q = (slots_view p)[?i := Some ?d]" "ident q = ident p" if b
      using cases that update_shrink [OF ok lv ul, of q] update_append [OF ok lv ul] update_compact [OF ok lv ul]
      by (auto split: if_splits)
    have bb: "b \<longleftrightarrow> length v \<le> length w + room p" using cases dl rl by (auto simp: room_def split: if_splits)
    show ?thesis
    proof (cases b)
      case True
      then show ?thesis
        using bb mw upd lf ident_type(1) [OF upd(3)] vw upd_at_props [OF s i]
        by (simp add: leaf_rep_def map_update enc_leaf_def)
    next
      case False
      then have "q = p" using cases by (auto split: if_splits)
      then show ?thesis using False bb mw rep by simp
    qed
  qed
  then show "b \<longleftrightarrow> (\<exists>w. map_of es k = Some w \<and> length v \<le> length w + room p)"
    "leaf_rep q (if b then es[?i := (k, v)] else es)" "ident q = ident p"
    "b \<Longrightarrow> map_of (es[?i := (k, v)]) = (map_of es)(k \<mapsto> v)" by blast+
qed

subsection \<open>Internal nodes as routing tables\<close>

text \<open>
  An internal node with separators \<open>s\<^sub>0 < s\<^sub>1 < \<dots>\<close> sends a key to the child stored with the first
  separator above it, and to the rightmost child when there is none.
\<close>

definition enc_int :: "key \<times> PageId \<Rightarrow> bytes" where
  "enc_int e = EncodeInternalRecord (fst e) (snd e)"

definition int_entries :: "Page \<Rightarrow> (key \<times> PageId) list" where
  "int_entries p = map (\<lambda>i. (GetKey p i, GetChild p i)) [0 ..< nslots p]"

definition int_rep :: "Page \<Rightarrow> (key \<times> PageId) list \<Rightarrow> bool" where
  "int_rep p es \<longleftrightarrow> page_ok p \<and> IsInternal p \<and> slots_view p = map (Some \<circ> enc_int) es \<and> sorted_wrt (<) (map fst es)"

fun route :: "(key \<times> PageId) list \<Rightarrow> PageId \<Rightarrow> key \<Rightarrow> PageId" where
  "route [] rm k = rm"
| "route ((s, c) # es) rm k = (if k < s then c else route es rm k)"

text \<open>The routing table after the child that \<open>sk\<close> is routed to has split at \<open>sk\<close>.\<close>

fun split_child :: "(key \<times> PageId) list \<Rightarrow> PageId \<Rightarrow> key \<Rightarrow> PageId \<Rightarrow> PageId \<Rightarrow> (key \<times> PageId) list \<times> PageId" where
  "split_child [] rm sk l r = ([(sk, l)], r)"
| "split_child ((s, c) # es) rm sk l r =
     (if s < sk then let (es', rm') = split_child es rm sk l r in ((s, c) # es', rm')
      else ((sk, l) # (s, r) # es, rm))"

lemma length_enc_int [simp]: "length (enc_int (k, c)) = length k + 6"
  by (simp add: enc_int_def EncodeInternalRecord_def)

lemma int_rep_entries:
  assumes "int_rep p es"
  shows "nslots p = length es" and "int_entries p = es" and "keys p = map fst es"
    and "\<And>i. i < length es \<Longrightarrow> GetKey p i = fst (es ! i) \<and> GetChild p i = snd (es ! i)"
proof -
  have ok: "page_ok p" and v: "slots_view p = map (Some \<circ> enc_int) es"
    using assms by (auto simp: int_rep_def)
  show n: "nslots p = length es" using arg_cong [OF v, of length] by simp
  show e: "GetKey p i = fst (es ! i) \<and> GetChild p i = snd (es ! i)" if i: "i < length es" for i
  proof -
    obtain k c where kc: "es ! i = (k, c)" by fastforce
    have sv: "slot_view (dat p) i = Some (EncodeInternalRecord k c)"
      using arg_cong [OF v, of "\<lambda>x. x ! i"] i n kc by (simp add: enc_int_def)
    have "Some (enc_int (k, c)) \<in> set (slots_view p)" using v i kc by (metis comp_apply nth_mem image_eqI set_map)
    then have "length k + 6 \<le> 4056"
      using view_size_ge room_view [OF ok] by fastforce
    then have l: "length k < 65536" by simp
    have "GetKey p i = fst (es ! i)"
      using GetKey_prefix [of p i k] sv i n l kc by (simp add: EncodeInternalRecord_def)
    then show ?thesis using GetChild_enc [OF sv] i n l kc by simp
  qed
  show "int_entries p = es"
    by (rule nth_equalityI) (auto simp: int_entries_def n e)
  show "keys p = map fst es" by (rule nth_equalityI) (auto simp: n e)
qed

lemma int_FindKeyIndex:
  assumes "int_rep p es"
  shows "FindKeyIndex p k = (lb (map fst es) k, k \<in> fst ` set es)"
  using FindKeyIndex_eq [of p k] assms int_rep_entries(3) [OF assms] by (simp add: int_rep_def)

lemma route_nth:
  assumes "sorted_wrt (<) (map fst es)"
  shows "route es rm k =
    (let i = lb (map fst es) k; j = (if k \<in> fst ` set es then i + 1 else i) in
     if j < length es then snd (es ! j) else rm)"
  using assms
proof (induction es)
  case (Cons e es)
  obtain s c where e: "e = (s, c)" by fastforce
  have tl: "\<forall>x \<in> fst ` set es. s < x" using Cons.prems e by auto
  have nil: "lb (map fst es) k = 0" if "k \<le> s"
    using tl that by (cases es) (auto simp: lb_def)
  consider "k < s" | "k = s" | "s < k" by fastforce
  then show ?case
  proof cases
    case 1
    then have "k \<notin> fst ` set es" using tl by auto
    moreover have "\<not> s < k" "k \<noteq> s" using 1 by auto
    ultimately show ?thesis using 1 by (simp add: e lb_def Let_def)
  next
    case 2
    then have "k \<notin> fst ` set es" using tl by auto
    with 2 Cons nil show ?thesis by (simp add: e lb_def Let_def)
  next
    case 3
    then have "\<not> k < s" "k \<noteq> s" by auto
    with 3 Cons show ?thesis by (auto simp: e lb_def Let_def)
  qed
qed (simp add: lb_def)

lemma FindChild_route:
  assumes "int_rep p es"
  shows "FindChild p k = route es (GetRightmostChild p) k"
proof -
  have s: "sorted_wrt (<) (map fst es)" and t: "IsInternal p" using assms by (auto simp: int_rep_def)
  show ?thesis
    using t int_rep_entries(1,4) [OF assms]
    by (simp add: FindChild_def FindChildIndex_def int_FindKeyIndex [OF assms] route_nth [OF s] Let_def)
qed

lemma split_child_route:
  assumes "sorted_wrt (<) (map fst es)" and "sk \<notin> fst ` set es" and "split_child es rm sk l r = (es', rm')"
  shows "sorted_wrt (<) (map fst es') \<and> fst ` set es' = insert sk (fst ` set es) \<and>
    route es' rm' k = (if \<forall>s \<in> fst ` set es. (s \<le> k) = (s \<le> sk) then if k < sk then l else r else route es rm k)"
  using assms
proof (induction es arbitrary: es')
  case (Cons e es)
  obtain s c where e: "e = (s, c)" by fastforce
  have tl: "\<forall>x \<in> fst ` set es. s < x" and so: "sorted_wrt (<) (map fst es)" and sk: "sk \<notin> fst ` set es" "s \<noteq> sk"
    using Cons.prems e by auto
  show ?case
  proof (cases "s < sk")
    case True
    obtain es1 rm1 where sc: "split_child es rm sk l r = (es1, rm1)" by fastforce
    have es': "es' = (s, c) # es1" "rm' = rm1" using Cons.prems(3) sc True by (simp_all add: e)
    note ih = Cons.IH [OF so sk(1), of es1] sc es'
    show ?thesis using True ih tl by (auto simp: e)
  next
    case False
    then have lt: "sk < s" using sk by auto
    have es': "es' = (sk, l) # (s, r) # es" "rm' = rm" using Cons.prems(3) e False by auto
    have "\<forall>x \<in> fst ` set es. (x \<le> k) = (x \<le> sk)" if "k < s" using tl that lt by force
    moreover have "\<forall>x \<in> fst ` set es. sk < x" using tl lt by force
    ultimately show ?thesis using lt so tl by (auto simp: e es')
  qed
qed auto

subsection \<open>Insertion into internal nodes\<close>

lemma InsertInternal_ok:
  assumes rep: "int_rep p es" and k: "k \<notin> fst ` set es" and res: "InsertInternal p k c = (b, q)"
  shows "b \<longleftrightarrow> length k + 14 \<le> room p" and "int_rep q (if b then ins_at es k c else es)" and "ident q = ident p"
proof -
  have ok: "page_ok p" and l: "IsInternal p" and v: "slots_view p = map (Some \<circ> enc_int) es"
    and s: "sorted_wrt (<) (map fst es)" using rep by (auto simp: int_rep_def)
  let ?n = "kSlotSize + 6 + length k"
  obtain f p1 where ef: "EnsureFit p ?n = (f, p1)" by (cases "EnsureFit p ?n")
  note e = EnsureFit_ok [OF ok ef]
  have rep1: "int_rep p1 es" using e(2,3,5) rep ident_type [OF e(5)] by (simp add: int_rep_def)
  have n1: "nslots p1 = length es" by (rule int_rep_entries(1) [OF rep1])
  let ?i = "lb (map fst es) k" and ?d = "EncodeInternalRecord k c"
  have d: "length ?d + 8 = ?n" by (simp add: EncodeInternalRecord_def kSlotSize_def)
  have main: "b = f \<and> int_rep q (if b then ins_at es k c else es) \<and> ident q = ident p"
  proof (cases f)
    case True
    have "?i \<le> nslots p1" using n1 lb_le [of "map fst es" k] by simp
    moreover have "InsertAt p1 ?i ?d = (b, q)"
      using res True l by (simp add: InsertInternal_def ef int_FindKeyIndex [OF rep1])
    ultimately have i: "b" "page_ok q" "slots_view q = take ?i (slots_view p1) @ Some ?d # drop ?i (slots_view p1)"
      "ident q = ident p1"
      using InsertAt_ok [OF e(2), of ?i ?d b q] True e(6) d by auto
    have "IsInternal q" using i(4) e(5) l ident_type(2) by metis
    then show ?thesis
      using True i e(3,5) v ins_at_props [OF s k, of c]
      by (simp add: int_rep_def take_map drop_map enc_int_def)
  next
    case False
    then have "(b, q) = (False, p1)" using res l by (simp add: InsertInternal_def ef)
    then show ?thesis using False rep1 e(5) by simp
  qed
  then show "b \<longleftrightarrow> length k + 14 \<le> room p" "int_rep q (if b then ins_at es k c else es)" "ident q = ident p"
    using e(1) by (auto simp: kSlotSize_def)
qed

text \<open>The re-insertion loop is the rebuild loop of the record-store interface.\<close>

lemma reinsert_append_all:
  assumes "\<forall>e \<in> set es. length (fst e) < 65000"
  shows "case append_all append_small p (map enc_int es) of
      None \<Rightarrow> \<not> fst (reinsert p es) | Some q \<Rightarrow> reinsert p es = (True, q)"
  using assms
proof (induction es arbitrary: p)
  case (Cons e es)
  obtain k c where e: "e = (k, c)" by fastforce
  let ?d = "EncodeInternalRecord k c"
  have r: "rec_ok (enc_int e)" using Cons.prems e by (simp add: rec_ok_def)
  obtain x q where x: "InsertRecord p ?d (of_nat (length ?d)) = (x, q)" by fastforce
  then have "append_small p (enc_int e) = (case x of Inl _ \<Rightarrow> None | Inr _ \<Rightarrow> Some q)"
    using r by (simp add: append_small_def append_record_def e enc_int_def split: sum.split)
  moreover have "reinsert p (e # es) = (case x of Inl _ \<Rightarrow> (False, q) | Inr _ \<Rightarrow> reinsert q es)"
    using x by (simp add: e Let_def split: sum.split)
  ultimately show ?case using Cons.IH [of q] Cons.prems by (cases x) (simp_all split: option.splits)
qed simp

lemma ident_reinsert: "ident (snd (reinsert p es)) = ident p"
proof (induction es arbitrary: p)
  case (Cons e es)
  obtain k c where e: "e = (k, c)" by fastforce
  let ?d = "EncodeInternalRecord k c"
  obtain x q where x: "InsertRecord p ?d (of_nat (length ?d)) = (x, q)" by fastforce
  then have "ident q = ident p" using ident_InsertRecordAt InsertRecord_eq by metis
  with Cons x show ?case by (cases x) (simp_all add: e Let_def)
qed simp

definition int_cost :: "(key \<times> PageId) list \<Rightarrow> nat" where
  "int_cost es = sum_list (map (\<lambda>(k, _). kSlotSize + 2 + length k + 4) es)"

lemma int_cost_simps [simp]:
  "int_cost [] = 0" "int_cost ((k, c) # es) = 14 + length k + int_cost es" "int_cost (es @ fs) = int_cost es + int_cost fs"
  by (simp_all add: int_cost_def kSlotSize_def)

lemma int_cost_pg: "sum_list (map (\<lambda>d. length d + 8) (map enc_int es)) = int_cost es"
  by (induction es) auto

lemma int_cost_view: "int_rep p es \<Longrightarrow> int_cost es + room p = 4056"
proof -
  assume rep: "int_rep p es"
  then have v: "slots_view p = map (Some \<circ> enc_int) es" and ok: "page_ok p" by (simp_all add: int_rep_def)
  have "view_size (map (Some \<circ> enc_int) es) + 8 * length es = int_cost es" by (induction es) auto
  then show ?thesis using room_view [OF ok] v int_rep_entries(1) [OF rep] by simp
qed

lemma int_key_bound: "e \<in> set es \<Longrightarrow> length (fst e) \<le> int_cost es"
  by (induction es) auto

lemma reinsert_ok:
  assumes "page_ok p" and "slots_view p = []" and "int_cost es \<le> slack p"
  shows "fst (reinsert p es)" and "page_ok (snd (reinsert p es))"
    and "slots_view (snd (reinsert p es)) = map (Some \<circ> enc_int) es"
proof -
  have b: "\<forall>e \<in> set es. length (fst e) < 65000"
    using int_key_bound assms(3) slack_bound [OF assms(1)] by fastforce
  have inv: "page_ok p \<and> all_live p" using assms by (simp add: all_live_def)
  have "append_all append_small p (map enc_int es) \<noteq> None"
    by (rule pg.append_all_fits [OF inv]) (use assms(3) in \<open>simp only: int_cost_pg\<close>)
  then obtain q where q: "append_all append_small p (map enc_int es) = Some q" by auto
  note a = pg.append_all_Some [OF inv q]
  have r: "reinsert p es = (True, q)" using reinsert_append_all [OF b, of p] q by simp
  have "slots_view q = map Some (map enc_int es)"
    using a slots_view_records [of q] assms(2) by (simp add: records_def)
  then show "fst (reinsert p es)" "page_ok (snd (reinsert p es))"
    "slots_view (snd (reinsert p es)) = map (Some \<circ> enc_int) es"
    using r a by simp_all
qed

lemma concat_map_singleton: "(\<And>i. i \<in> set xs \<Longrightarrow> f i = [g i]) \<Longrightarrow> concat (map f xs) = map g xs"
  by (induction xs) auto

lemma split_entries_list:
  assumes "i \<le> length es" and "nslots p = length es"
    and g: "\<And>j. j < length es \<Longrightarrow> GetKey p j = fst (es ! j) \<and> GetChild p j = snd (es ! j)"
  shows "split_entries p i sk l r =
    take i es @ (sk, l) # (case drop i es of [] \<Rightarrow> [] | e # rest \<Rightarrow> (fst e, r) # rest)"
proof -
  let ?f = "\<lambda>j. if j = i then [(sk, l), (GetKey p j, r)] else [(GetKey p j, GetChild p j)]"
  have one: "concat (map ?f [a ..< b]) = take (b - a) (drop a es)" if "b \<le> length es" "i < a \<or> b \<le> i" for a b
  proof -
    have "concat (map ?f [a ..< b]) = map (\<lambda>j. es ! j) [a ..< b]"
      using that g by (intro concat_map_singleton) auto
    also have "\<dots> = take (b - a) (drop a es)"
      using that(1) by (intro nth_equalityI) auto
    finally show ?thesis .
  qed
  show ?thesis
  proof (cases "i = length es")
    case True
    then show ?thesis using assms(2) one [of "length es" 0] by (simp add: split_entries_def)
  next
    case False
    then have i: "i < length es" using assms(1) by simp
    then have "[0 ..< length es] = [0 ..< i] @ i # [Suc i ..< length es]"
      using upt_add_eq_append [of 0 i "length es - i"] upt_conv_Cons [of i "length es"] by simp
    then have "concat (map ?f [0 ..< length es]) = take i es @ (sk, l) # (fst (es ! i), r) # drop (Suc i) es"
      using one [of i 0] one [of "length es" "Suc i"] i g [OF i] by simp
    moreover have "drop i es = es ! i # drop (Suc i) es" using Cons_nth_drop_Suc [OF i] by simp
    ultimately show ?thesis using False assms(2) by (simp add: split_entries_def)
  qed
qed

lemma split_child_lb:
  "split_child es rm sk l r =
     (let i = lb (map fst es) sk in
      (take i es @ (sk, l) # (case drop i es of [] \<Rightarrow> [] | e # rest \<Rightarrow> (fst e, r) # rest),
       if i = length es then r else rm))"
proof (induction es)
  case (Cons e es)
  obtain s c where "e = (s, c)" by fastforce
  with Cons show ?case by (simp add: lb_def Let_def)
qed (simp add: lb_def)

lemma split_child_cost:
  "split_child es rm sk l r = (es', rm') \<Longrightarrow> int_cost es' = int_cost es + 14 + length sk"
proof (induction es arbitrary: es')
  case (Cons e es)
  obtain s c where e: "e = (s, c)" by fastforce
  obtain es1 rm1 where "split_child es rm sk l r = (es1, rm1)" by fastforce
  with Cons e show ?case by (auto split: if_splits)
qed auto

lemma CanFitInternal_iff:
  assumes "page_ok p" and "length k < 65000"
  shows "CanFitInternal p (of_nat (length k)) \<longleftrightarrow> length k + 14 \<le> slack p"
proof -
  have lo: "layout_ok p" using assms(1) by (simp add: page_ok_def)
  have u: "unat (of_nat (length k) :: u16) = length k" using assms(2) by (intro unat_of_nat_less) simp
  have "of_nat kSlotSize + 2 + of_nat (length k) + 4 = (of_nat (length k + 14) :: u16)"
    by (simp add: kSlotSize_def)
  moreover have "unat (of_nat (length k + 14) :: u16) = length k + 14" using assms(2) by (intro unat_of_nat_less) simp
  ultimately show ?thesis
    by (simp add: CanFitInternal_def Let_def word_le_nat_alt unat_FreeSpace [OF lo] slack_def del: of_nat_add)
qed

lemma InsertInternalAfterSplit_ok:
  assumes rep: "int_rep p es" and k: "sk \<notin> fst ` set es" and sz: "length sk < 65000"
    and res: "InsertInternalAfterSplit p sk l r = (b, q)"
    and sc: "split_child es (GetRightmostChild p) sk l r = (es', rm')"
  shows "b \<longleftrightarrow> length sk + 14 \<le> slack p" and "\<not> b \<Longrightarrow> q = p"
    and "b \<Longrightarrow> int_rep q es' \<and> GetRightmostChild q = rm' \<and> page_id (hdr q) = page_id (hdr p) \<and> page_lsn (hdr q) = page_lsn (hdr p)"
proof -
  have ok: "page_ok p" and t: "IsInternal p" and s: "sorted_wrt (<) (map fst es)" using rep by (auto simp: int_rep_def)
  note n = int_rep_entries(1,4) [OF rep]
  have cf: "CanFitInternal p (of_nat (length sk)) \<longleftrightarrow> length sk + 14 \<le> slack p"
    by (rule CanFitInternal_iff [OF ok sz])
  let ?i = "lb (map fst es) sk"
  have il: "?i \<le> length es" using lb_le [of "map fst es" sk] by simp
  have es': "split_entries p ?i sk l r = es'" "(if ?i = nslots p then r else GetRightmostChild p) = rm'"
    using sc split_entries_list [OF il n] n(1) by (auto simp: split_child_lb Let_def)
  have cost: "int_cost es' = int_cost es + 14 + length sk" by (rule split_child_cost [OF sc])
  let ?q0 = "Page_Init (page_id (hdr p)) kInternalNode"
  let ?q1 = "SetRightmostChild (?q0\<lparr>hdr := (hdr ?q0)\<lparr>page_lsn := page_lsn (hdr p)\<rparr>\<rparr>) rm'"
  have q1: "page_ok ?q1" "slots_view ?q1 = []" "slack ?q1 = 4056"
  proof -
    have "page_ok ?q0" by simp
    then show "page_ok ?q1"
      by (simp add: SetRightmostChild_def page_ok_def layout_ok_def view_defs live_def roff_def rlen_def)
    have "nslots ?q0 = 0" "fend ?q0 = 4096" "fstart ?q0 = 40" by simp_all
    then show "slots_view ?q1 = []" "slack ?q1 = 4056"
      by (simp_all add: SetRightmostChild_def slots_view_def slack_def view_defs)
  qed
  have eq: "(b, q) = (if length sk + 14 \<le> slack p then
      if kPageSize - kHeaderSize < int_cost es' then (False, p) else reinsert ?q1 es' else (False, p))"
    using res t unfolding InsertInternalAfterSplit_def int_FindKeyIndex [OF rep] cf Let_def fst_conv es' NumKeys_nslots
      int_cost_def [symmetric] by (auto split: if_splits)
  show "b \<longleftrightarrow> length sk + 14 \<le> slack p" "\<not> b \<Longrightarrow> q = p" 
    "b \<Longrightarrow> int_rep q es' \<and> GetRightmostChild q = rm' \<and> page_id (hdr q) = page_id (hdr p) \<and> page_lsn (hdr q) = page_lsn (hdr p)"
  proof (atomize (full), cases "length sk + 14 \<le> slack p")
    case True
    then have fit: "int_cost es' \<le> 4056" using cost int_cost_view [OF rep] by (simp add: room_def)
    then have bq: "(b, q) = reinsert ?q1 es'" using eq True by (simp add: layout_defs)
    have ri: "fst (reinsert ?q1 es')" "page_ok (snd (reinsert ?q1 es'))"
      "slots_view (snd (reinsert ?q1 es')) = map (Some \<circ> enc_int) es'"
      using reinsert_ok [OF q1(1,2), of es'] q1(3) fit by auto
    have id: "ident q = ident ?q1" using ident_reinsert [of ?q1 es'] bq by (metis snd_conv)
    have "IsInternal q" "GetRightmostChild q = rm'" "page_id (hdr q) = page_id (hdr p)" "page_lsn (hdr q) = page_lsn (hdr p)"
      using ident_type(2) [OF id] ident_fields(1,3,6) [OF id]
      by (simp_all add: IsInternal_def SetRightmostChild_def GetRightmostChild_def Page_Init_def header_Init_def)
    then show "(b = (length sk + 14 \<le> slack p)) \<and> (\<not> b \<longrightarrow> q = p) \<and>
      (b \<longrightarrow> int_rep q es' \<and> GetRightmostChild q = rm' \<and> page_id (hdr q) = page_id (hdr p) \<and> page_lsn (hdr q) = page_lsn (hdr p))"
      using True ri bq [symmetric] split_child_route [OF s k sc] by (simp add: int_rep_def)
  next
    case False
    then show "(b = (length sk + 14 \<le> slack p)) \<and> (\<not> b \<longrightarrow> q = p) \<and>
      (b \<longrightarrow> int_rep q es' \<and> GetRightmostChild q = rm' \<and> page_id (hdr q) = page_id (hdr p) \<and> page_lsn (hdr q) = page_lsn (hdr p))"
      using eq by simp
  qed
qed

subsection \<open>Empty nodes\<close>

lemma InitLeaf_rep: "leaf_rep (InitLeaf (Page_Init pid t)) []"
  by (simp add: leaf_rep_def InitLeaf_def IsLeaf_def page_ok_def layout_ok_def view_defs live_def live_sum_def slots_view_def
      Page_Init_def header_Init_def layout_defs)

lemma room_InitLeaf: "room (InitLeaf (Page_Init pid t)) = 4056"
  by (simp add: room_def slack_def InitLeaf_def view_defs Page_Init_def header_Init_def layout_defs)

lemma InitInternal_rep: "int_rep (SetRightmostChild (InitInternal (Page_Init pid t)) c) []"
  by (simp add: int_rep_def InitInternal_def SetRightmostChild_def IsInternal_def page_ok_def layout_ok_def view_defs live_def
      live_sum_def slots_view_def Page_Init_def header_Init_def layout_defs)

lemma InitInternal_misc:
  "slack (SetRightmostChild (InitInternal (Page_Init pid t)) c) = 4056"
  "room (SetRightmostChild (InitInternal (Page_Init pid t)) c) = 4056"
  "GetRightmostChild (SetRightmostChild (InitInternal (Page_Init pid t)) c) = c"
  by (simp_all add: room_def slack_def InitInternal_def SetRightmostChild_def GetRightmostChild_def view_defs
      Page_Init_def header_Init_def layout_defs)

subsection \<open>Properties\<close>

text \<open>
  C28: on a page whose keys are strictly increasing, the binary search of \<^verbatim>\<open>FindKeyIndex\<close> ends
  and returns the number of keys below the one sought, and whether the key is there; when
  it is, the index is the key's. (\<open>keys p\<close> lists the keys of the slots, \<open>lb\<close> counts the leading
  smaller ones.)
\<close>

theorem FindKeyIndex_is_lower_bound:
  assumes "sorted_wrt (<) (keys p)"
  shows "FindKeyIndex p k = (lb (keys p) k, k \<in> set (keys p)) \<and>
    (\<forall>i < nslots p. GetKey p i < k \<longleftrightarrow> i < lb (keys p) k) \<and>
    (k \<in> set (keys p) \<longrightarrow> GetKey p (lb (keys p) k) = k)"
proof -
  have "GetKey p i < k \<longleftrightarrow> i < lb (keys p) k" if "i < nslots p" for i
    using lb_props [OF assms, where i = i and k = k] that by (auto simp: not_less) (metis leD not_le)
  moreover have "GetKey p (lb (keys p) k) = k" if "k \<in> set (keys p)"
    using lb_found [OF assms that] by simp
  ultimately show ?thesis using FindKeyIndex_eq [OF assms] by auto
qed

theorem FindKeyIndex_is_lower_bound_witness:
  "let p = snd (InsertLeaf (snd (InsertLeaf (InitLeaf (Page_Init 3 kLeaf)) [4] [6])) [2] [5]) in
     keys p = [[2], [4]] \<and> FindKeyIndex p [1] = (0, False) \<and> FindKeyIndex p [3] = (1, False) \<and> FindKeyIndex p [4] = (1, True) \<and> FindKeyIndex p [5] = (2, False)"
proof -
  let ?p = "InitLeaf (Page_Init 3 kLeaf)"
  obtain a q b r where q: "InsertLeaf ?p [4] [6] = (a, q)" and r: "InsertLeaf q [2] [5] = (b, r)" by fastforce
  have f: "room ?p = 4056" by (simp add: room_def slack_def dead_def fstart_def fend_def InitLeaf_def Page_Init_def header_Init_def layout_defs)
  note i = InsertLeaf_ok [OF InitLeaf_rep q]
  have a: "a" "leaf_rep q [([4], [6])]" "room q = 4042" using i(1,2,4) f by (simp_all add: ins_at_def lb_def)
  have "leaf_rep r [([2], [5]), ([4], [6])]" using InsertLeaf_ok(1,2) [OF a(2) r] a(3) by (simp add: ins_at_def lb_def)
  from leaf_rep_entries(3) [OF this] have "keys r = [[2], [4]]" by simp
  then show ?thesis using q r FindKeyIndex_is_lower_bound [of r] by (simp add: Let_def lb_def)
qed

text \<open>
  C26: a well-formed leaf refines a finite map. \<^verbatim>\<open>InsertLeaf\<close> succeeds exactly when the key
  is absent and the free and dead bytes of the page hold the record and its slot; it then
  adds the binding and keeps the leaf sorted, valid and accounted. When it refuses, the entries are
  unchanged (the page may have been compacted). \<^verbatim>\<open>GetValue\<close> looks the key up. Page id, LSN and sibling
  links are kept.
\<close>

theorem InsertLeaf_refines_map_update:
  assumes "leaf_ok p" and "InsertLeaf p k v = (b, q)"
  shows "(b \<longleftrightarrow> GetValue p k = None \<and>
           length k + length v + 12 \<le> unat (FreeSpace p) + unat (dead_bytes (hdr p))) \<and>
    leaf_ok q \<and> Validate q \<and> ident q = ident p \<and>
    (\<forall>x. GetValue q x = (if b \<and> x = k then Some v else GetValue p x))"
proof -
  obtain es where rep: "leaf_rep p es" using assms(1) by (auto simp: leaf_ok_rep)
  note i = InsertLeaf_ok [OF rep assms(2)]
  have s: "sorted_wrt (<) (map fst es)" and ok: "page_ok p" using rep by (auto simp: leaf_rep_def)
  have fs: "unat (FreeSpace p) + unat (dead_bytes (hdr p)) = room p"
    using ok unat_FreeSpace [of p] by (simp add: room_def slack_def dead_def page_ok_def)
  have none: "GetValue p k = None \<longleftrightarrow> k \<notin> fst ` set es"
    by (simp add: GetValue_ok [OF rep] map_of_eq_None_iff)
  have "GetValue q x = (if b \<and> x = k then Some v else GetValue p x)" for x
    using GetValue_ok [OF i(2)] GetValue_ok [OF rep] i(1) ins_at_props(2) [OF s, of k v] by (auto split: if_splits)
  moreover have "leaf_ok q" "Validate q" using i(2) by (auto simp: leaf_ok_rep Validate_iff leaf_rep_def page_ok_def)
  ultimately show ?thesis using i(1,3) none fs by auto
qed

theorem InsertLeaf_refines_map_update_witness:
  "fst (InsertLeaf (InitLeaf (Page_Init 3 kLeaf)) [1] [2, 3]) \<and>
   GetValue (snd (InsertLeaf (InitLeaf (Page_Init 3 kLeaf)) [1] [2, 3])) [1] = Some [2, 3]"
proof -
  let ?p = "InitLeaf (Page_Init 3 kLeaf)"
  obtain b q where bq: "InsertLeaf ?p [1] [2, 3] = (b, q)" by fastforce
  have ok: "leaf_ok ?p" using InitLeaf_rep by (auto simp: leaf_ok_rep)
  have "GetValue ?p [1] = None" using GetValue_ok [OF InitLeaf_rep [of 3 kLeaf]] by simp
  moreover have "unat (FreeSpace ?p) = 4056"
    by (simp add: FreeSpace_def header_FreeSpace_def InitLeaf_def Page_Init_def header_Init_def layout_defs)
  ultimately show ?thesis using InsertLeaf_refines_map_update [OF ok bq] bq by simp
qed

text \<open>
  On a well-formed leaf \<^verbatim>\<open>UpdateLeaf\<close> succeeds exactly when the key is present and the
  new value is at most the old value, the free bytes and the dead bytes together; it then
  rebinds the key (in place, in the free space, or after a compaction) and changes no other
  binding; otherwise the page is unchanged. \<^verbatim>\<open>DeleteAt\<close> of a present index removes that
  binding only, and refuses other indices.
\<close>

theorem UpdateLeaf_DeleteAt_refine_map:
  assumes "leaf_ok p" and "length k + length v < 65532"
    and "UpdateLeaf p k v = (b, q)" and "DeleteAt p i = (c, r)"
  shows "(b \<longleftrightarrow> (\<exists>w. GetValue p k = Some w \<and>
              length v \<le> length w + unat (FreeSpace p) + unat (dead_bytes (hdr p)))) \<and>
    leaf_ok q \<and> ident q = ident p \<and>
    (\<forall>x. GetValue q x = (if b \<and> x = k then Some v else GetValue p x)) \<and>
    (c \<longleftrightarrow> i < nslots p) \<and> leaf_ok r \<and> ident r = ident p \<and>
    (\<forall>x. GetValue r x = (if c \<and> x = GetKey p i then None else GetValue p x))"
proof -
  obtain es where rep: "leaf_rep p es" using assms(1) by (auto simp: leaf_ok_rep)
  have ok: "page_ok p" using rep by (simp add: leaf_rep_def)
  note u = UpdateLeaf_ok [OF rep assms(2,3)] and d = DeleteAt_leaf [OF rep assms(4)]
  have fs: "unat (FreeSpace p) + unat (dead_bytes (hdr p)) = room p"
    using ok unat_FreeSpace [of p] by (simp add: room_def slack_def dead_def page_ok_def)
  have n: "nslots p = length es" by (rule leaf_rep_entries(1) [OF rep])
  have gk: "GetKey p i = fst (es ! i)" if "i < length es"
    using leaf_rep_entries(3) [OF rep] that n nth_keys [of i p] by simp
  note gv = GetValue_ok [OF rep] GetValue_ok [OF u(2)] GetValue_ok [OF d(2)]
  have "GetValue q x = (if b \<and> x = k then Some v else GetValue p x)" for x
    using u(4) by (cases b) (simp_all add: gv)
  moreover have "GetValue r x = (if c \<and> x = GetKey p i then None else GetValue p x)" for x
    using d(1,4) gk by (cases c) (simp_all add: gv)
  moreover have "leaf_ok q" "leaf_ok r" using u(2) d(2) by (auto simp: leaf_ok_rep)
  moreover have "b \<longleftrightarrow> (\<exists>w. GetValue p k = Some w \<and>
              length v \<le> length w + unat (FreeSpace p) + unat (dead_bytes (hdr p)))"
    using u(1) fs gv(1) by (simp add: add.assoc)
  moreover have "c \<longleftrightarrow> i < nslots p" using d(1) n by simp
  ultimately show ?thesis using u(3) d(3) by (intro conjI allI) assumption+
qed

theorem UpdateLeaf_DeleteAt_refine_map_witness:
  "let p = snd (InsertLeaf (InitLeaf (Page_Init 3 kLeaf)) [1] [2, 3])
   in GetValue (snd (UpdateLeaf p [1] [7, 7, 7])) [1] = Some [7, 7, 7] \<and> GetValue (snd (DeleteAt p 0)) [1] = None"
proof -
  let ?p0 = "InitLeaf (Page_Init 3 kLeaf)"
  obtain b0 p where p0: "InsertLeaf ?p0 [1] [2, 3] = (b0, p)" by fastforce
  obtain b q where u: "UpdateLeaf p [1] [7, 7, 7] = (b, q)" by fastforce
  obtain c r where d: "DeleteAt p 0 = (c, r)" by fastforce
  note i = InsertLeaf_ok [OF InitLeaf_rep p0]
  have b0 using i(1) by (simp add: room_InitLeaf)
  then have rep: "leaf_rep p [([1], [2, 3])]" using i(2) by (simp add: ins_at_def)
  then have lo: "leaf_ok p" by (auto simp: leaf_ok_rep)
  have ro: "room p = 4041" using i(4) \<open>b0\<close> by (simp add: room_InitLeaf)
  have fs: "unat (FreeSpace p) + unat (dead_bytes (hdr p)) = room p"
    using rep unat_FreeSpace [of p] by (simp add: room_def slack_def dead_def page_ok_def leaf_rep_def)
  have gv: "GetValue p [1] = Some [2, 3]" using GetValue_ok [OF rep] by simp
  have gk: "GetKey p 0 = [1]" "nslots p = 1"
    using leaf_rep_entries(1,3) [OF rep] nth_keys [of 0 p] by simp_all
  show ?thesis
    using UpdateLeaf_DeleteAt_refine_map [OF lo _ u d] p0 u d gv gk fs ro by simp
qed

text \<open>
  An internal node with strictly increasing separators routes a key to the child of the
  first separator above it, or to the rightmost child. After a child has split,
  \<^verbatim>\<open>InsertInternalAfterSplit\<close> succeeds exactly when the separator's record fits the free
  space (the rebuild never stops half way), and then keys between the neighbouring
  separators go left or right of the new separator while every other key is routed as before; when it
  refuses, the page is unchanged.
\<close>

theorem InsertInternalAfterSplit_routes:
  assumes "int_rep p es" and "sk \<notin> fst ` set es" and "length sk < 65000"
    and "InsertInternalAfterSplit p sk l r = (b, q)"
  shows "FindChild p k = route es (GetRightmostChild p) k \<and>
    (b \<longleftrightarrow> length sk + 14 \<le> unat (FreeSpace p)) \<and> (\<not> b \<longrightarrow> q = p) \<and>
    (b \<longrightarrow> int_rep q (int_entries q) \<and> Validate q \<and> page_lsn (hdr q) = page_lsn (hdr p) \<and>
       FindChild q k = (if \<forall>s \<in> fst ` set es. (s \<le> k) = (s \<le> sk) then if k < sk then l else r
                        else FindChild p k))"
proof -
  obtain es' rm' where sc: "split_child es (GetRightmostChild p) sk l r = (es', rm')" by fastforce
  have s: "sorted_wrt (<) (map fst es)" and ok: "page_ok p" using assms(1) by (auto simp: int_rep_def)
  have fs: "unat (FreeSpace p) = slack p" using ok unat_FreeSpace [of p] by (simp add: slack_def page_ok_def)
  note i = InsertInternalAfterSplit_ok [OF assms(1-4) sc] and rt = split_child_route [OF s assms(2) sc, of k]
  have "FindChild q k = (if \<forall>s \<in> fst ` set es. (s \<le> k) = (s \<le> sk) then if k < sk then l else r
                        else FindChild p k)" if b
    using FindChild_route [of q es' k] i(3) [OF that] rt FindChild_route [OF assms(1), of k] by simp
  moreover have "int_rep q (int_entries q) \<and> Validate q" if b
    using i(3) [OF that] int_rep_entries(2) [of q es'] by (auto simp: Validate_iff int_rep_def page_ok_def)
  ultimately show ?thesis using i FindChild_route [OF assms(1), of k] fs by auto
qed

theorem InsertInternalAfterSplit_routes_witness:
  "let p = SetRightmostChild (InitInternal (Page_Init 3 kInternalNode)) 4;
       q = snd (InsertInternalAfterSplit p [5] 4 6)
   in FindChild q [2] = 4 \<and> FindChild q [5] = 6 \<and> FindChild q [9, 1] = 6"
proof -
  let ?p = "SetRightmostChild (InitInternal (Page_Init 3 kInternalNode)) 4"
  obtain b q where bq: "InsertInternalAfterSplit ?p [5] 4 6 = (b, q)" by fastforce
  have rep: "int_rep ?p []" by (rule InitInternal_rep)
  have fs: "unat (FreeSpace ?p) = 4056"
    by (simp add: FreeSpace_def header_FreeSpace_def InitInternal_def SetRightmostChild_def Page_Init_def header_Init_def layout_defs)
  have "b" using InsertInternalAfterSplit_routes [OF rep _ _ bq, of "[2]"] fs by simp
  moreover have "[2] < ([5] :: bytes)" "\<not> [5] < ([5] :: bytes)" "\<not> [9, 1] < ([5] :: bytes)" by simp_all
  ultimately show ?thesis
    using InsertInternalAfterSplit_routes [OF rep _ _ bq, of "[2]"]
      InsertInternalAfterSplit_routes [OF rep _ _ bq, of "[5]"]
      InsertInternalAfterSplit_routes [OF rep _ _ bq, of "[9, 1]"] bq by simp
qed

end
