(* ===== verification/Posix_File.thy ===== *)
theory Posix_File
  imports Prelude
begin

section \<open>The file layer (file.h, file.cc)\<close>

text \<open>
  \<^verbatim>\<open>PosixFile\<close> wraps a descriptor. A file is its current bytes (what \<^verbatim>\<open>pread\<close> sees) and,
  for stating durability, the bytes it had at the last successful \<^verbatim>\<open>fdatasync\<close>. The operating
  system decides how each call ends: the state \<open>Io\<close> carries the outcomes of the calls to
  come (done, failed with an errno, or cut short after some bytes), so every theorem that
  leaves the list of outcomes free holds for all of them; an exhausted list means that the
  remaining calls succeed. \<open>Io\<close> also holds the two process-wide counters of the source:
  the number of syncs and the credit of the injected write fault.
\<close>

subsection \<open>Operating-system calls\<close>

datatype Outcome = Done | Errno | Partial nat

record Io =
  fail_after :: int  \<comment> \<open>\<open>g_fail_after_writes\<close>\<close>
  total_syncs :: nat  \<comment> \<open>\<open>g_total_syncs\<close>\<close>
  sys :: "Outcome list"

definition next_sys :: "Io \<Rightarrow> Outcome \<times> Io" where
  "next_sys io = (case sys io of [] \<Rightarrow> (Done, io) | o1 # os \<Rightarrow> (o1, io\<lparr>sys := os\<rparr>))"

definition pwrite :: "bytes \<Rightarrow> nat \<Rightarrow> bytes \<Rightarrow> bytes" where
  "pwrite c off buf =
     (if buf = [] then c
      else take off (c @ replicate (off - length c) 0) @ buf @ drop (off + length buf) c)"

definition ftruncate :: "bytes \<Rightarrow> nat \<Rightarrow> bytes" where
  "ftruncate c n = take n (c @ replicate (n - length c) 0)"

fun transferred :: "Outcome \<Rightarrow> nat \<Rightarrow> nat option" where
  "transferred Done n = Some n"
| "transferred Errno n = None"
| "transferred (Partial k) n = Some (min k n)"

subsection \<open>Errors and the file object\<close>

datatype FileErrorKind = NotFound | IoError | Busy | InternalError

type_synonym 'a FileResult = "FileErrorKind + 'a"
type_synonym FileStatus = "unit FileResult"

record PosixFile =
  fd_open :: bool  \<comment> \<open>\<open>fd_ >= 0\<close>\<close>
  content :: bytes
  synced :: bytes

definition kFaultDisarmed :: int where "kFaultDisarmed = - (2 ^ 63)"

definition FailAfterNWrites :: "int \<Rightarrow> Io \<Rightarrow> Io" where
  "FailAfterNWrites n io = io\<lparr>fail_after := n\<rparr>"

definition ClearWriteFailure :: "Io \<Rightarrow> Io" where
  "ClearWriteFailure io = io\<lparr>fail_after := kFaultDisarmed\<rparr>"

definition TotalSyncs :: "Io \<Rightarrow> nat" where
  "TotalSyncs io = total_syncs io"

text \<open>
  \<open>File_Open create dir\<close>: \<open>dir\<close> is the file the directory has under the path, if any.
\<close>

definition File_Open :: "bool \<Rightarrow> PosixFile option \<Rightarrow> Io \<Rightarrow> PosixFile FileResult \<times> Io" where
  "File_Open create_if_missing dir io =
     (case next_sys io of (o1, io) \<Rightarrow>
        if o1 = Errno then (Inl IoError, io)
        else case dir of
          None \<Rightarrow> if create_if_missing then (Inr \<lparr>fd_open = True, content = [], synced = []\<rparr>, io)
                  else (Inl NotFound, io)
        | Some f \<Rightarrow> (Inr (f\<lparr>fd_open := True\<rparr>), io))"

definition File_Close :: "PosixFile \<Rightarrow> PosixFile" where
  "File_Close f = f\<lparr>fd_open := False\<rparr>"

definition Read :: "PosixFile \<Rightarrow> nat \<Rightarrow> nat \<Rightarrow> Io \<Rightarrow> bytes FileResult \<times> Io" where
  "Read f offset sz io =
     (if \<not> fd_open f then (Inl InternalError, io)
      else case next_sys io of (o1, io) \<Rightarrow>
        let avail = take sz (drop offset (content f)) in
        case transferred o1 (length avail) of
          None \<Rightarrow> (Inl IoError, io)
        | Some bytes_read \<Rightarrow>
            if bytes_read \<noteq> sz then (Inl IoError, io) else (Inr avail, io))"

text \<open>The CAS loop on the fault counter: is this write to be torn, and the counter after it.\<close>

definition take_credit :: "Io \<Rightarrow> bool \<times> Io" where
  "take_credit io =
     (let remaining = fail_after io in
      if remaining = kFaultDisarmed then (False, io)
      else (remaining \<le> 0, io\<lparr>fail_after := remaining - 1\<rparr>))"

definition do_pwrite :: "PosixFile \<Rightarrow> nat \<Rightarrow> bytes \<Rightarrow> Outcome \<Rightarrow> nat option \<times> PosixFile" where
  "do_pwrite f offset buf o1 =
     (case transferred o1 (length buf) of
        None \<Rightarrow> (None, f)
      | Some n \<Rightarrow> (Some n, f\<lparr>content := pwrite (content f) offset (take n buf)\<rparr>))"

definition Write :: "PosixFile \<Rightarrow> nat \<Rightarrow> bytes \<Rightarrow> Io \<Rightarrow> FileStatus \<times> PosixFile \<times> Io" where
  "Write f offset buf io =
     (if \<not> fd_open f then (Inl InternalError, f, io)
      else case take_credit io of (torn, io) \<Rightarrow>
        case next_sys io of (o1, io) \<Rightarrow>
          if torn then (Inl IoError, snd (do_pwrite f offset (take (length buf div 2) buf) o1), io)
          else case do_pwrite f offset buf o1 of
            (None, f) \<Rightarrow> (Inl IoError, f, io)
          | (Some bytes_written, f) \<Rightarrow>
              if bytes_written \<noteq> length buf then (Inl IoError, f, io) else (Inr (), f, io))"

definition Sync :: "PosixFile \<Rightarrow> Io \<Rightarrow> FileStatus \<times> PosixFile \<times> Io" where
  "Sync f io =
     (if \<not> fd_open f then (Inl InternalError, f, io)
      else case next_sys io of (o1, io) \<Rightarrow>
        if o1 = Errno then (Inl IoError, f, io)
        else (Inr (), f\<lparr>synced := content f\<rparr>, io\<lparr>total_syncs := total_syncs io + 1\<rparr>))"

definition TryLockExclusive :: "PosixFile \<Rightarrow> bool \<Rightarrow> Io \<Rightarrow> FileStatus \<times> Io" where
  "TryLockExclusive f held_elsewhere io =
     (if \<not> fd_open f then (Inl InternalError, io)
      else if held_elsewhere then (Inl Busy, io)
      else case next_sys io of (o1, io) \<Rightarrow> if o1 = Errno then (Inl IoError, io) else (Inr (), io))"

definition Size :: "PosixFile \<Rightarrow> Io \<Rightarrow> nat FileResult \<times> Io" where
  "Size f io =
     (if \<not> fd_open f then (Inl InternalError, io)
      else case next_sys io of (o1, io) \<Rightarrow>
        if o1 = Errno then (Inl IoError, io) else (Inr (length (content f)), io))"

definition Truncate :: "PosixFile \<Rightarrow> nat \<Rightarrow> Io \<Rightarrow> FileStatus \<times> PosixFile \<times> Io" where
  "Truncate f sz io =
     (if \<not> fd_open f then (Inl InternalError, f, io)
      else case next_sys io of (o1, io) \<Rightarrow>
        if o1 = Errno then (Inl IoError, f, io)
        else (Inr (), f\<lparr>content := ftruncate (content f) sz\<rparr>, io))"

subsection \<open>Positioned writes\<close>

lemma length_pwrite: "length (pwrite c off buf) = (if buf = [] then length c else max (length c) (off + length buf))"
  by (auto simp: pwrite_def)

lemma pwrite_read_same: "take (length buf) (drop off (pwrite c off buf)) = buf"
  by (cases "buf = []") (auto simp: pwrite_def)

lemma nth_pwrite:
  assumes "i < length (pwrite c off buf)"
  shows "pwrite c off buf ! i =
    (if off \<le> i \<and> i < off + length buf then buf ! (i - off) else if i < length c then c ! i else 0)"
  using assms by (auto simp: pwrite_def nth_append min_def split: if_splits)

lemma pwrite_read_disjoint:
  assumes "a + n \<le> off \<or> off + length buf \<le> a" and "a + n \<le> length c"
  shows "take n (drop a (pwrite c off buf)) = take n (drop a c)"
proof (rule nth_equalityI)
  have l: "a + n \<le> length (pwrite c off buf)" using assms(2) by (auto simp: length_pwrite)
  then show len: "length (take n (drop a (pwrite c off buf))) = length (take n (drop a c))" using assms(2) by simp
  fix i assume "i < length (take n (drop a (pwrite c off buf)))"
  then have i: "i < n" by simp
  with l have "pwrite c off buf ! (a + i) = c ! (a + i)" using assms by (subst nth_pwrite) auto
  with i l assms(2) show "take n (drop a (pwrite c off buf)) ! i = take n (drop a c) ! i" by simp
qed

text \<open>Appending at the end of a prefix of a byte string keeps a prefix of it.\<close>

lemma pwrite_prefix:
  assumes "fb \<le> n" and "n \<le> length s" and "c = take n s" and "fb \<le> length s"
  shows "pwrite c fb (take k (drop fb s)) = take (max n (fb + min k (length s - fb))) s"
proof (rule nth_equalityI)
  show len: "length (pwrite c fb (take k (drop fb s))) = length (take (max n (fb + min k (length s - fb))) s)"
    using assms by (auto simp: length_pwrite)
  fix i assume i: "i < length (pwrite c fb (take k (drop fb s)))"
  then have "i < max n (fb + min k (length s - fb))" "i < length s" using len by auto
  then show "pwrite c fb (take k (drop fb s)) ! i = take (max n (fb + min k (length s - fb))) s ! i"
    using assms i by (subst nth_pwrite [OF i]) auto
qed

lemma Write_cases:
  assumes "Write f off buf io = (r, g, io')" and "fd_open f"
  shows "fd_open g" and "synced g = synced f"
    and "r = Inr () \<Longrightarrow> content g = pwrite (content f) off buf"
    and "\<exists>k. content g = pwrite (content f) off (take k buf)" and "r \<noteq> Inl InternalError"
proof -
  obtain t io1 where t: "take_credit io = (t, io1)" by fastforce
  obtain o1 io2 where o1: "next_sys io1 = (o1, io2)" by fastforce
  have "fd_open g \<and> synced g = synced f \<and> (r = Inr () \<longrightarrow> content g = pwrite (content f) off buf) \<and>
    (\<exists>k. content g = pwrite (content f) off (take k buf)) \<and> r \<noteq> Inl InternalError"
  proof (cases t)
    case True
    have "\<exists>k. content g = pwrite (content f) off (take k buf)"
    proof (cases "transferred o1 (length (take (length buf div 2) buf))")
      case None
      then show ?thesis using assms t o1 True
        by (auto simp: Write_def do_pwrite_def pwrite_def intro: exI [of _ 0])
    next
      case (Some n)
      then show ?thesis using assms t o1 True by (auto simp: Write_def do_pwrite_def)
    qed
    then show ?thesis using assms t o1 True by (auto simp: Write_def do_pwrite_def split: option.splits)
  next
    case False
    show ?thesis
    proof (cases "transferred o1 (length buf)")
      case None
      then show ?thesis using assms t o1 False
        by (auto simp: Write_def do_pwrite_def pwrite_def intro: exI [of _ 0])
    next
      case (Some n)
      then show ?thesis using assms t o1 False
        by (auto simp: Write_def do_pwrite_def split: if_splits intro: exI [of _ "length buf"])
    qed
  qed
  then show "fd_open g" "synced g = synced f" "r = Inr () \<Longrightarrow> content g = pwrite (content f) off buf"
    "\<exists>k. content g = pwrite (content f) off (take k buf)" "r \<noteq> Inl InternalError" by auto
qed

lemma Sync_cases:
  assumes "Sync f io = (r, g, io')"
  shows "content g = content f" and "fd_open g = fd_open f" and "r = Inr () \<Longrightarrow> synced g = content f"
    and "r \<noteq> Inr () \<Longrightarrow> g = f"
  using assms by (auto simp: Sync_def split: prod.splits if_splits)

subsection \<open>Fault injection\<close>

text \<open>A run of writes with no failing system call.\<close>

fun write_all :: "PosixFile \<Rightarrow> (nat \<times> bytes) list \<Rightarrow> Io \<Rightarrow> FileStatus list \<times> PosixFile \<times> Io" where
  "write_all f [] io = ([], f, io)"
| "write_all f ((off, buf) # ws) io =
     (case Write f off buf io of (r, f, io) \<Rightarrow>
        case write_all f ws io of (rs, f, io) \<Rightarrow> (r # rs, f, io))"

lemma Write_counted:
  assumes "fd_open f" and "sys io = []" and "fail_after io \<noteq> kFaultDisarmed"
  shows "Write f off buf io =
    (if fail_after io \<le> 0 then Inl IoError else Inr (),
     f\<lparr>content := pwrite (content f) off (if fail_after io \<le> 0 then take (length buf div 2) buf else buf)\<rparr>,
     io\<lparr>fail_after := fail_after io - 1\<rparr>)"
  using assms by (simp add: Write_def take_credit_def next_sys_def do_pwrite_def)

lemma write_all_counted:
  assumes "fd_open f" and "sys io = []" and "kFaultDisarmed + int (length ws) < fail_after io"
  shows "fst (write_all f ws io) =
    map (\<lambda>i. if int i < fail_after io then Inr () else Inl IoError) [0 ..< length ws]"
  using assms
proof (induction ws arbitrary: f io)
  case (Cons w ws)
  obtain off buf where w: "w = (off, buf)" by fastforce
  let ?f = "f\<lparr>content := pwrite (content f) off (if fail_after io \<le> 0 then take (length buf div 2) buf else buf)\<rparr>"
  let ?io = "io\<lparr>fail_after := fail_after io - 1\<rparr>"
  have wr: "Write f off buf io = (if fail_after io \<le> 0 then Inl IoError else Inr (), ?f, ?io)"
    using Cons.prems by (intro Write_counted) auto
  have ih: "fst (write_all ?f ws ?io) = map (\<lambda>i. if int i < fail_after ?io then Inr () else Inl IoError) [0 ..< length ws]"
    using Cons.prems by (intro Cons.IH) auto
  have up: "[0 ..< Suc (length ws)] = 0 # map Suc [0 ..< length ws]" by (simp add: map_Suc_upt upt_conv_Cons del: upt_Suc)
  have "fst (write_all f (w # ws) io) = (if fail_after io \<le> 0 then Inl IoError else Inr ()) # fst (write_all ?f ws ?io)"
    by (simp only: w write_all.simps wr prod.case) (simp add: split_beta)
  also have "\<dots> = map (\<lambda>i. if int i < fail_after io then Inr () else Inl IoError) (0 # map Suc [0 ..< length ws])"
    unfolding ih by (simp add: less_diff_eq add.commute)
  finally show ?case unfolding up [symmetric] by simp
qed simp

subsection \<open>Properties\<close>

text \<open>
  Whatever the operating system does, a write that reports success has put exactly its
  bytes at its offset, and every other byte of the file is as before; a
  failed write has put some prefix of the bytes there and nothing else; reading back a
  successfully written range returns the written bytes when the read succeeds.
\<close>

theorem Write_is_positioned:
  assumes "Write f off buf io = (r, g, io')" and "fd_open f"
  shows "(\<exists>k. content g = pwrite (content f) off (take k buf)) \<and>
    (r = Inr () \<longrightarrow> content g = pwrite (content f) off buf \<and>
       (\<forall>x io1 io2. Read g off (length buf) io1 = (Inr x, io2) \<longrightarrow> x = buf)) \<and>
    (\<forall>a n. a + n \<le> length (content f) \<longrightarrow> a + n \<le> off \<or> off + length buf \<le> a \<longrightarrow>
       take n (drop a (content g)) = take n (drop a (content f)))"
proof -
  note w = Write_cases [OF assms]
  obtain k where k: "content g = pwrite (content f) off (take k buf)" using w(4) by auto
  have "take n (drop a (content g)) = take n (drop a (content f))"
    if "a + n \<le> length (content f)" "a + n \<le> off \<or> off + length buf \<le> a" for a n
    unfolding k using that by (intro pwrite_read_disjoint) auto
  moreover have "x = buf" if "r = Inr ()" "Read g off (length buf) io1 = (Inr x, io2)" for x io1 io2
    using that w(3) pwrite_read_same [of buf off "content f"]
    by (auto simp: Read_def Let_def split: prod.splits option.splits if_splits)
  ultimately show ?thesis using w(3,4) by auto
qed

theorem Write_is_positioned_witness:
  "let f = \<lparr>fd_open = True, content = [1, 2, 3, 4], synced = []\<rparr>;
       io = \<lparr>fail_after = kFaultDisarmed, total_syncs = 0, sys = []\<rparr>;
       g = fst (snd (Write f 1 [9, 9] io))
   in fst (Write f 1 [9, 9] io) = Inr () \<and> content g = [1, 9, 9, 4]"
proof -
  let ?f = "\<lparr>fd_open = True, content = [1, 2, 3, 4], synced = []\<rparr>"
  let ?io = "\<lparr>fail_after = kFaultDisarmed, total_syncs = 0, sys = []\<rparr>"
  obtain r g io' where w: "Write ?f 1 [9, 9] ?io = (r, g, io')" by (metis prod_cases3)
  have "r = Inr ()" using w by (auto simp: Write_def take_credit_def next_sys_def do_pwrite_def)
  then show ?thesis using Write_is_positioned [OF w] w by (simp add: pwrite_def)
qed

text \<open>
  After \<^verbatim>\<open>FailAfterNWrites(n)\<close> exactly the next \<open>n\<close> writes of a process succeed and all later
  ones fail until the fault is cleared; the first failing write leaves half of its bytes
  behind.
\<close>

theorem FailAfterNWrites_tears_the_next_write:
  assumes "fd_open f" and "sys io = []" and "int (length ws) < 2 ^ 63 + n" 
  shows "fst (write_all f ws (FailAfterNWrites n io)) =
      map (\<lambda>i. if int i < n then Inr () else Inl IoError) [0 ..< length ws] \<and>
    content (fst (snd (Write f off buf (FailAfterNWrites 0 io)))) =
      pwrite (content f) off (take (length buf div 2) buf) \<and>
    fst (Write f off buf (ClearWriteFailure io)) = Inr ()"
proof -
  have "fst (write_all f ws (FailAfterNWrites n io)) =
      map (\<lambda>i. if int i < n then Inr () else Inl IoError) [0 ..< length ws]"
    using write_all_counted [of f "FailAfterNWrites n io" ws] assms
    by (simp add: FailAfterNWrites_def kFaultDisarmed_def)
  moreover have "content (fst (snd (Write f off buf (FailAfterNWrites 0 io)))) =
      pwrite (content f) off (take (length buf div 2) buf)"
    using Write_counted [of f "FailAfterNWrites 0 io" off buf] assms
    by (simp add: FailAfterNWrites_def kFaultDisarmed_def)
  moreover have "fst (Write f off buf (ClearWriteFailure io)) = Inr ()"
    using assms by (simp add: Write_def ClearWriteFailure_def take_credit_def next_sys_def do_pwrite_def)
  ultimately show ?thesis by blast
qed

theorem FailAfterNWrites_tears_the_next_write_witness:
  "let f = \<lparr>fd_open = True, content = [], synced = []\<rparr>;
       io = \<lparr>fail_after = kFaultDisarmed, total_syncs = 0, sys = []\<rparr>
   in fst (write_all f [(0, [1]), (1, [2]), (2, [3])] (FailAfterNWrites 2 io)) = [Inr (), Inr (), Inl IoError]"
  using FailAfterNWrites_tears_the_next_write
    [of "\<lparr>fd_open = True, content = [], synced = []\<rparr>" "\<lparr>fail_after = kFaultDisarmed, total_syncs = 0, sys = []\<rparr>"
      "[(0, [1]), (1, [2]), (2, [3])]" 2 0 "[]"]
  by (simp add: upt_rec)

end
