(* ===== verification/Pager.thy ===== *)
theory Pager
  imports Page Posix_File
begin

section \<open>The pager (pager.h, pager.cc)\<close>

text \<open>
  The pager reads and writes pages of the database file, keeps the meta data in memory and
  on the two meta pages, and allocates and frees pages.

  The theorems: a page written is the page read back and no other page changes; a
  read never delivers a page whose checksum does not match; the free list on disk
  refines a stack; after a torn or failed meta write the file still opens, with
  the previous meta data unless the torn copy itself carries a valid checksum.
\<close>

subsection \<open>The meta page\<close>

record MetaPage =
  magic :: u32
  version :: u32
  root_page_id :: PageId
  num_pages :: PageId
  num_keys :: u64
  free_list_head :: PageId
  mchecksum :: u32
  generation :: u64
  checkpoint_lsn :: Lsn
  mreserved :: bytes

definition kMagicNumber :: u32 where "kMagicNumber = 0x4B565354"
definition kFormatVersion :: u32 where "kFormatVersion = 3"
definition kFirstDataPage :: PageId where "kFirstDataPage = 2"

definition Meta_Init :: MetaPage where
  "Meta_Init = \<lparr>magic = kMagicNumber, version = kFormatVersion, root_page_id = kInvalidPageId, num_pages = 2,
     num_keys = 0, free_list_head = kInvalidPageId, mchecksum = 0, generation = 0, checkpoint_lsn = kInvalidLsn,
     mreserved = replicate (4096 - 48) 0\<rparr>"

definition meta_IsValid :: "MetaPage \<Rightarrow> bool" where
  "meta_IsValid m \<longleftrightarrow> magic m = kMagicNumber \<and> version m = kFormatVersion"

definition meta_bytes :: "MetaPage \<Rightarrow> bytes" where
  "meta_bytes m = PutLE 4 (magic m) @ PutLE 4 (version m) @ PutLE 4 (root_page_id m) @ PutLE 4 (num_pages m) @
     PutLE 8 (num_keys m) @ PutLE 4 (free_list_head m) @ PutLE 4 (mchecksum m) @ PutLE 8 (generation m) @
     PutLE 8 (checkpoint_lsn m) @ mreserved m"

definition meta_of_bytes :: "bytes \<Rightarrow> MetaPage" where
  "meta_of_bytes bs =
     (let f = (\<lambda>off n. take n (drop off bs)) in
      \<lparr>magic = GetLE (f 0 4), version = GetLE (f 4 4), root_page_id = GetLE (f 8 4), num_pages = GetLE (f 12 4),
       num_keys = GetLE (f 16 8), free_list_head = GetLE (f 24 4), mchecksum = GetLE (f 28 4),
       generation = GetLE (f 32 8), checkpoint_lsn = GetLE (f 40 8), mreserved = drop 48 bs\<rparr>)"

definition ComputeMetaChecksum :: "MetaPage \<Rightarrow> u32" where
  "ComputeMetaChecksum m = Crc32WithZeroedField (meta_bytes m) 28"  \<comment> \<open>offsetof(MetaPage, checksum)\<close>

subsection \<open>Opening\<close>

record Pager =
  pfile :: PosixFile
  meta :: MetaPage
  verify_checksums :: bool

text \<open>The switch has no case for \<^verbatim>\<open>Kind::Busy\<close>, which falls through to the internal error.\<close>

fun pager_error :: "FileErrorKind \<Rightarrow> Status" where
  "pager_error NotFound = kNotFound"
| "pager_error IoError = kIoError"
| "pager_error InternalError = kInternal"
| "pager_error Busy = kInternal"

fun write_metas :: "PosixFile \<Rightarrow> MetaPage \<Rightarrow> nat list \<Rightarrow> Io \<Rightarrow> FileStatus \<times> PosixFile \<times> Io" where
  "write_metas f m [] io = (Inr (), f, io)"
| "write_metas f m (copy # copies) io =
     (case Write f (copy * kPageSize) (meta_bytes m) io of
        (Inl e, f, io) \<Rightarrow> (Inl e, f, io)
      | (Inr _, f, io) \<Rightarrow> write_metas f m copies io)"

text \<open>One candidate copy against the best so far.\<close>

definition consider_meta :: "bool \<Rightarrow> MetaPage option \<Rightarrow> MetaPage \<Rightarrow> MetaPage option" where
  "consider_meta verify best candidate =
     (if magic candidate \<noteq> kMagicNumber \<or> version candidate \<noteq> kFormatVersion then best
      else if verify \<and> mchecksum candidate \<noteq> ComputeMetaChecksum candidate then best
      else case best of
        None \<Rightarrow> Some candidate
      | Some m \<Rightarrow> if generation m < generation candidate then Some candidate else best)"

fun read_metas :: "PosixFile \<Rightarrow> bool \<Rightarrow> nat list \<Rightarrow> MetaPage option \<Rightarrow> Io \<Rightarrow> MetaPage option FileResult \<times> Io" where
  "read_metas f verify [] best io = (Inr best, io)"
| "read_metas f verify (copy # copies) best io =
     (case Read f (copy * kPageSize) kPageSize io of
        (Inl e, io) \<Rightarrow> (Inl e, io)
      | (Inr bs, io) \<Rightarrow> read_metas f verify copies (consider_meta verify best (meta_of_bytes bs)) io)"

text \<open>\<open>dir\<close> is the file under the path; the second component of the result is that file afterwards.\<close>

definition Pager_Open :: "bool \<Rightarrow> bool \<Rightarrow> PosixFile option \<Rightarrow> Io \<Rightarrow> Pager Result \<times> PosixFile option \<times> Io" where
  "Pager_Open create_if_missing verify dir io =
     (case File_Open create_if_missing dir io of
        (Inl e, io) \<Rightarrow> (Inl (pager_error e), dir, io)
      | (Inr f, io) \<Rightarrow>
          (case Size f io of
             (Inl e, io) \<Rightarrow> (Inl (pager_error e), Some f, io)
           | (Inr file_size, io) \<Rightarrow>
               if file_size = 0 then
                 let m = Meta_Init; m = m\<lparr>mchecksum := ComputeMetaChecksum m\<rparr> in
                 case write_metas f m [0 ..< unat kFirstDataPage] io of
                   (Inl e, f, io) \<Rightarrow> (Inl (pager_error e), Some f, io)
                 | (Inr _, f, io) \<Rightarrow>
                     (case Sync f io of
                        (Inl e, f, io) \<Rightarrow> (Inl (pager_error e), Some f, io)
                      | (Inr _, f, io) \<Rightarrow>
                          (Inr \<lparr>pfile = f, meta = m, verify_checksums = verify\<rparr>, Some f, io))
               else if file_size < unat kFirstDataPage * kPageSize then (Inl kCorruption, Some f, io)
               else
                 case read_metas f verify [0 ..< unat kFirstDataPage] None io of
                   (Inl e, io) \<Rightarrow> (Inl (pager_error e), Some f, io)
                 | (Inr None, io) \<Rightarrow> (Inl kCorruption, Some f, io)
                 | (Inr (Some m), io) \<Rightarrow>
                     if file_size < unat (num_pages m) * kPageSize then (Inl kCorruption, Some f, io)
                     else (Inr \<lparr>pfile = f, meta = m, verify_checksums = verify\<rparr>, Some f, io)))"

subsection \<open>Page input and output\<close>

definition PageOffset :: "PageId \<Rightarrow> nat" where
  "PageOffset pid = unat pid * kPageSize"

definition ReadPage :: "Pager \<Rightarrow> PageId \<Rightarrow> Io \<Rightarrow> Page Result \<times> Io" where
  "ReadPage p pid io =
     (if pid < kFirstDataPage then (Inl kInvalidArgument, io)
      else if num_pages (meta p) \<le> pid then (Inl kInvalidArgument, io)
      else case Read (pfile p) (PageOffset pid) kPageSize io of
        (Inl e, io) \<Rightarrow> (Inl (pager_error e), io)
      | (Inr bs, io) \<Rightarrow>
          let out = page_of_bytes bs in
          if verify_checksums p \<and> checksum (hdr out) \<noteq> ComputeChecksum out \<and> \<not> IsZeroed out
          then (Inl kCorruption, io) else (Inr out, io))"

definition WritePage :: "Pager \<Rightarrow> PageId \<Rightarrow> Page \<Rightarrow> Io \<Rightarrow> Status \<times> Page \<times> Pager \<times> Io" where
  "WritePage p pid page io =
     (if pid < kFirstDataPage then (kInvalidArgument, page, p, io)
      else if num_pages (meta p) \<le> pid then (kInvalidArgument, page, p, io)
      else
        let page = stamp page (ComputeChecksum page) in
        case Write (pfile p) (PageOffset pid) (RawData page) io of
          (Inl e, f, io) \<Rightarrow> (pager_error e, page, p\<lparr>pfile := f\<rparr>, io)
        | (Inr _, f, io) \<Rightarrow> (kOk, page, p\<lparr>pfile := f\<rparr>, io))"

subsection \<open>Allocation\<close>

text \<open>The first four payload bytes of a free page: the next one on the list.\<close>

definition free_next :: "Page \<Rightarrow> PageId" where
  "free_next page = GetLE (take 4 (drop kHeaderSize (RawData page)))"

definition AllocatePage :: "Pager \<Rightarrow> Io \<Rightarrow> PageId Result \<times> Pager \<times> Io" where
  "AllocatePage p io =
     (if free_list_head (meta p) \<noteq> kInvalidPageId then
        let recycled = free_list_head (meta p) in
        case ReadPage p recycled io of
          (Inl s, io) \<Rightarrow> (Inl s, p, io)
        | (Inr free_page, io) \<Rightarrow>
            if ptype (hdr free_page) \<noteq> kFree then (Inl kCorruption, p, io)
            else
              let next = free_next free_page in
              case Write (pfile p) (PageOffset recycled) (replicate kPageSize 0) io of
                (Inl e, f, io) \<Rightarrow> (Inl (pager_error e), p\<lparr>pfile := f\<rparr>, io)
              | (Inr _, f, io) \<Rightarrow>
                  (Inr recycled, p\<lparr>pfile := f, meta := (meta p)\<lparr>free_list_head := next\<rparr>\<rparr>, io)
      else
        let new_page_id = num_pages (meta p) in
        case Write (pfile p) (PageOffset new_page_id) (replicate kPageSize 0) io of
          (Inl e, f, io) \<Rightarrow> (Inl (pager_error e), p\<lparr>pfile := f\<rparr>, io)
        | (Inr _, f, io) \<Rightarrow>
            (Inr new_page_id, p\<lparr>pfile := f, meta := (meta p)\<lparr>num_pages := new_page_id + 1\<rparr>\<rparr>, io))"

definition free_page :: "PageId \<Rightarrow> PageId \<Rightarrow> Page" where
  "free_page pid next =
     (let page = Page_Init pid kFree in page\<lparr>dat := mem_write (dat page) kHeaderSize (PutLE 4 next)\<rparr>)"

definition FreePage :: "Pager \<Rightarrow> PageId \<Rightarrow> Io \<Rightarrow> Status \<times> Pager \<times> Io" where
  "FreePage p pid io =
     (if pid < kFirstDataPage \<or> num_pages (meta p) \<le> pid then (kInvalidArgument, p, io)
      else
        case WritePage p pid (free_page pid (free_list_head (meta p))) io of (s, _, p, io) \<Rightarrow>
          if s \<noteq> kOk then (s, p, io)
          else (kOk, p\<lparr>meta := (meta p)\<lparr>free_list_head := pid\<rparr>\<rparr>, io))"

subsection \<open>Meta data and durability\<close>

definition SetRootPageId :: "Pager \<Rightarrow> PageId \<Rightarrow> Pager" where
  "SetRootPageId p new_root = p\<lparr>meta := (meta p)\<lparr>root_page_id := new_root\<rparr>\<rparr>"

definition SetNumKeys :: "Pager \<Rightarrow> u64 \<Rightarrow> Pager" where
  "SetNumKeys p count = p\<lparr>meta := (meta p)\<lparr>num_keys := count\<rparr>\<rparr>"

definition AddToNumKeys :: "Pager \<Rightarrow> int \<Rightarrow> Pager" where
  "AddToNumKeys p delta = p\<lparr>meta := (meta p)\<lparr>num_keys := num_keys (meta p) + of_int delta\<rparr>\<rparr>"

definition KeyCount :: "Pager \<Rightarrow> u64" where
  "KeyCount p = num_keys (meta p)"

definition SetCheckpointLsn :: "Pager \<Rightarrow> Lsn \<Rightarrow> Pager" where
  "SetCheckpointLsn p l = p\<lparr>meta := (meta p)\<lparr>checkpoint_lsn := l\<rparr>\<rparr>"

definition PersistMeta :: "Pager \<Rightarrow> Io \<Rightarrow> Status \<times> Pager \<times> Io" where
  "PersistMeta p io =
     (let m = (meta p)\<lparr>generation := generation (meta p) + 1\<rparr>;
          m = m\<lparr>mchecksum := ComputeMetaChecksum m\<rparr>;
          offset = unat (generation m mod 2) * kPageSize
      in case Write (pfile p) offset (meta_bytes m) io of
           (Inl e, f, io) \<Rightarrow> (pager_error e, p\<lparr>pfile := f, meta := m\<lparr>generation := generation m - 1\<rparr>\<rparr>, io)
         | (Inr _, f, io) \<Rightarrow> (kOk, p\<lparr>pfile := f, meta := m\<rparr>, io))"

definition SyncData :: "Pager \<Rightarrow> Io \<Rightarrow> Status \<times> Pager \<times> Io" where
  "SyncData p io =
     (case Sync (pfile p) io of
        (Inl e, f, io) \<Rightarrow> (pager_error e, p\<lparr>pfile := f\<rparr>, io)
      | (Inr _, f, io) \<Rightarrow> (kOk, p\<lparr>pfile := f\<rparr>, io))"

definition Pager_Sync :: "Pager \<Rightarrow> Io \<Rightarrow> Status \<times> Pager \<times> Io" where
  "Pager_Sync p io =
     (case PersistMeta p io of (s, p, io) \<Rightarrow> if s \<noteq> kOk then (s, p, io) else SyncData p io)"

subsection \<open>Pages of the file\<close>

definition file_page :: "PosixFile \<Rightarrow> nat \<Rightarrow> bytes" where
  "file_page f i = take kPageSize (drop (i * kPageSize) (content f))"

abbreviation disk :: "Pager \<Rightarrow> PageId \<Rightarrow> bytes" where
  "disk p pid \<equiv> file_page (pfile p) (unat pid)"

definition pager_inv :: "Pager \<Rightarrow> bool" where
  "pager_inv p \<longleftrightarrow> fd_open (pfile p) \<and> kFirstDataPage \<le> num_pages (meta p) \<and>
     unat (num_pages (meta p)) * kPageSize \<le> length (content (pfile p))"

definition data_page :: "Pager \<Rightarrow> PageId \<Rightarrow> bool" where
  "data_page p pid \<longleftrightarrow> kFirstDataPage \<le> pid \<and> pid < num_pages (meta p)"

lemma pager_error_not_ok [simp]: "pager_error e \<noteq> kOk"
  by (cases e) auto

lemma page_apart: "(i :: nat) \<noteq> j \<Longrightarrow> i * kPageSize + kPageSize \<le> j * kPageSize \<or> j * kPageSize + kPageSize \<le> i * kPageSize"
  by (cases i j rule: linorder_cases) (auto simp: kPageSize_def)

lemma file_page_pwrite_other:
  assumes "i \<noteq> j" and "length xs \<le> kPageSize" and "i * kPageSize + kPageSize \<le> length c"
  shows "take kPageSize (drop (i * kPageSize) (pwrite c (j * kPageSize) xs)) = take kPageSize (drop (i * kPageSize) c)"
  using page_apart [OF assms(1)] assms(2,3) by (intro pwrite_read_disjoint) auto

lemma file_page_pwrite_same:
  "length xs = kPageSize \<Longrightarrow> take kPageSize (drop (j * kPageSize) (pwrite c (j * kPageSize) xs)) = xs"
  using pwrite_read_same [of xs "j * kPageSize" c] by simp

lemma length_pwrite_ge: "length c \<le> length (pwrite c off xs)"
  by (simp add: length_pwrite)

lemma data_page_room:
  assumes "pager_inv p" and "pid < num_pages (meta p)"
  shows "unat pid * kPageSize + kPageSize \<le> length (content (pfile p))"
proof -
  have "Suc (unat pid) \<le> unat (num_pages (meta p))" using assms(2) by (simp add: word_less_nat_alt)
  then have "Suc (unat pid) * kPageSize \<le> unat (num_pages (meta p)) * kPageSize" by (rule mult_le_mono1)
  then show ?thesis using assms(1) by (simp add: pager_inv_def)
qed

lemma Write_page:
  assumes inv: "pager_inv p" and wr: "Write (pfile p) (unat pid * kPageSize) xs io = (r, f, io')" and l: "length xs = kPageSize"
  shows "fd_open f" and "length (content (pfile p)) \<le> length (content f)"
    and "\<And>j. j \<noteq> unat pid \<Longrightarrow> j * kPageSize + kPageSize \<le> length (content (pfile p)) \<Longrightarrow> file_page f j = file_page (pfile p) j"
    and "r = Inr () \<Longrightarrow> file_page f (unat pid) = xs"
    and "r = Inr () \<Longrightarrow> unat pid * kPageSize + kPageSize \<le> length (content f)"
proof -
  have o: "fd_open (pfile p)" using inv by (simp add: pager_inv_def)
  note w = Write_cases [OF wr o]
  obtain k where k: "content f = pwrite (content (pfile p)) (unat pid * kPageSize) (take k xs)" using w(4) by auto
  show "fd_open f" "length (content (pfile p)) \<le> length (content f)" using w(1) k length_pwrite_ge by auto
  show "file_page f j = file_page (pfile p) j" if "j \<noteq> unat pid" "j * kPageSize + kPageSize \<le> length (content (pfile p))" for j
    unfolding file_page_def k using that l by (intro file_page_pwrite_other) auto
  show "file_page f (unat pid) = xs" if "r = Inr ()"
    unfolding file_page_def w(3) [OF that] using l by (rule file_page_pwrite_same)
  show "unat pid * kPageSize + kPageSize \<le> length (content f)" if "r = Inr ()"
    unfolding w(3) [OF that] using l by (auto simp: length_pwrite kPageSize_def)
qed

lemma WritePage_cases:
  assumes inv: "pager_inv p" and wr: "WritePage p pid pg io = (s, pg', p', io')"
  shows "pager_inv p'" and "meta p' = meta p" and "verify_checksums p' = verify_checksums p"
    and "\<And>j. j < num_pages (meta p) \<Longrightarrow> j \<noteq> pid \<Longrightarrow> disk p' j = disk p j"
    and "s = kOk \<Longrightarrow> data_page p pid \<and> pg' = stamp pg (ComputeChecksum pg) \<and> disk p' pid = RawData pg'"
    and "pg' = pg \<or> pg' = stamp pg (ComputeChecksum pg)"
    and "\<not> data_page p pid \<Longrightarrow> s = kInvalidArgument \<and> p' = p \<and> pg' = pg"
proof -
  let ?pg = "stamp pg (ComputeChecksum pg)"
  have "pager_inv p' \<and> meta p' = meta p \<and> verify_checksums p' = verify_checksums p \<and>
    (\<forall>j. j < num_pages (meta p) \<longrightarrow> j \<noteq> pid \<longrightarrow> disk p' j = disk p j) \<and>
    (s = kOk \<longrightarrow> data_page p pid \<and> pg' = ?pg \<and> disk p' pid = RawData pg') \<and> (pg' = pg \<or> pg' = ?pg) \<and>
    (\<not> data_page p pid \<longrightarrow> s = kInvalidArgument \<and> p' = p \<and> pg' = pg)"
  proof (cases "data_page p pid")
    case False
    then have "(s, pg', p', io') = (kInvalidArgument, pg, p, io)"
      using wr by (auto simp: WritePage_def data_page_def not_less not_le split: if_splits)
    then show ?thesis using inv False by auto
  next
    case True
    obtain r f io1 where w: "Write (pfile p) (PageOffset pid) (RawData ?pg) io = (r, f, io1)" by (metis prod_cases3)
    have g: "\<not> pid < kFirstDataPage" "\<not> num_pages (meta p) \<le> pid" using True by (auto simp: data_page_def)
    have "(s, pg', p', io') = (if r = Inr () then kOk else pager_error (projl r), ?pg, p\<lparr>pfile := f\<rparr>, io1)"
      using wr unfolding WritePage_def Let_def w if_not_P [OF g(1)] if_not_P [OF g(2)] by (cases r) simp_all
    then have e: "pg' = ?pg" "p' = p\<lparr>pfile := f\<rparr>" "s = kOk \<longleftrightarrow> r = Inr ()" by (auto split: if_splits)
    note wp = Write_page [OF inv w [unfolded PageOffset_def], simplified]
    have "disk p' j = disk p j" if "j < num_pages (meta p)" "j \<noteq> pid" for j
      using wp(3) [of "unat j"] data_page_room [OF inv that(1)] that(2) e(2) by (auto simp: word_unat_eq_iff)
    moreover have "pager_inv p'" using inv wp(1,2) e(2) by (simp add: pager_inv_def)
    moreover have "disk p' pid = RawData pg'" if "s = kOk" using wp(4) e that by simp
    ultimately show ?thesis using e(1,2) True by auto
  qed
  then show "pager_inv p'" "meta p' = meta p" "verify_checksums p' = verify_checksums p"
    "\<And>j. j < num_pages (meta p) \<Longrightarrow> j \<noteq> pid \<Longrightarrow> disk p' j = disk p j"
    "s = kOk \<Longrightarrow> data_page p pid \<and> pg' = ?pg \<and> disk p' pid = RawData pg'" "pg' = pg \<or> pg' = ?pg"
    "\<not> data_page p pid \<Longrightarrow> s = kInvalidArgument \<and> p' = p \<and> pg' = pg"
    by blast+
qed

definition trusted :: "Page \<Rightarrow> bool" where
  "trusted pg \<longleftrightarrow> checksum (hdr pg) = ComputeChecksum pg \<or> IsZeroed pg"

lemma ReadPage_Inr:
  assumes "ReadPage p pid io = (Inr pg, io')"
  shows "data_page p pid" and "pg = page_of_bytes (disk p pid)" and "verify_checksums p \<Longrightarrow> trusted pg"
  using assms
  by (auto simp: ReadPage_def data_page_def Read_def Let_def file_page_def PageOffset_def trusted_def not_less not_le
      split: if_splits sum.splits prod.splits option.splits)

lemma ReadPage_total:
  assumes inv: "pager_inv p" and "data_page p pid" and "sys io = []"
    and "verify_checksums p \<Longrightarrow> trusted (page_of_bytes (disk p pid))"
  shows "ReadPage p pid io = (Inr (page_of_bytes (disk p pid)), io)"
proof -
  have "length (disk p pid) = kPageSize"
    using data_page_room [OF inv, of pid] assms(2) by (simp add: file_page_def data_page_def)
  then have "Read (pfile p) (PageOffset pid) kPageSize io = (Inr (disk p pid), io)"
    using inv assms(3) by (simp add: Read_def pager_inv_def next_sys_def file_page_def PageOffset_def)
  then show ?thesis
    using assms(2,4) by (auto simp: ReadPage_def data_page_def trusted_def Let_def)
qed

lemma mem_ok_stamp [simp]: "mem_ok (stamp pg c) = mem_ok pg"
  by (simp add: mem_ok_def)

lemma trusted_stamp [simp]: "trusted (stamp pg (ComputeChecksum pg))"
  by (simp add: trusted_def)

subsection \<open>The free list\<close>

text \<open>\<open>flist p h ids\<close>: from head \<open>h\<close>, the free pages on disk are linked in the order \<open>ids\<close>.\<close>

fun flist :: "Pager \<Rightarrow> PageId \<Rightarrow> PageId list \<Rightarrow> bool" where
  "flist p h [] = (h = kInvalidPageId)"
| "flist p h (x # xs) = (h = x \<and> x \<noteq> kInvalidPageId \<and> data_page p x \<and> x \<notin> set xs \<and>
     (let pg = page_of_bytes (disk p x) in
      ptype (hdr pg) = kFree \<and> trusted pg \<and> flist p (free_next pg) xs))"

lemma flist_frame:
  assumes "flist p h ids" and "\<And>x. x \<in> set ids \<Longrightarrow> disk p' x = disk p x" and "num_pages (meta p) \<le> num_pages (meta p')"
  shows "flist p' h ids"
  using assms(1,2)
proof (induction ids arbitrary: h)
  case (Cons x xs)
  then have d: "disk p' x = disk p x" by simp
  then show ?case using Cons assms(3) by (auto simp: d Let_def data_page_def)
qed simp

lemma flist_data_page: "flist p h ids \<Longrightarrow> x \<in> set ids \<Longrightarrow> data_page p x"
  by (induction ids arbitrary: h) (auto simp: Let_def)

lemma mem_ok_free_page: "mem_ok (free_page pid next)"
  by (auto simp: mem_ok_def free_page_def Page_Init_def mem_write_def layout_defs)

lemma free_next_stamp: "free_next (stamp (free_page pid next) c) = next"
proof -
  have "take 4 (drop kHeaderSize (RawData (stamp (free_page pid next) c))) = PutLE 4 next"
    by (simp add: RawData_def free_page_def mem_read_take layout_defs mem_read_write_same Let_def)
  then show ?thesis by (simp add: free_next_def le_simps)
qed

lemma FreePage_ok:
  assumes inv: "pager_inv p" and fl: "flist p (free_list_head (meta p)) ids" and nin: "pid \<notin> set ids" "pid \<noteq> kInvalidPageId"
    and fr: "FreePage p pid io = (s, p', io')"
  shows "pager_inv p'" and "s = kOk \<Longrightarrow> data_page p pid \<and> flist p' (free_list_head (meta p')) (pid # ids)"
    and "s \<noteq> kOk \<Longrightarrow> flist p' (free_list_head (meta p')) ids"
    and "\<And>j. j < num_pages (meta p) \<Longrightarrow> j \<noteq> pid \<Longrightarrow> disk p' j = disk p j"
    and "num_pages (meta p') = num_pages (meta p)"
proof -
  let ?h = "free_list_head (meta p)"
  obtain s1 pg1 p1 io1 where w: "WritePage p pid (free_page pid ?h) io = (s1, pg1, p1, io1)" by (metis prod_cases4)
  note wc = WritePage_cases [OF inv w]
  have dp: "data_page p pid \<longleftrightarrow> \<not> (pid < kFirstDataPage \<or> num_pages (meta p) \<le> pid)" by (auto simp: data_page_def)
  have e: "s = s1" "pfile p' = pfile p1" "num_pages (meta p') = num_pages (meta p)"
    "s = kOk \<Longrightarrow> meta p' = (meta p1)\<lparr>free_list_head := pid\<rparr>" "s \<noteq> kOk \<Longrightarrow> p' = p1"
    using fr w wc(2,7) dp by (auto simp: FreePage_def split: if_splits)
  show "pager_inv p'" using wc(1,2) e by (simp add: pager_inv_def)
  show "num_pages (meta p') = num_pages (meta p)" by (rule e)
  show other: "disk p' j = disk p j" if "j < num_pages (meta p)" "j \<noteq> pid" for j
    using wc(4) [OF that] e(2) by simp
  have f1: "flist p' ?h ids"
  proof (rule flist_frame [OF fl])
    fix x assume "x \<in> set ids"
    then have "x < num_pages (meta p)" "x \<noteq> pid" using flist_data_page [OF fl] nin by (auto simp: data_page_def)
    then show "disk p' x = disk p x" by (rule other)
  qed (use e in simp)
  show "flist p' (free_list_head (meta p')) ids" if "s \<noteq> kOk" using f1 e(5) that wc(2) by simp
  assume ok: "s = kOk"
  then have d: "data_page p pid" "disk p' pid = RawData (stamp (free_page pid ?h) (ComputeChecksum (free_page pid ?h)))"
    using wc(5) e by auto
  have rd: "page_of_bytes (disk p' pid) = stamp (free_page pid ?h) (ComputeChecksum (free_page pid ?h))"
    unfolding d(2) by (rule page_of_bytes_RawData) (simp add: mem_ok_free_page)
  have "ptype (hdr (free_page pid ?h)) = kFree" by (simp add: free_page_def Page_Init_def header_Init_def)
  then show "data_page p pid \<and> flist p' (free_list_head (meta p')) (pid # ids)"
    using d(1) rd f1 nin e(3,4) ok by (simp add: Let_def free_next_stamp data_page_def)
qed

lemma AllocatePage_ok:
  assumes inv: "pager_inv p" and fl: "flist p (free_list_head (meta p)) ids"
    and bound: "unat (num_pages (meta p)) + 1 < 2 ^ 32"
    and al: "AllocatePage p io = (r, p', io')"
  shows "pager_inv p'" and "\<And>e. r = Inl e \<Longrightarrow> meta p' = meta p"
    and "\<And>x. r = Inr x \<Longrightarrow> disk p' x = replicate kPageSize 0 \<and> data_page p' x \<and>
           (case ids of [] \<Rightarrow> x = num_pages (meta p) \<and> num_pages (meta p') = num_pages (meta p) + 1
            | y # _ \<Rightarrow> x = y \<and> num_pages (meta p') = num_pages (meta p)) \<and>
           flist p' (free_list_head (meta p')) (tl ids) \<and>
           (\<forall>j. j < num_pages (meta p) \<longrightarrow> j \<noteq> x \<longrightarrow> disk p' j = disk p j)"
proof -
  let ?z = "replicate kPageSize (0 :: byte)"
  have "pager_inv p' \<and> (\<forall>e. r = Inl e \<longrightarrow> meta p' = meta p) \<and>
    (\<forall>x. r = Inr x \<longrightarrow> disk p' x = ?z \<and> data_page p' x \<and>
       (case ids of [] \<Rightarrow> x = num_pages (meta p) \<and> num_pages (meta p') = num_pages (meta p) + 1
        | y # _ \<Rightarrow> x = y \<and> num_pages (meta p') = num_pages (meta p)) \<and>
       flist p' (free_list_head (meta p')) (tl ids) \<and>
       (\<forall>j. j < num_pages (meta p) \<longrightarrow> j \<noteq> x \<longrightarrow> disk p' j = disk p j))"
  proof (cases ids)
    case (Cons x xs)
    then have x: "free_list_head (meta p) = x" "x \<noteq> kInvalidPageId" "data_page p x" "x \<notin> set xs"
      "flist p (free_next (page_of_bytes (disk p x))) xs" using fl by (simp_all add: Let_def)
    obtain r1 io1 where rd: "ReadPage p x io = (r1, io1)" by fastforce
    show ?thesis
    proof (cases "\<exists>pg. r1 = Inr pg \<and> ptype (hdr pg) = kFree")
      case False
      then have "p' = p \<and> (\<exists>e. r = Inl e)" using al x rd by (cases r1) (auto simp: AllocatePage_def)
      then show ?thesis using inv by auto
    next
      case True
      then obtain pg where pg: "r1 = Inr pg" "ptype (hdr pg) = kFree" by auto
      have pge: "pg = page_of_bytes (disk p x)" using ReadPage_Inr(2) rd pg(1) by simp
      obtain r2 f io2 where w: "Write (pfile p) (unat x * kPageSize) ?z io1 = (r2, f, io2)" by (metis prod_cases3)
      note wp = Write_page [OF inv w, simplified]
      have oth: "file_page f (unat j) = disk p j" if "j < num_pages (meta p)" "j \<noteq> x" for j
        using wp(3) [of "unat j"] data_page_room [OF inv that(1)] that(2) by (auto simp: word_unat_eq_iff)
      show ?thesis
      proof (cases r2)
        case (Inl e)
        then have "p' = p\<lparr>pfile := f\<rparr> \<and> (\<exists>e. r = Inl e)"
          using al x rd pg w by (auto simp: AllocatePage_def PageOffset_def Let_def)
        then show ?thesis using inv wp(1,2) by (auto simp: pager_inv_def)
      next
        case (Inr u)
        then have p': "p' = p\<lparr>pfile := f, meta := (meta p)\<lparr>free_list_head := free_next pg\<rparr>\<rparr>" "r = Inr x"
          using al x rd pg w by (auto simp: AllocatePage_def PageOffset_def Let_def)
        have "flist p' (free_next pg) xs"
        proof (rule flist_frame [OF x(5) [folded pge]])
          fix y assume "y \<in> set xs"
          then have "y < num_pages (meta p)" "y \<noteq> x" using flist_data_page [OF x(5)] x(4) by (auto simp: data_page_def)
          then show "disk p' y = disk p y" using oth p' by simp
        qed (use p' in simp)
        then show ?thesis
          using p' inv wp(1,2,4) oth Inr x(3) Cons by (auto simp: pager_inv_def data_page_def)
      qed
    qed
  next
    case Nil
    then have h: "free_list_head (meta p) = kInvalidPageId" using fl by simp
    let ?n = "num_pages (meta p)"
    obtain r2 f io2 where w: "Write (pfile p) (unat ?n * kPageSize) ?z io = (r2, f, io2)" by (metis prod_cases3)
    note wp = Write_page [OF inv w, simplified]
    have un: "unat (?n + 1) = unat ?n + 1" using bound by (subst unat_add_less) auto
    show ?thesis
    proof (cases r2)
      case (Inl e)
      then have "p' = p\<lparr>pfile := f\<rparr> \<and> (\<exists>e. r = Inl e)" using al h w by (auto simp: AllocatePage_def PageOffset_def Let_def)
      then show ?thesis using inv wp(1,2) by (auto simp: pager_inv_def)
    next
      case (Inr u)
      then have p': "p' = p\<lparr>pfile := f, meta := (meta p)\<lparr>num_pages := ?n + 1\<rparr>\<rparr>" "r = Inr ?n"
        using al h w by (auto simp: AllocatePage_def PageOffset_def Let_def)
      have lt: "?n < ?n + 1" using un by (simp add: word_less_nat_alt)
      have k: "kFirstDataPage \<le> ?n" using inv by (simp add: pager_inv_def)
      have "disk p' j = disk p j" if "j < ?n" for j
        using wp(3) [of "unat j"] data_page_room [OF inv that] that p' by (auto simp: word_less_nat_alt)
      moreover have "pager_inv p'"
        using p' inv wp(1,5) un Inr lt k by (simp add: pager_inv_def add.commute)
      ultimately show ?thesis using p' wp(4) Inr Nil h lt k by (auto simp: data_page_def)
    qed
  qed
  then show "pager_inv p'" "\<And>e. r = Inl e \<Longrightarrow> meta p' = meta p"
    "\<And>x. r = Inr x \<Longrightarrow> disk p' x = ?z \<and> data_page p' x \<and>
           (case ids of [] \<Rightarrow> x = num_pages (meta p) \<and> num_pages (meta p') = num_pages (meta p) + 1
            | y # _ \<Rightarrow> x = y \<and> num_pages (meta p') = num_pages (meta p)) \<and>
           flist p' (free_list_head (meta p')) (tl ids) \<and>
           (\<forall>j. j < num_pages (meta p) \<longrightarrow> j \<noteq> x \<longrightarrow> disk p' j = disk p j)" by blast+
qed

lemma AllocatePage_frame:
  assumes inv: "pager_inv p" and al: "AllocatePage p io = (r, p', io')"
    and j: "j < num_pages (meta p)" "j \<noteq> free_list_head (meta p)"
  shows "disk p' j = disk p j"
proof -
  have oth: "file_page f (unat j) = disk p j"
    if "Write (pfile p) (unat x * kPageSize) (replicate kPageSize 0) io1 = (r2, f, io2)" "j \<noteq> x" for x io1 r2 f io2
    using Write_page(3) [OF inv that(1)] data_page_room [OF inv j(1)] that(2) by (auto simp: word_unat_eq_iff)
  show ?thesis
    using al j oth
    by (auto simp: AllocatePage_def PageOffset_def Let_def split: if_splits sum.splits prod.splits)
qed

lemma AllocatePage_keeps:
  "AllocatePage p io = (r, p', io') \<Longrightarrow> verify_checksums p' = verify_checksums p"
  by (auto simp: AllocatePage_def Let_def split: if_splits sum.splits prod.splits)

subsection \<open>The two meta copies\<close>

lemma length_meta_bytes: "length (mreserved m) = 4048 \<Longrightarrow> length (meta_bytes m) = kPageSize"
  by (simp add: meta_bytes_def kPageSize_def)

lemma meta_roundtrip [simp]: "meta_of_bytes (meta_bytes m) = m"
  by (cases m) (simp add: meta_of_bytes_def meta_bytes_def Let_def le_simps)

lemma ComputeMetaChecksum_stamp [simp]: "ComputeMetaChecksum (m\<lparr>mchecksum := c\<rparr>) = ComputeMetaChecksum m"
  by (simp add: ComputeMetaChecksum_def Crc32WithZeroedField_def meta_bytes_def Let_def)

definition meta_valid :: "bool \<Rightarrow> MetaPage \<Rightarrow> bool" where
  "meta_valid v m \<longleftrightarrow> meta_IsValid m \<and> (v \<longrightarrow> mchecksum m = ComputeMetaChecksum m)"

abbreviation meta_copy :: "PosixFile \<Rightarrow> nat \<Rightarrow> MetaPage" where
  "meta_copy f i \<equiv> meta_of_bytes (file_page f i)"

definition select_meta :: "bool \<Rightarrow> PosixFile \<Rightarrow> MetaPage option" where
  "select_meta v f = consider_meta v (consider_meta v None (meta_copy f 0)) (meta_copy f 1)"

text \<open>
  \<open>persisted v f m\<close>: copy \<open>generation m mod 2\<close> holds \<open>m\<close>, and the other copy is invalid, equal, or older.
\<close>

definition persisted :: "bool \<Rightarrow> PosixFile \<Rightarrow> MetaPage \<Rightarrow> bool" where
  "persisted v f m \<longleftrightarrow> (let i = unat (generation m mod 2); b = meta_copy f (1 - i) in
     meta_copy f i = m \<and> meta_valid v m \<and> (meta_valid v b \<longrightarrow> b = m \<or> generation b < generation m))"

lemma consider_meta_eq:
  "consider_meta v best c =
     (if \<not> meta_valid v c then best
      else case best of None \<Rightarrow> Some c | Some m \<Rightarrow> if generation m < generation c then Some c else best)"
  by (auto simp: consider_meta_def meta_valid_def meta_IsValid_def)

lemma mod2_cases: "unat (g mod (2 :: u64)) = 0 \<or> unat (g mod (2 :: u64)) = 1"
proof -
  have "unat (g mod 2) = unat g mod 2" by (simp add: unat_mod)
  then show ?thesis by auto
qed

lemma mod2_Suc: "unat ((g + 1) mod (2 :: u64)) = 1 - unat (g mod 2)"
proof -
  have g: "unat g < 18446744073709551616" using unsigned_less [of g] by simp
  have "unat (g + 1) = (unat g + 1) mod 2 ^ 64" by (simp add: unat_word_ariths)
  moreover have "(unat g + 1) mod 2 ^ 64 mod 2 = (unat g + 1) mod 2" by (rule mod_mod_cancel) simp
  ultimately have "unat ((g + 1) mod 2) = (unat g + 1) mod 2" by (simp add: unat_mod)
  moreover have "unat (g mod 2) = unat g mod 2" by (simp add: unat_mod)
  ultimately show ?thesis by presburger
qed

lemma persisted_select: "persisted v f m \<Longrightarrow> select_meta v f = Some m"
  using mod2_cases [of "generation m"]
  by (auto simp: persisted_def select_meta_def consider_meta_eq Let_def)

lemma read_metas_select:
  assumes "fd_open f" and "sys io = []" and "2 * kPageSize \<le> length (content f)"
  shows "read_metas f v [0 ..< unat kFirstDataPage] None io = (Inr (select_meta v f), io)"
proof -
  have u: "[0 ..< unat kFirstDataPage] = [0, 1]" by (simp add: kFirstDataPage_def upt_rec)
  have "Read f (i * kPageSize) kPageSize io = (Inr (file_page f i), io)" if "i = 0 \<or> i = 1" for i
    using that assms by (auto simp: Read_def next_sys_def file_page_def kPageSize_def)
  from this [of 0] this [of 1] show ?thesis unfolding u by (simp add: select_meta_def)
qed

lemma Pager_Open_existing:
  assumes "fd_open f" and "sys io = []" and "2 * kPageSize \<le> length (content f)"
  shows "Pager_Open c v (Some f) io =
    (case select_meta v f of
       None \<Rightarrow> (Inl kCorruption, Some f, io)
     | Some m \<Rightarrow> if length (content f) < unat (num_pages m) * kPageSize then (Inl kCorruption, Some f, io)
                 else (Inr \<lparr>pfile = f, meta = m, verify_checksums = v\<rparr>, Some f, io))"
proof -
  have f: "f\<lparr>fd_open := True\<rparr> = f" using assms(1) by simp
  have o: "File_Open c (Some f) io = (Inr f, io)" using assms by (simp add: File_Open_def next_sys_def f)
  have z: "Size f io = (Inr (length (content f)), io)" using assms by (simp add: Size_def next_sys_def)
  have "length (content f) \<noteq> 0" "\<not> length (content f) < unat kFirstDataPage * kPageSize"
    using assms(3) by (auto simp: kPageSize_def kFirstDataPage_def)
  then show ?thesis
    by (simp add: Pager_Open_def o z read_metas_select [OF assms] split: option.split)
qed

lemma pager_inv_room: "pager_inv p \<Longrightarrow> 2 * kPageSize \<le> length (content (pfile p))"
proof -
  assume inv: "pager_inv p"
  have "2 \<le> unat (num_pages (meta p))" using inv by (simp add: pager_inv_def kFirstDataPage_def word_le_nat_alt)
  then have "2 * kPageSize \<le> unat (num_pages (meta p)) * kPageSize" by (rule mult_le_mono1)
  then show ?thesis using inv unfolding pager_inv_def by linarith
qed

lemma PersistMeta_file:
  assumes inv: "pager_inv p" and l: "length (mreserved (meta p)) = 4048" and pm: "PersistMeta p io = (s, p', io')"
  defines "g \<equiv> generation (meta p) + 1"
  defines "i \<equiv> unat (g mod 2)"
  shows "pager_inv p'" and "file_page (pfile p') (1 - i) = file_page (pfile p) (1 - i)"
    and "s = kOk \<Longrightarrow> meta_copy (pfile p') i = meta p' \<and> mchecksum (meta p') = ComputeMetaChecksum (meta p') \<and>
           meta p' = (meta p)\<lparr>generation := g, mchecksum := mchecksum (meta p')\<rparr>"
    and "s \<noteq> kOk \<Longrightarrow> generation (meta p') = generation (meta p) \<and> num_pages (meta p') = num_pages (meta p)"
proof -
  let ?m0 = "(meta p)\<lparr>generation := g\<rparr>"
  let ?m = "?m0\<lparr>mchecksum := ComputeMetaChecksum ?m0\<rparr>"
  obtain r f io1 where w: "Write (pfile p) (i * kPageSize) (meta_bytes ?m) io = (r, f, io1)" by (metis prod_cases3)
  have e: "(s, p', io') = (case r of Inl e \<Rightarrow> (pager_error e, p\<lparr>pfile := f, meta := ?m\<lparr>generation := g - 1\<rparr>\<rparr>, io1)
      | Inr _ \<Rightarrow> (kOk, p\<lparr>pfile := f, meta := ?m\<rparr>, io1))"
    using pm w by (simp add: PersistMeta_def Let_def g_def i_def split: sum.splits)
  have len: "length (meta_bytes ?m) = kPageSize" using l by (intro length_meta_bytes) simp
  have i01: "i = 0 \<or> i = 1" unfolding i_def by (rule mod2_cases)
  then have ui: "unat (of_nat i :: PageId) = i" by auto
  have w': "Write (pfile p) (unat (of_nat i :: PageId) * kPageSize) (meta_bytes ?m) io = (r, f, io1)"
    unfolding ui by (rule w)
  have wp: "fd_open f" "length (content (pfile p)) \<le> length (content f)"
    "\<And>j. j \<noteq> i \<Longrightarrow> j * kPageSize + kPageSize \<le> length (content (pfile p)) \<Longrightarrow> file_page f j = file_page (pfile p) j"
    "r = Inr () \<Longrightarrow> file_page f i = meta_bytes ?m"
    using Write_page [OF inv w' len] unfolding ui by blast+
  have room: "2 * kPageSize \<le> length (content (pfile p))" by (rule pager_inv_room [OF inv])
  show "pager_inv p'" using e inv wp(1,2) by (cases r) (auto simp: pager_inv_def)
  have pf: "pfile p' = f" using e by (cases r) auto
  show "file_page (pfile p') (1 - i) = file_page (pfile p) (1 - i)"
    unfolding pf using i01 room by (intro wp(3)) auto
  have ok: "s = kOk \<longleftrightarrow> r = Inr ()" using e by (cases r) auto
  show "meta_copy (pfile p') i = meta p' \<and> mchecksum (meta p') = ComputeMetaChecksum (meta p') \<and>
           meta p' = (meta p)\<lparr>generation := g, mchecksum := mchecksum (meta p')\<rparr>" if "s = kOk"
    using that e wp(4) pf unfolding ok by auto
  show "generation (meta p') = generation (meta p) \<and> num_pages (meta p') = num_pages (meta p)" if "s \<noteq> kOk"
    using that e by (cases r) (auto simp: g_def)
qed

subsection \<open>Properties\<close>

text \<open>
  For every behaviour of the operating system, a successful \<^verbatim>\<open>WritePage\<close> makes \<^verbatim>\<open>ReadPage\<close>
  deliver the page written (with its checksum stamped), and neither a successful nor a failed write
  changes any other page; \<^verbatim>\<open>ReadPage\<close> never delivers a page whose checksum does not match, all-zero pages
  apart; ids of the meta pages and past the end are refused without touching the file.
\<close>

theorem page_write_read:
  assumes "pager_inv p" and "mem_ok pg" and "WritePage p pid pg io = (s, pg', p', io')"
  shows "pager_inv p' \<and>
    (s = kOk \<longrightarrow> pg' = stamp pg (ComputeChecksum pg) \<and>
       (\<forall>io1. sys io1 = [] \<longrightarrow> ReadPage p' pid io1 = (Inr pg', io1)) \<and>
       (\<forall>io1 r io2. ReadPage p' pid io1 = (Inr r, io2) \<longrightarrow> r = pg')) \<and>
    (\<forall>j. j < num_pages (meta p) \<longrightarrow> j \<noteq> pid \<longrightarrow> disk p' j = disk p j) \<and>
    (\<forall>j io1 r io2. ReadPage p j io1 = (Inr r, io2) \<longrightarrow> verify_checksums p \<longrightarrow> trusted r) \<and>
    (\<not> data_page p pid \<longrightarrow> s = kInvalidArgument \<and> p' = p)"
proof -
  note w = WritePage_cases [OF assms(1,3)]
  have rd: "page_of_bytes (disk p' pid) = pg'" "data_page p' pid" "trusted pg'" if "s = kOk"
    using w(2,5) that assms(2) page_of_bytes_RawData [of pg'] by (auto simp: data_page_def)
  have "ReadPage p' pid io1 = (Inr pg', io1)" if "s = kOk" "sys io1 = []" for io1
    using ReadPage_total [OF w(1) rd(2) [OF that(1)] that(2)] rd [OF that(1)] by simp
  moreover have "r = pg'" if "s = kOk" "ReadPage p' pid io1 = (Inr r, io2)" for io1 r io2
    using ReadPage_Inr(2) [OF that(2)] rd(1) [OF that(1)] by simp
  ultimately show ?thesis using w(1,4,5,7) ReadPage_Inr(3) by blast
qed

lemma small_pager:
  "pager_inv \<lparr>pfile = \<lparr>fd_open = True, content = replicate 12288 0, synced = []\<rparr>, meta = Meta_Init\<lparr>num_pages := 3\<rparr>,
     verify_checksums = True\<rparr>"
  by (simp add: pager_inv_def Meta_Init_def kFirstDataPage_def kPageSize_def)

abbreviation calm :: Io where
  "calm \<equiv> \<lparr>fail_after = kFaultDisarmed, total_syncs = 0, sys = []\<rparr>"

theorem page_write_read_witness:
  "let p = \<lparr>pfile = \<lparr>fd_open = True, content = replicate 12288 0, synced = []\<rparr>, meta = Meta_Init\<lparr>num_pages := 3\<rparr>,
             verify_checksums = True\<rparr>;
       pg = Page_Init 2 kLeaf
   in fst (ReadPage (fst (snd (snd (WritePage p 2 pg calm)))) 2 calm) = Inr (stamp pg (ComputeChecksum pg)) \<and>
      fst (WritePage p 1 pg calm) = kInvalidArgument"
proof -
  define p where "p = \<lparr>pfile = \<lparr>fd_open = True, content = replicate 12288 0, synced = []\<rparr>, meta = Meta_Init\<lparr>num_pages := 3\<rparr>,
     verify_checksums = True\<rparr>"
  let ?pg = "Page_Init 2 kLeaf"
  have inv: "pager_inv p" unfolding p_def by (rule small_pager)
  have mo: "mem_ok ?pg" by (simp add: mem_ok_def Page_Init_def)
  obtain s pg' p' io' where w: "WritePage p 2 ?pg calm = (s, pg', p', io')" by (metis prod_cases4)
  obtain s1 pg1 p1 io1 where w1: "WritePage p 1 ?pg calm = (s1, pg1, p1, io1)" by (metis prod_cases4)
  have "s = kOk"
    using w by (auto simp: p_def WritePage_def kFirstDataPage_def Meta_Init_def Write_def take_credit_def next_sys_def
        do_pwrite_def Let_def)
  moreover have "\<not> data_page p 1" by (simp add: data_page_def kFirstDataPage_def word_le_nat_alt)
  ultimately show ?thesis
    using page_write_read [OF inv mo w] page_write_read [OF inv mo w1] w w1 by (simp add: p_def [symmetric])
qed

text \<open>
  C27: the free list on disk refines a stack of page ids. A successful \<^verbatim>\<open>FreePage\<close> pushes the
  page; a successful \<^verbatim>\<open>AllocatePage\<close> pops the most recently freed page, or extends the file by one page when the
  stack is empty, and the page it returns is all zero on disk; pages other than the one freed or
  allocated keep their bytes; a failing allocation leaves the meta data as it was.
\<close>

theorem free_list_refines_stack:
  assumes "pager_inv p" and "flist p (free_list_head (meta p)) ids"
    and "pid \<notin> set ids" and "pid \<noteq> kInvalidPageId" and "FreePage p pid io = (s, p1, io1)"
    and "unat (num_pages (meta p)) + 1 < 2 ^ 32" and "AllocatePage p io = (r, p2, io2)"
  shows "(s = kOk \<longrightarrow> flist p1 (free_list_head (meta p1)) (pid # ids)) \<and>
    (s \<noteq> kOk \<longrightarrow> flist p1 (free_list_head (meta p1)) ids) \<and>
    (\<forall>j. j < num_pages (meta p) \<longrightarrow> j \<noteq> pid \<longrightarrow> disk p1 j = disk p j) \<and>
    (\<forall>x. r = Inr x \<longrightarrow> disk p2 x = replicate kPageSize 0 \<and>
       x = (case ids of [] \<Rightarrow> num_pages (meta p) | y # _ \<Rightarrow> y) \<and>
       flist p2 (free_list_head (meta p2)) (tl ids) \<and>
       (\<forall>j. j < num_pages (meta p) \<longrightarrow> j \<noteq> x \<longrightarrow> disk p2 j = disk p j)) \<and>
    ((\<exists>e. r = Inl e) \<longrightarrow> meta p2 = meta p)"
proof -
  note f = FreePage_ok [OF assms(1-5)] and a = AllocatePage_ok [OF assms(1,2,6,7)]
  have "x = (case ids of [] \<Rightarrow> num_pages (meta p) | y # _ \<Rightarrow> y)" if "r = Inr x" for x
    using a(3) [OF that] by (auto split: list.splits)
  then show ?thesis using f(2-4) a(2,3) by blast
qed

theorem free_list_refines_stack_witness:
  "let p = \<lparr>pfile = \<lparr>fd_open = True, content = replicate 12288 0, synced = []\<rparr>, meta = Meta_Init\<lparr>num_pages := 3\<rparr>,
             verify_checksums = True\<rparr>
   in flist (fst (snd (FreePage p 2 calm))) 2 [2] \<and> fst (AllocatePage p calm) = Inr 3"
proof -
  define p where "p = \<lparr>pfile = \<lparr>fd_open = True, content = replicate 12288 0, synced = []\<rparr>, meta = Meta_Init\<lparr>num_pages := 3\<rparr>,
     verify_checksums = True\<rparr>"
  have inv: "pager_inv p" unfolding p_def by (rule small_pager)
  have fl: "flist p (free_list_head (meta p)) []" by (simp add: p_def Meta_Init_def)
  obtain s p1 io1 where f: "FreePage p 2 calm = (s, p1, io1)" by (metis prod_cases3)
  obtain r p2 io2 where a: "AllocatePage p calm = (r, p2, io2)" by (metis prod_cases3)
  have s: "s = kOk" "free_list_head (meta p1) = 2"
    using f by (auto simp: p_def FreePage_def WritePage_def kFirstDataPage_def Meta_Init_def Write_def take_credit_def
        next_sys_def do_pwrite_def Let_def)
  have "\<exists>x. r = Inr x"
    using a by (auto simp: p_def AllocatePage_def kFirstDataPage_def Meta_Init_def Write_def take_credit_def
        next_sys_def do_pwrite_def Let_def)
  then obtain x where "r = Inr x" by auto
  then show ?thesis
    using free_list_refines_stack [OF inv fl _ _ f _ a] s f a
    by (simp add: p_def [symmetric] kInvalidPageId_def) (simp add: p_def Meta_Init_def)
qed

lemma pwrite_prefix_mix:
  assumes "a + n \<le> length c" and "length buf = n"
  shows "\<exists>k. take n (drop a (pwrite c a (take j buf))) = take k buf @ drop k (take n (drop a c))"
proof (intro exI nth_equalityI)
  have l: "a + n \<le> length (pwrite c a (take j buf))" using assms by (auto simp: length_pwrite)
  then have "length (take n (drop a (pwrite c a (take j buf)))) = n" by simp
  then show "length (take n (drop a (pwrite c a (take j buf)))) = length (take j buf @ drop j (take n (drop a c)))" using assms by auto
  fix i assume "i < length (take n (drop a (pwrite c a (take j buf))))"
  then have i: "i < n" by simp
  have "pwrite c a (take j buf) ! (a + i) = (if i < j then buf ! i else c ! (a + i))"
    using l i assms by (subst nth_pwrite) auto
  then show "take n (drop a (pwrite c a (take j buf))) ! i = (take j buf @ drop j (take n (drop a c))) ! i"
    using i l assms by (auto simp: nth_append)
qed

text \<open>The meta data that \<^verbatim>\<open>PersistMeta\<close> writes.\<close>

definition next_meta :: "MetaPage \<Rightarrow> MetaPage" where
  "next_meta m = (let m = m\<lparr>generation := generation m + 1\<rparr> in m\<lparr>mchecksum := ComputeMetaChecksum m\<rparr>)"

lemma next_meta_sel [simp]:
  "generation (next_meta m) = generation m + 1" "num_pages (next_meta m) = num_pages m" "mreserved (next_meta m) = mreserved m"
  "meta_IsValid (next_meta m) = meta_IsValid m" "mchecksum (next_meta m) = ComputeMetaChecksum (next_meta m)"
  by (simp_all add: next_meta_def Let_def meta_IsValid_def)

lemma PersistMeta_prefix:
  assumes inv: "pager_inv p" and l: "length (mreserved (meta p)) = 4048" and pm: "PersistMeta p io = (s, p', io')"
  defines "i \<equiv> unat ((generation (meta p) + 1) mod 2)"
  shows "\<exists>k. file_page (pfile p') i = take k (meta_bytes (next_meta (meta p))) @ drop k (file_page (pfile p) i)"
    and "s = kOk \<Longrightarrow> meta p' = next_meta (meta p) \<and> file_page (pfile p') i = meta_bytes (next_meta (meta p))"
proof -
  let ?b = "meta_bytes (next_meta (meta p))"
  obtain r f io1 where w: "Write (pfile p) (i * kPageSize) ?b io = (r, f, io1)" by (metis prod_cases3)
  have e: "pfile p' = f" "s = kOk \<Longrightarrow> r = Inr () \<and> meta p' = next_meta (meta p)"
    using pm w by (auto simp: PersistMeta_def Let_def i_def next_meta_def split: sum.splits)
  have len: "length ?b = kPageSize" using l by (intro length_meta_bytes) simp
  have "i = 0 \<or> i = 1" unfolding i_def by (rule mod2_cases)
  then have room: "i * kPageSize + kPageSize \<le> length (content (pfile p))" using pager_inv_room [OF inv] by auto
  have o: "fd_open (pfile p)" using inv by (simp add: pager_inv_def)
  obtain j where "content f = pwrite (content (pfile p)) (i * kPageSize) (take j ?b)" using Write_cases(4) [OF w o] by blast
  then show "\<exists>k. file_page (pfile p') i = take k ?b @ drop k (file_page (pfile p) i)"
    using pwrite_prefix_mix [OF room len, of j] by (simp add: file_page_def e(1))
  show "meta p' = next_meta (meta p) \<and> file_page (pfile p') i = ?b" if "s = kOk"
    using e that Write_cases(3) [OF w o] pwrite_read_same [of ?b] len by (simp add: file_page_def)
qed

text \<open>
  C18: the dual meta pages survive a torn meta write. Let copy \<open>generation mod 2\<close> hold the last persisted meta data \<open>m\<close>. Whatever
  the operating system does, \<^verbatim>\<open>PersistMeta\<close> leaves in the other copy some prefix of the new meta data, from nothing to all of
  it, before the rest of what was there; all of it when it reports Ok. The file then opens with the new meta data if that copy is complete, and
  otherwise with \<open>m\<close>, so that after a failure at any byte the handle, whose generation is the old one again, can
  retry; the one assumption is that a copy that is neither the old nor the new one does not pass the checks of
  \<^verbatim>\<open>Open\<close> by accident.
\<close>

theorem PersistMeta_survives_torn_write:
  assumes "pager_inv p" and "meta_IsValid (meta p)" and "length (mreserved (meta p)) = 4048"
    and "persisted v (pfile p) m" and "generation (meta p) = generation m" and "num_pages m \<le> num_pages (meta p)"
    and "unat (generation m) + 1 < 2 ^ 64" and "PersistMeta p io = (s, p', io')" and "sys io1 = []"
  defines "i \<equiv> unat ((generation m + 1) mod 2)" and "new \<equiv> next_meta (meta p)"
  defines "copy \<equiv> file_page (pfile p') i"
  defines "found \<equiv> if copy = meta_bytes new then new else m"
  shows "(\<exists>k. copy = take k (meta_bytes new) @ drop k (file_page (pfile p) i)) \<and>
    (s = kOk \<longrightarrow> copy = meta_bytes new \<and> meta p' = new) \<and> (s \<noteq> kOk \<longrightarrow> generation (meta p') = generation m) \<and>
    (copy = file_page (pfile p) i \<or> copy = meta_bytes new \<or> \<not> meta_valid v (meta_of_bytes copy) \<longrightarrow>
       persisted v (pfile p') found \<and>
       fst (Pager_Open c v (Some (pfile p')) io1) = Inr \<lparr>pfile = pfile p', meta = found, verify_checksums = v\<rparr>)"
proof -
  note f = PersistMeta_file [OF assms(1,3,8)] and g = PersistMeta_prefix [OF assms(1,3,8)]
  have par: "1 - i = unat (generation m mod 2)" "i = 1 - unat (generation m mod 2)"
    using mod2_Suc [of "generation m"] mod2_cases [of "generation m"] by (auto simp: i_def)
  then have i1: "1 - (1 - i) = i" using mod2_cases [of "generation m"] by auto
  have old: "meta_copy (pfile p') (1 - i) = m" "meta_valid v m"
    "meta_valid v (meta_copy (pfile p) i) \<Longrightarrow> meta_copy (pfile p) i = m \<or> generation (meta_copy (pfile p) i) < generation m"
    using assms(4) f(2) unfolding persisted_def Let_def assms(5) par(1) [symmetric] i1 i_def [symmetric] by auto
  have "generation m < generation m + 1" using assms(7) unat_add_less [of "generation m" 1] by (simp add: word_less_nat_alt)
  moreover have "meta_valid v new" using assms(2) by (simp add: meta_valid_def new_def)
  ultimately have pn: "persisted v (pfile p') new" if "copy = meta_bytes new"
    using that old(1) par assms(5) by (simp add: persisted_def Let_def new_def copy_def i_def [symmetric])
  have pm: "persisted v (pfile p') m" if "copy = file_page (pfile p) i \<or> \<not> meta_valid v (meta_of_bytes copy)"
    using that old par by (auto simp: persisted_def Let_def copy_def)
  have room: "2 * kPageSize \<le> length (content (pfile p'))" by (rule pager_inv_room [OF f(1)])
  have "num_pages (meta p') = num_pages (meta p)" using f(4) g(2) by (cases "s = kOk") auto
  then have "unat (num_pages (meta p)) * kPageSize \<le> length (content (pfile p'))" using f(1) by (simp add: pager_inv_def)
  moreover have "unat (num_pages found) * kPageSize \<le> unat (num_pages (meta p)) * kPageSize"
    using assms(6) by (intro mult_le_mono1) (simp add: word_le_nat_alt found_def new_def)
  ultimately have np: "unat (num_pages found) * kPageSize \<le> length (content (pfile p'))" by (rule le_trans [rotated])
  have opens: "fst (Pager_Open c v (Some (pfile p')) io1) = Inr \<lparr>pfile = pfile p', meta = found, verify_checksums = v\<rparr>"
    if "persisted v (pfile p') found"
    using Pager_Open_existing [OF _ assms(9) room, of c v] persisted_select [OF that] np f(1) by (simp add: pager_inv_def)
  have "persisted v (pfile p') found"
    if "copy = file_page (pfile p) i \<or> copy = meta_bytes new \<or> \<not> meta_valid v (meta_of_bytes copy)"
    using that pn pm by (auto simp: found_def)
  then show ?thesis using g f(4) opens unfolding assms(5) by (auto simp: copy_def i_def new_def)
qed

text \<open>
  A write that changes nothing on disk, one torn after the magic number, one torn after the last byte that differs, and a complete
  one: the first two leave the old meta data, the other two the new.
\<close>

theorem PersistMeta_survives_torn_write_witness:
  "let m = Meta_Init\<lparr>mchecksum := ComputeMetaChecksum Meta_Init\<rparr>;
       p = \<lparr>pfile = \<lparr>fd_open = True, content = meta_bytes m @ replicate kPageSize 0, synced = []\<rparr>,
         meta = m\<lparr>root_page_id := 2\<rparr>, verify_checksums = True\<rparr>;
       saved = (\<lambda>o1. PersistMeta p (calm\<lparr>sys := [o1]\<rparr>));
       reopened = (\<lambda>o1. map_sum id meta (fst (Pager_Open False True (Some (pfile (fst (snd (saved o1))))) calm)))
   in fst (saved Errno) \<noteq> kOk \<and> reopened Errno = Inr m \<and> fst (saved (Partial 4)) \<noteq> kOk \<and> reopened (Partial 4) = Inr m \<and>
      fst (saved (Partial 2048)) \<noteq> kOk \<and> reopened (Partial 2048) = Inr (next_meta (meta p)) \<and>
      fst (saved Done) = kOk \<and> reopened Done = Inr (next_meta (meta p))"
proof -
  define m where "m = Meta_Init\<lparr>mchecksum := ComputeMetaChecksum Meta_Init\<rparr>"
  define p where "p = \<lparr>pfile = \<lparr>fd_open = True, content = meta_bytes m @ replicate kPageSize 0, synced = []\<rparr>,
    meta = m\<lparr>root_page_id := 2\<rparr>, verify_checksums = True\<rparr>"
  have l: "length (mreserved m) = 4048" "length (meta_bytes m) = kPageSize"
    by (simp_all add: m_def Meta_Init_def length_meta_bytes)
  have g: "generation m = 0" "num_pages m = 2" "meta_IsValid m" "num_pages (meta p) = 2" "generation (meta p) = 0" "meta_IsValid (meta p)"
    "length (mreserved (meta p)) = 4048"
    by (simp_all add: m_def p_def Meta_Init_def meta_IsValid_def)
  have inv: "pager_inv p" using l(2) by (simp add: p_def pager_inv_def kFirstDataPage_def m_def Meta_Init_def)
  have c: "file_page (pfile p) 0 = meta_bytes m" "file_page (pfile p) 1 = replicate kPageSize 0"
    using l(2) by (simp_all add: p_def file_page_def)
  have z: "\<not> meta_valid v (meta_of_bytes (take k bs @ replicate n 0))" if "k = 0 \<or> k = 4" "8 \<le> n" "4 \<le> length bs" for v k n and bs :: bytes
  proof -
    have "take 4 (drop 4 (take k bs @ replicate n 0)) = replicate 4 0" using that by auto
    then have "version (meta_of_bytes (take k bs @ replicate n 0)) = 0" by (simp add: meta_of_bytes_def Let_def numeral_eq_Suc)
    then show ?thesis by (simp add: meta_valid_def meta_IsValid_def kFormatVersion_def)
  qed
  have per: "persisted True (pfile p) m"
  proof -
    have "meta_valid True m" using g(3) by (simp add: meta_valid_def m_def)
    moreover have "\<not> meta_valid True (meta_of_bytes (replicate kPageSize 0))" using z [of 0 kPageSize "replicate 4 0"] by (simp add: kPageSize_def)
    ultimately show ?thesis using c g(1) by (simp add: persisted_def Let_def)
  qed
  define new where "new = next_meta (meta p)"
  have n: "length (meta_bytes new) = kPageSize" "drop 2048 (meta_bytes new) = replicate 2048 0"
    by (simp_all add: new_def length_meta_bytes g(7)) (simp add: meta_bytes_def p_def m_def Meta_Init_def)
  let ?io = "\<lambda>o1. calm\<lparr>sys := [o1]\<rparr>"
  let ?s = "\<lambda>o1. fst (PersistMeta p (?io o1))" and ?p = "\<lambda>o1. fst (snd (PersistMeta p (?io o1)))"
  have w: "?s o1 = (if o1 = Done then kOk else kIoError)"
     "pfile (?p o1) = (case transferred o1 kPageSize of None \<Rightarrow> pfile p | Some k \<Rightarrow> (pfile p)\<lparr>content := pwrite (content (pfile p)) kPageSize (take k (meta_bytes new))\<rparr>)"
    if "o1 \<in> {Errno, Partial 4, Partial 2048, Done}" for o1
    using that g(5) n(1) by (auto simp: PersistMeta_def Let_def new_def next_meta_def Write_def take_credit_def next_sys_def do_pwrite_def p_def kPageSize_def)
  have f: "file_page (pfile (?p o1)) 1 = (case transferred o1 kPageSize of None \<Rightarrow> replicate kPageSize 0
      | Some k \<Rightarrow> take k (meta_bytes new) @ replicate (kPageSize - k) 0)" if "o1 \<in> {Errno, Partial 4, Partial 2048, Done}" for o1
    using w(2) [OF that] that l(2) n(1) by (auto simp: file_page_def p_def pwrite_def kPageSize_def)
  have "take 2048 (meta_bytes new) @ replicate 2048 0 = meta_bytes new" unfolding n(2) [symmetric] by simp
  then have e: "file_page (pfile (?p Errno)) 1 = file_page (pfile p) 1" "\<not> meta_valid True (meta_of_bytes (file_page (pfile (?p (Partial 4))) 1))"
    "file_page (pfile (?p (Partial 2048))) 1 = meta_bytes new" "file_page (pfile (?p Done)) 1 = meta_bytes new"
    using f z [of 4 4092 "meta_bytes new" True] n(1) c(2) by (simp_all add: kPageSize_def)
  have nv: "meta_valid True new" using g(6) by (simp add: meta_valid_def new_def)
  then have d: "meta_bytes new \<noteq> file_page (pfile p) 1" "file_page (pfile (?p (Partial 4))) 1 \<noteq> meta_bytes new"
    using c(2) z [of 0 kPageSize "replicate 4 0" True] e(2) by (auto simp: kPageSize_def dest: arg_cong [of _ _ meta_of_bytes])
  have T: "file_page (pfile (?p o1)) 1 = file_page (pfile p) 1 \<or> file_page (pfile (?p o1)) 1 = meta_bytes new \<or>
      \<not> meta_valid True (meta_of_bytes (file_page (pfile (?p o1)) 1)) \<Longrightarrow>
    map_sum id meta (fst (Pager_Open False True (Some (pfile (?p o1))) calm)) = Inr (if file_page (pfile (?p o1)) 1 = meta_bytes new then new else m)" for o1
    using PersistMeta_survives_torn_write [OF inv g(6,7) per, of "?io o1" "?s o1" "?p o1" "snd (snd (PersistMeta p (?io o1)))" calm False]
    by (simp add: g new_def [symmetric])
  show ?thesis unfolding Let_def m_def [symmetric] p_def [symmetric] new_def [symmetric]
    using T [of Errno] T [of "Partial 4"] T [of "Partial 2048"] T [of Done] e d w(1) by simp
qed

text \<open>
  The creation of a database is not atomic. If the write of the second meta copy fails
  (or the process dies before it), the file left behind has one page, and every later
  attempt to open it, even with \<^verbatim>\<open>create_if_missing\<close>, reports corruption.
\<close>

theorem failed_creation_is_not_reopened:
  "let io = calm\<lparr>sys := [Done, Done, Done, Errno]\<rparr>;
       f = fst (snd (Pager_Open True v None io))
   in fst (Pager_Open True v None io) = Inl kIoError \<and> fst (Pager_Open c v f calm) = Inl kCorruption"
proof -
  define m where "m = Meta_Init\<lparr>mchecksum := ComputeMetaChecksum Meta_Init\<rparr>"
  have l: "length (meta_bytes m) = kPageSize" by (simp add: m_def Meta_Init_def length_meta_bytes)
  then have l': "meta_bytes m \<noteq> []" by (auto simp: kPageSize_def)
  have u: "[0 ..< unat kFirstDataPage] = [0, 1]" by (simp add: kFirstDataPage_def upt_rec)
  let ?f = "\<lparr>fd_open = True, content = meta_bytes m, synced = []\<rparr>"
  let ?io = "calm\<lparr>sys := [Done, Done, Done, Errno]\<rparr>"
  have "fst (Pager_Open True v None ?io) = Inl kIoError \<and> fst (snd (Pager_Open True v None ?io)) = Some ?f"
    using l' by (simp add: Pager_Open_def File_Open_def Size_def next_sys_def Let_def m_def [symmetric] u Write_def take_credit_def
        do_pwrite_def pwrite_def)
  moreover have "fst (Pager_Open c v (Some ?f) calm) = Inl kCorruption"
    using l by (simp add: Pager_Open_def File_Open_def Size_def next_sys_def kPageSize_def kFirstDataPage_def)
  ultimately show ?thesis by simp
qed

end
