(* ===== verification/Wal.thy ===== *)
theory Wal
  imports Page Posix_File
begin

section \<open>The write-ahead log (log_record, log_writer, log_reader)\<close>

text \<open>
  Log records, their on-disk encoding with its CRC, the buffered writer and the scanning
  reader. The theorems: encoding and parsing are inverse; a record cut anywhere does not
  parse; the file the writer maintains is, whatever writes were torn, a prefix
  of the serialised log, from which the reader recovers exactly the records it
  holds in full, and after a successful flush all of them; LSNs are byte offsets and never repeat.

  The internal mutex makes each operation atomic, so the operations are functions on the
  writer's state.
\<close>

subsection \<open>Records\<close>

datatype LogRecordType =
    kPut | kDelete | kAllocPage | kFreePage | kRootChange | kCheckpoint | kPageImage | kBegin | kCommit | kAbort

fun type_code :: "LogRecordType \<Rightarrow> byte" where
  "type_code kPut = 1"
| "type_code kDelete = 2"
| "type_code kAllocPage = 3"
| "type_code kFreePage = 4"
| "type_code kRootChange = 5"
| "type_code kCheckpoint = 6"
| "type_code kPageImage = 7"
| "type_code kBegin = 8"
| "type_code kCommit = 9"
| "type_code kAbort = 10"

text \<open>The range check on the raw type byte and the cast to the enumeration.\<close>

definition type_of_code :: "byte \<Rightarrow> LogRecordType option" where
  "type_of_code c =
     (if c < type_code kPut \<or> type_code kAbort < c then None
      else Some ([kPut, kDelete, kAllocPage, kFreePage, kRootChange, kCheckpoint, kPageImage, kBegin, kCommit, kAbort]
                 ! (unat c - 1)))"

definition kRecHeaderSize :: nat where "kRecHeaderSize = 8 + 8 + 1 + 4 + 2 + 2 + 2"
definition kCrcSize :: nat where "kCrcSize = 4"
definition kBeforeAbsent :: u16 where "kBeforeAbsent = 0xFFFF"
definition kOpEndBit :: byte where "kOpEndBit = 0x80"

lemmas rec_consts = kRecHeaderSize_def kCrcSize_def kBeforeAbsent_def kOpEndBit_def

record LogRecord =
  lsn :: Lsn
  txid :: TxId
  rtype :: LogRecordType
  rpage :: PageId
  op_end :: bool
  rkey :: bytes
  rvalue :: bytes
  before :: "bytes option"

text \<open>The default-initialised record of the source.\<close>

definition LogRecord_init :: LogRecord where
  "LogRecord_init = \<lparr>lsn = kInvalidLsn, txid = 0, rtype = kPut, rpage = kInvalidPageId, op_end = False,
     rkey = [], rvalue = [], before = None\<rparr>"

definition SerializedSize :: "LogRecord \<Rightarrow> nat" where
  "SerializedSize r =
     (let before_bytes = (case before r of None \<Rightarrow> 0 | Some b \<Rightarrow> length b)
      in kRecHeaderSize + length (rkey r) + length (rvalue r) + before_bytes + kCrcSize)"

definition AppendTo :: "LogRecord \<Rightarrow> bytes \<Rightarrow> bytes" where
  "AppendTo r out =
     (let body = PutLE 8 (lsn r) @ PutLE 8 (txid r) @ [type_code (rtype r) OR (if op_end r then kOpEndBit else 0)] @
            PutLE 4 (rpage r) @ PutLE 2 (of_nat (length (rkey r)) :: u16) @ PutLE 2 (of_nat (length (rvalue r)) :: u16) @
            PutLE 2 (case before r of None \<Rightarrow> kBeforeAbsent | Some b \<Rightarrow> of_nat (length b)) @
            rkey r @ rvalue r @ (case before r of None \<Rightarrow> [] | Some b \<Rightarrow> b)
      in out @ body @ PutLE 4 (Crc32 body))"

definition Parse :: "bytes \<Rightarrow> (LogRecord \<times> nat) option" where
  "Parse buffer =
     (if length buffer < kRecHeaderSize + kCrcSize then None
      else
        let p = (\<lambda>off n. take n (drop off buffer));
            raw_type_byte = buffer ! 16;
            raw_type = raw_type_byte AND NOT kOpEndBit;
            key_len = GetLE (p 21 2) :: u16;
            val_len = GetLE (p 23 2) :: u16;
            before_len = GetLE (p 25 2) :: u16
        in case type_of_code raw_type of
             None \<Rightarrow> None
           | Some t \<Rightarrow>
               let before_bytes = (if before_len = kBeforeAbsent then 0 else unat before_len);
                   total = kRecHeaderSize + unat key_len + unat val_len + before_bytes + kCrcSize
               in if length buffer < total then None
                  else if Crc32 (p 0 (total - kCrcSize)) \<noteq> GetLE (p (total - kCrcSize) 4) then None
                  else Some (\<lparr>lsn = GetLE (p 0 8), txid = GetLE (p 8 8), rtype = t, rpage = GetLE (p 17 4),
                        op_end = (raw_type_byte AND kOpEndBit \<noteq> 0),
                        rkey = p kRecHeaderSize (unat key_len),
                        rvalue = p (kRecHeaderSize + unat key_len) (unat val_len),
                        before = (if before_len \<noteq> kBeforeAbsent
                                  then Some (p (kRecHeaderSize + unat key_len + unat val_len) (unat before_len))
                                  else None)\<rparr>, total))"

lemma Parse_consumed:
  assumes "Parse buf = Some (r, n)"
  shows "31 \<le> n" and "n \<le> length buf"
  using assms by (auto simp: Parse_def Let_def rec_consts split: if_splits option.splits)

subsection \<open>The reader\<close>

function read_loop :: "bytes \<Rightarrow> nat \<Rightarrow> Lsn \<Rightarrow> LogRecord list" where
  "read_loop bs offset expected_lsn =
     (if offset < length bs then
        case Parse (drop offset bs) of
          None \<Rightarrow> []
        | Some (record, consumed) \<Rightarrow>
            if expected_lsn \<noteq> kInvalidLsn \<and> lsn record \<noteq> expected_lsn then []
            else record # read_loop bs (offset + consumed) (lsn record + of_nat consumed)
      else [])"
  by pat_completeness auto
termination
  by (relation "measure (\<lambda>(bs, offset, e). length bs - offset)") (auto dest!: Parse_consumed(1))

declare read_loop.simps [simp del]

text \<open>\<open>dir\<close> is the log file the directory has, if any.\<close>

definition ReadAll :: "PosixFile option \<Rightarrow> Io \<Rightarrow> LogRecord list Result \<times> Io" where
  "ReadAll dir io =
     (if dir = None then (Inr [], io)
      else case File_Open False dir io of
        (Inl _, io) \<Rightarrow> (Inl kIoError, io)
      | (Inr f, io) \<Rightarrow>
          (case Size f io of
             (Inl _, io) \<Rightarrow> (Inl kIoError, io)
           | (Inr n, io) \<Rightarrow>
               if n = 0 then (Inr (read_loop [] 0 kInvalidLsn), io)
               else case Read f 0 n io of
                 (Inl _, io) \<Rightarrow> (Inl kIoError, io)
               | (Inr bs, io) \<Rightarrow> (Inr (read_loop bs 0 kInvalidLsn), io)))"

subsection \<open>The writer\<close>

record LogWriter =
  wfile :: PosixFile
  buffer :: bytes
  base_lsn :: Lsn
  end_lsn :: Lsn
  flushed_lsn :: Lsn
  file_bytes :: nat
  imaged :: "PageId set"

fun FileErrorToStatus :: "FileErrorKind \<Rightarrow> Status" where
  "FileErrorToStatus NotFound = kNotFound"
| "FileErrorToStatus IoError = kIoError"
| "FileErrorToStatus InternalError = kInternal"
| "FileErrorToStatus Busy = kInternal"

text \<open>\<open>dir\<close> is the file under the path; the second component of the result is that file afterwards, which exists once it was opened.\<close>

definition LogWriter_Open :: "PosixFile option \<Rightarrow> Lsn \<Rightarrow> Io \<Rightarrow> LogWriter Result \<times> PosixFile option \<times> Io" where
  "LogWriter_Open dir base io =
     (case File_Open True dir io of
        (Inl e, io) \<Rightarrow> (Inl (FileErrorToStatus e), dir, io)
      | (Inr f, io) \<Rightarrow>
          (case Size f io of
             (Inl e, io) \<Rightarrow> (Inl (FileErrorToStatus e), Some f, io)
           | (Inr n, io) \<Rightarrow>
               (Inr \<lparr>wfile = f, buffer = [], base_lsn = base, end_lsn = base + of_nat n,
                      flushed_lsn = base + of_nat n, file_bytes = n, imaged = {}\<rparr>, Some f, io)))"

definition BufferRecordLocked :: "LogWriter \<Rightarrow> LogRecord \<Rightarrow> LogWriter" where
  "BufferRecordLocked w r =
     w\<lparr>buffer := AppendTo r (buffer w), end_lsn := end_lsn w + of_nat (SerializedSize r)\<rparr>"

definition Append :: "LogWriter \<Rightarrow> LogRecord \<Rightarrow> Lsn \<times> LogWriter" where
  "Append w r = (let r = r\<lparr>lsn := end_lsn w\<rparr> in (lsn r, BufferRecordLocked w r))"

definition AppendPageImage :: "LogWriter \<Rightarrow> PageId \<Rightarrow> Page \<Rightarrow> TxId \<Rightarrow> bool \<Rightarrow> Lsn \<times> Page \<times> LogWriter" where
  "AppendPageImage w pid page tx oe =
     (let l = end_lsn w;
          page = page\<lparr>hdr := (hdr page)\<lparr>page_lsn := l\<rparr>\<rparr>;
          r = LogRecord_init\<lparr>lsn := l, txid := tx, rtype := kPageImage, rpage := pid, op_end := oe,
                rvalue := RawData page\<rparr>;
          w = BufferRecordLocked w r
      in (l, page, w\<lparr>imaged := insert pid (imaged w)\<rparr>))"

definition FlushLocked :: "LogWriter \<Rightarrow> Io \<Rightarrow> Status \<times> LogWriter \<times> Io" where
  "FlushLocked w io =
     (if buffer w = [] \<and> flushed_lsn w = end_lsn w then (kOk, w, io)
      else
        case (if buffer w \<noteq> [] then
                case Write (wfile w) (file_bytes w) (buffer w) io of
                  (Inl e, f, io) \<Rightarrow> (FileErrorToStatus e, w\<lparr>wfile := f\<rparr>, io)
                | (Inr _, f, io) \<Rightarrow>
                    (kOk, w\<lparr>wfile := f, file_bytes := file_bytes w + length (buffer w), buffer := []\<rparr>, io)
              else (kOk, w, io)) of
          (s, w, io) \<Rightarrow>
            if s \<noteq> kOk then (s, w, io)
            else case Sync (wfile w) io of
              (Inl e, f, io) \<Rightarrow> (FileErrorToStatus e, w\<lparr>wfile := f\<rparr>, io)
            | (Inr _, f, io) \<Rightarrow> (kOk, w\<lparr>wfile := f, flushed_lsn := end_lsn w\<rparr>, io))"

definition Flush :: "LogWriter \<Rightarrow> Io \<Rightarrow> Status \<times> LogWriter \<times> Io" where
  "Flush w io = FlushLocked w io"

definition FlushTo :: "LogWriter \<Rightarrow> Lsn \<Rightarrow> Io \<Rightarrow> Status \<times> LogWriter \<times> Io" where
  "FlushTo w l io =
     (if l = kInvalidLsn \<or> l < flushed_lsn w \<or> (flushed_lsn w = l \<and> l = end_lsn w) then (kOk, w, io)
      else if end_lsn w \<le> flushed_lsn w then (kOk, w, io)
      else FlushLocked w io)"

definition Wal_Truncate :: "LogWriter \<Rightarrow> Lsn \<Rightarrow> Io \<Rightarrow> Status \<times> LogWriter \<times> Io" where
  "Wal_Truncate w new_base io =
     (case Truncate (wfile w) 0 io of
        (Inl e, f, io) \<Rightarrow> (FileErrorToStatus e, w\<lparr>wfile := f\<rparr>, io)
      | (Inr _, f, io) \<Rightarrow>
          (case Sync f io of
             (Inl e, f, io) \<Rightarrow> (FileErrorToStatus e, w\<lparr>wfile := f\<rparr>, io)
           | (Inr _, f, io) \<Rightarrow>
               (kOk, \<lparr>wfile = f, buffer = [], base_lsn = new_base, end_lsn = new_base, flushed_lsn = new_base,
                      file_bytes = 0, imaged = {}\<rparr>, io)))"

definition SizeBytes :: "LogWriter \<Rightarrow> u64" where
  "SizeBytes w = end_lsn w - base_lsn w"

definition NeedsImage :: "LogWriter \<Rightarrow> PageId \<Rightarrow> bool" where
  "NeedsImage w pid \<longleftrightarrow> pid \<notin> imaged w"

subsection \<open>Encoding and parsing\<close>

text \<open>The lengths the 16-bit fields of a record can hold.\<close>

definition rec_fits :: "LogRecord \<Rightarrow> bool" where
  "rec_fits r \<longleftrightarrow> length (rkey r) < 65536 \<and> length (rvalue r) < 65536 \<and>
     (case before r of None \<Rightarrow> True | Some b \<Rightarrow> length b < 65535)"

definition rec_bytes :: "LogRecord \<Rightarrow> bytes" where
  "rec_bytes r = AppendTo r []"

lemma AppendTo_eq: "AppendTo r out = out @ rec_bytes r"
  by (simp add: AppendTo_def rec_bytes_def Let_def)

lemma length_rec_bytes [simp]: "length (rec_bytes r) = SerializedSize r"
  by (simp add: rec_bytes_def AppendTo_def SerializedSize_def Let_def rec_consts split: option.split)

lemma SerializedSize_ge: "31 \<le> SerializedSize r"
  by (simp add: SerializedSize_def rec_consts)

lemma rec_bytes_nonempty: "rec_bytes r \<noteq> []"
  using length_rec_bytes [of r] SerializedSize_ge [of r] by (metis le_zero_eq list.size(3) numeral_neq_zero)

lemma type_byte_roundtrip:
  "type_of_code ((type_code t OR (if e then kOpEndBit else 0)) AND NOT kOpEndBit) = Some t"
  "((type_code t OR (if e then kOpEndBit else 0)) AND kOpEndBit \<noteq> 0) = e"
  by (cases t; cases e; simp add: type_of_code_def kOpEndBit_def)+

lemma slice_append: "off + n \<le> length xs \<Longrightarrow> take n (drop off (xs @ ys)) = take n (drop off xs)"
  by simp

lemma Parse_extend:
  assumes "Parse buf = Some (r, m)"
  shows "Parse (buf @ rest) = Some (r, m)"
proof -
  have l: "31 \<le> length buf" using Parse_consumed [OF assms] by simp
  let ?kl = "GetLE (take 2 (drop 21 buf)) :: u16" and ?vl = "GetLE (take 2 (drop 23 buf)) :: u16"
    and ?bl = "GetLE (take 2 (drop 25 buf)) :: u16"
  let ?bb = "if ?bl = kBeforeAbsent then 0 else unat ?bl"
  let ?t = "31 + unat ?kl + unat ?vl + ?bb"
  have tot: "?t \<le> length buf"
    using assms by (auto simp: Parse_def Let_def rec_consts split: if_splits option.splits)
  have s: "take n (drop off (buf @ rest)) = take n (drop off buf)" if "off + n \<le> 31" for off n
    using that l by (intro slice_append) simp
  have n16: "(buf @ rest) ! 16 = buf ! 16" using l by (simp add: nth_append)
  have len: "\<not> length (buf @ rest) < kRecHeaderSize + kCrcSize" "\<not> length buf < kRecHeaderSize + kCrcSize"
    "\<not> length (buf @ rest) < kRecHeaderSize + unat ?kl + unat ?vl + ?bb + kCrcSize"
    using l tot by (auto simp: rec_consts)
  have crc: "take (kRecHeaderSize + unat ?kl + unat ?vl + ?bb + kCrcSize - kCrcSize) (drop 0 (buf @ rest)) =
      take (kRecHeaderSize + unat ?kl + unat ?vl + ?bb + kCrcSize - kCrcSize) (drop 0 buf)"
    "take 4 (drop (kRecHeaderSize + unat ?kl + unat ?vl + ?bb + kCrcSize - kCrcSize) (buf @ rest)) =
      take 4 (drop (kRecHeaderSize + unat ?kl + unat ?vl + ?bb + kCrcSize - kCrcSize) buf)"
    using tot by (auto simp: rec_consts)
  have fields: "take (unat ?kl) (drop kRecHeaderSize (buf @ rest)) = take (unat ?kl) (drop kRecHeaderSize buf)"
    "take (unat ?vl) (drop (kRecHeaderSize + unat ?kl) (buf @ rest)) = take (unat ?vl) (drop (kRecHeaderSize + unat ?kl) buf)"
    "?bl \<noteq> kBeforeAbsent \<Longrightarrow> take (unat ?bl) (drop (kRecHeaderSize + unat ?kl + unat ?vl) (buf @ rest)) =
       take (unat ?bl) (drop (kRecHeaderSize + unat ?kl + unat ?vl) buf)"
    using tot by (auto simp: rec_consts)
  show ?thesis
    using assms unfolding Parse_def Let_def n16
    by (simp only: s [of 21 2] s [of 23 2] s [of 25 2] s [of 0 8] s [of 8 8] s [of 17 4] len crc fields(1,2) arith_simps
        numeral_plus_numeral if_False split: option.splits if_splits cong: if_cong)
       (auto simp: fields)
qed

lemma Parse_rec_bytes:
  assumes "rec_fits r"
  shows "Parse (rec_bytes r @ rest) = Some (r, SerializedSize r)"
proof -
  let ?bef = "case before r of None \<Rightarrow> [] | Some b \<Rightarrow> b"
  let ?bl = "case before r of None \<Rightarrow> kBeforeAbsent | Some b \<Rightarrow> of_nat (length b)"
  let ?tb = "type_code (rtype r) OR (if op_end r then kOpEndBit else 0)"
  let ?kl = "of_nat (length (rkey r)) :: u16" and ?vl = "of_nat (length (rvalue r)) :: u16"
  define h27 where "h27 = PutLE 8 (lsn r) @ PutLE 8 (txid r) @ [?tb] @ PutLE 4 (rpage r) @ PutLE 2 ?kl @ PutLE 2 ?vl @ PutLE 2 ?bl"
  define body where "body = h27 @ rkey r @ rvalue r @ ?bef"
  have lh: "length h27 = 27" by (simp add: h27_def)
  have rb: "rec_bytes r @ rest = body @ PutLE 4 (Crc32 body) @ rest"
    by (simp add: rec_bytes_def AppendTo_def body_def h27_def Let_def)
  have u: "unat ?kl = length (rkey r)" "unat ?vl = length (rvalue r)"
    using assms by (auto simp: rec_fits_def intro!: unat_of_nat_less)
  have ub: "(if ?bl = kBeforeAbsent then 0 else unat ?bl) = length ?bef" "?bl \<noteq> kBeforeAbsent \<longleftrightarrow> before r \<noteq> None"
    "before r = Some b \<Longrightarrow> unat ?bl = length b" for b
  proof -
    have "unat (of_nat (length b) :: u16) = length b" "(of_nat (length b) :: u16) \<noteq> kBeforeAbsent" if "before r = Some b" for b
    proof -
      show e: "unat (of_nat (length b) :: u16) = length b"
        using assms that by (intro unat_of_nat_less) (simp add: rec_fits_def)
      show "(of_nat (length b) :: u16) \<noteq> kBeforeAbsent"
      proof
        assume "(of_nat (length b) :: u16) = kBeforeAbsent"
        then have "length b = 65535" using e by (simp add: kBeforeAbsent_def)
        then show False using assms that by (simp add: rec_fits_def)
      qed
    qed
    then show "(if ?bl = kBeforeAbsent then 0 else unat ?bl) = length ?bef" "?bl \<noteq> kBeforeAbsent \<longleftrightarrow> before r \<noteq> None"
      "before r = Some b \<Longrightarrow> unat ?bl = length b"
      by (auto split: option.splits)
  qed
  let ?buf = "body @ PutLE 4 (Crc32 body) @ rest"
  have lb: "length body = 27 + length (rkey r) + length (rvalue r) + length ?bef" by (simp add: body_def lh)
  have f: "take 8 ?buf = PutLE 8 (lsn r)" "take 8 (drop 8 ?buf) = PutLE 8 (txid r)" "?buf ! 16 = ?tb"
    "take 4 (drop 17 ?buf) = PutLE 4 (rpage r)" "take 2 (drop 21 ?buf) = PutLE 2 ?kl"
    "take 2 (drop 23 ?buf) = PutLE 2 ?vl" "take 2 (drop 25 ?buf) = PutLE 2 ?bl"
    by (simp_all add: body_def h27_def nth_append)
  have k: "take (length (rkey r)) (drop 27 ?buf) = rkey r"
    "take (length (rvalue r)) (drop (27 + length (rkey r)) ?buf) = rvalue r"
    "take (length ?bef) (drop (27 + length (rkey r) + length (rvalue r)) ?buf) = ?bef"
    by (simp_all add: body_def lh)
  have c: "take (27 + length (rkey r) + length (rvalue r) + length ?bef) ?buf = body"
    "take 4 (drop (27 + length (rkey r) + length (rvalue r) + length ?bef) ?buf) = PutLE 4 (Crc32 body)"
    using lb by simp_all
  have g: "GetLE (PutLE 2 ?kl) = ?kl" "GetLE (PutLE 2 ?vl) = ?vl" "GetLE (PutLE 2 ?bl) = ?bl"
    "GetLE (PutLE 8 (lsn r)) = lsn r" "GetLE (PutLE 8 (txid r)) = txid r" "GetLE (PutLE 4 (rpage r)) = rpage r"
    "GetLE (PutLE 4 (Crc32 body)) = Crc32 body"
    by (simp_all add: le_simps)
  have bef: "(if ?bl \<noteq> kBeforeAbsent then Some (take (unat ?bl) (drop (27 + length (rkey r) + length (rvalue r)) ?buf)) else None) = before r"
    using ub(2,3) k(3) by (cases "before r") auto
  have sz: "SerializedSize r = 27 + length (rkey r) + length (rvalue r) + length ?bef + 4"
    by (simp add: SerializedSize_def rec_consts split: option.split)
  have hs: "kRecHeaderSize = 27" "kCrcSize = 4" by (simp_all add: rec_consts)
  have len: "\<not> length ?buf < 27 + 4" "\<not> length ?buf < 27 + length (rkey r) + length (rvalue r) + length ?bef + 4"
    using lb by simp_all
  show ?thesis
    unfolding rb Parse_def Let_def drop_0 hs f g u k ub(1) type_byte_roundtrip option.case add_diff_cancel_right' c
      if_not_P [OF len(1)] if_not_P [OF len(2)] bef sz
    by simp
qed

lemma Parse_torn:
  assumes "rec_fits r" and "n < SerializedSize r"
  shows "Parse (take n (rec_bytes r)) = None"
proof (rule ccontr)
  assume "Parse (take n (rec_bytes r)) \<noteq> None"
  then obtain r' m where p: "Parse (take n (rec_bytes r)) = Some (r', m)" by auto
  from Parse_extend [OF p, of "drop n (rec_bytes r)"] have "Parse (rec_bytes r) = Some (r', m)" by simp
  with Parse_rec_bytes [OF assms(1), of "[]"] have "m = SerializedSize r" by simp
  with Parse_consumed(2) [OF p] assms(2) show False by simp
qed

subsection \<open>The serialised log\<close>

definition ser :: "LogRecord list \<Rightarrow> bytes" where
  "ser rs = concat (map rec_bytes rs)"

text \<open>The records carry the byte offsets at which they start, counted from \<open>b\<close>.\<close>

fun chain :: "Lsn \<Rightarrow> LogRecord list \<Rightarrow> bool" where
  "chain b [] = True"
| "chain b (r # rs) = (lsn r = b \<and> rec_fits r \<and> chain (b + of_nat (SerializedSize r)) rs)"

text \<open>The records that lie in full within the first \<open>n\<close> bytes of the log.\<close>

fun complete :: "nat \<Rightarrow> LogRecord list \<Rightarrow> LogRecord list" where
  "complete n [] = []"
| "complete n (r # rs) = (if SerializedSize r \<le> n then r # complete (n - SerializedSize r) rs else [])"

lemma ser_simps [simp]: "ser [] = []" "ser (r # rs) = rec_bytes r @ ser rs" "ser (rs @ rs') = ser rs @ ser rs'"
  by (simp_all add: ser_def)

lemma chain_append: "chain b (rs @ rs') \<longleftrightarrow> chain b rs \<and> chain (b + of_nat (length (ser rs))) rs'"
  by (induction rs arbitrary: b) (auto simp: add.assoc)

lemma complete_all: "length (ser rs) \<le> n \<Longrightarrow> complete n rs = rs"
  by (induction rs arbitrary: n) auto

lemma complete_prefix: "prefix (complete n rs) rs"
  by (induction rs arbitrary: n) auto

lemma complete_mono: "m \<le> n \<Longrightarrow> prefix (complete m rs) (complete n rs)"
  by (induction rs arbitrary: m n) auto

lemma complete_split: "complete (length (ser rs) + n) (rs @ rs') = rs @ complete n rs'"
  by (induction rs) auto

lemma read_loop_prefix:
  assumes "drop off bs = take n (ser rs)" and "chain b rs" and "e = kInvalidLsn \<or> e = b"
  shows "read_loop bs off e = complete n rs"
  using assms
proof (induction rs arbitrary: off n b e)
  case Nil
  then show ?case by (simp add: read_loop.simps)
next
  case (Cons r rs)
  have fit: "rec_fits r" and lr: "lsn r = b" and ch: "chain (b + of_nat (SerializedSize r)) rs"
    using Cons.prems(2) by auto
  show ?case
  proof (cases "SerializedSize r \<le> n")
    case True
    then have d: "drop off bs = rec_bytes r @ take (n - SerializedSize r) (ser rs)"
      using Cons.prems(1) by simp
    then have p: "Parse (drop off bs) = Some (r, SerializedSize r)" by (simp add: Parse_rec_bytes [OF fit])
    have "off < length bs" using arg_cong [OF d, of length] SerializedSize_ge [of r] by simp
    moreover have "drop (off + SerializedSize r) bs = take (n - SerializedSize r) (ser rs)"
      using arg_cong [OF d, of "drop (SerializedSize r)"] by (simp add: add.commute)
    then have "read_loop bs (off + SerializedSize r) (lsn r + of_nat (SerializedSize r)) = complete (n - SerializedSize r) rs"
      using ch lr by (intro Cons.IH) auto
    ultimately show ?thesis
      using True p Cons.prems(3) lr by (auto simp: read_loop.simps [of bs off])
  next
    case False
    then have "drop off bs = take n (rec_bytes r)" using Cons.prems(1) by simp
    then have "Parse (drop off bs) = None" using Parse_torn [OF fit, of n] False by simp
    then show ?thesis using False by (simp add: read_loop.simps [of bs off])
  qed
qed

lemma ReadAll_eq:
  assumes "ReadAll (Some f) io = (Inr rs, io')"
  shows "rs = read_loop (content f) 0 kInvalidLsn"
  using assms
  by (auto simp: ReadAll_def File_Open_def Size_def Read_def Let_def split: prod.splits sum.splits if_splits option.splits)

lemma ReadAll_total:
  assumes "sys io = []"
  shows "ReadAll (Some f) io = (Inr (read_loop (content f) 0 kInvalidLsn), io)"
proof (cases "content f = []")
  case True
  then show ?thesis using assms by (simp add: ReadAll_def File_Open_def Size_def next_sys_def)
next
  case False
  then show ?thesis using assms by (simp add: ReadAll_def File_Open_def Size_def Read_def next_sys_def)
qed

subsection \<open>The writer's invariant\<close>

text \<open>
  \<open>wal_inv w rs\<close>: the records \<open>rs\<close> have been appended since the last truncation. Their
  serialisation is split between the file and the buffer; beyond the bytes the writer
  has accounted for, the file may hold more bytes of the same serialisation, left by writes
  that failed half way; what was synced last covers \<open>flushed_lsn\<close>.
\<close>

definition wal_inv :: "LogWriter \<Rightarrow> LogRecord list \<Rightarrow> bool" where
  "wal_inv w rs \<longleftrightarrow>
     fd_open (wfile w) \<and> chain (base_lsn w) rs \<and> length (ser rs) < 2 ^ 64 \<and>
     end_lsn w = base_lsn w + of_nat (length (ser rs)) \<and>
     file_bytes w \<le> length (ser rs) \<and> buffer w = drop (file_bytes w) (ser rs) \<and>
     (\<exists>n. file_bytes w \<le> n \<and> n \<le> length (ser rs) \<and> content (wfile w) = take n (ser rs)) \<and>
     (\<exists>m k. m \<le> k \<and> k \<le> length (ser rs) \<and> flushed_lsn w = base_lsn w + of_nat m \<and> synced (wfile w) = take k (ser rs))"

lemma of_nat64_inj: "m < 2 ^ 64 \<Longrightarrow> n < 2 ^ 64 \<Longrightarrow> (of_nat m :: u64) = of_nat n \<Longrightarrow> m = n"
proof -
  assume m: "m < 2 ^ 64" and n: "n < 2 ^ 64" and eq: "(of_nat m :: u64) = of_nat n"
  have "unat (of_nat m :: u64) = m" by (rule unat_of_nat_less) (use m in simp)
  moreover have "unat (of_nat n :: u64) = n" by (rule unat_of_nat_less) (use n in simp)
  ultimately show "m = n" using eq by metis
qed

lemma wal_inv_buffer:
  assumes "wal_inv w rs" and "rec_fits r" and "lsn r = end_lsn w" and "length (ser rs) + SerializedSize r < 2 ^ 64"
  shows "wal_inv (BufferRecordLocked w r) (rs @ [r])"
proof -
  obtain n where n: "file_bytes w \<le> n" "n \<le> length (ser rs)" "content (wfile w) = take n (ser rs)"
    using assms(1) by (auto simp: wal_inv_def)
  obtain m k where m: "m \<le> k" "k \<le> length (ser rs)" "flushed_lsn w = base_lsn w + of_nat m" "synced (wfile w) = take k (ser rs)"
    using assms(1) by (auto simp: wal_inv_def)
  have "file_bytes w \<le> n \<and> n \<le> length (ser (rs @ [r])) \<and> content (wfile w) = take n (ser (rs @ [r]))" using n by simp
  moreover have "m \<le> k \<and> k \<le> length (ser (rs @ [r])) \<and> flushed_lsn w = base_lsn w + of_nat m \<and> synced (wfile w) = take k (ser (rs @ [r]))"
    using m by simp
  ultimately show ?thesis
    using assms unfolding wal_inv_def BufferRecordLocked_def
    by (simp add: chain_append AppendTo_eq add.assoc) blast
qed

lemma Append_inv:
  assumes "wal_inv w rs" and "rec_fits r" and "length (ser rs) + SerializedSize r < 2 ^ 64" and "Append w r = (l, w')"
  shows "l = end_lsn w" and "wal_inv w' (rs @ [r\<lparr>lsn := l\<rparr>])"
proof -
  have "rec_fits (r\<lparr>lsn := end_lsn w\<rparr>)" "SerializedSize (r\<lparr>lsn := end_lsn w\<rparr>) = SerializedSize r"
    using assms(2) by (simp_all add: rec_fits_def SerializedSize_def)
  then show "l = end_lsn w" "wal_inv w' (rs @ [r\<lparr>lsn := l\<rparr>])"
    using assms wal_inv_buffer [OF assms(1), of "r\<lparr>lsn := end_lsn w\<rparr>"] by (auto simp: Append_def Let_def)
qed

lemma AppendPageImage_inv:
  assumes "wal_inv w rs" and "length (ser rs) + 4127 < 2 ^ 64" and "AppendPageImage w pid p tx oe = (l, q, w')"
  shows "l = end_lsn w" and "q = p\<lparr>hdr := (hdr p)\<lparr>page_lsn := l\<rparr>\<rparr>" and "\<not> NeedsImage w' pid"
    and "wal_inv w' (rs @ [LogRecord_init\<lparr>lsn := l, txid := tx, rtype := kPageImage, rpage := pid, op_end := oe, rvalue := RawData q\<rparr>])"
proof -
  let ?q = "p\<lparr>hdr := (hdr p)\<lparr>page_lsn := end_lsn w\<rparr>\<rparr>"
  let ?r = "LogRecord_init\<lparr>lsn := end_lsn w, txid := tx, rtype := kPageImage, rpage := pid, op_end := oe, rvalue := RawData ?q\<rparr>"
  have e: "l = end_lsn w" "q = ?q" "w' = (BufferRecordLocked w ?r)\<lparr>imaged := insert pid (imaged (BufferRecordLocked w ?r))\<rparr>"
    using assms(3) by (auto simp: AppendPageImage_def Let_def)
  show "l = end_lsn w" "q = p\<lparr>hdr := (hdr p)\<lparr>page_lsn := l\<rparr>\<rparr>" "\<not> NeedsImage w' pid"
    using e by (simp_all add: NeedsImage_def)
  have "rec_fits ?r" "SerializedSize ?r = 4127"
    by (simp_all add: rec_fits_def SerializedSize_def LogRecord_init_def rec_consts kPageSize_def)
  then have "wal_inv (BufferRecordLocked w ?r) (rs @ [?r])"
    using assms(2) by (intro wal_inv_buffer [OF assms(1)]) simp_all
  then show "wal_inv w' (rs @ [LogRecord_init\<lparr>lsn := l, txid := tx, rtype := kPageImage, rpage := pid, op_end := oe, rvalue := RawData q\<rparr>])"
    using e by (simp add: wal_inv_def)
qed

lemma FileErrorToStatus_not_ok [simp]: "FileErrorToStatus e \<noteq> kOk"
  by (cases e) auto

text \<open>The write step of a flush, and then the sync.\<close>

lemma wal_write_step:
  assumes inv: "wal_inv w rs" and wr: "Write (wfile w) (file_bytes w) (buffer w) io = (r, f, io')"
  shows "wal_inv (w\<lparr>wfile := f\<rparr>) rs"
    and "r = Inr () \<Longrightarrow> wal_inv (w\<lparr>wfile := f, file_bytes := file_bytes w + length (buffer w), buffer := []\<rparr>) rs"
    and "r = Inr () \<Longrightarrow> file_bytes w + length (buffer w) = length (ser rs)"
    and "r = Inr () \<Longrightarrow> content f = ser rs"
proof -
  obtain n where n: "file_bytes w \<le> n" "n \<le> length (ser rs)" "content (wfile w) = take n (ser rs)"
    using inv by (auto simp: wal_inv_def)
  have b: "buffer w = drop (file_bytes w) (ser rs)" "file_bytes w \<le> length (ser rs)" "fd_open (wfile w)"
    using inv by (auto simp: wal_inv_def)
  note wc = Write_cases [OF wr b(3)]
  obtain k where k: "content f = pwrite (content (wfile w)) (file_bytes w) (take k (buffer w))" using wc(4) by auto
  let ?n = "max n (file_bytes w + min k (length (ser rs) - file_bytes w))"
  have cf: "content f = take ?n (ser rs)"
    unfolding k b(1) using n b(2) by (intro pwrite_prefix)
  moreover have "file_bytes w \<le> ?n" "?n \<le> length (ser rs)" using n b(2) by auto
  ultimately show "wal_inv (w\<lparr>wfile := f\<rparr>) rs"
    using inv wc(1,2) unfolding wal_inv_def by auto
  assume r: "r = Inr ()"
  show len: "file_bytes w + length (buffer w) = length (ser rs)" using b by simp
  have "content f = pwrite (content (wfile w)) (file_bytes w) (take (length (ser rs)) (buffer w))"
    using wc(3) [OF r] b by simp
  also have "\<dots> = take (max n (file_bytes w + min (length (ser rs)) (length (ser rs) - file_bytes w))) (ser rs)"
    unfolding b(1) using n b(2) by (intro pwrite_prefix)
  finally show full: "content f = ser rs" using n b(2) by simp
  show "wal_inv (w\<lparr>wfile := f, file_bytes := file_bytes w + length (buffer w), buffer := []\<rparr>) rs"
    using inv wc(1,2) full len unfolding wal_inv_def by auto
qed

lemma wal_sync_step:
  assumes inv: "wal_inv w rs" and c: "content (wfile w) = ser rs" and sy: "Sync (wfile w) io = (r, f, io')"
  shows "wal_inv (w\<lparr>wfile := f\<rparr>) rs" and "r = Inr () \<Longrightarrow> wal_inv (w\<lparr>wfile := f, flushed_lsn := end_lsn w\<rparr>) rs"
    and "r = Inr () \<Longrightarrow> synced f = ser rs"
proof -
  note s = Sync_cases [OF sy]
  show r: "synced f = ser rs" if "r = Inr ()" using s(3) [OF that] c by simp
  show "wal_inv (w\<lparr>wfile := f, flushed_lsn := end_lsn w\<rparr>) rs" if "r = Inr ()"
    using inv s(1,2) r [OF that] c by (auto simp: wal_inv_def intro!: exI [of _ "length (ser rs)"])
  show "wal_inv (w\<lparr>wfile := f\<rparr>) rs"
  proof (cases "r = Inr ()")
    case True
    obtain m where m: "m \<le> length (ser rs)" "flushed_lsn w = base_lsn w + of_nat m"
      using inv unfolding wal_inv_def by (meson order_trans)
    show ?thesis
      unfolding wal_inv_def
    proof (intro conjI)
      show "\<exists>a k. a \<le> k \<and> k \<le> length (ser rs) \<and> flushed_lsn (w\<lparr>wfile := f\<rparr>) = base_lsn (w\<lparr>wfile := f\<rparr>) + of_nat a \<and>
          synced (wfile (w\<lparr>wfile := f\<rparr>)) = take k (ser rs)"
        using m r [OF True] by (intro exI [of _ m] exI [of _ "length (ser rs)"]) simp
    qed (use inv s(1,2) in \<open>auto simp: wal_inv_def\<close>)
  next
    case False
    then show ?thesis using s(4) inv by simp
  qed
qed

lemma wal_inv_all_written: "wal_inv w rs \<Longrightarrow> buffer w = [] \<Longrightarrow> content (wfile w) = ser rs \<and> file_bytes w = length (ser rs)"
  by (auto simp: wal_inv_def)

lemma FlushLocked_inv:
  assumes inv: "wal_inv w rs" and fl: "FlushLocked w io = (s, w', io')"
  shows "wal_inv w' rs" and "base_lsn w' = base_lsn w" and "end_lsn w' = end_lsn w" and "imaged w' = imaged w"
    and "s = kOk \<Longrightarrow> content (wfile w') = ser rs \<and> synced (wfile w') = ser rs \<and> flushed_lsn w' = end_lsn w' \<and> buffer w' = []"
proof -
  have main: "wal_inv w' rs \<and> base_lsn w' = base_lsn w \<and> end_lsn w' = end_lsn w \<and> imaged w' = imaged w \<and>
    (s = kOk \<longrightarrow> content (wfile w') = ser rs \<and> synced (wfile w') = ser rs \<and> flushed_lsn w' = end_lsn w' \<and> buffer w' = [])"
  proof (cases "buffer w = [] \<and> flushed_lsn w = end_lsn w")
    case True
    then have w: "w' = w" using fl by (simp add: FlushLocked_def)
    obtain m k where m: "m \<le> k" "k \<le> length (ser rs)" "flushed_lsn w = base_lsn w + of_nat m" "synced (wfile w) = take k (ser rs)"
      using inv by (auto simp: wal_inv_def)
    have "(of_nat m :: u64) = of_nat (length (ser rs))" using True m(3) inv by (simp add: wal_inv_def)
    then have "m = length (ser rs)" using m inv by (intro of_nat64_inj) (auto simp: wal_inv_def)
    then show ?thesis using inv True m w wal_inv_all_written [OF inv] by auto
  next
    case False
    define w1 where "w1 = w\<lparr>file_bytes := file_bytes w + length (buffer w), buffer := []\<rparr>"
    have sync: "wal_inv w' rs \<and> base_lsn w' = base_lsn w \<and> end_lsn w' = end_lsn w \<and> imaged w' = imaged w \<and>
        (s = kOk \<longrightarrow> content (wfile w') = ser rs \<and> synced (wfile w') = ser rs \<and> flushed_lsn w' = end_lsn w' \<and> buffer w' = [])"
      if i: "wal_inv v rs" "buffer v = []" "base_lsn v = base_lsn w" "end_lsn v = end_lsn w" "imaged v = imaged w"
        and sy: "Sync (wfile v) io1 = (r, f, io2)"
        and e: "(s, w') = (case r of Inl x \<Rightarrow> (FileErrorToStatus x, v\<lparr>wfile := f\<rparr>) | Inr _ \<Rightarrow> (kOk, v\<lparr>wfile := f, flushed_lsn := end_lsn v\<rparr>))"
      for v io1 r f io2
    proof -
      note st = wal_sync_step [OF i(1) conjunct1 [OF wal_inv_all_written [OF i(1,2)]] sy] and sc = Sync_cases [OF sy]
      have c: "content (wfile v) = ser rs" using wal_inv_all_written [OF i(1,2)] by simp
      show ?thesis using e st sc(1) c i(2-5) by (cases r) auto
    qed
    show ?thesis
    proof (cases "buffer w = []")
      case True
      obtain r f io2 where sy: "Sync (wfile w) io = (r, f, io2)" by (metis prod_cases3)
      show ?thesis
        by (rule sync [OF inv True refl refl refl sy])
           (use fl False True sy in \<open>auto simp: FlushLocked_def split: sum.splits\<close>)
    next
      case ne: False
      obtain r f io1 where wr: "Write (wfile w) (file_bytes w) (buffer w) io = (r, f, io1)" by (metis prod_cases3)
      note st = wal_write_step [OF inv wr]
      show ?thesis
      proof (cases r)
        case (Inl x)
        then show ?thesis using fl ne wr st(1) by (auto simp: FlushLocked_def)
      next
        case (Inr u)
        let ?v = "w\<lparr>wfile := f, file_bytes := file_bytes w + length (buffer w), buffer := []\<rparr>"
        obtain r2 f2 io2 where sy: "Sync f io1 = (r2, f2, io2)" by (metis prod_cases3)
        have iv: "wal_inv ?v rs" using st(2) Inr by simp
        show ?thesis
          by (rule sync [OF iv, of io1 r2 f2 io2]) (use fl ne wr Inr sy in \<open>auto simp: FlushLocked_def split: sum.splits\<close>)
      qed
    qed
  qed
  from main show "wal_inv w' rs" "base_lsn w' = base_lsn w" "end_lsn w' = end_lsn w" "imaged w' = imaged w"
    "s = kOk \<Longrightarrow> content (wfile w') = ser rs \<and> synced (wfile w') = ser rs \<and> flushed_lsn w' = end_lsn w' \<and> buffer w' = []"
    by blast+
qed

lemma wal_inv_reader:
  assumes "wal_inv w rs" and "ReadAll (Some (wfile w)) io = (Inr xs, io')"
  shows "\<exists>n \<ge> file_bytes w. xs = complete n rs"
proof -
  obtain n where n: "file_bytes w \<le> n" "content (wfile w) = take n (ser rs)" using assms(1) by (auto simp: wal_inv_def)
  have "xs = complete n rs"
    using read_loop_prefix [of 0 "content (wfile w)" n rs "base_lsn w" kInvalidLsn] ReadAll_eq [OF assms(2)] n assms(1)
    by (simp add: wal_inv_def)
  with n show ?thesis by blast
qed

lemma wal_inv_empty:
  "wal_inv \<lparr>wfile = \<lparr>fd_open = True, content = [], synced = []\<rparr>, buffer = [], base_lsn = b, end_lsn = b, flushed_lsn = b,
     file_bytes = 0, imaged = {}\<rparr> []"
  by (auto simp: wal_inv_def intro: exI [of _ 0])

lemma Wal_Truncate_inv:
  assumes "fd_open (wfile w)" and "Wal_Truncate w b io = (s, w', io')"
  shows "s = kOk \<Longrightarrow> wal_inv w' [] \<and> base_lsn w' = b \<and> (\<forall>pid. NeedsImage w' pid)"
  using assms
  by (auto simp: Wal_Truncate_def Truncate_def Sync_def ftruncate_def wal_inv_def NeedsImage_def
      split: prod.splits sum.splits if_splits intro: exI [of _ 0])

subsection \<open>Properties\<close>

text \<open>
  C31: a log record whose fields fit their length fields is read back from its serialisation,
  whatever follows it, with the number of bytes \<^verbatim>\<open>SerializedSize\<close> announces; no proper prefix of the
  serialisation parses.
\<close>

theorem log_record_roundtrip:
  assumes "rec_fits r"
  shows "Parse (AppendTo r [] @ rest) = Some (r, SerializedSize r) \<and>
    length (AppendTo r []) = SerializedSize r \<and>
    (\<forall>n < SerializedSize r. Parse (take n (AppendTo r [])) = None)"
  using Parse_rec_bytes [OF assms] Parse_torn [OF assms] length_rec_bytes [of r] by (simp add: rec_bytes_def)

theorem log_record_roundtrip_witness:
  "let r = LogRecord_init\<lparr>lsn := 7, txid := 2, rtype := kDelete, op_end := True, rkey := [1, 2], before := Some [9]\<rparr>
   in Parse (AppendTo r [] @ [5, 5]) = Some (r, 34) \<and> Parse (take 33 (AppendTo r [])) = None"
  using log_record_roundtrip
    [of "LogRecord_init\<lparr>lsn := 7, txid := 2, rtype := kDelete, op_end := True, rkey := [1, 2], before := Some [9]\<rparr>" "[5, 5]"]
  by (simp add: rec_fits_def LogRecord_init_def SerializedSize_def rec_consts)

text \<open>
  C20: the reader on any prefix of a well-chained log (a log file whose tail was lost or torn
  at an arbitrary byte) returns exactly the records that lie in the prefix in full, in order;
  hence always a prefix of the records, all of them when nothing is missing, and more when more survives.
\<close>

theorem torn_log_recovers_complete_records:
  assumes "chain b rs" and "content f = take n (ser rs)" and "ReadAll (Some f) io = (Inr xs, io')"
  shows "xs = complete n rs \<and> prefix xs rs \<and> (length (ser rs) \<le> n \<longrightarrow> xs = rs) \<and>
    (\<forall>m \<le> n. prefix (complete m rs) xs)"
proof -
  have "xs = complete n rs"
    using read_loop_prefix [of 0 "content f" n rs b kInvalidLsn] ReadAll_eq [OF assms(3)] assms(1,2) by simp
  then show ?thesis by (simp add: complete_prefix complete_all complete_mono)
qed

theorem torn_log_recovers_complete_records_witness:
  "let r = LogRecord_init\<lparr>lsn := 1\<rparr>; s = LogRecord_init\<lparr>lsn := 32\<rparr>;
       f = \<lparr>fd_open = True, content = take 40 (ser [r, s]), synced = []\<rparr>;
       io = \<lparr>fail_after = kFaultDisarmed, total_syncs = 0, sys = []\<rparr>
   in fst (ReadAll (Some f) io) = Inr [r]"
proof -
  let ?r = "LogRecord_init\<lparr>lsn := 1\<rparr>" and ?s = "LogRecord_init\<lparr>lsn := 32\<rparr>"
  let ?f = "\<lparr>fd_open = True, content = take 40 (ser [?r, ?s]), synced = []\<rparr>"
  let ?io = "\<lparr>fail_after = kFaultDisarmed, total_syncs = 0, sys = []\<rparr>"
  have sz: "SerializedSize ?r = 31" "SerializedSize ?s = 31"
    by (simp_all add: SerializedSize_def LogRecord_init_def rec_consts)
  have ch: "chain 1 [?r, ?s]" by (simp add: sz) (simp add: rec_fits_def LogRecord_init_def)
  obtain xs io' where x: "ReadAll (Some ?f) ?io = (Inr xs, io')" using ReadAll_total [of ?io ?f] by simp
  show ?thesis
    using torn_log_recovers_complete_records [OF ch _ x, of 40] x by (simp add: sz)
qed

text \<open>
  C19: the log writer refines a list of records, for every behaviour of the operating system.
  Appending assigns the next byte offset as LSN and extends the list; a flush, successful or
  not, keeps the list; after a successful flush the synced bytes are the whole log and the
  reader returns all its records. At any time a reader of the file sees a
  prefix of the list that contains every record the writer has accounted as written.
\<close>

theorem log_writer_refines_record_list:
  assumes "wal_inv w rs" and "rec_fits r" and "length (ser rs) + SerializedSize r < 2 ^ 64"
    and "Append w r = (l, w1)" and "Flush w1 io = (s, w2, io2)" and "ReadAll (Some (wfile w2)) io3 = (Inr xs, io4)"
  shows "l = base_lsn w + of_nat (length (ser rs)) \<and> wal_inv w2 (rs @ [r\<lparr>lsn := l\<rparr>]) \<and>
    prefix xs (rs @ [r\<lparr>lsn := l\<rparr>]) \<and> prefix (complete (file_bytes w2) (rs @ [r\<lparr>lsn := l\<rparr>])) xs \<and>
    (s = kOk \<longrightarrow> flushed_lsn w2 = end_lsn w2 \<and> synced (wfile w2) = ser (rs @ [r\<lparr>lsn := l\<rparr>]) \<and>
       xs = rs @ [r\<lparr>lsn := l\<rparr>])"
proof -
  note a = Append_inv [OF assms(1-4)]
  note f = FlushLocked_inv [OF a(2) assms(5) [unfolded Flush_def]]
  obtain n where n: "file_bytes w2 \<le> n" "xs = complete n (rs @ [r\<lparr>lsn := l\<rparr>])"
    using wal_inv_reader [OF f(1) assms(6)] by blast
  have "xs = rs @ [r\<lparr>lsn := l\<rparr>]" if "s = kOk"
  proof -
    have "buffer w2 = []" using f(5) that by simp
    then have "file_bytes w2 = length (ser (rs @ [r\<lparr>lsn := l\<rparr>]))" using wal_inv_all_written [OF f(1)] by simp
    then show ?thesis using n complete_all by simp
  qed
  moreover have "l = base_lsn w + of_nat (length (ser rs))" using a(1) assms(1) by (simp add: wal_inv_def)
  moreover have "prefix xs (rs @ [r\<lparr>lsn := l\<rparr>])" "prefix (complete (file_bytes w2) (rs @ [r\<lparr>lsn := l\<rparr>])) xs"
    unfolding n(2) by (rule complete_prefix, rule complete_mono [OF n(1)])
  ultimately show ?thesis using f(1,5) by blast
qed

theorem log_writer_refines_record_list_witness:
  "let io = \<lparr>fail_after = kFaultDisarmed, total_syncs = 0, sys = []\<rparr>;
       w = \<lparr>wfile = \<lparr>fd_open = True, content = [], synced = []\<rparr>, buffer = [], base_lsn = 1, end_lsn = 1, flushed_lsn = 1,
             file_bytes = 0, imaged = {}\<rparr>;
       w2 = fst (snd (Flush (snd (Append w LogRecord_init)) io))
   in fst (ReadAll (Some (wfile w2)) io) = Inr [LogRecord_init\<lparr>lsn := 1\<rparr>]"
proof -
  let ?io = "\<lparr>fail_after = kFaultDisarmed, total_syncs = 0, sys = []\<rparr>"
  let ?w = "\<lparr>wfile = \<lparr>fd_open = True, content = [], synced = []\<rparr>, buffer = [], base_lsn = 1, end_lsn = 1, flushed_lsn = 1,
             file_bytes = 0, imaged = {}\<rparr>"
  obtain l w1 where a: "Append ?w LogRecord_init = (l, w1)" by fastforce
  obtain s w2 io2 where f: "Flush w1 ?io = (s, w2, io2)" by (metis prod_cases3)
  have x: "ReadAll (Some (wfile w2)) ?io = (Inr (read_loop (content (wfile w2)) 0 kInvalidLsn), ?io)"
    by (rule ReadAll_total) simp
  have fit: "rec_fits LogRecord_init" "SerializedSize LogRecord_init = 31"
    by (simp_all add: rec_fits_def SerializedSize_def LogRecord_init_def rec_consts)
  have w1: "buffer w1 = rec_bytes (LogRecord_init\<lparr>lsn := 1\<rparr>)" "fd_open (wfile w1)"
    using a by (auto simp: Append_def Let_def BufferRecordLocked_def AppendTo_eq)
  have ne: "buffer w1 \<noteq> []" using w1 length_rec_bytes [of "LogRecord_init\<lparr>lsn := 1\<rparr>"] SerializedSize_ge [of "LogRecord_init\<lparr>lsn := 1\<rparr>"]
    by (metis list.size(3) not_numeral_le_zero)
  have "s = kOk"
    using f ne w1(2)
    by (simp add: Flush_def FlushLocked_def Write_def take_credit_def next_sys_def do_pwrite_def Sync_def)
  then show ?thesis
    using log_writer_refines_record_list [OF wal_inv_empty fit(1) _ a f x] a f x fit(2) by (simp add: Let_def)
qed

end
