(* ===== verification/Pool.thy ===== *)
theory Pool
  imports Pager Wal "HOL-Library.AList"
begin

section \<open>The buffer pool (lru_replacer.h, page_guard.h, buffer_pool.h, buffer_pool.cc)\<close>

text \<open>
  Frames caching pages of the pager, with pins, a free list of frames, LRU eviction with
  write-back, and the write-ahead rule. A guard is its frame number. The pool latch makes each
  operation atomic; content latches only exclude other threads from a page's bytes and do not
  appear in the state (the source asserts that a frame with no pins has none).

  The theorems: the replacer evicts the least recently used evictable frame; fetching, allocating
  and flushing, with any eviction they cause and whatever the operating system does, never
  change the content of a page as seen through the pool; a pinned frame is never
  reused; a logged page reaches the data file only when the whole log has been synced.
\<close>

subsection \<open>The LRU replacer\<close>

record LruReplacer =
  order :: "FrameId list"  \<comment> \<open>front is the least recently used\<close>
  evictable :: "FrameId \<Rightarrow> bool option"

definition LruReplacer_init :: LruReplacer where
  "LruReplacer_init = \<lparr>order = [], evictable = Map.empty\<rparr>"

definition RecordAccess :: "LruReplacer \<Rightarrow> FrameId \<Rightarrow> LruReplacer" where
  "RecordAccess r f =
     (case evictable r f of
        Some _ \<Rightarrow> r\<lparr>order := remove1 f (order r) @ [f]\<rparr>
      | None \<Rightarrow> \<lparr>order = order r @ [f], evictable = (evictable r)(f \<mapsto> False)\<rparr>)"

definition SetEvictable :: "LruReplacer \<Rightarrow> FrameId \<Rightarrow> bool \<Rightarrow> LruReplacer" where
  "SetEvictable r f e = (case evictable r f of None \<Rightarrow> r | Some _ \<Rightarrow> r\<lparr>evictable := (evictable r)(f \<mapsto> e)\<rparr>)"

definition Remove :: "LruReplacer \<Rightarrow> FrameId \<Rightarrow> LruReplacer" where
  "Remove r f =
     (case evictable r f of None \<Rightarrow> r
      | Some _ \<Rightarrow> \<lparr>order = remove1 f (order r), evictable = (evictable r)(f := None)\<rparr>)"

definition Evict :: "LruReplacer \<Rightarrow> FrameId option \<times> LruReplacer" where
  "Evict r = (case find (\<lambda>f. evictable r f = Some True) (order r) of
     None \<Rightarrow> (None, r) | Some f \<Rightarrow> (Some f, Remove r f))"

definition lru_inv :: "LruReplacer \<Rightarrow> bool" where
  "lru_inv r \<longleftrightarrow> distinct (order r) \<and> set (order r) = {f. evictable r f \<noteq> None}"

lemma lru_inv_ops:
  assumes "lru_inv r"
  shows "lru_inv (RecordAccess r f)" and "lru_inv (SetEvictable r f e)" and "lru_inv (Remove r f)"
  using assms
  by (auto simp: lru_inv_def RecordAccess_def SetEvictable_def Remove_def split: option.splits if_splits)

lemma evictable_ops:
  "evictable (RecordAccess r f) g = (if g = f \<and> evictable r f = None then Some False else evictable r g)"
  "evictable (SetEvictable r f e) g = (if g = f \<and> evictable r f \<noteq> None then Some e else evictable r g)"
  "evictable (Remove r f) g = (if g = f then None else evictable r g)"
  by (auto simp: RecordAccess_def SetEvictable_def Remove_def split: option.splits)

lemma Evict_cases:
  assumes "Evict r = (v, r')"
  shows "case v of None \<Rightarrow> r' = r \<and> (\<forall>f \<in> set (order r). evictable r f \<noteq> Some True)
    | Some f \<Rightarrow> evictable r f = Some True \<and> r' = Remove r f \<and>
        (\<exists>xs ys. order r = xs @ f # ys \<and> (\<forall>g \<in> set xs. evictable r g \<noteq> Some True))"
proof (cases "find (\<lambda>f. evictable r f = Some True) (order r)")
  case None
  then have "v = None" "r' = r" using assms by (simp_all add: Evict_def)
  then show ?thesis using None by (simp add: find_None_iff)
next
  case (Some f)
  then obtain i where i: "i < length (order r)" "evictable r f = Some True" "f = order r ! i"
    "\<forall>j<i. evictable r (order r ! j) \<noteq> Some True" by (auto simp: find_Some_iff)
  then have "order r = take i (order r) @ f # drop (Suc i) (order r) \<and>
      (\<forall>g \<in> set (take i (order r)). evictable r g \<noteq> Some True)"
    by (auto simp: id_take_nth_drop in_set_conv_nth)
  moreover have "v = Some f" "r' = Remove r f" using Some assms by (simp_all add: Evict_def)
  ultimately show ?thesis using i(2) by auto
qed

subsection \<open>The pool\<close>

record Frame =
  fpage :: Page
  fpid :: PageId
  pin_count :: nat
  dirty :: bool

record Stats =
  hits :: nat
  misses :: nat
  evictions :: nat

record BufferPool =
  pager :: Pager
  wal :: "LogWriter option"
  io :: Io
  frames :: "Frame list"
  free_frames :: "FrameId list"  \<comment> \<open>the head is the back of the vector\<close>
  page_table :: "(PageId \<times> FrameId) list"
  replacer :: LruReplacer
  stats :: Stats

definition kMinFrames :: nat where "kMinFrames = 4"

definition zero_page :: Page where
  "zero_page = page_of_bytes (replicate kPageSize 0)"

definition BufferPool_init :: "Pager \<Rightarrow> LogWriter option \<Rightarrow> Io \<Rightarrow> nat \<Rightarrow> BufferPool" where
  "BufferPool_init pgr w i n =
     (let n = (if n < kMinFrames then kMinFrames else n) in
      \<lparr>pager = pgr, wal = w, io = i,
       frames = replicate n \<lparr>fpage = zero_page, fpid = kInvalidPageId, pin_count = 0, dirty = False\<rparr>,
       free_frames = [0 ..< n], page_table = [], replacer = LruReplacer_init,
       stats = \<lparr>hits = 0, misses = 0, evictions = 0\<rparr>\<rparr>)"

definition set_frame :: "BufferPool \<Rightarrow> FrameId \<Rightarrow> Frame \<Rightarrow> BufferPool" where
  "set_frame b f fr = b\<lparr>frames := (frames b)[f := fr]\<rparr>"

definition MarkDirty :: "BufferPool \<Rightarrow> FrameId \<Rightarrow> BufferPool" where
  "MarkDirty b f = set_frame b f ((frames b ! f)\<lparr>dirty := True\<rparr>)"

definition EnforceWalRule :: "BufferPool \<Rightarrow> Frame \<Rightarrow> Status \<times> BufferPool" where
  "EnforceWalRule b fr =
     (case wal b of
        None \<Rightarrow> (kOk, b)
      | Some w \<Rightarrow>
          if page_lsn (hdr (fpage fr)) = kInvalidLsn then (kOk, b)
          else case Flush w (io b) of (s, w, i) \<Rightarrow> (s, b\<lparr>wal := Some w, io := i\<rparr>))"

text \<open>The write-ahead rule, the write and the reset of the dirty flag: the body shared by eviction and flushes.\<close>

definition write_back :: "BufferPool \<Rightarrow> FrameId \<Rightarrow> Status \<times> BufferPool" where
  "write_back b f =
     (case EnforceWalRule b (frames b ! f) of (s, b) \<Rightarrow>
        if s \<noteq> kOk then (s, b)
        else case WritePage (pager b) (fpid (frames b ! f)) (fpage (frames b ! f)) (io b) of (s, pg, p, i) \<Rightarrow>
          let b = set_frame (b\<lparr>pager := p, io := i\<rparr>) f ((frames b ! f)\<lparr>fpage := pg\<rparr>) in
          if s \<noteq> kOk then (s, b)
          else (kOk, set_frame b f ((frames b ! f)\<lparr>dirty := False\<rparr>)))"

definition drop_frame :: "BufferPool \<Rightarrow> FrameId \<Rightarrow> BufferPool" where
  "drop_frame b f =
     (let fr = frames b ! f in
      set_frame (b\<lparr>page_table := AList.delete (fpid fr) (page_table b),
                   stats := (stats b)\<lparr>evictions := evictions (stats b) + 1\<rparr>\<rparr>)
        f (fr\<lparr>fpid := kInvalidPageId\<rparr>))"

definition AcquireFrameLocked :: "BufferPool \<Rightarrow> FrameId Result \<times> BufferPool" where
  "AcquireFrameLocked b =
     (case free_frames b of
        f # fs \<Rightarrow> (Inr f, b\<lparr>free_frames := fs\<rparr>)
      | [] \<Rightarrow>
          (case Evict (replacer b) of
             (None, r) \<Rightarrow> (Inl kBusy, b\<lparr>replacer := r\<rparr>)
           | (Some victim, r) \<Rightarrow>
               let b = b\<lparr>replacer := r\<rparr> in
               if dirty (frames b ! victim) then
                 case write_back b victim of (s, b) \<Rightarrow>
                   if s \<noteq> kOk
                   then (Inl s, b\<lparr>replacer := SetEvictable (RecordAccess (replacer b) victim) victim True\<rparr>)
                   else (Inr victim, drop_frame b victim)
               else (Inr victim, drop_frame b victim)))"

definition install :: "BufferPool \<Rightarrow> FrameId \<Rightarrow> PageId \<Rightarrow> Page \<Rightarrow> BufferPool" where
  "install b f pid pg =
     (let b = set_frame b f \<lparr>fpage = pg, fpid = pid, pin_count = 1, dirty = False\<rparr>;
          b = b\<lparr>page_table := (if map_of (page_table b) pid = None then (pid, f) # page_table b else page_table b)\<rparr>
      in b\<lparr>replacer := SetEvictable (RecordAccess (replacer b) f) f False\<rparr>)"

definition FetchPageInternal :: "BufferPool \<Rightarrow> PageId \<Rightarrow> FrameId Result \<times> BufferPool" where
  "FetchPageInternal b pid =
     (case map_of (page_table b) pid of
        Some f \<Rightarrow>
          (let b = set_frame b f ((frames b ! f)\<lparr>pin_count := pin_count (frames b ! f) + 1\<rparr>)
           in (Inr f, b\<lparr>replacer := SetEvictable (RecordAccess (replacer b) f) f False,
                        stats := (stats b)\<lparr>hits := hits (stats b) + 1\<rparr>\<rparr>))
      | None \<Rightarrow>
          (case AcquireFrameLocked (b\<lparr>stats := (stats b)\<lparr>misses := misses (stats b) + 1\<rparr>\<rparr>) of
             (Inl s, b) \<Rightarrow> (Inl s, b)
           | (Inr f, b) \<Rightarrow>
               (case ReadPage (pager b) pid (io b) of
                  (Inl s, i) \<Rightarrow> (Inl s, b\<lparr>io := i, free_frames := f # free_frames b\<rparr>)
                | (Inr pg, i) \<Rightarrow> (Inr f, install (b\<lparr>io := i\<rparr>) f pid pg))))"

definition NewPage :: "BufferPool \<Rightarrow> (FrameId \<times> PageId) Result \<times> BufferPool" where
  "NewPage b =
     (case AcquireFrameLocked b of
        (Inl s, b) \<Rightarrow> (Inl s, b)
      | (Inr f, b) \<Rightarrow>
          (case AllocatePage (pager b) (io b) of
             (Inl s, p, i) \<Rightarrow> (Inl s, b\<lparr>pager := p, io := i, free_frames := f # free_frames b\<rparr>)
           | (Inr pid, p, i) \<Rightarrow> (Inr (f, pid), install (b\<lparr>pager := p, io := i\<rparr>) f pid zero_page)))"

definition ReleaseGuard :: "BufferPool \<Rightarrow> FrameId \<Rightarrow> BufferPool" where
  "ReleaseGuard b f =
     (let fr = (frames b ! f)\<lparr>pin_count := pin_count (frames b ! f) - 1\<rparr>;
          b = set_frame b f fr
      in if pin_count fr = 0 then b\<lparr>replacer := SetEvictable (replacer b) f True\<rparr> else b)"

definition pin_frame :: "FrameId \<Rightarrow> BufferPool \<Rightarrow> BufferPool" where
  "pin_frame f b =
     (let b = set_frame b f ((frames b ! f)\<lparr>pin_count := pin_count (frames b ! f) + 1\<rparr>)
      in b\<lparr>replacer := SetEvictable (replacer b) f False\<rparr>)"

definition FlushPage :: "BufferPool \<Rightarrow> PageId \<Rightarrow> Status \<times> BufferPool" where
  "FlushPage b pid =
     (case map_of (page_table b) pid of
        None \<Rightarrow> (kOk, b)
      | Some f \<Rightarrow>
          let b = pin_frame f b in
          case (if dirty (frames b ! f) then write_back b f else (kOk, b)) of
            (s, b) \<Rightarrow> (s, ReleaseGuard b f))"

fun flush_loop :: "FrameId list \<Rightarrow> Status \<Rightarrow> BufferPool \<Rightarrow> Status \<times> BufferPool" where
  "flush_loop [] s b = (s, b)"
| "flush_loop (f # fs) s b =
     (case (if s = kOk \<and> dirty (frames b ! f) then write_back b f else (s, b)) of
        (s, b) \<Rightarrow> flush_loop fs s (ReleaseGuard b f))"

definition FlushAll :: "BufferPool \<Rightarrow> Status \<times> BufferPool" where
  "FlushAll b = (let pinned = map snd (page_table b) in flush_loop pinned kOk (fold pin_frame pinned b))"

definition PinCount :: "BufferPool \<Rightarrow> PageId \<Rightarrow> nat" where
  "PinCount b pid = (case map_of (page_table b) pid of None \<Rightarrow> 0 | Some f \<Rightarrow> pin_count (frames b ! f))"

definition IsResident :: "BufferPool \<Rightarrow> PageId \<Rightarrow> bool" where
  "IsResident b pid \<longleftrightarrow> map_of (page_table b) pid \<noteq> None"

subsection \<open>Invariant and view\<close>

abbreviation resident :: "BufferPool \<Rightarrow> FrameId set" where
  "resident b \<equiv> snd ` set (page_table b)"

text \<open>
  \<open>core_inv X b\<close>: the page table and the resident frames are in bijection, every frame is free, resident or
  in \<open>X\<close> (taken by an operation in progress), and a clean resident frame agrees with the disk.
\<close>

definition frame_ok :: "BufferPool \<Rightarrow> PageId \<Rightarrow> FrameId \<Rightarrow> bool" where
  "frame_ok b pid f \<longleftrightarrow> f < length (frames b) \<and> fpid (frames b ! f) = pid \<and> data_page (pager b) pid \<and>
     mem_ok (fpage (frames b ! f)) \<and>
     (\<not> dirty (frames b ! f) \<longrightarrow> fpage (frames b ! f) = page_of_bytes (disk (pager b) pid))"

definition core_inv :: "FrameId set \<Rightarrow> BufferPool \<Rightarrow> bool" where
  "core_inv X b \<longleftrightarrow> pager_inv (pager b) \<and>
     distinct (map fst (page_table b)) \<and> distinct (map snd (page_table b)) \<and>
     (\<forall>pid f. (pid, f) \<in> set (page_table b) \<longrightarrow> frame_ok b pid f) \<and>
     distinct (free_frames b) \<and> set (free_frames b) \<inter> resident b = {} \<and> X \<inter> (set (free_frames b) \<union> resident b) = {} \<and>
     set (free_frames b) \<union> resident b \<union> X = {..< length (frames b)}"

definition rep_inv :: "FrameId set \<Rightarrow> BufferPool \<Rightarrow> bool" where
  "rep_inv Y b \<longleftrightarrow> lru_inv (replacer b) \<and>
     (\<forall>f. evictable (replacer b) f = (if f \<in> resident b - Y then Some (pin_count (frames b ! f) = 0) else None))"

definition pool_inv :: "FrameId set \<Rightarrow> BufferPool \<Rightarrow> bool" where
  "pool_inv X b \<longleftrightarrow> core_inv X b \<and> rep_inv {} b"

text \<open>The content of a page as the pool's clients see it; the checksum field is stamped on writing and is left out.\<close>

definition pview :: "BufferPool \<Rightarrow> PageId \<Rightarrow> Page" where
  "pview b pid = stamp (case map_of (page_table b) pid of
     Some f \<Rightarrow> fpage (frames b ! f) | None \<Rightarrow> page_of_bytes (disk (pager b) pid)) 0"

text \<open>What the pool's bookkeeping keeps: the views of all pages, the meta data, and every pinned frame.\<close>

definition keeps :: "BufferPool \<Rightarrow> BufferPool \<Rightarrow> bool" where
  "keeps b b' \<longleftrightarrow> meta (pager b') = meta (pager b) \<and> verify_checksums (pager b') = verify_checksums (pager b) \<and>
     (\<forall>pid. data_page (pager b) pid \<longrightarrow> pview b' pid = pview b pid) \<and>
     (\<forall>pid f. (pid, f) \<in> set (page_table b) \<longrightarrow> 0 < pin_count (frames b ! f) \<longrightarrow>
        (pid, f) \<in> set (page_table b') \<and> pin_count (frames b ! f) \<le> pin_count (frames b' ! f))"

lemma keeps_refl [simp]: "keeps b b"
  by (simp add: keeps_def)

lemma keeps_trans: "keeps a b \<Longrightarrow> keeps b c \<Longrightarrow> keeps a c"
proof -
  assume ab: "keeps a b" and bc: "keeps b c"
  have "(pid, f) \<in> set (page_table c) \<and> pin_count (frames a ! f) \<le> pin_count (frames c ! f)"
    if "(pid, f) \<in> set (page_table a)" "0 < pin_count (frames a ! f)" for pid f
  proof -
    have b: "(pid, f) \<in> set (page_table b)" "pin_count (frames a ! f) \<le> pin_count (frames b ! f)"
      using ab that by (auto simp: keeps_def)
    then have "0 < pin_count (frames b ! f)" using that(2) by linarith
    with b bc show ?thesis unfolding keeps_def by (meson order_trans)
  qed
  with ab bc show ?thesis by (simp add: keeps_def data_page_def)
qed

lemma core_invD:
  assumes "core_inv X b"
  shows "pager_inv (pager b)" and "(pid, f) \<in> set (page_table b) \<Longrightarrow> frame_ok b pid f"
    and "(pid, f) \<in> set (page_table b) \<Longrightarrow> (pid', f) \<in> set (page_table b) \<Longrightarrow> pid' = pid"
    and "map_of (page_table b) pid = Some f \<longleftrightarrow> (pid, f) \<in> set (page_table b)"
    and "(pid, f) \<in> set (page_table b) \<Longrightarrow> (pid, g) \<in> set (page_table b) \<Longrightarrow> g = f"
proof -
  have d: "distinct (map fst (page_table b))" "distinct (map snd (page_table b))" using assms by (auto simp: core_inv_def)
  show "pager_inv (pager b)" "(pid, f) \<in> set (page_table b) \<Longrightarrow> frame_ok b pid f" using assms by (auto simp: core_inv_def)
  show "(pid, f) \<in> set (page_table b) \<Longrightarrow> (pid', f) \<in> set (page_table b) \<Longrightarrow> pid' = pid"
    using d(2) inj_onD [of snd "set (page_table b)" "(pid, f)" "(pid', f)"] by (simp add: distinct_map)
  show "map_of (page_table b) pid = Some f \<longleftrightarrow> (pid, f) \<in> set (page_table b)"
    using d(1) by (simp add: map_of_eq_Some_iff)
  show "(pid, f) \<in> set (page_table b) \<Longrightarrow> (pid, g) \<in> set (page_table b) \<Longrightarrow> g = f"
    using d(1) inj_onD [of fst "set (page_table b)" "(pid, f)" "(pid, g)"] by (simp add: distinct_map)
qed

lemma pview_cong:
  "pager b' = pager b \<Longrightarrow> frames b' = frames b \<Longrightarrow> page_table b' = page_table b \<Longrightarrow> pview b' j = pview b j"
  by (simp only: pview_def)

lemma EnforceWalRule_fields:
  assumes "EnforceWalRule b fr = (s, b')"
  shows "pager b' = pager b" and "frames b' = frames b" and "free_frames b' = free_frames b"
    and "page_table b' = page_table b" and "replacer b' = replacer b" and "stats b' = stats b"
  using assms by (auto simp: EnforceWalRule_def split: option.splits if_splits prod.splits)

lemma EnforceWalRule_flushes:
  assumes "EnforceWalRule b fr = (kOk, b')" and "wal b = Some w" and "wal_inv w rs" and "page_lsn (hdr (fpage fr)) \<noteq> kInvalidLsn"
  shows "\<exists>w'. wal b' = Some w' \<and> wal_inv w' rs \<and> synced (wfile w') = ser rs \<and> flushed_lsn w' = end_lsn w'"
proof -
  obtain s w' i where f: "Flush w (io b) = (s, w', i)" by (metis prod_cases3)
  then have "s = kOk" "wal b' = Some w'" using assms by (auto simp: EnforceWalRule_def)
  with FlushLocked_inv [OF assms(3) f [unfolded Flush_def]] show ?thesis by auto
qed

lemma core_inv_cong:
  assumes "core_inv X b" and "pager b' = pager b" and "frames b' = frames b" and "free_frames b' = free_frames b"
    and "page_table b' = page_table b"
  shows "core_inv X b'"
  using assms by (simp add: core_inv_def frame_ok_def)

text \<open>Replacing the pager by one that differs at one page, held by a dirty or rewritten frame.\<close>

lemma write_back_ok:
  assumes inv: "core_inv X b" and res: "(pid, f) \<in> set (page_table b)" and dt: "dirty (frames b ! f)"
    and wb: "write_back b f = (s, b')"
  shows "core_inv X b'" and "page_table b' = page_table b" and "free_frames b' = free_frames b" and "replacer b' = replacer b"
    and "length (frames b') = length (frames b)"
    and "\<And>g. pin_count (frames b' ! g) = pin_count (frames b ! g) \<and> fpid (frames b' ! g) = fpid (frames b ! g)"
    and "\<And>g. g \<noteq> f \<Longrightarrow> frames b' ! g = frames b ! g"
    and "\<And>j. data_page (pager b) j \<Longrightarrow> pview b' j = pview b j" and "meta (pager b') = meta (pager b)"
    and "s = kOk \<Longrightarrow> \<not> dirty (frames b' ! f)" and "verify_checksums (pager b') = verify_checksums (pager b)"
    and "s \<noteq> kOk \<Longrightarrow> dirty (frames b' ! f)"
proof -
  obtain s1 b1 where e: "EnforceWalRule b (frames b ! f) = (s1, b1)" by fastforce
  note ef = EnforceWalRule_fields [OF e]
  have fo: "frame_ok b pid f" by (rule core_invD(2) [OF inv res])
  then have fl: "f < length (frames b)" and fp: "fpid (frames b ! f) = pid" and dp: "data_page (pager b) pid"
    and mo: "mem_ok (fpage (frames b ! f))" by (auto simp: frame_ok_def)
  have inv1: "core_inv X b1" by (rule core_inv_cong [OF inv ef(1,2,3,4)])
  have pv: "pview b1 = pview b" by (rule ext) (simp only: pview_def ef)
  let ?concl = "core_inv X b' \<and> page_table b' = page_table b \<and> free_frames b' = free_frames b \<and> replacer b' = replacer b \<and>
    length (frames b') = length (frames b) \<and>
    (\<forall>g. pin_count (frames b' ! g) = pin_count (frames b ! g) \<and> fpid (frames b' ! g) = fpid (frames b ! g)) \<and>
    (\<forall>g. g \<noteq> f \<longrightarrow> frames b' ! g = frames b ! g) \<and>
    (\<forall>j. data_page (pager b) j \<longrightarrow> pview b' j = pview b j) \<and> meta (pager b') = meta (pager b) \<and>
    (s = kOk \<longrightarrow> \<not> dirty (frames b' ! f)) \<and> verify_checksums (pager b') = verify_checksums (pager b) \<and>
    (s \<noteq> kOk \<longrightarrow> dirty (frames b' ! f))"
  have ?concl
  proof (cases "s1 = kOk")
    case False
    then have "b' = b1" "s = s1" using wb e by (simp_all add: write_back_def)
    then show ?thesis using inv1 pv ef False dt by simp
  next
    case True
    obtain s2 pg p i where w: "WritePage (pager b) pid (fpage (frames b ! f)) (io b1) = (s2, pg, p, i)" by (metis prod_cases4)
    note wc = WritePage_cases [OF core_invD(1) [OF inv] w]
    let ?fr = "(frames b ! f)\<lparr>fpage := pg, dirty := (s2 \<noteq> kOk)\<rparr>"
    have dd: "(frames b ! f)\<lparr>fpage := pg, dirty := True\<rparr> = (frames b ! f)\<lparr>fpage := pg\<rparr>"
      by (rule Frame.equality) (use dt in simp_all)
    have s: "s = s2" and b': "b' = b1\<lparr>pager := p, io := i, frames := (frames b)[f := ?fr]\<rparr>"
      using wb e True w fl dt by (auto simp: write_back_def set_frame_def Let_def ef fp dd split: if_splits)
    have fr: "frames b' ! g = (if g = f then ?fr else frames b ! g)" for g using b' fl by simp
    have pt: "page_table b' = page_table b" "free_frames b' = free_frames b" "replacer b' = replacer b" "pager b' = p"
      using b' ef by simp_all
    have mp: "mem_ok pg" using wc(6) mo by auto
    have st: "stamp pg 0 = stamp (fpage (frames b ! f)) 0" using wc(6) by auto
    have dk: "disk p j = disk (pager b) j" if "data_page (pager b) j" "j \<noteq> pid" for j
      using wc(4) [of j] that by (simp add: data_page_def)
    have dpe: "data_page p = data_page (pager b)" by (simp add: data_page_def fun_eq_iff wc(2))
    have fok: "frame_ok b' j g" if jg: "(j, g) \<in> set (page_table b)" for j g
    proof (cases "g = f")
      case True
      then have j: "j = pid" using core_invD(3) [OF inv res, of j] jg by simp
      have "pg = page_of_bytes (disk p pid)" if "s2 = kOk" using wc(5) [OF that] mp page_of_bytes_RawData [of pg] by simp
      then show ?thesis using True j fp mp dp fl b' by (auto simp: frame_ok_def fr pt dpe)
    next
      case False
      have o: "frame_ok b j g" by (rule core_invD(2) [OF inv jg])
      have "j \<noteq> pid" using False jg core_invD(5) [OF inv res] by auto
      then show ?thesis using False o dk [of j] b' by (auto simp: frame_ok_def fr pt dpe)
    qed
    have "core_inv X b'"
    proof -
      have "length (frames b') = length (frames b)" using b' by simp
      then show ?thesis using inv fok wc(1) unfolding core_inv_def pt by simp
    qed
    moreover have "pview b' j = pview b j" if dj: "data_page (pager b) j" for j
    proof (cases "map_of (page_table b) j")
      case None
      then have "j \<noteq> pid" using core_invD(4) [OF inv, of pid f] res by auto
      then show ?thesis using None dk [OF dj] by (simp add: pview_def pt)
    next
      case (Some g)
      then show ?thesis using st by (simp add: pview_def pt fr)
    qed
    moreover have "length (frames b') = length (frames b)" using b' by simp
    ultimately show ?thesis using wc(2,3) unfolding s pt fr by simp
  qed
  then show "core_inv X b'" "page_table b' = page_table b" "free_frames b' = free_frames b" "replacer b' = replacer b"
    "length (frames b') = length (frames b)"
    "\<And>g. pin_count (frames b' ! g) = pin_count (frames b ! g) \<and> fpid (frames b' ! g) = fpid (frames b ! g)"
    "\<And>g. g \<noteq> f \<Longrightarrow> frames b' ! g = frames b ! g"
    "\<And>j. data_page (pager b) j \<Longrightarrow> pview b' j = pview b j" "meta (pager b') = meta (pager b)"
    "s = kOk \<Longrightarrow> \<not> dirty (frames b' ! f)" "verify_checksums (pager b') = verify_checksums (pager b)"
    "s \<noteq> kOk \<Longrightarrow> dirty (frames b' ! f)" by blast+
qed

subsection \<open>Eviction\<close>

lemma map_of_delete: "map_of (AList.delete k al) j = (if j = k then None else map_of al j)"
  by (simp add: delete_conv')

lemma set_delete: "(j, g) \<in> set (AList.delete k al) \<longleftrightarrow> (j, g) \<in> set al \<and> j \<noteq> k"
  by (auto simp: AList.delete_eq)

lemma drop_frame_ok:
  assumes inv: "core_inv {} b" and res: "(pid, f) \<in> set (page_table b)" and cl: "\<not> dirty (frames b ! f)"
  shows "core_inv {f} (drop_frame b f)" and "page_table (drop_frame b f) = AList.delete pid (page_table b)"
    and "\<And>j. pview (drop_frame b f) j = pview b j" and "\<And>g. g \<noteq> f \<Longrightarrow> frames (drop_frame b f) ! g = frames b ! g"
    and "pager (drop_frame b f) = pager b" and "replacer (drop_frame b f) = replacer b"
    and "length (frames (drop_frame b f)) = length (frames b)" and "free_frames (drop_frame b f) = free_frames b"
    and "resident (drop_frame b f) = resident b - {f}" and "wal (drop_frame b f) = wal b"
proof -
  let ?b = "drop_frame b f"
  have fo: "frame_ok b pid f" by (rule core_invD(2) [OF inv res])
  then have fl: "f < length (frames b)" and fp: "fpid (frames b ! f) = pid" by (auto simp: frame_ok_def)
  show pt: "page_table ?b = AList.delete pid (page_table b)" using fp by (simp add: drop_frame_def Let_def set_frame_def)
  show fr: "frames ?b ! g = frames b ! g" if "g \<noteq> f" for g using that by (simp add: drop_frame_def Let_def set_frame_def)
  show simps: "pager ?b = pager b" "replacer ?b = replacer b" "length (frames ?b) = length (frames b)"
    "free_frames ?b = free_frames b" "wal ?b = wal b"
    by (simp_all add: drop_frame_def Let_def set_frame_def)
  have jf: "j = pid" if "(j, f) \<in> set (page_table b)" for j using core_invD(3) [OF inv res that] .
  have fres: "f \<in> resident b" using res by (metis image_eqI snd_conv)
  show rs: "resident ?b = resident b - {f}"
  proof (intro set_eqI iffI)
    fix g assume "g \<in> resident ?b"
    then obtain j where "(j, g) \<in> set (page_table b)" "j \<noteq> pid" by (auto simp: pt set_delete)
    then show "g \<in> resident b - {f}" using jf by force
  next
    fix g assume "g \<in> resident b - {f}"
    then obtain j where j: "(j, g) \<in> set (page_table b)" "g \<noteq> f" by auto
    then have "j \<noteq> pid" using core_invD(5) [OF inv res] by auto
    then have "(j, g) \<in> set (page_table ?b)" using j(1) by (simp add: pt set_delete)
    then show "g \<in> resident ?b" by (metis image_eqI snd_conv)
  qed
  have "frame_ok ?b j g" if "(j, g) \<in> set (page_table ?b)" for j g
  proof -
    have jg: "(j, g) \<in> set (page_table b)" "j \<noteq> pid" using that by (auto simp: pt set_delete)
    then have "g \<noteq> f" using jf by auto
    then show ?thesis using core_invD(2) [OF inv jg(1)] by (simp add: frame_ok_def fr simps)
  qed
  moreover have "distinct (map fst (page_table ?b))" "distinct (map snd (page_table ?b))"
    using inv by (auto simp: pt core_inv_def distinct_delete AList.delete_eq distinct_map_filter)
  ultimately show "core_inv {f} ?b"
    using inv fl fres unfolding core_inv_def rs simps by auto
  show "pview ?b j = pview b j" for j
  proof (cases "j = pid")
    case True
    have "map_of (page_table b) pid = Some f" using core_invD(4) [OF inv] res by simp
    then show ?thesis using True cl fo by (simp add: pview_def pt map_of_delete simps frame_ok_def)
  next
    case False
    have "g \<noteq> f" if "map_of (page_table b) j = Some g" for g
      using that False jf core_invD(4) [OF inv] by auto
    then show ?thesis using False fr by (auto simp: pview_def pt map_of_delete simps split: option.split)
  qed
qed

lemma rep_inv_cong:
  assumes "rep_inv Y b" and "replacer b' = replacer b" and "page_table b' = page_table b"
    and "\<And>g. pin_count (frames b' ! g) = pin_count (frames b ! g)"
  shows "rep_inv Y b'"
  using assms by (simp add: rep_inv_def)

lemma keeps_cong:
  assumes "meta (pager b') = meta (pager b)" and "verify_checksums (pager b') = verify_checksums (pager b)"
    and "\<And>j. data_page (pager b) j \<Longrightarrow> pview b' j = pview b j" and "page_table b' = page_table b"
    and "\<And>g. pin_count (frames b' ! g) = pin_count (frames b ! g)"
  shows "keeps b b'"
  using assms by (simp add: keeps_def)

lemma evict_step:
  assumes inv: "pool_inv {} b" and ev: "Evict (replacer b) = (Some v, r)"
  shows "core_inv {} (b\<lparr>replacer := r\<rparr>)" and "rep_inv {v} (b\<lparr>replacer := r\<rparr>)" and "\<exists>pid. (pid, v) \<in> set (page_table b)"
    and "pin_count (frames b ! v) = 0"
proof -
  have core: "core_inv {} b" and rep: "rep_inv {} b" using inv by (auto simp: pool_inv_def)
  have e: "evictable (replacer b) v = Some True" "r = Remove (replacer b) v" using Evict_cases [OF ev] by auto
  then have v: "v \<in> resident b \<and> pin_count (frames b ! v) = 0" using rep by (auto simp: rep_inv_def split: if_splits)
  then show "\<exists>pid. (pid, v) \<in> set (page_table b)" "pin_count (frames b ! v) = 0" by auto
  show "core_inv {} (b\<lparr>replacer := r\<rparr>)" by (rule core_inv_cong [OF core]) simp_all
  show "rep_inv {v} (b\<lparr>replacer := r\<rparr>)"
    using rep e(2) by (auto simp: rep_inv_def evictable_ops lru_inv_ops)
qed

lemma keeps_same:
  assumes "pager b' = pager b" and "frames b' = frames b" and "page_table b' = page_table b"
  shows "keeps b b'"
  using pview_cong [OF assms] assms by (intro keeps_cong) simp_all

lemma drop_victim:
  assumes core: "core_inv {} b" and rep: "rep_inv {v} b" and res: "(pid, v) \<in> set (page_table b)"
    and pin: "pin_count (frames b ! v) = 0" and cl: "\<not> dirty (frames b ! v)"
  shows "pool_inv {v} (drop_frame b v)" and "keeps b (drop_frame b v)"
proof -
  note d = drop_frame_ok [OF core res cl]
  have "rep_inv {} (drop_frame b v)"
    using rep d(4) unfolding rep_inv_def d(6,9) by auto
  then show "pool_inv {v} (drop_frame b v)" using d(1) by (simp add: pool_inv_def)
  have "(j, g) \<in> set (page_table (drop_frame b v)) \<and> pin_count (frames b ! g) \<le> pin_count (frames (drop_frame b v) ! g)"
    if "(j, g) \<in> set (page_table b)" "0 < pin_count (frames b ! g)" for j g
  proof -
    have "g \<noteq> v" using that(2) pin by auto
    moreover have "j \<noteq> pid"
    proof
      assume "j = pid"
      with that(1) core_invD(5) [OF core res] have "g = v" by simp
      with \<open>g \<noteq> v\<close> show False ..
    qed
    ultimately show ?thesis using that(1) d(2,4) by (simp add: set_delete)
  qed
  then show "keeps b (drop_frame b v)" using d(3,5) by (simp add: keeps_def)
qed

lemma AcquireFrameLocked_ok:
  assumes inv: "pool_inv {} b" and ac: "AcquireFrameLocked b = (r, b')"
  shows "keeps b b' \<and> (case r of Inl s \<Rightarrow> pool_inv {} b' | Inr f \<Rightarrow> pool_inv {f} b' \<and> f < length (frames b'))"
proof (cases "free_frames b")
  case (Cons f fs)
  then have r: "r = Inr f" "b' = b\<lparr>free_frames := fs\<rparr>" using ac by (auto simp: AcquireFrameLocked_def)
  have core: "core_inv {} b" using inv by (simp add: pool_inv_def)
  have fo: "frame_ok b' = frame_ok b" using r(2) by (simp add: frame_ok_def fun_eq_iff)
  have fs: "f \<notin> set fs" "distinct fs" "set (free_frames b) = insert f (set fs)" using core Cons by (auto simp: core_inv_def)
  have "core_inv {f} b'"
    using core fs unfolding core_inv_def fo using r(2) by auto
  moreover have "rep_inv {} b'" by (rule rep_inv_cong [of _ b]) (use inv r(2) in \<open>simp_all add: pool_inv_def\<close>)
  ultimately have "pool_inv {f} b'" by (simp add: pool_inv_def)
  moreover have "f < length (frames b')" using core fs r(2) by (auto simp: core_inv_def)
  moreover have "keeps b b'" using r(2) by (intro keeps_same) simp_all
  ultimately show ?thesis using r(1) by simp
next
  case Nil
  obtain v rp where ev: "Evict (replacer b) = (v, rp)" by fastforce
  show ?thesis
  proof (cases v)
    case None
    then have "b' = b\<lparr>replacer := rp\<rparr>" "r = Inl kBusy" "rp = replacer b"
      using ac Nil ev Evict_cases [OF ev] by (auto simp: AcquireFrameLocked_def)
    then show ?thesis using inv by simp
  next
    case (Some f)
    let ?b = "b\<lparr>replacer := rp\<rparr>"
    note es = evict_step [OF inv ev [unfolded Some]]
    obtain pid where res: "(pid, f) \<in> set (page_table ?b)" using es(3) by auto
    have kp: "keeps b ?b" by (rule keeps_same) simp_all
    have fl: "f < length (frames b)" using core_invD(2) [OF es(1) res] by (simp add: frame_ok_def)
    show ?thesis
    proof (cases "dirty (frames b ! f)")
      case False
      then have r: "r = Inr f" "b' = drop_frame ?b f" using ac Nil ev Some by (simp_all add: AcquireFrameLocked_def Let_def)
      note d = drop_victim [OF es(1,2) res] and l = drop_frame_ok(7) [OF es(1) res]
      show ?thesis using d False es(4) r keeps_trans [OF kp] l fl by simp
    next
      case True
      obtain s b1 where wb: "write_back ?b f = (s, b1)" by fastforce
      note w = write_back_ok [OF es(1) res _ wb]
      have dt: "dirty (frames ?b ! f)" using True by simp
      have rep1: "rep_inv {f} b1" by (rule rep_inv_cong [OF es(2) w(4,2)]) (use w(6) dt in simp_all)
      have k1: "keeps b b1"
        by (rule keeps_trans [OF kp], rule keeps_cong) (use w dt in simp_all)
      have res1: "(pid, f) \<in> set (page_table b1)" using w(2) dt res by simp
      have pin1: "pin_count (frames b1 ! f) = 0" using w(6) dt es(4) by simp
      show ?thesis
      proof (cases "s = kOk")
        case ok: True
        then have r: "r = Inr f" "b' = drop_frame b1 f" using ac Nil ev Some True wb by (simp_all add: AcquireFrameLocked_def Let_def)
        have cl: "\<not> dirty (frames b1 ! f)" using w(10) dt ok by simp
        have co: "core_inv {} b1" using w(1) dt by simp
        note d = drop_victim [OF co rep1 res1 pin1 cl] and l = drop_frame_ok(7) [OF co res1 cl]
        show ?thesis using d r keeps_trans [OF k1] l fl w(5) dt by simp
      next
        case err: False
        let ?r = "SetEvictable (RecordAccess (replacer b1) f) f True"
        have r: "r = Inl s" "b' = b1\<lparr>replacer := ?r\<rparr>" using ac Nil ev Some True wb err by (simp_all add: AcquireFrameLocked_def Let_def)
        have "core_inv {} b'" by (rule core_inv_cong [of _ b1]) (use w(1) dt r in simp_all)
        moreover have "f \<in> resident b1" using res1 by (metis image_eqI snd_conv)
        then have "rep_inv {} b'"
          using rep1 pin1 r(2) by (auto simp: rep_inv_def evictable_ops lru_inv_ops split: if_splits)
        moreover have "keeps b b'" by (rule keeps_trans [OF k1], rule keeps_same) (use r in simp_all)
        ultimately show ?thesis using r(1) by (simp add: pool_inv_def)
      qed
    qed
  qed
qed

subsection \<open>Fetching and allocating\<close>

lemma install_ok:
  assumes inv: "pool_inv {f} b" and f: "f < length (frames b)" and nr: "map_of (page_table b) pid = None"
    and dp: "data_page (pager b) pid" and pg: "mem_ok pg" "page_of_bytes (disk (pager b) pid) = pg"
  shows "pool_inv {} (install b f pid pg)" and "keeps b (install b f pid pg)"
    and "frames (install b f pid pg) ! f = \<lparr>fpage = pg, fpid = pid, pin_count = 1, dirty = False\<rparr>"
    and "(pid, f) \<in> set (page_table (install b f pid pg))"
proof -
  let ?b = "install b f pid pg" and ?fr = "\<lparr>fpage = pg, fpid = pid, pin_count = 1, dirty = False\<rparr>"
  have core: "core_inv {f} b" and rep: "rep_inv {} b" using inv by (auto simp: pool_inv_def)
  have b: "pager ?b = pager b" "frames ?b = (frames b)[f := ?fr]" "free_frames ?b = free_frames b"
    "page_table ?b = (pid, f) # page_table b" "replacer ?b = SetEvictable (RecordAccess (replacer b) f) f False"
    using nr by (simp_all add: install_def Let_def set_frame_def)
  have nf: "f \<notin> resident b" "f \<notin> set (free_frames b)" using core by (auto simp: core_inv_def)
  have np: "pid \<notin> fst ` set (page_table b)" using nr by (simp add: map_of_eq_None_iff)
  show "frames ?b ! f = ?fr" "(pid, f) \<in> set (page_table ?b)" using f by (simp_all add: b)
  have fr: "frames ?b ! g = frames b ! g" if g: "g \<in> resident b" for g
  proof -
    have "g \<noteq> f" using nf(1) g by blast
    then show ?thesis unfolding b(2) by simp
  qed
  have "frame_ok ?b j g" if "(j, g) \<in> set (page_table ?b)" for j g
  proof (cases "(j, g) = (pid, f)")
    case True
    then show ?thesis using f dp pg by (simp add: frame_ok_def b)
  next
    case False
    then have jg: "(j, g) \<in> set (page_table b)" using that b(4) by auto
    then have "g \<in> resident b" by (metis image_eqI snd_conv)
    then show ?thesis using core_invD(2) [OF core jg] fr by (simp add: frame_ok_def b(1)) (simp add: b(2))
  qed
  then have "core_inv {} ?b"
    using core nf np f unfolding core_inv_def b by (auto simp: image_iff)
  moreover have "rep_inv {} ?b"
    using rep nf fr f unfolding rep_inv_def b(4,5) by (auto simp: evictable_ops lru_inv_ops b(2))
  ultimately show "pool_inv {} ?b" by (simp add: pool_inv_def)
  have "pview ?b j = pview b j" for j
  proof (cases "j = pid")
    case True
    then show ?thesis using nr f pg(2) by (simp add: pview_def b)
  next
    case False
    have "g \<noteq> f" if "map_of (page_table b) j = Some g" for g
    proof
      assume "g = f"
      then have "f \<in> resident b" using map_of_SomeD [OF that] by (metis image_eqI snd_conv)
      with nf show False by blast
    qed
    then show ?thesis using False by (auto simp: pview_def b split: option.split)
  qed
  moreover have "pin_count (frames b ! g) \<le> pin_count (frames ?b ! g)" if "(j, g) \<in> set (page_table b)" for j g
    using fr [of g] that by (metis image_eqI snd_conv order_refl)
  ultimately show "keeps b ?b" by (simp add: keeps_def b)
qed

lemma rep_inv_pin:
  assumes rep: "rep_inv {} b" and "f < length (frames b)" and "f \<in> resident b"
    and "frames b' = (frames b)[f := fr]" and "page_table b' = page_table b"
    and "evictable (replacer b') = (evictable (replacer b))(f \<mapsto> (pin_count fr = 0))" and "lru_inv (replacer b')"
  shows "rep_inv {} b'"
  using assms by (auto simp: rep_inv_def nth_list_update)

lemma pin_change_ok:
  assumes inv: "pool_inv X b" and res: "(pid, f) \<in> set (page_table b)"
    and b': "pager b' = pager b" "frames b' = (frames b)[f := (frames b ! f)\<lparr>pin_count := n\<rparr>]" "page_table b' = page_table b"
      "free_frames b' = free_frames b"
    and ev: "evictable (replacer b') = (evictable (replacer b))(f \<mapsto> (n = 0))" "lru_inv (replacer b')"
  shows "pool_inv X b'" and "pview b' j = pview b j"
proof -
  have core: "core_inv X b" and rep: "rep_inv {} b" using inv by (auto simp: pool_inv_def)
  have fl: "f < length (frames b)" using core_invD(2) [OF core res] by (simp add: frame_ok_def)
  have fr: "frames b' ! f = (frames b ! f)\<lparr>pin_count := n\<rparr>" "\<And>g. g \<noteq> f \<Longrightarrow> frames b' ! g = frames b ! g"
    using b'(2) fl by simp_all
  have same: "fpage (frames b' ! g) = fpage (frames b ! g)" "fpid (frames b' ! g) = fpid (frames b ! g)"
    "dirty (frames b' ! g) = dirty (frames b ! g)" for g
    using fr by (cases "g = f"; simp)+
  have "frame_ok b' j g = frame_ok b j g" for j g by (simp add: frame_ok_def same b'(1)) (simp add: b'(2))
  then have "core_inv X b'" using core unfolding core_inv_def b'(1,3,4) by (simp add: b'(2))
  moreover have "f \<in> resident b" using res by (metis image_eqI snd_conv)
  then have "rep_inv {} b'" using rep_inv_pin [OF rep fl _ b'(2,3)] ev by simp
  ultimately show "pool_inv X b'" by (simp add: pool_inv_def)
  show "pview b' j = pview b j" unfolding pview_def b'(1,3) same ..
qed

lemma rep_evictable:
  assumes "rep_inv {} b" and "f \<in> resident b"
  shows "evictable (replacer b) f = Some (pin_count (frames b ! f) = 0)"
  using assms by (simp add: rep_inv_def)

text \<open>Eviction only removes entries of the page table; a frame taken can be given back to the free list.\<close>

lemma AcquireFrameLocked_pages:
  assumes inv: "pool_inv {} b" and ac: "AcquireFrameLocked b = (r, b')" and "map_of (page_table b) pid = None"
  shows "map_of (page_table b') pid = None"
proof (cases "free_frames b")
  case Nil
  obtain v rp where ev: "Evict (replacer b) = (v, rp)" by fastforce
  show ?thesis
  proof (cases v)
    case (Some f)
    let ?b = "b\<lparr>replacer := rp\<rparr>"
    note es = evict_step [OF inv ev [unfolded Some]]
    obtain q where res: "(q, f) \<in> set (page_table ?b)" using es(3) by auto
    obtain s b1 where wb: "write_back ?b f = (s, b1)" by fastforce
    have "page_table b1 = page_table b" if "dirty (frames b ! f)"
      using write_back_ok(2) [OF es(1) res _ wb] that by simp
    moreover have "page_table (drop_frame x f) = AList.delete (fpid (frames x ! f)) (page_table x)" for x
      by (simp add: drop_frame_def Let_def set_frame_def)
    ultimately show ?thesis
      using assms(3) ac Nil ev Some wb
      by (auto simp: AcquireFrameLocked_def Let_def map_of_delete split: if_splits)
  qed (use assms(3) ac Nil ev in \<open>auto simp: AcquireFrameLocked_def\<close>)
qed (use assms(3) ac in \<open>auto simp: AcquireFrameLocked_def\<close>)

lemma give_back:
  assumes inv: "pool_inv {f} b" and "pager b' = pager b" and "frames b' = frames b" and "page_table b' = page_table b"
    and "replacer b' = replacer b" and "free_frames b' = f # free_frames b"
  shows "pool_inv {} b'"
proof -
  have core: "core_inv {f} b" and rep: "rep_inv {} b" using inv by (auto simp: pool_inv_def)
  have fo: "frame_ok b' = frame_ok b" using assms by (simp add: frame_ok_def fun_eq_iff)
  have "core_inv {} b'" using core unfolding core_inv_def fo assms(2-6) by auto
  moreover have "rep_inv {} b'" by (rule rep_inv_cong [OF rep]) (use assms in simp_all)
  ultimately show ?thesis by (simp add: pool_inv_def)
qed

lemma FetchPageInternal_ok:
  assumes inv: "pool_inv {} b" and ft: "FetchPageInternal b pid = (r, b')"
  shows "keeps b b' \<and> pool_inv {} b' \<and>
    (\<forall>f. r = Inr f \<longrightarrow> data_page (pager b) pid \<and> (pid, f) \<in> set (page_table b') \<and> 0 < pin_count (frames b' ! f) \<and>
       stamp (fpage (frames b' ! f)) 0 = pview b pid)"
proof (cases "map_of (page_table b) pid")
  case (Some f)
  have core: "core_inv {} b" and rep: "rep_inv {} b" using inv by (auto simp: pool_inv_def)
  have res: "(pid, f) \<in> set (page_table b)" using Some by (rule map_of_SomeD)
  have fr: "f \<in> resident b" using res by (metis image_eqI snd_conv)
  have fo: "frame_ok b pid f" by (rule core_invD(2) [OF core res])
  let ?n = "pin_count (frames b ! f) + 1"
  have b': "r = Inr f" "pager b' = pager b" "frames b' = (frames b)[f := (frames b ! f)\<lparr>pin_count := ?n\<rparr>]"
    "page_table b' = page_table b" "free_frames b' = free_frames b"
    "replacer b' = SetEvictable (RecordAccess (replacer b) f) f False"
    using ft Some by (auto simp: FetchPageInternal_def Let_def set_frame_def)
  have lr: "lru_inv (replacer b)" using rep by (simp add: rep_inv_def)
  have "evictable (replacer b') = (evictable (replacer b))(f \<mapsto> (?n = 0))"
    using rep_evictable [OF rep fr] by (simp add: fun_eq_iff evictable_ops b'(6))
  note p = pin_change_ok [OF inv res b'(2-5) this]
  have fl: "f < length (frames b)" using fo by (simp add: frame_ok_def)
  have pin: "pin_count (frames b ! g) \<le> pin_count (frames b' ! g)" for g using fl by (cases "g = f") (simp_all add: b'(3))
  have "pool_inv {} b'" "\<And>j. pview b' j = pview b j" using p lr by (simp_all add: b'(6) lru_inv_ops)
  moreover have "keeps b b'" using calculation(2) pin b'(2,4) by (simp add: keeps_def)
  moreover have "stamp (fpage (frames b' ! f)) 0 = pview b pid" "0 < pin_count (frames b' ! f)"
    using fl Some by (simp_all add: b'(3) pview_def)
  ultimately show ?thesis using b'(1,4) res fo by (auto simp: frame_ok_def)
next
  case None
  let ?b0 = "b\<lparr>stats := (stats b)\<lparr>misses := misses (stats b) + 1\<rparr>\<rparr>"
  have inv0: "pool_inv {} ?b0" and k0: "keeps b ?b0"
    using inv by (auto simp: pool_inv_def rep_inv_def intro: core_inv_cong keeps_same)
  obtain r1 b1 where ac: "AcquireFrameLocked ?b0 = (r1, b1)" by fastforce
  note a = AcquireFrameLocked_ok [OF inv0 ac]
  have k1: "keeps b b1" using keeps_trans [OF k0] a by blast
  show ?thesis
  proof (cases r1)
    case (Inl s)
    then have "r = Inl s" "b' = b1" using ft None ac by (simp_all add: FetchPageInternal_def)
    then show ?thesis using a Inl k1 by simp
  next
    case (Inr f)
    then have p1: "pool_inv {f} b1" "f < length (frames b1)" using a by simp_all
    have core1: "core_inv {f} b1" using p1(1) by (simp add: pool_inv_def)
    have dpe: "data_page (pager b1) = data_page (pager b)" using k1 by (simp add: keeps_def data_page_def fun_eq_iff)
    obtain r2 i where rd: "ReadPage (pager b1) pid (io b1) = (r2, i)" by fastforce
    have nr1: "map_of (page_table b1) pid = None"
      using None AcquireFrameLocked_pages [OF inv0 ac] by simp
    show ?thesis
    proof (cases r2)
      case (Inl s)
      then have r: "r = Inl s" "b' = b1\<lparr>io := i, free_frames := f # free_frames b1\<rparr>"
        using ft None ac Inr rd by (simp_all add: FetchPageInternal_def)
      have "keeps b1 b'" using r(2) by (intro keeps_same) simp_all
      moreover have "pool_inv {} b'"
        using give_back [OF p1(1), of b'] r(2) by simp
      ultimately show ?thesis using r(1) keeps_trans [OF k1] by simp
    next
      case (Inr pg)
      then have r: "r = Inr f" "b' = install (b1\<lparr>io := i\<rparr>) f pid pg"
        using ft None ac \<open>r1 = Inr f\<close> rd by (simp_all add: FetchPageInternal_def)
      note rp = ReadPage_Inr [OF rd [unfolded Inr]]
      let ?b1 = "b1\<lparr>io := i\<rparr>"
      have i1: "pool_inv {f} ?b1" using p1(1) by (auto simp: pool_inv_def rep_inv_def intro: core_inv_cong)
      have k2: "keeps b1 ?b1" by (rule keeps_same) simp_all
      note ins = install_ok [OF i1, of pid pg]
      have mo: "mem_ok pg" using rp(2) by simp
      have "pview b pid = pview b1 pid" using k1 rp(1) dpe by (simp add: keeps_def)
      also have "\<dots> = stamp pg 0" using nr1 rp(2) by (simp add: pview_def)
      finally have "stamp pg 0 = pview b pid" by simp
      then show ?thesis
        using ins rp p1(2) nr1 mo r keeps_trans [OF keeps_trans [OF k1 k2]] dpe by simp
    qed
  qed
qed

subsection \<open>New pages\<close>

text \<open>Eviction writes no page that is not resident, so the pages of the free list stay as they are.\<close>

lemma write_back_disk:
  assumes inv: "core_inv X b" and res: "(pid, f) \<in> set (page_table b)" and wb: "write_back b f = (s, b')"
    and j: "data_page (pager b) j" "map_of (page_table b) j = None"
  shows "disk (pager b') j = disk (pager b) j"
proof -
  obtain s1 b1 where e: "EnforceWalRule b (frames b ! f) = (s1, b1)" by fastforce
  note ef = EnforceWalRule_fields [OF e]
  have fp: "fpid (frames b ! f) = pid" using core_invD(2) [OF inv res] by (simp add: frame_ok_def)
  obtain s2 pg p i where w: "WritePage (pager b) pid (fpage (frames b ! f)) (io b1) = (s2, pg, p, i)" by (metis prod_cases4)
  note wc = WritePage_cases [OF core_invD(1) [OF inv] w]
  have "j \<noteq> pid" using core_invD(4) [OF inv, of pid f] res j(2) by auto
  then have "disk p j = disk (pager b) j" using wc(4) j(1) by (simp add: data_page_def)
  moreover have "pager b' = (if s1 = kOk then p else pager b)"
    using wb e w ef(1) by (auto simp: write_back_def set_frame_def Let_def ef(2) fp split: if_splits)
  ultimately show ?thesis by simp
qed

lemma AcquireFrameLocked_disk:
  assumes inv: "pool_inv {} b" and ac: "AcquireFrameLocked b = (r, b')"
    and j: "data_page (pager b) j" "map_of (page_table b) j = None"
  shows "disk (pager b') j = disk (pager b) j"
proof (cases "free_frames b")
  case Nil
  obtain v rp where ev: "Evict (replacer b) = (v, rp)" by fastforce
  show ?thesis
  proof (cases v)
    case (Some f)
    let ?b = "b\<lparr>replacer := rp\<rparr>"
    note es = evict_step [OF inv ev [unfolded Some]]
    obtain q where res: "(q, f) \<in> set (page_table ?b)" using es(3) by auto
    obtain s b1 where wb: "write_back ?b f = (s, b1)" by fastforce
    have "disk (pager b1) j = disk (pager b) j" using write_back_disk [OF es(1) res wb] j by simp
    moreover have "pager (drop_frame x f) = pager x" for x by (simp add: drop_frame_def Let_def set_frame_def)
    ultimately show ?thesis
      using ac Nil ev Some wb by (auto simp: AcquireFrameLocked_def Let_def split: if_splits)
  qed (use ac Nil ev in \<open>auto simp: AcquireFrameLocked_def\<close>)
qed (use ac in \<open>auto simp: AcquireFrameLocked_def\<close>)

text \<open>The free pages of the file, none of them resident.\<close>

definition free_pages :: "BufferPool \<Rightarrow> PageId list \<Rightarrow> bool" where
  "free_pages b ids \<longleftrightarrow> flist (pager b) (free_list_head (meta (pager b))) ids \<and> set ids \<inter> fst ` set (page_table b) = {}"

lemma AcquireFrameLocked_free_pages:
  assumes inv: "pool_inv {} b" and ac: "AcquireFrameLocked b = (r, b')" and fp: "free_pages b ids"
  shows "free_pages b' ids"
proof -
  have m: "meta (pager b') = meta (pager b)" using AcquireFrameLocked_ok [OF inv ac] by (auto simp: keeps_def)
  have fl: "flist (pager b) (free_list_head (meta (pager b))) ids" using fp by (simp add: free_pages_def)
  have nr: "map_of (page_table b) x = None" if "x \<in> set ids" for x
    using fp that by (auto simp: free_pages_def map_of_eq_None_iff)
  have "flist (pager b') (free_list_head (meta (pager b'))) ids"
    unfolding m by (rule flist_frame [OF fl]) (use AcquireFrameLocked_disk [OF inv ac] nr flist_data_page [OF fl] m in simp_all)
  moreover have "x \<notin> fst ` set (page_table b')" if "x \<in> set ids" for x
    using AcquireFrameLocked_pages [OF inv ac nr [OF that]] by (simp add: map_of_eq_None_iff)
  ultimately show ?thesis by (auto simp: free_pages_def)
qed

text \<open>Growing the file or recycling a free page does not touch what the frames cache.\<close>

lemma core_inv_pager:
  assumes inv: "core_inv X b" and "pager_inv p" and np: "num_pages (meta (pager b)) \<le> num_pages (meta p)"
    and dk: "\<And>j. j \<in> fst ` set (page_table b) \<Longrightarrow> disk p j = disk (pager b) j"
  shows "core_inv X (b\<lparr>pager := p, io := i\<rparr>)"
proof -
  have "frame_ok (b\<lparr>pager := p, io := i\<rparr>) j g" if "(j, g) \<in> set (page_table b)" for j g
  proof -
    have "j \<in> fst ` set (page_table b)" using that by (metis image_eqI fst_conv)
    then show ?thesis using core_invD(2) [OF inv that] dk np by (auto simp: frame_ok_def data_page_def)
  qed
  then show ?thesis using inv assms(2) by (simp add: core_inv_def)
qed

lemma pview_pager:
  assumes "disk p j = disk (pager b) j \<or> j \<in> fst ` set (page_table b)"
  shows "pview (b\<lparr>pager := p, io := i\<rparr>) j = pview b j"
proof (cases "map_of (page_table b) j")
  case None
  then have "disk p j = disk (pager b) j" using assms by (simp add: map_of_eq_None_iff)
  then show ?thesis using None by (simp add: pview_def)
qed (simp add: pview_def)

definition pins_kept :: "BufferPool \<Rightarrow> BufferPool \<Rightarrow> bool" where
  "pins_kept b b' \<longleftrightarrow> (\<forall>pid f. (pid, f) \<in> set (page_table b) \<longrightarrow> 0 < pin_count (frames b ! f) \<longrightarrow>
     (pid, f) \<in> set (page_table b') \<and> pin_count (frames b ! f) \<le> pin_count (frames b' ! f))"

lemma keepsD:
  assumes "keeps b b'"
  shows "pins_kept b b'" and "meta (pager b') = meta (pager b)" and "data_page (pager b') = data_page (pager b)"
    and "data_page (pager b) j \<Longrightarrow> pview b' j = pview b j"
  using assms by (auto simp: keeps_def pins_kept_def data_page_def fun_eq_iff)

lemma pins_kept_trans: "pins_kept a b \<Longrightarrow> pins_kept b c \<Longrightarrow> pins_kept a c"
  unfolding pins_kept_def by (meson order_trans order_less_le_trans)

lemma pins_kept_same: "page_table b' = page_table b \<Longrightarrow> frames b' = frames b \<Longrightarrow> pins_kept b b'"
  by (simp add: pins_kept_def)

lemma invalid_not_data_page: "\<not> data_page p kInvalidPageId"
proof -
  have "unat n < 2 ^ 32" for n :: PageId by (rule order_less_le_trans [OF unsigned_less]) simp
  from this [of "num_pages (meta p)"] show ?thesis by (simp add: data_page_def kInvalidPageId_def word_less_nat_alt)
qed

lemma pool_grow:
  assumes inv: "pool_inv X b" and fp: "free_pages b ids" and bound: "unat (num_pages (meta (pager b))) + 1 < 2 ^ 32"
    and al: "AllocatePage (pager b) (io b) = (r, p, i)"
  shows "pool_inv X (b\<lparr>pager := p, io := i\<rparr>)"
    and "\<And>j. data_page (pager b) j \<Longrightarrow> j \<notin> set ids \<Longrightarrow> pview (b\<lparr>pager := p, io := i\<rparr>) j = pview b j"
    and "\<And>x. r = Inr x \<Longrightarrow> page_of_bytes (disk p x) = zero_page \<and> data_page p x \<and> x \<notin> fst ` set (page_table b) \<and>
      x = (case ids of [] \<Rightarrow> num_pages (meta (pager b)) | y # _ \<Rightarrow> y) \<and> flist p (free_list_head (meta p)) (tl ids) \<and> x \<notin> set (tl ids)"
    and "\<And>j. data_page (pager b) j \<Longrightarrow> data_page p j"
proof -
  have core: "core_inv X b" and fl: "flist (pager b) (free_list_head (meta (pager b))) ids"
    and nr: "set ids \<inter> fst ` set (page_table b) = {}" using inv fp by (auto simp: pool_inv_def free_pages_def)
  note ak = AllocatePage_ok [OF core_invD(1) [OF core] fl bound al]
  have dr: "data_page (pager b) j" if "j \<in> fst ` set (page_table b)" for j
    using that core_invD(2) [OF core] by (auto simp: frame_ok_def)
  have hd: "j \<noteq> free_list_head (meta (pager b))" if "data_page (pager b) j" "j \<notin> set ids" for j
    using that fl invalid_not_data_page [of "pager b"] by (cases ids) auto
  have dk: "disk p j = disk (pager b) j" if "data_page (pager b) j" "j \<notin> set ids" for j
    using AllocatePage_frame [OF core_invD(1) [OF core] al] that hd [OF that] by (simp add: data_page_def)
  have np: "num_pages (meta (pager b)) \<le> num_pages (meta p)"
  proof (cases r)
    case (Inl e)
    then show ?thesis using ak(2) by simp
  next
    case (Inr x)
    have "num_pages (meta (pager b)) \<le> num_pages (meta (pager b)) + 1"
      using bound by (simp add: word_le_nat_alt unat_word_ariths)
    then show ?thesis using ak(3) [OF Inr] by (auto split: list.splits)
  qed
  have "core_inv X (b\<lparr>pager := p, io := i\<rparr>)"
    by (rule core_inv_pager [OF core ak(1) np]) (use dk dr nr in auto)
  moreover have "rep_inv {} (b\<lparr>pager := p, io := i\<rparr>)" by (rule rep_inv_cong [of _ b]) (use inv in \<open>simp_all add: pool_inv_def\<close>)
  ultimately show "pool_inv X (b\<lparr>pager := p, io := i\<rparr>)" by (simp add: pool_inv_def)
  show "pview (b\<lparr>pager := p, io := i\<rparr>) j = pview b j" if "data_page (pager b) j" "j \<notin> set ids" for j
    by (rule pview_pager) (use dk [OF that] in simp)
  show "data_page (pager b) j \<Longrightarrow> data_page p j" for j using np by (auto simp: data_page_def)
  fix x assume x: "r = Inr x"
  have "x \<notin> fst ` set (page_table b)"
  proof (cases ids)
    case Nil
    then have "\<not> data_page (pager b) x" using ak(3) [OF x] by (simp add: data_page_def)
    then show ?thesis using dr by blast
  next
    case (Cons y ys)
    then show ?thesis using ak(3) [OF x] nr by auto
  qed
  then show "page_of_bytes (disk p x) = zero_page \<and> data_page p x \<and> x \<notin> fst ` set (page_table b) \<and>
      x = (case ids of [] \<Rightarrow> num_pages (meta (pager b)) | y # _ \<Rightarrow> y) \<and> flist p (free_list_head (meta p)) (tl ids) \<and> x \<notin> set (tl ids)"
    using ak(3) [OF x] fl by (auto simp: zero_page_def split: list.splits)
qed

lemma NewPage_ok:
  assumes inv: "pool_inv {} b" and fp: "free_pages b ids" and bound: "unat (num_pages (meta (pager b))) + 1 < 2 ^ 32"
    and nw: "NewPage b = (r, b')"
  shows "pool_inv {} b'" and "pins_kept b b'"
    and "\<And>j. data_page (pager b) j \<Longrightarrow> j \<notin> set ids \<Longrightarrow> pview b' j = pview b j"
    and "\<And>f pid. r = Inr (f, pid) \<Longrightarrow> (pid, f) \<in> set (page_table b') \<and> pin_count (frames b' ! f) = 1 \<and>
       pview b' pid = stamp zero_page 0 \<and>
       pid = (case ids of [] \<Rightarrow> num_pages (meta (pager b)) | y # _ \<Rightarrow> y) \<and> free_pages b' (tl ids)"
proof -
  obtain r1 b1 where ac: "AcquireFrameLocked b = (r1, b1)" by fastforce
  note a = AcquireFrameLocked_ok [OF inv ac] and fp1 = AcquireFrameLocked_free_pages [OF inv ac fp]
  let ?concl = "pool_inv {} b' \<and> pins_kept b b' \<and>
    (\<forall>j. data_page (pager b) j \<longrightarrow> j \<notin> set ids \<longrightarrow> pview b' j = pview b j) \<and>
    (\<forall>f pid. r = Inr (f, pid) \<longrightarrow> (pid, f) \<in> set (page_table b') \<and> pin_count (frames b' ! f) = 1 \<and>
       pview b' pid = stamp zero_page 0 \<and>
       pid = (case ids of [] \<Rightarrow> num_pages (meta (pager b)) | y # _ \<Rightarrow> y) \<and> free_pages b' (tl ids))"
  have ?concl
  proof (cases r1)
    case (Inl s)
    then have "r = Inl s" "b' = b1" using nw ac by (simp_all add: NewPage_def)
    then show ?thesis using a Inl keepsD(1,4) by auto
  next
    case (Inr f)
    then have p1: "pool_inv {f} b1" "f < length (frames b1)" and k1: "keeps b b1" using a by simp_all
    note kd = keepsD [OF k1]
    obtain r2 p i where al: "AllocatePage (pager b1) (io b1) = (r2, p, i)" by (metis prod_cases3)
    let ?b1 = "b1\<lparr>pager := p, io := i\<rparr>"
    note g = pool_grow [OF p1(1) fp1 _ al]
    have bound1: "unat (num_pages (meta (pager b1))) + 1 < 2 ^ 32" using bound kd(2) by simp
    have pk: "pins_kept b ?b1" using pins_kept_trans [OF kd(1) pins_kept_same, of ?b1] by simp
    have vw: "pview ?b1 j = pview b j" if "data_page (pager b) j" "j \<notin> set ids" for j
      using g(2) [OF bound1] that kd(3,4) by simp
    show ?thesis
    proof (cases r2)
      case (Inl s)
      then have r: "r = Inl s" "b' = ?b1\<lparr>free_frames := f # free_frames b1\<rparr>"
        using nw ac Inr al by (simp_all add: NewPage_def)
      have same: "pager b' = pager ?b1" "frames b' = frames ?b1" "page_table b' = page_table ?b1" using r(2) by simp_all
      have "pool_inv {} b'" by (rule give_back [OF g(1) [OF bound1]]) (use r(2) in simp_all)
      moreover have "pins_kept b b'" by (rule pins_kept_trans [OF pk pins_kept_same]) (use same in simp_all)
      ultimately show ?thesis using r(1) vw pview_cong [OF same] by simp
    next
      case x: (Inr x)
      then have r: "r = Inr (f, x)" "b' = install ?b1 f x zero_page"
        using nw ac Inr al by (simp_all add: NewPage_def)
      have g3: "page_of_bytes (disk p x) = zero_page" "data_page p x" "x \<notin> fst ` set (page_table b1)"
        "x = (case ids of [] \<Rightarrow> num_pages (meta (pager b)) | y # _ \<Rightarrow> y)" "flist p (free_list_head (meta p)) (tl ids)" "x \<notin> set (tl ids)"
        using g(3) [OF bound1 x] unfolding kd(2) by blast+
      have nx: "map_of (page_table ?b1) x = None" using g3(3) by (simp add: map_of_eq_None_iff)
      have zp: "page_of_bytes (disk (pager ?b1) x) = zero_page" "mem_ok zero_page" "data_page (pager ?b1) x"
        using g3(1,2) by (simp_all add: zero_page_def kPageSize_def)
      have fl: "f < length (frames ?b1)" using p1(2) by simp
      note ins = install_ok [OF g(1) [OF bound1] fl nx zp(3,2,1)]
      note ki = keepsD [OF ins(2), folded r(2)]
      have pt: "page_table b' = (x, f) # page_table b1" "pager b' = p"
        using nx r(2) by (simp_all add: install_def Let_def set_frame_def)
      have "free_pages b' (tl ids)"
        using g3(5,6) fp1 list.set_sel(2) [of ids] unfolding free_pages_def pt by (cases ids) auto
      moreover have "pview b' x = stamp zero_page 0" using ins(3) [folded r(2)] by (simp add: pview_def pt(1))
      moreover have "data_page p j" if "data_page (pager b) j" for j using g(4) [OF bound1] that kd(3) by simp
      then have "pview b' j = pview b j" if "data_page (pager b) j" "j \<notin> set ids" for j
        using ki(4) vw that by simp
      ultimately show ?thesis
        using ins(1,3,4) r g3(4) pins_kept_trans [OF pk ki(1)] by simp
    qed
  qed
  then show "pool_inv {} b'" and "pins_kept b b'"
    and "\<And>j. data_page (pager b) j \<Longrightarrow> j \<notin> set ids \<Longrightarrow> pview b' j = pview b j"
    and "\<And>f pid. r = Inr (f, pid) \<Longrightarrow> (pid, f) \<in> set (page_table b') \<and> pin_count (frames b' ! f) = 1 \<and>
       pview b' pid = stamp zero_page 0 \<and>
       pid = (case ids of [] \<Rightarrow> num_pages (meta (pager b)) | y # _ \<Rightarrow> y) \<and> free_pages b' (tl ids)" by blast+
qed

subsection \<open>Guards and flushes\<close>

lemma pinned_resident:
  assumes "pool_inv X b" and "(pid, f) \<in> set (page_table b)"
  shows "f \<in> resident b" and "f < length (frames b)" and "evictable (replacer b) f = Some (pin_count (frames b ! f) = 0)"
    and "lru_inv (replacer b)"
proof -
  show r: "f \<in> resident b" using assms(2) by (metis image_eqI snd_conv)
  show "f < length (frames b)" using assms core_invD(2) by (auto simp: pool_inv_def frame_ok_def)
  show "evictable (replacer b) f = Some (pin_count (frames b ! f) = 0)" "lru_inv (replacer b)"
    using assms(1) rep_evictable [OF _ r] by (auto simp: pool_inv_def rep_inv_def)
qed

lemma ReleaseGuard_ok:
  assumes inv: "pool_inv X b" and res: "(pid, f) \<in> set (page_table b)" and pin: "0 < pin_count (frames b ! f)"
  shows "pool_inv X (ReleaseGuard b f)" and "pview (ReleaseGuard b f) j = pview b j"
    and "pager (ReleaseGuard b f) = pager b" and "page_table (ReleaseGuard b f) = page_table b"
    and "frames (ReleaseGuard b f) = (frames b)[f := (frames b ! f)\<lparr>pin_count := pin_count (frames b ! f) - 1\<rparr>]"
proof -
  let ?b = "ReleaseGuard b f" and ?n = "pin_count (frames b ! f) - 1"
  note pr = pinned_resident [OF inv res]
  show s: "pager ?b = pager b" "page_table ?b = page_table b"
    "frames ?b = (frames b)[f := (frames b ! f)\<lparr>pin_count := ?n\<rparr>]"
    by (simp_all add: ReleaseGuard_def Let_def set_frame_def)
  have "free_frames ?b = free_frames b" by (simp add: ReleaseGuard_def Let_def set_frame_def)
  moreover have "evictable (replacer ?b) = (evictable (replacer b))(f \<mapsto> (?n = 0))" "lru_inv (replacer ?b)"
    using pr(3,4) pin by (auto simp: ReleaseGuard_def Let_def set_frame_def evictable_ops lru_inv_ops fun_eq_iff)
  ultimately show "pool_inv X ?b" "pview ?b j = pview b j"
    using pin_change_ok [OF inv res s(1,3,2)] by blast+
qed

lemma pin_frame_ok:
  assumes inv: "pool_inv X b" and res: "(pid, f) \<in> set (page_table b)"
  shows "pool_inv X (pin_frame f b)" and "pview (pin_frame f b) j = pview b j"
    and "pager (pin_frame f b) = pager b" and "page_table (pin_frame f b) = page_table b"
    and "frames (pin_frame f b) = (frames b)[f := (frames b ! f)\<lparr>pin_count := pin_count (frames b ! f) + 1\<rparr>]"
proof -
  let ?b = "pin_frame f b" and ?n = "pin_count (frames b ! f) + 1"
  note pr = pinned_resident [OF inv res]
  show s: "pager ?b = pager b" "page_table ?b = page_table b"
    "frames ?b = (frames b)[f := (frames b ! f)\<lparr>pin_count := ?n\<rparr>]"
    by (simp_all add: pin_frame_def Let_def set_frame_def)
  have "free_frames ?b = free_frames b" by (simp add: pin_frame_def Let_def set_frame_def)
  moreover have "evictable (replacer ?b) = (evictable (replacer b))(f \<mapsto> (?n = 0))" "lru_inv (replacer ?b)"
    using pr(3,4) by (auto simp: pin_frame_def Let_def set_frame_def evictable_ops lru_inv_ops fun_eq_iff)
  ultimately show "pool_inv X ?b" "pview ?b j = pview b j"
    using pin_change_ok [OF inv res s(1,3,2)] by blast+
qed

text \<open>A client holding an exclusive guard changes the page's bytes and marks the frame dirty.\<close>

definition guard_write :: "BufferPool \<Rightarrow> FrameId \<Rightarrow> Page \<Rightarrow> BufferPool" where
  "guard_write b f pg = MarkDirty (set_frame b f ((frames b ! f)\<lparr>fpage := pg\<rparr>)) f"

lemma guard_write_ok:
  assumes inv: "pool_inv X b" and res: "(pid, f) \<in> set (page_table b)" and pg: "mem_ok pg"
  shows "pool_inv X (guard_write b f pg)" and "pview (guard_write b f pg) pid = stamp pg 0"
    and "j \<noteq> pid \<Longrightarrow> pview (guard_write b f pg) j = pview b j" and "pins_kept b (guard_write b f pg)"
    and "free_pages b ids \<Longrightarrow> free_pages (guard_write b f pg) ids"
proof -
  let ?b = "guard_write b f pg"
  have core: "core_inv X b" and rep: "rep_inv {} b" using inv by (auto simp: pool_inv_def)
  note pr = pinned_resident [OF inv res]
  have b: "pager ?b = pager b" "page_table ?b = page_table b" "replacer ?b = replacer b" "free_frames ?b = free_frames b"
    "frames ?b = (frames b)[f := (frames b ! f)\<lparr>fpage := pg, dirty := True\<rparr>]"
    using pr(2) by (simp_all add: guard_write_def MarkDirty_def set_frame_def)
  have fr: "frames ?b ! g = (if g = f then (frames b ! f)\<lparr>fpage := pg, dirty := True\<rparr> else frames b ! g)" for g
    using pr(2) by (simp add: b(5))
  have "frame_ok ?b j g" if "(j, g) \<in> set (page_table b)" for j g
    using core_invD(2) [OF core that] pg unfolding frame_ok_def b(1) fr by (auto simp: b(5))
  then have "core_inv X ?b" using core unfolding core_inv_def b(1,2,4) by (simp add: b(5))
  moreover have "rep_inv {} ?b" by (rule rep_inv_cong [OF rep b(3,2)]) (simp add: fr)
  ultimately show "pool_inv X ?b" by (simp add: pool_inv_def)
  have m: "map_of (page_table b) pid = Some f" using core_invD(4) [OF core] res by simp
  show "pview ?b pid = stamp pg 0" unfolding pview_def b(2) m by (simp add: fr)
  show "pview ?b j = pview b j" if "j \<noteq> pid"
  proof -
    have "g \<noteq> f" if "map_of (page_table b) j = Some g" for g
      using core_invD(3) [OF core res] core_invD(4) [OF core] that \<open>j \<noteq> pid\<close> by auto
    then show ?thesis unfolding pview_def b(1,2) by (auto simp: fr split: option.split)
  qed
  show "pins_kept b ?b" by (simp add: pins_kept_def b(2) fr)
  show "free_pages b ids \<Longrightarrow> free_pages ?b ids" by (simp add: free_pages_def b(1,2))
qed

text \<open>One page written back under a pin, as in \<open>FlushPage\<close> and \<open>FlushAll\<close>.\<close>

lemma flush_one:
  assumes inv: "pool_inv {} b" and res: "(pid, f) \<in> set (page_table b)"
    and fl: "(if c \<and> dirty (frames b ! f) then write_back b f else (s0, b)) = (s, b')"
  shows "pool_inv {} b'" and "page_table b' = page_table b" and "meta (pager b') = meta (pager b)"
    and "\<And>j. data_page (pager b) j \<Longrightarrow> pview b' j = pview b j"
    and "\<And>g. pin_count (frames b' ! g) = pin_count (frames b ! g)"
    and "\<And>g. g \<noteq> f \<Longrightarrow> frames b' ! g = frames b ! g"
    and "c \<Longrightarrow> s = kOk \<Longrightarrow> \<not> dirty (frames b' ! f)" and "c \<Longrightarrow> s0 = kOk \<Longrightarrow> s \<noteq> kOk \<Longrightarrow> dirty (frames b ! f)"
    and "length (frames b') = length (frames b)"
proof -
  have core: "core_inv {} b" and rep: "rep_inv {} b" using inv by (auto simp: pool_inv_def)
  have "pool_inv {} b' \<and> page_table b' = page_table b \<and> meta (pager b') = meta (pager b) \<and>
    (\<forall>j. data_page (pager b) j \<longrightarrow> pview b' j = pview b j) \<and>
    (\<forall>g. pin_count (frames b' ! g) = pin_count (frames b ! g)) \<and>
    (\<forall>g. g \<noteq> f \<longrightarrow> frames b' ! g = frames b ! g) \<and> (c \<longrightarrow> s = kOk \<longrightarrow> \<not> dirty (frames b' ! f)) \<and>
    (c \<longrightarrow> s0 = kOk \<longrightarrow> s \<noteq> kOk \<longrightarrow> dirty (frames b ! f)) \<and> length (frames b') = length (frames b)"
  proof (cases "c \<and> dirty (frames b ! f)")
    case True
    note w = write_back_ok [OF core res conjunct2 [OF True]]
    have wb: "write_back b f = (s, b')" using fl True by simp
    have "rep_inv {} b'" by (rule rep_inv_cong [OF rep w(4,2)]) (use wb w(6) [OF wb] in simp_all)
    then show ?thesis using w [OF wb] True by (simp add: pool_inv_def)
  next
    case False
    then have "b' = b" "s = s0" using fl by auto
    then show ?thesis using inv False by auto
  qed
  then show "pool_inv {} b'" "page_table b' = page_table b" "meta (pager b') = meta (pager b)"
    "\<And>j. data_page (pager b) j \<Longrightarrow> pview b' j = pview b j"
    "\<And>g. pin_count (frames b' ! g) = pin_count (frames b ! g)"
    "\<And>g. g \<noteq> f \<Longrightarrow> frames b' ! g = frames b ! g"
    "c \<Longrightarrow> s = kOk \<Longrightarrow> \<not> dirty (frames b' ! f)" "c \<Longrightarrow> s0 = kOk \<Longrightarrow> s \<noteq> kOk \<Longrightarrow> dirty (frames b ! f)"
    "length (frames b') = length (frames b)" by blast+
qed

text \<open>
  The loop of \<open>FlushAll\<close> visits each pinned frame once: the views never change, the frames visited before
  the first error become clean, and every pin taken is given back.
\<close>

lemma flush_loop_ok:
  assumes "pool_inv {} b" and "\<forall>f \<in> set fs. f \<in> resident b \<and> 0 < pin_count (frames b ! f)" and "distinct fs"
    and "flush_loop fs s0 b = (s, b')"
  shows "pool_inv {} b' \<and> page_table b' = page_table b \<and> meta (pager b') = meta (pager b) \<and>
    (\<forall>j. data_page (pager b) j \<longrightarrow> pview b' j = pview b j) \<and>
    (\<forall>g. pin_count (frames b' ! g) = pin_count (frames b ! g) - (if g \<in> set fs then 1 else 0)) \<and>
    (\<forall>g. g \<notin> set fs \<longrightarrow> frames b' ! g = frames b ! g) \<and>
    (s = kOk \<longrightarrow> s0 = kOk \<and> (\<forall>g \<in> set fs. \<not> dirty (frames b' ! g)))"
  using assms
proof (induction fs arbitrary: s0 b)
  case (Cons f fs)
  obtain s1 b1 where fo: "(if s0 = kOk \<and> dirty (frames b ! f) then write_back b f else (s0, b)) = (s1, b1)" by fastforce
  obtain pid where res: "(pid, f) \<in> set (page_table b)" using Cons.prems(2) by auto
  note o = flush_one [OF Cons.prems(1) res fo]
  have pin: "0 < pin_count (frames b1 ! f)" and res1: "(pid, f) \<in> set (page_table b1)" using Cons.prems(2) o(2,5) res by auto
  note g = ReleaseGuard_ok [OF o(1) res1 pin]
  let ?b2 = "ReleaseGuard b1 f"
  have fl: "f < length (frames b1)" using pinned_resident(2) [OF o(1) res1] .
  have fr: "frames ?b2 ! g = (if g = f then (frames b1 ! f)\<lparr>pin_count := pin_count (frames b1 ! f) - 1\<rparr> else frames b1 ! g)" for g
    using fl by (simp add: g(5))
  have pre: "\<forall>h \<in> set fs. h \<in> resident ?b2 \<and> 0 < pin_count (frames ?b2 ! h)"
    using Cons.prems(2,3) unfolding g(4) o(2) by (auto simp: fr o(5))
  have rec: "flush_loop fs s1 ?b2 = (s, b')" using Cons.prems(4) fo by simp
  have dpe: "data_page (pager ?b2) = data_page (pager b)" using o(3) by (simp add: g(3) data_page_def fun_eq_iff)
  have IH: "pool_inv {} b'" "page_table b' = page_table ?b2" "meta (pager b') = meta (pager ?b2)"
    "\<And>j. data_page (pager b) j \<Longrightarrow> pview b' j = pview ?b2 j"
    "\<And>g. pin_count (frames b' ! g) = pin_count (frames ?b2 ! g) - (if g \<in> set fs then 1 else 0)"
    "\<And>g. g \<notin> set fs \<Longrightarrow> frames b' ! g = frames ?b2 ! g"
    "s = kOk \<Longrightarrow> s1 = kOk" "\<And>g. s = kOk \<Longrightarrow> g \<in> set fs \<Longrightarrow> \<not> dirty (frames b' ! g)"
    using Cons.IH [OF g(1) pre _ rec] Cons.prems(3) unfolding dpe by auto
  have f: "f \<notin> set fs" using Cons.prems(3) by simp
  have "\<not> dirty (frames b' ! h)" if "s = kOk" "h \<in> set (f # fs)" for h
  proof (cases "h = f")
    case True
    have "s1 = kOk" "s0 = kOk" using IH(7) [OF that(1)] fo by (auto split: if_splits)
    then have "\<not> dirty (frames b1 ! f)" using o(7) by simp
    then show ?thesis using True IH(6) [OF f] by (simp add: fr)
  qed (use IH(8) that in simp)
  moreover have "pin_count (frames b' ! h) = pin_count (frames b ! h) - (if h \<in> set (f # fs) then 1 else 0)" for h
    using IH(5) f by (simp add: fr o(5))
  moreover have "frames b' ! h = frames b ! h" if "h \<notin> set (f # fs)" for h using IH(6) that by (simp add: fr o(6))
  moreover have "s0 = kOk" if "s = kOk" using IH(7) [OF that] fo by (auto split: if_splits)
  ultimately show ?case using IH(1-4) g(2-4) o(2-4) by simp
qed simp

lemma pin_fold_ok:
  assumes "pool_inv {} b" and "set fs \<subseteq> resident b" and "distinct fs"
  shows "pool_inv {} (fold pin_frame fs b) \<and> page_table (fold pin_frame fs b) = page_table b \<and>
    pager (fold pin_frame fs b) = pager b \<and> (\<forall>j. pview (fold pin_frame fs b) j = pview b j) \<and>
    (\<forall>g. frames (fold pin_frame fs b) ! g =
       (frames b ! g)\<lparr>pin_count := pin_count (frames b ! g) + (if g \<in> set fs then 1 else 0)\<rparr>)"
  using assms
proof (induction fs arbitrary: b)
  case (Cons f fs)
  obtain pid where res: "(pid, f) \<in> set (page_table b)" using Cons.prems(2) by auto
  note p = pin_frame_ok [OF Cons.prems(1) res]
  have fl: "f < length (frames b)" using pinned_resident(2) [OF Cons.prems(1) res] .
  have "set fs \<subseteq> resident (pin_frame f b)" using Cons.prems(2) by (simp add: p(4))
  with Cons.IH [OF p(1)] Cons.prems(3) have IH: "pool_inv {} (fold pin_frame fs (pin_frame f b))"
    "page_table (fold pin_frame fs (pin_frame f b)) = page_table b" "pager (fold pin_frame fs (pin_frame f b)) = pager b"
    "\<And>j. pview (fold pin_frame fs (pin_frame f b)) j = pview b j"
    "\<And>g. frames (fold pin_frame fs (pin_frame f b)) ! g = (frames (pin_frame f b) ! g)\<lparr>pin_count :=
       pin_count (frames (pin_frame f b) ! g) + (if g \<in> set fs then 1 else 0)\<rparr>" by (auto simp: p)
  have "frames (pin_frame f b) ! g = (if g = f then (frames b ! f)\<lparr>pin_count := pin_count (frames b ! f) + 1\<rparr> else frames b ! g)" for g
    using fl by (simp add: p(5))
  then show ?case using IH Cons.prems(3) by auto
qed simp

lemma FlushAll_ok:
  assumes inv: "pool_inv {} b" and fl: "FlushAll b = (s, b')"
  shows "pool_inv {} b'" and "page_table b' = page_table b" and "meta (pager b') = meta (pager b)"
    and "\<And>j. data_page (pager b) j \<Longrightarrow> pview b' j = pview b j" and "\<And>g. pin_count (frames b' ! g) = pin_count (frames b ! g)"
    and "s = kOk \<Longrightarrow> data_page (pager b) j \<Longrightarrow> stamp (page_of_bytes (disk (pager b') j)) 0 = pview b j"
proof -
  let ?fs = "map snd (page_table b)" let ?b1 = "fold pin_frame ?fs b"
  have d: "distinct ?fs" using inv by (simp add: pool_inv_def core_inv_def)
  have p: "pool_inv {} ?b1" "page_table ?b1 = page_table b" "pager ?b1 = pager b" "\<And>j. pview ?b1 j = pview b j"
    "\<And>g. frames ?b1 ! g = (frames b ! g)\<lparr>pin_count := pin_count (frames b ! g) + (if g \<in> set ?fs then 1 else 0)\<rparr>"
    using pin_fold_ok [OF inv _ d] by auto
  have pre: "\<forall>f \<in> set ?fs. f \<in> resident ?b1 \<and> 0 < pin_count (frames ?b1 ! f)" by (auto simp: p(2,5) image_iff)
  have "flush_loop ?fs kOk ?b1 = (s, b')" using fl by (simp add: FlushAll_def Let_def)
  note l = flush_loop_ok [OF p(1) pre d this]
  show inv': "pool_inv {} b'" and pt: "page_table b' = page_table b" and mt: "meta (pager b') = meta (pager b)" using l p by auto
  show vw: "pview b' j = pview b j" if "data_page (pager b) j" for j using l p(3,4) that by simp
  show "pin_count (frames b' ! g) = pin_count (frames b ! g)" for g using l p(5) by simp
  show "stamp (page_of_bytes (disk (pager b') j)) 0 = pview b j" if ok: "s = kOk" and dj: "data_page (pager b) j"
  proof (cases "map_of (page_table b) j")
    case None
    then show ?thesis using vw [OF dj] pt by (simp add: pview_def)
  next
    case (Some f)
    then have jf: "(j, f) \<in> set (page_table b')" using pt by (simp add: map_of_SomeD)
    then have "f \<in> set ?fs" unfolding pt by force
    then have "\<not> dirty (frames b' ! f)" using l ok by blast
    moreover have "frame_ok b' j f" using inv' core_invD(2) [OF _ jf] by (auto simp: pool_inv_def)
    ultimately have "fpage (frames b' ! f) = page_of_bytes (disk (pager b') j)" by (simp add: frame_ok_def)
    then show ?thesis using vw [OF dj] Some pt by (simp add: pview_def)
  qed
qed

subsection \<open>Pin accounting\<close>

text \<open>The exact effect of every operation on the pin counts, by page: what a client needs to see that no guard leaks.\<close>

lemma PinCount_cong:
  "page_table b' = page_table b \<Longrightarrow> (\<And>g. pin_count (frames b' ! g) = pin_count (frames b ! g)) \<Longrightarrow> PinCount b' = PinCount b"
  by (rule ext) (simp add: PinCount_def split: option.split)

lemma PinCount_drop_frame:
  assumes core: "core_inv X b" and res: "(pid, v) \<in> set (page_table b)" and pin: "pin_count (frames b ! v) = 0"
  shows "PinCount (drop_frame b v) = PinCount b"
proof
  fix j
  have fp: "fpid (frames b ! v) = pid" "v < length (frames b)" using core_invD(2) [OF core res] by (auto simp: frame_ok_def)
  have m: "map_of (page_table b) pid = Some v" using core_invD(4) [OF core] res by simp
  have pt: "page_table (drop_frame b v) = AList.delete pid (page_table b)"
    by (simp add: drop_frame_def Let_def set_frame_def fp)
  have fr: "pin_count (frames (drop_frame b v) ! g) = pin_count (frames b ! g)" for g
    using fp(2) by (cases "g = v") (simp_all add: drop_frame_def Let_def set_frame_def)
  show "PinCount (drop_frame b v) j = PinCount b j"
    using m pin by (cases "j = pid") (simp_all add: PinCount_def pt map_of_delete fr split: option.split)
qed

lemma AcquireFrameLocked_pins:
  assumes inv: "pool_inv {} b" and ac: "AcquireFrameLocked b = (r, b')"
  shows "PinCount b' = PinCount b"
proof (cases "free_frames b")
  case Nil
  obtain v rp where ev: "Evict (replacer b) = (v, rp)" by fastforce
  have rp: "PinCount (x\<lparr>replacer := q\<rparr>) = PinCount x" for x q by (rule PinCount_cong) simp_all
  show ?thesis
  proof (cases v)
    case (Some f)
    let ?b = "b\<lparr>replacer := rp\<rparr>"
    note es = evict_step [OF inv ev [unfolded Some]]
    obtain q where res: "(q, f) \<in> set (page_table ?b)" using es(3) by auto
    obtain s b1 where wb: "write_back ?b f = (s, b1)" by fastforce
    have p1: "PinCount b1 = PinCount b" "PinCount (drop_frame b1 f) = PinCount b" if d: "dirty (frames b ! f)"
    proof -
      note w = write_back_ok [OF es(1) res _ wb]
      show e: "PinCount b1 = PinCount b" by (rule PinCount_cong) (use w(2,6) d in simp_all)
      have "PinCount (drop_frame b1 f) = PinCount b1"
        by (rule PinCount_drop_frame [of "{}" _ q]) (use w(1,2,6) d res es(4) in simp_all)
      with e show "PinCount (drop_frame b1 f) = PinCount b" by simp
    qed
    moreover have "PinCount (drop_frame ?b f) = PinCount b"
      using PinCount_drop_frame [OF es(1) res] es(4) rp by simp
    ultimately show ?thesis
      using ac Nil ev Some wb by (auto simp: AcquireFrameLocked_def Let_def rp split: if_splits)
  qed (use ac Nil ev rp in \<open>auto simp: AcquireFrameLocked_def\<close>)
next
  case (Cons f fs)
  then show ?thesis using ac by (intro PinCount_cong) (auto simp: AcquireFrameLocked_def)
qed

lemma PinCount_install:
  assumes inv: "pool_inv {f} b" and f: "f < length (frames b)" and nr: "map_of (page_table b) pid = None"
  shows "PinCount (install b f pid pg) = (PinCount b)(pid := 1)"
proof
  fix j
  have nf: "f \<notin> resident b" using inv by (auto simp: pool_inv_def core_inv_def)
  have "g \<noteq> f" if "map_of (page_table b) j = Some g" for g
    using nf map_of_SomeD [OF that] by (metis image_eqI snd_conv)
  then show "PinCount (install b f pid pg) j = ((PinCount b)(pid := 1)) j"
    using nr f by (auto simp: PinCount_def install_def Let_def set_frame_def split: option.split)
qed

lemma FetchPageInternal_pins:
  assumes inv: "pool_inv {} b" and ft: "FetchPageInternal b pid = (r, b')"
  shows "PinCount b' = (case r of Inl _ \<Rightarrow> PinCount b | Inr _ \<Rightarrow> (PinCount b)(pid := PinCount b pid + 1))"
proof (cases "map_of (page_table b) pid")
  case (Some f)
  have core: "core_inv {} b" using inv by (simp add: pool_inv_def)
  have res: "(pid, f) \<in> set (page_table b)" using Some by (rule map_of_SomeD)
  have fl: "f < length (frames b)" using core_invD(2) [OF core res] by (simp add: frame_ok_def)
  have b': "r = Inr f" "frames b' = (frames b)[f := (frames b ! f)\<lparr>pin_count := pin_count (frames b ! f) + 1\<rparr>]"
    "page_table b' = page_table b" using ft Some by (auto simp: FetchPageInternal_def Let_def set_frame_def)
  have ne: "g \<noteq> f" if "map_of (page_table b) j = Some g" "j \<noteq> pid" for j g
    using core_invD(3) [OF core res] map_of_SomeD [OF that(1)] that(2) by auto
  have "PinCount b' j = ((PinCount b)(pid := PinCount b pid + 1)) j" for j
    using Some fl ne [of j] by (auto simp: PinCount_def b' split: option.split)
  then show ?thesis using b'(1) by (simp add: fun_eq_iff)
next
  case None
  let ?b0 = "b\<lparr>stats := (stats b)\<lparr>misses := misses (stats b) + 1\<rparr>\<rparr>"
  have inv0: "pool_inv {} ?b0" using inv by (auto simp: pool_inv_def rep_inv_def intro: core_inv_cong)
  obtain r1 b1 where ac: "AcquireFrameLocked ?b0 = (r1, b1)" by fastforce
  have p0: "PinCount ?b0 = PinCount b" by (rule PinCount_cong) simp_all
  have p1: "PinCount b1 = PinCount b" using AcquireFrameLocked_pins [OF inv0 ac] p0 by simp
  show ?thesis
  proof (cases r1)
    case (Inl s)
    then show ?thesis using ft None ac p1 by (auto simp: FetchPageInternal_def)
  next
    case (Inr f)
    obtain r2 i where rd: "ReadPage (pager b1) pid (io b1) = (r2, i)" by fastforce
    have nr1: "map_of (page_table b1) pid = None" using None AcquireFrameLocked_pages [OF inv0 ac] by simp
    have z: "PinCount b pid = 0" using None by (simp add: PinCount_def)
    let ?b1 = "b1\<lparr>io := i\<rparr>"
    have i1: "pool_inv {f} ?b1" and fl: "f < length (frames ?b1)"
      using AcquireFrameLocked_ok [OF inv0 ac] Inr by (auto simp: pool_inv_def rep_inv_def intro: core_inv_cong)
    have "PinCount ?b1 = PinCount b1" "PinCount (b1\<lparr>io := i, free_frames := f # free_frames b1\<rparr>) = PinCount b1"
      by (rule PinCount_cong; simp)+
    then have e: "PinCount ?b1 = PinCount b" "PinCount (b1\<lparr>io := i, free_frames := f # free_frames b1\<rparr>) = PinCount b"
      using p1 by simp_all
    show ?thesis
      using ft None ac Inr rd e z PinCount_install [OF i1 fl, of pid] nr1
      by (auto simp: FetchPageInternal_def split: sum.splits)
  qed
qed

lemma ReleaseGuard_pins:
  assumes inv: "pool_inv X b" and res: "(pid, f) \<in> set (page_table b)" and pin: "0 < pin_count (frames b ! f)"
  shows "PinCount (ReleaseGuard b f) = (PinCount b)(pid := PinCount b pid - 1)"
proof
  fix j
  note g = ReleaseGuard_ok [OF inv res pin]
  have core: "core_inv X b" using inv by (simp add: pool_inv_def)
  have m: "map_of (page_table b) pid = Some f" using core_invD(4) [OF core] res by simp
  have "h \<noteq> f" if "map_of (page_table b) j = Some h" "j \<noteq> pid" for h
    using core_invD(3) [OF core res] map_of_SomeD [OF that(1)] that(2) by auto
  then show "PinCount (ReleaseGuard b f) j = ((PinCount b)(pid := PinCount b pid - 1)) j"
    using m pinned_resident(2) [OF inv res] by (auto simp: PinCount_def g(4,5) split: option.split)
qed

subsection \<open>The write-ahead rule\<close>

definition log_flushed :: "LogWriter \<Rightarrow> bool" where
  "log_flushed w \<longleftrightarrow> buffer w = [] \<and> flushed_lsn w = end_lsn w"

lemma log_flushed_synced:
  assumes "wal_inv w rs" and "log_flushed w"
  shows "synced (wfile w) = ser rs"
proof -
  have "FlushLocked w calm = (kOk, w, calm)" using assms(2) by (simp add: FlushLocked_def log_flushed_def)
  from FlushLocked_inv(5) [OF assms(1) this] show ?thesis by simp
qed

text \<open>A step from \<open>b\<close> to \<open>b'\<close> changes the bytes of a logged page on disk only if the log was flushed before.\<close>

definition wal_rule :: "LogRecord list \<Rightarrow> BufferPool \<Rightarrow> BufferPool \<Rightarrow> bool" where
  "wal_rule rs b b' \<longleftrightarrow> (\<forall>w. wal b = Some w \<longrightarrow> wal_inv w rs \<longrightarrow>
     (\<exists>w'. wal b' = Some w' \<and> wal_inv w' rs \<and> (log_flushed w \<longrightarrow> log_flushed w') \<and>
        (\<forall>j. data_page (pager b) j \<longrightarrow> disk (pager b') j \<noteq> disk (pager b) j \<longrightarrow>
           page_lsn (hdr (pview b j)) \<noteq> kInvalidLsn \<longrightarrow> log_flushed w')))"

lemma wal_rule_same: "wal b' = wal b \<Longrightarrow> pager b' = pager b \<Longrightarrow> wal_rule rs b b'"
  by (simp add: wal_rule_def)

lemma wal_rule_trans:
  assumes ab: "wal_rule rs a b" and bc: "wal_rule rs b c" and m: "meta (pager b) = meta (pager a)"
    and v: "\<And>j. data_page (pager a) j \<Longrightarrow> pview b j = pview a j"
  shows "wal_rule rs a c"
  unfolding wal_rule_def
proof (intro allI impI)
  fix w assume "wal a = Some w" "wal_inv w rs"
  then obtain w1 where w1: "wal b = Some w1" "wal_inv w1 rs" "log_flushed w \<longrightarrow> log_flushed w1"
    "\<And>j. data_page (pager a) j \<Longrightarrow> disk (pager b) j \<noteq> disk (pager a) j \<Longrightarrow> page_lsn (hdr (pview a j)) \<noteq> kInvalidLsn \<Longrightarrow> log_flushed w1"
    using ab unfolding wal_rule_def by blast
  then obtain w2 where w2: "wal c = Some w2" "wal_inv w2 rs" "log_flushed w1 \<longrightarrow> log_flushed w2"
    "\<And>j. data_page (pager b) j \<Longrightarrow> disk (pager c) j \<noteq> disk (pager b) j \<Longrightarrow> page_lsn (hdr (pview b j)) \<noteq> kInvalidLsn \<Longrightarrow> log_flushed w2"
    using bc unfolding wal_rule_def by blast
  have "log_flushed w2" if j: "data_page (pager a) j" "disk (pager c) j \<noteq> disk (pager a) j" "page_lsn (hdr (pview a j)) \<noteq> kInvalidLsn" for j
  proof (cases "disk (pager b) j = disk (pager a) j")
    case True
    moreover have "data_page (pager b) j" using j(1) m by (simp add: data_page_def)
    ultimately show ?thesis using w2(4) [of j] j v by simp
  qed (use w1(4) w2(3) j in blast)
  then show "\<exists>w'. wal c = Some w' \<and> wal_inv w' rs \<and> (log_flushed w \<longrightarrow> log_flushed w') \<and>
      (\<forall>j. data_page (pager a) j \<longrightarrow> disk (pager c) j \<noteq> disk (pager a) j \<longrightarrow>
         page_lsn (hdr (pview a j)) \<noteq> kInvalidLsn \<longrightarrow> log_flushed w')"
    using w1 w2 by blast
qed

lemma EnforceWalRule_log:
  assumes e: "EnforceWalRule b fr = (s, b')" and w: "wal b = Some w" and inv: "wal_inv w rs"
  shows "\<exists>w'. wal b' = Some w' \<and> wal_inv w' rs \<and> (log_flushed w \<longrightarrow> log_flushed w') \<and>
    (s = kOk \<longrightarrow> page_lsn (hdr (fpage fr)) \<noteq> kInvalidLsn \<longrightarrow> log_flushed w')"
proof (cases "page_lsn (hdr (fpage fr)) = kInvalidLsn")
  case True
  then show ?thesis using e w inv by (auto simp: EnforceWalRule_def)
next
  case False
  obtain s1 w' i where f: "Flush w (io b) = (s1, w', i)" by (metis prod_cases3)
  then have "s1 = s" "wal b' = Some w'" using e w False by (auto simp: EnforceWalRule_def)
  moreover have "w' = w" if "log_flushed w" using f that by (simp add: Flush_def FlushLocked_def log_flushed_def)
  ultimately show ?thesis using FlushLocked_inv [OF inv f [unfolded Flush_def]] by (auto simp: log_flushed_def)
qed

lemma write_back_wal:
  assumes inv: "core_inv X b" and res: "(pid, f) \<in> set (page_table b)" and wb: "write_back b f = (s, b')"
  shows "wal_rule rs b b'"
  unfolding wal_rule_def
proof (intro allI impI)
  fix w assume w: "wal b = Some w" "wal_inv w rs"
  obtain s1 b1 where e: "EnforceWalRule b (frames b ! f) = (s1, b1)" by fastforce
  note ef = EnforceWalRule_fields [OF e]
  have fp: "fpid (frames b ! f) = pid" using core_invD(2) [OF inv res] by (simp add: frame_ok_def)
  obtain s2 pg p i where wr: "WritePage (pager b) pid (fpage (frames b ! f)) (io b1) = (s2, pg, p, i)" by (metis prod_cases4)
  note wc = WritePage_cases [OF core_invD(1) [OF inv] wr]
  have b': "pager b' = (if s1 = kOk then p else pager b)" "wal b' = wal b1"
    using wb e wr ef(1) by (auto simp: write_back_def set_frame_def Let_def ef(2) fp split: if_splits)
  obtain w' where w': "wal b1 = Some w'" "wal_inv w' rs" "log_flushed w \<longrightarrow> log_flushed w'"
    "s1 = kOk \<longrightarrow> page_lsn (hdr (fpage (frames b ! f))) \<noteq> kInvalidLsn \<longrightarrow> log_flushed w'"
    using EnforceWalRule_log [OF e w] by blast
  have "log_flushed w'" if j: "data_page (pager b) j" "disk (pager b') j \<noteq> disk (pager b) j" "page_lsn (hdr (pview b j)) \<noteq> kInvalidLsn" for j
  proof -
    have "s1 = kOk" and dj: "disk p j \<noteq> disk (pager b) j" using j(2) b'(1) by (auto split: if_splits)
    have "j = pid" using dj wc(4) [of j] j(1) by (auto simp: data_page_def)
    then have "pview b j = stamp (fpage (frames b ! f)) 0"
      using core_invD(4) [OF inv, of pid f] res by (simp add: pview_def)
    then have "page_lsn (hdr (fpage (frames b ! f))) \<noteq> kInvalidLsn" using j(3) by simp
    then show ?thesis using w'(4) \<open>s1 = kOk\<close> by blast
  qed
  then show "\<exists>w'. wal b' = Some w' \<and> wal_inv w' rs \<and> (log_flushed w \<longrightarrow> log_flushed w') \<and>
      (\<forall>j. data_page (pager b) j \<longrightarrow> disk (pager b') j \<noteq> disk (pager b) j \<longrightarrow>
         page_lsn (hdr (pview b j)) \<noteq> kInvalidLsn \<longrightarrow> log_flushed w')"
    using w' b'(2) by auto
qed

lemma AcquireFrameLocked_wal:
  assumes inv: "pool_inv {} b" and ac: "AcquireFrameLocked b = (r, b')"
  shows "wal_rule rs b b'"
proof (cases "free_frames b")
  case Nil
  obtain v rp where ev: "Evict (replacer b) = (v, rp)" by fastforce
  show ?thesis
  proof (cases v)
    case (Some f)
    let ?b = "b\<lparr>replacer := rp\<rparr>"
    note es = evict_step [OF inv ev [unfolded Some]]
    obtain q where res: "(q, f) \<in> set (page_table ?b)" using es(3) by auto
    obtain s b1 where wb: "write_back ?b f = (s, b1)" by fastforce
    have "wal_rule rs ?b b1" by (rule write_back_wal [OF es(1) res wb])
    moreover have "pview ?b = pview b" by (rule ext, rule pview_cong) simp_all
    ultimately have w1: "wal_rule rs b b1" by (simp add: wal_rule_def)
    have "wal_rule rs b b'" if "pager b' = pager b1" "wal b' = wal b1" using w1 that by (simp add: wal_rule_def)
    moreover have "wal (drop_frame x f) = wal x" "pager (drop_frame x f) = pager x" for x
      by (simp_all add: drop_frame_def Let_def set_frame_def)
    ultimately show ?thesis
      using ac Nil ev Some wb by (auto simp: AcquireFrameLocked_def Let_def wal_rule_same split: if_splits)
  qed (use ac Nil ev in \<open>auto simp: AcquireFrameLocked_def intro: wal_rule_same\<close>)
qed (use ac in \<open>auto simp: AcquireFrameLocked_def intro: wal_rule_same\<close>)

lemma FetchPageInternal_wal:
  assumes inv: "pool_inv {} b" and ft: "FetchPageInternal b pid = (r, b')"
  shows "wal_rule rs b b'"
proof (cases "map_of (page_table b) pid")
  case (Some f)
  then show ?thesis using ft by (intro wal_rule_same) (auto simp: FetchPageInternal_def Let_def set_frame_def)
next
  case None
  let ?b0 = "b\<lparr>stats := (stats b)\<lparr>misses := misses (stats b) + 1\<rparr>\<rparr>"
  have inv0: "pool_inv {} ?b0" using inv by (auto simp: pool_inv_def rep_inv_def intro: core_inv_cong)
  obtain r1 b1 where ac: "AcquireFrameLocked ?b0 = (r1, b1)" by fastforce
  have "pview ?b0 = pview b" by (rule ext, rule pview_cong) simp_all
  then have "wal_rule rs b b1" using AcquireFrameLocked_wal [OF inv0 ac, of rs] by (simp add: wal_rule_def)
  moreover have "pager b' = pager b1" "wal b' = wal b1"
    using ft None ac by (auto simp: FetchPageInternal_def install_def Let_def set_frame_def split: sum.splits prod.splits)
  ultimately show ?thesis by (simp add: wal_rule_def)
qed

lemma flush_loop_wal:
  assumes "pool_inv {} b" and "\<forall>f \<in> set fs. f \<in> resident b \<and> 0 < pin_count (frames b ! f)" and "distinct fs"
    and "flush_loop fs s0 b = (s, b')"
  shows "wal_rule rs b b'"
  using assms
proof (induction fs arbitrary: s0 b)
  case (Cons f fs)
  obtain s1 b1 where fo: "(if s0 = kOk \<and> dirty (frames b ! f) then write_back b f else (s0, b)) = (s1, b1)" by fastforce
  obtain pid where res: "(pid, f) \<in> set (page_table b)" using Cons.prems(2) by auto
  note o = flush_one [OF Cons.prems(1) res fo]
  have w1: "wal_rule rs b b1"
  proof (cases "s0 = kOk \<and> dirty (frames b ! f)")
    case True
    then show ?thesis using write_back_wal [OF _ res] fo Cons.prems(1) by (auto simp: pool_inv_def)
  qed (use fo in \<open>auto intro: wal_rule_same\<close>)
  have pin: "0 < pin_count (frames b1 ! f)" and res1: "(pid, f) \<in> set (page_table b1)" using Cons.prems(2) o(2,5) res by auto
  note g = ReleaseGuard_ok [OF o(1) res1 pin]
  let ?b2 = "ReleaseGuard b1 f"
  have fl: "f < length (frames b1)" using pinned_resident(2) [OF o(1) res1] .
  have fr: "pin_count (frames ?b2 ! h) = pin_count (frames b ! h)" if "h \<noteq> f" for h using fl that by (simp add: g(5) o(5))
  have pre: "\<forall>h \<in> set fs. h \<in> resident ?b2 \<and> 0 < pin_count (frames ?b2 ! h)"
  proof
    fix h assume h: "h \<in> set fs"
    then have "h \<noteq> f" using Cons.prems(3) by auto
    then show "h \<in> resident ?b2 \<and> 0 < pin_count (frames ?b2 ! h)" using Cons.prems(2) h fr unfolding g(4) o(2) by simp
  qed
  have "flush_loop fs s1 ?b2 = (s, b')" using Cons.prems(4) fo by simp
  then have w3: "wal_rule rs ?b2 b'" using Cons.IH [OF g(1) pre] Cons.prems(3) by simp
  have "wal_rule rs b1 ?b2" by (rule wal_rule_same) (simp_all add: ReleaseGuard_def Let_def set_frame_def)
  then have "wal_rule rs b ?b2" by (rule wal_rule_trans [OF w1 _ o(3,4)])
  then show ?case by (rule wal_rule_trans [OF _ w3]) (use o(3,4) g(2,3) in simp_all)
qed (auto intro: wal_rule_same)

lemma FlushAll_wal:
  assumes inv: "pool_inv {} b" and fl: "FlushAll b = (s, b')"
  shows "wal_rule rs b b'"
proof -
  let ?fs = "map snd (page_table b)" let ?b1 = "fold pin_frame ?fs b"
  have d: "distinct ?fs" using inv by (simp add: pool_inv_def core_inv_def)
  have p: "pool_inv {} ?b1" "page_table ?b1 = page_table b" "pager ?b1 = pager b" "\<And>j. pview ?b1 j = pview b j"
    "\<And>g. frames ?b1 ! g = (frames b ! g)\<lparr>pin_count := pin_count (frames b ! g) + (if g \<in> set ?fs then 1 else 0)\<rparr>"
    using pin_fold_ok [OF inv _ d] by auto
  have pre: "\<forall>f \<in> set ?fs. f \<in> resident ?b1 \<and> 0 < pin_count (frames ?b1 ! f)" by (auto simp: p(2,5) image_iff)
  have "wal (pin_frame f x) = wal x" for f x by (simp add: pin_frame_def Let_def set_frame_def)
  then have "wal (fold pin_frame fs x) = wal x" for fs x by (induction fs arbitrary: x) simp_all
  then have "wal_rule rs b ?b1" by (intro wal_rule_same) (simp_all add: p(3))
  moreover have "wal_rule rs ?b1 b'" by (rule flush_loop_wal [OF p(1) pre d]) (use fl in \<open>simp add: FlushAll_def Let_def\<close>)
  ultimately show ?thesis by (rule wal_rule_trans) (simp_all add: p(3,4))
qed

lemma BufferPool_init_ok:
  assumes "pager_inv p"
  shows "pool_inv {} (BufferPool_init p w i n)" and "pview (BufferPool_init p w i n) j = stamp (page_of_bytes (disk p j)) 0"
    and "flist p (free_list_head (meta p)) ids \<Longrightarrow> free_pages (BufferPool_init p w i n) ids"
  using assms
  by (auto simp: pool_inv_def core_inv_def rep_inv_def BufferPool_init_def LruReplacer_init_def lru_inv_def Let_def
      pview_def free_pages_def)

subsection \<open>Properties\<close>

text \<open>
  C24: fetching a page is transparent. Whatever the operating system does, \<^verbatim>\<open>FetchPage\<close> (with the eviction and
  write-back it may cause) keeps the pool's invariant, the content of every page as seen through the pool and every
  pinned frame in its place; when it succeeds the id is that of a data page, the frame returned is
  pinned and holds exactly the page's current content (the stamped checksum field apart).
\<close>

theorem FetchPage_is_transparent:
  assumes "pool_inv {} b" and "FetchPageInternal b pid = (r, b')"
  shows "pool_inv {} b' \<and> pins_kept b b' \<and> meta (pager b') = meta (pager b) \<and>
    (\<forall>j. data_page (pager b) j \<longrightarrow> pview b' j = pview b j) \<and>
    (\<forall>f. r = Inr f \<longrightarrow> data_page (pager b) pid \<and> (pid, f) \<in> set (page_table b') \<and> 0 < pin_count (frames b' ! f) \<and>
       stamp (fpage (frames b' ! f)) 0 = pview b pid)"
proof -
  note f = FetchPageInternal_ok [OF assms]
  note k = keepsD [OF conjunct1 [OF f]]
  show ?thesis using f k(1,2,4) by blast
qed

abbreviation pager3 :: Pager where
  "pager3 \<equiv> \<lparr>pfile = \<lparr>fd_open = True, content = replicate 12288 0, synced = []\<rparr>, meta = Meta_Init\<lparr>num_pages := 3\<rparr>,
     verify_checksums = True\<rparr>"

theorem FetchPage_is_transparent_witness:
  "let b = BufferPool_init pager3 None calm 4
   in pool_inv {} (snd (FetchPageInternal b 2)) \<and> pview (snd (FetchPageInternal b 2)) 2 = pview b 2"
proof -
  define b where "b = BufferPool_init pager3 None calm 4"
  have inv: "pool_inv {} b" unfolding b_def by (rule BufferPool_init_ok(1) [OF small_pager])
  obtain r b' where f: "FetchPageInternal b 2 = (r, b')" by fastforce
  have "data_page (pager b) 2" by (simp add: b_def BufferPool_init_def Let_def data_page_def kFirstDataPage_def Meta_Init_def)
  with FetchPage_is_transparent [OF inv f] f show ?thesis by (simp add: b_def [symmetric])
qed

text \<open>
  \<^verbatim>\<open>NewPage\<close> hands out a page nobody uses. It pops the free list of the file or extends the file; the page it
  returns is zero, pinned once and not one of the pages in use; the content of every page
  in use and every pinned frame stay, also when it fails.
\<close>

theorem NewPage_is_fresh:
  assumes "pool_inv {} b" and "free_pages b ids" and "unat (num_pages (meta (pager b))) + 1 < 2 ^ 32" and "NewPage b = (r, b')"
  shows "pool_inv {} b' \<and> pins_kept b b' \<and>
    (\<forall>j. data_page (pager b) j \<longrightarrow> j \<notin> set ids \<longrightarrow> pview b' j = pview b j) \<and>
    (\<forall>f pid. r = Inr (f, pid) \<longrightarrow> (pid, f) \<in> set (page_table b') \<and> pin_count (frames b' ! f) = 1 \<and>
       pview b' pid = stamp zero_page 0 \<and> (\<not> data_page (pager b) pid \<or> pid \<in> set ids) \<and> free_pages b' (tl ids))"
proof -
  note n = NewPage_ok [OF assms]
  have "\<not> data_page (pager b) pid \<or> pid \<in> set ids" if "r = Inr (f, pid)" for f pid
    using n(4) [OF that] by (cases ids) (auto simp: data_page_def)
  with n show ?thesis by blast
qed

theorem NewPage_is_fresh_witness:
  "let b = BufferPool_init pager3 None calm 4
   in pview (snd (NewPage b)) 2 = pview b 2 \<and> (\<exists>f pid. fst (NewPage b) = Inr (f, pid) \<and> pview (snd (NewPage b)) pid = stamp zero_page 0)"
proof -
  define b where "b = BufferPool_init pager3 None calm 4"
  have inv: "pool_inv {} b" unfolding b_def by (rule BufferPool_init_ok(1) [OF small_pager])
  have fp: "free_pages b []" unfolding b_def by (rule BufferPool_init_ok(3) [OF small_pager]) (simp add: Meta_Init_def)
  have pb: "pager b = pager3" "io b = calm" "free_frames b = [0 ..< 4]"
    by (simp_all add: b_def BufferPool_init_def Let_def kMinFrames_def)
  have bd: "unat (num_pages (meta (pager b))) + 1 < 2 ^ 32" by (simp add: pb(1) Meta_Init_def)
  obtain r b' where n: "NewPage b = (r, b')" by fastforce
  have "\<exists>f pid. r = Inr (f, pid)"
    using n pb by (auto simp: NewPage_def AcquireFrameLocked_def upt_rec AllocatePage_def Meta_Init_def Write_def take_credit_def
        next_sys_def do_pwrite_def Let_def)
  moreover have "data_page (pager b) 2" by (simp add: pb(1) data_page_def kFirstDataPage_def Meta_Init_def)
  ultimately show ?thesis using NewPage_is_fresh [OF inv fp bd n] n by (auto simp: b_def [symmetric])
qed

text \<open>
  \<^verbatim>\<open>FlushAll\<close> changes no page as seen through the pool and no pin count, also when it fails part way; when it
  succeeds the data file holds the current content of every page.
\<close>

theorem FlushAll_writes_every_page:
  assumes "pool_inv {} b" and "FlushAll b = (s, b')"
  shows "pool_inv {} b' \<and> page_table b' = page_table b \<and> (\<forall>g. pin_count (frames b' ! g) = pin_count (frames b ! g)) \<and>
    (\<forall>j. data_page (pager b) j \<longrightarrow> pview b' j = pview b j) \<and>
    (s = kOk \<longrightarrow> (\<forall>j. data_page (pager b) j \<longrightarrow> stamp (page_of_bytes (disk (pager b') j)) 0 = pview b j))"
  using FlushAll_ok [OF assms] by blast

text \<open>A small pool with one dirty resident page, for the witnesses.\<close>

definition dirty_pool :: "LogWriter option \<Rightarrow> BufferPool" where
  "dirty_pool w = (let b = snd (FetchPageInternal (BufferPool_init pager3 w calm 4) 2)
     in guard_write b 0 (Page_Init 2 kLeaf))"

lemma dirty_pool_ok:
  "pool_inv {} (dirty_pool w)" "pview (dirty_pool w) 2 = stamp (Page_Init 2 kLeaf) 0" "pager (dirty_pool w) = pager3"
  "wal (dirty_pool w) = w" "page_table (dirty_pool w) = [(2, 0)]" "io (dirty_pool w) = calm"
  "dirty (frames (dirty_pool w) ! 0)" "fpid (frames (dirty_pool w) ! 0) = 2" "length (frames (dirty_pool w)) = 4"
  "fpage (frames (dirty_pool w) ! 0) = Page_Init 2 kLeaf"
proof -
  let ?b = "BufferPool_init pager3 w calm 4"
  have pb: "pager ?b = pager3" "io ?b = calm" "free_frames ?b = [0 ..< 4]" "page_table ?b = []" "wal ?b = w"
    "length (frames ?b) = 4"
    by (simp_all add: BufferPool_init_def Let_def kMinFrames_def)
  obtain r b where f: "FetchPageInternal ?b 2 = (r, b)" by fastforce
  have k: "keeps ?b b" "pool_inv {} b"
    and g: "\<And>g. r = Inr g \<Longrightarrow> (2, g) \<in> set (page_table b)"
    using FetchPageInternal_ok [OF BufferPool_init_ok(1) [OF small_pager] f] by blast+
  have z: "ReadPage pager3 2 calm = (Inr (page_of_bytes (disk pager3 2)), calm)"
    by (rule ReadPage_total [OF small_pager])
      (simp_all add: data_page_def kFirstDataPage_def Meta_Init_def trusted_def file_page_def IsZeroed_def kPageSize_def
        RawData_page_of_bytes list_all_iff)
  have "AcquireFrameLocked (?b\<lparr>stats := s\<rparr>) = (Inr 0, ?b\<lparr>stats := s, free_frames := [1, 2, 3]\<rparr>)" for s
    using pb(3) by (simp add: AcquireFrameLocked_def upt_rec)
  then have r0: "r = Inr 0" "wal b = w" "pager b = pager3" "page_table b = [(2, 0)]" "io b = calm" "fpid (frames b ! 0) = 2"
    "length (frames b) = 4"
    using f z pb by (auto simp: FetchPageInternal_def install_def Let_def set_frame_def)
  have mo: "mem_ok (Page_Init 2 kLeaf)" by (simp add: mem_ok_def Page_Init_def)
  have d: "dirty_pool w = guard_write b 0 (Page_Init 2 kLeaf)" by (simp add: dirty_pool_def f)
  note gw = guard_write_ok [OF k(2) g [OF r0(1)] mo]
  show "pool_inv {} (dirty_pool w)" "pview (dirty_pool w) 2 = stamp (Page_Init 2 kLeaf) 0" unfolding d by (rule gw)+
  show "pager (dirty_pool w) = pager3" "wal (dirty_pool w) = w" "page_table (dirty_pool w) = [(2, 0)]" "io (dirty_pool w) = calm"
    "dirty (frames (dirty_pool w) ! 0)" "fpid (frames (dirty_pool w) ! 0) = 2" "length (frames (dirty_pool w)) = 4"
    "fpage (frames (dirty_pool w) ! 0) = Page_Init 2 kLeaf"
    unfolding d using r0 by (simp_all add: guard_write_def MarkDirty_def set_frame_def)
qed

theorem FlushAll_writes_every_page_witness:
  "stamp (page_of_bytes (disk (pager (snd (FlushAll (dirty_pool None)))) 2)) 0 = stamp (Page_Init 2 kLeaf) 0"
proof -
  obtain s b' where f: "FlushAll (dirty_pool None) = (s, b')" by fastforce
  note d = dirty_pool_ok [of None]
  have wr: "fst (WritePage pager3 2 (Page_Init 2 kLeaf) calm) = kOk"
    by (simp add: WritePage_def kFirstDataPage_def Meta_Init_def Write_def take_credit_def next_sys_def do_pwrite_def Let_def)
  have "s = kOk"
    using f wr by (auto simp: FlushAll_def d pin_frame_def write_back_def EnforceWalRule_def set_frame_def Let_def split: prod.splits)
  moreover have "data_page (pager (dirty_pool None)) 2" using d(3) by (simp add: data_page_def kFirstDataPage_def Meta_Init_def)
  ultimately have "stamp (page_of_bytes (disk (pager b') 2)) 0 = pview (dirty_pool None) 2"
    using FlushAll_writes_every_page [OF d(1) f] by blast
  then show ?thesis using f d(2) by simp
qed

text \<open>
  C17: the write-ahead rule. When eviction, a fetch or \<^verbatim>\<open>FlushAll\<close> changes the bytes on disk of a page that
  carries a log sequence number, then every record appended to the log is in the synced part of the log file, for every
  behaviour of the operating system; and the log keeps its records in any case.
\<close>

theorem logged_pages_follow_the_log:
  assumes "pool_inv {} b" and "wal b = Some w" and "wal_inv w rs"
    and "snd (FetchPageInternal b pid) = b' \<or> snd (AcquireFrameLocked b) = b' \<or> snd (FlushAll b) = b'"
  shows "\<exists>w'. wal b' = Some w' \<and> wal_inv w' rs \<and>
    (\<forall>j. data_page (pager b) j \<longrightarrow> disk (pager b') j \<noteq> disk (pager b) j \<longrightarrow>
       page_lsn (hdr (pview b j)) \<noteq> kInvalidLsn \<longrightarrow> synced (wfile w') = ser rs)"
proof -
  have "wal_rule rs b b'"
    using assms(4) FetchPageInternal_wal [OF assms(1)] AcquireFrameLocked_wal [OF assms(1)] FlushAll_wal [OF assms(1)]
    by (metis prod.collapse)
  then show ?thesis using assms(2,3) log_flushed_synced unfolding wal_rule_def by blast
qed

abbreviation empty_log :: LogWriter where
  "empty_log \<equiv> \<lparr>wfile = \<lparr>fd_open = True, content = [], synced = []\<rparr>, buffer = [], base_lsn = 1, end_lsn = 1, flushed_lsn = 1,
     file_bytes = 0, imaged = {}\<rparr>"

lemma empty_log_inv: "wal_inv empty_log []"
  by (auto simp: wal_inv_def intro: exI [of _ 0])

text \<open>A leaf page with the LSN of the only record of a log that is still in the writer's buffer.\<close>

definition put_log :: LogWriter where
  "put_log = snd (Append empty_log (LogRecord_init\<lparr>rtype := kPut, txid := 1, op_end := True, rpage := 2, rkey := [107], rvalue := [118]\<rparr>))"

definition put_record_logged :: LogRecord where
  "put_record_logged = LogRecord_init\<lparr>rtype := kPut, txid := 1, op_end := True, rpage := 2, rkey := [107], rvalue := [118], lsn := 1\<rparr>"

definition logged_page :: Page where
  "logged_page = (Page_Init 2 kLeaf)\<lparr>hdr := (hdr (Page_Init 2 kLeaf))\<lparr>page_lsn := 1\<rparr>\<rparr>"

lemma put_log_inv: "wal_inv put_log [put_record_logged]" "buffer put_log \<noteq> []" "synced (wfile put_log) = []" "wfile put_log = wfile empty_log"
  "file_bytes put_log = 0"
proof -
  let ?r = "LogRecord_init\<lparr>rtype := kPut, txid := 1, op_end := True, rpage := 2, rkey := [107], rvalue := [118]\<rparr>"
  have "rec_fits ?r" "SerializedSize ?r = 33" by (simp_all add: rec_fits_def SerializedSize_def LogRecord_init_def rec_consts)
  moreover obtain l w where a: "Append empty_log ?r = (l, w)" by fastforce
  ultimately have w: "l = 1" "wal_inv w ([] @ [?r\<lparr>lsn := l\<rparr>])" using Append_inv [OF empty_log_inv _ _ a] by (simp_all add: ser_def)
  then show "wal_inv put_log [put_record_logged]" using a by (simp add: put_log_def put_record_logged_def)
  show "buffer put_log \<noteq> []" "synced (wfile put_log) = []" "wfile put_log = wfile empty_log" "file_bytes put_log = 0"
    by (auto simp: put_log_def Append_def BufferRecordLocked_def AppendTo_eq Let_def rec_bytes_nonempty)
qed

theorem logged_pages_follow_the_log_witness:
  "let b = guard_write (dirty_pool (Some put_log)) 0 logged_page; b' = snd (FlushAll b) in
     page_lsn (hdr (pview b 2)) = 1 \<and> disk (pager b') 2 \<noteq> disk (pager b) 2 \<and>
     (\<exists>w'. wal b' = Some w' \<and> synced (wfile w') = ser [put_record_logged] \<and> synced (wfile w') \<noteq> [])"
proof -
  let ?d = "dirty_pool (Some put_log)" let ?b = "guard_write ?d 0 logged_page"
  have mo: "mem_ok logged_page" by (simp add: logged_page_def mem_ok_def Page_Init_def)
  note d = dirty_pool_ok [of "Some put_log"] and gw = guard_write_ok [OF dirty_pool_ok(1) _ mo, of 2 0 "Some put_log"]
  have b: "pool_inv {} ?b" "pview ?b 2 = stamp logged_page 0" using gw d(5) by auto
  have e: "pager ?b = pager3" "wal ?b = Some put_log" "page_table ?b = [(2, 0)]" "io ?b = calm" "dirty (frames ?b ! 0)"
    "fpid (frames ?b ! 0) = 2" "length (frames ?b) = 4" "fpage (frames ?b ! 0) = logged_page"
    using d by (simp_all add: guard_write_def MarkDirty_def set_frame_def)
  obtain s b' where f: "FlushAll ?b = (s, b')" by fastforce
  have wr: "fst (WritePage pager3 2 pg (calm\<lparr>total_syncs := n\<rparr>)) = kOk" for pg n
    by (simp add: WritePage_def kFirstDataPage_def Meta_Init_def Write_def take_credit_def next_sys_def do_pwrite_def Let_def)
  have fl: "FlushLocked put_log calm = (kOk, snd (FlushLocked put_log calm))" "snd (snd (FlushLocked put_log calm)) = calm\<lparr>total_syncs := 1\<rparr>"
    using put_log_inv(2,4,5)
    by (simp_all add: FlushLocked_def Write_def take_credit_def next_sys_def do_pwrite_def Sync_def)
  moreover have "page_lsn (hdr logged_page) \<noteq> kInvalidLsn" by (simp add: logged_page_def kInvalidLsn_def)
  ultimately have "EnforceWalRule b0 fr = (kOk, b0\<lparr>wal := Some (fst (snd (FlushLocked put_log calm))), io := calm\<lparr>total_syncs := 1\<rparr>\<rparr>)"
    if "wal b0 = Some put_log" "io b0 = calm" "fpage fr = logged_page" for b0 fr
    using that by (auto simp: EnforceWalRule_def Flush_def split: prod.splits)
  then have s: "s = kOk" using f wr [of logged_page 1]
    by (auto simp: FlushAll_def e pin_frame_def write_back_def set_frame_def Let_def split: prod.splits)
  have dp: "data_page (pager ?b) 2" by (simp add: e data_page_def kFirstDataPage_def Meta_Init_def)
  have "stamp (page_of_bytes (disk (pager b') 2)) 0 = stamp logged_page 0"
    using FlushAll_writes_every_page [OF b(1) f] s dp b(2) by metis
  then have "page_lsn (hdr (page_of_bytes (disk (pager b') 2))) = 1" by (auto dest: arg_cong [of _ _ "\<lambda>p. page_lsn (hdr p)"] simp: logged_page_def)
  moreover have "GetLE (replicate n (0 :: byte)) = (0 :: u64)" for n by (induction n) simp_all
  then have "page_lsn (hdr (page_of_bytes (disk pager3 2))) = 0"
    by (simp add: page_of_bytes_def header_of_bytes_def Let_def file_page_def kPageSize_def)
  ultimately have ch: "disk (pager b') 2 \<noteq> disk (pager ?b) 2" unfolding e(1) by auto
  have l: "page_lsn (hdr (pview ?b 2)) = 1" unfolding b(2) by (simp add: logged_page_def)
  have "ser [put_record_logged] \<noteq> []" by (simp add: ser_def rec_bytes_nonempty)
  then show ?thesis using logged_pages_follow_the_log [OF b(1) e(2) put_log_inv(1), of 2 b'] f dp ch l
    by (auto simp: Let_def kInvalidLsn_def)
qed

text \<open>
  The replacer is least-recently-used. After any sequence of accesses the recency order lists each frame once, by
  its last access; after any sequence of evictability changes \<^verbatim>\<open>Evict\<close> returns the first frame of that order whose last
  setting is evictable, and frames that were never accessed are never returned.
\<close>

lemma RecordAccess_order:
  assumes "lru_inv r"
  shows "order (RecordAccess r f) = removeAll f (order r) @ [f]"
proof (cases "evictable r f")
  case None
  then have "f \<notin> set (order r)" using assms by (simp add: lru_inv_def)
  then show ?thesis using None by (simp add: RecordAccess_def)
next
  case (Some e)
  then show ?thesis using assms by (simp add: RecordAccess_def lru_inv_def distinct_remove1_removeAll)
qed

lemma accesses_order:
  "lru_inv (fold (\<lambda>f r. RecordAccess r f) xs LruReplacer_init) \<and>
   order (fold (\<lambda>f r. RecordAccess r f) xs LruReplacer_init) = remdups xs \<and>
   (\<forall>f. evictable (fold (\<lambda>f r. RecordAccess r f) xs LruReplacer_init) f = (if f \<in> set xs then Some False else None))"
proof (induction xs rule: rev_induct)
  case Nil
  then show ?case by (simp add: LruReplacer_init_def lru_inv_def)
next
  case (snoc x xs)
  have "remdups (xs @ [x]) = removeAll x (remdups xs) @ [x]" by (induction xs) auto
  then show ?case using snoc by (simp add: RecordAccess_order lru_inv_ops evictable_ops)
qed

lemma settings_fold:
  "order (fold (\<lambda>(f, e) r. SetEvictable r f e) es r) = order r \<and>
   evictable (fold (\<lambda>(f, e) r. SetEvictable r f e) es r) f =
     (case evictable r f of None \<Rightarrow> None | Some e \<Rightarrow> Some (case map_of (rev es) f of None \<Rightarrow> e | Some e' \<Rightarrow> e'))"
proof (induction es rule: rev_induct)
  case (snoc x es)
  have "order (SetEvictable q g e) = order q" for q g e by (simp add: SetEvictable_def split: option.split)
  then show ?case using snoc by (cases x) (auto simp: evictable_ops split: option.splits)
qed (simp split: option.split)

theorem Evict_is_least_recently_used:
  "fst (Evict (fold (\<lambda>(f, e) r. SetEvictable r f e) es (fold (\<lambda>f r. RecordAccess r f) xs LruReplacer_init))) =
     find (\<lambda>f. map_of (rev es) f = Some True) (remdups xs)"
proof -
  let ?r = "fold (\<lambda>(f, e) r. SetEvictable r f e) es (fold (\<lambda>f r. RecordAccess r f) xs LruReplacer_init)"
  have "find (\<lambda>f. evictable ?r f = Some True) (remdups xs) = find (\<lambda>f. map_of (rev es) f = Some True) (remdups xs)"
    by (rule find_cong) (auto simp: settings_fold accesses_order split: option.splits)
  then show ?thesis
    using settings_fold [of es "fold (\<lambda>f r. RecordAccess r f) xs LruReplacer_init"] accesses_order [of xs]
    by (simp add: Evict_def split: option.split)
qed

end
