(* ===== verification/BTree.thy ===== *)
theory BTree
  imports Node Pool
begin

section \<open>The B+ tree over the buffer pool (btree.h, btree.cc, cursor.h, cursor.cc)\<close>

text \<open>
  Every operation of \<^verbatim>\<open>BPlusTree\<close> and \<^verbatim>\<open>Cursor\<close> on the state of the buffer pool. A guard is a pinned frame; dropping
  it is \<open>ReleaseGuard\<close>, written out where the source's destructors run. The tree's log pointer is the
  pool's (the database passes the same writer to both). Loops that follow page links may run forever on a damaged
  file and are partial functions whose value is then \<open>None\<close>. Latches do not appear: an
  operation runs alone here.

  The theorems: on a well-formed tree \<^verbatim>\<open>Get\<close> terminates and is the lookup in the map the tree
  stores, for every behaviour of the operating system, up to the error it may report; it changes no page.
\<close>

subsection \<open>Guards\<close>

definition gpage :: "BufferPool \<Rightarrow> FrameId \<Rightarrow> Page" where
  "gpage b g = fpage (frames b ! g)"

definition gid :: "BufferPool \<Rightarrow> FrameId \<Rightarrow> PageId" where
  "gid b g = fpid (frames b ! g)"

definition set_gpage :: "BufferPool \<Rightarrow> FrameId \<Rightarrow> Page \<Rightarrow> BufferPool" where
  "set_gpage b g pg = set_frame b g ((frames b ! g)\<lparr>fpage := pg\<rparr>)"

definition release_all :: "FrameId list \<Rightarrow> BufferPool \<Rightarrow> BufferPool" where
  "release_all gs b = fold (\<lambda>g b. ReleaseGuard b g) gs b"

text \<open>The early return \<^verbatim>\<open>if (Status s = ...; !s.ok()) return s;\<close> and its form for results.\<close>

definition andthen :: "Status \<times> BufferPool \<Rightarrow> (BufferPool \<Rightarrow> Status \<times> BufferPool) \<Rightarrow> Status \<times> BufferPool" where
  "andthen r f = (case r of (s, b) \<Rightarrow> if s \<noteq> kOk then (s, b) else f b)"

subsection \<open>WAL emission\<close>

definition LogPageImage :: "BufferPool \<Rightarrow> FrameId \<Rightarrow> TxId \<Rightarrow> bool \<Rightarrow> Status \<times> BufferPool" where
  "LogPageImage b g tx oe =
     (let b = MarkDirty b g in
      case wal b of
        None \<Rightarrow> (kOk, b)
      | Some w \<Rightarrow>
          case AppendPageImage w (gid b g) (gpage b g) tx oe of (l, pg, w) \<Rightarrow>
            (kOk, set_gpage (b\<lparr>wal := Some w\<rparr>) g pg))"

definition log_delta :: "BufferPool \<Rightarrow> FrameId \<Rightarrow> LogRecord \<Rightarrow> Status \<times> BufferPool" where
  "log_delta b g r =
     (case wal b of
        None \<Rightarrow> (kOk, b)
      | Some w \<Rightarrow>
          case Append w r of (l, w) \<Rightarrow>
            (kOk, set_gpage (b\<lparr>wal := Some w\<rparr>) g ((gpage b g)\<lparr>hdr := (hdr (gpage b g))\<lparr>page_lsn := l\<rparr>\<rparr>)))"

definition LogKeyRecord ::
  "BufferPool \<Rightarrow> LogRecordType \<Rightarrow> TxId \<Rightarrow> FrameId \<Rightarrow> key \<Rightarrow> bytes \<Rightarrow> bytes option \<Rightarrow> bool \<Rightarrow> bool \<Rightarrow> Status \<times> BufferPool" where
  "LogKeyRecord b t tx g key val bef oe needs_undo =
     (let b = MarkDirty b g;
          delta = LogRecord_init\<lparr>rtype := t, txid := tx, rpage := gid b g, op_end := oe, rkey := key, rvalue := val, before := bef\<rparr>
      in case wal b of
           None \<Rightarrow> (kOk, b)
         | Some w \<Rightarrow>
             if NeedsImage w (gid b g) then
               andthen (LogPageImage b g tx (oe \<and> \<not> needs_undo)) (\<lambda>b.
                 if \<not> needs_undo then (kOk, b) else log_delta b g delta)
             else log_delta b g delta)"

definition LogPageEvent :: "BufferPool \<Rightarrow> LogRecordType \<Rightarrow> TxId \<Rightarrow> PageId \<Rightarrow> bool \<Rightarrow> Status \<times> BufferPool" where
  "LogPageEvent b t tx pid oe =
     (case wal b of
        None \<Rightarrow> (kOk, b)
      | Some w \<Rightarrow>
          case Append w (LogRecord_init\<lparr>rtype := t, txid := tx, rpage := pid, op_end := oe\<rparr>) of (l, w) \<Rightarrow>
            (kOk, b\<lparr>wal := Some w\<rparr>))"

subsection \<open>Get\<close>

definition IsEmpty :: "BufferPool \<Rightarrow> bool" where
  "IsEmpty b \<longleftrightarrow> root_page_id (meta (pager b)) = kInvalidPageId"

text \<open>The latch-coupled descent: the parent's guard is dropped once the child is fetched, or failed to be.\<close>

partial_function (option) descend :: "key \<Rightarrow> FrameId \<Rightarrow> BufferPool \<Rightarrow> (FrameId Result \<times> BufferPool) option" where
  "descend key g b =
     (if IsLeaf (gpage b g) then Some (Inr g, b)
      else
        let child = FindChild (gpage b g) key in
        if child = kInvalidPageId then Some (Inl kInternal, ReleaseGuard b g)
        else case FetchPageInternal b child of (r, b) \<Rightarrow>
          let b = ReleaseGuard b g in
          case r of Inl s \<Rightarrow> Some (Inl s, b) | Inr c \<Rightarrow> descend key c b)"

definition leaf_guard :: "key \<Rightarrow> BufferPool \<Rightarrow> (FrameId Result \<times> BufferPool) option" where
  "leaf_guard key b =
     (if IsEmpty b then Some (Inl kNotFound, b)
      else case FetchPageInternal b (root_page_id (meta (pager b))) of
        (Inl s, b) \<Rightarrow> Some (Inl s, b)
      | (Inr g, b) \<Rightarrow> descend key g b)"

definition Get :: "key \<Rightarrow> BufferPool \<Rightarrow> (bytes Result \<times> BufferPool) option" where
  "Get key b =
     map_option (\<lambda>(r, b). case r of
         Inl s \<Rightarrow> (Inl s, b)
       | Inr g \<Rightarrow> (case GetValue (gpage b g) key of None \<Rightarrow> Inl kNotFound | Some v \<Rightarrow> Inr v, ReleaseGuard b g))
       (leaf_guard key b)"

definition Contains :: "key \<Rightarrow> BufferPool \<Rightarrow> (bool \<times> BufferPool) option" where
  "Contains key b = map_option (\<lambda>(r, b). (case r of Inl _ \<Rightarrow> False | Inr _ \<Rightarrow> True, b)) (Get key b)"

subsection \<open>Delete\<close>

text \<open>\<open>undo\<close> says whether the caller passed \<^verbatim>\<open>before_out\<close>; the second component is what is stored there.\<close>

definition delete_at_leaf :: "key \<Rightarrow> TxId \<Rightarrow> bool \<Rightarrow> FrameId \<Rightarrow> BufferPool \<Rightarrow> Status \<times> bytes option \<times> BufferPool" where
  "delete_at_leaf key tx undo g b =
     (case FindKeyIndex (gpage b g) key of (index, found) \<Rightarrow>
        if \<not> found then (kNotFound, None, b)
        else
          let bef = (if undo then Some (GetValueAt (gpage b g) index) else None) in
          case DeleteAt (gpage b g) index of (done, p) \<Rightarrow>
            let b = set_gpage b g p in
            if \<not> done then (kInternal, bef, b)
            else case LogKeyRecord b kDelete tx g key [] bef True undo of (s, b) \<Rightarrow>
              if s \<noteq> kOk then (s, bef, b)
              else (kOk, bef, b\<lparr>pager := AddToNumKeys (pager b) (- 1)\<rparr>))"

definition Delete :: "key \<Rightarrow> TxId \<Rightarrow> bool \<Rightarrow> BufferPool \<Rightarrow> (Status \<times> bytes option \<times> BufferPool) option" where
  "Delete key tx undo b =
     map_option (\<lambda>(r, b). case r of
         Inl s \<Rightarrow> (s, None, b)
       | Inr g \<Rightarrow> (case delete_at_leaf key tx undo g b of (s, bef, b) \<Rightarrow> (s, bef, ReleaseGuard b g)))
       (leaf_guard key b)"

subsection \<open>Splits\<close>

fun fill_leaf :: "Page \<Rightarrow> (key \<times> bytes) list \<Rightarrow> bool \<times> Page" where
  "fill_leaf p [] = (True, p)"
| "fill_leaf p ((k, v) # es) = (case InsertLeaf p k v of (ins, p) \<Rightarrow> if \<not> ins then (False, p) else fill_leaf p es)"

fun fill_internal :: "Page \<Rightarrow> (key \<times> PageId) list \<Rightarrow> bool \<times> Page" where
  "fill_internal p [] = (True, p)"
| "fill_internal p ((k, c) # es) = (case InsertInternal p k c of (ins, p) \<Rightarrow> if \<not> ins then (False, p) else fill_internal p es)"

text \<open>
  The relinking of the old right sibling: its guard, kept by the caller until the operation ends, is returned.
\<close>

definition relink_next :: "PageId \<Rightarrow> PageId \<Rightarrow> TxId \<Rightarrow> BufferPool \<Rightarrow> Status \<times> FrameId list \<times> BufferPool" where
  "relink_next old_next new_page_id tx b =
     (if old_next = kInvalidPageId then (kOk, [], b)
      else case FetchPageInternal b old_next of
        (Inl s, b) \<Rightarrow> (s, [], b)
      | (Inr g, b) \<Rightarrow>
          case LogPageImage (set_gpage b g (SetPrevLeaf (gpage b g) new_page_id)) g tx False of (s, b) \<Rightarrow>
            if s \<noteq> kOk then (s, [], ReleaseGuard b g) else (kOk, [g], b))"

definition SplitLeaf :: "FrameId \<Rightarrow> TxId \<Rightarrow> BufferPool \<Rightarrow> (FrameId \<times> key) Result \<times> FrameId list \<times> BufferPool" where
  "SplitLeaf g tx b =
     (let node = gpage b g; n = NumKeys node; split_index = n div 2 in
      case NewPage b of
        (Inl s, b) \<Rightarrow> (Inl s, [], b)
      | (Inr (ng, new_page_id), b) \<Rightarrow>
          case LogPageEvent b kAllocPage tx new_page_id False of (s, b) \<Rightarrow>
          if s \<noteq> kOk then (Inl s, [], ReleaseGuard b ng)
          else
            let right_entries = map (\<lambda>i. (GetKey node i, GetValueAt node i)) [split_index ..< n];
                split_key = GetKey node split_index;
                left_entries = map (\<lambda>i. (GetKey node i, GetValueAt node i)) [0 ..< split_index];
                old_next = GetNextLeaf node; old_prev = GetPrevLeaf node; original_page_id = gid b g
            in case fill_leaf (SetNextLeaf (SetPrevLeaf (InitLeaf (Page_Init original_page_id kLeaf)) old_prev) new_page_id)
                      left_entries of (lfit, lp) \<Rightarrow>
               let b = set_gpage b g lp in
               if \<not> lfit then (Inl kInternal, [], ReleaseGuard b ng)
               else case LogPageImage b g tx False of (s, b) \<Rightarrow>
               if s \<noteq> kOk then (Inl s, [], ReleaseGuard b ng)
               else case fill_leaf (SetNextLeaf (SetPrevLeaf (InitLeaf (Page_Init new_page_id kLeaf)) original_page_id) old_next)
                      right_entries of (rfit, rp) \<Rightarrow>
               let b = set_gpage b ng rp in
               if \<not> rfit then (Inl kInternal, [], ReleaseGuard b ng)
               else case LogPageImage b ng tx False of (s, b) \<Rightarrow>
               if s \<noteq> kOk then (Inl s, [], ReleaseGuard b ng)
               else case relink_next old_next new_page_id tx b of (s, gs, b) \<Rightarrow>
               if s \<noteq> kOk then (Inl s, gs, ReleaseGuard b ng)
               else (Inr (ng, split_key), gs, b))"

definition SplitInternal :: "FrameId \<Rightarrow> TxId \<Rightarrow> BufferPool \<Rightarrow> (FrameId \<times> key) Result \<times> BufferPool" where
  "SplitInternal g tx b =
     (let node = gpage b g; n = NumKeys node; split_index = n div 2 in
      case NewPage b of
        (Inl s, b) \<Rightarrow> (Inl s, b)
      | (Inr (ng, new_page_id), b) \<Rightarrow>
          case LogPageEvent b kAllocPage tx new_page_id False of (s, b) \<Rightarrow>
          if s \<noteq> kOk then (Inl s, ReleaseGuard b ng)
          else
            let split_key = GetKey node split_index;
                right_entries = map (\<lambda>i. (GetKey node i, GetChild node i)) [split_index + 1 ..< n];
                left_entries = map (\<lambda>i. (GetKey node i, GetChild node i)) [0 ..< split_index];
                left_rightmost = GetChild node split_index; right_rightmost = GetRightmostChild node;
                original_page_id = gid b g
            in case fill_internal (SetRightmostChild (InitInternal (Page_Init original_page_id kInternalNode)) left_rightmost)
                      left_entries of (lfit, lp) \<Rightarrow>
               let b = set_gpage b g lp in
               if \<not> lfit then (Inl kInternal, ReleaseGuard b ng)
               else case LogPageImage b g tx False of (s, b) \<Rightarrow>
               if s \<noteq> kOk then (Inl s, ReleaseGuard b ng)
               else case fill_internal (SetRightmostChild (InitInternal (Page_Init new_page_id kInternalNode)) right_rightmost)
                      right_entries of (rfit, rp) \<Rightarrow>
               let b = set_gpage b ng rp in
               if \<not> rfit then (Inl kInternal, ReleaseGuard b ng)
               else case LogPageImage b ng tx False of (s, b) \<Rightarrow>
               if s \<noteq> kOk then (Inl s, ReleaseGuard b ng)
               else (Inr (ng, split_key), b))"

definition CreateNewRoot :: "key \<Rightarrow> PageId \<Rightarrow> PageId \<Rightarrow> TxId \<Rightarrow> BufferPool \<Rightarrow> Status \<times> BufferPool" where
  "CreateNewRoot split_key left_child right_child tx b =
     (case NewPage b of
        (Inl s, b) \<Rightarrow> (s, b)
      | (Inr (g, new_root_id), b) \<Rightarrow>
          case andthen (LogPageEvent b kAllocPage tx new_root_id False) (\<lambda>b.
            case InsertInternal (InitInternal (Page_Init new_root_id kInternalNode)) split_key left_child of (ins, p) \<Rightarrow>
              if \<not> ins then (kInternal, set_gpage b g p)
              else andthen (LogPageImage (set_gpage b g (SetRightmostChild p right_child)) g tx False) (\<lambda>b.
                andthen (LogPageEvent b kRootChange tx new_root_id True) (\<lambda>b.
                  (kOk, b\<lparr>pager := SetRootPageId (pager b) new_root_id\<rparr>)))) of
          (s, b) \<Rightarrow> (s, ReleaseGuard b g))"

subsection \<open>Put\<close>

definition kMaxLeafRecordBytes :: nat where
  "kMaxLeafRecordBytes = kPageSize - kHeaderSize - kSlotSize"

text \<open>
  The first insertion into an empty tree: a new leaf becomes the root. \<open>bef0\<close> is what \<^verbatim>\<open>before_out\<close> holds on entry.
\<close>

definition create_root_leaf :: "key \<Rightarrow> bytes \<Rightarrow> TxId \<Rightarrow> bytes option \<Rightarrow> BufferPool \<Rightarrow> Status \<times> bytes option \<times> BufferPool" where
  "create_root_leaf key val tx bef0 b =
     (case NewPage b of
        (Inl s, b) \<Rightarrow> (s, bef0, b)
      | (Inr (g, root_id), b) \<Rightarrow>
          case InsertLeaf (InitLeaf (Page_Init root_id kLeaf)) key val of (ins, p) \<Rightarrow>
          let b = set_gpage b g p in
          case (if \<not> ins then (kInternal, b)
                else andthen (LogPageEvent b kAllocPage tx root_id False) (\<lambda>b.
                  andthen (LogPageImage b g tx False) (\<lambda>b.
                    andthen (LogPageEvent b kRootChange tx root_id True) (\<lambda>b.
                      (kOk, b\<lparr>pager := AddToNumKeys (SetRootPageId (pager b) root_id) 1\<rparr>))))) of
          (s, b) \<Rightarrow> (s, if ins then None else bef0, ReleaseGuard b g))"

text \<open>The descent that keeps the whole path; the stack has the leaf first.\<close>

partial_function (option) descend_path ::
  "key \<Rightarrow> PageId \<Rightarrow> FrameId list \<Rightarrow> BufferPool \<Rightarrow> (FrameId list Result \<times> BufferPool) option" where
  "descend_path key current stack b =
     (case FetchPageInternal b current of (r, b) \<Rightarrow>
        case r of
          Inl s \<Rightarrow> Some (Inl s, release_all stack b)
        | Inr g \<Rightarrow>
            if IsLeaf (gpage b g) then Some (Inr (g # stack), b)
            else
              let child = FindChild (gpage b g) key in
              if child = kInvalidPageId then Some (Inl kInternal, release_all (g # stack) b)
              else descend_path key child (g # stack) b)"

text \<open>The separator moves up the held path; the second component lists the guards the operation gathers.\<close>

fun propagate :: "FrameId list \<Rightarrow> key \<Rightarrow> PageId \<Rightarrow> PageId \<Rightarrow> TxId \<Rightarrow> FrameId list \<Rightarrow> BufferPool \<Rightarrow> Status \<times> FrameId list \<times> BufferPool" where
  "propagate [] key left_child right_child tx ops b =
     (case CreateNewRoot key left_child right_child tx b of (s, b) \<Rightarrow> (s, ops, b))"
| "propagate (parent # stack) key left_child right_child tx ops b =
     (case InsertInternalAfterSplit (gpage b parent) key left_child right_child of (ins, p) \<Rightarrow>
        let b = set_gpage b parent p in
        if ins then (case LogPageImage b parent tx True of (s, b) \<Rightarrow> (s, ops, b))
        else case SplitInternal parent tx b of
          (Inl s, b) \<Rightarrow> (s, ops, b)
        | (Inr (ng, new_split_key), b) \<Rightarrow>
            let new_internal_id = gid b ng; parent_id = gid b parent;
                target = (if key < new_split_key then parent else ng)
            in case InsertInternalAfterSplit (gpage b target) key left_child right_child of (ins, p) \<Rightarrow>
               let b = set_gpage b target p in
               if \<not> ins then (kInternal, ng # ops, b)
               else case LogPageImage b target tx False of (s, b) \<Rightarrow>
                 if s \<noteq> kOk then (s, ng # ops, b)
                 else propagate stack new_split_key parent_id new_internal_id tx (ng # ops) b)"

definition put_split ::
  "key \<Rightarrow> bytes \<Rightarrow> TxId \<Rightarrow> bool \<Rightarrow> bytes option \<Rightarrow> bool \<Rightarrow> FrameId \<Rightarrow> FrameId list \<Rightarrow> BufferPool \<Rightarrow> Status \<times> FrameId list \<times> BufferPool" where
  "put_split key val tx undo bef replacing leaf stack b =
     (case SplitLeaf leaf tx b of
        (Inl s, ops, b) \<Rightarrow> (s, ops, b)
      | (Inr (ng, split_key), ops, b) \<Rightarrow>
          let leaf_id = gid b leaf; new_leaf_id = gid b ng;
              target = (if key < split_key then leaf else ng)
          in case InsertLeaf (gpage b target) key val of (ins, p) \<Rightarrow>
             let b = set_gpage b target p in
             if \<not> ins then (kInternal, ng # ops, b)
             else case LogKeyRecord b kPut tx target key val bef False undo of (s, b) \<Rightarrow>
               if s \<noteq> kOk then (s, ng # ops, b)
               else
                 let b = (if replacing then b else b\<lparr>pager := AddToNumKeys (pager b) 1\<rparr>)
                 in propagate stack split_key leaf_id new_leaf_id tx (ng # ops) b)"

text \<open>The insertion under the held path, once the key is known not to be updatable in place.\<close>

definition insert_or_split ::
  "key \<Rightarrow> bytes \<Rightarrow> TxId \<Rightarrow> bool \<Rightarrow> bytes option \<Rightarrow> bool \<Rightarrow> FrameId \<Rightarrow> FrameId list \<Rightarrow> BufferPool \<Rightarrow> Status \<times> FrameId list \<times> BufferPool" where
  "insert_or_split key val tx undo bef replacing leaf stack b =
     (case InsertLeaf (gpage b leaf) key val of (ins, p) \<Rightarrow>
        let b = set_gpage b leaf p in
        if ins then
          case andthen (LogKeyRecord b kPut tx leaf key val bef True undo) (\<lambda>b.
            if \<not> replacing then (kOk, b\<lparr>pager := AddToNumKeys (pager b) 1\<rparr>) else (kOk, b)) of (s, b) \<Rightarrow> (s, [], b)
        else put_split key val tx undo bef replacing leaf stack b)"

definition put_on_path ::
  "key \<Rightarrow> bytes \<Rightarrow> TxId \<Rightarrow> bool \<Rightarrow> FrameId \<Rightarrow> FrameId list \<Rightarrow> BufferPool \<Rightarrow> Status \<times> bytes option \<times> BufferPool" where
  "put_on_path key val tx undo leaf stack b =
     (case FindKeyIndex (gpage b leaf) key of (index, found) \<Rightarrow>
        let bef = (if undo \<and> found then Some (GetValueAt (gpage b leaf) index) else None) in
        case (if found then
                case UpdateLeaf (gpage b leaf) key val of (upd, p) \<Rightarrow>
                  let b = set_gpage b leaf p in
                  if upd then (case LogKeyRecord b kPut tx leaf key val bef True undo of (s, b) \<Rightarrow> (s, [], b))
                  else case DeleteAt (gpage b leaf) index of (del, p) \<Rightarrow>
                    let b = set_gpage b leaf p in
                    if \<not> del then (kInternal, [], b)
                    else insert_or_split key val tx undo bef True leaf stack (MarkDirty b leaf)
              else insert_or_split key val tx undo bef False leaf stack b) of
        (s, ops, b) \<Rightarrow> (s, bef, release_all (leaf # stack @ ops) b))"

definition PutPessimistic ::
  "key \<Rightarrow> bytes \<Rightarrow> TxId \<Rightarrow> bool \<Rightarrow> bytes option \<Rightarrow> BufferPool \<Rightarrow> (Status \<times> bytes option \<times> BufferPool) option" where
  "PutPessimistic key val tx undo bef0 b =
     (if IsEmpty b then Some (create_root_leaf key val tx bef0 b)
      else map_option (\<lambda>(r, b). case r of
          Inr (leaf # stack) \<Rightarrow> put_on_path key val tx undo leaf stack b
        | Inr [] \<Rightarrow> (kInternal, bef0, b)
        | Inl s \<Rightarrow> (s, bef0, b))
        (descend_path key (root_page_id (meta (pager b))) [] b))"

text \<open>
  The optimistic attempt on the leaf: \<open>None\<close> in the first component when the write has to be restarted pessimistically.
\<close>

definition put_fast :: "key \<Rightarrow> bytes \<Rightarrow> TxId \<Rightarrow> bool \<Rightarrow> FrameId \<Rightarrow> BufferPool \<Rightarrow> Status option \<times> bytes option \<times> BufferPool" where
  "put_fast key val tx undo g b =
     (case FindKeyIndex (gpage b g) key of (index, found) \<Rightarrow>
        let bef = (if undo \<and> found then Some (GetValueAt (gpage b g) index) else None) in
        if found then
          case UpdateLeaf (gpage b g) key val of (upd, p) \<Rightarrow>
            let b = set_gpage b g p in
            if upd then (case LogKeyRecord b kPut tx g key val bef True undo of (s, b) \<Rightarrow> (Some s, bef, b))
            else (None, bef, b)
        else
          case InsertLeaf (gpage b g) key val of (ins, p) \<Rightarrow>
            let b = set_gpage b g p in
            if ins then
              case andthen (LogKeyRecord b kPut tx g key val bef True undo) (\<lambda>b.
                (kOk, b\<lparr>pager := AddToNumKeys (pager b) 1\<rparr>)) of (s, b) \<Rightarrow> (Some s, bef, b)
            else (None, bef, b))"

definition Put :: "key \<Rightarrow> bytes \<Rightarrow> TxId \<Rightarrow> bool \<Rightarrow> BufferPool \<Rightarrow> (Status \<times> bytes option \<times> BufferPool) option" where
  "Put key val tx undo b =
     (if kMaxLeafRecordBytes < 4 + length key + length val then Some (kInvalidArgument, None, b)
      else if IsEmpty b then PutPessimistic key val tx undo None b
      else Option.bind (leaf_guard key b) (\<lambda>(r, b). case r of
          Inl s \<Rightarrow> Some (s, None, b)
        | Inr g \<Rightarrow>
            let current = gid b g; b = ReleaseGuard b g in
            case FetchPageInternal b current of
              (Inl s, b) \<Rightarrow> Some (s, None, b)
            | (Inr g, b) \<Rightarrow>
                case put_fast key val tx undo g b of (r, bef, b) \<Rightarrow>
                  let b = ReleaseGuard b g in
                  case r of Some s \<Rightarrow> Some (s, bef, b) | None \<Rightarrow> PutPessimistic key val tx undo bef b))"

subsection \<open>Cursors\<close>

record Cursor =
  cpage :: Page  \<comment> \<open>a private copy of the current leaf\<close>
  cindex :: nat
  cvalid :: bool
  cstatus :: Status

definition Cursor_init :: Cursor where
  "Cursor_init = \<lparr>cpage = zero_page, cindex = 0, cvalid = False, cstatus = kOk\<rparr>"

partial_function (option) SkipToLiveEntry :: "Cursor \<Rightarrow> BufferPool \<Rightarrow> (Cursor \<times> BufferPool) option" where
  "SkipToLiveEntry c b =
     (if cindex c < NumKeys (cpage c) then Some (c, b)
      else
        let next = GetNextLeaf (cpage c) in
        if next = kInvalidPageId then Some (c\<lparr>cvalid := False\<rparr>, b)
        else case FetchPageInternal b next of (r, b) \<Rightarrow>
          case r of
            Inl s \<Rightarrow> Some (c\<lparr>cvalid := False, cstatus := s\<rparr>, b)
          | Inr g \<Rightarrow>
              let c = c\<lparr>cpage := gpage b g\<rparr>; b = ReleaseGuard b g in
              if \<not> IsLeaf (cpage c) then Some (c\<lparr>cvalid := False, cstatus := kCorruption\<rparr>, b)
              else SkipToLiveEntry (c\<lparr>cindex := 0\<rparr>) b)"

definition MoveTo :: "Cursor \<Rightarrow> PageId \<Rightarrow> nat \<Rightarrow> BufferPool \<Rightarrow> (Cursor \<times> BufferPool) option" where
  "MoveTo c pid index b =
     (case FetchPageInternal b pid of
        (Inl s, b) \<Rightarrow> Some (c\<lparr>cvalid := False, cstatus := s\<rparr>, b)
      | (Inr g, b) \<Rightarrow> SkipToLiveEntry (c\<lparr>cpage := gpage b g, cindex := index, cvalid := True\<rparr>) (ReleaseGuard b g))"

definition Next :: "Cursor \<Rightarrow> BufferPool \<Rightarrow> (Cursor \<times> BufferPool) option" where
  "Next c b = (if \<not> cvalid c then Some (c, b) else SkipToLiveEntry (c\<lparr>cindex := (cindex c + 1) mod 2 ^ 16\<rparr>) b)"

definition ckey :: "Cursor \<Rightarrow> key" where
  "ckey c = (if \<not> cvalid c then [] else GetKey (cpage c) (cindex c))"

definition cvalue :: "Cursor \<Rightarrow> bytes" where
  "cvalue c = (if \<not> cvalid c then [] else GetValueAt (cpage c) (cindex c))"

definition FindLeaf :: "key \<Rightarrow> BufferPool \<Rightarrow> (PageId Result \<times> BufferPool) option" where
  "FindLeaf key b =
     map_option (\<lambda>(r, b). case r of Inl s \<Rightarrow> (Inl s, b) | Inr g \<Rightarrow> (Inr (gid b g), ReleaseGuard b g)) (leaf_guard key b)"

definition Seek :: "key \<Rightarrow> BufferPool \<Rightarrow> (Cursor \<times> BufferPool) option" where
  "Seek key b =
     Option.bind (FindLeaf key b) (\<lambda>(r, b). case r of
         Inl s \<Rightarrow> Some (if s \<noteq> kNotFound then Cursor_init\<lparr>cstatus := s\<rparr> else Cursor_init, b)
       | Inr leaf \<Rightarrow>
           (case FetchPageInternal b leaf of
              (Inl s, b) \<Rightarrow> Some (Cursor_init\<lparr>cstatus := s\<rparr>, b)
            | (Inr g, b) \<Rightarrow>
                let lower_bound = LowerBound (gpage b g) key
                in MoveTo Cursor_init leaf lower_bound (ReleaseGuard b g)))"

partial_function (option) descend_first :: "FrameId \<Rightarrow> BufferPool \<Rightarrow> (FrameId Result \<times> BufferPool) option" where
  "descend_first g b =
     (if IsLeaf (gpage b g) then Some (Inr g, b)
      else
        let child = (if 0 < NumKeys (gpage b g) then GetChild (gpage b g) 0 else GetRightmostChild (gpage b g)) in
        if child = kInvalidPageId then Some (Inl kInternal, ReleaseGuard b g)
        else case FetchPageInternal b child of (r, b) \<Rightarrow>
          let b = ReleaseGuard b g in
          case r of Inl s \<Rightarrow> Some (Inl s, b) | Inr c \<Rightarrow> descend_first c b)"

definition SeekToFirst :: "BufferPool \<Rightarrow> (Cursor \<times> BufferPool) option" where
  "SeekToFirst b =
     (if IsEmpty b then Some (Cursor_init, b)
      else case FetchPageInternal b (root_page_id (meta (pager b))) of
        (Inl s, b) \<Rightarrow> Some (Cursor_init\<lparr>cstatus := s\<rparr>, b)
      | (Inr g, b) \<Rightarrow>
          Option.bind (descend_first g b) (\<lambda>(r, b). case r of
              Inl s \<Rightarrow> Some (Cursor_init\<lparr>cstatus := s\<rparr>, b)
            | Inr g \<Rightarrow> let leaf = gid b g in MoveTo Cursor_init leaf 0 (ReleaseGuard b g)))"

end
