(* ===== verification/Page_Cache.thy ===== *)
theory Page_Cache
  imports Node Pool
begin

section \<open>What the tree relies on: the contract of the buffer pool\<close>

text \<open>Errors of the storage underneath, as opposed to answers of the tree.\<close>

definition io_error :: "Status \<Rightarrow> bool" where
  "io_error s \<longleftrightarrow> s \<in> {kIoError, kCorruption, kInternal, kBusy}"

text \<open>
  The interface between the buffer pool and its clients as a locale: pages have a content (\<open>view\<close>), guards are
  held, fetching and releasing change nothing but the pin counts, writing through a guard changes
  one page. The clients' two idioms, latch coupling and a look at a page, are proved once from these laws; the
  interpretation discharges them for the pool of \<^verbatim>\<open>buffer_pool.cc\<close>.
\<close>

locale page_cache =
  fixes inv :: "'b \<Rightarrow> bool" and live :: "'b \<Rightarrow> PageId \<Rightarrow> bool" and view :: "'b \<Rightarrow> PageId \<Rightarrow> Page"
    and pins :: "'b \<Rightarrow> PageId \<Rightarrow> nat" and holds :: "'b \<Rightarrow> PageId \<Rightarrow> 'g \<Rightarrow> bool" and page :: "'b \<Rightarrow> 'g \<Rightarrow> Page"
    and info :: "'b \<Rightarrow> MetaPage" and fetch :: "'b \<Rightarrow> PageId \<Rightarrow> 'g Result \<times> 'b" and release :: "'b \<Rightarrow> 'g \<Rightarrow> 'b"
    and update :: "'b \<Rightarrow> 'g \<Rightarrow> Page \<Rightarrow> 'b" and alloc :: "'b \<Rightarrow> ('g \<times> PageId) Result \<times> 'b"
  assumes holds_page: "inv b \<Longrightarrow> holds b p g \<Longrightarrow> stamp (page b g) 0 = view b p \<and> live b p \<and> 0 < pins b p \<and> mem_ok (page b g)"
    and holds_unique: "inv b \<Longrightarrow> holds b p g \<Longrightarrow> holds b q h \<Longrightarrow> (p = q \<longleftrightarrow> g = h)"
    and fetch_keeps: "inv b \<Longrightarrow> live b p \<Longrightarrow> fetch b p = (r, b') \<Longrightarrow> inv b' \<and> live b' = live b \<and> info b' = info b \<and>
      (\<forall>j. live b j \<longrightarrow> view b' j = view b j) \<and> (\<forall>q g. holds b q g \<longrightarrow> holds b' q g)"
    and fetch_Inl: "inv b \<Longrightarrow> live b p \<Longrightarrow> fetch b p = (Inl s, b') \<Longrightarrow> pins b' = pins b \<and> io_error s"
    and fetch_Inr: "inv b \<Longrightarrow> live b p \<Longrightarrow> fetch b p = (Inr g, b') \<Longrightarrow> holds b' p g \<and> pins b' = (pins b)(p := pins b p + 1)"
    and release_keeps: "inv b \<Longrightarrow> holds b p g \<Longrightarrow> inv (release b g) \<and> live (release b g) = live b \<and>
      info (release b g) = info b \<and> view (release b g) = view b \<and> pins (release b g) = (pins b)(p := pins b p - 1) \<and>
      (\<forall>q h. holds b q h \<longrightarrow> 0 < pins (release b g) q \<longrightarrow> holds (release b g) q h)"
    and update_one: "inv b \<Longrightarrow> holds b p g \<Longrightarrow> mem_ok pg \<Longrightarrow> inv (update b g pg) \<and> live (update b g pg) = live b \<and>
      info (update b g pg) = info b \<and> view (update b g pg) = (view b)(p := stamp pg 0) \<and> pins (update b g pg) = pins b \<and>
      (\<forall>q h. holds (update b g pg) q h \<longleftrightarrow> holds b q h)"
    and alloc_new: "inv b \<Longrightarrow> unat (num_pages (info b)) + 1 < 2 ^ 32 \<Longrightarrow> alloc b = (Inr (g, p), b') \<Longrightarrow> inv b' \<and>
      \<not> live b p \<and> holds b' p g \<and> (\<forall>j. live b j \<longrightarrow> live b' j \<and> view b' j = view b j) \<and> (\<forall>q h. holds b q h \<longrightarrow> holds b' q h) \<and>
      pins b p = 0 \<and> pins b' = (pins b)(p := 1) \<and> root_page_id (info b') = root_page_id (info b) \<and>
      num_keys (info b') = num_keys (info b) \<and> unat (num_pages (info b')) \<le> unat (num_pages (info b)) + 1"
begin

text \<open>What reading leaves unchanged.\<close>

definition reads :: "'b \<Rightarrow> 'b \<Rightarrow> bool" where
  "reads b b' \<longleftrightarrow> inv b' \<and> live b' = live b \<and> info b' = info b \<and> (\<forall>j. live b j \<longrightarrow> view b' j = view b j)"

lemma reads_refl: "inv b \<Longrightarrow> reads b b"
  by (simp add: reads_def)

lemma reads_trans: "reads a b \<Longrightarrow> reads b c \<Longrightarrow> reads a c"
  by (simp add: reads_def)

lemma fetch_reads: "inv b \<Longrightarrow> live b p \<Longrightarrow> fetch b p = (r, b') \<Longrightarrow> reads b b'"
  unfolding reads_def by (drule (2) fetch_keeps) blast

lemma release_reads: "inv b \<Longrightarrow> holds b p g \<Longrightarrow> reads b (release b g)"
  unfolding reads_def by (drule (1) release_keeps) simp

lemma couple:
  assumes inv: "inv b" and h: "holds b p g" and ft: "fetch b c = (r, b1)" and lc: "live b c" and pc: "c \<noteq> p"
  shows "reads b (release b1 g)"
    and "r = Inl s \<Longrightarrow> pins (release b1 g) = (pins b)(p := pins b p - 1) \<and> io_error s"
    and "r = Inr k \<Longrightarrow> holds (release b1 g) c k \<and> pins (release b1 g) = (pins b)(p := pins b p - 1, c := pins b c + 1)"
proof -
  have k: "inv b1" "holds b1 p g" using fetch_keeps [OF inv lc ft] h by auto
  note rel = release_keeps [OF k]
  show "reads b (release b1 g)" using reads_trans [OF fetch_reads [OF inv lc ft] release_reads [OF k]] .
  show "pins (release b1 g) = (pins b)(p := pins b p - 1) \<and> io_error s" if "r = Inl s"
    using fetch_Inl [OF inv lc ft [unfolded that]] rel by simp
  show "holds (release b1 g) c k \<and> pins (release b1 g) = (pins b)(p := pins b p - 1, c := pins b c + 1)" if "r = Inr k"
    using fetch_Inr [OF inv lc ft [unfolded that]] rel pc by (auto simp: fun_upd_twist)
qed

lemma look:
  assumes inv: "inv b" and lc: "live b p" and ft: "fetch b p = (Inr g, b1)"
  shows "reads b (release b1 g)" and "pins (release b1 g) = pins b" and "stamp (page b1 g) 0 = view b p"
proof -
  have k: "inv b1" "holds b1 p g" and pb: "pins b1 = (pins b)(p := pins b p + 1)"
    using fetch_keeps [OF inv lc ft] fetch_Inr [OF inv lc ft] by auto
  show "reads b (release b1 g)" using reads_trans [OF fetch_reads [OF inv lc ft] release_reads [OF k]] .
  show "pins (release b1 g) = pins b" using release_keeps [OF k] pb by simp
  show "stamp (page b1 g) 0 = view b p" using holds_page [OF k] fetch_keeps [OF inv lc ft] lc by auto
qed

text \<open>The last release of a guard whose pins the caller counts.\<close>

lemma release_reads_pins:
  assumes "inv b" and "holds b p g"
  shows "reads b (release b g)" and "pins (release b g) = (pins b)(p := pins b p - 1)"
  using release_reads [OF assms] release_keeps [OF assms] by auto

end

subsection \<open>The pool provides it\<close>

definition holds :: "BufferPool \<Rightarrow> PageId \<Rightarrow> FrameId \<Rightarrow> bool" where
  "holds b pid f \<longleftrightarrow> (pid, f) \<in> set (page_table b) \<and> 0 < pin_count (frames b ! f)"

lemma ReadPage_error: "ReadPage p q i = (Inl s, j) \<Longrightarrow> data_page p q \<Longrightarrow> io_error s"
  by (auto simp: ReadPage_def Let_def Read_def data_page_def io_error_def split: if_splits sum.splits prod.splits option.splits)

lemma WritePage_error: "WritePage p q pg i = (s, y) \<Longrightarrow> data_page p q \<Longrightarrow> s = kOk \<or> io_error s"
  by (auto simp: WritePage_def Let_def Write_def data_page_def io_error_def split: if_splits sum.splits prod.splits option.splits)

lemma Flush_error: "Flush w i = (s, y) \<Longrightarrow> s = kOk \<or> io_error s"
  by (auto simp: Flush_def FlushLocked_def Let_def Write_def Sync_def io_error_def
      split: if_splits sum.splits prod.splits option.splits)

lemma write_back_error:
  assumes "core_inv X b" and "(pid, f) \<in> set (page_table b)" and wb: "write_back b f = (s, b')"
  shows "s = kOk \<or> io_error s"
proof -
  obtain s1 b1 where e: "EnforceWalRule b (frames b ! f) = (s1, b1)" by fastforce
  note ef = EnforceWalRule_fields [OF e]
  have dp: "data_page (pager b) (fpid (frames b ! f))" using core_invD(2) [OF assms(1,2)] by (auto simp: frame_ok_def)
  have "s1 = kOk \<or> io_error s1"
    using e Flush_error by (auto simp: EnforceWalRule_def split: option.splits if_splits prod.splits)
  moreover obtain s2 y where w: "WritePage (pager b) (fpid (frames b ! f)) (fpage (frames b ! f)) (io b1) = (s2, y)"
    by (metis surj_pair)
  moreover from WritePage_error [OF w dp] have "s2 = kOk \<or> io_error s2" .
  ultimately show ?thesis
    using wb e by (auto simp: write_back_def ef Let_def split: if_splits prod.splits)
qed

lemma AcquireFrameLocked_error:
  assumes inv: "pool_inv {} b" and ac: "AcquireFrameLocked b = (Inl s, b')"
  shows "io_error s"
proof (cases "free_frames b")
  case Nil
  obtain v rp where ev: "Evict (replacer b) = (v, rp)" by fastforce
  show ?thesis
  proof (cases v)
    case (Some f)
    note es = evict_step [OF inv ev [unfolded Some]]
    obtain q where res: "(q, f) \<in> set (page_table (b\<lparr>replacer := rp\<rparr>))" using es(3) by auto
    obtain s1 b1 where wb: "write_back (b\<lparr>replacer := rp\<rparr>) f = (s1, b1)" by fastforce
    show ?thesis
      using ac Nil ev Some wb write_back_error [OF es(1) res wb]
      by (auto simp: AcquireFrameLocked_def Let_def split: if_splits)
  qed (use ac Nil ev in \<open>auto simp: AcquireFrameLocked_def io_error_def\<close>)
qed (use ac in \<open>auto simp: AcquireFrameLocked_def\<close>)

lemma FetchPageInternal_error:
  assumes inv: "pool_inv {} b" and dp: "data_page (pager b) pid" and ft: "FetchPageInternal b pid = (Inl s, b')"
  shows "io_error s"
proof (cases "map_of (page_table b) pid")
  case (Some f)
  then show ?thesis using ft by (simp add: FetchPageInternal_def Let_def)
next
  case None
  let ?b0 = "b\<lparr>stats := (stats b)\<lparr>misses := misses (stats b) + 1\<rparr>\<rparr>"
  have inv0: "pool_inv {} ?b0" using inv by (auto simp: pool_inv_def rep_inv_def intro: core_inv_cong)
  obtain r1 b1 where ac: "AcquireFrameLocked ?b0 = (r1, b1)" by fastforce
  have "data_page (pager b1) pid" using keepsD(3) [of ?b0 b1] AcquireFrameLocked_ok [OF inv0 ac] dp by simp
  then show ?thesis
    using ft None ac AcquireFrameLocked_error [OF inv0] ReadPage_error
    by (cases r1) (auto simp: FetchPageInternal_def split: sum.splits prod.splits)
qed

lemma holdsD:
  assumes "pool_inv X b" and "holds b p g"
  shows "(p, g) \<in> set (page_table b)" and "0 < pin_count (frames b ! g)" and "map_of (page_table b) p = Some g"
    and "PinCount b p = pin_count (frames b ! g)"
proof -
  show h: "(p, g) \<in> set (page_table b)" "0 < pin_count (frames b ! g)" using assms(2) by (auto simp: holds_def)
  have core: "core_inv X b" using assms(1) by (simp add: pool_inv_def)
  show "map_of (page_table b) p = Some g" using core_invD(4) [OF core] h(1) by simp
  then show "PinCount b p = pin_count (frames b ! g)" by (simp add: PinCount_def)
qed

lemma pool_holds_page:
  assumes inv: "pool_inv {} b" and h: "holds b p g"
  shows "stamp (fpage (frames b ! g)) 0 = pview b p \<and> data_page (pager b) p \<and> 0 < PinCount b p \<and> mem_ok (fpage (frames b ! g))"
proof -
  have core: "core_inv {} b" using inv by (simp add: pool_inv_def)
  note d = holdsD [OF inv h]
  show ?thesis using core_invD(2) [OF core d(1)] d by (simp add: pview_def frame_ok_def)
qed

lemma pool_holds_unique:
  assumes inv: "pool_inv {} b" and "holds b p g" and "holds b q h"
  shows "p = q \<longleftrightarrow> g = h"
proof -
  have core: "core_inv {} b" using inv by (simp add: pool_inv_def)
  show ?thesis using core_invD(3,5) [OF core] assms(2,3) by (auto simp: holds_def)
qed

lemma pool_fetch_keeps:
  assumes "pool_inv {} b" and "FetchPageInternal b p = (r, b')"
  shows "pool_inv {} b' \<and> data_page (pager b') = data_page (pager b) \<and> meta (pager b') = meta (pager b) \<and>
      (\<forall>j. data_page (pager b) j \<longrightarrow> pview b' j = pview b j) \<and> (\<forall>q g. holds b q g \<longrightarrow> holds b' q g)"
proof -
  have f: "keeps b b'" "pool_inv {} b'" using FetchPageInternal_ok [OF assms] by auto
  note k = keepsD [OF f(1)]
  have "holds b' q g" if "holds b q g" for q g using k(1) that by (fastforce simp: holds_def pins_kept_def)
  then show ?thesis using f(2) k by auto
qed

lemma pool_release_keeps:
  assumes inv: "pool_inv {} b" and h: "holds b p g"
  shows "pool_inv {} (ReleaseGuard b g) \<and> data_page (pager (ReleaseGuard b g)) = data_page (pager b) \<and>
      meta (pager (ReleaseGuard b g)) = meta (pager b) \<and> pview (ReleaseGuard b g) = pview b \<and>
      PinCount (ReleaseGuard b g) = (PinCount b)(p := PinCount b p - 1) \<and>
      (\<forall>q k. holds b q k \<longrightarrow> 0 < PinCount (ReleaseGuard b g) q \<longrightarrow> holds (ReleaseGuard b g) q k)"
proof -
  note d = holdsD [OF inv h]
  note r = ReleaseGuard_ok [OF inv d(1,2)] and rp = ReleaseGuard_pins [OF inv d(1,2)]
  have "holds (ReleaseGuard b g) q k" if q: "holds b q k" "0 < PinCount (ReleaseGuard b g) q" for q k
    using holdsD [OF inv q(1)] q(2) r(4) by (simp add: holds_def PinCount_def)
  then show ?thesis using r rp by (simp add: fun_eq_iff)
qed

lemma pool_update_one:
  assumes inv: "pool_inv {} b" and h: "holds b p g" and pg: "mem_ok pg"
  shows "pool_inv {} (guard_write b g pg) \<and> data_page (pager (guard_write b g pg)) = data_page (pager b) \<and>
      meta (pager (guard_write b g pg)) = meta (pager b) \<and> pview (guard_write b g pg) = (pview b)(p := stamp pg 0) \<and>
      PinCount (guard_write b g pg) = PinCount b \<and> (\<forall>q k. holds (guard_write b g pg) q k \<longleftrightarrow> holds b q k)"
proof -
  let ?b = "guard_write b g pg"
  note d = holdsD [OF inv h]
  note w = guard_write_ok [OF inv d(1) pg]
  have same: "pager ?b = pager b" "page_table ?b = page_table b"
    by (simp_all add: guard_write_def MarkDirty_def set_frame_def)
  have pc: "pin_count (frames ?b ! k) = pin_count (frames b ! k)" for k
    using pinned_resident(2) [OF inv d(1)] by (cases "k = g") (simp_all add: guard_write_def MarkDirty_def set_frame_def)
  have "PinCount ?b = PinCount b" by (rule PinCount_cong) (use same pc in simp_all)
  then show ?thesis using w(1-3) same pc by (auto simp: holds_def)
qed

text \<open>
  The client's view of the pool: its invariant and an intact free list, none of whose pages is cached. A page is live
  when it is allocated and not on that list.
\<close>

definition pool_ok :: "BufferPool \<Rightarrow> bool" where
  "pool_ok b \<longleftrightarrow> pool_inv {} b \<and> (\<exists>ids. free_pages b ids)"

definition live_page :: "BufferPool \<Rightarrow> PageId \<Rightarrow> bool" where
  "live_page b p \<longleftrightarrow> data_page (pager b) p \<and> (\<forall>ids. free_pages b ids \<longrightarrow> p \<notin> set ids)"

lemma flist_unique: "flist p h ids \<Longrightarrow> flist p h ids' \<Longrightarrow> ids = ids'"
proof (induction ids arbitrary: h ids')
  case (Cons x xs)
  then show ?case by (cases ids') (auto simp: Let_def)
next
  case Nil
  then show ?case by (cases ids') auto
qed

lemma free_pages_unique: "free_pages b ids \<Longrightarrow> free_pages b ids' \<Longrightarrow> ids = ids'"
  using flist_unique by (auto simp: free_pages_def)

lemma live_pageI: "free_pages b ids \<Longrightarrow> live_page b p \<longleftrightarrow> data_page (pager b) p \<and> p \<notin> set ids"
  using free_pages_unique by (auto simp: live_page_def)

lemma free_pages_cong: "pager b' = pager b \<Longrightarrow> page_table b' = page_table b \<Longrightarrow> free_pages b' = free_pages b"
  by (simp add: free_pages_def fun_eq_iff)

lemma FetchPageInternal_free_pages:
  assumes inv: "pool_inv {} b" and ft: "FetchPageInternal b p = (r, b')" and fp: "free_pages b ids" and p: "p \<notin> set ids"
  shows "free_pages b' ids"
proof (cases "map_of (page_table b) p")
  case (Some f)
  then have "pager b' = pager b" "page_table b' = page_table b" using ft by (auto simp: FetchPageInternal_def Let_def set_frame_def)
  then show ?thesis using fp by (simp add: free_pages_def)
next
  case None
  let ?b0 = "b\<lparr>stats := (stats b)\<lparr>misses := misses (stats b) + 1\<rparr>\<rparr>"
  have inv0: "pool_inv {} ?b0" using inv by (auto simp: pool_inv_def rep_inv_def intro: core_inv_cong)
  obtain r1 b1 where ac: "AcquireFrameLocked ?b0 = (r1, b1)" by fastforce
  have "free_pages ?b0 ids" using fp by (simp add: free_pages_def)
  then have "free_pages b1 ids" by (rule AcquireFrameLocked_free_pages [OF inv0 ac])
  moreover have "pager b' = pager b1" "fst ` set (page_table b') \<subseteq> insert p (fst ` set (page_table b1))"
    using ft None ac by (auto simp: FetchPageInternal_def install_def Let_def set_frame_def split: sum.splits prod.splits if_splits)
  moreover have "set ids \<inter> insert p (fst ` set (page_table b1)) = {}" using p calculation(1) by (simp add: free_pages_def)
  ultimately show ?thesis unfolding free_pages_def by auto
qed

lemma cache_holds_page:
  assumes "pool_ok b" and h: "holds b p g"
  shows "stamp (fpage (frames b ! g)) 0 = pview b p \<and> live_page b p \<and> 0 < PinCount b p \<and> mem_ok (fpage (frames b ! g))"
proof -
  have inv: "pool_inv {} b" using assms(1) by (simp add: pool_ok_def)
  have "p \<in> fst ` set (page_table b)" using h by (auto simp: holds_def image_iff intro: bexI [of _ "(p, g)"])
  then have "p \<notin> set ids" if "free_pages b ids" for ids using that by (auto simp: free_pages_def)
  then show ?thesis using pool_holds_page [OF inv h] by (auto simp: live_page_def)
qed

lemma cache_fetch_keeps:
  assumes "pool_ok b" and lv: "live_page b p" and ft: "FetchPageInternal b p = (r, b')"
  shows "pool_ok b' \<and> live_page b' = live_page b \<and> meta (pager b') = meta (pager b) \<and>
    (\<forall>j. live_page b j \<longrightarrow> pview b' j = pview b j) \<and> (\<forall>q g. holds b q g \<longrightarrow> holds b' q g)"
proof -
  obtain ids where inv: "pool_inv {} b" and fp: "free_pages b ids" using assms(1) by (auto simp: pool_ok_def)
  have "free_pages b' ids" by (rule FetchPageInternal_free_pages [OF inv ft fp]) (use lv fp in \<open>auto simp: live_page_def\<close>)
  then show ?thesis using pool_fetch_keeps [OF inv ft] fp by (auto simp: pool_ok_def live_pageI fun_eq_iff)
qed

text \<open>Operations that leave the pager and the page table alone leave the free list and the live pages alone.\<close>

lemma cache_same:
  assumes "pager b' = pager b" and "page_table b' = page_table b"
  shows "live_page b' = live_page b" and "pool_inv {} b' \<Longrightarrow> pool_ok b \<Longrightarrow> pool_ok b'"
  using free_pages_cong [OF assms] assms by (auto simp: live_page_def pool_ok_def fun_eq_iff)

lemma guard_same:
  "pager (ReleaseGuard b g) = pager b" "page_table (ReleaseGuard b g) = page_table b"
  "pager (guard_write b g pg) = pager b" "page_table (guard_write b g pg) = page_table b"
  by (simp_all add: ReleaseGuard_def guard_write_def MarkDirty_def set_frame_def Let_def)

lemma AllocatePage_meta:
  assumes "AllocatePage p i = (r, p', i')"
  shows "root_page_id (meta p') = root_page_id (meta p)" and "num_keys (meta p') = num_keys (meta p)"
    and "unat (num_pages (meta p)) + 1 < 2 ^ 32 \<Longrightarrow> unat (num_pages (meta p')) \<le> unat (num_pages (meta p)) + 1"
  using assms by (auto simp: AllocatePage_def Let_def unat_word_ariths split: if_splits sum.splits prod.splits)

lemma NewPage_pins:
  assumes inv: "pool_inv {} b" and fp: "free_pages b ids" and bound: "unat (num_pages (meta (pager b))) + 1 < 2 ^ 32"
    and nw: "NewPage b = (Inr (f, x), b')"
  shows "PinCount b' = (PinCount b)(x := 1)" and "PinCount b x = 0"
    and "root_page_id (meta (pager b')) = root_page_id (meta (pager b))" and "num_keys (meta (pager b')) = num_keys (meta (pager b))"
    and "unat (num_pages (meta (pager b'))) \<le> unat (num_pages (meta (pager b))) + 1"
    and "data_page (pager b) j \<Longrightarrow> data_page (pager b') j"
proof -
  obtain b1 p i where ac: "AcquireFrameLocked b = (Inr f, b1)" and al: "AllocatePage (pager b1) (io b1) = (Inr x, p, i)"
    and b': "b' = install (b1\<lparr>pager := p, io := i\<rparr>) f x zero_page"
    using nw by (auto simp: NewPage_def split: sum.splits prod.splits)
  have a: "pool_inv {f} b1" "f < length (frames b1)" "keeps b b1" using AcquireFrameLocked_ok [OF inv ac] by auto
  have m: "meta (pager b1) = meta (pager b)" using keepsD(2) [OF a(3)] .
  note g = pool_grow [OF a(1) AcquireFrameLocked_free_pages [OF inv ac fp] bound [folded m] al]
  have x: "x \<notin> fst ` set (page_table b1)" using g(3) by blast
  then have nr: "map_of (page_table b1) x = None" by (simp add: map_of_eq_None_iff)
  have "PinCount b' = (PinCount (b1\<lparr>pager := p, io := i\<rparr>))(x := 1)"
    unfolding b' by (rule PinCount_install [OF g(1)]) (use a(2) nr in simp_all)
  moreover have "PinCount (b1\<lparr>pager := p, io := i\<rparr>) = PinCount b1" by (rule PinCount_cong) simp_all
  ultimately show "PinCount b' = (PinCount b)(x := 1)" using AcquireFrameLocked_pins [OF inv ac] by simp
  show "PinCount b x = 0" using AcquireFrameLocked_pins [OF inv ac, symmetric] nr by (simp add: PinCount_def)
  have p: "pager b' = p" by (simp add: b' install_def Let_def set_frame_def)
  show "root_page_id (meta (pager b')) = root_page_id (meta (pager b))" "num_keys (meta (pager b')) = num_keys (meta (pager b))"
    "unat (num_pages (meta (pager b'))) \<le> unat (num_pages (meta (pager b))) + 1"
    using AllocatePage_meta [OF al] bound p m by simp_all
  show "data_page (pager b) j \<Longrightarrow> data_page (pager b') j" using g(4) keepsD(3) [OF a(3)] p by simp
qed

lemma cache_alloc:
  assumes "pool_ok b" and bound: "unat (num_pages (meta (pager b))) + 1 < 2 ^ 32" and nw: "NewPage b = (Inr (g, p), b')"
  shows "pool_ok b' \<and> \<not> live_page b p \<and> holds b' p g \<and> (\<forall>j. live_page b j \<longrightarrow> live_page b' j \<and> pview b' j = pview b j) \<and>
    (\<forall>q h. holds b q h \<longrightarrow> holds b' q h) \<and> PinCount b p = 0 \<and> PinCount b' = (PinCount b)(p := 1) \<and>
    root_page_id (meta (pager b')) = root_page_id (meta (pager b)) \<and>
    num_keys (meta (pager b')) = num_keys (meta (pager b)) \<and> unat (num_pages (meta (pager b'))) \<le> unat (num_pages (meta (pager b))) + 1"
proof -
  obtain ids where inv: "pool_inv {} b" and fp: "free_pages b ids" using assms(1) by (auto simp: pool_ok_def)
  note n = NewPage_ok [OF inv fp bound nw] and np = NewPage_pins [OF inv fp bound nw]
  have n4: "(p, g) \<in> set (page_table b')" "pin_count (frames b' ! g) = 1" "free_pages b' (tl ids)"
    "p = (case ids of [] \<Rightarrow> num_pages (meta (pager b)) | y # _ \<Rightarrow> y)" using n(4) by blast+
  have "\<not> live_page b p" using n4(4) unfolding live_pageI [OF fp] by (auto simp: data_page_def split: list.splits)
  moreover have "holds b' p g" using n4 by (simp add: holds_def)
  moreover have "live_page b' j" if "live_page b j" for j
    using that np(6) list.set_sel(2) [of ids j] unfolding live_pageI [OF fp] live_pageI [OF n4(3)] by (cases ids) auto
  moreover have "pview b' j = pview b j" if "live_page b j" for j using that n(3) by (simp add: live_pageI [OF fp])
  moreover have "holds b' q h" if "holds b q h" for q h using n(2) that by (fastforce simp: holds_def pins_kept_def)
  ultimately show ?thesis using n(1) n4(3) np by (auto simp: pool_ok_def)
qed

interpretation pc: page_cache pool_ok live_page pview PinCount holds "\<lambda>b g. fpage (frames b ! g)" "\<lambda>b. meta (pager b)"
  FetchPageInternal ReleaseGuard guard_write NewPage
proof (unfold_locales, goal_cases)
  case (1 b p g)
  then show ?case by (rule cache_holds_page)
next
  case (2 b p g q h)
  then show ?case using pool_holds_unique [of b p g q h] by (simp add: pool_ok_def)
next
  case (3 b p r b')
  then show ?case by (rule cache_fetch_keeps)
next
  case (4 b p s b')
  then show ?case using FetchPageInternal_pins [of b p "Inl s" b'] FetchPageInternal_error [of b p s b'] by (simp add: pool_ok_def live_page_def)
next
  case (5 b p g b')
  then show ?case using FetchPageInternal_ok [of b p "Inr g" b'] FetchPageInternal_pins [of b p "Inr g" b'] by (auto simp: holds_def pool_ok_def)
next
  case (6 b p g)
  then show ?case using pool_release_keeps [of b p g] cache_same [OF guard_same(1,2), of b g] by (simp add: pool_ok_def)
next
  case (7 b p g pg)
  then show ?case using pool_update_one [of b p g pg] cache_same [OF guard_same(3,4), of b g pg] by (simp add: pool_ok_def)
next
  case (8 b g p b')
  then show ?case by (rule cache_alloc)
qed

end
