(* ===== verification/Node_Bytes.thy ===== *)
theory Node_Bytes
  imports Node
begin

section \<open>Page and node operations write inside the page\<close>

text \<open>
  \<open>mem_ok\<close> says that a page's memory is zero outside the payload area of its 4096 bytes: with it a page is determined by
  its bytes on disk. Every operation of \<^verbatim>\<open>Page\<close> and \<^verbatim>\<open>NodeView\<close> on a well-formed page keeps it: no
  operation writes into the header area through a record or slot pointer, or beyond the page. The content of a
  node does not depend on the checksum and log sequence number in its header.
\<close>

definition in_page :: "mem \<Rightarrow> bool" where
  "in_page m \<longleftrightarrow> (\<forall>k. k < 40 \<or> 4096 \<le> k \<longrightarrow> m k = 0)"

lemma mem_ok_in_page: "mem_ok p \<longleftrightarrow> in_page (dat p)"
  by (simp add: mem_ok_def in_page_def kHeaderSize_def kPageSize_def)

lemma in_page_write:
  assumes "in_page m" and "40 \<le> a" and "a + length xs \<le> 4096"
  shows "in_page (mem_write m a xs)"
  using assms by (auto simp: in_page_def mem_write_out)

lemma in_page_slot:
  assumes "in_page m" and "i < 507"
  shows "in_page (slot_write m i s)"
  unfolding slot_write_def using assms
  by (intro in_page_write) (auto simp: slot_addr_def kHeaderSize_def kSlotSize_def)

lemma in_page_zero [simp]: "in_page (\<lambda>_. 0)"
  by (simp add: in_page_def)

lemma mem_ok_Init [simp]: "mem_ok (Page_Init pid t)"
  by (simp add: mem_ok_in_page Page_Init_def)

lemma mem_ok_hdr [simp]: "mem_ok (p\<lparr>hdr := h\<rparr>) = mem_ok p"
  by (simp add: mem_ok_in_page)

lemma mem_ok_links [simp]:
  "mem_ok (InitLeaf p) = mem_ok p" "mem_ok (InitInternal p) = mem_ok p" "mem_ok (SetRightmostChild p c) = mem_ok p"
  "mem_ok (SetNextLeaf p c) = mem_ok p" "mem_ok (SetPrevLeaf p c) = mem_ok p"
  by (simp_all add: link_defs)

subsection \<open>Records\<close>

lemma InsertRecordAt_mem:
  assumes ok: "page_ok p" and m: "mem_ok p" and d: "length d < 65528" and res: "InsertRecordAt p i d (of_nat (length d)) = (r, q)"
  shows "mem_ok q"
proof -
  have lo: "layout_ok p" using ok by (simp add: page_ok_def)
  note b = layout_bounds [OF lo]
  let ?l = "of_nat (length d) :: u16"
  have l: "unat ?l = length d" using d by (intro unat_of_nat_less) simp
  show ?thesis
  proof (cases "i \<le> nslots p \<and> CanFit p ?l")
    case False
    then have "q = p" using res by (auto simp: InsertRecordAt_def split: if_splits)
    then show ?thesis using m by simp
  next
    case True
    then have fit: "length d + 8 \<le> fend p - fstart p" using CanFit_iff [OF lo, of ?l] l d by simp
    let ?o = "free_space_end (hdr p) - ?l"
    have uo: "unat ?o = fend p - length d"
      using fit l unfolding fend_def by (subst unat_sub_le) (auto simp: word_le_nat_alt)
    let ?m1 = "mem_write (dat p) (slot_addr (Suc i)) (mem_read (dat p) (slot_addr i) ((nslots p - i) * kSlotSize))"
    have n: "nslots p < 507" using fit b by linarith
    have "in_page ?m1"
      using m True n by (intro in_page_write) (auto simp: mem_ok_in_page slot_addr_def kHeaderSize_def kSlotSize_def diff_mult_distrib)
    then have "in_page (slot_write ?m1 i (slot_Init ?o ?l))" using True n by (intro in_page_slot) auto
    then have "in_page (mem_write (slot_write ?m1 i (slot_Init ?o ?l)) (unat ?o) d)"
      by (rule in_page_write) (use uo fit b in auto)
    moreover have "dat q = mem_write (slot_write ?m1 i (slot_Init ?o ?l)) (unat ?o) d"
      using res True l by (auto simp: InsertRecordAt_def Let_def)
    ultimately show ?thesis by (simp add: mem_ok_in_page)
  qed
qed

lemma compact_loop_mem:
  assumes "compact_loop old n i scratch e = (m, e')" and "in_page scratch" and "n \<le> 507"
    and "\<And>j. i \<le> j \<Longrightarrow> j < n \<Longrightarrow> slot_at scratch j = slot_at old j"
    and "unat e + live_sum old i = kPageSize" and "slot_addr n + live_sum old n \<le> kPageSize"
  shows "in_page m"
  using assms
proof (induction old n i scratch e arbitrary: m e' rule: compact_loop.induct)
  case (1 old n i scratch e)
  show ?case
  proof (cases "i < n")
    case False
    then show ?thesis using 1(3,4) by (simp add: compact_loop.simps [of old n i])
  next
    case True
    let ?s = "slot_at old i"
    have s: "slot_at scratch i = ?s" using 1(6) True by simp
    have i: "i < 507" using True 1(5) by simp
    have le: "live_sum old (Suc i) \<le> live_sum old n" using True by (intro live_sum_mono) simp
    have sa: "slot_addr (Suc j) \<le> slot_addr n" if "j < n" for j using that by (simp add: slot_addr_def kSlotSize_def)
    have a40: "40 \<le> slot_addr n" by (simp add: slot_addr_def kHeaderSize_def)
    show ?thesis
    proof (cases "slot_IsValid ?s")
      case False
      let ?sc = "slot_write scratch i (?s\<lparr>s_offset := 0, s_length := 0\<rparr>)"
      have "compact_loop old n (i + 1) ?sc e = (m, e')"
        using 1(3) True False s by (simp add: compact_loop.simps [of old n i] Let_def)
      then show ?thesis
        using 1(1) [OF True s [symmetric], of m e'] False 1(4-8) in_page_slot [OF 1(4) i] s by (simp add: live_sum_Suc)
    next
      case valid: True
      let ?e = "e - s_length ?s"
      let ?sc1 = "mem_write scratch (unat ?e) (mem_read old (unat (s_offset ?s)) (unat (s_length ?s)))"
      let ?sc = "slot_write ?sc1 i (?s\<lparr>s_offset := ?e\<rparr>)"
      have ls: "live_sum old (Suc i) = live_sum old i + unat (s_length ?s)" using valid by (simp add: live_sum_Suc)
      have ue: "unat ?e = unat e - unat (s_length ?s)"
        using ls le 1(7,8) by (intro unat_sub_le) (simp add: word_le_nat_alt)
      have ue2: "unat ?e + live_sum old (Suc i) = kPageSize" using ue ls le 1(7,8) by simp
      have lo: "slot_addr n \<le> unat ?e" using ue2 le 1(8) by linarith
      have "unat ?e + unat (s_length ?s) \<le> 4096" using ue2 ls by (simp add: kPageSize_def)
      then have "in_page ?sc1" using 1(4) lo a40 by (intro in_page_write) auto
      then have isc: "in_page ?sc" by (rule in_page_slot [OF _ i])
      have c1: "compact_loop old n (i + 1) ?sc ?e = (m, e')"
        using 1(3) True valid s by (simp add: compact_loop.simps [of old n i] Let_def)
      have "slot_at ?sc j = slot_at old j" if "i + 1 \<le> j" "j < n" for j
        using that sa [of j] lo 1(6) by simp
      then show ?thesis
        using 1(2) [OF True s [symmetric] _ refl refl, of m e'] valid c1 isc 1(5,8) ue2 s by simp
    qed
  qed
qed

lemma Compact_mem:
  assumes ok: "page_ok p"
  shows "mem_ok (Compact p)"
proof -
  have lo: "layout_ok p" using ok by (simp add: page_ok_def)
  note b = layout_bounds [OF lo]
  let ?s0 = "mem_write (\<lambda>_. 0) kHeaderSize (mem_read (dat p) kHeaderSize (nslots p * kSlotSize))"
  obtain m e where r: "compact_loop (dat p) (nslots p) 0 ?s0 (of_nat kPageSize) = (m, e)" by fastforce
  have s0: "slot_at ?s0 j = slot p j" if "j < nslots p" for j
  proof -
    have j: "j * kSlotSize + kSlotSize \<le> nslots p * kSlotSize" using that by (simp add: kSlotSize_def)
    then have "mem_read ?s0 (slot_addr j) kSlotSize = mem_read (dat p) (slot_addr j) kSlotSize"
      by (intro mem_read_eqI) (auto simp: mem_write_def slot_addr_def nth_mem_read)
    then show ?thesis by (simp add: slot_at_def)
  qed
  have "in_page ?s0" by (rule in_page_write) (use b in \<open>auto simp: kHeaderSize_def kSlotSize_def\<close>)
  moreover have "unat (of_nat kPageSize :: u16) = kPageSize" by (simp add: kPageSize_def)
  moreover have "slot_addr (nslots p) + live_sum (dat p) (nslots p) \<le> kPageSize"
    using live_sum_le_page [OF ok] b(5) by (simp add: kPageSize_def)
  ultimately have "in_page m" using compact_loop_mem [OF r] s0 b(1) by (simp add: live_sum_def)
  then show ?thesis by (simp add: mem_ok_in_page Compact_def r)
qed

subsection \<open>Node operations\<close>

lemma EnsureFit_mem: "page_ok p \<Longrightarrow> mem_ok p \<Longrightarrow> mem_ok (snd (EnsureFit p n))"
  by (simp add: EnsureFit_def Let_def Compact_mem)

lemma InsertAt_mem:
  assumes "page_ok p" and "mem_ok p" and "length d < 65528"
  shows "mem_ok (snd (InsertAt p i d))"
  using InsertRecordAt_mem [OF assms] assms(2) by (auto simp: InsertAt_def split: prod.splits sum.splits)

lemma InsertLeaf_mem:
  assumes ok: "page_ok p" and m: "mem_ok p" and l: "length k + length v < 65000" and res: "InsertLeaf p k v = (b, q)"
  shows "mem_ok q"
proof -
  obtain f p1 where ef: "EnsureFit p (kSlotSize + 4 + length k + length v) = (f, p1)" by fastforce
  have p1: "page_ok p1" "mem_ok p1" using EnsureFit_ok(2) [OF ok ef] EnsureFit_mem [OF ok m, of "kSlotSize + 4 + length k + length v"] ef by auto
  have "mem_ok (snd (InsertAt p1 i (EncodeLeafRecord k v)))" for i
    by (rule InsertAt_mem [OF p1]) (use l in \<open>simp add: EncodeLeafRecord_def\<close>)
  then show ?thesis using res ef p1 m by (auto simp: InsertLeaf_def split: if_splits prod.splits) (metis snd_conv)
qed

lemma InsertInternal_mem:
  assumes ok: "page_ok p" and m: "mem_ok p" and l: "length k < 65000" and res: "InsertInternal p k c = (b, q)"
  shows "mem_ok q"
proof -
  obtain f p1 where ef: "EnsureFit p (kSlotSize + 6 + length k) = (f, p1)" by fastforce
  have p1: "page_ok p1" "mem_ok p1" using EnsureFit_ok(2) [OF ok ef] EnsureFit_mem [OF ok m, of "kSlotSize + 6 + length k"] ef by auto
  have "mem_ok (snd (InsertAt p1 i (EncodeInternalRecord k c)))" for i
    by (rule InsertAt_mem [OF p1]) (use l in \<open>simp add: EncodeInternalRecord_def\<close>)
  then show ?thesis using res ef p1 m by (auto simp: InsertInternal_def split: if_splits prod.splits) (metis snd_conv)
qed

lemma shift_slots_mem:
  "in_page m \<Longrightarrow> n \<le> 507 \<Longrightarrow> in_page (shift_slots m i n)"
proof (induction m i n rule: shift_slots.induct)
  case (1 m i n)
  show ?case
  proof (cases "i + 1 < n")
    case True
    then have "in_page (slot_write m i (slot_at m (i + 1)))" using 1(2,3) by (intro in_page_slot) simp_all
    then show ?thesis using True 1(1) [OF True] 1(3) by (simp add: shift_slots.simps [of m i n])
  qed (use 1(2) in \<open>simp add: shift_slots.simps [of m i n]\<close>)
qed

lemma DeleteAt_mem:
  assumes ok: "page_ok p" and m: "mem_ok p"
  shows "mem_ok (snd (DeleteAt p i))"
proof (cases "i < nslots p")
  case True
  have n: "nslots p \<le> 507" using layout_bounds(1) ok by (simp add: page_ok_def)
  have "in_page (mem_write (shift_slots (dat p) i (nslots p)) (slot_addr (nslots p - 1)) (replicate kSlotSize 0))"
    using m n True by (intro in_page_write shift_slots_mem) (auto simp: mem_ok_in_page slot_addr_def kHeaderSize_def kSlotSize_def)
  then show ?thesis using True by (simp add: DeleteAt_def Let_def mem_ok_in_page)
qed (use m in \<open>simp add: DeleteAt_def\<close>)

lemma put_record_mem:
  assumes m: "mem_ok p" and lo: "layout_ok p" and i: "live p i" and l: "length xs \<le> rlen p i"
  shows "mem_ok (put_record p i xs)"
proof -
  have "fend p \<le> roff p i" "roff p i + rlen p i \<le> 4096" using lo i by (auto simp: layout_ok_def kPageSize_def)
  moreover have "40 \<le> fend p" using layout_bounds [OF lo] by simp
  ultimately have "in_page (mem_write (dat p) (roff p i) xs)" using m l by (intro in_page_write) (auto simp: mem_ok_in_page)
  then show ?thesis using i by (simp add: put_record_def GetRecordPtr_def live_def roff_def mem_ok_in_page)
qed

lemma place_record_mem:
  assumes m: "mem_ok p" and lo: "layout_ok p" and i: "i < nslots p" and l: "unat l = length d" and fit: "length d \<le> slack p"
  shows "mem_ok (place_record p i d l)"
proof -
  note b = layout_bounds [OF lo]
  let ?o = "free_space_end (hdr p) - l"
  have uo: "unat ?o = fend p - length d"
    using fit l unfolding fend_def slack_def by (subst unat_sub_le) (auto simp: word_le_nat_alt)
  have "in_page (slot_write (dat p) i (slot_Init ?o l))"
    using m i b by (intro in_page_slot) (auto simp: mem_ok_in_page)
  moreover from this have "in_page (mem_write (slot_write (dat p) i (slot_Init ?o l)) (unat ?o) d)"
    using uo fit b by (intro in_page_write) (auto simp: slack_def)
  ultimately show ?thesis
    using l by (simp add: place_record_def Let_def put_record_def GetRecordPtr_def mem_ok_in_page)
qed

lemma UpdateLeaf_mem:
  assumes rep: "leaf_rep p es" and m: "mem_ok p" and sz: "length k + length v < 65532" and res: "UpdateLeaf p k v = (b, q)"
  shows "mem_ok q"
proof -
  have ok: "page_ok p" and lo: "layout_ok p" and lf: "IsLeaf p" using rep by (auto simp: leaf_rep_def page_ok_def)
  let ?d = "EncodeLeafRecord k v" and ?i = "lb (map fst es) k"
  let ?l = "of_nat (length ?d) :: u16"
  have l: "unat ?l = length ?d" using sz by (intro unat_of_nat_less) (simp add: EncodeLeafRecord_def)
  show ?thesis
  proof (cases "k \<in> fst ` set es")
    case False
    then show ?thesis using res m lf by (simp add: UpdateLeaf_def leaf_FindKeyIndex [OF rep])
  next
    case True
    then have il: "?i < length es" using lb_entry rep by (auto simp: leaf_rep_def)
    note lv = leaf_live [OF rep il]
    have in_: "?i < nslots p" using lv(1) by (simp add: live_def)
    let ?o = "GetRecordLength p ?i"
    have o: "unat ?o = rlen p ?i" "?o = s_length (slot p ?i)" using lv(1) by (simp_all add: GetRecordLength_def live_def rlen_def)
    have u: "UpdateLeaf p k v =
        (if ?l \<le> ?o then
           let q = put_record p ?i (take (unat ?l) ?d) in
           if ?l < ?o then (True, q\<lparr>hdr := (hdr q)\<lparr>dead_bytes := dead_bytes (hdr q) + (?o - ?l)\<rparr>,
              dat := slot_write (dat q) ?i ((slot q ?i)\<lparr>s_length := ?l\<rparr>)\<rparr>) else (True, q)
         else if FreeSpace p < ?l then
           if unat (FreeSpace p) + unat (dead_bytes (hdr p)) + unat ?o < unat ?l then (False, p)
           else (True, place_record (Compact (snd (DeleteRecord p ?i))) ?i ?d ?l)
         else (True, place_record (p\<lparr>hdr := (hdr p)\<lparr>dead_bytes := dead_bytes (hdr p) + ?o\<rparr>\<rparr>) ?i ?d ?l))"
      using lf True by (simp add: UpdateLeaf_def leaf_FindKeyIndex [OF rep] Let_def)
    have n: "?i < 507" using in_ layout_bounds(1) [OF lo] by simp
    consider "?l \<le> ?o" | "\<not> ?l \<le> ?o" "q = p" | "\<not> ?l \<le> ?o" "FreeSpace p < ?l"
        "unat ?l \<le> unat (FreeSpace p) + unat (dead_bytes (hdr p)) + unat ?o" "q = place_record (Compact (snd (DeleteRecord p ?i))) ?i ?d ?l"
      | "\<not> FreeSpace p < ?l" "q = place_record (p\<lparr>hdr := (hdr p)\<lparr>dead_bytes := dead_bytes (hdr p) + ?o\<rparr>\<rparr>) ?i ?d ?l"
      using res unfolding u by (auto split: if_splits)
    then show ?thesis
    proof cases
      case 1
      then have le: "length ?d \<le> rlen p ?i" using l o by (simp add: word_le_nat_alt)
      have pr: "mem_ok (put_record p ?i (take (unat ?l) ?d))" by (rule put_record_mem [OF m lo lv(1)]) (use le l in simp)
      then have "mem_ok ((put_record p ?i (take (unat ?l) ?d))\<lparr>hdr := h, dat := slot_write (dat (put_record p ?i (take (unat ?l) ?d))) ?i s\<rparr>)" for h s
        using in_page_slot [OF _ n] by (simp add: mem_ok_in_page)
      then show ?thesis using res pr 1 unfolding u by (auto simp: Let_def split: if_splits)
    next
      case 2
      then show ?thesis using m by simp
    next
      case 3
      obtain r t where rt: "DeleteRecord p ?i = (r, t)" by fastforce
      note d = DeleteRecord_page_ok [OF ok lv(1) rt]
      have rm: "room p = slack p + dead p" "room t = slack t + dead t" by (simp_all add: room_def)
      have "layout_ok t" using d(2) by (simp add: page_ok_def)
      then have fs: "fstart t = fstart p" using layout_bounds(2) [of t] layout_bounds(2) [OF lo] d(4) by simp
      have cm: "page_ok (Compact t)" "slots_view (Compact t) = slots_view t" "nslots (Compact t) = nslots t"
        using Compact_page_ok [OF \<open>layout_ok t\<close>] Compact_post(1) [OF \<open>layout_ok t\<close>] by auto
      have "slack (Compact t) = room t"
        using room_view [OF d(2)] room_view [OF cm(1)] cm Compact_post(3) [OF \<open>layout_ok t\<close>] by (simp add: room_def)
      moreover have "room t = slack p + dead p + rlen p ?i" using d(5,6) fs by (simp add: room_def slack_def)
      moreover have "length ?d \<le> slack p + dead p + rlen p ?i"
        using 3(3) l o(1) unat_FreeSpace [OF lo] by (simp add: slack_def dead_def)
      ultimately have "mem_ok (place_record (Compact t) ?i ?d ?l)"
        using cm d(4) in_ l Compact_mem [OF d(2)] by (intro place_record_mem) (auto simp: page_ok_def)
      then show ?thesis using 3(4) rt by simp
    next
      case 4
      let ?p = "p\<lparr>hdr := (hdr p)\<lparr>dead_bytes := dead_bytes (hdr p) + ?o\<rparr>\<rparr>"
      have same: "nslots ?p = nslots p" "slack ?p = slack p" by (simp_all add: view_defs slack_def)
      have "layout_ok ?p" using lo by (simp add: layout_ok_def view_defs live_def roff_def rlen_def)
      moreover have "length ?d \<le> slack p" using 4(1) l unat_FreeSpace [OF lo] by (simp add: word_less_nat_alt slack_def)
      ultimately show ?thesis using 4(2) m in_ l same by (simp add: place_record_mem)
    qed
  qed
qed

lemma reinsert_mem:
  assumes "page_ok p" and "mem_ok p" and "\<forall>e \<in> set es. length (fst e) < 65000"
  shows "mem_ok (snd (reinsert p es))"
  using assms
proof (induction es arbitrary: p)
  case (Cons e es)
  obtain k c where e: "e = (k, c)" by fastforce
  let ?d = "EncodeInternalRecord k c"
  obtain x q where x: "InsertRecord p ?d (of_nat (length ?d)) = (x, q)" by fastforce
  have l: "length ?d < 65528" using Cons.prems(3) e by (simp add: EncodeInternalRecord_def)
  have ia: "InsertRecordAt p (nslots p) ?d (of_nat (length ?d)) = (x, q)" using x by (metis InsertRecord_eq)
  have mq: "mem_ok q" by (rule InsertRecordAt_mem [OF Cons.prems(1,2) l ia])
  have "page_ok q" using InsertRecordAt_cases [OF Cons.prems(1) l ia] Cons.prems(1) by (auto split: if_splits)
  then show ?case using Cons.IH [of q] mq Cons.prems(3) x by (cases x) (simp_all add: e Let_def)
qed simp

lemma InsertInternalAfterSplit_mem:
  assumes rep: "int_rep p es" and m: "mem_ok p" and l: "length sk < 65000"
    and res: "InsertInternalAfterSplit p sk a c = (b, q)"
  shows "mem_ok q"
proof -
  let ?i = "fst (FindKeyIndex p sk)"
  let ?es = "split_entries p ?i sk a c"
  have kl: "length (GetKey p j) < 65000" for j
  proof (cases "j < length es")
    case True
    then show ?thesis using int_rep_entries(4) [OF rep True] int_key_bound [of "es ! j" es] int_cost_view [OF rep] by simp
  next
    case False
    then show ?thesis using int_rep_entries(1) [OF rep] by (simp add: GetKey_def)
  qed
  have "\<forall>e \<in> set ?es. length (fst e) < 65000" using kl l by (auto simp: split_entries_def)
  then have "mem_ok (snd (reinsert (SetRightmostChild (Page_Init i t\<lparr>hdr := h\<rparr>) r) ?es))" if "page_ok (SetRightmostChild (Page_Init i t\<lparr>hdr := h\<rparr>) r)" for i t h r
    using that by (intro reinsert_mem) simp_all
  moreover have "page_ok (SetRightmostChild (Page_Init i t\<lparr>hdr := (hdr (Page_Init i t))\<lparr>page_lsn := x\<rparr>\<rparr>) r)" for i t x r
    using page_ok_Init [of i t]
    by (simp add: page_ok_def layout_ok_def live_def roff_def rlen_def view_defs link_defs)
  ultimately show ?thesis
    using res m by (auto simp: InsertInternalAfterSplit_def Let_def split: if_splits) (metis snd_conv)+
qed

subsection \<open>What the content of a node depends on\<close>

lemma page_ok_hdr:
  assumes "num_slots h = num_slots (hdr p)" and "free_space_start h = free_space_start (hdr p)"
    and "free_space_end h = free_space_end (hdr p)" and "dead_bytes h = dead_bytes (hdr p)"
  shows "page_ok (p\<lparr>hdr := h\<rparr>) = page_ok p" and "slots_view (p\<lparr>hdr := h\<rparr>) = slots_view p" and "room (p\<lparr>hdr := h\<rparr>) = room p"
  using assms by (simp_all add: page_ok_def layout_ok_def live_def roff_def rlen_def view_defs slots_view_def room_def slack_def)

lemma node_hdr [simp]:
  "leaf_rep (p\<lparr>hdr := (hdr p)\<lparr>checksum := c\<rparr>\<rparr>) es = leaf_rep p es"
  "int_rep (p\<lparr>hdr := (hdr p)\<lparr>checksum := c\<rparr>\<rparr>) xs = int_rep p xs"
  "leaf_rep (p\<lparr>hdr := (hdr p)\<lparr>page_lsn := l\<rparr>\<rparr>) es = leaf_rep p es"
  "int_rep (p\<lparr>hdr := (hdr p)\<lparr>page_lsn := l\<rparr>\<rparr>) xs = int_rep p xs"
  "leaf_rep (SetPrevLeaf p n) es = leaf_rep p es" "leaf_rep (SetNextLeaf p n) es = leaf_rep p es"
  "int_rep (SetRightmostChild p n) xs = int_rep p xs"
  by (simp_all add: leaf_rep_def int_rep_def page_ok_hdr IsLeaf_def IsInternal_def SetPrevLeaf_def SetNextLeaf_def SetRightmostChild_def)

end
