(* ===== verification/Ptree.thy ===== *)
theory Ptree
  imports Node_Bytes "HOL-Library.Multiset"
begin

section \<open>B+ trees as values, and what it means that pages represent one\<close>

text \<open>
  The specification side of the tree: a value of type \<open>ptree\<close> names the page of every node and lists its
  separators and entries. \<open>rep v t\<close> says that the pages \<open>v\<close> represent \<open>t\<close>; \<open>bnd\<close> is the search-tree order:
  keys of a child lie between the separators around it, the left one included. A position
  in a tree is a list of crumbs (\<open>plug\<close> puts a subtree back), which is what the path of a descent is; entries,
  pages, order and representation of the whole split along it.
\<close>

datatype ptree =
    Lf PageId "(key \<times> bytes) list"
  | Nd PageId "(key \<times> ptree) list" ptree

fun troot :: "ptree \<Rightarrow> PageId" where
  "troot (Lf p es) = p"
| "troot (Nd p ts t) = p"

fun leaves :: "ptree \<Rightarrow> (PageId \<times> (key \<times> bytes) list) list" where
  "leaves (Lf p es) = [(p, es)]"
| "leaves (Nd p ts t) = concat (map (\<lambda>(s, c). leaves c) ts) @ leaves t"

definition entries :: "ptree \<Rightarrow> (key \<times> bytes) list" where
  "entries t = concat (map snd (leaves t))"

fun pages :: "ptree \<Rightarrow> PageId list" where
  "pages (Lf p es) = [p]"
| "pages (Nd p ts t) = p # concat (map (\<lambda>(s, c). pages c) ts) @ pages t"

text \<open>Separators are strictly above the lower bound, so that a node never repeats one of its ancestors'.\<close>

definition above :: "key option \<Rightarrow> key \<Rightarrow> bool" where
  "above lo k = (case lo of None \<Rightarrow> True | Some l \<Rightarrow> l \<le> k)"

definition sabove :: "key option \<Rightarrow> key \<Rightarrow> bool" where
  "sabove lo k = (case lo of None \<Rightarrow> True | Some l \<Rightarrow> l < k)"

definition below :: "key option \<Rightarrow> key \<Rightarrow> bool" where
  "below hi k = (case hi of None \<Rightarrow> True | Some h \<Rightarrow> k < h)"

lemmas bound_defs = above_def sabove_def below_def

fun bnd :: "key option \<Rightarrow> key option \<Rightarrow> ptree \<Rightarrow> bool" where
  "bnd lo hi (Lf p es) = (\<forall>k \<in> fst ` set es. above lo k \<and> below hi k)"
| "bnd lo hi (Nd p [] t) = bnd lo hi t"
| "bnd lo hi (Nd p ((s, c) # ts) t) = (sabove lo s \<and> below hi s \<and> bnd lo (Some s) c \<and> bnd (Some s) hi (Nd p ts t))"

text \<open>Representation: leaves hold their entries, internal pages their separators and children, without dead space.\<close>

definition int_page :: "Page \<Rightarrow> (key \<times> PageId) list \<Rightarrow> PageId \<Rightarrow> bool" where
  "int_page pg es rm \<longleftrightarrow> int_rep pg es \<and> GetRightmostChild pg = rm \<and> dead pg = 0"

abbreviation roots :: "(key \<times> ptree) list \<Rightarrow> (key \<times> PageId) list" where
  "roots ts \<equiv> map (\<lambda>(s, c). (s, troot c)) ts"

fun rep :: "(PageId \<Rightarrow> Page) \<Rightarrow> ptree \<Rightarrow> bool" where
  "rep v (Lf p es) = (leaf_rep (v p) es \<and> p \<noteq> kInvalidPageId)"
| "rep v (Nd p ts t) = (int_page (v p) (roots ts) (troot t) \<and> p \<noteq> kInvalidPageId \<and> (\<forall>(s, c) \<in> set ts. rep v c) \<and> rep v t)"

text \<open>The chain of leaves, in order, ended by \<open>z\<close>.\<close>

fun linked :: "(PageId \<Rightarrow> Page) \<Rightarrow> PageId list \<Rightarrow> PageId \<Rightarrow> bool" where
  "linked v [] z = True"
| "linked v (p # ps) z = (GetNextLeaf (v p) = (case ps of [] \<Rightarrow> z | q # _ \<Rightarrow> q) \<and> linked v ps z)"

abbreviation leaf_ids :: "ptree \<Rightarrow> PageId list" where
  "leaf_ids t \<equiv> map fst (leaves t)"

subsection \<open>Positions\<close>

text \<open>
  A crumb: the node's page, the separators and children left of the position (each with the separator to its right), and
  those right of it (each with the separator to its left). \<open>slide\<close> brings the latter into the form of a node.
\<close>

type_synonym crumb = "PageId \<times> (key \<times> ptree) list \<times> (key \<times> ptree) list"

fun slide :: "'a \<Rightarrow> (key \<times> 'a) list \<Rightarrow> (key \<times> 'a) list \<times> 'a" where
  "slide h [] = ([], h)"
| "slide h ((s, c) # rs) = ((s, h) # fst (slide c rs), snd (slide c rs))"

fun plug1 :: "crumb \<Rightarrow> ptree \<Rightarrow> ptree" where
  "plug1 (p, ls, rs) h = Nd p (ls @ fst (slide h rs)) (snd (slide h rs))"

fun plug :: "crumb list \<Rightarrow> ptree \<Rightarrow> ptree" where
  "plug [] h = h"
| "plug (c # cs) h = plug cs (plug1 c h)"

fun lleaves :: "crumb list \<Rightarrow> (PageId \<times> (key \<times> bytes) list) list" where
  "lleaves [] = []"
| "lleaves ((p, ls, rs) # cs) = lleaves cs @ concat (map (\<lambda>(s, c). leaves c) ls)"

fun rleaves :: "crumb list \<Rightarrow> (PageId \<times> (key \<times> bytes) list) list" where
  "rleaves [] = []"
| "rleaves ((p, ls, rs) # cs) = concat (map (\<lambda>(s, c). leaves c) rs) @ rleaves cs"

fun cpages :: "crumb list \<Rightarrow> PageId list" where
  "cpages [] = []"
| "cpages ((p, ls, rs) # cs) = p # concat (map (\<lambda>(s, c). pages c) ls) @ concat (map (\<lambda>(s, c). pages c) rs) @ cpages cs"

fun crep :: "(PageId \<Rightarrow> Page) \<Rightarrow> crumb list \<Rightarrow> PageId \<Rightarrow> bool" where
  "crep v [] i = True"
| "crep v ((p, ls, rs) # cs) i =
     (int_page (v p) (roots ls @ fst (slide i (roots rs))) (snd (slide i (roots rs))) \<and> p \<noteq> kInvalidPageId \<and>
      (\<forall>(s, c) \<in> set ls \<union> set rs. rep v c) \<and> crep v cs p)"

fun clo :: "crumb list \<Rightarrow> key option" where
  "clo [] = None"
| "clo ((p, ls, rs) # cs) = (if ls = [] then clo cs else Some (fst (last ls)))"

fun chi :: "crumb list \<Rightarrow> key option" where
  "chi [] = None"
| "chi ((p, ls, rs) # cs) = (if rs = [] then chi cs else Some (fst (hd rs)))"

fun lbnd :: "key option \<Rightarrow> key option \<Rightarrow> (key \<times> ptree) list \<Rightarrow> bool" where
  "lbnd lo hi [] = True"
| "lbnd lo hi ((s, c) # ls) = (sabove lo s \<and> below hi s \<and> bnd lo (Some s) c \<and> lbnd (Some s) hi ls)"

fun rbnd :: "key option \<Rightarrow> key option \<Rightarrow> (key \<times> ptree) list \<Rightarrow> bool" where
  "rbnd lo hi [] = True"
| "rbnd lo hi ((s, c) # rs) =
     (sabove lo s \<and> below hi s \<and> bnd (Some s) (if rs = [] then hi else Some (fst (hd rs))) c \<and> rbnd (Some s) hi rs)"

fun cbnd :: "crumb list \<Rightarrow> bool" where
  "cbnd [] = True"
| "cbnd ((p, ls, rs) # cs) = (lbnd (clo cs) (chi cs) ls \<and> rbnd (clo ((p, ls, rs) # cs)) (chi cs) rs \<and> cbnd cs)"

subsection \<open>How positions split a tree\<close>

lemma slide_map: "slide (f h) (map (\<lambda>(s, c). (s, f c)) rs) = (map (\<lambda>(s, c). (s, f c)) (fst (slide h rs)), f (snd (slide h rs)))"
  by (induction h rs rule: slide.induct) auto

lemma slide_concat:
  "concat (map (\<lambda>(s, c). g c) (fst (slide h rs))) @ g (snd (slide h rs)) = g h @ concat (map (\<lambda>(s, c). g c) rs)"
  by (induction h rs rule: slide.induct) auto

lemma slide_all:
  "(\<forall>(s, c) \<in> set (fst (slide h rs)). P c) \<and> P (snd (slide h rs)) \<longleftrightarrow> P h \<and> (\<forall>(s, c) \<in> set rs. P c)"
  by (induction h rs rule: slide.induct) auto

lemma troot_plug1 [simp]: "troot (plug1 c h) = fst c"
  by (cases c) simp

lemma leaves_plug: "leaves (plug cs h) = lleaves cs @ leaves h @ rleaves cs"
proof (induction cs arbitrary: h)
  case (Cons c cs)
  obtain p ls rs where c: "c = (p, ls, rs)" by (cases c)
  show ?case using Cons [of "plug1 c h"] slide_concat [of leaves h rs] by (simp add: c)
qed simp

lemma entries_plug: "entries (plug cs h) = concat (map snd (lleaves cs)) @ entries h @ concat (map snd (rleaves cs))"
  by (simp add: entries_def leaves_plug)

lemma mset_pages_plug: "mset (pages (plug cs h)) = mset (cpages cs) + mset (pages h)"
proof (induction cs arbitrary: h)
  case (Cons c cs)
  obtain p ls rs where c: "c = (p, ls, rs)" by (cases c)
  have "mset (concat (map (\<lambda>(s, c). pages c) (fst (slide h rs))) @ pages (snd (slide h rs))) =
      mset (pages h @ concat (map (\<lambda>(s, c). pages c) rs))" by (simp only: slide_concat)
  then show ?case using Cons [of "plug1 c h"] by (simp add: c ac_simps)
qed simp

lemma pages_plug:
  "set (pages (plug cs h)) = set (cpages cs) \<union> set (pages h)"
  "distinct (pages (plug cs h)) \<longleftrightarrow> distinct (cpages cs @ pages h)"
proof -
  have m: "mset (pages (plug cs h)) = mset (cpages cs @ pages h)" by (simp add: mset_pages_plug)
  show "set (pages (plug cs h)) = set (cpages cs) \<union> set (pages h)" using mset_eq_setD [OF m] by simp
  show "distinct (pages (plug cs h)) \<longleftrightarrow> distinct (cpages cs @ pages h)" by (rule mset_eq_imp_distinct_iff [OF m])
qed

lemma rep_plug: "rep v (plug cs h) \<longleftrightarrow> rep v h \<and> crep v cs (troot h)"
proof (induction cs arbitrary: h)
  case (Cons c cs)
  obtain p ls rs where c: "c = (p, ls, rs)" by (cases c)
  have "rep v (plug1 c h) \<longleftrightarrow> rep v h \<and> int_page (v p) (roots ls @ fst (slide (troot h) (roots rs))) (snd (slide (troot h) (roots rs))) \<and>
      p \<noteq> kInvalidPageId \<and> (\<forall>(s, c) \<in> set ls \<union> set rs. rep v c)"
    using slide_all [of h rs "rep v"] slide_map [of troot h rs] by (auto simp: c)
  then show ?case using Cons [of "plug1 c h"] by (auto simp: c)
qed simp

lemma bnd_append:
  "bnd lo hi (Nd p (ls @ xs) t) \<longleftrightarrow> lbnd lo hi ls \<and> bnd (if ls = [] then lo else Some (fst (last ls))) hi (Nd p xs t)"
  by (induction lo hi ls rule: lbnd.induct) auto

lemma bnd_slide:
  "bnd lo hi (Nd p (fst (slide h rs)) (snd (slide h rs))) \<longleftrightarrow>
     bnd lo (if rs = [] then hi else Some (fst (hd rs))) h \<and> rbnd lo hi rs"
  by (induction h rs arbitrary: lo rule: slide.induct) auto

lemma bnd_plug: "bnd None None (plug cs h) \<longleftrightarrow> cbnd cs \<and> bnd (clo cs) (chi cs) h"
proof (induction cs arbitrary: h)
  case (Cons c cs)
  obtain p ls rs where c: "c = (p, ls, rs)" by (cases c)
  show ?case using Cons [of "plug1 c h"] by (auto simp: c bnd_append bnd_slide)
qed simp

lemma linked_append:
  "linked v (xs @ ys) z \<longleftrightarrow> linked v xs (case ys of [] \<Rightarrow> z | y # _ \<Rightarrow> y) \<and> linked v ys z"
  by (induction xs) (auto split: list.splits)

subsection \<open>Order\<close>

lemma above_trans: "above lo s \<Longrightarrow> above (Some s) k \<Longrightarrow> above lo k" "sabove lo s \<Longrightarrow> above lo s"
  "sabove lo s \<Longrightarrow> above (Some s) k \<Longrightarrow> sabove lo k" "below (Some s) k \<Longrightarrow> below hi s \<Longrightarrow> below hi k"
  by (auto simp: bound_defs split: option.splits)

lemma entries_simps [simp]:
  "entries (Lf p es) = es" "entries (Nd p [] t) = entries t" "entries (Nd p ((s, c) # ts) t) = entries c @ entries (Nd p ts t)"
  by (simp_all add: entries_def)

lemma entries_Nd: "entries (Nd p ts t) = concat (map (\<lambda>(s, c). entries c) ts) @ entries t"
  by (induction ts) auto

lemma bnd_entries:
  assumes "bnd lo hi t" and "k \<in> fst ` set (entries t)"
  shows "above lo k \<and> below hi k"
  using assms
proof (induction lo hi t arbitrary: k rule: bnd.induct)
  case (3 lo hi p s c ts t)
  then consider "k \<in> fst ` set (entries c)" | "k \<in> fst ` set (entries (Nd p ts t))"
    unfolding entries_simps set_append image_Un by blast
  then show ?case
  proof cases
    case 1
    then have "above lo k" "below (Some s) k" using 3 by auto
    then show ?thesis using 3(3) above_trans(4) by auto
  next
    case 2
    then have "above (Some s) k" "below hi k" using 3 by auto
    then show ?thesis using 3(3) by (auto simp: bound_defs split: option.splits)
  qed
qed auto

lemma lbnd_last: "lbnd lo hi ls \<Longrightarrow> ls \<noteq> [] \<Longrightarrow> below hi (fst (last ls)) \<and> sabove lo (fst (last ls))"
proof (induction lo hi ls rule: lbnd.induct)
  case (2 lo hi s c ls)
  then show ?case by (cases "ls = []") (auto simp: bound_defs split: option.splits)
qed simp

lemma lbnd_entries:
  assumes "lbnd lo hi ls" and "(s', c) \<in> set ls" and "k \<in> fst ` set (entries c)"
  shows "above lo k \<and> k < fst (last ls)"
  using assms
proof (induction lo hi ls rule: lbnd.induct)
  case (2 lo hi s d ls)
  have last: "s \<le> fst (last ((s, d) # ls))"
    using 2(2) lbnd_last [of "Some s" hi ls] by (auto simp: sabove_def)
  show ?case
  proof (cases "(s', c) = (s, d)")
    case True
    then have "above lo k" "k < s" using 2(2,4) bnd_entries [of lo "Some s" d k] by (auto simp: bound_defs)
    then show ?thesis using last by simp
  next
    case False
    then have "above (Some s) k" "k < fst (last ls)" "ls \<noteq> []" using 2 by auto
    then show ?thesis using 2(2) by (auto simp: bound_defs split: option.splits)
  qed
qed simp

lemma rbnd_entries:
  assumes "rbnd lo hi rs" and "(s', c) \<in> set rs" and "k \<in> fst ` set (entries c)"
  shows "fst (hd rs) \<le> k \<and> below hi k"
  using assms
proof (induction lo hi rs rule: rbnd.induct)
  case (2 lo hi s d rs)
  have hd: "s \<le> fst (hd rs)" if "rs \<noteq> []" using 2(2) that by (cases rs) (auto simp: bound_defs)
  have bh: "below hi (fst (hd rs))" if "rs \<noteq> []" using 2(2) that by (cases rs) auto
  show ?case
  proof (cases "(s', c) = (s, d)")
    case True
    then have "above (Some s) k" "below (if rs = [] then hi else Some (fst (hd rs))) k"
      using 2(2,4) bnd_entries [of "Some s" "if rs = [] then hi else Some (fst (hd rs))" d k] by auto
    then show ?thesis using bh above_trans(4) by (auto simp: above_def split: if_splits)
  next
    case False
    then have "fst (hd rs) \<le> k" "below hi k" "rs \<noteq> []" using 2 by auto
    then show ?thesis using hd by auto
  qed
qed simp

abbreviation lents :: "crumb list \<Rightarrow> (key \<times> bytes) list" where
  "lents cs \<equiv> concat (map snd (lleaves cs))"

abbreviation rents :: "crumb list \<Rightarrow> (key \<times> bytes) list" where
  "rents cs \<equiv> concat (map snd (rleaves cs))"

lemma concat_leaves: "concat (map snd (concat (map (\<lambda>(s, c). leaves c) xs))) = concat (map (\<lambda>(s, c). entries c) xs)"
  by (induction xs) (auto simp: entries_def)

lemma in_concat: "k \<in> fst ` set (concat (map (\<lambda>(s, c). entries c) xs)) \<Longrightarrow> \<exists>s c. (s, c) \<in> set xs \<and> k \<in> fst ` set (entries c)"
proof (induction xs)
  case (Cons x xs)
  obtain s c where x: "x = (s, c)" by fastforce
  from Cons.prems consider "k \<in> fst ` set (entries c)" | "k \<in> fst ` set (concat (map (\<lambda>(s, c). entries c) xs))"
    unfolding x list.map prod.case concat.simps set_append image_Un by blast
  then show ?case
  proof cases
    case 1
    then show ?thesis unfolding x by (intro exI [of _ s] exI [of _ c]) simp
  next
    case 2
    from Cons.IH [OF 2] show ?thesis by auto
  qed
qed simp

lemma lleaves_below:
  assumes "cbnd cs" and "above (clo cs) k" and "k' \<in> fst ` set (lents cs)"
  shows "k' < k"
  using assms
proof (induction cs)
  case (Cons c cs)
  obtain p ls rs where c: "c = (p, ls, rs)" by (cases c)
  have b: "lbnd (clo cs) (chi cs) ls" "cbnd cs" using Cons.prems(1) c by auto
  from Cons.prems(3) have "k' \<in> fst ` set (lents cs) \<or> k' \<in> fst ` set (concat (map (\<lambda>(s, c). entries c) ls))"
    unfolding c lleaves.simps map_append concat_append concat_leaves set_append image_Un by blast
  then consider "k' \<in> fst ` set (lents cs)" | s d where "(s, d) \<in> set ls" "k' \<in> fst ` set (entries d)"
    using in_concat by blast
  then show ?case
  proof cases
    case 1
    have "above (clo cs) k"
      using Cons.prems(2) lbnd_last [OF b(1)] by (cases "ls = []") (auto simp: c bound_defs split: option.splits)
    then show ?thesis using Cons.IH b(2) 1 by blast
  next
    case 2
    then have "k' < fst (last ls)" "ls \<noteq> []" using lbnd_entries [OF b(1)] by auto
    then show ?thesis using Cons.prems(2) by (auto simp: c above_def)
  qed
qed simp

lemma rleaves_above:
  assumes "cbnd cs" and "below (chi cs) k" and "k' \<in> fst ` set (rents cs)"
  shows "k < k'"
  using assms
proof (induction cs)
  case (Cons c cs)
  obtain p ls rs where c: "c = (p, ls, rs)" by (cases c)
  have b: "rbnd (clo (c # cs)) (chi cs) rs" "cbnd cs" using Cons.prems(1) c by auto
  from Cons.prems(3) have "k' \<in> fst ` set (rents cs) \<or> k' \<in> fst ` set (concat (map (\<lambda>(s, c). entries c) rs))"
    unfolding c rleaves.simps map_append concat_append concat_leaves set_append image_Un by blast
  then consider "k' \<in> fst ` set (rents cs)" | s d where "(s, d) \<in> set rs" "k' \<in> fst ` set (entries d)"
    using in_concat by blast
  then show ?case
  proof cases
    case 1
    have "below (chi cs) k"
      using Cons.prems(2) b(1) by (cases rs) (auto simp: c bound_defs split: option.splits)
    then show ?thesis using Cons.IH b(2) 1 by blast
  next
    case 2
    then have "fst (hd rs) \<le> k'" "rs \<noteq> []" using rbnd_entries [OF b(1)] by auto
    then show ?thesis using Cons.prems(2) by (auto simp: c below_def)
  qed
qed simp

text \<open>A key that lies at a position is looked up in the subtree there.\<close>

lemma map_of_plug:
  assumes "cbnd cs" and "above (clo cs) k" and "below (chi cs) k"
  shows "map_of (entries (plug cs h)) k = map_of (entries h) k"
proof -
  have "k \<notin> fst ` set (lents cs)" using lleaves_below [OF assms(1,2)] by blast
  moreover have "k \<notin> fst ` set (rents cs)" using rleaves_above [OF assms(1,3)] by blast
  ultimately show ?thesis
    by (simp add: entries_plug map_add_def map_of_eq_None_iff [THEN iffD2] split: option.split)
qed

lemma map_of_plug_other:
  assumes "cbnd cs" and "above (clo cs) k" and "below (chi cs) k" and "\<And>j. j \<noteq> k \<Longrightarrow> map_of (entries h') j = map_of (entries h) j"
  shows "map_of (entries (plug cs h')) = (map_of (entries (plug cs h)))(k := map_of (entries h') k)"
proof
  fix j
  show "map_of (entries (plug cs h')) j = ((map_of (entries (plug cs h)))(k := map_of (entries h') k)) j"
    using map_of_plug [OF assms(1-3), of h'] assms(4) [of j]
    by (cases "j = k") (simp_all add: entries_plug map_add_def split: option.split)
qed

subsection \<open>Routing\<close>

lemma slide_onto: "\<exists>h rs. slide h rs = (ts, t)"
proof (induction ts)
  case Nil
  then show ?case using slide.simps(1) [of t] by blast
next
  case (Cons x ts)
  obtain s c where x: "x = (s, c)" by fastforce
  from Cons obtain h rs where "slide h rs = (ts, t)" by blast
  then have "slide c ((s, h) # rs) = (x # ts, t)" by (simp add: x)
  then show ?case by blast
qed

lemma step_down:
  assumes "bnd lo hi (Nd p ts t)" and "above lo k" and "below hi k"
  obtains ls c rs where "Nd p ts t = plug1 (p, ls, rs) c" and "troot c = route (roots ts) (troot t) k"
    and "above (if ls = [] then lo else Some (fst (last ls))) k" and "below (if rs = [] then hi else Some (fst (hd rs))) k"
    and "c = t \<or> c \<in> snd ` set ts"
proof -
  have "\<exists>ls c rs. Nd p ts t = plug1 (p, ls, rs) c \<and> troot c = route (roots ts) (troot t) k \<and>
      above (if ls = [] then lo else Some (fst (last ls))) k \<and> below (if rs = [] then hi else Some (fst (hd rs))) k \<and>
      (c = t \<or> c \<in> snd ` set ts)"
    using assms
  proof (induction ts arbitrary: lo)
    case Nil
    then show ?case by (intro exI [of _ "[]"] exI [of _ t]) simp
  next
    case (Cons x ts)
    obtain s c where x: "x = (s, c)" by fastforce
    show ?case
    proof (cases "k < s")
      case True
      obtain h rs where "slide h rs = (ts, t)" using slide_onto [of ts t] by blast
      then show ?thesis using True Cons.prems x
        by (intro exI [of _ "[]"] exI [of _ c] exI [of _ "(s, h) # rs"]) (auto simp: below_def)
    next
      case False
      then have "above (Some s) k" "bnd (Some s) hi (Nd p ts t)" using Cons.prems x by (auto simp: above_def)
      then obtain ls d rs where d: "Nd p ts t = plug1 (p, ls, rs) d" "troot d = route (roots ts) (troot t) k"
        "above (if ls = [] then Some s else Some (fst (last ls))) k" "below (if rs = [] then hi else Some (fst (hd rs))) k"
        "d = t \<or> d \<in> snd ` set ts"
        using Cons.IH [of "Some s"] Cons.prems(3) by blast
      have "Nd p (x # ts) t = plug1 (p, x # ls, rs) d" using d(1) by simp
      moreover have "troot d = route (roots (x # ts)) (troot t) k" using d(2) False by (simp add: x)
      moreover have "above (if x # ls = [] then lo else Some (fst (last (x # ls)))) k" using d(3) by (simp add: x split: if_splits)
      moreover have "d = t \<or> d \<in> snd ` set (x # ts)" using d(5) by auto
      ultimately show ?thesis using d(4) by blast
    qed
  qed
  then show ?thesis using that by blast
qed

subsection \<open>Representation and views\<close>

lemma troot_pages: "troot t \<in> set (pages t)"
  by (cases t) auto

lemma leaf_ids_pages: "set (leaf_ids t) \<subseteq> set (pages t)"
  by (induction t) fastforce+

lemma rep_cong: "(\<And>p. p \<in> set (pages t) \<Longrightarrow> v' p = v p) \<Longrightarrow> rep v' t = rep v t"
proof (induction t)
  case (Nd p ts t)
  have "rep v' c = rep v c" if "(s, c) \<in> set ts" for s c
    by (rule Nd.IH(1) [OF that, of c]) (use Nd.prems that in auto)
  moreover have "rep v' t = rep v t" using Nd.IH(2) Nd.prems by simp
  ultimately show ?case using Nd.prems [of p] by auto
qed simp

lemma linked_cong: "(\<And>p. p \<in> set ps \<Longrightarrow> GetNextLeaf (v' p) = GetNextLeaf (v p)) \<Longrightarrow> linked v' ps z = linked v ps z"
  by (induction ps) auto

lemma rep_root: "rep v t \<Longrightarrow> troot t \<noteq> kInvalidPageId"
  by (cases t) auto

end
