(* ===== verification/BTree_Read.thy ===== *)
theory BTree_Read
  imports BTree Page_Cache Ptree
begin

section \<open>Reading the tree: Get, Contains and cursors\<close>

text \<open>
  \<open>tree_ok b t\<close>: the pages seen through the pool \<open>b\<close> represent the tree \<open>t\<close>. Descents terminate at the leaf where
  the key belongs, whatever the operating system does, or report a storage error; they change no page and leave
  no pin behind. With that \<^verbatim>\<open>Get\<close> is lookup in the tree's map, and a cursor walks the entries in key order.
\<close>

definition tree_ok :: "BufferPool \<Rightarrow> ptree \<Rightarrow> bool" where
  "tree_ok b t \<longleftrightarrow> pool_ok b \<and> rep (pview b) t \<and> bnd None None t \<and> distinct (pages t) \<and>
     (\<forall>p \<in> set (pages t). live_page b p) \<and> linked (pview b) (leaf_ids t) kInvalidPageId \<and>
     root_page_id (meta (pager b)) = troot t"

lemma tree_ok_reads:
  assumes t: "tree_ok b t" and r: "pc.reads b b'"
  shows "tree_ok b' t"
proof -
  have k: "pool_ok b'" "live_page b' = live_page b" "meta (pager b') = meta (pager b)"
    "\<And>j. live_page b j \<Longrightarrow> pview b' j = pview b j" using r by (auto simp: pc.reads_def)
  have v: "pview b' p = pview b p" if "p \<in> set (pages t)" for p using t k(4) that by (simp add: tree_ok_def)
  have "rep (pview b') t" using t rep_cong [of t "pview b'" "pview b"] v by (simp add: tree_ok_def)
  moreover have "linked (pview b') (leaf_ids t) kInvalidPageId"
    using t linked_cong [of "leaf_ids t" "pview b'" "pview b" kInvalidPageId] v leaf_ids_pages [of t]
    by (auto simp: tree_ok_def subset_iff)
  ultimately show ?thesis using t k(1-3) by (simp add: tree_ok_def)
qed

lemma gpage_view:
  assumes "pool_ok b" and "holds b p g"
  shows "stamp (gpage b g) 0 = pview b p" and "mem_ok (gpage b g)" and "gid b g = p" and "live_page b p"
proof -
  show "stamp (gpage b g) 0 = pview b p" "mem_ok (gpage b g)" "live_page b p"
    using pc.holds_page [OF assms] by (auto simp: gpage_def)
  have "core_inv {} b" using assms(1) by (simp add: pool_ok_def pool_inv_def)
  moreover have "(p, g) \<in> set (page_table b)" using assms(2) by (simp add: holds_def)
  ultimately show "gid b g = p" using core_invD(2) by (fastforce simp: frame_ok_def gid_def)
qed

lemma gpage_leaf:
  assumes "pool_ok b" and "holds b p g"
  shows "leaf_rep (gpage b g) es = leaf_rep (pview b p) es" and "int_rep (gpage b g) xs = int_rep (pview b p) xs"
    and "GetNextLeaf (gpage b g) = GetNextLeaf (pview b p)" and "GetRightmostChild (gpage b g) = GetRightmostChild (pview b p)"
    and "dead (gpage b g) = dead (pview b p)"
  unfolding gpage_view(1) [OF assms, symmetric] by (simp_all add: link_defs view_defs)

lemma leaf_or_int:
  "leaf_rep p es \<Longrightarrow> IsLeaf p" "int_rep p xs \<Longrightarrow> \<not> IsLeaf p"
  by (auto simp: leaf_rep_def int_rep_def IsLeaf_def IsInternal_def kLeaf_def kInternalNode_def)

subsection \<open>Descents\<close>

text \<open>What a guard costs: one pin on its page.\<close>

abbreviation (input) unpin :: "PageId \<Rightarrow> (PageId \<Rightarrow> nat) \<Rightarrow> PageId \<Rightarrow> nat" where
  "unpin p f \<equiv> f(p := f p - 1)"

text \<open>The leaf of \<open>t\<close> where \<open>k\<close> belongs, held by guard \<open>g\<close> on top of the pins \<open>f\<close>.\<close>

definition at_leaf :: "BufferPool \<Rightarrow> ptree \<Rightarrow> key \<Rightarrow> (PageId \<Rightarrow> nat) \<Rightarrow> FrameId \<Rightarrow> crumb list \<Rightarrow> PageId \<Rightarrow> (key \<times> bytes) list \<Rightarrow> bool" where
  "at_leaf b t k f g cs p es \<longleftrightarrow> t = plug cs (Lf p es) \<and> above (clo cs) k \<and> below (chi cs) k \<and>
     holds b p g \<and> PinCount b = f(p := f p + 1)"

lemma at_leaf_facts:
  assumes "tree_ok b t" and "at_leaf b t k f g cs p es"
  shows "leaf_rep (gpage b g) es" and "map_of (entries t) k = map_of es k" and "cbnd cs" and "mem_ok (gpage b g)"
    and "bnd (clo cs) (chi cs) (Lf p es)" and "gid b g = p"
proof -
  have t: "t = plug cs (Lf p es)" and h: "holds b p g" and ab: "above (clo cs) k" "below (chi cs) k"
    using assms(2) by (auto simp: at_leaf_def)
  have inv: "pool_ok b" using assms(1) by (simp add: tree_ok_def)
  show b: "cbnd cs" "bnd (clo cs) (chi cs) (Lf p es)" using assms(1) by (simp_all add: tree_ok_def t bnd_plug)
  have "leaf_rep (pview b p) es" using assms(1) by (simp add: tree_ok_def t rep_plug)
  then show "leaf_rep (gpage b g) es" using gpage_leaf(1) [OF inv h] by simp
  show "map_of (entries t) k = map_of es k" using map_of_plug [OF b(1) ab, of "Lf p es"] by (simp add: t)
  show "mem_ok (gpage b g)" "gid b g = p" using gpage_view(2,3) [OF inv h] by auto
qed

lemma descend_ok:
  assumes "tree_ok b t" and "t = plug cs h" and "holds b (troot h) g" and "above (clo cs) k" and "below (chi cs) k"
    and "PinCount b = f(troot h := f (troot h) + 1)"
  shows "\<exists>r b'. descend k g b = Some (r, b') \<and> pc.reads b b' \<and>
    (case r of Inl s \<Rightarrow> io_error s \<and> PinCount b' = f | Inr g' \<Rightarrow> \<exists>cs p es. at_leaf b' t k f g' cs p es)"
  using assms
proof (induction h arbitrary: cs b g)
  case (Lf p es)
  have inv: "pool_ok b" using Lf.prems(1) by (simp add: tree_ok_def)
  have "leaf_rep (pview b p) es" using Lf.prems(1,2) by (simp add: tree_ok_def rep_plug)
  then have "IsLeaf (gpage b g)" using gpage_leaf(1) [OF inv] Lf.prems(3) leaf_or_int(1) by (metis troot.simps(1))
  then have "descend k g b = Some (Inr g, b)" by (simp add: descend.simps)
  moreover have "at_leaf b t k f g cs p es" using Lf.prems unfolding at_leaf_def troot.simps by blast
  ultimately show ?case using pc.reads_refl [OF inv] by (intro exI [of _ "Inr g"] exI [of _ b]) auto
next
  case (Nd p ts u)
  have inv: "pool_ok b" using Nd.prems(1) by (simp add: tree_ok_def)
  have h: "holds b p g" using Nd.prems(3) by simp
  have rp: "rep (pview b) (Nd p ts u)" and bd: "bnd (clo cs) (chi cs) (Nd p ts u)"
    using Nd.prems(1,2) by (simp_all add: tree_ok_def rep_plug bnd_plug)
  obtain ls c rs where c: "Nd p ts u = plug1 (p, ls, rs) c" "troot c = route (roots ts) (troot u) k"
    "above (if ls = [] then clo cs else Some (fst (last ls))) k" "below (if rs = [] then chi cs else Some (fst (hd rs))) k"
    "c = u \<or> c \<in> snd ` set ts"
    by (rule step_down [OF bd Nd.prems(4,5)])
  have ir: "int_rep (gpage b g) (roots ts)" "GetRightmostChild (gpage b g) = troot u"
    using rp gpage_leaf(2,4) [OF inv h] by (simp_all add: int_page_def)
  have nl: "\<not> IsLeaf (gpage b g)" using leaf_or_int(2) [OF ir(1)] .
  have fc: "FindChild (gpage b g) k = troot c" using FindChild_route [OF ir(1)] ir(2) c(2) by simp
  have rc: "rep (pview b) c" using rp c(5) by auto
  have nc: "troot c \<noteq> kInvalidPageId" by (rule rep_root [OF rc])
  have t: "t = plug ((p, ls, rs) # cs) c" using Nd.prems(2) c(1) by simp
  have pg: "troot c \<in> set (pages t)" "troot c \<noteq> p"
    using Nd.prems(1) troot_pages [of c] unfolding t tree_ok_def pages_plug by auto
  obtain r b1 where ft: "FetchPageInternal b (troot c) = (r, b1)" by fastforce
  let ?b = "ReleaseGuard b1 g"
  have live: "live_page b (troot c)" using Nd.prems(1) pg(1) by (simp add: tree_ok_def)
  note cp = pc.couple [OF inv h ft live pg(2)]
  have d: "descend k g b = (case r of Inl s \<Rightarrow> Some (Inl s, ?b) | Inr g' \<Rightarrow> descend k g' ?b)"
    using nl fc nc ft by (subst descend.simps) (simp add: Let_def)
  show ?case
  proof (cases r)
    case (Inl s)
    then have "PinCount ?b = f" "io_error s" using cp(2) [OF Inl] Nd.prems(6) live by (auto simp: fun_eq_iff)
    then show ?thesis using d Inl cp(1) by simp
  next
    case (Inr g')
    have k: "holds ?b (troot c) g'" "PinCount ?b = f(troot c := f (troot c) + 1)"
      using cp(3) [OF Inr] Nd.prems(6) pg(2) by (auto simp: fun_eq_iff)
    have tk: "tree_ok ?b t" by (rule tree_ok_reads [OF Nd.prems(1) cp(1)])
    have ab: "above (clo ((p, ls, rs) # cs)) k" "below (chi ((p, ls, rs) # cs)) k" using c(3,4) by simp_all
    have "\<exists>r b'. descend k g' ?b = Some (r, b') \<and> pc.reads ?b b' \<and>
        (case r of Inl s \<Rightarrow> io_error s \<and> PinCount b' = f | Inr g' \<Rightarrow> \<exists>cs p es. at_leaf b' t k f g' cs p es)"
    proof (cases "c = u")
      case True
      show ?thesis using Nd.IH(2) [OF tk _ _ ab, of g'] t k True by simp
    next
      case False
      then obtain s where "(s, c) \<in> set ts" using c(5) by auto
      then show ?thesis using Nd.IH(1) [OF _ _ tk t k(1) ab k(2)] by auto
    qed
    then show ?thesis using d Inr pc.reads_trans [OF cp(1)] by auto
  qed
qed

lemma leaf_guard_ok:
  assumes t: "tree_ok b t"
  shows "\<exists>r b'. leaf_guard k b = Some (r, b') \<and> pc.reads b b' \<and>
    (case r of Inl s \<Rightarrow> io_error s \<and> PinCount b' = PinCount b
     | Inr g \<Rightarrow> \<exists>cs p es. at_leaf b' t k (PinCount b) g cs p es)"
proof -
  have inv: "pool_ok b" and root: "root_page_id (meta (pager b)) = troot t"
    and live: "live_page b (troot t)" using t troot_pages [of t] by (auto simp: tree_ok_def)
  have ne: "\<not> IsEmpty b" using t rep_root [of "pview b" t] by (auto simp: IsEmpty_def tree_ok_def)
  obtain r b1 where ft: "FetchPageInternal b (troot t) = (r, b1)" by fastforce
  have rd: "pc.reads b b1" by (rule pc.fetch_reads [OF inv live ft])
  show ?thesis
  proof (cases r)
    case (Inl s)
    then show ?thesis using pc.fetch_Inl [OF inv live, of s b1] ft live ne rd root by (auto simp: leaf_guard_def)
  next
    case (Inr g)
    have f: "holds b1 (troot t) g" "PinCount b1 = (PinCount b)(troot t := PinCount b (troot t) + 1)"
      using pc.fetch_Inr [OF inv live, of g b1] ft Inr by auto
    have lg: "leaf_guard k b = descend k g b1" using ne ft Inr root by (simp add: leaf_guard_def)
    obtain r' b' where d: "descend k g b1 = Some (r', b')" "pc.reads b1 b'"
      "case r' of Inl s \<Rightarrow> io_error s \<and> PinCount b' = PinCount b
       | Inr g' \<Rightarrow> \<exists>cs p es. at_leaf b' t k (PinCount b) g' cs p es"
      using descend_ok [OF tree_ok_reads [OF t rd], of "[]" t g k "PinCount b"] f by (auto simp: bound_defs)
    then show ?thesis using lg pc.reads_trans [OF rd d(2)] by auto
  qed
qed

lemma at_leaf_release:
  assumes t: "tree_ok b t" and l: "at_leaf b t k f g cs p es"
  shows "pc.reads b (ReleaseGuard b g)" and "PinCount (ReleaseGuard b g) = f"
proof -
  have inv: "pool_ok b" and h: "holds b p g" and pc: "PinCount b = f(p := f p + 1)"
    using t l by (auto simp: tree_ok_def at_leaf_def)
  note r = pc.release_reads_pins [OF inv h]
  show "pc.reads b (ReleaseGuard b g)" by (rule r(1))
  show "PinCount (ReleaseGuard b g) = f" using r(2) pc by (auto simp: fun_eq_iff)
qed

lemma Get_ok:
  assumes t: "tree_ok b t"
  shows "\<exists>r b'. Get k b = Some (r, b') \<and> pc.reads b b' \<and> PinCount b' = PinCount b \<and>
    (case r of Inr v \<Rightarrow> map_of (entries t) k = Some v
     | Inl s \<Rightarrow> s = kNotFound \<and> map_of (entries t) k = None \<or> io_error s)"
proof -
  obtain r b1 where lg: "leaf_guard k b = Some (r, b1)" "pc.reads b b1"
    "case r of Inl s \<Rightarrow> io_error s \<and> PinCount b1 = PinCount b
     | Inr g \<Rightarrow> \<exists>cs p es. at_leaf b1 t k (PinCount b) g cs p es"
    using leaf_guard_ok [OF t, of k] by auto
  show ?thesis
  proof (cases r)
    case (Inl s)
    then show ?thesis using lg by (auto simp: Get_def)
  next
    case (Inr g)
    then obtain cs p es where l: "at_leaf b1 t k (PinCount b) g cs p es" using lg(3) by auto
    have t1: "tree_ok b1 t" by (rule tree_ok_reads [OF t lg(2)])
    note f = at_leaf_facts [OF t1 l] and rl = at_leaf_release [OF t1 l]
    have g: "Get k b = Some (case map_of es k of None \<Rightarrow> Inl kNotFound | Some v \<Rightarrow> Inr v, ReleaseGuard b1 g)"
      using lg(1) Inr GetValue_ok [OF f(1)] by (simp add: Get_def)
    show ?thesis using g rl pc.reads_trans [OF lg(2) rl(1)] f(2) by (auto split: option.splits)
  qed
qed

subsection \<open>Cursors\<close>

text \<open>
  \<open>at_cursor b t c L\<close>: the cursor stands on an entry of a leaf of \<open>t\<close>, and \<open>L\<close> is what is left to visit.
\<close>

definition at_cursor :: "BufferPool \<Rightarrow> ptree \<Rightarrow> Cursor \<Rightarrow> (key \<times> bytes) list \<Rightarrow> bool" where
  "at_cursor b t c L \<longleftrightarrow> cvalid c \<and> cstatus c = kOk \<and>
     (\<exists>xs p es ys. leaves t = xs @ (p, es) # ys \<and> stamp (cpage c) 0 = pview b p \<and> cindex c < length es \<and>
        L = drop (cindex c) es @ concat (map snd ys))"

lemma at_cursorI:
  assumes "leaves t = xs @ (p, es) # ys" and "stamp (cpage c) 0 = pview b p" and "cindex c < length es" and "cvalid c" and "cstatus c = kOk"
  shows "at_cursor b t c (drop (cindex c) es @ concat (map snd ys))"
  unfolding at_cursor_def using assms by blast

text \<open>Where a positioned cursor is: on the first entry left, or past the end.\<close>

definition cursor_on :: "BufferPool \<Rightarrow> ptree \<Rightarrow> Cursor \<Rightarrow> (key \<times> bytes) list \<Rightarrow> bool" where
  "cursor_on b t c L \<longleftrightarrow>
     (case L of [] \<Rightarrow> \<not> cvalid c \<and> cstatus c = kOk
      | (k, v) # _ \<Rightarrow> at_cursor b t c L \<and> ckey c = k \<and> cvalue c = v)"

lemma rep_leaf:
  assumes "rep v t" and "(p, es) \<in> set (leaves t)"
  shows "leaf_rep (v p) es \<and> p \<noteq> kInvalidPageId"
  using assms
proof (induction t)
  case (Nd p' ts u)
  from Nd.prems(2) consider "(p, es) \<in> set (leaves u)" | s c where "(s, c) \<in> set ts" "(p, es) \<in> set (leaves c)" by auto
  then show ?case
  proof cases
    case 2
    then show ?thesis using Nd.IH(1) [OF 2(1), of c] Nd.prems(1) by auto
  qed (use Nd in simp)
qed auto

lemma leaf_page_facts:
  assumes "leaf_rep p es"
  shows "NumKeys p = length es" and "i < length es \<Longrightarrow> GetKey p i = fst (es ! i) \<and> GetValueAt p i = snd (es ! i)"
    and "length es \<le> 507"
proof -
  show n: "NumKeys p = length es" using leaf_rep_entries(1) [OF assms] by simp
  show "GetKey p i = fst (es ! i) \<and> GetValueAt p i = snd (es ! i)" if "i < length es"
  proof -
    have "leaf_entries p ! i = (GetKey p i, GetValueAt p i)" using that n by (simp add: leaf_entries_def)
    then show ?thesis using leaf_rep_entries(2) [OF assms] by simp
  qed
  have "layout_ok p" using assms by (simp add: leaf_rep_def page_ok_def)
  then show "length es \<le> 507" using layout_bounds(1) [of p] n by simp
qed

lemma SkipToLiveEntry_ok:
  assumes "tree_ok b t" and "leaves t = xs @ (p, es) # ys" and "stamp (cpage c) 0 = pview b p" and "cindex c \<le> length es"
    and "cvalid c" and "cstatus c = kOk"
  shows "\<exists>c' b'. SkipToLiveEntry c b = Some (c', b') \<and> pc.reads b b' \<and> PinCount b' = PinCount b \<and>
    (\<not> cvalid c' \<and> io_error (cstatus c') \<or> cursor_on b' t c' (drop (cindex c) es @ concat (map snd ys)))"
  using assms
proof (induction ys arbitrary: xs p es c b)
  case Nil
  have inv: "pool_ok b" and lr: "leaf_rep (pview b p) es" and nx: "GetNextLeaf (pview b p) = kInvalidPageId"
    using Nil.prems(1,2) rep_leaf [of "pview b" t p es] by (auto simp: tree_ok_def linked_append)
  have c: "leaf_rep (cpage c) es" "GetNextLeaf (cpage c) = kInvalidPageId"
    using lr nx unfolding Nil.prems(3) [symmetric] by (simp_all add: link_defs)
  note lf = leaf_page_facts [OF c(1)]
  show ?case
  proof (cases "cindex c < length es")
    case True
    then have "SkipToLiveEntry c b = Some (c, b)" using lf(1) by (simp add: SkipToLiveEntry.simps)
    moreover have "cursor_on b t c (drop (cindex c) es)"
    proof -
      have "drop (cindex c) es = es ! cindex c # drop (Suc (cindex c)) es" using True by (simp add: Cons_nth_drop_Suc)
      moreover have "at_cursor b t c (drop (cindex c) es)" using at_cursorI [OF Nil.prems(2,3) True Nil.prems(5,6)] by simp
      ultimately show ?thesis using True lf(2) Nil.prems(5) by (auto simp: cursor_on_def ckey_def cvalue_def split: prod.split)
    qed
    ultimately show ?thesis using pc.reads_refl [OF inv] by auto
  next
    case False
    then have "SkipToLiveEntry c b = Some (c\<lparr>cvalid := False\<rparr>, b)" using lf(1) c(2) by (simp add: SkipToLiveEntry.simps)
    then show ?thesis using False pc.reads_refl [OF inv] Nil.prems(6) by (auto simp: cursor_on_def)
  qed
next
  case (Cons q ys)
  obtain pq eq where q: "q = (pq, eq)" by fastforce
  have inv: "pool_ok b" and lr: "leaf_rep (pview b p) es" and nx: "GetNextLeaf (pview b p) = pq"
    and lq: "leaf_rep (pview b pq) eq" "pq \<noteq> kInvalidPageId" and dq: "live_page b pq"
    using Cons.prems(1,2) rep_leaf [of "pview b" t p es] rep_leaf [of "pview b" t pq eq] leaf_ids_pages [of t]
    by (auto simp: tree_ok_def linked_append q)
  have c: "leaf_rep (cpage c) es" "GetNextLeaf (cpage c) = pq"
    using lr nx unfolding Cons.prems(3) [symmetric] by (simp_all add: link_defs)
  note lf = leaf_page_facts [OF c(1)]
  show ?case
  proof (cases "cindex c < length es")
    case True
    then have "SkipToLiveEntry c b = Some (c, b)" using lf(1) by (simp add: SkipToLiveEntry.simps)
    moreover have "cursor_on b t c (drop (cindex c) es @ concat (map snd (q # ys)))"
    proof -
      have "drop (cindex c) es = es ! cindex c # drop (Suc (cindex c)) es" using True by (simp add: Cons_nth_drop_Suc)
      moreover have "at_cursor b t c (drop (cindex c) es @ concat (map snd (q # ys)))"
        by (rule at_cursorI [OF Cons.prems(2,3) True Cons.prems(5,6)])
      ultimately show ?thesis using True lf(2) Cons.prems(5) by (auto simp: cursor_on_def ckey_def cvalue_def split: prod.split)
    qed
    ultimately show ?thesis using pc.reads_refl [OF inv] by auto
  next
    case False
    obtain r b1 where ft: "FetchPageInternal b pq = (r, b1)" by fastforce
    show ?thesis
    proof (cases r)
      case (Inl s)
      then have "SkipToLiveEntry c b = Some (c\<lparr>cvalid := False, cstatus := s\<rparr>, b1)"
        using False lf(1) c(2) lq(2) ft by (subst SkipToLiveEntry.simps) (simp add: Let_def)
      then show ?thesis using pc.fetch_reads [OF inv dq ft] pc.fetch_Inl [OF inv dq, of s b1] ft Inl dq by auto
    next
      case (Inr g)
      note l = pc.look [OF inv dq ft [unfolded Inr]]
      let ?c = "c\<lparr>cpage := gpage b1 g, cindex := 0\<rparr>" and ?b = "ReleaseGuard b1 g"
      have st: "stamp (gpage b1 g) 0 = pview b pq" using l(3) by (simp add: gpage_def)
      have "leaf_rep (gpage b1 g) eq" using lq(1) unfolding st [symmetric] by simp
      then have sk: "SkipToLiveEntry c b = SkipToLiveEntry ?c ?b"
        using False lf(1) c(2) lq(2) ft Inr leaf_or_int(1) by (subst SkipToLiveEntry.simps) (auto simp: Let_def)
      have t1: "tree_ok ?b t" by (rule tree_ok_reads [OF Cons.prems(1) l(1)])
      have "pview ?b pq = pview b pq" using l(1) dq by (simp add: pc.reads_def)
      then obtain c' b' where "SkipToLiveEntry ?c ?b = Some (c', b')" "pc.reads ?b b'" "PinCount b' = PinCount ?b"
        "\<not> cvalid c' \<and> io_error (cstatus c') \<or> cursor_on b' t c' (drop (cindex ?c) eq @ concat (map snd ys))"
        using Cons.IH [OF t1, of "xs @ [(p, es)]" pq eq ?c] Cons.prems(2,5,6) st q by auto
      then show ?thesis using sk l(2) pc.reads_trans [OF l(1)] False q by auto
    qed
  qed
qed

text \<open>
  The outcome of positioning a cursor: pages and pins as before, and the cursor either reports a storage error or
  stands on what is left, \<open>L\<close>.
\<close>

definition positioned :: "BufferPool \<Rightarrow> ptree \<Rightarrow> (key \<times> bytes) list \<Rightarrow> (Cursor \<times> BufferPool) option \<Rightarrow> bool" where
  "positioned b t L r \<longleftrightarrow> (\<exists>c' b'. r = Some (c', b') \<and> pc.reads b b' \<and> PinCount b' = PinCount b \<and>
     (\<not> cvalid c' \<and> io_error (cstatus c') \<or> cursor_on b' t c' L))"

lemma positioned_after:
  assumes "pc.reads b b1" and "PinCount b1 = PinCount b" and "positioned b1 t L r"
  shows "positioned b t L r"
  using assms pc.reads_trans [OF assms(1)] unfolding positioned_def by metis

lemma positioned_error:
  assumes "pc.reads b b'" and "PinCount b' = PinCount b" and "\<not> cvalid c" and "io_error (cstatus c)"
  shows "positioned b t L (Some (c, b'))"
  using assms by (auto simp: positioned_def)

lemma MoveTo_ok:
  assumes t: "tree_ok b t" and l: "leaves t = xs @ (p, es) # ys" and i: "i \<le> length es" and c: "cstatus c = kOk"
  shows "positioned b t (drop i es @ concat (map snd ys)) (MoveTo c p i b)"
proof -
  have inv: "pool_ok b" and dp: "live_page b p" using t leaf_ids_pages [of t] l by (auto simp: tree_ok_def)
  obtain r b1 where ft: "FetchPageInternal b p = (r, b1)" by fastforce
  show ?thesis
  proof (cases r)
    case (Inl s)
    then show ?thesis
      using pc.fetch_reads [OF inv dp ft] pc.fetch_Inl [OF inv dp ft [unfolded Inl]] dp ft by (auto simp: MoveTo_def intro!: positioned_error)
  next
    case (Inr g)
    let ?c = "c\<lparr>cpage := gpage b1 g, cindex := i, cvalid := True\<rparr>" and ?b = "ReleaseGuard b1 g"
    note k = pc.look [OF inv dp ft [unfolded Inr]]
    have st: "stamp (cpage ?c) 0 = pview ?b p" using k(1,3) dp by (simp add: gpage_def pc.reads_def)
    have "positioned ?b t (drop i es @ concat (map snd ys)) (SkipToLiveEntry ?c ?b)"
      using SkipToLiveEntry_ok [OF tree_ok_reads [OF t k(1)] l st] i c by (simp add: positioned_def)
    then show ?thesis using positioned_after [OF k(1,2)] ft Inr by (simp add: MoveTo_def)
  qed
qed

lemma Next_ok:
  assumes t: "tree_ok b t" and c: "cursor_on b t c (x # L)"
  shows "positioned b t L (Next c b)"
proof -
  obtain k v where x: "x = (k, v)" by fastforce
  obtain xs p es ys where a: "cvalid c" "cstatus c = kOk" "leaves t = xs @ (p, es) # ys" "stamp (cpage c) 0 = pview b p"
    "cindex c < length es" "x # L = drop (cindex c) es @ concat (map snd ys)"
    using c unfolding cursor_on_def at_cursor_def x by auto
  have "leaf_rep (pview b p) es" using t rep_leaf [of "pview b" t p es] a(3) by (simp add: tree_ok_def)
  then have "leaf_rep (cpage c) es" unfolding a(4) [symmetric] by simp
  then have "length es \<le> 507" by (rule leaf_page_facts(3))
  then have m: "(cindex c + 1) mod 2 ^ 16 = cindex c + 1" using a(5) by simp
  have L: "L = drop (cindex c + 1) es @ concat (map snd ys)"
    using a(6) unfolding Cons_nth_drop_Suc [OF a(5), symmetric] by simp
  show ?thesis
    using SkipToLiveEntry_ok [OF t a(3), of "c\<lparr>cindex := cindex c + 1\<rparr>"] a m unfolding L by (simp add: Next_def positioned_def)
qed

text \<open>The entries of a tree come in strict key order.\<close>

lemma bnd_sorted:
  assumes "bnd lo hi t" and "\<forall>(p, es) \<in> set (leaves t). sorted_wrt (<) (map fst es)"
  shows "sorted_wrt (<) (map fst (entries t))"
  using assms
proof (induction lo hi t rule: bnd.induct)
  case (3 lo hi p s c ts t)
  have ab: "a < b" if "a \<in> fst ` set (entries c)" "b \<in> fst ` set (entries (Nd p ts t))" for a b
    using bnd_entries [of lo "Some s" c a] bnd_entries [of "Some s" hi "Nd p ts t" b] that 3(3) by (auto simp: bound_defs)
  have "sorted_wrt (<) (map fst (entries c))" "sorted_wrt (<) (map fst (entries (Nd p ts t)))" using 3 by auto
  then show ?case using ab by (simp add: sorted_wrt_append)
qed (auto simp: entries_def)

lemma tree_sorted:
  assumes "tree_ok b t"
  shows "sorted_wrt (<) (map fst (entries t))"
  using assms rep_leaf [of "pview b" t] by (intro bnd_sorted [of None None]) (auto simp: tree_ok_def leaf_rep_def)

lemma dropWhile_at_leaf:
  assumes "cbnd cs" and "above (clo cs) k" and "below (chi cs) k"
  shows "dropWhile (\<lambda>e. fst e < k) (entries (plug cs (Lf p es))) = drop (lb (map fst es) k) es @ rents cs"
proof -
  have l: "\<forall>e \<in> set (lents cs). fst e < k" using lleaves_below [OF assms(1,2)] by fastforce
  have r: "\<forall>e \<in> set (rents cs). k < fst e" using rleaves_above [OF assms(1,3)] by fastforce
  have e: "dropWhile (\<lambda>e. fst e < k) es = drop (lb (map fst es) k) es"
    by (rule lb_takeWhile(2))
  have "dropWhile (\<lambda>e. fst e < k) (lents cs @ es @ rents cs) = dropWhile (\<lambda>e. fst e < k) (es @ rents cs)"
    by (rule dropWhile_append2) (use l in auto)
  also have "\<dots> = dropWhile (\<lambda>e. fst e < k) es @ rents cs"
  proof (cases "\<exists>x \<in> set es. \<not> (\<lambda>e. fst e < k) x")
    case True
    then show ?thesis by (auto simp: dropWhile_append1)
  next
    case False
    then have "dropWhile (\<lambda>e. fst e < k) es = []" by simp
    moreover have "dropWhile (\<lambda>e. fst e < k) (es @ rents cs) = dropWhile (\<lambda>e. fst e < k) (rents cs)"
      by (rule dropWhile_append2) (use False in auto)
    moreover have "dropWhile (\<lambda>e. fst e < k) (rents cs) = rents cs"
    proof (cases "rents cs")
      case (Cons x xs)
      then show ?thesis using r by (metis dropWhile.simps(2) list.set_intros(1) not_less_iff_gr_or_eq)
    qed (simp only: dropWhile.simps)
    ultimately show ?thesis by (simp only: append_Nil)
  qed
  finally show ?thesis using e by (simp add: entries_plug)
qed

lemma LowerBound_leaf: "leaf_rep p es \<Longrightarrow> LowerBound p k = lb (map fst es) k"
  by (simp add: LowerBound_def leaf_FindKeyIndex)

lemma Seek_tree:
  assumes t: "tree_ok b t"
  shows "positioned b t (dropWhile (\<lambda>e. fst e < k) (entries t)) (Seek k b)"
proof -
  obtain r b1 where lg: "leaf_guard k b = Some (r, b1)" "pc.reads b b1"
    "case r of Inl s \<Rightarrow> io_error s \<and> PinCount b1 = PinCount b
     | Inr g \<Rightarrow> \<exists>cs p es. at_leaf b1 t k (PinCount b) g cs p es"
    using leaf_guard_ok [OF t, of k] by auto
  show ?thesis
  proof (cases r)
    case (Inl s)
    then show ?thesis using lg by (auto simp: Seek_def FindLeaf_def io_error_def Cursor_init_def intro!: positioned_error)
  next
    case (Inr g)
    then obtain cs p es where l: "at_leaf b1 t k (PinCount b) g cs p es" using lg(3) by auto
    have t1: "tree_ok b1 t" by (rule tree_ok_reads [OF t lg(2)])
    note f = at_leaf_facts [OF t1 l] and rl = at_leaf_release [OF t1 l]
    let ?b = "ReleaseGuard b1 g"
    have rd: "pc.reads b ?b" using pc.reads_trans [OF lg(2) rl(1)] .
    have t2: "tree_ok ?b t" by (rule tree_ok_reads [OF t rd])
    then have inv: "pool_ok ?b" by (simp add: tree_ok_def)
    have tp: "t = plug cs (Lf p es)" and ab: "above (clo cs) k" "below (chi cs) k" using l by (auto simp: at_leaf_def)
    have lv: "leaves t = lleaves cs @ (p, es) # rleaves cs" by (simp add: tp leaves_plug)
    have dp: "live_page ?b p" using t2 leaf_ids_pages [of t] lv by (auto simp: tree_ok_def)
    obtain r2 b2 where ft: "FetchPageInternal ?b p = (r2, b2)" by fastforce
    have sk: "Seek k b = (case r2 of Inl s \<Rightarrow> Some (Cursor_init\<lparr>cstatus := s\<rparr>, b2)
        | Inr g' \<Rightarrow> MoveTo Cursor_init p (LowerBound (gpage b2 g') k) (ReleaseGuard b2 g'))"
      using lg(1) Inr ft f(6) by (simp add: Seek_def FindLeaf_def Let_def split: sum.split)
    have "positioned ?b t (dropWhile (\<lambda>e. fst e < k) (entries t)) (Seek k b)"
    proof (cases r2)
      case (Inl s)
      then show ?thesis
        using sk pc.fetch_reads [OF inv dp ft] pc.fetch_Inl [OF inv dp ft [unfolded Inl]] dp
        by (auto simp: Cursor_init_def intro!: positioned_error)
    next
      case (Inr g')
      note k = pc.look [OF inv dp ft [unfolded Inr]]
      have "leaf_rep (pview ?b p) es" using t2 rep_leaf [of "pview ?b" t p es] lv by (simp add: tree_ok_def)
      moreover have "stamp (gpage b2 g') 0 = pview ?b p" using k(3) by (simp add: gpage_def)
      ultimately have "LowerBound (gpage b2 g') k = lb (map fst es) k" by (metis LowerBound_leaf node_hdr(1))
      moreover have "lb (map fst es) k \<le> length es" using lb_le [of "map fst es" k] by simp
      moreover have "cstatus Cursor_init = kOk" by (simp add: Cursor_init_def)
      ultimately show ?thesis
        using positioned_after [OF k(1,2) MoveTo_ok [OF tree_ok_reads [OF t2 k(1)] lv]] sk Inr dropWhile_at_leaf [OF f(3) ab, of p es]
        by (simp add: tp)
    qed
    then show ?thesis using positioned_after [OF rd] rl(2) by simp
  qed
qed

text \<open>The descent along the first children.\<close>

lemma descend_first_ok:
  assumes "tree_ok b t" and "t = plug cs h" and "holds b (troot h) g" and "lleaves cs = []"
    and "PinCount b = f(troot h := f (troot h) + 1)"
  shows "\<exists>r b'. descend_first g b = Some (r, b') \<and> pc.reads b b' \<and>
    (case r of Inl s \<Rightarrow> io_error s \<and> PinCount b' = f
     | Inr g' \<Rightarrow> \<exists>p es ys. leaves t = (p, es) # ys \<and> holds b' p g' \<and> PinCount b' = f(p := f p + 1))"
  using assms
proof (induction h arbitrary: cs b g)
  case (Lf p es)
  have inv: "pool_ok b" using Lf.prems(1) by (simp add: tree_ok_def)
  have "leaf_rep (pview b p) es" using Lf.prems(1,2) by (simp add: tree_ok_def rep_plug)
  then have "IsLeaf (gpage b g)" using gpage_leaf(1) [OF inv] Lf.prems(3) leaf_or_int(1) by (metis troot.simps(1))
  then have "descend_first g b = Some (Inr g, b)" by (simp add: descend_first.simps)
  moreover have "leaves t = (p, es) # rleaves cs" using Lf.prems(2,4) by (simp add: leaves_plug)
  ultimately show ?case
    using pc.reads_refl [OF inv] Lf.prems(3,5) unfolding troot.simps
    by (intro exI [of _ "Inr g"] exI [of _ b]) (simp only: sum.case, blast)
next
  case (Nd p ts u)
  have inv: "pool_ok b" using Nd.prems(1) by (simp add: tree_ok_def)
  have h: "holds b p g" using Nd.prems(3) by simp
  have rp: "rep (pview b) (Nd p ts u)" using Nd.prems(1,2) by (simp add: tree_ok_def rep_plug)
  have ir: "int_rep (gpage b g) (roots ts)" "GetRightmostChild (gpage b g) = troot u"
    using rp gpage_leaf(2,4) [OF inv h] by (simp_all add: int_page_def)
  obtain rs c where c: "Nd p ts u = plug1 (p, [], rs) c" "c = u \<and> ts = [] \<or> (\<exists>s ts'. ts = (s, c) # ts')"
  proof (cases ts)
    case Nil
    then show ?thesis using that [of "[]" u] by simp
  next
    case (Cons x ts')
    obtain s c where x: "x = (s, c)" by fastforce
    obtain h' rs where "slide h' rs = (ts', u)" using slide_onto [of ts' u] by blast
    then show ?thesis using that [of "(s, h') # rs" c] Cons x by simp
  qed
  let ?child = "if 0 < NumKeys (gpage b g) then GetChild (gpage b g) 0 else GetRightmostChild (gpage b g)"
  have fc: "?child = troot c"
    using c(2) int_rep_entries(1) [OF ir(1)] int_rep_entries(4) [OF ir(1), of 0] ir(2) by auto
  have nl: "\<not> IsLeaf (gpage b g)" using leaf_or_int(2) [OF ir(1)] .
  have rc: "rep (pview b) c" using rp c(2) by auto
  have nc: "troot c \<noteq> kInvalidPageId" by (rule rep_root [OF rc])
  have t: "t = plug ((p, [], rs) # cs) c" using Nd.prems(2) c(1) by simp
  have pg: "troot c \<in> set (pages t)" "troot c \<noteq> p"
    using Nd.prems(1) troot_pages [of c] unfolding t tree_ok_def pages_plug by auto
  obtain r b1 where ft: "FetchPageInternal b (troot c) = (r, b1)" by fastforce
  let ?b = "ReleaseGuard b1 g"
  have live: "live_page b (troot c)" using Nd.prems(1) pg(1) by (simp add: tree_ok_def)
  note cp = pc.couple [OF inv h ft live pg(2)]
  have d: "descend_first g b = (case r of Inl s \<Rightarrow> Some (Inl s, ?b) | Inr g' \<Rightarrow> descend_first g' ?b)"
    using nl nc ft by (subst descend_first.simps) (simp only: fc Let_def if_False prod.case)
  show ?case
  proof (cases r)
    case (Inl s)
    then have "PinCount ?b = f" "io_error s" using cp(2) [OF Inl] Nd.prems(5) live by (auto simp: fun_eq_iff)
    then show ?thesis using d Inl cp(1) by simp
  next
    case (Inr g')
    have k: "holds ?b (troot c) g'" "PinCount ?b = f(troot c := f (troot c) + 1)"
      using cp(3) [OF Inr] Nd.prems(5) pg(2) by (auto simp: fun_eq_iff)
    have tk: "tree_ok ?b t" by (rule tree_ok_reads [OF Nd.prems(1) cp(1)])
    have ll: "lleaves ((p, [], rs) # cs) = []" using Nd.prems(4) by simp
    have "\<exists>r b'. descend_first g' ?b = Some (r, b') \<and> pc.reads ?b b' \<and>
        (case r of Inl s \<Rightarrow> io_error s \<and> PinCount b' = f
         | Inr g' \<Rightarrow> \<exists>p es ys. leaves t = (p, es) # ys \<and> holds b' p g' \<and> PinCount b' = f(p := f p + 1))"
      using c(2)
    proof (elim disjE exE conjE)
      assume "c = u"
      then show ?thesis using Nd.IH(2) [OF tk, of _ g'] t k ll by blast
    next
      fix s ts' assume "ts = (s, c) # ts'"
      then show ?thesis using Nd.IH(1) [of "(s, c)" c, OF _ _ tk t k(1) ll k(2)] by simp
    qed
    then show ?thesis using d Inr pc.reads_trans [OF cp(1)] by auto
  qed
qed

lemma SeekToFirst_tree:
  assumes t: "tree_ok b t"
  shows "positioned b t (entries t) (SeekToFirst b)"
proof -
  have inv: "pool_ok b" and root: "root_page_id (meta (pager b)) = troot t"
    and live: "live_page b (troot t)" using t troot_pages [of t] by (auto simp: tree_ok_def)
  have ne: "\<not> IsEmpty b" using t rep_root [of "pview b" t] by (auto simp: IsEmpty_def tree_ok_def)
  obtain r b1 where ft: "FetchPageInternal b (troot t) = (r, b1)" by fastforce
  have rd: "pc.reads b b1" by (rule pc.fetch_reads [OF inv live ft])
  show ?thesis
  proof (cases r)
    case (Inl s)
    then show ?thesis using pc.fetch_Inl [OF inv live ft [unfolded Inl]] ft live ne rd root
      by (auto simp: SeekToFirst_def Cursor_init_def intro!: positioned_error)
  next
    case (Inr g)
    have f: "holds b1 (troot t) g" "PinCount b1 = (PinCount b)(troot t := PinCount b (troot t) + 1)"
      using pc.fetch_Inr [OF inv live ft [unfolded Inr]] by auto
    obtain r' b' where d: "descend_first g b1 = Some (r', b')" "pc.reads b1 b'"
      "case r' of Inl s \<Rightarrow> io_error s \<and> PinCount b' = PinCount b
       | Inr g' \<Rightarrow> \<exists>p es ys. leaves t = (p, es) # ys \<and> holds b' p g' \<and> PinCount b' = (PinCount b)(p := PinCount b p + 1)"
      using descend_first_ok [OF tree_ok_reads [OF t rd], of "[]" t g "PinCount b"] f by auto
    note rd' = pc.reads_trans [OF rd d(2)]
    have t': "tree_ok b' t" by (rule tree_ok_reads [OF t rd'])
    then have inv': "pool_ok b'" by (simp add: tree_ok_def)
    show ?thesis
    proof (cases r')
      case (Inl s)
      then show ?thesis using d rd' ne ft Inr root by (auto simp: SeekToFirst_def Cursor_init_def intro!: positioned_error)
    next
      case (Inr g')
      then obtain p es ys where l: "leaves t = (p, es) # ys" "holds b' p g'" "PinCount b' = (PinCount b)(p := PinCount b p + 1)"
        using d(3) by auto
      note rl = pc.release_reads_pins [OF inv' l(2)]
      have pins: "PinCount (ReleaseGuard b' g') = PinCount b" using rl(2) l(3) by (auto simp: fun_eq_iff)
      have "positioned (ReleaseGuard b' g') t (drop 0 es @ concat (map snd ys)) (MoveTo Cursor_init p 0 (ReleaseGuard b' g'))"
        by (rule MoveTo_ok [OF tree_ok_reads [OF t' rl(1)], of "[]"]) (use l in \<open>simp_all add: Cursor_init_def\<close>)
      moreover have "SeekToFirst b = MoveTo Cursor_init p 0 (ReleaseGuard b' g')"
        using ne ft \<open>r = Inr g\<close> root d(1) Inr gpage_view(3) [OF inv' l(2)] by (simp add: SeekToFirst_def)
      ultimately show ?thesis using positioned_after [OF pc.reads_trans [OF rd' rl(1)] pins] l(1) by (simp add: entries_def)
    qed
  qed
qed

subsection \<open>What a database file stores\<close>

text \<open>
  The contract of the tree towards the database: the pool stores the list \<open>es\<close> of entries, in key order, and the meta
  page counts them. An empty tree has no root. After a crash the count may be off by some \<open>d\<close> until recovery has counted again.
\<close>

definition stored_off :: "u64 \<Rightarrow> BufferPool \<Rightarrow> (key \<times> bytes) list \<Rightarrow> bool" where
  "stored_off d b es \<longleftrightarrow> num_keys (meta (pager b)) = d + of_nat (length es) \<and>
     (pool_ok b \<and> IsEmpty b \<and> es = [] \<or> (\<exists>t. tree_ok b t \<and> entries t = es))"

abbreviation stored :: "BufferPool \<Rightarrow> (key \<times> bytes) list \<Rightarrow> bool" where
  "stored \<equiv> stored_off 0"

lemma stored_def: "stored b es \<longleftrightarrow> num_keys (meta (pager b)) = of_nat (length es) \<and>
    (pool_ok b \<and> IsEmpty b \<and> es = [] \<or> (\<exists>t. tree_ok b t \<and> entries t = es))"
  by (simp add: stored_off_def)

lemma stored_cases:
  assumes "stored_off d b es"
  obtains "pool_ok b" and "IsEmpty b" and "es = []" | t where "tree_ok b t" and "entries t = es"
  using assms by (auto simp: stored_off_def)

lemma stored_sorted: "stored_off d b es \<Longrightarrow> sorted_wrt (<) (map fst es)"
  using tree_sorted by (auto simp: stored_off_def)

lemma stored_inv: "stored_off d b es \<Longrightarrow> pool_ok b"
  by (auto simp: stored_off_def tree_ok_def)

lemma stored_reads: "stored_off d b es \<Longrightarrow> pc.reads b b' \<Longrightarrow> stored_off d b' es"
  using tree_ok_reads by (fastforce simp: stored_off_def pc.reads_def IsEmpty_def)

lemma Get_stored:
  assumes "stored_off d b es"
  shows "\<exists>r b'. Get k b = Some (r, b') \<and> pc.reads b b' \<and> PinCount b' = PinCount b \<and>
    (case r of Inr v \<Rightarrow> map_of es k = Some v | Inl s \<Rightarrow> s = kNotFound \<and> map_of es k = None \<or> io_error s)"
  using assms
proof (cases rule: stored_cases)
  case 1
  then show ?thesis using pc.reads_refl by (simp add: Get_def leaf_guard_def)
next
  case (2 t)
  then show ?thesis using Get_ok [of b t k] by auto
qed

text \<open>A cursor over the stored entries, with \<open>L\<close> left to visit.\<close>

definition cursor_at :: "BufferPool \<Rightarrow> (key \<times> bytes) list \<Rightarrow> Cursor \<Rightarrow> (key \<times> bytes) list \<Rightarrow> bool" where
  "cursor_at b es c L \<longleftrightarrow> (\<exists>d. stored_off d b es) \<and>
     (L = [] \<and> \<not> cvalid c \<and> cstatus c = kOk \<or> (\<exists>t. tree_ok b t \<and> entries t = es \<and> cursor_on b t c L))"

lemma cursor_at_facts:
  "cursor_at b es c L \<Longrightarrow> pool_ok b"
  "cursor_at b es c [] \<Longrightarrow> \<not> cvalid c \<and> cstatus c = kOk"
  "cursor_at b es c ((k, v) # L) \<Longrightarrow> cvalid c \<and> ckey c = k \<and> cvalue c = v"
  using stored_inv by (auto simp: cursor_at_def cursor_on_def at_cursor_def)

lemma positioned_at:
  assumes "positioned b t L r" and "tree_ok b t" and "entries t = es" and "stored_off d b es"
  shows "\<exists>c' b'. r = Some (c', b') \<and> pc.reads b b' \<and> PinCount b' = PinCount b \<and> (cursor_at b' es c' L \<or> \<not> cvalid c' \<and> io_error (cstatus c'))"
  using assms tree_ok_reads stored_reads unfolding positioned_def cursor_at_def by blast

lemma Seek_stored:
  assumes "stored_off d b es"
  shows "\<exists>c' b'. Seek k b = Some (c', b') \<and> pc.reads b b' \<and> PinCount b' = PinCount b \<and>
    (cursor_at b' es c' (dropWhile (\<lambda>e. fst e < k) es) \<or> \<not> cvalid c' \<and> io_error (cstatus c'))"
  using assms
proof (cases rule: stored_cases)
  case 1
  then show ?thesis using pc.reads_refl assms by (auto simp: Seek_def FindLeaf_def leaf_guard_def cursor_at_def Cursor_init_def)
next
  case (2 t)
  then show ?thesis using positioned_at [OF Seek_tree [OF 2(1)] 2 assms] by simp
qed

lemma SeekToFirst_stored:
  assumes "stored_off d b es"
  shows "\<exists>c' b'. SeekToFirst b = Some (c', b') \<and> pc.reads b b' \<and> PinCount b' = PinCount b \<and>
    (cursor_at b' es c' es \<or> \<not> cvalid c' \<and> io_error (cstatus c'))"
  using assms
proof (cases rule: stored_cases)
  case 1
  then show ?thesis using pc.reads_refl assms by (auto simp: SeekToFirst_def cursor_at_def Cursor_init_def)
next
  case (2 t)
  then show ?thesis using positioned_at [OF SeekToFirst_tree [OF 2(1)] 2 assms] by simp
qed

lemma Next_stored:
  assumes "cursor_at b es c (x # L)"
  shows "\<exists>c' b'. Next c b = Some (c', b') \<and> pc.reads b b' \<and> PinCount b' = PinCount b \<and>
    (cursor_at b' es c' L \<or> \<not> cvalid c' \<and> io_error (cstatus c'))"
proof -
  obtain t d where "tree_ok b t" "entries t = es" "cursor_on b t c (x # L)" "stored_off d b es" using assms by (auto simp: cursor_at_def)
  then show ?thesis using positioned_at [OF Next_ok] by blast
qed

end
