(* ===== verification/BTree_Write.thy ===== *)
theory BTree_Write
  imports BTree_Read
begin

section \<open>Writing the tree: Delete and Put\<close>

text \<open>
  What the mutations do to the stored entries. Every successful \<^verbatim>\<open>Delete\<close> and \<^verbatim>\<open>Put\<close>, splits included, leaves pages
  that represent the updated list of entries, with all guards released; the first part is about logging, which
  changes the log and the stamped LSN only.
\<close>

subsection \<open>Logging\<close>

abbreviation at_lsn :: "Page \<Rightarrow> Lsn \<Rightarrow> Page" where
  "at_lsn p l \<equiv> p\<lparr>hdr := (hdr p)\<lparr>page_lsn := l\<rparr>\<rparr>"

lemma wal_simps [simp]:
  "pool_ok (b\<lparr>wal := w\<rparr>) = pool_ok b" "live_page (b\<lparr>wal := w\<rparr>) = live_page b" "pview (b\<lparr>wal := w\<rparr>) = pview b"
  "PinCount (b\<lparr>wal := w\<rparr>) = PinCount b" "holds (b\<lparr>wal := w\<rparr>) = holds b" "gpage (b\<lparr>wal := w\<rparr>) = gpage b" "gid (b\<lparr>wal := w\<rparr>) = gid b"
  by (simp_all add: pool_ok_def pool_inv_def core_inv_def frame_ok_def rep_inv_def free_pages_def live_page_def fun_eq_iff
      pview_def PinCount_def holds_def gpage_def gid_def cong: option.case_cong)

lemma count_simps [simp]:
  "pool_ok (b\<lparr>pager := AddToNumKeys (pager b) d\<rparr>) = pool_ok b" "live_page (b\<lparr>pager := AddToNumKeys (pager b) d\<rparr>) = live_page b"
  "pview (b\<lparr>pager := AddToNumKeys (pager b) d\<rparr>) = pview b" "PinCount (b\<lparr>pager := AddToNumKeys (pager b) d\<rparr>) = PinCount b"
  "holds (b\<lparr>pager := AddToNumKeys (pager b) d\<rparr>) = holds b"
  "root_page_id (meta (AddToNumKeys q d)) = root_page_id (meta q)" "num_keys (meta (AddToNumKeys q d)) = num_keys (meta q) + of_int d"
  "num_pages (meta (AddToNumKeys q d)) = num_pages (meta q)"
proof -
  let ?q = "AddToNumKeys (pager b) d"
  have s: "pfile ?q = pfile (pager b)" "data_page ?q = data_page (pager b)" "free_list_head (meta ?q) = free_list_head (meta (pager b))"
    "pager_inv ?q = pager_inv (pager b)"
    by (simp_all add: AddToNumKeys_def data_page_def pager_inv_def fun_eq_iff)
  have "flist ?q h ids = flist (pager b) h ids" for h ids by (induction ids arbitrary: h) (simp_all add: s Let_def)
  then show "pool_ok (b\<lparr>pager := ?q\<rparr>) = pool_ok b" "live_page (b\<lparr>pager := ?q\<rparr>) = live_page b" "pview (b\<lparr>pager := ?q\<rparr>) = pview b"
    "PinCount (b\<lparr>pager := ?q\<rparr>) = PinCount b" "holds (b\<lparr>pager := ?q\<rparr>) = holds b"
    by (simp_all add: s pool_ok_def pool_inv_def core_inv_def frame_ok_def rep_inv_def free_pages_def live_page_def fun_eq_iff
      pview_def PinCount_def holds_def cong: option.case_cong)
qed (simp_all add: AddToNumKeys_def)

lemma root_simps [simp]:
  "pool_ok (b\<lparr>pager := SetRootPageId (pager b) r\<rparr>) = pool_ok b" "live_page (b\<lparr>pager := SetRootPageId (pager b) r\<rparr>) = live_page b"
  "pview (b\<lparr>pager := SetRootPageId (pager b) r\<rparr>) = pview b" "PinCount (b\<lparr>pager := SetRootPageId (pager b) r\<rparr>) = PinCount b"
  "holds (b\<lparr>pager := SetRootPageId (pager b) r\<rparr>) = holds b"
  "root_page_id (meta (SetRootPageId q r)) = r" "num_keys (meta (SetRootPageId q r)) = num_keys (meta q)"
  "num_pages (meta (SetRootPageId q r)) = num_pages (meta q)"
proof -
  let ?q = "SetRootPageId (pager b) r"
  have s: "pfile ?q = pfile (pager b)" "data_page ?q = data_page (pager b)" "free_list_head (meta ?q) = free_list_head (meta (pager b))"
    "pager_inv ?q = pager_inv (pager b)"
    by (simp_all add: SetRootPageId_def data_page_def pager_inv_def fun_eq_iff)
  have "flist ?q h ids = flist (pager b) h ids" for h ids by (induction ids arbitrary: h) (simp_all add: s Let_def)
  then show "pool_ok (b\<lparr>pager := ?q\<rparr>) = pool_ok b" "live_page (b\<lparr>pager := ?q\<rparr>) = live_page b" "pview (b\<lparr>pager := ?q\<rparr>) = pview b"
    "PinCount (b\<lparr>pager := ?q\<rparr>) = PinCount b" "holds (b\<lparr>pager := ?q\<rparr>) = holds b"
    by (simp_all add: s pool_ok_def pool_inv_def core_inv_def frame_ok_def rep_inv_def free_pages_def live_page_def fun_eq_iff
      pview_def PinCount_def holds_def cong: option.case_cong)
qed (simp_all add: SetRootPageId_def)

text \<open>A page changed through a guard and logged: the guard writes it, stamped with some LSN.\<close>

lemma set_then_mark: "MarkDirty (set_gpage b g p) g = guard_write b g p"
  by (simp add: set_gpage_def guard_write_def)

lemma frame_swap: "f\<lparr>dirty := True, fpage := q\<rparr> = (f :: Frame)\<lparr>fpage := q, dirty := True\<rparr>"
  by (rule Frame.equality) simp_all

lemma guard_write_simps:
  assumes "g < length (frames b)"
  shows "MarkDirty ((guard_write b g p)\<lparr>wal := w\<rparr>) g = (guard_write b g p)\<lparr>wal := w\<rparr>"
    and "set_gpage ((guard_write b g p)\<lparr>wal := w\<rparr>) g q = (guard_write b g q)\<lparr>wal := w\<rparr>"
    and "gpage (guard_write b g p) g = p" and "gid (guard_write b g p) g = gid b g"
    and "set_gpage (guard_write b g p) g q = guard_write b g q"
  using assms
  by (auto simp: guard_write_def MarkDirty_def set_frame_def set_gpage_def gpage_def gid_def frame_swap intro: BufferPool.equality)

lemma LogPageImage_marked:
  assumes g: "g < length (frames b)"
  shows "\<exists>l w'. LogPageImage ((guard_write b g p)\<lparr>wal := w\<rparr>) g tx oe = (kOk, (guard_write b g (at_lsn p l))\<lparr>wal := w'\<rparr>)"
proof (cases w)
  case None
  then have "LogPageImage ((guard_write b g p)\<lparr>wal := w\<rparr>) g tx oe = (kOk, (guard_write b g (at_lsn p (page_lsn (hdr p))))\<lparr>wal := w\<rparr>)"
    by (simp add: LogPageImage_def guard_write_simps [OF g])
  then show ?thesis by blast
next
  case (Some x)
  obtain l pg y where "AppendPageImage x (gid b g) p tx oe = (l, pg, y)" by (metis prod_cases3)
  moreover from this have "pg = at_lsn p l" by (auto simp: AppendPageImage_def Let_def)
  ultimately have "LogPageImage ((guard_write b g p)\<lparr>wal := w\<rparr>) g tx oe = (kOk, (guard_write b g (at_lsn p l))\<lparr>wal := Some y\<rparr>)"
    using Some guard_write_simps(2) [OF g, where w = "Some y"]
    by (simp add: LogPageImage_def guard_write_simps [OF g])
  then show ?thesis by blast
qed

lemma log_delta_marked:
  assumes g: "g < length (frames b)"
  shows "\<exists>l w'. log_delta ((guard_write b g p)\<lparr>wal := w\<rparr>) g r = (kOk, (guard_write b g (at_lsn p l))\<lparr>wal := w'\<rparr>)"
proof (cases w)
  case None
  then have "log_delta ((guard_write b g p)\<lparr>wal := w\<rparr>) g r = (kOk, (guard_write b g (at_lsn p (page_lsn (hdr p))))\<lparr>wal := w\<rparr>)"
    by (simp add: log_delta_def)
  then show ?thesis by blast
next
  case (Some x)
  obtain l y where "Append x r = (l, y)" by fastforce
  then have "log_delta ((guard_write b g p)\<lparr>wal := w\<rparr>) g r = (kOk, (guard_write b g (at_lsn p l))\<lparr>wal := Some y\<rparr>)"
    using Some guard_write_simps(2) [OF g, where w = "Some y"] by (simp add: log_delta_def guard_write_simps [OF g])
  then show ?thesis by blast
qed

lemma LogPageImage_write:
  assumes g: "g < length (frames b)"
  shows "\<exists>l w. LogPageImage (set_gpage b g p) g tx oe = (kOk, (guard_write b g (at_lsn p l))\<lparr>wal := w\<rparr>)"
proof -
  have "LogPageImage (set_gpage b g p) g tx oe = LogPageImage ((guard_write b g p)\<lparr>wal := wal b\<rparr>) g tx oe"
    using guard_write_simps(1) [OF g, where w = "wal b"]
    by (simp add: LogPageImage_def set_then_mark) (simp add: guard_write_def MarkDirty_def set_frame_def)
  then show ?thesis using LogPageImage_marked [OF g] by simp
qed

lemma LogKeyRecord_write:
  assumes g: "g < length (frames b)"
  shows "\<exists>l w. LogKeyRecord (set_gpage b g p) t tx g k v bef oe undo = (kOk, (guard_write b g (at_lsn p l))\<lparr>wal := w\<rparr>)"
proof -
  let ?b = "(guard_write b g p)\<lparr>wal := wal b\<rparr>"
  have m: "MarkDirty (set_gpage b g p) g = ?b" by (simp add: set_then_mark) (simp add: guard_write_def MarkDirty_def set_frame_def)
  obtain l w where i: "LogPageImage ?b g tx (oe \<and> \<not> undo) = (kOk, (guard_write b g (at_lsn p l))\<lparr>wal := w\<rparr>)"
    using LogPageImage_marked [OF g] by blast
  have d: "\<exists>l' w'. log_delta ((guard_write b g (at_lsn p l))\<lparr>wal := w\<rparr>) g r = (kOk, (guard_write b g (at_lsn p l'))\<lparr>wal := w'\<rparr>)" for r
    using log_delta_marked [OF g, where p = "at_lsn p l"] by simp
  have d': "\<exists>l' w'. log_delta ?b g r = (kOk, (guard_write b g (at_lsn p l'))\<lparr>wal := w'\<rparr>)" for r
    using log_delta_marked [OF g] by blast
  have n: "\<exists>l' w'. (kOk, ?b) = (kOk, (guard_write b g (at_lsn p l'))\<lparr>wal := w'\<rparr>)"
    by (intro exI [of _ "page_lsn (hdr p)"] exI [of _ "wal b"]) simp
  have a: "\<exists>l' w'. andthen (LogPageImage ?b g tx (oe \<and> \<not> undo)) (\<lambda>b. if \<not> undo then (kOk, b) else log_delta b g r) =
      (kOk, (guard_write b g (at_lsn p l'))\<lparr>wal := w'\<rparr>)" for r
    unfolding i andthen_def prod.case using d [of r] by (cases undo) (simp_all only: if_True if_False simp_thms, blast)
  show ?thesis
    unfolding LogKeyRecord_def Let_def m using a d' n by (simp only: split: option.split if_split) blast
qed

lemma LogPageEvent_wal: "\<exists>w. LogPageEvent b t tx p oe = (kOk, b\<lparr>wal := w\<rparr>)"
proof (cases "wal b")
  case None
  then show ?thesis by (intro exI [of _ "wal b"]) (simp add: LogPageEvent_def)
qed (auto simp: LogPageEvent_def split: prod.split)

subsection \<open>Sorted association lists\<close>

text \<open>The specification of an update: the entry with the key is replaced, or inserted at its place.\<close>

fun upsert :: "key \<Rightarrow> bytes \<Rightarrow> (key \<times> bytes) list \<Rightarrow> (key \<times> bytes) list" where
  "upsert k v [] = [(k, v)]"
| "upsert k v ((k', v') # es) =
     (if k < k' then (k, v) # (k', v') # es else if k = k' then (k, v) # es else (k', v') # upsert k v es)"

lemma upsert_map: "map_of (upsert k v es) = (map_of es)(k \<mapsto> v)"
  by (induction es) auto

lemma upsert_keys: "fst ` set (upsert k v es) = insert k (fst ` set es)"
  by (induction k v es rule: upsert.induct) (simp_all add: insert_commute)

lemma upsert_sorted: "sorted_wrt (<) (map fst es) \<Longrightarrow> sorted_wrt (<) (map fst (upsert k v es))"
proof (induction es)
  case (Cons e es)
  obtain k' v' where e: "e = (k', v')" by fastforce
  have "\<forall>x \<in> fst ` set es. k' < x" using Cons.prems e by auto
  then have "k < k' \<Longrightarrow> \<forall>x \<in> fst ` set es. k < x" "k' < k \<Longrightarrow> \<forall>x \<in> fst ` set (upsert k v es). k' < x"
    unfolding upsert_keys by (auto intro: less_trans)
  then show ?case using Cons e by auto
qed simp

lemma upsert_length: "length (upsert k v es) = (if map_of es k = None then length es + 1 else length es)"
  if "sorted_wrt (<) (map fst es)"
  using that
proof (induction es)
  case (Cons e es)
  obtain k' v' where e: "e = (k', v')" by fastforce
  have "k < k' \<Longrightarrow> k \<notin> fst ` set es" using Cons.prems e by (auto dest: less_asym less_trans)
  then show ?case using Cons e by (auto simp: map_of_eq_None_iff)
qed simp

abbreviation remove_key :: "key \<Rightarrow> (key \<times> bytes) list \<Rightarrow> (key \<times> bytes) list" where
  "remove_key k es \<equiv> filter (\<lambda>e. fst e \<noteq> k) es"

lemma remove_key_map: "map_of (remove_key k es) = (map_of es)(k := None)"
  by (induction es) auto

lemma remove_key_length:
  assumes "sorted_wrt (<) (map fst es)" and "map_of es k \<noteq> None"
  shows "length es = length (remove_key k es) + 1"
  using assms
proof (induction es)
  case (Cons e es)
  show ?case
  proof (cases "fst e = k")
    case True
    then have "\<forall>x \<in> set es. fst x \<noteq> k" using Cons.prems(1) by auto
    then have "remove_key k es = es" by (simp add: filter_id_conv)
    then show ?thesis using True by simp
  next
    case False
    then show ?thesis using Cons by (cases e) auto
  qed
qed simp

lemma remove_key_sorted: "sorted_wrt (<) (map fst es) \<Longrightarrow> sorted_wrt (<) (map fst (remove_key k es))"
  by (induction es) auto

lemma sorted_list_unique:
  assumes s: "sorted_wrt (<) (map fst xs)" "sorted_wrt (<) (map fst ys)" and m: "map_of xs = map_of ys"
  shows "xs = (ys :: (key \<times> bytes) list)"
proof -
  have d: "distinct (map fst xs)" "distinct (map fst ys)" using s sorted_keys_distinct by blast+
  have "set xs = set ys" using m map_of_eq_Some_iff [OF d(1)] map_of_eq_Some_iff [OF d(2)] by auto
  moreover have "sorted (map fst xs)" "sorted (map fst ys)" using s strict_sorted_imp_sorted by blast+
  ultimately show ?thesis using d map_sorted_distinct_set_unique [of fst xs ys] s by (auto simp: inj_on_def distinct_map)
qed

lemma stored_unique: "stored b es \<Longrightarrow> stored b es' \<Longrightarrow> map_of es = map_of es' \<Longrightarrow> es = es'"
  by (rule sorted_list_unique) (auto simp: stored_sorted)

subsection \<open>Changing one leaf\<close>

lemma troot_plug: "troot (plug cs h) = (if cs = [] then troot h else fst (last cs))"
  by (induction cs arbitrary: h) auto

lemma crep_cong:
  assumes "\<And>p. p \<in> set (cpages cs) \<Longrightarrow> v' p = v p"
  shows "crep v' cs i = crep v cs i"
  using assms
proof (induction cs arbitrary: i)
  case (Cons c cs)
  obtain p ls rs where c: "c = (p, ls, rs)" by (cases c)
  have "rep v' d = rep v d" if "(s, d) \<in> set ls \<union> set rs" for s d
    by (rule rep_cong) (use Cons.prems that c in fastforce)
  then have "(\<forall>(s, d) \<in> set ls \<union> set rs. rep v' d) = (\<forall>(s, d) \<in> set ls \<union> set rs. rep v d)" by blast
  then show ?case using Cons c by simp
qed simp

lemma holds_frame: "pool_ok b \<Longrightarrow> holds b p g \<Longrightarrow> g < length (frames b)"
  using pinned_resident(2) by (auto simp: pool_ok_def holds_def)

lemma same_next: "ident q = ident p \<Longrightarrow> GetNextLeaf q = GetNextLeaf p"
  by (drule ident_fields) (simp add: GetNextLeaf_def)

lemma stamp_next [simp]: "GetNextLeaf (stamp p c) = GetNextLeaf p" "GetNextLeaf (at_lsn p l) = GetNextLeaf p"
  "GetRightmostChild (stamp p c) = GetRightmostChild p" "GetRightmostChild (at_lsn p l) = GetRightmostChild p"
  "dead (stamp p c) = dead p" "dead (at_lsn p l) = dead p" "mem_ok (at_lsn p l) = mem_ok p"
  by (simp_all add: GetNextLeaf_def GetRightmostChild_def dead_def)

lemma logged_node [simp]:
  fixes p :: Page and l c
  defines "q \<equiv> p\<lparr>hdr := (hdr p)\<lparr>page_lsn := l, checksum := c\<rparr>\<rparr>"
  shows "leaf_rep q es = leaf_rep p es" "int_rep q xs = int_rep p xs" "GetNextLeaf q = GetNextLeaf p"
    "GetRightmostChild q = GetRightmostChild p" "dead q = dead p"
proof -
  have q: "q = stamp (at_lsn p l) c" by (simp add: q_def)
  show "leaf_rep q es = leaf_rep p es" "int_rep q xs = int_rep p xs" unfolding q by (simp_all only: node_hdr)
  show "GetNextLeaf q = GetNextLeaf p" "GetRightmostChild q = GetRightmostChild p" "dead q = dead p"
    unfolding q by (simp_all only: stamp_next)
qed

lemma leaf_write:
  assumes t: "tree_ok b t" and l: "at_leaf b t k f g cs p es"
    and q: "leaf_rep q es'" "mem_ok q" "GetNextLeaf q = GetNextLeaf (gpage b g)" "fst ` set es' \<subseteq> insert k (fst ` set es)"
    and b'_def: "b' = (guard_write b g (at_lsn q x))\<lparr>wal := w\<rparr>"
  shows "tree_ok b' (plug cs (Lf p es'))" and "at_leaf b' (plug cs (Lf p es')) k f g cs p es'" and "meta (pager b') = meta (pager b)"
    and "entries (plug cs (Lf p es')) = lents cs @ es' @ rents cs"
proof -
  have inv: "pool_ok b" and h: "holds b p g" and tp: "t = plug cs (Lf p es)" and ab: "above (clo cs) k" "below (chi cs) k"
    using t l by (auto simp: tree_ok_def at_leaf_def)
  have m: "mem_ok (at_lsn q x)" using q(2) by simp
  note u = pc.update_one [OF inv h m]
  have v: "pview b' = (pview b)(p := stamp (at_lsn q x) 0)" and pk: "pool_ok b'" "live_page b' = live_page b"
    and mt: "meta (pager b') = meta (pager b)" using u by (simp_all add: b'_def)
  show "meta (pager b') = meta (pager b)" by (rule mt)
  show "entries (plug cs (Lf p es')) = lents cs @ es' @ rents cs" by (simp add: entries_plug)
  have d: "distinct (cpages cs @ [p])" using t by (simp add: tree_ok_def tp pages_plug)
  have nx: "GetNextLeaf (pview b' j) = GetNextLeaf (pview b j)" for j
    using q(3) gpage_leaf(3) [OF inv h] by (simp add: v)
  have "crep (pview b') cs p = crep (pview b) cs p" by (rule crep_cong) (use d v in auto)
  then have "rep (pview b') (plug cs (Lf p es'))" using t q(1) by (simp add: tree_ok_def tp rep_plug v)
  moreover have "bnd None None (plug cs (Lf p es'))"
  proof -
    have bl: "cbnd cs" "\<forall>j \<in> fst ` set es. above (clo cs) j \<and> below (chi cs) j" using t by (simp_all add: tree_ok_def tp bnd_plug)
    then have "\<forall>j \<in> fst ` set es'. above (clo cs) j \<and> below (chi cs) j" using q(4) ab by blast
    then show ?thesis using bl(1) by (simp add: bnd_plug)
  qed
  moreover have "linked (pview b') (leaf_ids (plug cs (Lf p es'))) kInvalidPageId"
    using t linked_cong [of _ "pview b'" "pview b"] nx by (simp add: tree_ok_def tp leaves_plug)
  ultimately show "tree_ok b' (plug cs (Lf p es'))"
    using t pk mt by (auto simp: tree_ok_def tp pages_plug troot_plug)
  show "at_leaf b' (plug cs (Lf p es')) k f g cs p es'" using l u by (simp add: at_leaf_def b'_def)
qed

subsection \<open>Delete\<close>

lemma tree_count:
  "tree_ok (b\<lparr>pager := AddToNumKeys (pager b) d\<rparr>) t = tree_ok b t"
  "at_leaf (b\<lparr>pager := AddToNumKeys (pager b) d\<rparr>) t k f g cs p es = at_leaf b t k f g cs p es"
  by (simp_all add: tree_ok_def at_leaf_def)

lemma Delete_tree:
  assumes t: "tree_ok b t"
  shows "\<exists>s bef b'. Delete k tx undo b = Some (s, bef, b') \<and> PinCount b' = PinCount b \<and>
    (if s = kOk then \<exists>t'. tree_ok b' t' \<and> map_of (entries t') = (map_of (entries t))(k := None) \<and> map_of (entries t) k \<noteq> None \<and>
        bef = (if undo then map_of (entries t) k else None) \<and> num_keys (meta (pager b')) = num_keys (meta (pager b)) - 1
     else pc.reads b b' \<and> (s = kNotFound \<and> map_of (entries t) k = None \<or> io_error s) \<and> bef = None)"
proof -
  obtain r b1 where lg: "leaf_guard k b = Some (r, b1)" "pc.reads b b1"
    "case r of Inl s \<Rightarrow> io_error s \<and> PinCount b1 = PinCount b
     | Inr g \<Rightarrow> \<exists>cs p es. at_leaf b1 t k (PinCount b) g cs p es"
    using leaf_guard_ok [OF t, of k] by auto
  show ?thesis
  proof (cases r)
    case (Inl s)
    then show ?thesis using lg by (auto simp: Delete_def io_error_def)
  next
    case (Inr g)
    then obtain cs p es where l: "at_leaf b1 t k (PinCount b) g cs p es" using lg(3) by auto
    have t1: "tree_ok b1 t" by (rule tree_ok_reads [OF t lg(2)])
    note f = at_leaf_facts [OF t1 l]
    have h: "holds b1 p g" "pool_ok b1" using l t1 by (auto simp: at_leaf_def tree_ok_def)
    note gl = holds_frame [OF h(2,1)]
    let ?i = "lb (map fst es) k"
    have fk: "FindKeyIndex (gpage b1 g) k = (?i, k \<in> fst ` set es)" by (rule leaf_FindKeyIndex [OF f(1)])
    show ?thesis
    proof (cases "k \<in> fst ` set es")
      case False
      then have d: "Delete k tx undo b = Some (kNotFound, None, ReleaseGuard b1 g)"
        using lg(1) Inr fk by (simp add: Delete_def delete_at_leaf_def)
      have "map_of (entries t) k = None" using f(2) False by (simp add: map_of_eq_None_iff)
      then show ?thesis using d at_leaf_release [OF t1 l] pc.reads_trans [OF lg(2)] by simp
    next
      case True
      have s: "sorted_wrt (<) (map fst es)" using f(1) by (simp add: leaf_rep_def)
      note i = lb_entry [OF s True]
      obtain q where q: "DeleteAt (gpage b1 g) ?i = (True, q)"
        using DeleteAt_leaf(1) [OF f(1)] i(1) by (metis (full_types) prod.exhaust_sel)
      note dl = DeleteAt_leaf [OF f(1) q]
      let ?es = "take ?i es @ drop (Suc ?i) es"
      have qr: "leaf_rep q ?es" "map_of ?es = (map_of es)(k := None)" using dl(2,4) i(2) by simp_all
      have qm: "mem_ok q" using DeleteAt_mem [of "gpage b1 g" ?i] f(1,4) q by (simp add: leaf_rep_def)
      let ?bef = "if undo then Some (GetValueAt (gpage b1 g) ?i) else None"
      obtain x w where lk: "LogKeyRecord (set_gpage b1 g q) kDelete tx g k [] ?bef True undo =
          (kOk, (guard_write b1 g (at_lsn q x))\<lparr>wal := w\<rparr>)" using LogKeyRecord_write [OF gl] by blast
      let ?b2 = "(guard_write b1 g (at_lsn q x))\<lparr>wal := w\<rparr>" and ?t = "plug cs (Lf p ?es)"
      have "fst ` set ?es \<subseteq> insert k (fst ` set es)" using set_take_subset [of ?i es] set_drop_subset [of "Suc ?i" es] by auto
      note lw = leaf_write [where x = x and w = w, OF t1 l qr(1) qm same_next [OF dl(3)] this refl]
      let ?b3 = "?b2\<lparr>pager := AddToNumKeys (pager ?b2) (- 1)\<rparr>"
      have t3: "tree_ok ?b3 ?t" "at_leaf ?b3 ?t k (PinCount b) g cs p ?es" using lw(1,2) by (simp_all only: tree_count)
      note rl = at_leaf_release [OF t3]
      have "Delete k tx undo b = Some (kOk, ?bef, ReleaseGuard ?b3 g)"
        using lg(1) Inr fk True q lk by (simp add: Delete_def delete_at_leaf_def)
      moreover have "map_of (entries ?t) = (map_of (entries t))(k := None)"
        using map_of_plug_other [OF f(3), of k "Lf p ?es" "Lf p es"] l qr(2) by (simp add: at_leaf_def)
      moreover have "?bef = (if undo then map_of (entries t) k else None)"
      proof -
        have "map_of es (fst (es ! ?i)) = Some (snd (es ! ?i))" using s i(1) sorted_keys_distinct [OF s] by (simp add: map_of_eq_Some_iff)
        then show ?thesis using f(2) leaf_page_facts(2) [OF f(1) i(1)] i(2) by simp
      qed
      moreover have "map_of (entries t) k \<noteq> None" using f(2) True by (simp add: map_of_eq_None_iff)
      moreover have "num_keys (meta (pager (ReleaseGuard ?b3 g))) = num_keys (meta (pager b)) - 1"
        using lw(3) lg(2) by (simp add: guard_same pc.reads_def)
      ultimately show ?thesis using tree_ok_reads [OF t3(1) rl(1)] rl(2) by auto
    qed
  qed
qed

lemma Delete_stored:
  assumes "stored_off d b es"
  shows "\<exists>s bef b'. Delete k tx undo b = Some (s, bef, b') \<and> PinCount b' = PinCount b \<and>
    (if s = kOk then stored_off d b' (remove_key k es) \<and> map_of es k \<noteq> None \<and> bef = (if undo then map_of es k else None)
     else stored_off d b' es \<and> bef = None \<and> (s = kNotFound \<and> map_of es k = None \<or> io_error s))"
  using assms
proof (cases rule: stored_cases)
  case 1
  then show ?thesis using assms by (simp add: Delete_def leaf_guard_def)
next
  case (2 t)
  obtain s bef b' where dl: "Delete k tx undo b = Some (s, bef, b')" "PinCount b' = PinCount b"
    "if s = kOk then \<exists>t'. tree_ok b' t' \<and> map_of (entries t') = (map_of (entries t))(k := None) \<and> map_of (entries t) k \<noteq> None \<and>
        bef = (if undo then map_of (entries t) k else None) \<and> num_keys (meta (pager b')) = num_keys (meta (pager b)) - 1
     else pc.reads b b' \<and> (s = kNotFound \<and> map_of (entries t) k = None \<or> io_error s) \<and> bef = None"
    using Delete_tree [OF 2(1), of k tx undo] by blast
  show ?thesis
  proof (cases "s = kOk")
    case True
    then obtain t' where t': "tree_ok b' t'" "map_of (entries t') = (map_of es)(k := None)" "map_of es k \<noteq> None"
      "bef = (if undo then map_of es k else None)" "num_keys (meta (pager b')) = num_keys (meta (pager b)) - 1" using dl(3) 2(2) by auto
    have so: "sorted_wrt (<) (map fst es)" by (rule stored_sorted [OF assms])
    have e: "entries t' = remove_key k es"
      by (rule sorted_list_unique [OF tree_sorted [OF t'(1)] remove_key_sorted [OF so]]) (simp add: t'(2) remove_key_map)
    have "num_keys (meta (pager b')) = d + of_nat (length (remove_key k es))"
      using t'(5) assms remove_key_length [OF so t'(3)] by (simp add: stored_off_def)
    then show ?thesis using True dl t' e by (auto simp: stored_off_def)
  next
    case False
    then show ?thesis using dl 2(2) stored_reads [OF assms] by auto
  qed
qed

end
