(* ===== verification/BTree_Put.thy ===== *)
theory BTree_Put
  imports BTree_Write
begin

section \<open>Put and the splits\<close>

text \<open>
  \<^verbatim>\<open>Put\<close> on the represented tree. The guards an operation gathers are counted by \<open>owns\<close>; a split in progress is
  described by \<open>forest\<close>, two subtrees and a separator at a position whose ancestors still have to learn of it.
\<close>

subsection \<open>Counting guards\<close>

definition owns :: "BufferPool \<Rightarrow> (PageId \<Rightarrow> nat) \<Rightarrow> FrameId list \<Rightarrow> bool" where
  "owns b f gs \<longleftrightarrow> (\<forall>g \<in> set gs. holds b (gid b g) g) \<and> PinCount b = (\<lambda>p. f p + count_list (map (gid b) gs) p)"

lemma gid_kept:
  assumes "pool_ok b" and "pool_ok b'" and "holds b p g" and "\<And>q h. holds b q h \<Longrightarrow> holds b' q h"
  shows "gid b' g = gid b g"
  using gpage_view(3) [OF assms(1,3)] gpage_view(3) [OF assms(2) assms(4) [OF assms(3)]] by simp

lemma owns_keep:
  assumes "pool_ok b" and "pool_ok b'" and o: "owns b f gs" and h: "\<And>q h. holds b q h \<Longrightarrow> holds b' q h"
  shows "\<forall>g \<in> set gs. holds b' (gid b' g) g" and "count_list (map (gid b') gs) = count_list (map (gid b) gs)"
proof -
  have e: "gid b' g = gid b g" if "g \<in> set gs" for g
    using gid_kept [OF assms(1,2) _ h] o that by (auto simp: owns_def)
  then show "count_list (map (gid b') gs) = count_list (map (gid b) gs)" by (simp cong: map_cong)
  show "\<forall>g \<in> set gs. holds b' (gid b' g) g" using e h o by (auto simp: owns_def)
qed

lemma owns_same:
  assumes "pool_ok b" and "pool_ok b'" and "owns b f gs" and "\<And>q h. holds b q h \<Longrightarrow> holds b' q h" and "PinCount b' = PinCount b"
  shows "owns b' f gs"
  unfolding owns_def using owns_keep [OF assms(1-4)] assms(3,5) by (simp add: owns_def)

lemma owns_more:
  assumes "pool_ok b" and "pool_ok b'" and "owns b f gs" and "\<And>q h. holds b q h \<Longrightarrow> holds b' q h"
    and g: "holds b' p g" and pins: "PinCount b' = (PinCount b)(p := PinCount b p + 1)"
  shows "owns b' f (g # gs)"
proof -
  note k = owns_keep [OF assms(1-4)]
  have "gid b' g = p" by (rule gpage_view(3) [OF assms(2) g])
  then show ?thesis using k assms(3) pins g by (auto simp: owns_def fun_eq_iff)
qed

lemma owns_perm: "owns b f gs \<Longrightarrow> mset gs' = mset gs \<Longrightarrow> owns b f gs'"
  unfolding owns_def using mset_eq_setD [of gs' gs] by (auto simp: fun_eq_iff count_mset [symmetric])

lemma ReleaseGuard_gid [simp]: "gid (ReleaseGuard b g) = gid b"
proof
  show "gid (ReleaseGuard b g) h = gid b h" for h
    by (cases "g < length (frames b)"; cases "h = g") (simp_all add: gid_def ReleaseGuard_def Let_def set_frame_def list_update_beyond)
qed

lemma release_all_ok:
  assumes "pool_ok b" and "owns b f gs"
  shows "pc.reads b (release_all gs b) \<and> PinCount (release_all gs b) = f"
  using assms
proof (induction gs arbitrary: b)
  case Nil
  then show ?case using pc.reads_refl by (auto simp: release_all_def owns_def)
next
  case (Cons g gs)
  have h: "holds b (gid b g) g" using Cons.prems(2) by (simp add: owns_def)
  note r = pc.release_keeps [OF Cons.prems(1) h]
  have pins: "PinCount (ReleaseGuard b g) = (\<lambda>p. f p + count_list (map (gid b) gs) p)"
    using r Cons.prems(2) by (auto simp: owns_def fun_eq_iff)
  have "holds (ReleaseGuard b g) (gid b x) x" if x: "x \<in> set gs" for x
  proof -
    have "gid b x \<in> set (map (gid b) gs)" using x by simp
    then have "count_list (map (gid b) gs) (gid b x) \<noteq> 0" by (simp add: count_list_0_iff)
    then have "0 < PinCount (ReleaseGuard b g) (gid b x)" using pins by simp
    moreover have "holds b (gid b x) x" using x Cons.prems(2) by (simp add: owns_def)
    ultimately show ?thesis using r by blast
  qed
  then have "owns (ReleaseGuard b g) f gs" using pins by (simp add: owns_def)
  then show ?case
    using Cons.IH [of "ReleaseGuard b g"] r pc.reads_trans [OF pc.release_reads [OF Cons.prems(1) h]] by (simp add: release_all_def)
qed

text \<open>The pages of a path, held.\<close>

definition path_held :: "BufferPool \<Rightarrow> crumb list \<Rightarrow> FrameId list \<Rightarrow> bool" where
  "path_held b cs gs \<longleftrightarrow> list_all2 (\<lambda>c g. holds b (fst c) g) cs gs"

lemma path_held_mono: "path_held b cs gs \<Longrightarrow> (\<And>q h. holds b q h \<Longrightarrow> holds b' q h) \<Longrightarrow> path_held b' cs gs"
  unfolding path_held_def by (erule list_all2_mono) auto

lemma path_held_simps [simp]:
  "path_held b [] gs \<longleftrightarrow> gs = []" "path_held b (c # cs) (g # gs) \<longleftrightarrow> holds b (fst c) g \<and> path_held b cs gs"
  "path_held b (c # cs) gs \<longleftrightarrow> (\<exists>g gs'. gs = g # gs' \<and> holds b (fst c) g \<and> path_held b cs gs')"
  by (auto simp: path_held_def list_all2_Cons1)

subsection \<open>The descent that keeps its path\<close>

lemma descend_path_ok:
  assumes "tree_ok b t" and "t = plug cs h" and "above (clo cs) k" and "below (chi cs) k"
    and "owns b f stack" and "path_held b cs stack"
  shows "\<exists>r b'. descend_path k (troot h) stack b = Some (r, b') \<and> pc.reads b b' \<and>
    (case r of Inl s \<Rightarrow> io_error s \<and> PinCount b' = f
     | Inr gs \<Rightarrow> \<exists>g gs' cs' p es. gs = g # gs' \<and> owns b' f gs \<and> path_held b' cs' gs' \<and> holds b' p g \<and>
         t = plug cs' (Lf p es) \<and> above (clo cs') k \<and> below (chi cs') k)"
  using assms
proof (induction h arbitrary: cs b stack)
  case (Lf p es)
  have inv: "pool_ok b" and live: "live_page b p" using Lf.prems(1,2) by (auto simp: tree_ok_def pages_plug)
  obtain r b1 where ft: "FetchPageInternal b p = (r, b1)" by fastforce
  note fk = pc.fetch_keeps [OF inv live ft] and rd = pc.fetch_reads [OF inv live ft]
  have k1: "pool_ok b1" "\<And>q h. holds b q h \<Longrightarrow> holds b1 q h" using fk by auto
  have t1: "tree_ok b1 t" by (rule tree_ok_reads [OF Lf.prems(1) rd])
  show ?case
  proof (cases r)
    case (Inl s)
    have fi: "PinCount b1 = PinCount b" "io_error s" using pc.fetch_Inl [OF inv live ft [unfolded Inl]] by auto
    have "owns b1 f stack" by (rule owns_same [OF inv k1(1) Lf.prems(5) k1(2) fi(1)])
    then show ?thesis
      using release_all_ok [OF k1(1)] pc.reads_trans [OF rd] ft Inl fi by (auto simp: descend_path.simps)
  next
    case (Inr g)
    note fr = pc.fetch_Inr [OF inv live ft [unfolded Inr]]
    have "leaf_rep (pview b1 p) es" using t1 Lf.prems(2) by (simp add: tree_ok_def rep_plug)
    then have "IsLeaf (gpage b1 g)" using gpage_leaf(1) [OF k1(1)] fr leaf_or_int(1) by metis
    then have d: "descend_path k (troot (Lf p es)) stack b = Some (Inr (g # stack), b1)" using ft Inr by (simp add: descend_path.simps)
    have "owns b1 f (g # stack)" by (rule owns_more [OF inv k1(1) Lf.prems(5) k1(2)]) (use fr in auto)
    moreover have "path_held b1 cs stack" by (rule path_held_mono [OF Lf.prems(6) k1(2)])
    ultimately have "\<exists>g' gs' cs' p es. g # stack = g' # gs' \<and> owns b1 f (g # stack) \<and> path_held b1 cs' gs' \<and> holds b1 p g' \<and>
         t = plug cs' (Lf p es) \<and> above (clo cs') k \<and> below (chi cs') k"
      using fr Lf.prems(2-4) by blast
    then show ?thesis using d rd by simp
  qed
next
  case (Nd p ts u)
  have inv: "pool_ok b" and live: "live_page b p" using Nd.prems(1,2) by (auto simp: tree_ok_def pages_plug)
  obtain r b1 where ft: "FetchPageInternal b p = (r, b1)" by fastforce
  note fk = pc.fetch_keeps [OF inv live ft] and rd = pc.fetch_reads [OF inv live ft]
  have k1: "pool_ok b1" "\<And>q h. holds b q h \<Longrightarrow> holds b1 q h" using fk by auto
  have t1: "tree_ok b1 t" by (rule tree_ok_reads [OF Nd.prems(1) rd])
  show ?case
  proof (cases r)
    case (Inl s)
    have fi: "PinCount b1 = PinCount b" "io_error s" using pc.fetch_Inl [OF inv live ft [unfolded Inl]] by auto
    have "owns b1 f stack" by (rule owns_same [OF inv k1(1) Nd.prems(5) k1(2) fi(1)])
    then show ?thesis
      using release_all_ok [OF k1(1)] pc.reads_trans [OF rd] ft Inl fi by (auto simp: descend_path.simps)
  next
    case (Inr g)
    note fr = pc.fetch_Inr [OF inv live ft [unfolded Inr]]
    have h: "holds b1 p g" using fr by simp
    have rp: "rep (pview b1) (Nd p ts u)" and bd: "bnd (clo cs) (chi cs) (Nd p ts u)"
      using t1 Nd.prems(2) by (simp_all add: tree_ok_def rep_plug bnd_plug)
    obtain ls c rs where c: "Nd p ts u = plug1 (p, ls, rs) c" "troot c = route (roots ts) (troot u) k"
      "above (if ls = [] then clo cs else Some (fst (last ls))) k" "below (if rs = [] then chi cs else Some (fst (hd rs))) k"
      "c = u \<or> c \<in> snd ` set ts"
      by (rule step_down [OF bd Nd.prems(3,4)])
    have ir: "int_rep (gpage b1 g) (roots ts)" "GetRightmostChild (gpage b1 g) = troot u"
      using rp gpage_leaf(2,4) [OF k1(1) h] by (simp_all add: int_page_def)
    have nl: "\<not> IsLeaf (gpage b1 g)" using leaf_or_int(2) [OF ir(1)] .
    have fc: "FindChild (gpage b1 g) k = troot c" using FindChild_route [OF ir(1)] ir(2) c(2) by simp
    have "rep (pview b1) c" using rp c(5) by auto
    then have nc: "troot c \<noteq> kInvalidPageId" by (rule rep_root)
    have t: "t = plug ((p, ls, rs) # cs) c" using Nd.prems(2) c(1) by simp
    have d: "descend_path k (troot (Nd p ts u)) stack b = descend_path k (troot c) (g # stack) b1"
      using nl fc nc ft Inr by (subst descend_path.simps) (simp add: Let_def)
    have ab: "above (clo ((p, ls, rs) # cs)) k" "below (chi ((p, ls, rs) # cs)) k" using c(3,4) by simp_all
    have ow: "owns b1 f (g # stack)" by (rule owns_more [OF inv k1(1) Nd.prems(5) k1(2)]) (use fr in auto)
    have ph: "path_held b1 ((p, ls, rs) # cs) (g # stack)" using h path_held_mono [OF Nd.prems(6) k1(2)] by simp
    have "\<exists>r b'. descend_path k (troot c) (g # stack) b1 = Some (r, b') \<and> pc.reads b1 b' \<and>
      (case r of Inl s \<Rightarrow> io_error s \<and> PinCount b' = f
       | Inr gs \<Rightarrow> \<exists>g gs' cs' p es. gs = g # gs' \<and> owns b' f gs \<and> path_held b' cs' gs' \<and> holds b' p g \<and>
           t = plug cs' (Lf p es) \<and> above (clo cs') k \<and> below (chi cs') k)"
    proof (cases "c = u")
      case True
      show ?thesis using Nd.IH(2) [OF t1 _ ab ow ph] t True by simp
    next
      case False
      then obtain s where "(s, c) \<in> set ts" using c(5) by auto
      then show ?thesis using Nd.IH(1) [of "(s, c)" c, OF _ _ t1 t ab ow ph] by simp
    qed
    then show ?thesis using d pc.reads_trans [OF rd] by auto
  qed
qed

subsection \<open>Updating and inserting in a leaf\<close>

lemma UpdateLeaf_fail:
  assumes rep: "leaf_rep p es" and sz: "length k + length v < 65532" and res: "UpdateLeaf p k v = (False, q)"
  shows "q = p"
proof (cases "k \<in> fst ` set es")
  case True
  let ?i = "lb (map fst es) k"
  have i: "?i < length es" using lb_entry(1) True rep by (auto simp: leaf_rep_def)
  have "page_ok p" "IsLeaf p" using rep by (auto simp: leaf_rep_def)
  then show ?thesis
    using UpdateLeaf_cases [of p k ?i v False q] leaf_live [OF rep i] leaf_FindKeyIndex [OF rep, of k] True sz res by (auto split: if_splits)
next
  case False
  then show ?thesis using res leaf_FindKeyIndex [OF rep, of k] by (auto simp: UpdateLeaf_def split: if_splits)
qed

lemma InsertLeaf_fail:
  assumes rep: "leaf_rep p es" and k: "k \<notin> fst ` set es" and res: "InsertLeaf p k v = (False, q)"
  shows "q = p" and "room p < length k + length v + 12"
proof -
  have ok: "page_ok p" and lf: "IsLeaf p" using rep by (auto simp: leaf_rep_def)
  show r: "room p < length k + length v + 12" using InsertLeaf_ok(1) [OF rep res] k by simp
  have "unat (FreeSpace p) + unat (dead_bytes (hdr p)) = room p"
    using unat_FreeSpace [of p] ok by (simp add: page_ok_def room_def slack_def dead_def)
  then have "EnsureFit p (kSlotSize + 4 + length k + length v) = (False, p)"
    using r by (simp add: EnsureFit_def kSlotSize_def)
  then show "q = p" using res lf by (simp add: InsertLeaf_def)
qed

lemma set_gpage_same [simp]: "set_gpage b g (gpage b g) = b"
  by (simp add: set_gpage_def gpage_def set_frame_def)

text \<open>A leaf page that holds \<open>es\<close> with \<open>k\<close> set to \<open>v\<close>, in place of the one behind guard \<open>g\<close>.\<close>

definition put_page :: "Page \<Rightarrow> (key \<times> bytes) list \<Rightarrow> key \<Rightarrow> bytes \<Rightarrow> Page \<Rightarrow> (key \<times> bytes) list \<Rightarrow> bool" where
  "put_page p es k v q es' \<longleftrightarrow> leaf_rep q es' \<and> mem_ok q \<and> GetNextLeaf q = GetNextLeaf p \<and>
     fst ` set es' \<subseteq> insert k (fst ` set es) \<and> map_of es' = (map_of es)(k \<mapsto> v)"

lemma UpdateLeaf_page:
  assumes rep: "leaf_rep p es" and m: "mem_ok p" and sz: "length k + length v < 65000" and res: "UpdateLeaf p k v = (True, q)"
  shows "\<exists>es'. put_page p es k v q es'"
proof -
  have sz': "length k + length v < 65532" using sz by simp
  note u = UpdateLeaf_ok [OF rep sz' res]
  let ?es = "es[lb (map fst es) k := (k, v)]"
  have "set ?es \<subseteq> insert (k, v) (set es)" by (rule set_update_subset_insert)
  then have "fst ` set ?es \<subseteq> insert k (fst ` set es)" by auto
  then have "put_page p es k v q ?es"
    using u(2,4) UpdateLeaf_mem [OF rep m sz' res] same_next [OF u(3)] by (simp add: put_page_def)
  then show ?thesis by blast
qed

lemma InsertLeaf_page:
  assumes rep: "leaf_rep p es" and m: "mem_ok p" and sz: "length k + length v < 65000" and res: "InsertLeaf p k v = (True, q)"
  shows "put_page p es k v q (ins_at es k v) \<and> k \<notin> fst ` set es"
proof -
  note u = InsertLeaf_ok [OF rep res]
  have s: "sorted_wrt (<) (map fst es)" and k: "k \<notin> fst ` set es" and ok: "page_ok p" using rep u(1) by (auto simp: leaf_rep_def)
  note i = ins_at_props [OF s k, of v]
  have "fst ` set (ins_at es k v) \<subseteq> insert k (fst ` set es)"
    unfolding i(3) using set_take_subset [of _ es] set_drop_subset [of _ es] by fastforce
  then show ?thesis using u i(2) k InsertLeaf_mem [OF ok m sz res] same_next [OF u(3)] by (simp add: put_page_def)
qed

lemma at_leafI:
  assumes "pool_ok b" and "holds b p g" and "t = plug cs (Lf p es)" and "above (clo cs) k" and "below (chi cs) k"
  shows "at_leaf b t k ((PinCount b)(p := PinCount b p - 1)) g cs p es"
  using assms pc.holds_page [OF assms(1,2)] by (auto simp: at_leaf_def fun_eq_iff)

text \<open>What a write makes of the tree.\<close>

definition updated :: "BufferPool \<Rightarrow> ptree \<Rightarrow> key \<Rightarrow> bytes \<Rightarrow> BufferPool \<Rightarrow> ptree \<Rightarrow> bool" where
  "updated b t k v b' t' \<longleftrightarrow> tree_ok b' t' \<and> map_of (entries t') = (map_of (entries t))(k \<mapsto> v) \<and>
     num_keys (meta (pager b')) = num_keys (meta (pager b)) + (if map_of (entries t) k = None then 1 else 0)"

text \<open>A logged write of such a leaf page.\<close>

lemma leaf_put:
  assumes t: "tree_ok b t" and l: "at_leaf b t k f g cs p es" and q: "put_page (gpage b g) es k v q es'"
    and b': "b' = (guard_write b g (at_lsn q x))\<lparr>wal := w\<rparr>"
  shows "tree_ok b' (plug cs (Lf p es'))" and "at_leaf b' (plug cs (Lf p es')) k f g cs p es'"
    and "map_of (entries (plug cs (Lf p es'))) = (map_of (entries t))(k \<mapsto> v)" and "meta (pager b') = meta (pager b)"
proof -
  note lw = leaf_write [OF t l _ _ _ _ b', of es'] and f = at_leaf_facts [OF t l]
  show "tree_ok b' (plug cs (Lf p es'))" "at_leaf b' (plug cs (Lf p es')) k f g cs p es'" "meta (pager b') = meta (pager b)"
    using lw q by (auto simp: put_page_def)
  show "map_of (entries (plug cs (Lf p es'))) = (map_of (entries t))(k \<mapsto> v)"
    using map_of_plug_other [OF f(3), of k "Lf p es'" "Lf p es"] l q by (simp add: at_leaf_def put_page_def)
qed

text \<open>The before-image a write reports is the value the key had.\<close>

lemma before_value:
  assumes rep: "leaf_rep p es"
  shows "map_of es k = (if k \<in> fst ` set es then Some (GetValueAt p (lb (map fst es) k)) else None)"
proof (cases "k \<in> fst ` set es")
  case True
  have so: "sorted_wrt (<) (map fst es)" using rep by (simp add: leaf_rep_def)
  note i = lb_entry [OF so True]
  let ?e = "es ! lb (map fst es) k"
  have "map_of es (fst ?e) = Some (snd ?e)" using i(1) sorted_keys_distinct [OF so] by (simp add: map_of_eq_Some_iff)
  then show ?thesis using leaf_page_facts(2) [OF rep i(1)] i(2) True by simp
next
  case False
  then have "map_of es k = None" by (simp add: map_of_eq_None_iff)
  then show ?thesis using False by simp
qed

lemma put_fast_ok:
  assumes t: "tree_ok b t" and l: "at_leaf b t k f g cs p es" and sz: "length k + length v < 65000"
    and res: "put_fast k v tx undo g b = (r, bef, b')"
  shows "bef = (if undo then map_of (entries t) k else None)"
    and "r = None \<Longrightarrow> b' = b"
    and "r = Some s \<Longrightarrow> s = kOk \<and> (\<exists>t' es'. updated b t k v b' t' \<and> at_leaf b' t' k f g cs p es')"
proof -
  note f = at_leaf_facts [OF t l]
  have h: "holds b p g" "pool_ok b" using l t by (auto simp: at_leaf_def tree_ok_def)
  note gl = holds_frame [OF h(2,1)]
  let ?i = "lb (map fst es) k" let ?found = "k \<in> fst ` set es"
  let ?bef = "if undo \<and> ?found then Some (GetValueAt (gpage b g) ?i) else None"
  have fk: "FindKeyIndex (gpage b g) k = (?i, ?found)" by (rule leaf_FindKeyIndex [OF f(1)])
  have bv: "?bef = (if undo then map_of (entries t) k else None)" using before_value [OF f(1), of k] f(2) by auto
  have none: "map_of (entries t) k = None \<longleftrightarrow> \<not> ?found" using f(2) by (simp add: map_of_eq_None_iff)
  have "bef = ?bef \<and> (r = None \<longrightarrow> b' = b) \<and>
    (\<forall>s. r = Some s \<longrightarrow> s = kOk \<and> (\<exists>t' es'. updated b t k v b' t' \<and> at_leaf b' t' k f g cs p es'))"
  proof (cases ?found)
    case True
    obtain upd q where u: "UpdateLeaf (gpage b g) k v = (upd, q)" by fastforce
    obtain x w where lk: "LogKeyRecord (set_gpage b g q) kPut tx g k v ?bef True undo =
        (kOk, (guard_write b g (at_lsn q x))\<lparr>wal := w\<rparr>)" using LogKeyRecord_write [OF gl] by blast
    show ?thesis
    proof (cases upd)
      case True
      then obtain es' where pp: "put_page (gpage b g) es k v q es'" using UpdateLeaf_page [OF f(1,4) sz, of q] u by auto
      note lp = leaf_put [where x = x and w = w, OF t l pp refl]
      have "updated b t k v ((guard_write b g (at_lsn q x))\<lparr>wal := w\<rparr>) (plug cs (Lf p es'))"
        using lp(1,3,4) none \<open>?found\<close> by (simp add: updated_def)
      then show ?thesis using res fk u lk True \<open>?found\<close> lp(2) by (auto simp: put_fast_def)
    next
      case False
      then have "q = gpage b g" using UpdateLeaf_fail [OF f(1), of k v q] u sz by simp
      then show ?thesis using res fk u False \<open>?found\<close> by (auto simp: put_fast_def)
    qed
  next
    case False
    obtain ins q where u: "InsertLeaf (gpage b g) k v = (ins, q)" by fastforce
    obtain x w where lk: "LogKeyRecord (set_gpage b g q) kPut tx g k v ?bef True undo =
        (kOk, (guard_write b g (at_lsn q x))\<lparr>wal := w\<rparr>)" using LogKeyRecord_write [OF gl] by blast
    show ?thesis
    proof (cases ins)
      case True
      then have pp: "put_page (gpage b g) es k v q (ins_at es k v)" using InsertLeaf_page [OF f(1,4) sz, of q] u by auto
      note lp = leaf_put [where x = x and w = w, OF t l pp refl]
      let ?b = "(guard_write b g (at_lsn q x))\<lparr>wal := w\<rparr>" and ?t = "plug cs (Lf p (ins_at es k v))"
      let ?b' = "?b\<lparr>pager := AddToNumKeys (pager ?b) 1\<rparr>"
      have "tree_ok ?b' ?t" "at_leaf ?b' ?t k f g cs p (ins_at es k v)" using lp(1,2) by (simp_all only: tree_count)
      moreover have "num_keys (meta (pager ?b')) = num_keys (meta (pager b)) + 1" using lp(4) by simp
      ultimately have "updated b t k v ?b' ?t" "at_leaf ?b' ?t k f g cs p (ins_at es k v)"
        using lp(3) none False by (simp_all add: updated_def)
      moreover have "r = Some kOk" "b' = ?b'" "bef = ?bef" using res fk u lk True False by (auto simp: put_fast_def andthen_def)
      ultimately show ?thesis by blast
    next
      case noins: False
      then have "q = gpage b g" using InsertLeaf_fail(1) [OF f(1), of k v q] u False by simp
      then show ?thesis using res fk u False noins by (auto simp: put_fast_def)
    qed
  qed
  then show "bef = (if undo then map_of (entries t) k else None)" "r = None \<Longrightarrow> b' = b"
    "r = Some s \<Longrightarrow> s = kOk \<and> (\<exists>t' es'. updated b t k v b' t' \<and> at_leaf b' t' k f g cs p es')" using bv by auto
qed

end
