(* ===== verification/BTree_Split.thy ===== *)
theory BTree_Split
  imports BTree_Put
begin

section \<open>Splits\<close>

text \<open>
  Splitting a leaf, splitting internal nodes up the path, creating a new root. The pages a split writes, and what
  an operation may change at all, are first described by \<open>wrote\<close>.
\<close>

subsection \<open>Rebuilding nodes\<close>

lemma ins_at_last: "\<forall>e \<in> set es. fst e < k \<Longrightarrow> ins_at es k v = es @ [(k, v)]"
proof -
  assume a: "\<forall>e \<in> set es. fst e < k"
  have "takeWhile (\<lambda>e. fst e < k) es = es" "dropWhile (\<lambda>e. fst e < k) es = []" using a by simp_all
  then show "ins_at es k v = es @ [(k, v)]" by (simp add: ins_at_def)
qed

lemma leaf_entry_bound:
  assumes rep: "leaf_rep p es" and e: "(k, v) \<in> set es"
  shows "length k + length v \<le> 4044"
proof -
  have ok: "page_ok p" and vw: "slots_view p = map (Some \<circ> enc_leaf) es" using rep by (auto simp: leaf_rep_def)
  have "Some (enc_leaf (k, v)) \<in> set (slots_view p)" unfolding vw using e by force
  from view_size_ge [OF this] have "length k + length v + 4 \<le> view_size (slots_view p)" by simp
  moreover have "1 \<le> nslots p" using leaf_rep_entries(1) [OF rep] e by (cases es) auto
  ultimately show ?thesis using room_view [OF ok] by simp
qed

lemma fill_leaf_ok:
  assumes "leaf_rep p xs" and "mem_ok p" and "sorted_wrt (<) (map fst (xs @ es))" and "\<forall>(k, v) \<in> set es. length k + length v \<le> 4044"
    and "fill_leaf p es = (True, q)"
  shows "leaf_rep q (xs @ es) \<and> mem_ok q \<and> GetNextLeaf q = GetNextLeaf p"
  using assms
proof (induction es arbitrary: p xs)
  case (Cons e es)
  obtain k v where e: "e = (k, v)" by fastforce
  obtain p1 where p1: "InsertLeaf p k v = (True, p1)" "fill_leaf p1 es = (True, q)"
    using Cons.prems(5) e by (auto split: prod.splits if_splits)
  have sz: "length k + length v < 65000" using Cons.prems(4) e by auto
  note i = InsertLeaf_page [OF Cons.prems(1,2) sz p1(1)]
  have "ins_at xs k v = xs @ [(k, v)]" by (rule ins_at_last) (use Cons.prems(3) e in \<open>auto simp: sorted_wrt_append\<close>)
  then have r: "leaf_rep p1 (xs @ [(k, v)])" "mem_ok p1" "GetNextLeaf p1 = GetNextLeaf p" using i by (auto simp: put_page_def)
  show ?case using Cons.IH [OF r(1,2) _ _ p1(2)] Cons.prems(3,4) r(3) e by simp
qed simp

lemma InsertInternal_dead:
  assumes rep: "int_rep p es" and d: "dead p = 0" and res: "InsertInternal p k c = (b, q)"
  shows "dead q = 0"
proof -
  have ok: "page_ok p" using rep by (simp add: int_rep_def)
  have "unat (dead_bytes (hdr p)) = 0" using d by (simp add: dead_def)
  then have ef: "EnsureFit p n = (n \<le> unat (FreeSpace p), p)" for n by (simp add: EnsureFit_def)
  have "dead (snd (InsertAt p i x)) = 0" for i x
    using d by (auto simp: InsertAt_def InsertRecordAt_def Let_def dead_def split: prod.splits sum.splits if_splits)
  then show ?thesis using res ef d by (auto simp: InsertInternal_def split: prod.splits if_splits) (metis snd_conv)
qed

lemma fill_internal_ok:
  assumes "int_rep p xs" and "mem_ok p" and "dead p = 0" and "sorted_wrt (<) (map fst (xs @ es))" and "\<forall>(k, c) \<in> set es. length k < 65000"
    and "fill_internal p es = (True, q)"
  shows "int_rep q (xs @ es) \<and> mem_ok q \<and> dead q = 0 \<and> GetRightmostChild q = GetRightmostChild p"
  using assms
proof (induction es arbitrary: p xs)
  case (Cons e es)
  obtain k c where e: "e = (k, c)" by fastforce
  obtain p1 where p1: "InsertInternal p k c = (True, p1)" "fill_internal p1 es = (True, q)"
    using Cons.prems(6) e by (auto split: prod.splits if_splits)
  have sz: "length k < 65000" using Cons.prems(5) e by auto
  have lt: "\<forall>x \<in> set xs. fst x < k" using Cons.prems(4) e by (auto simp: sorted_wrt_append)
  then have "k \<notin> fst ` set xs" by auto
  note i = InsertInternal_ok [OF Cons.prems(1) this p1(1)]
  have ok: "page_ok p" using Cons.prems(1) by (simp add: int_rep_def)
  have r: "int_rep p1 (xs @ [(k, c)])" using i(2) ins_at_last [OF lt, of c] by simp
  have r': "mem_ok p1" "dead p1 = 0" "GetRightmostChild p1 = GetRightmostChild p"
    using InsertInternal_mem [OF ok Cons.prems(2) sz p1(1)] InsertInternal_dead [OF Cons.prems(1,3) p1(1)] ident_fields(6) [OF i(3)]
    by (simp_all add: GetRightmostChild_def)
  show ?case using Cons.IH [OF r r'(1,2) _ _ p1(2)] Cons.prems(4,5) r'(3) e by simp
qed simp

lemma reinsert_dead: "dead p = 0 \<Longrightarrow> dead (snd (reinsert p es)) = 0"
proof (induction es arbitrary: p)
  case (Cons e es)
  obtain k c where e: "e = (k, c)" by fastforce
  let ?d = "EncodeInternalRecord k c"
  obtain x q where x: "InsertRecord p ?d (of_nat (length ?d)) = (x, q)" by fastforce
  have "InsertRecordAt p (nslots p) ?d (of_nat (length ?d)) = (x, q)" using x by (metis InsertRecord_eq)
  then have "dead q = 0" using Cons.prems by (auto simp: InsertRecordAt_def Let_def dead_def split: if_splits)
  then show ?case using Cons.IH [of q] x by (cases x) (simp_all add: e Let_def)
qed simp

lemma InsertInternalAfterSplit_dead:
  assumes res: "InsertInternalAfterSplit p sk l r = (b, q)" and d: "dead p = 0"
  shows "dead q = 0"
proof -
  have "q = p \<or> (\<exists>q0 es. dead q0 = 0 \<and> (b, q) = reinsert q0 es)"
  proof -
    let ?q = "Page_Init (page_id (hdr p)) kInternalNode"
    have "dead (SetRightmostChild (?q\<lparr>hdr := (hdr ?q)\<lparr>page_lsn := page_lsn (hdr p)\<rparr>\<rparr>) x) = 0" for x
      by (simp add: dead_def SetRightmostChild_def Page_Init_def header_Init_def)
    then show ?thesis using res unfolding InsertInternalAfterSplit_def Let_def by (metis Pair_inject)
  qed
  then show ?thesis using d reinsert_dead by (metis snd_conv)
qed

subsection \<open>Routing tables\<close>

lemma split_child_slide:
  assumes "\<forall>s \<in> fst ` set ls. s < sk" and "\<forall>s \<in> fst ` set rs. sk < s"
  shows "split_child (ls @ fst (slide l rs)) (snd (slide l rs)) sk l r = (ls @ fst (slide l ((sk, r) # rs)), snd (slide l ((sk, r) # rs)))"
  using assms
proof (induction ls)
  case Nil
  show ?case
  proof (cases rs)
    case (Cons x rs')
    obtain s c where "x = (s, c)" by fastforce
    then show ?thesis using Cons Nil.prems(2) by auto
  qed simp
next
  case (Cons x ls)
  obtain s c where "x = (s, c)" by fastforce
  then show ?case using Cons by simp
qed

text \<open>Splitting the table and inserting into the half where the separator belongs, or inserting and splitting.\<close>

lemma split_child_left:
  assumes "i < length zs" and "sorted_wrt (<) (map fst zs)" and "sk < fst (zs ! i)" and "split_child zs rm sk l r = (zs2, rm2)"
  shows "split_child (take i zs) (snd (zs ! i)) sk l r = (take (Suc i) zs2, snd (zs2 ! Suc i)) \<and> drop (Suc i) zs = drop (Suc (Suc i)) zs2 \<and>
    fst (zs2 ! Suc i) = fst (zs ! i) \<and> rm2 = rm \<and> length zs2 = Suc (length zs)"
  using assms
proof (induction zs arbitrary: i zs2)
  case (Cons z zs)
  obtain s c where z: "z = (s, c)" by fastforce
  show ?case
  proof (cases i)
    case 0
    then have "\<not> s < sk" using Cons.prems(3) z by simp
    then show ?thesis using 0 Cons.prems z by auto
  next
    case (Suc j)
    show ?thesis
    proof (cases "s < sk")
      case True
      obtain zs1 rm1 where sc: "split_child zs rm sk l r = (zs1, rm1)" by fastforce
      then show ?thesis using Cons.IH [of j zs1] Cons.prems Suc True z by auto
    next
      case False
      then show ?thesis using Cons.prems Suc z by auto
    qed
  qed
qed simp

lemma split_child_right:
  assumes "i < length zs" and "sorted_wrt (<) (map fst zs)" and "fst (zs ! i) < sk" and "split_child zs rm sk l r = (zs2, rm2)"
  shows "split_child (drop (Suc i) zs) rm sk l r = (drop (Suc i) zs2, rm2) \<and> take i zs2 = take i zs \<and> zs2 ! i = zs ! i \<and>
    length zs2 = Suc (length zs)"
  using assms
proof (induction zs arbitrary: i zs2)
  case (Cons z zs)
  obtain s c where z: "z = (s, c)" by fastforce
  have len: "length (fst (split_child xs rm sk l r)) = Suc (length xs)" for xs
    by (induction xs) (auto simp: Let_def split: prod.splits)
  have "s \<le> fst ((z # zs) ! i)" using Cons.prems(1,2) z by (cases i) (auto dest!: nth_mem intro: less_imp_le)
  then have lt: "s < sk" using Cons.prems(3) by simp
  obtain zs1 rm1 where sc: "split_child zs rm sk l r = (zs1, rm1)" by fastforce
  show ?case
  proof (cases i)
    case 0
    then show ?thesis using Cons.prems z lt sc len [of zs] by auto
  next
    case (Suc j)
    then show ?thesis using Cons.IH [of j zs1] Cons.prems lt z sc by auto
  qed
qed simp

subsection \<open>What an operation may change\<close>

definition wrote :: "PageId set \<Rightarrow> BufferPool \<Rightarrow> BufferPool \<Rightarrow> bool" where
  "wrote S b b' \<longleftrightarrow> pool_ok b' \<and> (\<forall>j. live_page b j \<longrightarrow> live_page b' j \<and> (j \<notin> S \<longrightarrow> pview b' j = pview b j)) \<and>
     (\<forall>q h. holds b q h \<longrightarrow> holds b' q h) \<and> root_page_id (meta (pager b')) = root_page_id (meta (pager b)) \<and>
     num_keys (meta (pager b')) = num_keys (meta (pager b))"

lemma wrote_trans: "wrote S a b \<Longrightarrow> wrote T b c \<Longrightarrow> wrote (S \<union> T) a c"
  unfolding wrote_def by auto

lemma wrote_fresh: "wrote (insert p S) a b \<Longrightarrow> \<not> live_page a p \<Longrightarrow> wrote S a b"
  unfolding wrote_def by auto

lemma wrote_mono: "wrote S a b \<Longrightarrow> S \<subseteq> T \<Longrightarrow> wrote T a b"
  unfolding wrote_def by auto

lemma wroteD:
  assumes "wrote S b b'"
  shows "pool_ok b'" and "live_page b j \<Longrightarrow> live_page b' j" and "live_page b j \<Longrightarrow> j \<notin> S \<Longrightarrow> pview b' j = pview b j"
    and "holds b q h \<Longrightarrow> holds b' q h" and "root_page_id (meta (pager b')) = root_page_id (meta (pager b))"
    and "num_keys (meta (pager b')) = num_keys (meta (pager b))"
  using assms by (auto simp: wrote_def)

lemma wrote_wal: "pool_ok b \<Longrightarrow> wrote {} b (b\<lparr>wal := w\<rparr>)"
  by (simp add: wrote_def)

lemma wrote_guard:
  assumes "pool_ok b" and h: "holds b p g" and q: "mem_ok q"
  shows "wrote {p} b ((guard_write b g (at_lsn q x))\<lparr>wal := w\<rparr>)" and "pview ((guard_write b g (at_lsn q x))\<lparr>wal := w\<rparr>) p = stamp (at_lsn q x) 0"
    and "PinCount ((guard_write b g (at_lsn q x))\<lparr>wal := w\<rparr>) = PinCount b" and "meta (pager ((guard_write b g (at_lsn q x))\<lparr>wal := w\<rparr>)) = meta (pager b)"
proof -
  have "mem_ok (at_lsn q x)" using q by simp
  note u = pc.update_one [OF assms(1) h this]
  show "wrote {p} b ((guard_write b g (at_lsn q x))\<lparr>wal := w\<rparr>)" using u by (simp add: wrote_def)
  show "pview ((guard_write b g (at_lsn q x))\<lparr>wal := w\<rparr>) p = stamp (at_lsn q x) 0"
    "PinCount ((guard_write b g (at_lsn q x))\<lparr>wal := w\<rparr>) = PinCount b" "meta (pager ((guard_write b g (at_lsn q x))\<lparr>wal := w\<rparr>)) = meta (pager b)"
    using u by simp_all
qed

lemma wrote_new:
  assumes "pool_ok b" and "unat (num_pages (meta (pager b))) + 1 < 2 ^ 32" and "NewPage b = (Inr (g, p), b')"
  shows "wrote {} b b'" and "\<not> live_page b p" and "holds b' p g" and "PinCount b' = (PinCount b)(p := PinCount b p + 1)"
    and "unat (num_pages (meta (pager b'))) \<le> unat (num_pages (meta (pager b))) + 1"
  using pc.alloc_new [OF assms] by (auto simp: wrote_def)

lemma owns_wrote: "pool_ok b \<Longrightarrow> owns b f gs \<Longrightarrow> wrote S b b' \<Longrightarrow> PinCount b' = PinCount b \<Longrightarrow> owns b' f gs"
  using owns_same [of b b' f gs] by (auto simp: wrote_def)

lemma owns_wrote_more:
  "pool_ok b \<Longrightarrow> owns b f gs \<Longrightarrow> wrote S b b' \<Longrightarrow> holds b' p g \<Longrightarrow> PinCount b' = (PinCount b)(p := PinCount b p + 1) \<Longrightarrow> owns b' f (g # gs)"
  using owns_more [of b b' f gs p g] by (auto simp: wrote_def)

lemma int_page_logged [simp]: "int_page (p\<lparr>hdr := (hdr p)\<lparr>page_lsn := l, checksum := c\<rparr>\<rparr>) es rm = int_page p es rm"
  by (simp add: int_page_def)

lemma empty_nodes:
  "mem_ok (SetRightmostChild (InitInternal (Page_Init i t)) c)" "dead (SetRightmostChild (InitInternal (Page_Init i t)) c) = 0"
  "mem_ok (InitInternal (Page_Init i t))" "mem_ok (InitLeaf (Page_Init i t))"
  "mem_ok (SetNextLeaf (SetPrevLeaf (InitLeaf (Page_Init i t)) a) c)" "leaf_rep (SetNextLeaf (SetPrevLeaf (InitLeaf (Page_Init i t)) a) c) []"
  by (simp_all add: InitLeaf_rep) (simp add: link_defs dead_def Page_Init_def header_Init_def)

lemma int_entries_map:
  assumes "int_rep p zs" and "j \<le> length zs"
  shows "map (\<lambda>i. (GetKey p i, GetChild p i)) [i ..< j] = drop i (take j zs)"
  using int_rep_entries(4) [OF assms(1)] assms(2) by (intro nth_equalityI) auto

lemma int_key_short: "int_rep p zs \<Longrightarrow> e \<in> set zs \<Longrightarrow> length (fst e) < 65000"
  using int_key_bound [of e zs] int_cost_view [of p zs] by fastforce

lemma SplitInternal_ok:
  assumes ok: "pool_ok b" and h: "holds b pp g" and zs: "int_page (pview b pp) zs rm" and n: "unat (num_pages (meta (pager b))) + 1 < 2 ^ 32"
    and res: "SplitInternal g tx b = (Inr (ng, nk), b')"
  defines "i \<equiv> length zs div 2"
  shows "\<exists>np. wrote {pp} b b' \<and> \<not> live_page b np \<and> holds b' np ng \<and> PinCount b' = (PinCount b)(np := PinCount b np + 1) \<and>
    unat (num_pages (meta (pager b'))) \<le> unat (num_pages (meta (pager b))) + 1 \<and>
    (if zs = [] then nk = [] else nk = fst (zs ! i) \<and> int_page (pview b' pp) (take i zs) (snd (zs ! i))) \<and>
    int_page (pview b' np) (drop (Suc i) zs) rm"
proof -
  have il: "i \<le> length zs" "zs \<noteq> [] \<Longrightarrow> i < length zs" by (cases zs; simp add: i_def)+
  let ?nk = "if zs = [] then [] else fst (zs ! i)" and ?c = "GetChild (gpage b g) i"
  have nr: "int_rep (gpage b g) zs" "GetRightmostChild (gpage b g) = rm" using zs gpage_leaf(2,4) [OF ok h] by (simp_all add: int_page_def)
  have nk: "NumKeys (gpage b g) = length zs" "GetKey (gpage b g) i = ?nk" and ch: "zs \<noteq> [] \<Longrightarrow> ?c = snd (zs ! i)"
    using int_rep_entries(1,4) [OF nr(1)] il by (auto simp: GetKey_def)
  have so: "sorted_wrt (<) (map fst zs)" using nr(1) by (simp add: int_rep_def)
  obtain np b1 where nw: "NewPage b = (Inr (ng, np), b1)"
    using res by (auto simp: SplitInternal_def Let_def split: prod.splits sum.splits if_splits)
  note w1 = wrote_new [OF ok n nw]
  obtain w where le: "LogPageEvent b1 kAllocPage tx np False = (kOk, b1\<lparr>wal := w\<rparr>)" using LogPageEvent_wal by blast
  let ?b2 = "b1\<lparr>wal := w\<rparr>"
  have ok2: "pool_ok ?b2" "holds ?b2 pp g" "holds ?b2 np ng" using w1(3) wroteD(1,4) [OF w1(1)] h by auto
  have gi: "gid b1 g = pp" using gpage_view(3) [OF ok2(1,2)] by simp
  let ?lp0 = "SetRightmostChild (InitInternal (Page_Init pp kInternalNode)) ?c"
  let ?rp0 = "SetRightmostChild (InitInternal (Page_Init np kInternalNode)) rm"
  have L: "map (\<lambda>i. (GetKey (gpage b g) i, GetChild (gpage b g) i)) [0 ..< i] = take i zs"
    and R: "map (\<lambda>i. (GetKey (gpage b g) i, GetChild (gpage b g) i)) [i + 1 ..< length zs] = drop (Suc i) zs"
    using int_entries_map [OF nr(1), of i 0] int_entries_map [OF nr(1), of "length zs" "Suc i"] il by simp_all
  have r: "SplitInternal g tx b =
      (case fill_internal ?lp0 (take i zs) of (lfit, lp) \<Rightarrow>
         if \<not> lfit then (Inl kInternal, ReleaseGuard (set_gpage ?b2 g lp) ng)
         else case LogPageImage (set_gpage ?b2 g lp) g tx False of (s, b) \<Rightarrow>
         if s \<noteq> kOk then (Inl s, ReleaseGuard b ng)
         else case fill_internal ?rp0 (drop (Suc i) zs) of (rfit, rp) \<Rightarrow>
         if \<not> rfit then (Inl kInternal, ReleaseGuard (set_gpage b ng rp) ng)
         else case LogPageImage (set_gpage b ng rp) ng tx False of (s, b) \<Rightarrow>
         if s \<noteq> kOk then (Inl s, ReleaseGuard b ng) else (Inr (ng, ?nk), b))"
    unfolding SplitInternal_def Let_def nk(1) i_def [symmetric] nk(2) nr(2) nw prod.case sum.case le L R wal_simps(7) gi by simp
  obtain lp where lp: "fill_internal ?lp0 (take i zs) = (True, lp)"
    using res unfolding r by (auto split: prod.splits if_splits)
  obtain l1 w1' where li: "LogPageImage (set_gpage ?b2 g lp) g tx False = (kOk, (guard_write ?b2 g (at_lsn lp l1))\<lparr>wal := w1'\<rparr>)"
    using LogPageImage_write [OF holds_frame [OF ok2(1,2)]] by blast
  let ?b3 = "(guard_write ?b2 g (at_lsn lp l1))\<lparr>wal := w1'\<rparr>"
  obtain rp where rp: "fill_internal ?rp0 (drop (Suc i) zs) = (True, rp)"
    using res lp li unfolding r by (auto split: prod.splits if_splits)
  have sh: "\<forall>(k, c) \<in> set (take i zs). length k < 65000" "\<forall>(k, c) \<in> set (drop (Suc i) zs). length k < 65000"
    using int_key_short [OF nr(1)] by (auto dest: in_set_takeD in_set_dropD)
  have ss: "sorted_wrt (<) (map fst ([] @ take i zs))" "sorted_wrt (<) (map fst ([] @ drop (Suc i) zs))"
    using so sorted_wrt_append [of "(<)" "map fst (take i zs)" "map fst (drop i zs)"]
      sorted_wrt_append [of "(<)" "map fst (take (Suc i) zs)" "map fst (drop (Suc i) zs)"]
    by (simp_all flip: map_append)
  have lpage: "int_page lp (take i zs) ?c" "mem_ok lp"
    using fill_internal_ok [OF InitInternal_rep empty_nodes(1,2) ss(1) sh(1) lp] InitInternal_misc(3) by (simp_all add: int_page_def)
  have rpage: "int_page rp (drop (Suc i) zs) rm" "mem_ok rp"
    using fill_internal_ok [OF InitInternal_rep empty_nodes(1,2) ss(2) sh(2) rp] InitInternal_misc(3) by (simp_all add: int_page_def)
  note w3 = wrote_guard [where x = l1 and w = w1', OF ok2(1,2) lpage(2)]
  have ok3: "pool_ok ?b3" "holds ?b3 np ng" "live_page ?b2 pp" using wroteD(1,4) [OF w3(1)] ok2(3) pc.holds_page [OF ok2(1,2)] by auto
  obtain l2 w2 where ri: "LogPageImage (set_gpage ?b3 ng rp) ng tx False = (kOk, (guard_write ?b3 ng (at_lsn rp l2))\<lparr>wal := w2\<rparr>)"
    using LogPageImage_write [OF holds_frame [OF ok3(1,2)]] by blast
  let ?b4 = "(guard_write ?b3 ng (at_lsn rp l2))\<lparr>wal := w2\<rparr>"
  note w4 = wrote_guard [where x = l2 and w = w2, OF ok3(1,2) rpage(2)]
  have b': "b' = ?b4" "nk = ?nk" using res lp li rp ri unfolding r by auto
  have ppnp: "pp \<noteq> np" using w1(2) pc.holds_page [OF ok h] by auto
  have "wrote {} b ?b2" using wrote_trans [OF w1(1) wrote_wal [of b1 w]] ok2(1) by simp
  from wrote_trans [OF wrote_trans [OF this w3(1)] w4(1)] have "wrote {pp} b ?b4"
    using wrote_fresh [OF _ w1(2)] by (simp add: insert_commute)
  moreover have "pview ?b4 pp = pview ?b3 pp" using wroteD(3) [OF w4(1)] wroteD(2) [OF w3(1) ok3(3)] ppnp by simp
  moreover have "PinCount ?b4 = (PinCount b)(np := PinCount b np + 1)" using w4(3) w3(3) w1(4) by simp
  moreover have "holds ?b4 np ng" using wroteD(4) [OF w4(1) ok3(2)] .
  moreover have "unat (num_pages (meta (pager ?b4))) \<le> unat (num_pages (meta (pager b))) + 1" using w4(4) w3(4) w1(5) by simp
  ultimately show ?thesis using b' w1(2) w3(2) w4(2) lpage(1) rpage(1) ch by (intro exI [of _ np], cases "zs = []") simp_all
qed

subsection \<open>Splitting a node of the tree\<close>

text \<open>What the children of a node contribute, in order.\<close>

definition kids :: "(ptree \<Rightarrow> 'a list) \<Rightarrow> (key \<times> ptree) list \<Rightarrow> ptree \<Rightarrow> 'a list" where
  "kids g ts u = concat (map (\<lambda>(s, c). g c) ts) @ g u"

lemma kids_node: "leaves (Nd p ts u) = kids leaves ts u" "pages (Nd p ts u) = p # kids pages ts u"
  "rep v (Nd p ts u) \<longleftrightarrow> int_page (v p) (roots ts) (troot u) \<and> p \<noteq> kInvalidPageId \<and> (\<forall>c \<in> set (kids (\<lambda>c. [c]) ts u). rep v c)"
  by (auto simp: kids_def)

lemma kids_pages: "c \<in> set (kids (\<lambda>c. [c]) ts u) \<Longrightarrow> set (pages c) \<subseteq> set (kids pages ts u)"
  by (auto simp: kids_def)

lemma kids_split:
  assumes "m < length ts"
  shows "kids g (take m ts) (snd (ts ! m)) @ kids g (drop (Suc m) ts) u = kids g ts u"
proof -
  obtain s c where e: "ts ! m = (s, c)" by fastforce
  have "kids g ts u = kids g (take m ts @ (s, c) # drop (Suc m) ts) u" using id_take_nth_drop [OF assms] e by simp
  then show ?thesis by (simp add: kids_def e)
qed

lemma kids_flat:
  "kids g (ls @ fst (slide h1 ((sk, h2) # rs))) (snd (slide h1 ((sk, h2) # rs))) =
     concat (map (\<lambda>(s, c). g c) ls) @ g h1 @ g h2 @ concat (map (\<lambda>(s, c). g c) rs)"
  using slide_concat [of g h2 rs] by (simp add: kids_def)

lemma lbnd_tighten: "lbnd lo hi xs \<Longrightarrow> (xs \<noteq> [] \<Longrightarrow> fst (last xs) < s) \<Longrightarrow> lbnd lo (Some s) xs"
proof (induction lo hi xs rule: lbnd.induct)
  case (2 lo hi s' c xs)
  have "s' < s"
  proof (cases "xs = []")
    case False
    then show ?thesis using lbnd_last [of "Some s'" hi xs] 2(2,3) by (auto simp: sabove_def)
  qed (use 2(3) in simp)
  then show ?case using 2 by (cases "xs = []") (auto simp: below_def)
qed simp

lemma bnd_split:
  assumes "m < length ts" and "bnd lo hi (Nd p ts u)"
  shows "bnd lo hi (Nd x [(fst (ts ! m), Nd p (take m ts) (snd (ts ! m)))] (Nd p' (drop (Suc m) ts) u))"
proof -
  obtain s c where e: "ts ! m = (s, c)" by fastforce
  let ?lo = "if take m ts = [] then lo else Some (fst (last (take m ts)))"
  have "bnd lo hi (Nd p (take m ts @ (s, c) # drop (Suc m) ts) u)" using assms(2) id_take_nth_drop [OF assms(1)] e by simp
  then have b: "lbnd lo hi (take m ts)" "sabove ?lo s" "below hi s" "bnd ?lo (Some s) c" "bnd (Some s) hi (Nd p (drop (Suc m) ts) u)"
    unfolding bnd_append by simp_all
  have "sabove lo s"
  proof (cases "take m ts = []")
    case False
    then show ?thesis using lbnd_last [OF b(1)] b(2) by (auto simp: sabove_def split: option.splits)
  qed (use b(2) in simp)
  moreover have "lbnd lo (Some s) (take m ts)" by (rule lbnd_tighten [OF b(1)]) (use b(2) in \<open>auto simp: sabove_def\<close>)
  moreover have "bnd (Some s) hi (Nd p' ds u) = bnd (Some s) hi (Nd p ds u)" for ds
    using bnd_append [of "Some s" hi p' ds "[]" u] bnd_append [of "Some s" hi p ds "[]" u] by simp
  ultimately show ?thesis using b(3-5) bnd_append [of lo "Some s" p "take m ts" "[]" c] e by simp
qed

lemma bnd_flat: "bnd lo hi (plug1 (p, ls, rs) (Nd x [(sk, h1)] h2)) \<longleftrightarrow>
    bnd lo hi (plug1 (p, ls, (sk, h2) # rs) h1) \<and> sabove (if ls = [] then lo else Some (fst (last ls))) sk \<and> rbnd (if ls = [] then lo else Some (fst (last ls))) hi rs"
proof -
  have "rbnd (Some sk) hi rs" if "rbnd l hi rs" "below (if rs = [] then hi else Some (fst (hd rs))) sk" for l
    using that by (cases rs) (auto simp: bound_defs)
  moreover have "below (if rs = [] then hi else Some (fst (hd rs))) sk" if "rbnd (Some sk) hi rs" "below hi sk"
    using that by (cases rs) (auto simp: bound_defs)
  moreover have "below hi sk" if "rbnd l hi rs" "below (if rs = [] then hi else Some (fst (hd rs))) sk" for l
    using that by (cases rs) (auto simp: bound_defs split: option.splits)
  ultimately show ?thesis
    unfolding plug1.simps bnd_append bnd_slide by (auto simp: bnd_append)
qed

text \<open>Separators left and right of a position.\<close>

lemma lbnd_seps: "lbnd lo hi xs \<Longrightarrow> s \<in> fst ` set xs \<Longrightarrow> s \<le> fst (last xs)"
proof (induction lo hi xs rule: lbnd.induct)
  case (2 lo hi s' c xs)
  have "s' \<le> fst (last ((s', c) # xs))" using 2(2) lbnd_last [of "Some s'" hi xs] by (auto simp: sabove_def)
  then show ?case using 2 by (cases "xs = []") auto
qed simp

lemma rbnd_seps: "rbnd lo hi xs \<Longrightarrow> s \<in> fst ` set xs \<Longrightarrow> fst (hd xs) \<le> s"
proof (induction lo hi xs rule: rbnd.induct)
  case (2 lo hi s' c xs)
  have "s' \<le> fst (hd xs)" if "xs \<noteq> []" using 2(2) that by (cases xs) (auto simp: bound_defs)
  then show ?case using 2 by (cases "xs = []") (auto intro: order_trans)
qed simp

lemma seps_around:
  assumes "bnd lo hi (plug1 (p, ls, rs) (Nd x [(sk, h1)] h2))"
  shows "\<forall>s \<in> fst ` set ls. s < sk" and "\<forall>s \<in> fst ` set rs. sk < s"
proof -
  let ?lo = "if ls = [] then lo else Some (fst (last ls))" and ?hi = "if rs = [] then hi else Some (fst (hd rs))"
  have b: "lbnd lo hi ls" "rbnd ?lo hi rs" "sabove ?lo sk" "below ?hi sk"
    using assms unfolding plug1.simps bnd_append bnd_slide by simp_all
  show "\<forall>s \<in> fst ` set ls. s < sk" using lbnd_seps [OF b(1)] b(3) by (cases "ls = []") (force simp: sabove_def)+
  show "\<forall>s \<in> fst ` set rs. sk < s" using rbnd_seps [OF b(2)] b(4) by (cases "rs = []") (force simp: below_def)+
qed

subsection \<open>A split in progress\<close>

text \<open>
  At the position \<open>cs\<close> the subtree has become two, \<open>h1\<close> (still on the page the parent knows) and \<open>h2\<close>, separated by \<open>sk\<close>. The
  order is that of the tree in which a node of its own joins the two.
\<close>

definition forest :: "BufferPool \<Rightarrow> crumb list \<Rightarrow> ptree \<Rightarrow> key \<Rightarrow> ptree \<Rightarrow> bool" where
  "forest b cs h1 sk h2 \<longleftrightarrow> pool_ok b \<and> rep (pview b) h1 \<and> rep (pview b) h2 \<and> crep (pview b) cs (troot h1) \<and>
     bnd None None (plug cs (Nd 0 [(sk, h1)] h2)) \<and> distinct (cpages cs @ pages h1 @ pages h2) \<and>
     (\<forall>p \<in> set (cpages cs) \<union> set (pages h1) \<union> set (pages h2). live_page b p) \<and>
     linked (pview b) (map fst (lleaves cs @ leaves h1 @ leaves h2 @ rleaves cs)) kInvalidPageId \<and>
     root_page_id (meta (pager b)) = troot (plug cs h1)"

lemma concat_leaf_ids:
  "set (map fst (concat (map (\<lambda>(s, c). leaves c) xs))) \<subseteq> set (concat (map (\<lambda>(s, c). pages c) (xs :: (key \<times> ptree) list)))"
proof (induction xs)
  case (Cons x xs)
  then show ?case using leaf_ids_pages [of "snd x"] by (cases x) (simp add: subset_iff)
qed simp

lemma kids_leaf_ids: "set (map fst (kids leaves ts u)) \<subseteq> set (kids pages ts u)"
  unfolding kids_def map_append set_append using concat_leaf_ids [of ts] leaf_ids_pages [of u] by (rule Un_mono)

lemma crumb_leaf_ids: "set (map fst (lleaves cs)) \<union> set (map fst (rleaves cs)) \<subseteq> set (cpages cs)"
proof (induction cs)
  case (Cons c cs)
  obtain p ls rs where c: "c = (p, ls, rs)" by (cases c)
  have "set (map fst (lleaves (c # cs))) = set (map fst (lleaves cs)) \<union> set (map fst (concat (map (\<lambda>(s, c). leaves c) ls)))"
    "set (map fst (rleaves (c # cs))) = set (map fst (concat (map (\<lambda>(s, c). leaves c) rs))) \<union> set (map fst (rleaves cs))"
    "set (cpages (c # cs)) = insert p (set (concat (map (\<lambda>(s, c). pages c) ls)) \<union> set (concat (map (\<lambda>(s, c). pages c) rs)) \<union> set (cpages cs))"
    unfolding c by (simp_all only: lleaves.simps rleaves.simps cpages.simps map_append set_append list.set Un_assoc)
  then show ?case using Cons concat_leaf_ids [of ls] concat_leaf_ids [of rs] by blast
qed simp

lemma live_not_invalid: "live_page b p \<Longrightarrow> p \<noteq> kInvalidPageId"
  using invalid_not_data_page by (auto simp: live_page_def)

lemma flat_roots:
  assumes "\<forall>s \<in> fst ` set ls. s < sk" and "\<forall>s \<in> fst ` set rs. sk < s"
  shows "split_child (roots ls @ fst (slide (troot h1) (roots rs))) (snd (slide (troot h1) (roots rs))) sk (troot h1) (troot h2) =
    (roots (ls @ fst (slide h1 ((sk, h2) # rs))), troot (snd (slide h1 ((sk, h2) # rs))))"
proof -
  have k: "fst ` set (roots xs) = fst ` set xs" for xs :: "(key \<times> ptree) list" by force
  have s: "roots ((sk, h2) # rs) = (sk, troot h2) # roots rs" by simp
  show ?thesis
    using split_child_slide [of "roots ls" sk "roots rs" "troot h1" "troot h2"] assms slide_map [of troot h1 "(sk, h2) # rs"]
    unfolding k s by (simp only: map_append fst_conv snd_conv)
qed

text \<open>The common part of the two ways the parent can take it: everything but the parent's page is as before.\<close>

lemma forest_kept:
  assumes f: "forest b ((pp, ls, rs) # cs) h1 sk h2" and w: "wrote {pp} b b'"
    and ts: "ts = ls @ fst (slide h1 ((sk, h2) # rs))" and u: "u = snd (slide h1 ((sk, h2) # rs))"
  shows "pp \<notin> set (cpages cs) \<union> set (kids pages ts u)" and "distinct (cpages cs @ kids pages ts u)"
    and "\<forall>p \<in> insert pp (set (cpages cs) \<union> set (kids pages ts u)). live_page b p \<and> live_page b' p"
    and "\<forall>c \<in> set (kids (\<lambda>c. [c]) ts u). rep (pview b') c" and "crep (pview b') cs pp"
    and "bnd None None (plug cs (Nd pp ts u))" and "linked (pview b') (map fst (lleaves cs @ kids leaves ts u @ rleaves cs)) kInvalidPageId"
    and "root_page_id (meta (pager b')) = troot (plug cs (Nd pp ts u))"
proof -
  have kp: "kids pages ts u = concat (map (\<lambda>(s, c). pages c) ls) @ pages h1 @ pages h2 @ concat (map (\<lambda>(s, c). pages c) rs)"
    and kl: "kids leaves ts u = concat (map (\<lambda>(s, c). leaves c) ls) @ leaves h1 @ leaves h2 @ concat (map (\<lambda>(s, c). leaves c) rs)"
    and kc: "kids (\<lambda>c. [c]) ts u = map snd ls @ h1 # h2 # map snd rs"
    using kids_flat [of pages ls h1 sk h2 rs] kids_flat [of leaves ls h1 sk h2 rs] kids_flat [of "\<lambda>c. [c]" ls h1 sk h2 rs]
    unfolding ts u by (simp_all add: case_prod_beta')
  have F: "distinct (cpages ((pp, ls, rs) # cs) @ pages h1 @ pages h2)" "crep (pview b) ((pp, ls, rs) # cs) (troot h1)"
    "rep (pview b) h1" "rep (pview b) h2" "bnd None None (plug cs (plug1 (pp, ls, rs) (Nd 0 [(sk, h1)] h2)))"
    "\<forall>p \<in> set (cpages ((pp, ls, rs) # cs)) \<union> set (pages h1) \<union> set (pages h2). live_page b p"
    "linked (pview b) (map fst (lleaves ((pp, ls, rs) # cs) @ leaves h1 @ leaves h2 @ rleaves ((pp, ls, rs) # cs))) kInvalidPageId"
    "root_page_id (meta (pager b)) = troot (plug cs (plug1 (pp, ls, rs) h1))"
    using f by (simp_all add: forest_def)
  have m: "mset (cpages ((pp, ls, rs) # cs) @ pages h1 @ pages h2) = mset (pp # cpages cs @ kids pages ts u)"
    unfolding kp by (simp add: ac_simps)
  have D: "distinct (pp # cpages cs @ kids pages ts u)" using F(1) mset_eq_imp_distinct_iff [OF m] by blast
  have S: "set (cpages ((pp, ls, rs) # cs)) \<union> set (pages h1) \<union> set (pages h2) = insert pp (set (cpages cs) \<union> set (kids pages ts u))"
    using mset_eq_setD [OF m] by (simp only: set_append list.set Un_assoc)
  show nin: "pp \<notin> set (cpages cs) \<union> set (kids pages ts u)" "distinct (cpages cs @ kids pages ts u)" using D by simp_all
  show lv: "\<forall>p \<in> insert pp (set (cpages cs) \<union> set (kids pages ts u)). live_page b p \<and> live_page b' p"
    using F(6) wroteD(2) [OF w] unfolding S by blast
  have vw: "pview b' p = pview b p" if "p \<in> set (cpages cs) \<union> set (kids pages ts u)" for p
    using wroteD(3) [OF w, of p] lv nin(1) that by auto
  show "\<forall>c \<in> set (kids (\<lambda>c. [c]) ts u). rep (pview b') c"
  proof
    fix c assume c: "c \<in> set (kids (\<lambda>c. [c]) ts u)"
    have "rep (pview b) c" using c F(2-4) unfolding kc by auto
    then show "rep (pview b') c" using rep_cong [of c "pview b'" "pview b"] vw kids_pages [OF c] by auto
  qed
  show "crep (pview b') cs pp" using F(2) crep_cong [of cs "pview b'" "pview b" pp] vw by simp
  show "bnd None None (plug cs (Nd pp ts u))"
    using F(5) unfolding bnd_plug bnd_flat by (simp add: ts u)
  have "p \<in> set (cpages cs) \<union> set (kids pages ts u)" if "p \<in> set (map fst (lleaves cs @ kids leaves ts u @ rleaves cs))" for p
    using that crumb_leaf_ids [of cs] kids_leaf_ids [of ts u] unfolding map_append set_append by blast
  then have "linked (pview b') (map fst (lleaves cs @ kids leaves ts u @ rleaves cs)) kInvalidPageId =
      linked (pview b) (map fst (lleaves cs @ kids leaves ts u @ rleaves cs)) kInvalidPageId"
    by (intro linked_cong) (simp add: vw)
  then show "linked (pview b') (map fst (lleaves cs @ kids leaves ts u @ rleaves cs)) kInvalidPageId"
    using F(7) by (simp add: kl)
  show "root_page_id (meta (pager b')) = troot (plug cs (Nd pp ts u))"
    using F(8) wroteD(5) [OF w] by (simp add: troot_plug)
qed

lemma forest_absorb:
  assumes f: "forest b ((pp, ls, rs) # cs) h1 sk h2" and w: "wrote {pp} b b'"
    and ts: "ts = ls @ fst (slide h1 ((sk, h2) # rs))" and u: "u = snd (slide h1 ((sk, h2) # rs))"
    and pg: "int_page (pview b' pp) (roots ts) (troot u)"
  shows "tree_ok b' (plug cs (Nd pp ts u))" and "leaves (plug cs (Nd pp ts u)) = lleaves ((pp, ls, rs) # cs) @ leaves h1 @ leaves h2 @ rleaves ((pp, ls, rs) # cs)"
proof -
  note k = forest_kept [OF f w ts u]
  show "leaves (plug cs (Nd pp ts u)) = lleaves ((pp, ls, rs) # cs) @ leaves h1 @ leaves h2 @ rleaves ((pp, ls, rs) # cs)"
    unfolding leaves_plug kids_node(1) ts u kids_flat by simp
  have "pp \<noteq> kInvalidPageId" using k(3) live_not_invalid by blast
  then show "tree_ok b' (plug cs (Nd pp ts u))"
    using k pg wroteD(1) [OF w] unfolding tree_ok_def rep_plug leaves_plug pages_plug kids_node by simp
qed

lemma forest_split:
  assumes f: "forest b ((pp, ls, rs) # cs) h1 sk h2" and w: "wrote {pp} b b'"
    and ts: "ts = ls @ fst (slide h1 ((sk, h2) # rs))" and u: "u = snd (slide h1 ((sk, h2) # rs))" and m: "m < length ts"
    and np: "\<not> live_page b np" "live_page b' np"
    and pg: "int_page (pview b' pp) (roots (take m ts)) (troot (snd (ts ! m)))" "int_page (pview b' np) (roots (drop (Suc m) ts)) (troot u)"
  defines "L \<equiv> Nd pp (take m ts) (snd (ts ! m))" and "R \<equiv> Nd np (drop (Suc m) ts) u"
  shows "forest b' cs L (fst (ts ! m)) R"
    and "lleaves cs @ leaves L @ leaves R @ rleaves cs = lleaves ((pp, ls, rs) # cs) @ leaves h1 @ leaves h2 @ rleaves ((pp, ls, rs) # cs)"
proof -
  note k = forest_kept [OF f w ts u]
  have lv: "leaves L @ leaves R = kids leaves ts u" unfolding L_def R_def kids_node(1) by (rule kids_split [OF m])
  show e: "lleaves cs @ leaves L @ leaves R @ rleaves cs = lleaves ((pp, ls, rs) # cs) @ leaves h1 @ leaves h2 @ rleaves ((pp, ls, rs) # cs)"
    using lv unfolding ts u kids_flat by (simp flip: append_assoc)
  have mp: "mset (cpages cs @ pages L @ pages R) = mset (pp # np # cpages cs @ kids pages ts u)"
  proof -
    have "mset (kids pages (take m ts) (snd (ts ! m))) + mset (kids pages (drop (Suc m) ts) u) = mset (kids pages ts u)"
      unfolding mset_append [symmetric] kids_split [OF m] by simp
    then show ?thesis unfolding L_def R_def kids_node(2) by (simp add: ac_simps)
  qed
  have "np \<notin> insert pp (set (cpages cs) \<union> set (kids pages ts u))" using np(1) k(3) by blast
  then have "distinct (pp # np # cpages cs @ kids pages ts u)" using k(1,2) by auto
  then have dist: "distinct (cpages cs @ pages L @ pages R)" using mset_eq_imp_distinct_iff [OF mp] by blast
  have "set (cpages cs) \<union> set (pages L) \<union> set (pages R) = insert pp (insert np (set (cpages cs) \<union> set (kids pages ts u)))"
    using mset_eq_setD [OF mp] by (simp only: set_append list.set Un_assoc)
  then have live: "\<forall>p \<in> set (cpages cs) \<union> set (pages L) \<union> set (pages R). live_page b' p" using k(3) np(2) by simp
  have kc: "set (kids (\<lambda>c. [c]) ts u) = set (kids (\<lambda>c. [c]) (take m ts) (snd (ts ! m))) \<union> set (kids (\<lambda>c. [c]) (drop (Suc m) ts) u)"
    unfolding set_append [symmetric] kids_split [OF m] by simp
  have "pp \<noteq> kInvalidPageId" "np \<noteq> kInvalidPageId" using k(3) np(2) live_not_invalid by blast+
  then have rep: "rep (pview b') L" "rep (pview b') R" using k(4) pg unfolding L_def R_def kids_node(3) kc by auto
  have "bnd None None (plug cs (Nd 0 [(fst (ts ! m), L)] R))"
    using k(6) bnd_split [OF m, of "clo cs" "chi cs" pp u 0 np] unfolding bnd_plug L_def R_def by simp
  moreover have "linked (pview b') (map fst (lleaves cs @ leaves L @ leaves R @ rleaves cs)) kInvalidPageId"
    using k(7) lv by (simp flip: append_assoc)
  moreover have "root_page_id (meta (pager b')) = troot (plug cs L)" using k(8) by (simp add: troot_plug L_def)
  moreover have "troot L = pp" by (simp add: L_def)
  ultimately show "forest b' cs L (fst (ts ! m)) R"
    using k(5) rep dist live wroteD(1) [OF w] unfolding forest_def by simp
qed

lemma Write_error: "Write f a d i = (Inl e, y) \<Longrightarrow> io_error (pager_error e)"
  by (auto simp: Write_def io_error_def split: if_splits prod.splits option.splits)

lemma AllocatePage_error:
  assumes fp: "free_pages b ids" and al: "AllocatePage (pager b) i = (Inl s, y)"
  shows "io_error s"
proof -
  have "data_page (pager b) (free_list_head (meta (pager b)))" if "free_list_head (meta (pager b)) \<noteq> kInvalidPageId"
    using that fp by (cases ids) (auto simp: free_pages_def)
  then show ?thesis using al ReadPage_error [of "pager b" "free_list_head (meta (pager b))"]
    by (auto simp: AllocatePage_def Let_def dest: Write_error split: if_splits sum.splits prod.splits) (simp add: io_error_def)
qed

lemma NewPage_error:
  assumes ok: "pool_ok b" and nw: "NewPage b = (Inl s, b')"
  shows "io_error s"
proof -
  obtain ids where inv: "pool_inv {} b" and fp: "free_pages b ids" using ok by (auto simp: pool_ok_def)
  obtain r b1 where ac: "AcquireFrameLocked b = (r, b1)" by fastforce
  show ?thesis using nw ac AcquireFrameLocked_error [OF inv] AllocatePage_error [OF AcquireFrameLocked_free_pages [OF inv ac fp]]
    by (auto simp: NewPage_def split: sum.splits prod.splits)
qed

lemma io_error_not_ok [simp]: "io_error s \<Longrightarrow> s \<noteq> kOk"
  by (auto simp: io_error_def)

lemma io_error_internal [simp]: "io_error kInternal"
  by (simp add: io_error_def)

lemma LogPage_status:
  "fst (LogPageImage b g tx oe) = kOk" "fst (LogPageEvent b t tx p oe) = kOk"
  by (auto simp: LogPageImage_def LogPageEvent_def Let_def split: option.split prod.split)

lemma CreateNewRoot_error:
  assumes "pool_ok b" and "CreateNewRoot sk l r tx b = (s, b')" and "s \<noteq> kOk"
  shows "io_error s"
proof -
  have "fst (andthen x f) = (if fst x \<noteq> kOk then fst x else fst (f (snd x)))" for x f by (simp add: andthen_def split: prod.split)
  moreover obtain x b1 where nw: "NewPage b = (x, b1)" by fastforce
  ultimately show ?thesis
    using assms NewPage_error [OF assms(1)] arg_cong [OF assms(2), of fst]
    by (auto simp: CreateNewRoot_def LogPage_status case_prod_beta' split: sum.splits if_splits)
qed

lemma CreateNewRoot_ok:
  assumes f: "forest b [] h1 sk h2" and sz: "length sk < 65000" and n: "unat (num_pages (meta (pager b))) + 1 < 2 ^ 32"
    and res: "CreateNewRoot sk (troot h1) (troot h2) tx b = (kOk, b')"
  shows "\<exists>r. tree_ok b' (Nd r [(sk, h1)] h2) \<and> PinCount b' = PinCount b \<and> num_keys (meta (pager b')) = num_keys (meta (pager b)) \<and>
    (\<forall>q h. holds b q h \<longrightarrow> holds b' q h)"
proof -
  have ok: "pool_ok b" using f by (simp add: forest_def)
  obtain g r b1 where nw: "NewPage b = (Inr (g, r), b1)"
    using res NewPage_error [OF ok] io_error_not_ok by (fastforce simp: CreateNewRoot_def split: prod.splits sum.splits)
  note w1 = wrote_new [OF ok n nw]
  obtain w where le: "LogPageEvent b1 kAllocPage tx r False = (kOk, b1\<lparr>wal := w\<rparr>)" using LogPageEvent_wal by blast
  let ?b2 = "b1\<lparr>wal := w\<rparr>"
  have ok2: "pool_ok ?b2" "holds ?b2 r g" using w1(3) wroteD(1) [OF w1(1)] by auto
  let ?p0 = "InitInternal (Page_Init r kInternalNode)"
  have p0: "int_rep ?p0 []" "mem_ok ?p0" using InitInternal_rep [of r kInternalNode 0] empty_nodes(3) [of r kInternalNode] by simp_all
  have p0d: "dead ?p0 = 0" "page_ok ?p0" using p0(1) by (simp_all add: int_rep_def) (simp add: link_defs dead_def Page_Init_def header_Init_def)
  obtain p where p: "InsertInternal ?p0 sk (troot h1) = (True, p)"
  proof -
    obtain ins p where "InsertInternal ?p0 sk (troot h1) = (ins, p)" by fastforce
    then show ?thesis using that res nw le by (cases ins) (auto simp: CreateNewRoot_def andthen_def)
  qed
  note ii = InsertInternal_ok [OF p0(1) _ p]
  have pr: "int_rep p [(sk, troot h1)]" "mem_ok p" "dead p = 0"
    using ii(2) InsertInternal_mem [OF p0d(2) p0(2) sz p] InsertInternal_dead [OF p0(1) p0d(1) p] by (simp_all add: ins_at_def)
  let ?q = "SetRightmostChild p (troot h2)"
  have q: "int_page ?q [(sk, troot h1)] (troot h2)" "mem_ok ?q"
    using pr by (simp_all add: int_page_def SetRightmostChild_def GetRightmostChild_def dead_def)
      (simp flip: SetRightmostChild_def)
  obtain l w1' where li: "LogPageImage (set_gpage ?b2 g ?q) g tx False = (kOk, (guard_write ?b2 g (at_lsn ?q l))\<lparr>wal := w1'\<rparr>)"
    using LogPageImage_write [OF holds_frame [OF ok2]] by blast
  let ?b3 = "(guard_write ?b2 g (at_lsn ?q l))\<lparr>wal := w1'\<rparr>"
  obtain w2 where le2: "LogPageEvent ?b3 kRootChange tx r True = (kOk, ?b3\<lparr>wal := w2\<rparr>)" using LogPageEvent_wal by blast
  let ?b4 = "?b3\<lparr>wal := w2\<rparr>" let ?b5 = "?b4\<lparr>pager := SetRootPageId (pager ?b4) r\<rparr>"
  have b': "b' = ReleaseGuard ?b5 g" using res nw le p li le2 by (simp add: CreateNewRoot_def andthen_def)
  note w3 = wrote_guard [where x = l and w = w1', OF ok2 q(2)]
  have w13: "wrote {} b ?b2" using wrote_trans [OF w1(1) wrote_wal [of b1 w]] ok2(1) by simp
  have w: "wrote {} b ?b3" using wrote_fresh [OF _ w1(2)] wrote_trans [OF w13 w3(1)] by simp
  have w4: "wrote {} b ?b4" using wrote_trans [OF w wrote_wal] wroteD(1) [OF w] by simp
  have ok5: "pool_ok ?b5" "holds ?b5 r g" using wroteD(1) [OF w4] wroteD(4) [OF w3(1) ok2(2)] by (simp_all only: root_simps wal_simps)
  have lr: "live_page ?b4 r" using pc.holds_page [OF ok5] by (simp only: root_simps)
  have F: "rep (pview b) h1" "rep (pview b) h2" "bnd None None (Nd 0 [(sk, h1)] h2)" "distinct (pages h1 @ pages h2)"
    "\<forall>p \<in> set (pages h1) \<union> set (pages h2). live_page b p" "linked (pview b) (map fst (leaves h1 @ leaves h2)) kInvalidPageId"
    using f by (simp_all add: forest_def)
  have vw: "pview ?b4 p = pview b p" if "p \<in> set (pages h1) \<union> set (pages h2)" for p using wroteD(3) [OF w4] F(5) that by simp
  have rp: "rep (pview ?b4) h1" "rep (pview ?b4) h2"
    using F(1,2) rep_cong [of h1 "pview ?b4" "pview b"] rep_cong [of h2 "pview ?b4" "pview b"] vw by simp_all
  have "p \<in> set (pages h1) \<union> set (pages h2)" if "p \<in> set (map fst (leaves h1 @ leaves h2))" for p
    using that leaf_ids_pages [of h1] leaf_ids_pages [of h2] unfolding map_append set_append by blast
  then have "linked (pview ?b4) (map fst (leaves h1 @ leaves h2)) kInvalidPageId = linked (pview b) (map fst (leaves h1 @ leaves h2)) kInvalidPageId"
    by (intro linked_cong) (simp only: vw)
  then have "linked (pview ?b4) (map fst (leaves h1 @ leaves h2)) kInvalidPageId" using F(6) by simp
  moreover have "int_page (pview ?b4 r) [(sk, troot h1)] (troot h2)" using w3(2) q(1) by simp
  moreover have "r \<noteq> kInvalidPageId" using live_not_invalid [OF lr] .
  moreover have "r \<notin> set (pages h1) \<union> set (pages h2)" using w1(2) F(5) by blast
  ultimately have "tree_ok ?b5 (Nd r [(sk, h1)] h2)"
    using ok5 rp F(3,4,5) lr wroteD(2) [OF w4] unfolding tree_ok_def root_simps by (auto simp: root_simps)
  moreover note rel = pc.release_keeps [OF ok5]
  have "PinCount ?b5 = PinCount ?b3" by (simp only: root_simps wal_simps)
  then have p5: "PinCount ?b5 = (PinCount b)(r := PinCount b r + 1)" using w3(3) w1(4) by simp
  then have pins: "PinCount b' = PinCount b" using rel unfolding b' by (auto simp: fun_eq_iff)
  moreover have "holds b' q h" if "holds b q h" for q h
  proof -
    have "holds ?b5 q h" using wroteD(4) [OF w4 that] by (simp only: root_simps)
    moreover have "0 < PinCount b' q" using pc.holds_page [OF ok that] pins by simp
    ultimately show ?thesis using rel unfolding b' by blast
  qed
  moreover have "num_keys (meta (pager b')) = num_keys (meta (pager b))"
    using wroteD(6) [OF w4] unfolding b' guard_same by simp
  ultimately show ?thesis using tree_ok_reads [OF _ pc.release_reads [OF ok5]] unfolding b' by blast
qed

lemma SplitInternal_error:
  assumes "pool_ok b" and "SplitInternal g tx b = (Inl s, b')"
  shows "io_error s"
proof -
  have l: "LogPageImage b g tx oe = (s, y) \<Longrightarrow> s = kOk" "LogPageEvent b t tx p oe = (s, y) \<Longrightarrow> s = kOk" for b g tx oe s y t p
    using LogPage_status by (metis fst_conv)+
  show ?thesis
    using assms NewPage_error [OF assms(1)] by (auto simp: SplitInternal_def Let_def dest: l split: prod.splits sum.splits if_splits)
qed

lemma slide_keys: "map fst (fst (slide h rs)) = map fst rs"
  by (induction h rs rule: slide.induct) auto

lemma insert_at_guard:
  assumes ok: "pool_ok b" and h: "holds b p g" and zs: "int_page (pview b p) zs rm" and k: "sk \<notin> fst ` set zs" and sz: "length sk < 65000"
    and sc: "split_child zs rm sk l r = (zs', rm')" and res: "InsertInternalAfterSplit (gpage b g) sk l r = (ins, q)"
  shows "ins \<Longrightarrow> int_page q zs' rm' \<and> mem_ok q" and "\<not> ins \<Longrightarrow> q = gpage b g" and "zs = [] \<Longrightarrow> ins \<longleftrightarrow> length sk + 14 \<le> 4056"
proof -
  have r: "int_rep (gpage b g) zs" "GetRightmostChild (gpage b g) = rm" "dead (gpage b g) = 0"
    using zs gpage_leaf(2,4,5) [OF ok h] by (simp_all add: int_page_def)
  note i = InsertInternalAfterSplit_ok [OF r(1) k sz res, unfolded r(2), OF sc]
  show "int_page q zs' rm' \<and> mem_ok q" if ins
    using i(3) [OF that] InsertInternalAfterSplit_dead [OF res r(3)] InsertInternalAfterSplit_mem [OF r(1) gpage_view(2) [OF ok h] sz res]
    by (simp add: int_page_def)
  show "\<not> ins \<Longrightarrow> q = gpage b g" by (rule i(2))
  show "ins \<longleftrightarrow> length sk + 14 \<le> 4056" if "zs = []"
    using i(1) int_cost_view [OF r(1)] that r(3) by (simp add: int_cost_def room_def)
qed

lemma guard_image:
  assumes ok: "pool_ok b" and h: "holds b p g" and q: "mem_ok q" and res: "LogPageImage (set_gpage b g q) g tx oe = (s, b')"
  shows "s = kOk" and "wrote {p} b b'" and "\<exists>x. pview b' p = stamp (at_lsn q x) 0" and "PinCount b' = PinCount b"
    and "meta (pager b') = meta (pager b)"
proof -
  obtain x w where li: "LogPageImage (set_gpage b g q) g tx oe = (kOk, (guard_write b g (at_lsn q x))\<lparr>wal := w\<rparr>)"
    using LogPageImage_write [OF holds_frame [OF ok h]] by blast
  note wg = wrote_guard [where x = x and w = w, OF ok h q]
  show "s = kOk" "wrote {p} b b'" "PinCount b' = PinCount b" "meta (pager b') = meta (pager b)" using res li wg by auto
  show "\<exists>x. pview b' p = stamp (at_lsn q x) 0" using res li wg(2) by auto
qed

text \<open>The routing table of the parent, before and after it learns of the split.\<close>

lemma forest_parent:
  assumes f: "forest b ((pp, ls, rs) # cs) h1 sk h2"
    and zs: "zs = roots ls @ fst (slide (troot h1) (roots rs))" and rm: "rm = snd (slide (troot h1) (roots rs))"
  shows "pool_ok b" and "int_page (pview b pp) zs rm" and "sk \<notin> fst ` set zs" and "sorted_wrt (<) (map fst zs)"
    and "split_child zs rm sk (troot h1) (troot h2) = (roots (ls @ fst (slide h1 ((sk, h2) # rs))), troot (snd (slide h1 ((sk, h2) # rs))))"
proof -
  show pg: "pool_ok b" "int_page (pview b pp) zs rm" using f unfolding forest_def zs rm by simp_all
  have bd: "bnd (clo cs) (chi cs) (plug1 (pp, ls, rs) (Nd 0 [(sk, h1)] h2))" using f unfolding forest_def plug.simps bnd_plug by simp
  note sa = seps_around [OF bd]
  show "split_child zs rm sk (troot h1) (troot h2) = (roots (ls @ fst (slide h1 ((sk, h2) # rs))), troot (snd (slide h1 ((sk, h2) # rs))))"
    unfolding zs rm by (rule flat_roots [OF sa])
  show "sorted_wrt (<) (map fst zs)" using pg(2) by (simp add: int_page_def int_rep_def)
  have mk: "map fst zs = map fst ls @ map fst rs" by (simp add: zs slide_keys case_prod_beta' comp_def)
  have "fst ` set zs = fst ` set ls \<union> fst ` set rs" using arg_cong [OF mk, of set] by (simp only: set_map set_append)
  then show "sk \<notin> fst ` set zs" using sa by (metis Un_iff less_irrefl)
qed

text \<open>Inserting into the halves of a split table gives the halves of the table with the insertion.\<close>

lemma halves_after_insert:
  assumes i: "i < length zs" and so: "sorted_wrt (<) (map fst zs)" and nin: "sk \<notin> fst ` set zs"
    and sc: "split_child zs rm sk l r = (zs2, rm2)" and m: "m = (if sk < fst (zs ! i) then Suc i else i)"
  shows "m < length zs2" and "fst (zs2 ! m) = fst (zs ! i)"
    and "sk < fst (zs ! i) \<Longrightarrow> split_child (take i zs) (snd (zs ! i)) sk l r = (take m zs2, snd (zs2 ! m)) \<and> drop (Suc i) zs = drop (Suc m) zs2 \<and> rm2 = rm"
    and "\<not> sk < fst (zs ! i) \<Longrightarrow> split_child (drop (Suc i) zs) rm sk l r = (drop (Suc m) zs2, rm2) \<and> take i zs = take m zs2 \<and> zs ! i = zs2 ! m"
proof -
  have "fst (zs ! i) \<in> fst ` set zs" using i by simp
  then have ne: "fst (zs ! i) \<noteq> sk" using nin by metis
  show "sk < fst (zs ! i) \<Longrightarrow> split_child (take i zs) (snd (zs ! i)) sk l r = (take m zs2, snd (zs2 ! m)) \<and> drop (Suc i) zs = drop (Suc m) zs2 \<and> rm2 = rm"
    using split_child_left [OF i so _ sc] m by simp
  have gt: "fst (zs ! i) < sk" if "\<not> sk < fst (zs ! i)" using that ne by (metis linorder_less_linear)
  show "\<not> sk < fst (zs ! i) \<Longrightarrow> split_child (drop (Suc i) zs) rm sk l r = (drop (Suc m) zs2, rm2) \<and> take i zs = take m zs2 \<and> zs ! i = zs2 ! m"
    using split_child_right [OF i so gt sc] m by simp
  show "m < length zs2" "fst (zs2 ! m) = fst (zs ! i)"
    using split_child_left [OF i so _ sc] split_child_right [OF i so gt sc] m i by (cases "sk < fst (zs ! i)"; simp)+
qed

text \<open>The pages after the full parent is split and the half where the separator belongs takes it.\<close>

lemma split_pages:
  assumes ok: "pool_ok b" and h: "holds b pp g" and pg: "int_page (pview b pp) zs rm" and nin: "sk \<notin> fst ` set zs"
    and so: "sorted_wrt (<) (map fst zs)" and sz: "length sk < 65000" and sc: "split_child zs rm sk l r = (zs2, rm2)"
    and n: "unat (num_pages (meta (pager b))) + 1 < 2 ^ 32" and fail: "InsertInternalAfterSplit (gpage b g) sk l r = (False, q0)"
    and sp: "SplitInternal g tx b = (Inr (ng, nk), b1)" and tg: "target = (if sk < nk then g else ng)"
    and ins: "InsertInternalAfterSplit (gpage b1 target) sk l r = (True, q)" and lg: "LogPageImage (set_gpage b1 target q) target tx oe = (s, b2)"
  shows "\<exists>np m. s = kOk \<and> wrote {pp} b b2 \<and> gid b1 g = pp \<and> gid b1 ng = np \<and> \<not> live_page b np \<and> holds b2 np ng \<and>
    PinCount b2 = (PinCount b)(np := PinCount b np + 1) \<and> unat (num_pages (meta (pager b2))) \<le> unat (num_pages (meta (pager b))) + 1 \<and>
    length nk < 65000 \<and> m < length zs2 \<and> nk = fst (zs2 ! m) \<and>
    int_page (pview b2 pp) (take m zs2) (snd (zs2 ! m)) \<and> int_page (pview b2 np) (drop (Suc m) zs2) rm2"
proof -
  let ?i = "length zs div 2"
  obtain np where S: "wrote {pp} b b1" "\<not> live_page b np" "holds b1 np ng" "PinCount b1 = (PinCount b)(np := PinCount b np + 1)"
    "unat (num_pages (meta (pager b1))) \<le> unat (num_pages (meta (pager b))) + 1"
    "if zs = [] then nk = [] else nk = fst (zs ! ?i) \<and> int_page (pview b1 pp) (take ?i zs) (snd (zs ! ?i))"
    "int_page (pview b1 np) (drop (Suc ?i) zs) rm"
    using SplitInternal_ok [OF ok h pg n sp] by blast
  have ok1: "pool_ok b1" "holds b1 pp g" using wroteD(1,4) [OF S(1)] h by auto
  have ne: "zs \<noteq> []"
  proof
    assume e: "zs = []"
    then have "InsertInternalAfterSplit (gpage b1 ng) sk l r = (True, q)" "int_page (pview b1 np) [] rm" using S(6,7) tg ins by simp_all
    then show False
      using insert_at_guard(3) [OF ok h pg nin sz sc fail e] insert_at_guard(3) [OF ok1(1) S(3) _ _ sz, of "[]" rm l r] by simp
  qed
  then have nk: "nk = fst (zs ! ?i)" and lp: "int_page (pview b1 pp) (take ?i zs) (snd (zs ! ?i))"
    using S(6) by simp_all
  have il: "?i < length zs" using ne by (cases zs) auto
  define m where "m = (if sk < fst (zs ! ?i) then Suc ?i else ?i)"
  note H = halves_after_insert [OF il so nin sc m_def]
  have ppnp: "pp \<noteq> np" using S(2) pc.holds_page [OF ok h] by auto
  have sub: "sk \<notin> fst ` set (take j zs)" "sk \<notin> fst ` set (drop j zs)" for j
    using nin by (meson image_mono set_take_subset set_drop_subset subsetD)+
  have lv: "live_page b1 pp" "live_page b1 np" using pc.holds_page [OF ok1] pc.holds_page [OF ok1(1) S(3)] by auto
  have "s = kOk \<and> wrote {pp} b b2 \<and> PinCount b2 = PinCount b1 \<and> meta (pager b2) = meta (pager b1) \<and> holds b2 np ng \<and>
      int_page (pview b2 pp) (take m zs2) (snd (zs2 ! m)) \<and> int_page (pview b2 np) (drop (Suc m) zs2) rm2"
  proof (cases "sk < nk")
    case True
    then have tgt: "target = g" and sl: "split_child (take ?i zs) (snd (zs ! ?i)) sk l r = (take m zs2, snd (zs2 ! m))"
      "drop (Suc ?i) zs = drop (Suc m) zs2" "rm2 = rm" using tg H(3) nk by auto
    have q: "int_page q (take m zs2) (snd (zs2 ! m))" "mem_ok q" using insert_at_guard(1) [OF ok1 lp sub(1) sz sl(1) ins [unfolded tgt]] by auto
    note gi = guard_image [OF ok1 q(2) lg [unfolded tgt]]
    have "pview b2 np = pview b1 np" using wroteD(3) [OF gi(2) lv(2)] ppnp by simp
    then show ?thesis using gi q(1) sl S(3,7) wrote_trans [OF S(1) gi(2)] wroteD(4) [OF gi(2)] by auto
  next
    case False
    then have tgt: "target = ng" and sr: "split_child (drop (Suc ?i) zs) rm sk l r = (drop (Suc m) zs2, rm2)" "take ?i zs = take m zs2" "zs ! ?i = zs2 ! m"
      using tg H(4) nk by auto
    have q: "int_page q (drop (Suc m) zs2) rm2" "mem_ok q" using insert_at_guard(1) [OF ok1(1) S(3,7) sub(2) sz sr(1) ins [unfolded tgt]] by auto
    note gi = guard_image [OF ok1(1) S(3) q(2) lg [unfolded tgt]]
    have "wrote {pp} b b2" using wrote_fresh [OF _ S(2)] wrote_trans [OF S(1) gi(2)] by (simp add: insert_commute)
    moreover have "pview b2 pp = pview b1 pp" using wroteD(3) [OF gi(2) lv(1)] ppnp by simp
    ultimately show ?thesis using gi q(1) sr lp S(3) wroteD(4) [OF gi(2)] by auto
  qed
  moreover have "length nk < 65000" using int_key_short [of "pview b pp" zs "zs ! ?i"] pg il nk by (simp add: int_page_def)
  moreover have "gid b1 g = pp" "gid b1 ng = np" using gpage_view(3) [OF ok1] gpage_view(3) [OF ok1(1) S(3)] by auto
  ultimately show ?thesis using S(2,4,5) H(1,2) nk by (intro exI [of _ np] exI [of _ m]) simp
qed

lemma split_and_insert:
  assumes f: "forest b ((pp, ls, rs) # cs) h1 sk h2" and h: "holds b pp g" and sz: "length sk < 65000"
    and n: "unat (num_pages (meta (pager b))) + 1 < 2 ^ 32"
    and fail: "InsertInternalAfterSplit (gpage b g) sk (troot h1) (troot h2) = (False, q0)"
    and sp: "SplitInternal g tx b = (Inr (ng, nk), b1)"
    and tg: "target = (if sk < nk then g else ng)"
    and ins: "InsertInternalAfterSplit (gpage b1 target) sk (troot h1) (troot h2) = (True, q)"
    and lg: "LogPageImage (set_gpage b1 target q) target tx oe = (s, b2)"
  shows "\<exists>np L R. s = kOk \<and> wrote {pp} b b2 \<and> gid b1 g = pp \<and> gid b1 ng = np \<and> troot L = pp \<and> troot R = np \<and> holds b2 np ng \<and>
    PinCount b2 = (PinCount b)(np := PinCount b np + 1) \<and> unat (num_pages (meta (pager b2))) \<le> unat (num_pages (meta (pager b))) + 1 \<and>
    length nk < 65000 \<and> forest b2 cs L nk R \<and>
    lleaves cs @ leaves L @ leaves R @ rleaves cs = lleaves ((pp, ls, rs) # cs) @ leaves h1 @ leaves h2 @ rleaves ((pp, ls, rs) # cs)"
proof -
  define ts where "ts = ls @ fst (slide h1 ((sk, h2) # rs))"
  define u where "u = snd (slide h1 ((sk, h2) # rs))"
  note P = forest_parent [OF f refl refl, folded ts_def u_def]
  obtain np m where M: "s = kOk" "wrote {pp} b b2" "gid b1 g = pp" "gid b1 ng = np" "\<not> live_page b np" "holds b2 np ng"
    "PinCount b2 = (PinCount b)(np := PinCount b np + 1)" "unat (num_pages (meta (pager b2))) \<le> unat (num_pages (meta (pager b))) + 1"
    "length nk < 65000" "m < length (roots ts)" "nk = fst (roots ts ! m)"
    "int_page (pview b2 pp) (take m (roots ts)) (snd (roots ts ! m))" "int_page (pview b2 np) (drop (Suc m) (roots ts)) (troot u)"
    using split_pages [OF P(1) h P(2-4) sz P(5) n fail sp tg ins lg] by blast
  have ml: "m < length ts" using M(10) by simp
  have nth: "roots ts ! m = (fst (ts ! m), troot (snd (ts ! m)))" using ml by (simp add: case_prod_beta')
  have lv: "live_page b2 np" using pc.holds_page [OF wroteD(1) [OF M(2)] M(6)] by blast
  have pgs: "int_page (pview b2 pp) (roots (take m ts)) (troot (snd (ts ! m)))" "int_page (pview b2 np) (roots (drop (Suc m) ts)) (troot u)"
    using M(12,13) nth by (simp_all add: take_map drop_map)
  note F = forest_split [OF f M(2) ts_def u_def ml M(5) lv pgs]
  show ?thesis using M(1-4,6-9) M(11) nth F by (intro exI [of _ np] exI) auto
qed

text \<open>The separator moves up until a parent takes it, or a new root does.\<close>

lemma propagate_ok:
  assumes "forest b cs h1 sk h2" and "path_held b cs stack" and "owns b f (G @ ops)" and "length sk < 65000"
    and "unat (num_pages (meta (pager b))) + length cs + 1 < 2 ^ 32"
    and "propagate stack sk (troot h1) (troot h2) tx ops b = (s, ops', b')"
  shows "if s = kOk then \<exists>t'. tree_ok b' t' \<and> entries t' = lents cs @ entries h1 @ entries h2 @ rents cs \<and> owns b' f (G @ ops') \<and>
    num_keys (meta (pager b')) = num_keys (meta (pager b)) else io_error s"
  using assms
proof (induction cs arbitrary: b h1 sk h2 stack ops)
  case Nil
  have ok: "pool_ok b" using Nil.prems(1) by (simp add: forest_def)
  have st: "stack = []" using Nil.prems(2) by simp
  have cr: "CreateNewRoot sk (troot h1) (troot h2) tx b = (s, b')" "ops' = ops" using Nil.prems(6) st by (auto split: prod.splits)
  have n: "unat (num_pages (meta (pager b))) + 1 < 2 ^ 32" using Nil.prems(5) by simp
  show ?case
  proof (cases "s = kOk")
    case True
    obtain r where r: "tree_ok b' (Nd r [(sk, h1)] h2)" "PinCount b' = PinCount b" "num_keys (meta (pager b')) = num_keys (meta (pager b))"
    "\<forall>q h. holds b q h \<longrightarrow> holds b' q h" using CreateNewRoot_ok [OF Nil.prems(1,4) n cr(1) [unfolded True]] by blast
    have "owns b' f (G @ ops)" by (rule owns_same [OF ok _ Nil.prems(3) _ r(2)]) (use r in \<open>auto simp: tree_ok_def\<close>)
    then show ?thesis using r cr(2) True by (auto intro!: exI [of _ "Nd r [(sk, h1)] h2"])
  qed (use CreateNewRoot_error [OF ok cr(1)] in simp)
next
  case (Cons c cs)
  obtain pp ls rs where c: "c = (pp, ls, rs)" by (cases c)
  obtain g stack' where st: "stack = g # stack'" "holds b pp g" "path_held b cs stack'" using Cons.prems(2) c by auto
  note F = Cons.prems(1) [unfolded c]
  note P = forest_parent [OF F refl refl]
  obtain ins p where ip: "InsertInternalAfterSplit (gpage b g) sk (troot h1) (troot h2) = (ins, p)" by fastforce
  note ig = insert_at_guard [OF P(1) st(2) P(2,3) Cons.prems(4) P(5) ip]
  show ?case
  proof (cases ins)
    case True
    obtain s' b1 where lg: "LogPageImage (set_gpage b g p) g tx True = (s', b1)" by fastforce
    have b': "b' = b1" "ops' = ops" "s = s'" using Cons.prems(6) st(1) ip True lg by (auto simp: Let_def)
    note gi = guard_image [OF P(1) st(2) conjunct2 [OF ig(1) [OF True]] lg]
    have pg: "int_page (pview b1 pp) (roots (ls @ fst (slide h1 ((sk, h2) # rs)))) (troot (snd (slide h1 ((sk, h2) # rs))))"
      using gi(3) ig(1) [OF True] by auto
    note A = forest_absorb [OF F gi(2) refl refl pg]
    have "owns b1 f (G @ ops)" by (rule owns_wrote [OF P(1) Cons.prems(3) gi(2,4)])
    moreover have "entries (plug cs (Nd pp (ls @ fst (slide h1 ((sk, h2) # rs))) (snd (slide h1 ((sk, h2) # rs))))) =
        lents (c # cs) @ entries h1 @ entries h2 @ rents (c # cs)" unfolding entries_def A(2) c by simp
    ultimately show ?thesis using A(1) gi(1,5) b' by (metis (no_types, lifting))
  next
    case False
    then have p: "p = gpage b g" and ipf: "InsertInternalAfterSplit (gpage b g) sk (troot h1) (troot h2) = (False, p)" using ig(2) ip by simp_all
    have pr: "propagate stack sk (troot h1) (troot h2) tx ops b =
        (case SplitInternal g tx b of
          (Inl s, b) \<Rightarrow> (s, ops, b)
        | (Inr (ng, new_split_key), b) \<Rightarrow>
            (case InsertInternalAfterSplit (gpage b (if sk < new_split_key then g else ng)) sk (troot h1) (troot h2) of (ins, p) \<Rightarrow>
               let t = (if sk < new_split_key then g else ng); b' = set_gpage b t p in
               if \<not> ins then (kInternal, ng # ops, b')
               else case LogPageImage b' t tx False of (s, b'') \<Rightarrow>
                 if s \<noteq> kOk then (s, ng # ops, b'')
                 else propagate stack' new_split_key (gid b g) (gid b ng) tx (ng # ops) b''))"
      unfolding st(1) propagate.simps ip prod.case Let_def p set_gpage_same using False by simp
    show ?thesis
    proof (cases "\<exists>ng nk b1. SplitInternal g tx b = (Inr (ng, nk), b1)")
      case False
      then obtain e b1 where "SplitInternal g tx b = (Inl e, b1)" by (metis old.sum.exhaust surj_pair)
      then show ?thesis using Cons.prems(6) SplitInternal_error [OF P(1)] unfolding pr by auto
    next
      case True
      then obtain ng nk b1 where sp: "SplitInternal g tx b = (Inr (ng, nk), b1)" by blast
    define t where "t = (if sk < nk then g else ng)"
    obtain ins2 q where q: "InsertInternalAfterSplit (gpage b1 t) sk (troot h1) (troot h2) = (ins2, q)" by fastforce
    show ?thesis
    proof (cases ins2)
      case False
      then show ?thesis using Cons.prems(6) q unfolding pr sp prod.case sum.case Let_def t_def [symmetric] by auto
    next
      case True
      note q = q [unfolded eqTrueI [OF True]]
    obtain s2 b2 where lg: "LogPageImage (set_gpage b1 t q) t tx False = (s2, b2)" by fastforce
    have n: "unat (num_pages (meta (pager b))) + 1 < 2 ^ 32" using Cons.prems(5) by simp
    obtain np L R where S: "s2 = kOk" "wrote {pp} b b2" "gid b1 g = pp" "gid b1 ng = np" "troot L = pp" "troot R = np" "holds b2 np ng"
      "PinCount b2 = (PinCount b)(np := PinCount b np + 1)" "unat (num_pages (meta (pager b2))) \<le> unat (num_pages (meta (pager b))) + 1"
      "length nk < 65000" "forest b2 cs L nk R"
      "lleaves cs @ leaves L @ leaves R @ rleaves cs = lleaves ((pp, ls, rs) # cs) @ leaves h1 @ leaves h2 @ rleaves ((pp, ls, rs) # cs)"
      using split_and_insert [OF F st(2) Cons.prems(4) n ipf sp t_def q lg] by blast
    have rec: "propagate stack' nk (troot L) (troot R) tx (ng # ops) b2 = (s, ops', b')"
      using Cons.prems(6) unfolding pr sp prod.case sum.case Let_def t_def [symmetric] q lg S(1,3-6) by simp
    have ow: "owns b2 f (G @ ng # ops)"
      by (rule owns_perm [OF owns_wrote_more [OF P(1) Cons.prems(3) S(2,7,8)]]) simp
    have ph: "path_held b2 cs stack'" by (rule path_held_mono [OF st(3)]) (rule wroteD(4) [OF S(2)])
    have nn: "unat (num_pages (meta (pager b2))) + length cs + 1 < 2 ^ 32" using S(9) Cons.prems(5) by simp
    note IH = Cons.IH [OF S(11) ph ow S(10) nn rec]
    moreover have "lents cs @ entries L @ entries R @ rents cs = lents (c # cs) @ entries h1 @ entries h2 @ rents (c # cs)"
      using arg_cong [OF S(12), of "\<lambda>l. concat (map snd l)"] c by (simp add: entries_def)
    ultimately show ?thesis using wroteD(6) [OF S(2)] by (simp split: if_splits)
      qed
    qed
  qed
qed

subsection \<open>Splitting a leaf\<close>

text \<open>Pages with the same node on them, whatever their LSN, checksum and backward link.\<close>

definition same_node :: "Page \<Rightarrow> Page \<Rightarrow> bool" where
  "same_node q p \<longleftrightarrow> (\<forall>es. leaf_rep q es = leaf_rep p es) \<and> (\<forall>zs rm. int_page q zs rm = int_page p zs rm) \<and> GetNextLeaf q = GetNextLeaf p"

lemma same_node_prev: "same_node (SetPrevLeaf p n) p"
proof -
  have "int_rep (SetPrevLeaf p n) zs = int_rep p zs" for zs
    by (simp add: int_rep_def page_ok_hdr IsInternal_def SetPrevLeaf_def)
  then show ?thesis by (simp add: same_node_def int_page_def) (simp add: SetPrevLeaf_def GetRightmostChild_def GetNextLeaf_def dead_def)
qed

lemma rep_same: "(\<And>p. p \<in> set (pages t) \<Longrightarrow> same_node (v' p) (v p)) \<Longrightarrow> rep v' t = rep v t"
proof (induction t)
  case (Nd p ts t)
  have "rep v' c = rep v c" if "(s, c) \<in> set ts" for s c
    by (rule Nd.IH(1) [OF that, of c]) (use Nd.prems that in auto)
  moreover have "rep v' t = rep v t" using Nd.IH(2) Nd.prems by simp
  ultimately show ?case using Nd.prems [of p] by (auto simp: same_node_def)
qed (simp add: same_node_def)

lemma crep_same:
  assumes "\<And>p. p \<in> set (cpages cs) \<Longrightarrow> same_node (v' p) (v p)"
  shows "crep v' cs i = crep v cs i"
  using assms
proof (induction cs arbitrary: i)
  case (Cons c cs)
  obtain p ls rs where c: "c = (p, ls, rs)" by (cases c)
  have "rep v' d = rep v d" if "(s, d) \<in> set ls \<union> set rs" for s d
    by (rule rep_same) (use Cons.prems that c in fastforce)
  then have "(\<forall>(s, d) \<in> set ls \<union> set rs. rep v' d) = (\<forall>(s, d) \<in> set ls \<union> set rs. rep v d)" by blast
  moreover have "same_node (v' p) (v p)" using Cons.prems c by simp
  ultimately show ?case using Cons c by (simp add: same_node_def)
qed simp

lemma forest_same:
  assumes f: "forest b cs h1 sk h2" and w: "wrote S b b'" and s: "\<And>j. live_page b j \<Longrightarrow> same_node (pview b' j) (pview b j)"
  shows "forest b' cs h1 sk h2"
proof -
  let ?P = "set (cpages cs) \<union> set (pages h1) \<union> set (pages h2)"
  have lv: "live_page b j" if "j \<in> ?P" for j using f that by (simp add: forest_def)
  have "rep (pview b') h = rep (pview b) h" if "set (pages h) \<subseteq> ?P" for h by (rule rep_same) (use that s lv in blast)
  then have r: "rep (pview b') h1 = rep (pview b) h1" "rep (pview b') h2 = rep (pview b) h2" by auto
  have c: "crep (pview b') cs i = crep (pview b) cs i" for i by (rule crep_same) (use s lv in blast)
  have "p \<in> ?P" if "p \<in> set (map fst (lleaves cs @ leaves h1 @ leaves h2 @ rleaves cs))" for p
    using that leaf_ids_pages [of h1] leaf_ids_pages [of h2] crumb_leaf_ids [of cs] unfolding map_append set_append by blast
  then have "linked (pview b') (map fst (lleaves cs @ leaves h1 @ leaves h2 @ rleaves cs)) kInvalidPageId =
      linked (pview b) (map fst (lleaves cs @ leaves h1 @ leaves h2 @ rleaves cs)) kInvalidPageId"
    by (intro linked_cong) (use s lv in \<open>simp only: same_node_def\<close>)
  then show ?thesis using f wroteD(1,2,5) [OF w] r c unfolding forest_def by auto
qed

lemma relink_next_ok:
  assumes ok: "pool_ok b" and lv: "nx \<noteq> kInvalidPageId \<longrightarrow> live_page b nx" and o: "owns b f G" and res: "relink_next nx np tx b = (kOk, gs, b')"
  shows "wrote {nx} b b'" and "\<And>j. live_page b j \<Longrightarrow> same_node (pview b' j) (pview b j)" and "owns b' f (gs @ G)"
    and "meta (pager b') = meta (pager b)"
proof -
  have "wrote {nx} b b' \<and> (\<forall>j. live_page b j \<longrightarrow> same_node (pview b' j) (pview b j)) \<and> owns b' f (gs @ G) \<and> meta (pager b') = meta (pager b)"
  proof (cases "nx = kInvalidPageId")
    case True
    then show ?thesis using res ok o by (auto simp: relink_next_def wrote_def same_node_def)
  next
    case False
    note lv = lv [rule_format, OF False]
    obtain r b1 where ft: "FetchPageInternal b nx = (r, b1)" by fastforce
    obtain g where r: "r = Inr g"
      using res ft False pc.fetch_Inl [OF ok lv, of _ b1] by (cases r) (auto simp: relink_next_def io_error_def)
    note fk = pc.fetch_keeps [OF ok lv ft] and fr = pc.fetch_Inr [OF ok lv ft [unfolded r]]
    have h: "pool_ok b1" "holds b1 nx g" using fk fr by auto
    let ?q = "SetPrevLeaf (gpage b1 g) np"
    have mq: "mem_ok ?q" using gpage_view(2) [OF h] by simp
    obtain s b2 where lg: "LogPageImage (set_gpage b1 g ?q) g tx False = (s, b2)" by fastforce
    note gi = guard_image [OF h mq lg]
    have b': "b' = b2" "gs = [g]" using res ft r False lg gi(1) by (auto simp: relink_next_def)
    have w1: "wrote {} b b1" using fk by (simp add: wrote_def)
    have w: "wrote {nx} b b'" using wrote_trans [OF w1 gi(2)] b' by simp
    have sn: "same_node (pview b2 nx) (pview b nx)"
    proof -
      obtain x where "pview b2 nx = stamp (at_lsn ?q x) 0" using gi(3) by blast
      moreover have "stamp (gpage b1 g) 0 = pview b nx" using gpage_view(1) [OF h] fk lv by simp
      ultimately show ?thesis using same_node_prev [of "gpage b1 g" np] by (simp add: same_node_def int_page_def flip: \<open>stamp (gpage b1 g) 0 = pview b nx\<close>)
    qed
    have "same_node (pview b' j) (pview b j)" if "live_page b j" for j
      using wroteD(3) [OF w that] sn b' by (cases "j = nx") (auto simp: same_node_def)
    moreover have "owns b1 f (g # G)" by (rule owns_wrote_more [OF ok o w1]) (use fr in auto)
    then have "owns b' f (gs @ G)" using owns_wrote [OF h(1) _ gi(2,4)] b' by simp
    ultimately show ?thesis using w gi(5) fk b' by simp
  qed
  then show "wrote {nx} b b'" "\<And>j. live_page b j \<Longrightarrow> same_node (pview b' j) (pview b j)" "owns b' f (gs @ G)"
    "meta (pager b') = meta (pager b)" by blast+
qed

lemma leaf_entries_map:
  assumes "leaf_rep p es" and "j \<le> length es"
  shows "map (\<lambda>i. (GetKey p i, GetValueAt p i)) [i ..< j] = drop i (take j es)"
  using leaf_page_facts(2) [OF assms(1)] assms(2) by (intro nth_equalityI) auto

lemma forest_of_leaf:
  assumes t: "tree_ok b (plug cs (Lf p es))" and w: "wrote {p} b b'" and np: "\<not> live_page b np" "live_page b' np"
    and l: "leaf_rep (pview b' p) es1" "GetNextLeaf (pview b' p) = np"
    and r: "leaf_rep (pview b' np) es2" "GetNextLeaf (pview b' np) = GetNextLeaf (pview b p)"
    and es: "es = es1 @ es2" and lt: "\<forall>k \<in> fst ` set es1. k < sk" and ge: "\<forall>k \<in> fst ` set es2. sk \<le> k"
    and sa: "sabove (clo cs) sk" "below (chi cs) sk"
  shows "forest b' cs (Lf p es1) sk (Lf np es2)"
proof -
  have T: "rep (pview b) (Lf p es)" "crep (pview b) cs p" "cbnd cs" "bnd (clo cs) (chi cs) (Lf p es)" "distinct (cpages cs @ [p])"
    "\<forall>j \<in> insert p (set (cpages cs)). live_page b j" "root_page_id (meta (pager b)) = troot (plug cs (Lf p es))"
    and lk: "linked (pview b) (map fst (lleaves cs) @ p # map fst (rleaves cs)) kInvalidPageId"
    using t by (auto simp: tree_ok_def rep_plug bnd_plug pages_plug leaves_plug)
  have vw: "pview b' j = pview b j" if "j \<in> set (cpages cs)" for j using wroteD(3) [OF w] T(5,6) that by auto
  have pnp: "np \<noteq> p" "np \<notin> set (cpages cs)" using np(1) T(6) by auto
  have "linked (pview b') (map fst xs) z = linked (pview b) (map fst xs) z" if "set (map fst xs) \<subseteq> set (cpages cs)" for xs z
    by (rule linked_cong) (use that vw in auto)
  then have ll: "linked (pview b') (map fst (lleaves cs)) p" "linked (pview b') (map fst (rleaves cs)) kInvalidPageId"
    using lk crumb_leaf_ids [of cs] by (auto simp: linked_append)
  have "GetNextLeaf (pview b p) = (case map fst (rleaves cs) of [] \<Rightarrow> kInvalidPageId | q # _ \<Rightarrow> q)"
    using lk by (simp add: linked_append)
  then have "linked (pview b') (map fst (lleaves cs) @ p # np # map fst (rleaves cs)) kInvalidPageId"
    using ll l(2) r(2) by (simp add: linked_append)
  moreover have "crep (pview b') cs p" using T(2) crep_cong [of cs "pview b'" "pview b" p] vw by simp
  moreover have "bnd (clo cs) (Some sk) (Lf p es1)" "bnd (Some sk) (chi cs) (Lf np es2)"
    using T(4) lt ge sa unfolding es by (auto simp: bound_defs)
  moreover have "np \<noteq> kInvalidPageId" "p \<noteq> kInvalidPageId" using live_not_invalid [OF np(2)] T(6) live_not_invalid by auto
  moreover have "root_page_id (meta (pager b')) = troot (plug cs (Lf p es1))" using T(7) wroteD(5) [OF w] by (simp add: troot_plug)
  ultimately show ?thesis
    using T(3,5,6) sa pnp l(1) r(1) np(2) wroteD(1,2) [OF w] unfolding forest_def bnd_plug by auto
qed

text \<open>The pages of the two halves, before the old right sibling is relinked.\<close>

lemma SplitLeaf_pages:
  assumes ok: "pool_ok b" and h: "holds b p g" and rp: "leaf_rep (pview b p) es" and n: "unat (num_pages (meta (pager b))) + 1 < 2 ^ 32"
    and ne: "es \<noteq> []" and res: "\<forall>s gs b'. SplitLeaf g tx b = (Inl s, gs, b') \<longrightarrow> \<not> io_error s"
  defines "i \<equiv> length es div 2"
  shows "\<exists>np ng b4. wrote {p} b b4 \<and> \<not> live_page b np \<and> holds b4 np ng \<and> PinCount b4 = (PinCount b)(np := PinCount b np + 1) \<and>
    unat (num_pages (meta (pager b4))) \<le> unat (num_pages (meta (pager b))) + 1 \<and>
    leaf_rep (pview b4 p) (take i es) \<and> GetNextLeaf (pview b4 p) = np \<and>
    leaf_rep (pview b4 np) (drop i es) \<and> GetNextLeaf (pview b4 np) = GetNextLeaf (pview b p) \<and>
    SplitLeaf g tx b = (case relink_next (GetNextLeaf (pview b p)) np tx b4 of (s, gs, b') \<Rightarrow>
      if s \<noteq> kOk then (Inl s, gs, ReleaseGuard b' ng) else (Inr (ng, fst (es ! i)), gs, b'))"
proof -
  have il: "i < length es" using ne by (cases es) (auto simp: i_def)
  have nr: "leaf_rep (gpage b g) es" using rp gpage_leaf(1) [OF ok h] by simp
  have so: "sorted_wrt (<) (map fst es)" using nr by (simp add: leaf_rep_def)
  have nk: "NumKeys (gpage b g) = length es" "GetKey (gpage b g) i = fst (es ! i)" using leaf_page_facts(1,2) [OF nr] il by auto
  obtain x b1 where x: "NewPage b = (x, b1)" by fastforce
  then obtain ng np where nw: "NewPage b = (Inr (ng, np), b1)"
    using res NewPage_error [OF ok, of _ b1] by (cases x) (auto simp: SplitLeaf_def Let_def)
  note w1 = wrote_new [OF ok n nw]
  obtain w where le: "LogPageEvent b1 kAllocPage tx np False = (kOk, b1\<lparr>wal := w\<rparr>)" using LogPageEvent_wal by blast
  let ?b2 = "b1\<lparr>wal := w\<rparr>"
  have ok2: "pool_ok ?b2" "holds ?b2 p g" "holds ?b2 np ng" using w1(3) wroteD(1,4) [OF w1(1)] h by auto
  have gi: "gid b1 g = p" using gpage_view(3) [OF ok2(1,2)] by simp
  let ?nx = "GetNextLeaf (gpage b g)" and ?pv = "GetPrevLeaf (gpage b g)"
  let ?lp0 = "SetNextLeaf (SetPrevLeaf (InitLeaf (Page_Init p kLeaf)) ?pv) np"
  let ?rp0 = "SetNextLeaf (SetPrevLeaf (InitLeaf (Page_Init np kLeaf)) p) ?nx"
  have L: "map (\<lambda>i. (GetKey (gpage b g) i, GetValueAt (gpage b g) i)) [0 ..< i] = take i es"
    and R: "map (\<lambda>i. (GetKey (gpage b g) i, GetValueAt (gpage b g) i)) [i ..< length es] = drop i es"
    using leaf_entries_map [OF nr, of i 0] leaf_entries_map [OF nr, of "length es" i] il by simp_all
  have r: "SplitLeaf g tx b =
      (case fill_leaf ?lp0 (take i es) of (lfit, lp) \<Rightarrow>
         if \<not> lfit then (Inl kInternal, [], ReleaseGuard (set_gpage ?b2 g lp) ng)
         else case LogPageImage (set_gpage ?b2 g lp) g tx False of (s, b) \<Rightarrow>
         if s \<noteq> kOk then (Inl s, [], ReleaseGuard b ng)
         else case fill_leaf ?rp0 (drop i es) of (rfit, rp) \<Rightarrow>
         if \<not> rfit then (Inl kInternal, [], ReleaseGuard (set_gpage b ng rp) ng)
         else case LogPageImage (set_gpage b ng rp) ng tx False of (s, b) \<Rightarrow>
         if s \<noteq> kOk then (Inl s, [], ReleaseGuard b ng)
         else case relink_next ?nx np tx b of (s, gs, b) \<Rightarrow>
         if s \<noteq> kOk then (Inl s, gs, ReleaseGuard b ng) else (Inr (ng, fst (es ! i)), gs, b))"
    unfolding SplitLeaf_def Let_def nk(1) i_def [symmetric] nk(2) nw prod.case sum.case le L R wal_simps(7) gi by simp
  obtain lfit lp where lf: "fill_leaf ?lp0 (take i es) = (lfit, lp)" by fastforce
  then have lp: "fill_leaf ?lp0 (take i es) = (True, lp)" using res unfolding r by (cases lfit) auto
  obtain s3 b3 where li: "LogPageImage (set_gpage ?b2 g lp) g tx False = (s3, b3)" by fastforce
  have sh: "\<forall>(k, v) \<in> set (take i es). length k + length v \<le> 4044" "\<forall>(k, v) \<in> set (drop i es). length k + length v \<le> 4044"
    using leaf_entry_bound [OF nr] by (auto dest: in_set_takeD in_set_dropD)
  have ap: "map fst es = map fst (take i es) @ map fst (drop i es)" by (simp flip: map_append)
  have ss: "sorted_wrt (<) (map fst ([] @ take i es))" "sorted_wrt (<) (map fst ([] @ drop i es))"
    using so unfolding ap sorted_wrt_append by simp_all
  have lpage: "leaf_rep lp (take i es)" "mem_ok lp" "GetNextLeaf lp = np"
    using fill_leaf_ok [OF empty_nodes(6,5) ss(1) sh(1) lp] by (simp_all add: SetNextLeaf_def GetNextLeaf_def)
  note w3 = guard_image [OF ok2(1,2) lpage(2) li]
  have ok3: "pool_ok b3" "holds b3 np ng" "live_page ?b2 p" using wroteD(1,4) [OF w3(2)] ok2(3) pc.holds_page [OF ok2(1,2)] by auto
  obtain rfit rp where rf: "fill_leaf ?rp0 (drop i es) = (rfit, rp)" by fastforce
  then have rp: "fill_leaf ?rp0 (drop i es) = (True, rp)" using res lp li w3(1) unfolding r by (cases rfit) auto
  obtain s4 b4 where ri: "LogPageImage (set_gpage b3 ng rp) ng tx False = (s4, b4)" by fastforce
  have rpage: "leaf_rep rp (drop i es)" "mem_ok rp" "GetNextLeaf rp = ?nx"
    using fill_leaf_ok [OF empty_nodes(6,5) ss(2) sh(2) rp] by (simp_all add: SetNextLeaf_def GetNextLeaf_def)
  note w4 = guard_image [OF ok3(1,2) rpage(2) ri]
  have rl: "SplitLeaf g tx b = (case relink_next ?nx np tx b4 of (s, gs, b') \<Rightarrow>
      if s \<noteq> kOk then (Inl s, gs, ReleaseGuard b' ng) else (Inr (ng, fst (es ! i)), gs, b'))"
    unfolding r lp li rp ri w3(1) w4(1) prod.case by simp
  have pnp: "p \<noteq> np" using w1(2) pc.holds_page [OF ok h] by auto
  have "wrote {} b ?b2" using wrote_trans [OF w1(1) wrote_wal [of b1 w]] ok2(1) by simp
  from wrote_trans [OF wrote_trans [OF this w3(2)] w4(2)] have wr: "wrote {p} b b4"
    using wrote_fresh [OF _ w1(2)] by (simp add: insert_commute)
  have v4: "pview b4 p = pview b3 p" using wroteD(3) [OF w4(2)] wroteD(2) [OF w3(2) ok3(3)] pnp by simp
  have pins: "PinCount b4 = (PinCount b)(np := PinCount b np + 1)" using w4(4) w3(4) w1(4) by simp
  have h4: "holds b4 np ng" using wroteD(4) [OF w4(2) ok3(2)] .
  have "leaf_rep (pview b4 p) (take i es)" "GetNextLeaf (pview b4 p) = np" "leaf_rep (pview b4 np) (drop i es)" "GetNextLeaf (pview b4 np) = ?nx"
    using w3(3) w4(3) lpage rpage v4 by auto
  moreover have "unat (num_pages (meta (pager b4))) \<le> unat (num_pages (meta (pager b))) + 1" using w4(5) w3(5) w1(5) by simp
  ultimately show ?thesis using rl wr w1(2) h4 pins gpage_leaf(3) [OF ok h] by (intro exI [of _ np] exI [of _ ng] exI [of _ b4]) simp
qed

lemma sorted_halves:
  assumes "sorted_wrt (<) (map fst (es :: (key \<times> bytes) list))" and "i < length es"
  shows "\<forall>k \<in> fst ` set (take i es). k < fst (es ! i)" and "\<forall>k \<in> fst ` set (drop i es). fst (es ! i) \<le> k"
proof -
  have s: "sorted_wrt (<) (map fst (take i es @ es ! i # drop (Suc i) es))" using assms id_take_nth_drop by metis
  then show "\<forall>k \<in> fst ` set (take i es). k < fst (es ! i)" by (auto simp: sorted_wrt_append)
  have "drop i es = es ! i # drop (Suc i) es" using assms(2) by (simp add: Cons_nth_drop_Suc)
  moreover have "\<forall>k \<in> fst ` set (es ! i # drop (Suc i) es). fst (es ! i) \<le> k" using s by (auto simp: sorted_wrt_append intro: less_imp_le)
  ultimately show "\<forall>k \<in> fst ` set (drop i es). fst (es ! i) \<le> k" by metis
qed

lemma relink_next_error:
  assumes "pool_ok b" and "nx \<noteq> kInvalidPageId \<longrightarrow> live_page b nx" and "relink_next nx np tx b = (s, gs, b')" and "s \<noteq> kOk"
  shows "io_error s"
proof -
  obtain r b1 where ft: "FetchPageInternal b nx = (r, b1)" by fastforce
  have "LogPageImage b g tx oe = (s, y) \<Longrightarrow> s = kOk" for b g tx oe s y using LogPage_status(1) by (metis fst_conv)
  then show ?thesis
    using assms(2-4) ft pc.fetch_Inl [OF assms(1), of nx _ b1] by (cases r) (auto simp: relink_next_def split: if_splits prod.splits)
qed

text \<open>The right sibling of a leaf of the tree is a leaf of the tree.\<close>

lemma next_leaf_live:
  assumes t: "tree_ok b (plug cs (Lf p es))" and "GetNextLeaf (pview b p) \<noteq> kInvalidPageId"
  shows "live_page b (GetNextLeaf (pview b p))"
proof -
  have "GetNextLeaf (pview b p) = (case map fst (rleaves cs) of [] \<Rightarrow> kInvalidPageId | q # _ \<Rightarrow> q)"
    using t by (simp add: tree_ok_def leaves_plug linked_append)
  then have "GetNextLeaf (pview b p) \<in> set (map fst (rleaves cs))" using assms(2) by (cases "map fst (rleaves cs)") auto
  then have "GetNextLeaf (pview b p) \<in> set (pages (plug cs (Lf p es)))" using crumb_leaf_ids [of cs] unfolding pages_plug by blast
  then show ?thesis using t by (simp add: tree_ok_def)
qed

lemma SplitLeaf_ok:
  assumes t: "tree_ok b (plug cs (Lf p es))" and h: "holds b p g" and n: "unat (num_pages (meta (pager b))) + 1 < 2 ^ 32"
    and ne: "es \<noteq> []" and o: "owns b f G" and res: "SplitLeaf g tx b = (r, gs, b')"
  defines "i \<equiv> length es div 2"
  shows "case r of Inl s \<Rightarrow> io_error s | Inr (ng, sk) \<Rightarrow> \<exists>np S. sk = fst (es ! i) \<and> wrote S b b' \<and> holds b' np ng \<and> owns b' f (ng # gs @ G) \<and>
    unat (num_pages (meta (pager b'))) \<le> unat (num_pages (meta (pager b))) + 1 \<and> leaf_rep (pview b' p) (take i es) \<and> leaf_rep (pview b' np) (drop i es) \<and>
    (sabove (clo cs) sk \<longrightarrow> forest b' cs (Lf p (take i es)) sk (Lf np (drop i es)))"
proof (cases "\<exists>s. r = Inl s \<and> io_error s")
  case False
  have ok: "pool_ok b" and rp: "leaf_rep (pview b p) es" using t by (simp_all add: tree_ok_def rep_plug)
  have il: "i < length es" using ne by (cases es) (auto simp: i_def)
  let ?nx = "GetNextLeaf (pview b p)" and ?sk = "fst (es ! i)"
  have "\<forall>s gs b'. SplitLeaf g tx b = (Inl s, gs, b') \<longrightarrow> \<not> io_error s" using False res by auto
  then obtain np ng b4 where S: "wrote {p} b b4" "\<not> live_page b np" "holds b4 np ng" "PinCount b4 = (PinCount b)(np := PinCount b np + 1)"
    "unat (num_pages (meta (pager b4))) \<le> unat (num_pages (meta (pager b))) + 1"
    "leaf_rep (pview b4 p) (take i es)" "GetNextLeaf (pview b4 p) = np"
    "leaf_rep (pview b4 np) (drop i es)" "GetNextLeaf (pview b4 np) = ?nx"
    "SplitLeaf g tx b = (case relink_next ?nx np tx b4 of (s, gs, b') \<Rightarrow>
      if s \<noteq> kOk then (Inl s, gs, ReleaseGuard b' ng) else (Inr (ng, ?sk), gs, b'))"
    using SplitLeaf_pages [OF ok h rp n ne] unfolding i_def by blast
  have ok4: "pool_ok b4" by (rule wroteD(1) [OF S(1)])
  have lvs: "live_page b4 p" "live_page b4 np" using wroteD(2) [OF S(1)] pc.holds_page [OF ok h] pc.holds_page [OF ok4 S(3)] by auto
  have o4: "owns b4 f (ng # G)" by (rule owns_wrote_more [OF ok o S(1,3,4)])
  have nlv: "?nx \<noteq> kInvalidPageId \<longrightarrow> live_page b4 ?nx" using next_leaf_live [OF t] wroteD(2) [OF S(1)] by blast
  obtain s gs' b5 where rl: "relink_next ?nx np tx b4 = (s, gs', b5)" by (metis prod_cases3)
  have sk: "s = kOk" using relink_next_error [OF ok4 nlv rl] res S(10) rl False by (cases "s = kOk") auto
  then have r: "r = Inr (ng, ?sk)" "gs' = gs" "b5 = b'" using res S(10) rl by auto
  note R = relink_next_ok [OF ok4 nlv o4 rl [unfolded sk r(2,3)]]
  have "forest b' cs (Lf p (take i es)) ?sk (Lf np (drop i es))" if sa: "sabove (clo cs) ?sk"
  proof -
    have so: "sorted_wrt (<) (map fst es)" using rp by (simp add: leaf_rep_def)
    have bl: "below (chi cs) ?sk" using t il by (auto simp: tree_ok_def bnd_plug)
    have "forest b4 cs (Lf p (take i es)) ?sk (Lf np (drop i es))"
      using forest_of_leaf [OF t S(1,2) lvs(2) S(6-9) _ _ _ sa bl] sorted_halves [OF so il] by simp
    then show ?thesis by (rule forest_same [OF _ R(1,2)])
  qed
  moreover have "leaf_rep (pview b' p) (take i es)" "leaf_rep (pview b' np) (drop i es)" using S(6,8) R(2) lvs by (auto simp: same_node_def)
  moreover have "owns b' f (ng # gs @ G)" using owns_perm [OF R(3), of "ng # gs @ G"] by simp
  moreover have "unat (num_pages (meta (pager b'))) \<le> unat (num_pages (meta (pager b))) + 1" using R(4) S(5) by simp
  ultimately show ?thesis using r(1) wrote_trans [OF S(1) R(1)] wroteD(4) [OF R(1) S(3)] by (auto intro!: exI [of _ np])
qed auto

end
