(* ===== verification/BTree_Store.thy ===== *)
theory BTree_Store
  imports BTree_Split
begin

section \<open>Put\<close>

text \<open>
  \<^verbatim>\<open>Put\<close> from its parts: the insertion after a leaf split, the pessimistic path under held guards, the optimistic attempt,
  and the first insertion into an empty tree. Every status is accounted for: success updates the stored
  entries, a record that is too long changes nothing, everything else is a storage error.
\<close>

subsection \<open>After a leaf split\<close>

lemma leaf_room:
  assumes "leaf_rep p es" and "leaf_rep q es"
  shows "room p = room q"
proof -
  have v: "slots_view p = slots_view q" "page_ok p" "page_ok q" using assms by (auto simp: leaf_rep_def)
  have "nslots p = nslots q" using leaf_rep_entries(1) [OF assms(1)] leaf_rep_entries(1) [OF assms(2)] by simp
  then show ?thesis using room_view [OF v(2)] room_view [OF v(3)] v(1) by simp
qed

lemma empty_leaf_room: "leaf_rep p [] \<Longrightarrow> room p = 4056"
  using room_view [of p] leaf_rep_entries(1) [of p "[]"] by (simp add: leaf_rep_def)

lemma guard_key_record:
  assumes ok: "pool_ok b" and h: "holds b p g" and q: "mem_ok q" and res: "LogKeyRecord (set_gpage b g q) t tx g k v bef oe undo = (s, b')"
  shows "s = kOk" and "wrote {p} b b'" and "\<exists>x. pview b' p = stamp (at_lsn q x) 0" and "PinCount b' = PinCount b"
    and "meta (pager b') = meta (pager b)"
proof -
  obtain x w where li: "LogKeyRecord (set_gpage b g q) t tx g k v bef oe undo = (kOk, (guard_write b g (at_lsn q x))\<lparr>wal := w\<rparr>)"
    using LogKeyRecord_write [OF holds_frame [OF ok h]] by blast
  note wg = wrote_guard [where x = x and w = w, OF ok h q]
  show "s = kOk" "wrote {p} b b'" "PinCount b' = PinCount b" "meta (pager b') = meta (pager b)" using res li wg by auto
  show "\<exists>x. pview b' p = stamp (at_lsn q x) 0" using res li wg(2) by auto
qed

text \<open>The two leaves of a split in progress, one of them rewritten.\<close>

lemma forest_leaves:
  assumes f: "forest b cs (Lf p es1) sk (Lf np es2)" and w: "wrote {x} b b'" and x: "x = p \<or> x = np"
    and l: "leaf_rep (pview b' p) es1'" "leaf_rep (pview b' np) es2'" and nx: "GetNextLeaf (pview b' x) = GetNextLeaf (pview b x)"
    and bd: "bnd (clo cs) (Some sk) (Lf p es1')" "bnd (Some sk) (chi cs) (Lf np es2')"
  shows "forest b' cs (Lf p es1') sk (Lf np es2')"
proof -
  have F: "crep (pview b) cs p" "cbnd cs" "sabove (clo cs) sk" "below (chi cs) sk" "distinct (cpages cs @ [p, np])"
    "\<forall>j \<in> insert p (insert np (set (cpages cs))). live_page b j" "p \<noteq> kInvalidPageId" "np \<noteq> kInvalidPageId"
    "root_page_id (meta (pager b)) = troot (plug cs (Lf p es1))"
    and lk: "linked (pview b) (map fst (lleaves cs @ leaves (Lf p es1) @ leaves (Lf np es2) @ rleaves cs)) kInvalidPageId"
    using f unfolding forest_def bnd_plug by auto
  have vw: "pview b' j = pview b j" if "j \<in> set (cpages cs)" for j using wroteD(3) [OF w] F(5,6) x that by auto
  have "GetNextLeaf (pview b' j) = GetNextLeaf (pview b j)" if "j \<in> set (map fst (lleaves cs @ leaves (Lf p es1) @ leaves (Lf np es2) @ rleaves cs))" for j
  proof -
    have "j \<in> insert p (insert np (set (cpages cs)))" using that crumb_leaf_ids [of cs] by auto
    then show ?thesis using wroteD(3) [OF w, of j] F(6) nx by (cases "j = x") auto
  qed
  then have "linked (pview b') (map fst (lleaves cs @ leaves (Lf p es1') @ leaves (Lf np es2') @ rleaves cs)) kInvalidPageId"
    using lk linked_cong [of "map fst (lleaves cs @ leaves (Lf p es1) @ leaves (Lf np es2) @ rleaves cs)" "pview b'" "pview b"] by simp
  moreover have "crep (pview b') cs p" using F(1) crep_cong [of cs "pview b'" "pview b" p] vw by simp
  moreover have "root_page_id (meta (pager b')) = troot (plug cs (Lf p es1'))" using F(9) wroteD(5) [OF w] by (simp add: troot_plug)
  ultimately show ?thesis using F l bd wroteD(1,2) [OF w] unfolding forest_def bnd_plug by auto
qed

lemma forest_count: "forest (b\<lparr>pager := AddToNumKeys (pager b) d\<rparr>) cs h1 sk h2 = forest b cs h1 sk h2"
  by (simp add: forest_def)

lemma owns_count: "owns (b\<lparr>pager := AddToNumKeys (pager b) d\<rparr>) f gs = owns b f gs"
proof -
  have "gid (b\<lparr>pager := AddToNumKeys (pager b) d\<rparr>) = gid b" by (simp add: gid_def fun_eq_iff)
  then show ?thesis by (simp add: owns_def)
qed

lemma path_count: "path_held (b\<lparr>pager := AddToNumKeys (pager b) d\<rparr>) cs gs = path_held b cs gs"
  by (simp add: path_held_def)

text \<open>
  Why the separator of a leaf split is strictly above the lower bound of the leaf: otherwise the leaf has one entry, all of it moves
  to the right half, and the insertion fails there as it did before.
\<close>

lemma split_key_above:
  assumes t: "tree_ok b (plug cs (Lf p es))" and ne: "es \<noteq> []" and sk: "sk = fst (es ! (length es div 2))"
    and k: "above (clo cs) k" and room: "leaf_rep pg es" "room pg < length k + length v + 12"
    and fit: "sk \<le> k \<Longrightarrow> leaf_rep q0 (drop (length es div 2) es) \<and> InsertLeaf q0 k v = (True, q)"
  shows "sabove (clo cs) sk"
proof (cases "length es = 1")
  case True
  then obtain e where e: "es = [e]" by (cases es) auto
  have "above (clo cs) (fst e)" using t e by (simp add: tree_ok_def bnd_plug)
  moreover have "clo cs \<noteq> Some (fst e)"
  proof
    assume c: "clo cs = Some (fst e)"
    then have "sk \<le> k" using k sk e by (simp add: above_def)
    then have "leaf_rep q0 es" "InsertLeaf q0 k v = (True, q)" using fit e by auto
    then show False using InsertLeaf_ok(1) [of q0 es k v True q] leaf_room [OF room(1), of q0] room(2) by simp
  qed
  ultimately show ?thesis using sk e by (auto simp: bound_defs split: option.splits)
next
  case False
  then have i: "0 < length es div 2" "length es div 2 < length es" using ne by (cases es; cases "tl es"; auto)+
  have "above (clo cs) (fst (es ! 0))" using t ne by (auto simp: tree_ok_def bnd_plug)
  moreover have "sorted_wrt (<) (map fst es)" using room(1) by (simp add: leaf_rep_def)
  then have "fst (es ! 0) < sk" using sorted_wrt_nth_less [of "(<)" "map fst es" 0 "length es div 2"] i sk ne nth_map [of 0 es fst] by simp
  ultimately show ?thesis by (auto simp: bound_defs split: option.splits)
qed

text \<open>The outcome of a write under the held guards \<open>G\<close>.\<close>

definition wrote_key :: "BufferPool \<Rightarrow> (key \<rightharpoonup> bytes) \<Rightarrow> key \<Rightarrow> bytes \<Rightarrow> u64 \<Rightarrow> (PageId \<Rightarrow> nat) \<Rightarrow> FrameId list \<Rightarrow> Status \<Rightarrow> BufferPool \<Rightarrow> bool" where
  "wrote_key b m k v d f G s b' \<longleftrightarrow>
     (if s = kOk then \<exists>t'. tree_ok b' t' \<and> map_of (entries t') = m(k \<mapsto> v) \<and> owns b' f G \<and>
        num_keys (meta (pager b')) = num_keys (meta (pager b)) + d
      else io_error s)"

text \<open>The insertion into the half where the key belongs.\<close>

lemma split_insert_leaf:
  assumes F1: "forest b1 cs (Lf p es1) sk (Lf np es2)" and k: "above (clo cs) k" "below (chi cs) k" "k \<notin> fst ` set es1"
    and q: "q = (if k < sk then p else np)" and h: "holds b1 q tg" and sz: "length k + length v < 65000"
    and i: "InsertLeaf (gpage b1 tg) k v = (True, pg)" and lk: "LogKeyRecord (set_gpage b1 tg pg) kPut tx tg k v bef oe undo = (s2, b2)"
  shows "s2 = kOk \<and> wrote {q} b1 b2 \<and> PinCount b2 = PinCount b1 \<and> meta (pager b2) = meta (pager b1) \<and>
    (\<exists>l r. forest b2 cs (Lf p l) sk (Lf np r) \<and> map_of (l @ r) = (map_of (es1 @ es2))(k \<mapsto> v))"
proof -
  have ok1: "pool_ok b1" and rp: "leaf_rep (pview b1 p) es1" "leaf_rep (pview b1 np) es2" and pnp: "p \<noteq> np"
    and lv: "live_page b1 p" "live_page b1 np"
    and B: "\<forall>j \<in> fst ` set es1. above (clo cs) j \<and> below (Some sk) j" "\<forall>j \<in> fst ` set es2. above (Some sk) j \<and> below (chi cs) j"
    using F1 unfolding forest_def bnd_plug by simp_all
  define e0 where "e0 = (if k < sk then es1 else es2)"
  have r0: "leaf_rep (gpage b1 tg) e0" using rp gpage_leaf(1) [OF ok1 h] q by (simp add: e0_def)
  note I = InsertLeaf_page [OF r0 gpage_view(2) [OF ok1 h] sz i, unfolded put_page_def]
  note K = guard_key_record [OF ok1 h _ lk]
  let ?e = "ins_at e0 k v"
  have v: "leaf_rep (pview b2 q) ?e" "GetNextLeaf (pview b2 q) = GetNextLeaf (pview b1 q)"
    using K(3) I gpage_leaf(3) [OF ok1 h] by auto
  have oth: "pview b2 j = pview b1 j" if "j \<noteq> q" "live_page b1 j" for j using wroteD(3) [OF K(2)] I that by simp
  let ?l = "if k < sk then ?e else es1" and ?r = "if k < sk then es2 else ?e"
  have lr: "leaf_rep (pview b2 p) ?l" "leaf_rep (pview b2 np) ?r" using v(1) oth lv rp pnp q by (cases "k < sk"; simp)+
  have kk: "fst ` set ?e \<subseteq> insert k (fst ` set e0)" using I by blast
  have "\<forall>j \<in> fst ` set ?l. above (clo cs) j \<and> below (Some sk) j"
  proof (cases "k < sk")
    case True
    then have "fst ` set ?l \<subseteq> insert k (fst ` set es1)" using kk by (simp add: e0_def)
    moreover have "below (Some sk) k" using True by (simp add: below_def)
    ultimately show ?thesis using B(1) k(1) by blast
  qed (use B(1) in simp)
  moreover have "\<forall>j \<in> fst ` set ?r. above (Some sk) j \<and> below (chi cs) j"
  proof (cases "k < sk")
    case False
    then have "fst ` set ?r \<subseteq> insert k (fst ` set es2)" using kk by (simp add: e0_def)
    moreover have "above (Some sk) k" using False by (simp add: above_def)
    ultimately show ?thesis using B(2) k(2) by blast
  qed (use B(2) in simp)
  ultimately have "forest b2 cs (Lf p ?l) sk (Lf np ?r)"
    using forest_leaves [OF F1 K(2) _ lr v(2)] I q by simp
  moreover have "map_of (?l @ ?r) = (map_of (es1 @ es2))(k \<mapsto> v)"
  proof
    fix j
    have "map_of es1 k = None" using k(3) by (simp add: map_of_eq_None_iff)
    moreover have "map_of ?e = (map_of e0)(k \<mapsto> v)" using I by blast
    ultimately show "map_of (?l @ ?r) j = ((map_of (es1 @ es2))(k \<mapsto> v)) j"
      unfolding fun_upd_apply map_of_append by (cases "k < sk") (auto simp: e0_def map_add_def split: option.split)
  qed
  ultimately show ?thesis using K I by blast
qed

lemma put_split_ok:
  assumes t: "tree_ok b (plug cs (Lf p es))" and k: "above (clo cs) k" "below (chi cs) k" "k \<notin> fst ` set es"
    and h: "holds b p leaf" and full: "room (gpage b leaf) < length k + length v + 12" and sz: "4 + length k + length v \<le> 4048"
    and ph: "path_held b cs stack" and o: "owns b f (leaf # stack)" and n: "unat (num_pages (meta (pager b))) + length cs + 2 < 2 ^ 32"
    and res: "put_split k v tx undo bef replacing leaf stack b = (s, ops, b')"
  shows "wrote_key b (map_of (entries (plug cs (Lf p es)))) k v (if replacing then 0 else 1) f (leaf # stack @ ops) s b'"
proof -
  have ok: "pool_ok b" using t by (simp add: tree_ok_def)
  have nr: "leaf_rep (gpage b leaf) es" using t gpage_leaf(1) [OF ok h] by (simp add: tree_ok_def rep_plug)
  have ne: "es \<noteq> []" using empty_leaf_room [of "gpage b leaf"] nr full sz by auto
  have sz': "length k + length v < 65000" using sz by simp
  let ?i = "length es div 2" let ?sk = "fst (es ! ?i)"
  have n1: "unat (num_pages (meta (pager b))) + 1 < 2 ^ 32" using n by simp
  obtain r gs b1 where sl: "SplitLeaf leaf tx b = (r, gs, b1)" by (metis prod_cases3)
  note S0 = SplitLeaf_ok [OF t h n1 ne o sl]
  show ?thesis
  proof (cases r)
    case (Inl e)
    then show ?thesis using S0 res sl by (auto simp: put_split_def wrote_key_def)
  next
    case (Inr x)
    obtain ng sk where x: "x = (ng, sk)" by fastforce
    obtain np W where S: "sk = ?sk" "wrote W b b1" "holds b1 np ng" "owns b1 f (ng # gs @ leaf # stack)"
      "unat (num_pages (meta (pager b1))) \<le> unat (num_pages (meta (pager b))) + 1" "leaf_rep (pview b1 p) (take ?i es)" "leaf_rep (pview b1 np) (drop ?i es)"
      "sabove (clo cs) sk \<longrightarrow> forest b1 cs (Lf p (take ?i es)) sk (Lf np (drop ?i es))"
      using S0 unfolding Inr x by auto
    have ok1: "pool_ok b1" "holds b1 p leaf" using wroteD(1,4) [OF S(2)] h by auto
    have gids: "gid b1 leaf = p" "gid b1 ng = np" using gpage_view(3) [OF ok1] gpage_view(3) [OF ok1(1) S(3)] by auto
    define tg where "tg = (if k < sk then leaf else ng)"
    have htg: "holds b1 (if k < sk then p else np) tg" using ok1 S(3) by (simp add: tg_def)
    obtain ins pg where i: "InsertLeaf (gpage b1 tg) k v = (ins, pg)" by fastforce
    have ps: "put_split k v tx undo bef replacing leaf stack b =
        (if \<not> ins then (kInternal, ng # gs, set_gpage b1 tg pg)
         else case LogKeyRecord (set_gpage b1 tg pg) kPut tx tg k v bef False undo of (s, b2) \<Rightarrow>
           if s \<noteq> kOk then (s, ng # gs, b2)
           else propagate stack sk p np tx (ng # gs) (if replacing then b2 else b2\<lparr>pager := AddToNumKeys (pager b2) 1\<rparr>))"
      unfolding put_split_def sl Inr x prod.case sum.case Let_def tg_def [symmetric] i gids by simp
    show ?thesis
    proof (cases ins)
      case False
      then show ?thesis using res unfolding ps by (auto simp: wrote_key_def)
    next
      case True
      note i = i [unfolded eqTrueI [OF True]]
      obtain s2 b2 where lk: "LogKeyRecord (set_gpage b1 tg pg) kPut tx tg k v bef False undo = (s2, b2)" by fastforce
      have "sabove (clo cs) sk"
      proof (rule split_key_above [OF t ne S(1) k(1) nr full])
        assume "sk \<le> k"
        then have "\<not> k < sk" by simp
        then show "leaf_rep (gpage b1 ng) (drop ?i es) \<and> InsertLeaf (gpage b1 ng) k v = (True, pg)"
          using i S(7) gpage_leaf(1) [OF ok1(1) S(3)] by (simp add: tg_def)
      qed
      then have F1: "forest b1 cs (Lf p (take ?i es)) sk (Lf np (drop ?i es))" using S(8) by simp
      have kt: "k \<notin> fst ` set (take ?i es)" using k(3) by (meson image_mono set_take_subset subsetD)
      obtain l r where K: "s2 = kOk" "wrote {if k < sk then p else np} b1 b2" "PinCount b2 = PinCount b1" "meta (pager b2) = meta (pager b1)"
        "forest b2 cs (Lf p l) sk (Lf np r)" "map_of (l @ r) = (map_of es)(k \<mapsto> v)"
        using split_insert_leaf [OF F1 k(1,2) kt refl htg sz' i lk] by auto
      define b3 where "b3 = (if replacing then b2 else b2\<lparr>pager := AddToNumKeys (pager b2) 1\<rparr>)"
      have F3: "forest b3 cs (Lf p l) sk (Lf np r)" using K(5) forest_count by (simp add: b3_def)
      have "owns b2 f (ng # gs @ leaf # stack)" by (rule owns_wrote [OF ok1(1) S(4) K(2,3)])
      then have "owns b2 f ((leaf # stack) @ ng # gs)" by (rule owns_perm) simp
      then have o3: "owns b3 f ((leaf # stack) @ ng # gs)" using owns_count by (simp add: b3_def)
      have "path_held b2 cs stack" by (rule path_held_mono [OF ph]) (rule wroteD(4) [OF K(2) wroteD(4) [OF S(2)]])
      then have ph3: "path_held b3 cs stack" using path_count by (simp add: b3_def)
      have m3: "num_pages (meta (pager b3)) = num_pages (meta (pager b1))" "num_keys (meta (pager b3)) = num_keys (meta (pager b)) + (if replacing then 0 else 1)"
        using K(4) wroteD(6) [OF S(2)] by (simp_all add: b3_def)
      have n3: "unat (num_pages (meta (pager b3))) + length cs + 1 < 2 ^ 32" using n S(5) m3(1) by simp
      have "?i < length es" using ne by (cases es) auto
      then have "es ! ?i \<in> set es" by (rule nth_mem)
      then have skl: "length sk < 65000" using leaf_entry_bound [OF nr, of sk "snd (es ! ?i)"] S(1) by simp
      have pr: "propagate stack sk (troot (Lf p l)) (troot (Lf np r)) tx (ng # gs) b3 = (s, ops, b')"
        using res True lk K(1) unfolding ps by (simp add: b3_def)
      note P = propagate_ok [OF F3 ph3 o3 skl n3 pr]
      have cb: "cbnd cs" using t by (simp add: tree_ok_def bnd_plug)
      have "map_of (entries (plug cs (Lf p (l @ r)))) = (map_of (entries (plug cs (Lf p es))))(k \<mapsto> v)"
        using map_of_plug_other [OF cb k(1,2), of "Lf p (l @ r)" "Lf p es"] K(6) by (simp del: map_of_append)
      moreover have "entries (plug cs (Lf p (l @ r))) = lents cs @ l @ r @ rents cs" by (simp only: entries_plug entries_simps append_assoc)
      ultimately show ?thesis using P m3(2) by (auto simp: wrote_key_def split: if_splits)
    qed
  qed
qed

subsection \<open>The pessimistic path\<close>

lemma insert_or_split_ok:
  assumes t: "tree_ok b (plug cs (Lf p es))" and k: "above (clo cs) k" "below (chi cs) k" "k \<notin> fst ` set es"
    and h: "holds b p leaf" and sz: "4 + length k + length v \<le> 4048"
    and ph: "path_held b cs stack" and o: "owns b f (leaf # stack)" and n: "unat (num_pages (meta (pager b))) + length cs + 2 < 2 ^ 32"
    and res: "insert_or_split k v tx undo bef replacing leaf stack b = (s, ops, b')"
  shows "wrote_key b (map_of (entries (plug cs (Lf p es)))) k v (if replacing then 0 else 1) f (leaf # stack @ ops) s b'"
proof -
  have ok: "pool_ok b" using t by (simp add: tree_ok_def)
  note l = at_leafI [OF ok h refl k(1,2), of es] note f = at_leaf_facts [OF t l]
  have sz': "length k + length v < 65000" using sz by simp
  obtain ins q where i: "InsertLeaf (gpage b leaf) k v = (ins, q)" by fastforce
  show ?thesis
  proof (cases ins)
    case False
    then have q: "q = gpage b leaf" "room (gpage b leaf) < length k + length v + 12" using InsertLeaf_fail [OF f(1) k(3), of v q] i by simp_all
    have "put_split k v tx undo bef replacing leaf stack b = (s, ops, b')"
      using res i False q(1) by (simp add: insert_or_split_def)
    then show ?thesis by (rule put_split_ok [OF t k h q(2) sz ph o n])
  next
    case True
    obtain x w where lk: "LogKeyRecord (set_gpage b leaf q) kPut tx leaf k v bef True undo = (kOk, (guard_write b leaf (at_lsn q x))\<lparr>wal := w\<rparr>)"
      using LogKeyRecord_write [OF holds_frame [OF ok h]] by blast
    let ?b = "(guard_write b leaf (at_lsn q x))\<lparr>wal := w\<rparr>" and ?t = "plug cs (Lf p (ins_at es k v))"
    have pp: "put_page (gpage b leaf) es k v q (ins_at es k v)" using InsertLeaf_page [OF f(1,4) sz', of q] i True by auto
    note lp = leaf_put [where x = x and w = w, OF t l pp refl]
    note W = wrote_guard [where x = x and w = w, OF ok h, of q]
    have "mem_ok q" using pp by (simp add: put_page_def)
    then have ow: "owns ?b f (leaf # stack)" using owns_wrote [OF ok o] W by blast
    have r: "s = kOk" "ops = []" "b' = (if replacing then ?b else ?b\<lparr>pager := AddToNumKeys (pager ?b) 1\<rparr>)"
      using res i True lk by (auto simp: insert_or_split_def andthen_def split: if_splits)
    have "tree_ok b' ?t" unfolding r(3) using lp(1) by (cases replacing) (simp_all only: if_True if_False tree_count)
    moreover have "owns b' f (leaf # stack)" unfolding r(3) using ow by (cases replacing) (simp_all only: if_True if_False owns_count)
    moreover have "num_keys (meta (pager b')) = num_keys (meta (pager b)) + (if replacing then 0 else 1)"
      unfolding r(3) using lp(4) by simp
    ultimately show ?thesis using lp(3) r(1,2) by (auto simp: wrote_key_def)
  qed
qed

lemma put_on_path_ok:
  assumes t: "tree_ok b t" and tp: "t = plug cs (Lf p es)" and k: "above (clo cs) k" "below (chi cs) k"
    and h: "holds b p leaf" and sz: "4 + length k + length v \<le> 4048"
    and ph: "path_held b cs stack" and o: "owns b f (leaf # stack)" and n: "unat (num_pages (meta (pager b))) + length cs + 2 < 2 ^ 32"
    and res: "put_on_path k v tx undo leaf stack b = (s, bef, b')"
  shows "bef = (if undo then map_of (entries t) k else None)"
    and "if s = kOk then \<exists>t'. updated b t k v b' t' \<and> PinCount b' = f else io_error s"
proof -
  have ok: "pool_ok b" using t by (simp add: tree_ok_def)
  note l = at_leafI [OF ok h tp k] note f = at_leaf_facts [OF t l]
  have sz': "length k + length v < 65000" using sz by simp
  let ?i = "lb (map fst es) k" let ?found = "k \<in> fst ` set es"
  let ?bef = "if undo \<and> ?found then Some (GetValueAt (gpage b leaf) ?i) else None"
  have fk: "FindKeyIndex (gpage b leaf) k = (?i, ?found)" by (rule leaf_FindKeyIndex [OF f(1)])
  have bv: "?bef = (if undo then map_of (entries t) k else None)" using before_value [OF f(1), of k] f(2) by auto
  have none: "map_of (entries t) k = None \<longleftrightarrow> \<not> ?found" using f(2) by (simp add: map_of_eq_None_iff)
  let ?body = "if ?found then
                case UpdateLeaf (gpage b leaf) k v of (upd, p) \<Rightarrow>
                  let b = set_gpage b leaf p in
                  if upd then (case LogKeyRecord b kPut tx leaf k v ?bef True undo of (s, b) \<Rightarrow> (s, [], b))
                  else case DeleteAt (gpage b leaf) ?i of (del, p) \<Rightarrow>
                    let b = set_gpage b leaf p in
                    if \<not> del then (kInternal, [], b)
                    else insert_or_split k v tx undo ?bef True leaf stack (MarkDirty b leaf)
              else insert_or_split k v tx undo ?bef False leaf stack b"
  define body where "body = ?body"
  obtain s1 ops b1 where body: "body = (s1, ops, b1)" by (metis prod_cases3)
  note B = body [unfolded body_def]
  have "put_on_path k v tx undo leaf stack b = (case ?body of (s, ops, b) \<Rightarrow> (s, ?bef, release_all (leaf # stack @ ops) b))"
    unfolding put_on_path_def fk prod.case Let_def by (rule refl)
  then have "put_on_path k v tx undo leaf stack b = (s1, ?bef, release_all (leaf # stack @ ops) b1)" unfolding B prod.case .
  then have "(s, bef, b') = (s1, ?bef, release_all (leaf # stack @ ops) b1)" using res by (rule trans [OF sym, rotated])
  then have r: "s = s1" "bef = ?bef" "b' = release_all (leaf # stack @ ops) b1" unfolding prod.inject by blast+
  show "bef = (if undo then map_of (entries t) k else None)" using r(2) bv by simp
  have "wrote_key b (map_of (entries t)) k v (if map_of (entries t) k = None then 1 else 0) f (leaf # stack @ ops) s1 b1"
  proof (cases ?found)
    case False
    then show ?thesis using insert_or_split_ok [OF t [unfolded tp] k False h sz ph o n, of tx undo ?bef False s1 ops b1] B none tp by simp
  next
    case True
    obtain upd q where u: "UpdateLeaf (gpage b leaf) k v = (upd, q)" by fastforce
    show ?thesis
    proof (cases upd)
      case upd: True
      then obtain es' where pp: "put_page (gpage b leaf) es k v q es'" using UpdateLeaf_page [OF f(1,4) sz', of q] u by auto
      obtain x w where lk: "LogKeyRecord (set_gpage b leaf q) kPut tx leaf k v ?bef True undo = (kOk, (guard_write b leaf (at_lsn q x))\<lparr>wal := w\<rparr>)"
        using LogKeyRecord_write [OF holds_frame [OF ok h]] by blast
      note lp = leaf_put [where x = x and w = w, OF t l pp refl] and W = wrote_guard [where x = x and w = w, OF ok h, of q]
      have "mem_ok q" using pp by (simp add: put_page_def)
      then have "owns ((guard_write b leaf (at_lsn q x))\<lparr>wal := w\<rparr>) f (leaf # stack)" using owns_wrote [OF ok o] W by blast
      moreover have "s1 = kOk" "ops = []" "b1 = (guard_write b leaf (at_lsn q x))\<lparr>wal := w\<rparr>" using B True u upd lk by (auto simp: Let_def)
      ultimately show ?thesis using lp(1,3,4) none True by (auto simp: wrote_key_def)
    next
      case noupd: False
      then have q: "q = gpage b leaf" using UpdateLeaf_fail [OF f(1), of k v q] u sz by simp
      have so: "sorted_wrt (<) (map fst es)" using f(1) by (simp add: leaf_rep_def)
      note i = lb_entry [OF so True]
      obtain d where d: "DeleteAt (gpage b leaf) ?i = (True, d)"
        using DeleteAt_leaf(1) [OF f(1)] i(1) by (metis (full_types) prod.exhaust_sel)
      note dl = DeleteAt_leaf [OF f(1) d]
      let ?es = "take ?i es @ drop (Suc ?i) es"
      have qr: "leaf_rep d ?es" "map_of ?es = (map_of es)(k := None)" using dl(2,4) i(2) by simp_all
      have qm: "mem_ok d" using DeleteAt_mem [of "gpage b leaf" ?i] f(1,4) d by (simp add: leaf_rep_def)
      let ?b2 = "(guard_write b leaf (at_lsn d (page_lsn (hdr d))))\<lparr>wal := wal b\<rparr>"
      have gw: "MarkDirty (set_gpage b leaf d) leaf = ?b2" by (simp add: set_then_mark) (simp add: guard_write_def MarkDirty_def set_frame_def)
      have "fst ` set ?es \<subseteq> insert k (fst ` set es)" using set_take_subset [of ?i es] set_drop_subset [of "Suc ?i" es] by auto
      note lw = leaf_write [where x = "page_lsn (hdr d)" and w = "wal b", OF t l qr(1) qm same_next [OF dl(3)] this refl]
      note W = wrote_guard [where x = "page_lsn (hdr d)" and w = "wal b", OF ok h qm]
      have kd: "k \<notin> fst ` set ?es" using qr(2) by (metis fun_upd_same map_of_eq_None_iff)
      have h2: "holds ?b2 p leaf" using wroteD(4) [OF W(1) h] .
      have ph2: "path_held ?b2 cs stack" by (rule path_held_mono [OF ph]) (rule wroteD(4) [OF W(1)])
      have o2: "owns ?b2 f (leaf # stack)" by (rule owns_wrote [OF ok o W(1,3)])
      have n2: "unat (num_pages (meta (pager ?b2))) + length cs + 2 < 2 ^ 32" using n W(4) by simp
      have "insert_or_split k v tx undo ?bef True leaf stack ?b2 = (s1, ops, b1)" using B True u noupd q d gw by (simp add: Let_def)
      note R = insert_or_split_ok [OF lw(1) k kd h2 sz ph2 o2 n2 this]
      have "map_of (entries (plug cs (Lf p ?es))) = (map_of (entries t))(k := None)"
        using map_of_plug_other [OF f(3) k, of "Lf p ?es" "Lf p es"] qr(2) tp by simp
      then show ?thesis using R W(4) none True by (auto simp: wrote_key_def split: if_splits)
    qed
  qed
  then show "if s = kOk then \<exists>t'. updated b t k v b' t' \<and> PinCount b' = f else io_error s"
  proof (cases "s = kOk")
    case True
    then obtain t' where t': "tree_ok b1 t'" "map_of (entries t') = (map_of (entries t))(k \<mapsto> v)" "owns b1 f (leaf # stack @ ops)"
      "num_keys (meta (pager b1)) = num_keys (meta (pager b)) + (if map_of (entries t) k = None then 1 else 0)"
      using \<open>wrote_key b _ k v _ f _ s1 b1\<close> r(1) by (auto simp: wrote_key_def)
    have ok1: "pool_ok b1" using t'(1) by (simp add: tree_ok_def)
    note RA = release_all_ok [OF ok1 t'(3)]
    have "updated b t k v b' t'" using tree_ok_reads [OF t'(1)] RA t'(2,4) r(3) by (simp add: updated_def pc.reads_def)
    then show ?thesis using True RA r(3) by auto
  qed (auto simp: wrote_key_def r(1))
qed

text \<open>The path of a descent is no longer than the number of pages of the file.\<close>

lemma crumbs_pages: "length cs \<le> length (cpages cs)"
proof (induction cs)
  case (Cons c cs)
  then show ?case by (cases c) simp
qed simp

lemma tree_pages_bound:
  assumes "tree_ok b t"
  shows "length (pages t) \<le> unat (num_pages (meta (pager b)))"
proof -
  let ?n = "unat (num_pages (meta (pager b)))"
  have d: "distinct (pages t)" and "unat ` set (pages t) \<subseteq> {..< ?n}"
    using assms by (auto simp: tree_ok_def live_page_def data_page_def word_less_nat_alt)
  then have "card (unat ` set (pages t)) \<le> ?n" using card_mono [of "{..< ?n}"] by fastforce
  moreover have "card (unat ` set (pages t)) = card (set (pages t))" by (rule card_image) (auto simp: inj_on_def word_unat_eq_iff)
  ultimately show ?thesis using distinct_card [OF d] by simp
qed

definition roomy :: "BufferPool \<Rightarrow> bool" where
  "roomy b \<longleftrightarrow> 2 * unat (num_pages (meta (pager b))) + 2 < 2 ^ 32"

lemma roomy_path:
  assumes "tree_ok b (plug cs h)" and "roomy b"
  shows "unat (num_pages (meta (pager b))) + length cs + 2 < 2 ^ 32"
proof -
  have "length (pages (plug cs h)) = length (cpages cs @ pages h)" by (metis mset_pages_plug mset_append size_mset)
  then show ?thesis using tree_pages_bound [OF assms(1)] crumbs_pages [of cs] assms(2) by (simp add: roomy_def)
qed

lemma PutPessimistic_path:
  assumes t: "tree_ok b t" and rm: "roomy b"
  obtains s b' where "PutPessimistic k v tx undo bef0 b = Some (s, bef0, b')" and "io_error s"
  | g gs cs p es b1 where "tree_ok b1 t" and "meta (pager b1) = meta (pager b)" and "holds b1 p g" and "owns b1 (PinCount b) (g # gs)"
      and "path_held b1 cs gs" and "t = plug cs (Lf p es)" and "above (clo cs) k" and "below (chi cs) k"
      and "unat (num_pages (meta (pager b1))) + length cs + 2 < 2 ^ 32"
      and "PutPessimistic k v tx undo bef0 b = Some (put_on_path k v tx undo g gs b1)"
proof -
  have root: "root_page_id (meta (pager b)) = troot t" using t by (simp add: tree_ok_def)
  have ne: "\<not> IsEmpty b" using t rep_root [of "pview b" t] by (auto simp: IsEmpty_def tree_ok_def)
  have o: "owns b (PinCount b) []" by (simp add: owns_def)
  obtain r b1 where d: "descend_path k (troot t) [] b = Some (r, b1)" "pc.reads b b1"
    "case r of Inl s \<Rightarrow> io_error s \<and> PinCount b1 = PinCount b
     | Inr gs \<Rightarrow> \<exists>g gs' cs' p es. gs = g # gs' \<and> owns b1 (PinCount b) gs \<and> path_held b1 cs' gs' \<and> holds b1 p g \<and>
         t = plug cs' (Lf p es) \<and> above (clo cs') k \<and> below (chi cs') k"
    using descend_path_ok [OF t _ _ _ o, of "[]" t k] by (auto simp: bound_defs)
  show ?thesis
  proof (cases r)
    case (Inl s)
    then show ?thesis using that(1) d ne root by (auto simp: PutPessimistic_def)
  next
    case (Inr gs)
    then obtain g gs' cs p es where G: "gs = g # gs'" "owns b1 (PinCount b) (g # gs')" "path_held b1 cs gs'" "holds b1 p g"
      "t = plug cs (Lf p es)" "above (clo cs) k" "below (chi cs) k" using d(3) by auto
    have t1: "tree_ok b1 t" by (rule tree_ok_reads [OF t d(2)])
    have m: "meta (pager b1) = meta (pager b)" using d(2) by (simp add: pc.reads_def)
    have "roomy b1" using rm m by (simp add: roomy_def)
    then have n: "unat (num_pages (meta (pager b1))) + length cs + 2 < 2 ^ 32" using roomy_path [of b1 cs "Lf p es"] t1 G(5) by simp
    have "PutPessimistic k v tx undo bef0 b = Some (put_on_path k v tx undo g gs' b1)" using d(1) ne root Inr G(1) by (simp add: PutPessimistic_def)
    then show ?thesis using that(2) [OF t1 m G(4,2,3,5-7) n] by simp
  qed
qed

lemma PutPessimistic_tree:
  assumes t: "tree_ok b t" and sz: "4 + length k + length v \<le> 4048" and rm: "roomy b"
  shows "\<exists>s bef b'. PutPessimistic k v tx undo bef0 b = Some (s, bef, b') \<and>
    (if s = kOk then bef = (if undo then map_of (entries t) k else None) \<and> (\<exists>t'. updated b t k v b' t' \<and> PinCount b' = PinCount b) else io_error s)"
proof (cases rule: PutPessimistic_path [OF t rm, of k v tx undo bef0])
  case (1 s b')
  then show ?thesis by simp
next
  case (2 g gs cs p es b1)
  obtain s bef b2 where r: "put_on_path k v tx undo g gs b1 = (s, bef, b2)" by (metis prod_cases3)
  note P = put_on_path_ok [OF 2(1,6-8,3) sz 2(5,4,9) r]
  have "updated b1 t k v b2 t' \<Longrightarrow> updated b t k v b2 t'" for t' using 2(2) by (simp add: updated_def)
  then show ?thesis using P 2(10) r by (cases "s = kOk") (simp_all, blast)
qed

text \<open>The first insertion.\<close>

lemma set_gpage_wal: "(set_gpage b g p)\<lparr>wal := w\<rparr> = set_gpage (b\<lparr>wal := w\<rparr>) g p"
  by (simp add: set_gpage_def set_frame_def)

lemma create_root_leaf_ok:
  assumes ok: "pool_ok b" and e: "IsEmpty b" and sz: "4 + length k + length v \<le> 4048" and rm: "roomy b"
    and res: "create_root_leaf k v tx None b = (s, bef, b')"
  shows "bef = None" and "if s = kOk then \<exists>r. tree_ok b' (Lf r [(k, v)]) \<and> PinCount b' = PinCount b \<and>
    num_keys (meta (pager b')) = num_keys (meta (pager b)) + 1 \<and>
    unat (num_pages (meta (pager b'))) \<le> unat (num_pages (meta (pager b))) + 1 else io_error s"
    and "s \<noteq> kOk \<Longrightarrow> fst (NewPage b) = Inl s"
proof -
  have n: "unat (num_pages (meta (pager b))) + 1 < 2 ^ 32" using rm by (simp add: roomy_def)
  obtain x b1 where x: "NewPage b = (x, b1)" by fastforce
  have "bef = None \<and> (if s = kOk then \<exists>r. tree_ok b' (Lf r [(k, v)]) \<and> PinCount b' = PinCount b \<and>
    num_keys (meta (pager b')) = num_keys (meta (pager b)) + 1 \<and>
    unat (num_pages (meta (pager b'))) \<le> unat (num_pages (meta (pager b))) + 1 else io_error s) \<and> (s \<noteq> kOk \<longrightarrow> fst (NewPage b) = Inl s)"
  proof (cases x)
    case (Inl e)
    then show ?thesis using res x NewPage_error [OF ok, of e b1] by (auto simp: create_root_leaf_def)
  next
    case (Inr y)
    obtain g r where y: "y = (g, r)" by fastforce
    note nw = x [unfolded Inr y] note W1 = wrote_new [OF ok n nw]
    let ?p0 = "InitLeaf (Page_Init r kLeaf)"
    have p0: "leaf_rep ?p0 []" "mem_ok ?p0" "room ?p0 = 4056" using InitLeaf_rep empty_nodes(4) room_InitLeaf by auto
    obtain ins p where ip: "InsertLeaf ?p0 k v = (ins, p)" by fastforce
    have ins: "ins" using InsertLeaf_ok(1) [OF p0(1) ip] p0(3) sz by simp
    have sz': "length k + length v < 65000" using sz by simp
    have pg: "leaf_rep p [(k, v)]" "mem_ok p" "GetNextLeaf p = kInvalidPageId"
      using InsertLeaf_page [OF p0(1,2) sz' ip [unfolded eqTrueI [OF ins]]]
      by (simp_all add: put_page_def ins_at_def) (simp add: InitLeaf_def GetNextLeaf_def Page_Init_def header_Init_def)
    obtain w where le: "LogPageEvent (set_gpage b1 g p) kAllocPage tx r False = (kOk, set_gpage (b1\<lparr>wal := w\<rparr>) g p)"
      using LogPageEvent_wal [of "set_gpage b1 g p" kAllocPage tx r False] unfolding set_gpage_wal by blast
    let ?b2 = "b1\<lparr>wal := w\<rparr>"
    have ok2: "pool_ok ?b2" "holds ?b2 r g" using W1(3) wroteD(1) [OF W1(1)] by auto
    obtain s3 b3 where li: "LogPageImage (set_gpage ?b2 g p) g tx False = (s3, b3)" by fastforce
    note gi = guard_image [OF ok2 pg(2) li]
    obtain w4 where le2: "LogPageEvent b3 kRootChange tx r True = (kOk, b3\<lparr>wal := w4\<rparr>)" using LogPageEvent_wal by blast
    let ?b4 = "b3\<lparr>wal := w4\<rparr>" let ?b5 = "?b4\<lparr>pager := SetRootPageId (pager ?b4) r\<rparr>"
    let ?b6 = "?b5\<lparr>pager := AddToNumKeys (pager ?b5) 1\<rparr>"
    have h4: "pool_ok ?b4" "holds ?b4 r g" using wroteD(1,4) [OF gi(2)] ok2(2) by auto
    have h6: "pool_ok ?b6" "holds ?b6 r g" using h4 by (simp_all only: count_simps root_simps)
    have lv: "live_page ?b4 r" using pc.holds_page [OF h4] by simp
    have R: "s = kOk" "bef = None" "b' = ReleaseGuard ?b6 g"
      using res nw ip ins le li gi(1) le2 by (auto simp: create_root_leaf_def andthen_def Let_def)
    have vw: "pview ?b6 = pview ?b4" "live_page ?b6 = live_page ?b4" "PinCount ?b6 = PinCount ?b4" by (simp_all only: count_simps root_simps)
    have "leaf_rep (pview ?b4 r) [(k, v)]" "GetNextLeaf (pview ?b4 r) = kInvalidPageId" using gi(3) pg by auto
    then have t6: "tree_ok ?b6 (Lf r [(k, v)])"
      using h6 lv live_not_invalid [OF lv] unfolding tree_ok_def vw by (simp add: bound_defs)
    note rel = pc.release_keeps [OF h6]
    have "PinCount ?b6 = (PinCount b)(r := PinCount b r + 1)" using vw(3) gi(4) W1(4) by simp
    then have "PinCount b' = PinCount b" using rel unfolding R(3) by (auto simp: fun_eq_iff)
    moreover have "num_keys (meta (pager b')) = num_keys (meta (pager b)) + 1"
      using gi(5) wroteD(6) [OF W1(1)] unfolding R(3) guard_same by simp
    moreover have "unat (num_pages (meta (pager b'))) \<le> unat (num_pages (meta (pager b))) + 1"
      using gi(5) W1(5) unfolding R(3) guard_same by (simp add: SetRootPageId_def AddToNumKeys_def)
    ultimately show ?thesis using R(1,2) tree_ok_reads [OF t6 pc.release_reads [OF h6]] unfolding R(3) by auto
  qed
  then show "bef = None" "if s = kOk then \<exists>r. tree_ok b' (Lf r [(k, v)]) \<and> PinCount b' = PinCount b \<and>
    num_keys (meta (pager b')) = num_keys (meta (pager b)) + 1 \<and>
    unat (num_pages (meta (pager b'))) \<le> unat (num_pages (meta (pager b))) + 1 else io_error s"
    "s \<noteq> kOk \<Longrightarrow> fst (NewPage b) = Inl s" by auto
qed

subsection \<open>Put\<close>

text \<open>On a tree that has a root: the optimistic attempt on the leaf, fetched a second time in write mode, then the pessimistic one.\<close>

lemma Put_leaf:
  assumes t: "tree_ok b t" and sz: "4 + length k + length v \<le> 4048"
  obtains s b' where "Put k v tx undo b = Some (s, None, b')" and "io_error s"
  | g cs p es b1 where "tree_ok b1 t" and "pc.reads b b1" and "at_leaf b1 t k (PinCount b) g cs p es"
      and "Put k v tx undo b = (case put_fast k v tx undo g b1 of (r, bef, b2) \<Rightarrow>
        case r of Some s \<Rightarrow> Some (s, bef, ReleaseGuard b2 g) | None \<Rightarrow> PutPessimistic k v tx undo bef (ReleaseGuard b2 g))"
proof -
  have ne: "\<not> IsEmpty b" using t rep_root [of "pview b" t] by (auto simp: IsEmpty_def tree_ok_def)
  have fits: "\<not> kMaxLeafRecordBytes < 4 + length k + length v" using sz by (simp add: kMaxLeafRecordBytes_def layout_defs)
  obtain r b1 where lg: "leaf_guard k b = Some (r, b1)" "pc.reads b b1"
    "case r of Inl s \<Rightarrow> io_error s \<and> PinCount b1 = PinCount b
     | Inr g \<Rightarrow> \<exists>cs p es. at_leaf b1 t k (PinCount b) g cs p es" using leaf_guard_ok [OF t, of k] by auto
  show ?thesis
  proof (cases r)
    case (Inl s)
    then show ?thesis using that(1) lg ne fits by (auto simp: Put_def)
  next
    case (Inr g)
    then obtain cs p es where l: "at_leaf b1 t k (PinCount b) g cs p es" using lg(3) by auto
    let ?b2 = "ReleaseGuard b1 g"
    have t1: "tree_ok b1 t" by (rule tree_ok_reads [OF t lg(2)])
    note rl = at_leaf_release [OF t1 l] and gp = at_leaf_facts(6) [OF t1 l]
    note t2 = tree_ok_reads [OF t1 rl(1)]
    have "pool_ok b1" "holds b1 p g" using t1 l by (auto simp: tree_ok_def at_leaf_def)
    then have ok2: "pool_ok ?b2" "live_page ?b2 p" using t2 rl(1) pc.holds_page [of b1 p g] by (auto simp: tree_ok_def pc.reads_def)
    obtain x b3 where x: "FetchPageInternal ?b2 p = (x, b3)" by fastforce
    show ?thesis
    proof (cases x)
      case (Inl s)
      then show ?thesis using that(1) pc.fetch_Inl [OF ok2 x [unfolded Inl]] lg(1) \<open>r = Inr g\<close> gp x ne fits by (auto simp: Put_def)
    next
      case (Inr h)
      note rd3 = pc.fetch_reads [OF ok2 x]
      have l3: "at_leaf b3 t k (PinCount b) h cs p es"
        using pc.fetch_Inr [OF ok2 x [unfolded Inr]] rl(2) l by (simp add: at_leaf_def)
      have "Put k v tx undo b = (case put_fast k v tx undo h b3 of (r, bef, b2) \<Rightarrow>
          case r of Some s \<Rightarrow> Some (s, bef, ReleaseGuard b2 h) | None \<Rightarrow> PutPessimistic k v tx undo bef (ReleaseGuard b2 h))"
        using lg(1) \<open>r = Inr g\<close> gp x Inr ne fits by (simp add: Put_def Let_def)
      then show ?thesis using that(2) [OF tree_ok_reads [OF t2 rd3] pc.reads_trans [OF pc.reads_trans [OF lg(2) rl(1)] rd3] l3] by simp
    qed
  qed
qed

lemma Put_tree:
  assumes t: "tree_ok b t" and sz: "4 + length k + length v \<le> 4048" and rm: "roomy b"
  shows "\<exists>s bef b'. Put k v tx undo b = Some (s, bef, b') \<and>
    (if s = kOk then bef = (if undo then map_of (entries t) k else None) \<and> (\<exists>t'. updated b t k v b' t' \<and> PinCount b' = PinCount b) else io_error s)"
proof (cases rule: Put_leaf [OF t sz, of tx undo])
  case (1 s b')
  then show ?thesis by simp
next
  case (2 h cs p es b3)
  have m: "meta (pager b3) = meta (pager b)" using 2(2) by (simp add: pc.reads_def)
  obtain y bef b4 where y: "put_fast k v tx undo h b3 = (y, bef, b4)" by (metis prod_cases3)
  have sz': "length k + length v < 65000" using sz by simp
  note pf = put_fast_ok [OF 2(1,3) sz' y]
  show ?thesis
  proof (cases y)
    case None
    note rl3 = at_leaf_release [OF 2(1,3)] let ?b = "ReleaseGuard b3 h"
    note rd' = pc.reads_trans [OF 2(2) rl3(1)]
    have m': "meta (pager ?b) = meta (pager b)" using rd' by (simp add: pc.reads_def)
    have "updated ?b t k v b' t' \<longleftrightarrow> updated b t k v b' t'" for b' t' unfolding updated_def m' ..
    moreover have "roomy ?b" using rm m' by (simp add: roomy_def)
    ultimately have "\<exists>s bef' b'. PutPessimistic k v tx undo bef ?b = Some (s, bef', b') \<and>
        (if s = kOk then bef' = (if undo then map_of (entries t) k else None) \<and> (\<exists>t'. updated b t k v b' t' \<and> PinCount b' = PinCount b) else io_error s)"
      using PutPessimistic_tree [OF tree_ok_reads [OF t rd'] sz, of tx undo bef] rl3(2) by (simp only:)
    moreover have "Put k v tx undo b = PutPessimistic k v tx undo bef ?b" using 2(4) y None pf(2) by simp
    ultimately show ?thesis by (simp only:)
  next
    case (Some s)
    then obtain t' es' where u: "s = kOk" "updated b3 t k v b4 t'" "at_leaf b4 t' k (PinCount b) h cs p es'" using pf(3) by blast
    have t4: "tree_ok b4 t'" using u(2) by (simp add: updated_def)
    note rl4 = at_leaf_release [OF t4 u(3)]
    have "updated b t k v (ReleaseGuard b4 h) t'"
      using u(2) m tree_ok_reads [OF t4 rl4(1)] rl4(1) by (simp add: updated_def pc.reads_def)
    then show ?thesis using 2(4) y Some u(1) pf(1) rl4(2) by auto
  qed
qed

text \<open>
  \<open>Put\<close> against the list of entries: the write succeeds and the file stores the entry in its place, or the record does not
  fit a page and nothing happens, or an I/O or internal error is reported.
\<close>

lemma Put_stored:
  assumes st: "stored_off d b es" and rm: "roomy b"
  shows "\<exists>s bef b'. Put k v tx undo b = Some (s, bef, b') \<and>
    (if s = kOk then stored_off d b' (upsert k v es) \<and> PinCount b' = PinCount b \<and> bef = (if undo then map_of es k else None)
     else s = kInvalidArgument \<and> 4048 < 4 + length k + length v \<and> b' = b \<or> io_error s)"
proof (cases "4 + length k + length v \<le> 4048")
  case False
  then show ?thesis by (simp add: Put_def kMaxLeafRecordBytes_def layout_defs)
next
  case sz: True
  have so: "sorted_wrt (<) (map fst es)" by (rule stored_sorted [OF st])
  show ?thesis using st
  proof (cases rule: stored_cases)
    case 1
    obtain s bef b' where c: "create_root_leaf k v tx None b = (s, bef, b')" by (metis prod_cases3)
    have "Put k v tx undo b = Some (s, bef, b')" using 1 sz c by (simp add: Put_def PutPessimistic_def kMaxLeafRecordBytes_def layout_defs)
    moreover have "entries (Lf r [(k, v)]) = [(k, v)]" for r by (simp add: entries_def)
    ultimately show ?thesis using create_root_leaf_ok [OF 1(1,2) sz rm c] 1(3) st unfolding stored_off_def
      by (cases "s = kOk") (fastforce, simp)
  next
    case (2 t)
    obtain s bef b' where p: "Put k v tx undo b = Some (s, bef, b')"
      "if s = kOk then bef = (if undo then map_of (entries t) k else None) \<and> (\<exists>t'. updated b t k v b' t' \<and> PinCount b' = PinCount b) else io_error s"
      using Put_tree [OF 2(1) sz rm, of tx undo] by blast
    show ?thesis
    proof (cases "s = kOk")
      case True
      then obtain t' where t': "updated b t k v b' t'" "PinCount b' = PinCount b" "bef = (if undo then map_of es k else None)" using p(2) 2(2) by auto
      have u: "tree_ok b' t'" "map_of (entries t') = (map_of es)(k \<mapsto> v)"
        "num_keys (meta (pager b')) = num_keys (meta (pager b)) + (if map_of es k = None then 1 else 0)" using t'(1) 2(2) by (auto simp: updated_def)
      have "entries t' = upsert k v es"
        by (rule sorted_list_unique [OF tree_sorted [OF u(1)] upsert_sorted [OF so]]) (simp add: u(2) upsert_map)
      then have "stored_off d b' (upsert k v es)" using u(1,3) st upsert_length [OF so, of k v] by (auto simp: stored_off_def)
      then show ?thesis using p(1) True t' by auto
    qed (use p in auto)
  qed
qed

subsection \<open>The boundary of the split: leaves with one entry\<close>

text \<open>
  A leaf is split by the number of its entries. When it holds one entry, the left half is empty and the right half is
  the same leaf again, so a larger key whose record does not fit beside that entry is refused after the split.
\<close>

lemma one_entry_room: "leaf_rep p [(k, v)] \<Longrightarrow> room p + length k + length v + 12 = 4056"
  using room_view [of p] leaf_rep_entries(1) [of p "[(k, v)]"] by (simp add: leaf_rep_def)

lemma plug_leaf: "plug cs h = Lf p es \<Longrightarrow> cs = [] \<and> h = Lf p es"
  by (induction cs h rule: plug.induct) auto

lemma put_split_one_entry:
  assumes t: "tree_ok b (Lf p [(k0, v0)])" and h: "holds b p g" and k: "k0 < k" and o: "owns b f [g]"
    and big: "4056 < length k0 + length v0 + 12 + (length k + length v + 12)" and n: "unat (num_pages (meta (pager b))) + 1 < 2 ^ 32"
    and res: "put_split k v tx undo bef replacing g stack b = (s, ops, b')"
  shows "s \<noteq> kOk"
proof -
  obtain r gs b1 where sl: "SplitLeaf g tx b = (r, gs, b1)" by (metis prod_cases3)
  have S: "case r of Inl s \<Rightarrow> io_error s | Inr (ng, sk) \<Rightarrow> \<exists>np. sk = k0 \<and> pool_ok b1 \<and> holds b1 np ng \<and> leaf_rep (pview b1 np) [(k0, v0)]"
    using SplitLeaf_ok [OF _ h n _ o sl, of "[]" "[(k0, v0)]"] t wroteD(1) by (fastforce split: sum.splits prod.splits)
  show ?thesis
  proof (cases r)
    case (Inl e)
    then show ?thesis using S sl res by (auto simp: put_split_def)
  next
    case (Inr x)
    obtain ng sk where x: "x = (ng, sk)" by fastforce
    then obtain np where N: "sk = k0" "pool_ok b1" "holds b1 np ng" "leaf_rep (pview b1 np) [(k0, v0)]" using S Inr by auto
    have lr: "leaf_rep (gpage b1 ng) [(k0, v0)]" using N gpage_leaf(1) [OF N(2,3)] by simp
    have "fst (InsertLeaf (gpage b1 ng) k v) = False"
      using InsertLeaf_ok(1) [OF lr surjective_pairing] one_entry_room [OF lr] big by simp
    then obtain q where "InsertLeaf (gpage b1 ng) k v = (False, q)" by (metis prod.collapse)
    moreover have "\<not> k < k0" using k by simp
    ultimately show ?thesis using res sl Inr x N(1) by (auto simp: put_split_def Let_def)
  qed
qed

lemma Put_one_entry:
  assumes t: "tree_ok b (Lf r [(k0, v0)])" and rm: "roomy b" and k: "k0 < k" and sz: "4 + length k + length v \<le> 4048"
    and big: "4056 < length k0 + length v0 + 12 + (length k + length v + 12)"
  shows "\<exists>s bef b'. Put k v tx undo b = Some (s, bef, b') \<and> s \<noteq> kOk"
proof -
  have refuse: "\<exists>p. InsertLeaf (gpage b1 g) k v = (False, gpage b1 g) \<and> FindKeyIndex (gpage b1 g) k = (p, False)"
    if "tree_ok b1 (Lf r [(k0, v0)])" "holds b1 r g" for b1 g
  proof -
    have lr: "leaf_rep (gpage b1 g) [(k0, v0)]" using that gpage_leaf(1) [of b1 r g] by (simp add: tree_ok_def)
    obtain ins q where i: "InsertLeaf (gpage b1 g) k v = (ins, q)" by fastforce
    then have "\<not> ins" using InsertLeaf_ok(1) [OF lr i] one_entry_room [OF lr] big by simp
    then show ?thesis using i InsertLeaf_fail(1) [OF lr, of k v q] k leaf_FindKeyIndex [OF lr, of k] by auto
  qed
  have pess: "\<exists>s bef b'. PutPessimistic k v tx undo bef0 b2 = Some (s, bef, b') \<and> s \<noteq> kOk"
    if t2: "tree_ok b2 (Lf r [(k0, v0)])" and r2: "roomy b2" for bef0 b2
  proof (cases rule: PutPessimistic_path [OF t2 r2, of k v tx undo bef0])
    case (1 s b')
    then show ?thesis by auto
  next
    case (2 g gs cs p es b1)
    have c: "cs = []" "p = r" "es = [(k0, v0)]" using plug_leaf [OF 2(6) [symmetric]] by auto
    have gs: "gs = []" using 2(5) c by (simp add: path_held_def)
    obtain q where q: "InsertLeaf (gpage b1 g) k v = (False, gpage b1 g)" "FindKeyIndex (gpage b1 g) k = (q, False)"
      using refuse [OF 2(1)] 2(3) c by auto
    obtain s ops b' where ps: "put_split k v tx undo None False g [] b1 = (s, ops, b')" by (metis prod_cases3)
    have "s \<noteq> kOk" by (rule put_split_one_entry [OF 2(1) _ k _ big _ ps]) (use 2(3,4,9) c gs in auto)
    then show ?thesis using 2(10) q ps gs by (auto simp: put_on_path_def insert_or_split_def)
  qed
  show ?thesis
  proof (cases rule: Put_leaf [OF t sz, of tx undo])
    case (1 s b')
    then show ?thesis by auto
  next
    case (2 g cs p es b1)
    have "plug cs (Lf p es) = Lf r [(k0, v0)]" "holds b1 p g" using 2(3) by (simp_all add: at_leaf_def)
    then have "holds b1 r g" using plug_leaf by blast
    then obtain q where q: "InsertLeaf (gpage b1 g) k v = (False, gpage b1 g)" "FindKeyIndex (gpage b1 g) k = (q, False)" using refuse [OF 2(1)] by blast
    then have "put_fast k v tx undo g b1 = (None, None, b1)" by (simp add: put_fast_def)
    moreover have "roomy (ReleaseGuard b1 g)" using rm pc.reads_trans [OF 2(2) at_leaf_release(1) [OF 2(1,3)]] by (simp add: roomy_def pc.reads_def)
    ultimately show ?thesis using 2(4) pess [OF tree_ok_reads [OF 2(1) at_leaf_release(1) [OF 2(1,3)]]] by simp
  qed
qed

subsection \<open>Properties\<close>

text \<open>A new file with four frames, and the file after one insertion into it, for the witnesses.\<close>

definition new_store :: BufferPool where
  "new_store = BufferPool_init pager3 None calm 4"

lemma new_store_ok: "stored new_store []" "roomy new_store" "PinCount new_store p = 0"
proof -
  have m: "meta (pager new_store) = Meta_Init\<lparr>num_pages := 3\<rparr>" by (simp add: new_store_def BufferPool_init_def Let_def)
  have "free_pages new_store []" unfolding new_store_def by (rule BufferPool_init_ok(3) [OF small_pager]) (simp add: Meta_Init_def)
  then have "pool_ok new_store" using BufferPool_init_ok(1) [OF small_pager] by (auto simp: pool_ok_def new_store_def)
  then show "stored new_store []" using m by (simp add: stored_def IsEmpty_def Meta_Init_def)
  show "roomy new_store" using m by (simp add: roomy_def Meta_Init_def)
  show "PinCount new_store p = 0" by (simp add: new_store_def PinCount_def BufferPool_init_def Let_def)
qed

lemma new_store_NewPage: "\<exists>x. fst (NewPage new_store) = Inr x"
  by (auto simp: new_store_def NewPage_def AcquireFrameLocked_def upt_rec AllocatePage_def Meta_Init_def Write_def take_credit_def
      next_sys_def do_pwrite_def Let_def BufferPool_init_def kMinFrames_def)

definition store1 :: "key \<Rightarrow> bytes \<Rightarrow> BufferPool" where
  "store1 k v = snd (snd (create_root_leaf k v 0 None new_store))"

lemma store1_ok:
  assumes "4 + length k + length v \<le> 4048"
  shows "Put k v 0 False new_store = Some (kOk, None, store1 k v)" and "\<exists>r. tree_ok (store1 k v) (Lf r [(k, v)])" and "stored (store1 k v) [(k, v)]"
    and "PinCount (store1 k v) p = 0" and "roomy (store1 k v)"
proof -
  obtain s bef b' where c: "create_root_leaf k v 0 None new_store = (s, bef, b')" by (metis prod_cases3)
  have e: "pool_ok new_store" "IsEmpty new_store" using stored_inv [OF new_store_ok(1)] by (auto simp: IsEmpty_def new_store_def BufferPool_init_def Let_def Meta_Init_def)
  note r = create_root_leaf_ok [OF e assms new_store_ok(2) c]
  have s: "s = kOk" using r(3) new_store_NewPage by (metis Inl_Inr_False)
  have b': "b' = store1 k v" using c by (simp add: store1_def)
  show "Put k v 0 False new_store = Some (kOk, None, store1 k v)"
    using c s b' r(1) e(2) assms by (simp add: Put_def PutPessimistic_def kMaxLeafRecordBytes_def layout_defs)
  show t: "\<exists>r. tree_ok (store1 k v) (Lf r [(k, v)])" using r(2) s b' by auto
  have "entries (Lf r [(k, v)]) = [(k, v)]" for r by (simp add: entries_def)
  then show "stored (store1 k v) [(k, v)]" using t r(2) s b' new_store_ok(1) unfolding stored_def by auto
  show "PinCount (store1 k v) p = 0" using r(2) s b' new_store_ok(3) by auto
  have "unat (num_pages (meta (pager (store1 k v)))) \<le> 4"
    using r(2) s b' by (auto simp: new_store_def BufferPool_init_def Let_def Meta_Init_def)
  then show "roomy (store1 k v)" by (simp add: roomy_def)
qed

text \<open>
  C11: \<^verbatim>\<open>BTree::Get\<close> is lookup. On every file that stores a list of entries the descent terminates and leaves the stored
  entries and all pin counts as they were; a value is returned exactly when it is stored under the key, NotFound only when the
  key is absent, and anything else is a storage error.
\<close>

theorem Get_is_lookup:
  assumes "stored b es"
  shows "\<exists>r b'. Get k b = Some (r, b') \<and> stored b' es \<and> PinCount b' = PinCount b \<and>
    (case r of Inr v \<Rightarrow> map_of es k = Some v | Inl s \<Rightarrow> s = kNotFound \<and> map_of es k = None \<or> io_error s)"
  using Get_stored [OF assms, of k] stored_reads [OF assms] by blast

theorem Get_is_lookup_witness:
  "\<exists>r b'. Get [107] (store1 [107] [118]) = Some (r, b') \<and> stored b' [([107], [118])] \<and> r \<noteq> Inl kNotFound"
proof -
  have sz: "4 + length [107 :: 8 word] + length [118 :: 8 word] \<le> 4048" by simp
  show ?thesis using Get_is_lookup [OF store1_ok(3) [OF sz], of "[107]"] by (fastforce simp: io_error_def)
qed

text \<open>
  C10: \<^verbatim>\<open>BTree::Put\<close> refines insertion into a sorted list. It always returns; when it reports Ok, through whichever of
  update in place, insertion, leaf split, internal splits and root growth, the file stores the old entries with the new one
  put in its place, nothing stays pinned and the before-image is the previous value; InvalidArgument is reported exactly for
  records that do not fit a page, and then nothing changed; every other status is a storage error.
\<close>

theorem Put_is_upsert:
  assumes "stored b es" and "roomy b"
  shows "\<exists>s bef b'. Put k v tx undo b = Some (s, bef, b') \<and>
    (s = kInvalidArgument \<longleftrightarrow> 4048 < 4 + length k + length v) \<and> (s = kInvalidArgument \<longrightarrow> b' = b) \<and>
    (s = kOk \<longrightarrow> stored b' (upsert k v es) \<and> PinCount b' = PinCount b \<and> bef = (if undo then map_of es k else None)) \<and>
    (s = kOk \<or> s = kInvalidArgument \<or> io_error s)"
proof -
  have "Put k v tx undo b = Some (kInvalidArgument, None, b)" if "4048 < 4 + length k + length v"
    using that by (simp add: Put_def kMaxLeafRecordBytes_def layout_defs)
  then show ?thesis using Put_stored [OF assms, of k v tx undo] by (fastforce simp: io_error_def split: if_splits)
qed

theorem Put_is_upsert_witness:
  "\<exists>s bef b'. Put [98] [2] 7 True (store1 [97] [1]) = Some (s, bef, b') \<and> (s = kOk \<longrightarrow> stored b' [([97], [1]), ([98], [2])])"
proof -
  have sz: "4 + length [97 :: 8 word] + length [1 :: 8 word] \<le> 4048" by simp
  have "upsert [98] [2] [([97], [1])] = [([97], [1]), ([98], [2])]" by simp
  then show ?thesis using Put_is_upsert [OF store1_ok(3,5) [OF sz], of "[98]" "[2]" 7 True] by auto
qed

text \<open>
  C12: \<^verbatim>\<open>BTree::Delete\<close> refines deletion from a sorted list. It always returns and unpins what it pinned; when it reports
  Ok the key was there, the file stores the other entries and the before-image is the removed value; on every other status
  the file stores what it stored, and NotFound means that the key is absent.
\<close>

theorem Delete_is_removal:
  assumes "stored b es"
  shows "\<exists>s bef b'. Delete k tx undo b = Some (s, bef, b') \<and> PinCount b' = PinCount b \<and>
    (if s = kOk then stored b' (remove_key k es) \<and> map_of es k \<noteq> None \<and> bef = (if undo then map_of es k else None)
     else stored b' es \<and> bef = None \<and> (s = kNotFound \<and> map_of es k = None \<or> io_error s))"
  by (rule Delete_stored [OF assms])

theorem Delete_is_removal_witness:
  "\<exists>s bef b'. Delete [97] 7 True (store1 [97] [1]) = Some (s, bef, b') \<and> (if s = kOk then stored b' [] \<and> bef = Some [1] else stored b' [([97], [1])])"
proof -
  have sz: "4 + length [97 :: 8 word] + length [1 :: 8 word] \<le> 4048" by simp
  show ?thesis using Delete_is_removal [OF store1_ok(3) [OF sz], of "[97]" 7 True] by (fastforce split: if_splits)
qed

text \<open>
  C39: the split point of a leaf is chosen by the number of entries, not by their size. On a tree of one leaf with one entry,
  a larger key whose record is legal but does not fit beside that entry cannot be inserted: \<^verbatim>\<open>Put\<close> returns an error, never
  Ok, whatever the operating system does.
\<close>

theorem one_entry_leaf_cannot_split:
  assumes "tree_ok b (Lf r [(k0, v0)])" and "roomy b" and "k0 < k" and "4 + length k + length v \<le> kMaxLeafRecordBytes"
    and "kPageSize - kHeaderSize < (4 + length k0 + length v0 + kSlotSize) + (4 + length k + length v + kSlotSize)"
  shows "\<exists>s bef b'. Put k v tx undo b = Some (s, bef, b') \<and> s \<noteq> kOk"
  by (rule Put_one_entry [OF assms(1-3)]) (use assms(4,5) in \<open>simp_all add: kMaxLeafRecordBytes_def layout_defs\<close>)

theorem one_entry_leaf_cannot_split_witness:
  "\<exists>s bef b'. Put [98] (replicate 3000 0) 7 False (store1 [97] (replicate 3000 0)) = Some (s, bef, b') \<and> s \<noteq> kOk"
proof -
  have sz: "4 + length [97 :: 8 word] + length (replicate 3000 0 :: 8 word list) \<le> 4048" by simp
  obtain r where t: "tree_ok (store1 [97] (replicate 3000 0)) (Lf r [([97], replicate 3000 0)])" using store1_ok(2) [OF sz] by blast
  show ?thesis
    by (rule one_entry_leaf_cannot_split [OF t store1_ok(5) [OF sz]]) (simp_all add: kMaxLeafRecordBytes_def layout_defs)
qed

end
