(* ===== verification/Locks.thy ===== *)
theory Locks
  imports Prelude "HOL-Library.AList"
begin

section \<open>Key locks and transaction ids (lock_manager, txn_manager)\<close>

text \<open>
  The lock table maps a key to its holders. One round of the loop in \<^verbatim>\<open>Acquire\<close> is a function
  (\<open>acquire_try\<close>): it grants, tells the requester to die, or makes it wait. Threads are modelled
  by the step relation \<open>lstep\<close>: between two rounds of a waiting \<^verbatim>\<open>Acquire\<close> the mutex is
  free, so any other request or release may take place; a wait ends by a wake-up (spurious
  ones included) or by the one-second timeout. The iteration order of the holder table is
  that of an association list; the scan's result does not depend on it.

  The theorems: a lock is granted exactly when no other transaction holds it in a
  conflicting mode; in every reachable state an exclusive holder is alone and the
  per-transaction key lists agree with the table; a transaction waits only
  when all conflicting holders are at least as young, so the oldest never dies. The
  waits-for graph is nevertheless not acyclic in all reachable states.
\<close>

subsection \<open>Transaction ids\<close>

record TxnManager =
  next_id :: TxId

definition kFirstTxId :: TxId where "kFirstTxId = 1"

definition TxnManager_init :: TxnManager where
  "TxnManager_init = \<lparr>next_id = kFirstTxId\<rparr>"

definition Txn_Begin :: "TxnManager \<Rightarrow> TxId \<times> TxnManager" where
  "Txn_Begin tm = (next_id tm, tm\<lparr>next_id := next_id tm + 1\<rparr>)"

fun begin_n :: "nat \<Rightarrow> TxnManager \<Rightarrow> TxId list \<times> TxnManager" where
  "begin_n 0 tm = ([], tm)"
| "begin_n (Suc n) tm = (case Txn_Begin tm of (t, tm) \<Rightarrow> case begin_n n tm of (ts, tm) \<Rightarrow> (t # ts, tm))"

subsection \<open>The lock table\<close>

datatype LockMode = kShared | kExclusive

record Holder =
  mode :: LockMode
  priority :: TxId

type_synonym holders = "(TxId \<times> Holder) list"

record LockManager =
  table :: "bytes \<Rightarrow> holders option"
  held :: "TxId \<Rightarrow> bytes list option"

definition LockManager_init :: LockManager where
  "LockManager_init = \<lparr>table = Map.empty, held = Map.empty\<rparr>"

definition Conflicts :: "TxId \<Rightarrow> LockMode \<Rightarrow> TxId \<Rightarrow> LockMode \<Rightarrow> bool" where
  "Conflicts requester want holder held_mode =
     (if holder = requester then False else want = kExclusive \<or> held_mode = kExclusive)"

text \<open>The scan of the holders: \<open>conflict\<close> and \<open>older_conflict\<close>, leaving at the first older one.\<close>

fun scan_holders :: "TxId \<Rightarrow> TxId \<Rightarrow> LockMode \<Rightarrow> holders \<Rightarrow> bool \<Rightarrow> bool \<times> bool" where
  "scan_holders txid prio want [] conflict = (conflict, False)"
| "scan_holders txid prio want ((h, hm) # hs) conflict =
     (if Conflicts txid want h (mode hm) then
        if priority hm < prio then (True, True) else scan_holders txid prio want hs True
      else scan_holders txid prio want hs conflict)"

datatype Attempt = Granted LockManager | Die | Wait

definition grant :: "LockManager \<Rightarrow> TxId \<Rightarrow> TxId \<Rightarrow> bytes \<Rightarrow> LockMode \<Rightarrow> LockManager" where
  "grant lm txid prio key want =
     (let hs = (case table lm key of None \<Rightarrow> [] | Some hs \<Rightarrow> hs) in
      case map_of hs txid of
        None \<Rightarrow> lm\<lparr>table := (table lm)(key \<mapsto> AList.update txid \<lparr>mode = want, priority = prio\<rparr> hs),
                    held := (held lm)(txid \<mapsto> (case held lm txid of None \<Rightarrow> [] | Some ks \<Rightarrow> ks) @ [key])\<rparr>
      | Some h \<Rightarrow>
          if want = kExclusive then lm\<lparr>table := (table lm)(key \<mapsto> AList.update txid (h\<lparr>mode := kExclusive\<rparr>) hs)\<rparr>
          else lm\<lparr>table := (table lm)(key \<mapsto> hs)\<rparr>)"

definition acquire_try :: "LockManager \<Rightarrow> TxId \<Rightarrow> TxId \<Rightarrow> bytes \<Rightarrow> LockMode \<Rightarrow> Attempt" where
  "acquire_try lm txid prio key want =
     (case (case table lm key of None \<Rightarrow> (False, False) | Some hs \<Rightarrow> scan_holders txid prio want hs False) of
        (conflict, older_conflict) \<Rightarrow>
          if \<not> conflict then Granted (grant lm txid prio key want)
          else if older_conflict then Die
          else Wait)"

definition release_key :: "TxId \<Rightarrow> bytes \<Rightarrow> (bytes \<Rightarrow> holders option) \<Rightarrow> (bytes \<Rightarrow> holders option)" where
  "release_key txid key t =
     (case t key of
        None \<Rightarrow> t
      | Some hs \<Rightarrow> let hs = AList.delete txid hs in
          if hs = [] then t(key := None) else t(key \<mapsto> hs))"

definition ReleaseAll :: "LockManager \<Rightarrow> TxId \<Rightarrow> LockManager" where
  "ReleaseAll lm txid =
     (case held lm txid of
        None \<Rightarrow> lm
      | Some ks \<Rightarrow> \<lparr>table = fold (release_key txid) ks (table lm), held = (held lm)(txid := None)\<rparr>)"

subsection \<open>Threads\<close>

text \<open>
  \<open>waiting t = Some (p, k, m)\<close>: transaction \<open>t\<close> (of priority \<open>p\<close>) is inside \<^verbatim>\<open>Acquire(t, p, k, m)\<close>,
  blocked on the condition variable.
\<close>

record LockSys =
  lm :: LockManager
  waiting :: "TxId \<Rightarrow> (TxId \<times> bytes \<times> LockMode) option"

definition LockSys_init :: LockSys where
  "LockSys_init = \<lparr>lm = LockManager_init, waiting = Map.empty\<rparr>"

datatype Event =
    Request TxId TxId bytes LockMode
  | Wake TxId
  | Timeout TxId
  | Release TxId

text \<open>The effect of one round of the loop on the system, and the status if \<^verbatim>\<open>Acquire\<close> returns.\<close>

definition round :: "LockSys \<Rightarrow> TxId \<Rightarrow> TxId \<Rightarrow> bytes \<Rightarrow> LockMode \<Rightarrow> Status option \<times> LockSys" where
  "round s txid prio key want =
     (case acquire_try (lm s) txid prio key want of
        Granted l \<Rightarrow> (Some kOk, \<lparr>lm = l, waiting = (waiting s)(txid := None)\<rparr>)
      | Die \<Rightarrow> (Some kBusy, s\<lparr>waiting := (waiting s)(txid := None)\<rparr>)
      | Wait \<Rightarrow> (None, s\<lparr>waiting := (waiting s)(txid \<mapsto> (prio, key, want))\<rparr>))"

inductive lstep :: "LockSys \<Rightarrow> Event \<Rightarrow> Status option \<Rightarrow> LockSys \<Rightarrow> bool" where
  request: "waiting s t = None \<Longrightarrow> round s t p k m = (r, s') \<Longrightarrow> lstep s (Request t p k m) r s'"
| wake: "waiting s t = Some (p, k, m) \<Longrightarrow> round s t p k m = (r, s') \<Longrightarrow> lstep s (Wake t) r s'"
| timeout: "waiting s t = Some w \<Longrightarrow> lstep s (Timeout t) (Some kBusy) (s\<lparr>waiting := (waiting s)(t := None)\<rparr>)"
| release: "waiting s t = None \<Longrightarrow> lstep s (Release t) None (s\<lparr>lm := ReleaseAll (lm s) t\<rparr>)"

inductive_cases lstepE: "lstep s e r s'"

inductive lreach :: "LockSys \<Rightarrow> bool" where
  init: "lreach LockSys_init"
| step: "lreach s \<Longrightarrow> lstep s e r s' \<Longrightarrow> lreach s'"

subsection \<open>Who holds what\<close>

definition holds :: "LockManager \<Rightarrow> TxId \<Rightarrow> bytes \<Rightarrow> Holder option" where
  "holds l t k = (case table l k of None \<Rightarrow> None | Some hs \<Rightarrow> map_of hs t)"

definition lock_inv :: "LockManager \<Rightarrow> bool" where
  "lock_inv l \<longleftrightarrow>
     (\<forall>k hs. table l k = Some hs \<longrightarrow> hs \<noteq> [] \<and> distinct (map fst hs)) \<and>
     (\<forall>k t u h g. holds l t k = Some h \<longrightarrow> holds l u k = Some g \<longrightarrow> mode h = kExclusive \<longrightarrow> u = t) \<and>
     (\<forall>t k. holds l t k \<noteq> None \<longleftrightarrow> (\<exists>ks. held l t = Some ks \<and> k \<in> set ks)) \<and>
     (\<forall>t ks. held l t = Some ks \<longrightarrow> distinct ks)"

text \<open>\<open>conflicting l t k m\<close>: the holders that stand in the way of the request.\<close>

definition conflicting :: "LockManager \<Rightarrow> TxId \<Rightarrow> bytes \<Rightarrow> LockMode \<Rightarrow> (TxId \<times> Holder) set" where
  "conflicting l t k m = {(u, h). holds l u k = Some h \<and> Conflicts t m u (mode h)}"

lemma scan_holders_eq:
  assumes "distinct (map fst hs)"
  shows "scan_holders t p m hs c =
    (c \<or> (\<exists>(u, h) \<in> set hs. Conflicts t m u (mode h)), \<exists>(u, h) \<in> set hs. Conflicts t m u (mode h) \<and> priority h < p)"
  using assms by (induction hs arbitrary: c) auto

lemma acquire_try_eq:
  assumes "lock_inv l"
  shows "acquire_try l t p k m =
    (if conflicting l t k m = {} then Granted (grant l t p k m)
     else if \<exists>(u, h) \<in> conflicting l t k m. priority h < p then Die else Wait)"
proof (cases "table l k")
  case None
  then show ?thesis by (simp add: acquire_try_def conflicting_def holds_def)
next
  case (Some hs)
  then have d: "distinct (map fst hs)" using assms by (simp add: lock_inv_def)
  have "conflicting l t k m = {(u, h). (u, h) \<in> set hs \<and> Conflicts t m u (mode h)}"
    using Some d by (auto simp: conflicting_def holds_def)
  then show ?thesis using Some scan_holders_eq [OF d, of t p m False] by (auto simp: acquire_try_def)
qed

lemma holds_grant:
  assumes "lock_inv l"
  shows "holds (grant l t p k m) u j =
    (if u = t \<and> j = k then
       Some (case holds l t k of None \<Rightarrow> \<lparr>mode = m, priority = p\<rparr>
             | Some h \<Rightarrow> if m = kExclusive then h\<lparr>mode := kExclusive\<rparr> else h)
     else holds l u j)"
  by (auto simp: holds_def grant_def Let_def update_conv' split: option.splits)

lemma holds_release:
  "holds \<lparr>table = release_key t k T, held = H\<rparr> u j =
     (if u = t \<and> j = k then None else holds \<lparr>table = T, held = H\<rparr> u j)"
proof -
  have "map_of (AList.delete t hs) u = (if u = t then None else map_of hs u)" for hs :: holders
    by (simp add: delete_conv')
  moreover have "map_of hs u = None" if "AList.delete t hs = []" "u \<noteq> t" for hs :: holders
    using that by (metis delete_conv' fun_upd_other map_of.simps(1))
  ultimately show ?thesis
    by (auto simp: holds_def release_key_def Let_def split: option.splits)
qed

lemma holds_fold_release:
  "holds \<lparr>table = fold (release_key t) ks T, held = H\<rparr> u j =
     (if u = t \<and> j \<in> set ks then None else holds \<lparr>table = T, held = H\<rparr> u j)"
  by (induction ks arbitrary: T) (auto simp: holds_release)

lemma holds_cong: "table l = table l' \<Longrightarrow> holds l = holds l'"
  by (simp add: holds_def fun_eq_iff)

lemma lock_inv_held: "lock_inv l \<Longrightarrow> holds l t k \<noteq> None \<longleftrightarrow> (\<exists>ks. held l t = Some ks \<and> k \<in> set ks)"
  by (simp only: lock_inv_def)

lemma lock_inv_excl:
  "lock_inv l \<Longrightarrow> holds l t k = Some h \<Longrightarrow> holds l u k = Some g \<Longrightarrow> mode h = kExclusive \<Longrightarrow> u = t"
  unfolding lock_inv_def by blast

lemma holds_ReleaseAll:
  assumes "lock_inv l"
  shows "holds (ReleaseAll l t) u j = (if u = t then None else holds l u j)"
proof (cases "held l t")
  case None
  then have "holds l t j = None" using lock_inv_held [OF assms, of t j] by simp
  then show ?thesis using None by (simp add: ReleaseAll_def)
next
  case (Some ks)
  have h: "holds \<lparr>table = table l, held = H\<rparr> = holds l" for H by (rule holds_cong) simp
  have "holds l t j = None" if "j \<notin> set ks" using lock_inv_held [OF assms, of t j] Some that by auto
  then show ?thesis using Some by (auto simp: ReleaseAll_def holds_fold_release h)
qed

subsection \<open>The invariant is kept\<close>

lemma grant_inv:
  assumes inv: "lock_inv l" and free: "conflicting l t k m = {}"
  shows "lock_inv (grant l t p k m)"
proof -
  let ?g = "grant l t p k m"
  note h = holds_grant [OF inv, of t p k m]
  have tab: "hs \<noteq> [] \<and> distinct (map fst hs)" if "table ?g j = Some hs" for j hs
  proof (cases "j = k")
    case False
    then show ?thesis using that inv by (auto simp: grant_def Let_def lock_inv_def split: option.splits if_splits)
  next
    case True
    have d: "distinct (map fst (case table l k of None \<Rightarrow> [] | Some hs \<Rightarrow> hs))"
      using inv by (auto simp: lock_inv_def split: option.splits)
    then show ?thesis
      using that True inv
      by (auto simp: grant_def Let_def lock_inv_def update_nonempty distinct_update split: option.splits if_splits)
  qed
  have others: "mode g = kShared \<and> (m = kShared)" if "holds l u k = Some g" "u \<noteq> t" for u g
  proof -
    have "\<not> Conflicts t m u (mode g)" using free that(1) by (auto simp: conflicting_def)
    then show ?thesis using that(2) by (cases "mode g"; cases m) (auto simp: Conflicts_def)
  qed
  have "u = v" if "holds ?g v j = Some a" "holds ?g u j = Some b" "mode a = kExclusive" for u v j a b
  proof (cases "j = k")
    case False
    then have "holds l v j = Some a" "holds l u j = Some b" using that h by simp_all
    then show ?thesis using lock_inv_excl [OF inv] that(3) by blast
  next
    case True
    consider "u = t" "v = t" | "u \<noteq> t" "v \<noteq> t" | "u = t" "v \<noteq> t" | "u \<noteq> t" "v = t" by blast
    then show ?thesis
    proof cases
      case 2
      then have "holds l v j = Some a" "holds l u j = Some b" using that h by simp_all
      then show ?thesis using lock_inv_excl [OF inv] that(3) by blast
    next
      case 3
      then have "holds l v k = Some a" using that(1) h True by simp
      then have "mode a = kShared" using others 3 by blast
      then show ?thesis using that(3) by simp
    next
      case 4
      then have b: "holds l u k = Some b" using that(2) h True by simp
      then have m: "m = kShared" using others 4 by blast
      have "holds l t k = Some a \<or> a = \<lparr>mode = m, priority = p\<rparr>"
        using that(1) h [of t k] 4 True m by (auto split: option.splits)
      then have "holds l t k = Some a" using that(3) m by auto
      then have "u = t" using lock_inv_excl [OF inv _ b] that(3) by blast
      then show ?thesis using 4 by simp
    qed simp
  qed
  moreover have "holds ?g u j \<noteq> None \<longleftrightarrow> (\<exists>ks. held ?g u = Some ks \<and> j \<in> set ks)" for u j
  proof -
    have t: "map_of (case table l k of None \<Rightarrow> [] | Some hs \<Rightarrow> hs) t = holds l t k"
      by (auto simp: holds_def split: option.split)
    have "held ?g = (if holds l t k = None then (held l)(t \<mapsto> (case held l t of None \<Rightarrow> [] | Some ks \<Rightarrow> ks) @ [k]) else held l)"
      by (auto simp: grant_def Let_def t split: option.split)
    then show ?thesis
      using lock_inv_held [OF inv, of u j] lock_inv_held [OF inv, of t k] by (auto simp: h split: option.splits if_splits)
  qed
  moreover have "distinct ks" if "held ?g u = Some ks" for u ks
  proof -
    have t: "map_of (case table l k of None \<Rightarrow> [] | Some hs \<Rightarrow> hs) t = holds l t k"
      by (auto simp: holds_def split: option.split)
    have "\<forall>t ks. held l t = Some ks \<longrightarrow> distinct ks" using inv by (simp add: lock_inv_def)
    moreover have "k \<notin> set ks" if "holds l t k = None" "held l t = Some ks" for ks
      using lock_inv_held [OF inv, of t k] that by auto
    ultimately show ?thesis using that
      by (auto simp: grant_def Let_def t split: option.splits if_splits)
  qed
  ultimately show ?thesis unfolding lock_inv_def using tab by blast
qed

lemma release_key_table:
  assumes "\<forall>k hs. T k = Some hs \<longrightarrow> hs \<noteq> [] \<and> distinct (map fst hs)"
  shows "\<forall>k hs. fold (release_key t) ks T k = Some hs \<longrightarrow> hs \<noteq> [] \<and> distinct (map fst hs)"
  using assms
proof (induction ks arbitrary: T)
  case (Cons j ks)
  have "\<forall>k hs. release_key t j T k = Some hs \<longrightarrow> hs \<noteq> [] \<and> distinct (map fst hs)"
  proof (cases "T j")
    case None
    then show ?thesis using Cons.prems by (simp add: release_key_def)
  next
    case (Some hj)
    then have "distinct (map fst hj)" using Cons.prems by simp
    then have "distinct (map fst (AList.delete t hj))" by (rule distinct_delete)
    then show ?thesis using Cons.prems Some by (simp add: release_key_def Let_def)
  qed
  from Cons.IH [OF this] show ?case by (simp only: fold.simps comp_apply)
qed simp

lemma ReleaseAll_inv:
  assumes inv: "lock_inv l"
  shows "lock_inv (ReleaseAll l t)"
proof -
  let ?r = "ReleaseAll l t"
  note h = holds_ReleaseAll [OF inv, of t]
  have tb: "\<forall>k hs. table l k = Some hs \<longrightarrow> hs \<noteq> [] \<and> distinct (map fst hs)" using inv by (simp add: lock_inv_def)
  have "\<forall>k hs. table ?r k = Some hs \<longrightarrow> hs \<noteq> [] \<and> distinct (map fst hs)"
  proof (cases "held l t")
    case None
    then show ?thesis using tb by (simp add: ReleaseAll_def)
  next
    case (Some ks)
    then show ?thesis using release_key_table [OF tb, of t ks] by (simp add: ReleaseAll_def)
  qed
  moreover have "held ?r = (held l)(t := None)" by (auto simp: ReleaseAll_def split: option.split)
  moreover have "\<forall>t ks. held l t = Some ks \<longrightarrow> distinct ks" using inv by (simp add: lock_inv_def)
  moreover have "\<forall>k t u h g. holds l t k = Some h \<longrightarrow> holds l u k = Some g \<longrightarrow> mode h = kExclusive \<longrightarrow> u = t"
    using inv unfolding lock_inv_def by blast
  ultimately show ?thesis
    unfolding lock_inv_def using h lock_inv_held [OF inv] by auto
qed

lemma round_inv:
  assumes "lock_inv (lm s)" and "round s t p k m = (r, s')"
  shows "lock_inv (lm s')"
  using assms grant_inv [OF assms(1)] by (auto simp: round_def acquire_try_eq split: if_splits)

lemma lstep_inv: "lstep s e r s' \<Longrightarrow> lock_inv (lm s) \<Longrightarrow> lock_inv (lm s')"
  by (erule lstepE) (auto simp: ReleaseAll_inv dest: round_inv)

lemma lreach_inv: "lreach s \<Longrightarrow> lock_inv (lm s)"
proof (induction rule: lreach.induct)
  case init
  then show ?case by (simp add: LockSys_init_def LockManager_init_def lock_inv_def holds_def)
next
  case (step s e r s')
  then show ?case by (blast intro: lstep_inv)
qed

definition waits_for :: "LockSys \<Rightarrow> TxId \<Rightarrow> TxId \<Rightarrow> bool" where
  "waits_for s t u \<longleftrightarrow> (case waiting s t of None \<Rightarrow> False
     | Some (p, k, m) \<Rightarrow> \<exists>h. (u, h) \<in> conflicting (lm s) t k m)"

lemma begin_n_ids: "fst (begin_n n tm) = map (\<lambda>i. next_id tm + of_nat i) [0 ..< n]"
proof (induction n arbitrary: tm)
  case (Suc n)
  let ?tm = "tm\<lparr>next_id := next_id tm + 1\<rparr>"
  have "fst (begin_n (Suc n) tm) = next_id tm # fst (begin_n n ?tm)" by (simp add: Txn_Begin_def split_beta)
  also have "\<dots> = map (\<lambda>i. next_id tm + of_nat i) (0 # map Suc [0 ..< n])" unfolding Suc.IH by (simp add: add.assoc)
  also have "0 # map Suc [0 ..< n] = [0 ..< Suc n]" by (simp add: map_Suc_upt upt_conv_Cons del: upt_Suc)
  finally show ?case .
qed simp

lemma holds_round:
  assumes "lock_inv (lm s)" and "round s t p k m = (r, s')" and "r \<noteq> Some kOk"
  shows "lm s' = lm s"
  using assms by (auto simp: round_def split: Attempt.splits)

lemma lstep_keeps_locks:
  assumes "lock_inv (lm s)" and "lstep s e r s'" and "holds (lm s) t k = Some h" and "e \<noteq> Release t"
  shows "\<exists>h'. holds (lm s') t k = Some h' \<and> (mode h = kExclusive \<longrightarrow> mode h' = kExclusive) \<and> priority h' = priority h"
proof -
  have gr: "\<exists>h'. holds (lm s') t k = Some h' \<and> (mode h = kExclusive \<longrightarrow> mode h' = kExclusive) \<and> priority h' = priority h"
    if "round s u p j m = (r, s')" for u p j m
    using that assms(1,3) by (auto simp: round_def holds_grant acquire_try_eq split: if_splits)
  from assms(2) show ?thesis
    by (rule lstepE) (use gr assms holds_ReleaseAll [OF assms(1)] in auto)
qed

subsection \<open>Properties\<close>

text \<open>
  C21: in every state the lock manager can reach, under any interleaving of requests, wake-ups,
  timeouts and releases, a transaction that holds a key exclusively is its only holder, and the
  list of keys recorded for a transaction is exactly the keys it holds. Every step keeps the
  locks of the other transactions, and a transaction's own until it releases them all
  (strict two-phase locking).
\<close>

theorem reachable_locks_exclude:
  assumes "lreach s"
  shows "(holds (lm s) t k = Some h \<longrightarrow> holds (lm s) u k = Some g \<longrightarrow> mode h = kExclusive \<longrightarrow> u = t) \<and>
    (holds (lm s) t k \<noteq> None \<longleftrightarrow> (\<exists>ks. held (lm s) t = Some ks \<and> k \<in> set ks)) \<and>
    (lstep s e r s' \<longrightarrow> holds (lm s) t k = Some h \<longrightarrow> e \<noteq> Release t \<longrightarrow>
       (\<exists>h'. holds (lm s') t k = Some h' \<and> (mode h = kExclusive \<longrightarrow> mode h' = kExclusive)))"
  using lock_inv_excl [OF lreach_inv [OF assms]] lock_inv_held [OF lreach_inv [OF assms], of t k]
    lstep_keeps_locks [OF lreach_inv [OF assms]] by blast

lemma one_grant: "lstep LockSys_init (Request 1 1 [7] kExclusive) (Some kOk) (snd (round LockSys_init 1 1 [7] kExclusive))"
  by (rule lstep.request) (auto simp: LockSys_init_def round_def acquire_try_def LockManager_init_def)

theorem reachable_locks_exclude_witness:
  "let s = snd (round LockSys_init 1 1 [7] kExclusive)
   in lreach s \<and> holds (lm s) 1 [7] = Some \<lparr>mode = kExclusive, priority = 1\<rparr> \<and> holds (lm s) 2 [7] = None"
proof -
  let ?s = "snd (round LockSys_init 1 1 [7] kExclusive)"
  have r: "lreach ?s" by (rule lreach.step [OF lreach.init one_grant])
  have h: "holds (lm ?s) 1 [7] = Some \<lparr>mode = kExclusive, priority = 1\<rparr>"
    by (simp add: round_def acquire_try_def LockSys_init_def LockManager_init_def grant_def Let_def holds_def)
  then have "holds (lm ?s) 2 [7] = None"
    using reachable_locks_exclude [OF r, of 1 "[7]" "\<lparr>mode = kExclusive, priority = 1\<rparr>" 2] by fastforce
  with r h show ?thesis by simp
qed

text \<open>
  A round of \<^verbatim>\<open>Acquire\<close> grants the lock exactly when no other transaction holds the key
  in a conflicting mode; the requester then holds it at least as strongly as requested and
  no other entry of the table changes. If the round does not grant, the table is unchanged.
  \<^verbatim>\<open>ReleaseAll\<close> removes all locks of the transaction and no others.
\<close>

theorem Acquire_grants_iff_compatible:
  assumes "lreach s" and "round s t p k m = (r, s')"
  shows "(r = Some kOk \<longleftrightarrow>
            (\<forall>u h. u \<noteq> t \<longrightarrow> holds (lm s) u k = Some h \<longrightarrow> m = kShared \<and> mode h = kShared)) \<and>
    (r = Some kOk \<longrightarrow> waiting s' t = None \<and>
       (\<exists>h. holds (lm s') t k = Some h \<and> (m = kExclusive \<longrightarrow> mode h = kExclusive)) \<and>
       (\<forall>u j. u \<noteq> t \<or> j \<noteq> k \<longrightarrow> holds (lm s') u j = holds (lm s) u j)) \<and>
    (r \<noteq> Some kOk \<longrightarrow> lm s' = lm s) \<and>
    (\<forall>u j. holds (ReleaseAll (lm s) t) u j = (if u = t then None else holds (lm s) u j))"
proof -
  note inv = lreach_inv [OF assms(1)]
  have c: "conflicting (lm s) t k m = {} \<longleftrightarrow>
      (\<forall>u h. u \<noteq> t \<longrightarrow> holds (lm s) u k = Some h \<longrightarrow> m = kShared \<and> mode h = kShared)"
    using LockMode.exhaust by (auto simp: conflicting_def Conflicts_def)
  have ok: "r = Some kOk \<longleftrightarrow> conflicting (lm s) t k m = {}"
    using assms(2) by (auto simp: round_def acquire_try_eq [OF inv] split: if_splits)
  have g: "lm s' = grant (lm s) t p k m \<and> waiting s' t = None" if "r = Some kOk"
    using assms(2) that by (auto simp: round_def acquire_try_eq [OF inv] split: if_splits)
  have "waiting s' t = None \<and> (\<exists>h. holds (lm s') t k = Some h \<and> (m = kExclusive \<longrightarrow> mode h = kExclusive)) \<and>
       (\<forall>u j. u \<noteq> t \<or> j \<noteq> k \<longrightarrow> holds (lm s') u j = holds (lm s) u j)" if "r = Some kOk"
    using g [OF that] by (auto simp: holds_grant [OF inv] split: option.split)
  moreover have "lm s' = lm s" if "r \<noteq> Some kOk" using holds_round [OF inv assms(2) that] .
  ultimately show ?thesis using ok c holds_ReleaseAll [OF inv] by simp
qed

theorem Acquire_grants_iff_compatible_witness:
  "let s = snd (round LockSys_init 1 1 [7] kExclusive)
   in lreach s \<and> fst (round s 2 2 [7] kShared) \<noteq> Some kOk \<and> fst (round s 2 2 [8] kShared) = Some kOk"
proof -
  define s where "s = snd (round LockSys_init 1 1 [7] kExclusive)"
  have r: "lreach s" unfolding s_def by (rule lreach.step [OF lreach.init one_grant])
  obtain r1 s1 where a: "round s 2 2 [7] kShared = (r1, s1)" by fastforce
  obtain r2 s2 where b: "round s 2 2 [8] kShared = (r2, s2)" by fastforce
  have h: "holds (lm s) 1 [7] = Some \<lparr>mode = kExclusive, priority = 1\<rparr>" "holds (lm s) u [8] = None" for u
    by (simp_all add: s_def round_def acquire_try_def LockSys_init_def LockManager_init_def grant_def Let_def holds_def)
  note g1 = Acquire_grants_iff_compatible [OF r a, THEN conjunct1] and g2 = Acquire_grants_iff_compatible [OF r b, THEN conjunct1]
  have "(1 :: TxId) \<noteq> 2" by simp
  then have "r1 \<noteq> Some kOk" using g1 h(1) by (metis Holder.select_convs(1) LockMode.distinct(1))
  moreover have "r2 = Some kOk" using g2 h(2) by simp
  ultimately show ?thesis using r a b by (simp add: s_def [symmetric])
qed

text \<open>
  Wait-die. A round makes a transaction wait only if every conflicting holder is at least
  as young, and refuses it (\<^verbatim>\<open>Busy\<close>) only if some conflicting holder is strictly older. In particular
  a transaction at least as old as every holder of the key is never refused.
\<close>

theorem wait_die_by_age:
  assumes "lreach s" and "round s t p k m = (r, s')"
  shows "(r = None \<longrightarrow> conflicting (lm s) t k m \<noteq> {} \<and> (\<forall>(u, h) \<in> conflicting (lm s) t k m. p \<le> priority h)) \<and>
    (r = Some kBusy \<longrightarrow> (\<exists>(u, h) \<in> conflicting (lm s) t k m. priority h < p)) \<and>
    ((\<forall>u h. holds (lm s) u k = Some h \<longrightarrow> p \<le> priority h) \<longrightarrow> r = None \<or> r = Some kOk) \<and>
    (\<forall>u h. (u, h) \<in> conflicting (lm s) t k m \<longrightarrow> r = None \<longrightarrow> waits_for s' t u)"
proof -
  note inv = lreach_inv [OF assms(1)]
  have cases: "(conflicting (lm s) t k m = {} \<and> r = Some kOk) \<or>
      ((\<exists>(u, h) \<in> conflicting (lm s) t k m. priority h < p) \<and> r = Some kBusy) \<or>
      (conflicting (lm s) t k m \<noteq> {} \<and> (\<forall>(u, h) \<in> conflicting (lm s) t k m. p \<le> priority h) \<and> r = None \<and>
       lm s' = lm s \<and> waiting s' t = Some (p, k, m))"
    using assms(2) by (auto simp: round_def acquire_try_eq [OF inv] not_less split: if_splits)
  moreover have "holds (lm s) u k = Some h" if "(u, h) \<in> conflicting (lm s) t k m" for u h
    using that by (simp add: conflicting_def)
  ultimately show ?thesis by (fastforce simp: waits_for_def)
qed

theorem wait_die_by_age_witness:
  "let s = snd (round LockSys_init 2 2 [7] kExclusive)
   in fst (round s 1 1 [7] kShared) = None \<and> fst (round s 3 3 [7] kShared) = Some kBusy"
proof -
  define s where "s = snd (round LockSys_init 2 2 [7] kExclusive)"
  have st: "lstep LockSys_init (Request 2 2 [7] kExclusive) (Some kOk) s"
    unfolding s_def
    by (rule lstep.request) (auto simp: LockSys_init_def round_def acquire_try_def LockManager_init_def)
  have r: "lreach s" by (rule lreach.step [OF lreach.init st])
  have h: "holds (lm s) u [7] = (if u = 2 then Some \<lparr>mode = kExclusive, priority = 2\<rparr> else None)" for u
    by (simp add: s_def round_def acquire_try_def LockSys_init_def LockManager_init_def grant_def Let_def holds_def)
  have c: "conflicting (lm s) t [7] kShared = {(2, \<lparr>mode = kExclusive, priority = 2\<rparr>)}" if "t \<noteq> 2" for t
    using that by (auto simp: conflicting_def h Conflicts_def split: if_splits)
  obtain r1 s1 where a: "round s 1 1 [7] kShared = (r1, s1)" by fastforce
  obtain r3 s3 where b: "round s 3 3 [7] kShared = (r3, s3)" by fastforce
  have k: "r1 = None \<or> r1 = Some kOk" using wait_die_by_age [OF r a] h by (simp split: if_splits)
  have "r1 \<noteq> Some kOk" "r3 \<noteq> Some kOk" "r3 = None \<or> r3 = Some kBusy"
    using a b c [of 1] c [of 3] by (auto simp: round_def acquire_try_eq [OF lreach_inv [OF r]] split: if_splits)
  moreover have "r3 \<noteq> None" using wait_die_by_age [OF r b] c [of 3] by auto
  ultimately show ?thesis using k a b by (simp add: s_def [symmetric])
qed

text \<open>
  The waits-for graph can have a cycle. Transaction 5 shares key \<open>a\<close>, transaction 2 holds \<open>b\<close>
  and, being older than 5, waits for \<open>a\<close> exclusively; transaction 1, older than both, is granted \<open>a\<close> shared past
  the waiter and then waits for \<open>b\<close>. Now 1 waits for 2 and 2 waits for 1, until some
  release or the timeout wakes one of them. The header comment of the lock manager excludes
  this.
\<close>

fun run :: "(TxId \<times> bytes \<times> LockMode) list \<Rightarrow> LockSys \<Rightarrow> LockSys" where
  "run [] s = s"
| "run ((t, k, m) # rs) s = run rs (snd (round s t t k m))"

fun run_ok :: "(TxId \<times> bytes \<times> LockMode) list \<Rightarrow> LockSys \<Rightarrow> bool" where
  "run_ok [] s = True"
| "run_ok ((t, k, m) # rs) s = (waiting s t = None \<and> run_ok rs (snd (round s t t k m)))"

lemma run_reach: "lreach s \<Longrightarrow> run_ok rs s \<Longrightarrow> lreach (run rs s)"
proof (induction rs arbitrary: s)
  case (Cons x rs)
  obtain t k m where x: "x = (t, k, m)" by (metis prod_cases3)
  have "lstep s (Request t t k m) (fst (round s t t k m)) (snd (round s t t k m))"
    using Cons.prems x by (intro lstep.request) auto
  then show ?case using Cons x by (auto intro: lreach.step)
qed simp

definition cycle_run :: "(TxId \<times> bytes \<times> LockMode) list" where
  "cycle_run = [(5, [97], kShared), (2, [98], kExclusive), (2, [97], kExclusive), (1, [97], kShared), (1, [98], kExclusive)]"

lemmas lock_eval = round_def acquire_try_def grant_def LockSys_init_def LockManager_init_def Let_def Conflicts_def

theorem waits_for_cycle_reachable:
  "let s = run cycle_run LockSys_init in lreach s \<and> waits_for s 1 2 \<and> waits_for s 2 1"
proof -
  let ?s = "run cycle_run LockSys_init"
  have "run_ok cycle_run LockSys_init" by (simp add: cycle_run_def lock_eval)
  then have "lreach ?s" by (intro run_reach lreach.init)
  moreover have "waiting ?s 1 = Some (1, [98], kExclusive)" "waiting ?s 2 = Some (2, [97], kExclusive)"
    by (simp_all add: cycle_run_def lock_eval)
  moreover have "holds (lm ?s) 2 [98] = Some \<lparr>mode = kExclusive, priority = 2\<rparr>"
    "holds (lm ?s) 1 [97] = Some \<lparr>mode = kShared, priority = 1\<rparr>"
    by (simp_all add: cycle_run_def lock_eval holds_def)
  ultimately show ?thesis by (simp add: waits_for_def conflicting_def Conflicts_def)
qed

text \<open>
  The transaction ids a manager hands out, up to \<open>2\<^sup>6\<^sup>4 - 1\<close> of them, are distinct, increasing and never the
  reserved id 0; as priorities of first attempts they are therefore distinct ages.
\<close>

theorem txids_strictly_increase:
  assumes "n < 2 ^ 64"
  shows "sorted_wrt (<) (fst (begin_n n TxnManager_init)) \<and> kInvalidTxId \<notin> set (fst (begin_n n TxnManager_init)) \<and>
    length (fst (begin_n n TxnManager_init)) = n"
proof -
  have ids: "fst (begin_n n TxnManager_init) = map (\<lambda>i. of_nat (Suc i)) [0 ..< n]"
    by (simp add: begin_n_ids TxnManager_init_def kFirstTxId_def)
  have u: "unat (of_nat (Suc i) :: TxId) = Suc i" if "i < n" for i
    by (rule unat_of_nat_less) (use that assms in simp)
  have "sorted_wrt (<) (map (\<lambda>i. of_nat (Suc i) :: TxId) [0 ..< n])"
    using u by (auto simp: sorted_wrt_iff_nth_less word_less_nat_alt simp del: of_nat_Suc)
  moreover have "(of_nat (Suc i) :: TxId) \<noteq> 0" if "i < n" for i
    using u [OF that] by (metis nat.distinct(1) unat_0)
  ultimately show ?thesis unfolding ids by (auto simp: kInvalidTxId_def simp del: of_nat_Suc)
qed

theorem txids_strictly_increase_witness:
  "fst (begin_n 3 TxnManager_init) = [1, 2, 3] \<and> sorted_wrt (<) (fst (begin_n 3 TxnManager_init))"
  using txids_strictly_increase [of 3]
  by (simp add: numeral_3_eq_3 Txn_Begin_def TxnManager_init_def kFirstTxId_def)

end
