(* ===== verification/Db.thy ===== *)
theory Db
  imports BTree_Store Locks
begin

section \<open>The database (db.h, db.cc)\<close>

text \<open>
  The operations of \<^verbatim>\<open>DbImpl\<close> and \<^verbatim>\<open>TxnImpl\<close>, recovery and \<^verbatim>\<open>DB::Open\<close>. The handle's pager, log writer, pool and
  tree are the state of the buffer pool. An operation runs alone: the writer and checkpoint latches, which exclude a checkpoint
  from running during a write, do not appear. Operations that follow page links are partial, with \<open>None\<close> for
  a run that does not end.
\<close>

subsection \<open>The handle\<close>

record Options =
  create_if_missing :: bool
  sync_on_write :: bool
  opt_verify_checksums :: bool
  buffer_pool_frames :: nat
  max_wal_bytes :: u64

definition Options_init :: Options where
  "Options_init = \<lparr>create_if_missing = False, sync_on_write = True, opt_verify_checksums = True, buffer_pool_frames = 0,
     max_wal_bytes = 4 * 1024 * 1024\<rparr>"

record DbImpl =
  path :: string
  options :: Options
  needs_reopen :: bool
  active_begun_txns :: int
  txn_manager :: TxnManager
  lock_manager :: LockManager
  lock_file :: PosixFile
  pool :: BufferPool

definition DbImpl_init :: "string \<Rightarrow> Options \<Rightarrow> PosixFile \<Rightarrow> Pager \<Rightarrow> LogWriter \<Rightarrow> Io \<Rightarrow> nat \<Rightarrow> DbImpl" where
  "DbImpl_init p opts lock pgr w i pool_frames =
     \<lparr>path = p, options = opts, needs_reopen = False, active_begun_txns = 0, txn_manager = TxnManager_init,
      lock_manager = LockManager_init, lock_file = lock, pool = BufferPool_init pgr (Some w) i pool_frames\<rparr>"

text \<open>Calls on the handle's log writer and pager, lifted to the pool's state.\<close>

definition wal_flush :: "BufferPool \<Rightarrow> Status \<times> BufferPool" where
  "wal_flush b = (case wal b of None \<Rightarrow> (kOk, b)
     | Some w \<Rightarrow> (case Flush w (io b) of (s, w, i) \<Rightarrow> (s, b\<lparr>wal := Some w, io := i\<rparr>)))"

definition wal_append :: "LogRecord \<Rightarrow> BufferPool \<Rightarrow> Status \<times> BufferPool" where
  "wal_append r b = (case wal b of None \<Rightarrow> (kOk, b) | Some w \<Rightarrow> (kOk, b\<lparr>wal := Some (snd (Append w r))\<rparr>))"

definition wal_truncate :: "Lsn \<Rightarrow> BufferPool \<Rightarrow> Status \<times> BufferPool" where
  "wal_truncate l b = (case wal b of None \<Rightarrow> (kOk, b)
     | Some w \<Rightarrow> (case Wal_Truncate w l (io b) of (s, w, i) \<Rightarrow> (s, b\<lparr>wal := Some w, io := i\<rparr>)))"

definition wal_end :: "BufferPool \<Rightarrow> Lsn" where
  "wal_end b = (case wal b of None \<Rightarrow> kInvalidLsn | Some w \<Rightarrow> end_lsn w)"

definition wal_size :: "BufferPool \<Rightarrow> u64" where
  "wal_size b = (case wal b of None \<Rightarrow> 0 | Some w \<Rightarrow> SizeBytes w)"

definition pager_sync_data :: "BufferPool \<Rightarrow> Status \<times> BufferPool" where
  "pager_sync_data b = (case SyncData (pager b) (io b) of (s, p, i) \<Rightarrow> (s, b\<lparr>pager := p, io := i\<rparr>))"

definition pager_sync :: "BufferPool \<Rightarrow> Status \<times> BufferPool" where
  "pager_sync b = (case Pager_Sync (pager b) (io b) of (s, p, i) \<Rightarrow> (s, b\<lparr>pager := p, io := i\<rparr>))"

subsection \<open>Checkpoints\<close>

definition checkpoint_pages :: "BufferPool \<Rightarrow> Status \<times> BufferPool" where
  "checkpoint_pages b = andthen (andthen (wal_flush b) FlushAll) pager_sync_data"

definition checkpoint_log :: "BufferPool \<Rightarrow> Status \<times> BufferPool" where
  "checkpoint_log b =
     andthen (andthen (wal_append (LogRecord_init\<lparr>rtype := kCheckpoint, op_end := True\<rparr>) b) wal_flush) (\<lambda>b.
       let l = wal_end b in
       andthen (pager_sync (b\<lparr>pager := SetCheckpointLsn (pager b) l\<rparr>)) (wal_truncate l))"

definition CheckpointLocked :: "DbImpl \<Rightarrow> Status \<times> DbImpl" where
  "CheckpointLocked db =
     (if needs_reopen db then (kInternal, db)
      else case checkpoint_pages (pool db) of (s, b) \<Rightarrow>
        let db = db\<lparr>pool := b\<rparr> in
        if s \<noteq> kOk then (s, db)
        else if 0 < active_begun_txns db then (kOk, db)
        else case checkpoint_log (pool db) of (s, b) \<Rightarrow> (s, db\<lparr>pool := b\<rparr>))"

definition Checkpoint :: "DbImpl \<Rightarrow> Status \<times> DbImpl" where
  "Checkpoint db = CheckpointLocked db"

definition MaybeAutoCheckpoint :: "DbImpl \<Rightarrow> Status \<times> DbImpl" where
  "MaybeAutoCheckpoint db =
     (if max_wal_bytes (options db) = 0 then (kOk, db)
      else if wal_size (pool db) < max_wal_bytes (options db) then (kOk, db)
      else if 0 < active_begun_txns db then (kOk, db)
      else if wal_size (pool db) < max_wal_bytes (options db) then (kOk, db)
      else CheckpointLocked db)"

text \<open>The destructor: a best-effort checkpoint whose status is ignored.\<close>

definition DbImpl_destroy :: "DbImpl \<Rightarrow> DbImpl" where
  "DbImpl_destroy db = snd (Checkpoint db)"

subsection \<open>Autocommit operations\<close>

definition Db_Get :: "key \<Rightarrow> DbImpl \<Rightarrow> (bytes Result \<times> DbImpl) option" where
  "Db_Get k db = map_option (\<lambda>(r, b). (r, db\<lparr>pool := b\<rparr>)) (Get k (pool db))"

text \<open>What follows a successful tree write: the flush of the log, if configured, and the automatic checkpoint.\<close>

definition acknowledge :: "DbImpl \<Rightarrow> Status \<times> DbImpl" where
  "acknowledge db =
     (case (if sync_on_write (options db) then wal_flush (pool db) else (kOk, pool db)) of (s, b) \<Rightarrow>
        let db = db\<lparr>pool := b\<rparr> in
        if s \<noteq> kOk then (s, db) else MaybeAutoCheckpoint db)"

definition Db_Put :: "key \<Rightarrow> bytes \<Rightarrow> DbImpl \<Rightarrow> (Status \<times> DbImpl) option" where
  "Db_Put k v db =
     (if needs_reopen db then Some (kInternal, db)
      else case Txn_Begin (txn_manager db) of (tx, tm) \<Rightarrow>
        let db = db\<lparr>txn_manager := tm\<rparr> in
        map_option (\<lambda>(s, _, b).
          let db = db\<lparr>pool := b\<rparr> in
          if s \<noteq> kOk then (s, if s \<noteq> kInvalidArgument then db\<lparr>needs_reopen := True\<rparr> else db)
          else acknowledge db) (Put k v tx False (pool db)))"

definition Db_Delete :: "key \<Rightarrow> DbImpl \<Rightarrow> (Status \<times> DbImpl) option" where
  "Db_Delete k db =
     (if needs_reopen db then Some (kInternal, db)
      else case Txn_Begin (txn_manager db) of (tx, tm) \<Rightarrow>
        let db = db\<lparr>txn_manager := tm\<rparr> in
        map_option (\<lambda>(s, _, b).
          let db = db\<lparr>pool := b\<rparr> in
          if s \<noteq> kOk then (s, if s \<noteq> kNotFound then db\<lparr>needs_reopen := True\<rparr> else db)
          else acknowledge db) (Delete k tx False (pool db)))"

definition Db_Contains :: "key \<Rightarrow> DbImpl \<Rightarrow> (bool \<times> DbImpl) option" where
  "Db_Contains k db = map_option (\<lambda>(r, b). (r, db\<lparr>pool := b\<rparr>)) (Contains k (pool db))"

text \<open>The callback of a scan carries the caller's state; its first result says whether to go on.\<close>

partial_function (option) scan_loop ::
  "key \<Rightarrow> ('s \<Rightarrow> key \<Rightarrow> bytes \<Rightarrow> bool \<times> 's) \<Rightarrow> Cursor \<Rightarrow> 's \<Rightarrow> BufferPool \<Rightarrow> (Cursor \<times> 's \<times> BufferPool) option" where
  "scan_loop end_key callback c st b =
     (if \<not> cvalid c then Some (c, st, b)
      else if end_key \<noteq> [] \<and> end_key \<le> ckey c then Some (c, st, b)
      else case callback st (ckey c) (cvalue c) of (go, st) \<Rightarrow>
        if \<not> go then Some (c, st, b)
        else Option.bind (Next c b) (\<lambda>(c, b). scan_loop end_key callback c st b))"

definition Db_Scan :: "key \<Rightarrow> key \<Rightarrow> ('s \<Rightarrow> key \<Rightarrow> bytes \<Rightarrow> bool \<times> 's) \<Rightarrow> 's \<Rightarrow> DbImpl \<Rightarrow> (Status \<times> 's \<times> DbImpl) option" where
  "Db_Scan start end_key callback st db =
     Option.bind (Seek start (pool db)) (\<lambda>(c, b).
       map_option (\<lambda>(c, st, b). (cstatus c, st, db\<lparr>pool := b\<rparr>)) (scan_loop end_key callback c st b))"

definition Db_Sync :: "DbImpl \<Rightarrow> Status \<times> DbImpl" where
  "Db_Sync db = (case wal_flush (pool db) of (s, b) \<Rightarrow> (s, db\<lparr>pool := b\<rparr>))"

definition GetStats :: "DbImpl \<Rightarrow> nat \<times> nat \<times> nat" where
  "GetStats db = (let s = stats (pool db) in (hits s, misses s, evictions s))"

definition ApproximateKeyCount :: "DbImpl \<Rightarrow> u64" where
  "ApproximateKeyCount db = KeyCount (pager (pool db))"

definition GetPath :: "DbImpl \<Rightarrow> string" where
  "GetPath db = path db"

subsection \<open>Explicit transactions\<close>

type_synonym UndoAction = "key \<times> bytes option"

record TxnImpl =
  txn_id :: TxId
  txn_priority :: TxId
  undo :: "UndoAction list"
  active :: bool
  begun :: bool

definition TxnImpl_init :: "TxId \<Rightarrow> TxId \<Rightarrow> TxnImpl" where
  "TxnImpl_init tx prio = \<lparr>txn_id = tx, txn_priority = prio, undo = [], active = True, begun = False\<rparr>"

definition Db_Begin :: "TxId \<Rightarrow> DbImpl \<Rightarrow> TxnImpl Result \<times> DbImpl" where
  "Db_Begin retry_of db =
     (if needs_reopen db then (Inl kInternal, db)
      else case Txn_Begin (txn_manager db) of (tx, tm) \<Rightarrow>
        (Inr (TxnImpl_init tx (if retry_of = kInvalidTxId then tx else retry_of)), db\<lparr>txn_manager := tm\<rparr>))"

definition LogTxnMarker :: "TxId \<Rightarrow> LogRecordType \<Rightarrow> DbImpl \<Rightarrow> Status \<times> DbImpl" where
  "LogTxnMarker tx t db =
     (case wal_append (LogRecord_init\<lparr>rtype := t, txid := tx, op_end := True, rpage := kInvalidPageId\<rparr>) (pool db) of
        (s, b) \<Rightarrow> (s, db\<lparr>pool := b\<rparr>))"

definition Poison :: "TxnImpl \<Rightarrow> DbImpl \<Rightarrow> TxnImpl \<times> DbImpl" where
  "Poison t db = (t\<lparr>active := False\<rparr>, db\<lparr>needs_reopen := True, lock_manager := ReleaseAll (lock_manager db) (txn_id t)\<rparr>)"

definition EnsureBegun :: "TxnImpl \<Rightarrow> DbImpl \<Rightarrow> Status \<times> TxnImpl \<times> DbImpl" where
  "EnsureBegun t db =
     (if begun t then (kOk, t, db)
      else case LogTxnMarker (txn_id t) kBegin db of (s, db) \<Rightarrow>
        if s \<noteq> kOk then (s, t, db)
        else (kOk, t\<lparr>begun := True\<rparr>, db\<lparr>active_begun_txns := active_begun_txns db + 1\<rparr>))"

text \<open>
  The round of \<^verbatim>\<open>Acquire\<close> after which it returns. \<open>timeout\<close> says that the wait has run into the deadline; without it a
  round that has to wait is not the last one and the operation is still blocked (\<open>None\<close>).
\<close>

definition Acquire :: "bool \<Rightarrow> TxnImpl \<Rightarrow> key \<Rightarrow> LockMode \<Rightarrow> DbImpl \<Rightarrow> (Status \<times> DbImpl) option" where
  "Acquire timeout t k m db =
     (case acquire_try (lock_manager db) (txn_id t) (txn_priority t) k m of
        Granted l \<Rightarrow> Some (kOk, db\<lparr>lock_manager := l\<rparr>)
      | Die \<Rightarrow> Some (kBusy, db)
      | Wait \<Rightarrow> if timeout then Some (kBusy, db) else None)"

definition Txn_Get :: "bool \<Rightarrow> key \<Rightarrow> TxnImpl \<Rightarrow> DbImpl \<Rightarrow> (bytes Result \<times> TxnImpl \<times> DbImpl) option" where
  "Txn_Get timeout k t db =
     (if \<not> active t then Some (Inl kInternal, t, db)
      else Option.bind (Acquire timeout t k kShared db) (\<lambda>(s, db).
        if s \<noteq> kOk then Some (Inl s, t, db)
        else map_option (\<lambda>(r, b). (r, t, db\<lparr>pool := b\<rparr>)) (Get k (pool db))))"

definition Txn_Put :: "bool \<Rightarrow> key \<Rightarrow> bytes \<Rightarrow> TxnImpl \<Rightarrow> DbImpl \<Rightarrow> (Status \<times> TxnImpl \<times> DbImpl) option" where
  "Txn_Put timeout k v t db =
     (if \<not> active t then Some (kInternal, t, db)
      else Option.bind (Acquire timeout t k kExclusive db) (\<lambda>(s, db).
        if s \<noteq> kOk then Some (s, t, db)
        else case EnsureBegun t db of (s, t, db) \<Rightarrow>
          if s \<noteq> kOk then Some (s, t, db)
          else map_option (\<lambda>(s, bef, b).
            let db = db\<lparr>pool := b\<rparr> in
            if s \<noteq> kOk then
              (if s = kInvalidArgument then (s, t, db) else (s, Poison t db))
            else (kOk, t\<lparr>undo := undo t @ [(k, bef)]\<rparr>, db)) (Put k v (txn_id t) True (pool db))))"

definition Txn_Delete :: "bool \<Rightarrow> key \<Rightarrow> TxnImpl \<Rightarrow> DbImpl \<Rightarrow> (Status \<times> TxnImpl \<times> DbImpl) option" where
  "Txn_Delete timeout k t db =
     (if \<not> active t then Some (kInternal, t, db)
      else Option.bind (Acquire timeout t k kExclusive db) (\<lambda>(s, db).
        if s \<noteq> kOk then Some (s, t, db)
        else case EnsureBegun t db of (s, t, db) \<Rightarrow>
          if s \<noteq> kOk then Some (s, t, db)
          else map_option (\<lambda>(s, bef, b).
            let db = db\<lparr>pool := b\<rparr> in
            if s = kNotFound then (s, t, db)
            else if s \<noteq> kOk then (s, Poison t db)
            else (kOk, t\<lparr>undo := undo t @ [(k, bef)]\<rparr>, db)) (Delete k (txn_id t) True (pool db))))"

text \<open>
  Commit, call by call: the calls that change state in the order of the code, each with its error path; a call that fails ends the
  commit. \<^verbatim>\<open>commit_trace\<close> is the list of the states after each call, the last of which is what the caller sees. The
  states before it are visible to other threads, which wait for the locks and not for the return.
\<close>

definition log_commit :: "TxnImpl \<Rightarrow> DbImpl \<Rightarrow> Status \<times> TxnImpl \<times> DbImpl" where
  "log_commit t db =
     (case LogTxnMarker (txn_id t) kCommit db of (s, db) \<Rightarrow>
        if s \<noteq> kOk then (s, Poison t db) else (kOk, t, db))"

definition flush_commit :: "TxnImpl \<Rightarrow> DbImpl \<Rightarrow> Status \<times> TxnImpl \<times> DbImpl" where
  "flush_commit t db =
     (if sync_on_write (options db) then
        case wal_flush (pool db) of (s, b) \<Rightarrow>
          let db = db\<lparr>pool := b\<rparr> in if s \<noteq> kOk then (s, Poison t db) else (kOk, t, db)
      else (kOk, t, db))"

definition end_commit :: "TxnImpl \<Rightarrow> DbImpl \<Rightarrow> Status \<times> TxnImpl \<times> DbImpl" where
  "end_commit t db = (kOk, t, db\<lparr>active_begun_txns := active_begun_txns db - 1\<rparr>)"

definition release_locks :: "TxnImpl \<Rightarrow> DbImpl \<Rightarrow> Status \<times> TxnImpl \<times> DbImpl" where
  "release_locks t db = (kOk, t, db\<lparr>lock_manager := ReleaseAll (lock_manager db) (txn_id t)\<rparr>)"

definition checkpoint_after_commit :: "TxnImpl \<Rightarrow> DbImpl \<Rightarrow> Status \<times> TxnImpl \<times> DbImpl" where
  "checkpoint_after_commit t db = (case MaybeAutoCheckpoint db of (s, db) \<Rightarrow> (s, t, db))"

definition commit_calls :: "TxnImpl \<Rightarrow> (TxnImpl \<Rightarrow> DbImpl \<Rightarrow> Status \<times> TxnImpl \<times> DbImpl) list" where
  "commit_calls t =
     (if begun t then [log_commit, flush_commit, end_commit] else []) @ [release_locks, checkpoint_after_commit]"

fun call_trace :: "(TxnImpl \<Rightarrow> DbImpl \<Rightarrow> Status \<times> TxnImpl \<times> DbImpl) list \<Rightarrow> TxnImpl \<Rightarrow> DbImpl \<Rightarrow> (Status \<times> TxnImpl \<times> DbImpl) list" where
  "call_trace [] t db = []"
| "call_trace (c # cs) t db =
     (case c t db of (s, t', db') \<Rightarrow> (s, t', db') # (if s = kOk then call_trace cs t' db' else []))"

definition commit_trace :: "TxnImpl \<Rightarrow> DbImpl \<Rightarrow> (Status \<times> TxnImpl \<times> DbImpl) list" where
  "commit_trace t db =
     (if \<not> active t then [(kInternal, t, db)] else call_trace (commit_calls t) (t\<lparr>active := False\<rparr>) db)"

definition Commit :: "TxnImpl \<Rightarrow> DbImpl \<Rightarrow> Status \<times> TxnImpl \<times> DbImpl" where
  "Commit t db = last (commit_trace t db)"

text \<open>The rollback over the undo list, given newest first; it stops at the first failure.\<close>

definition undo_one :: "TxId \<Rightarrow> UndoAction \<Rightarrow> BufferPool \<Rightarrow> (Status \<times> BufferPool) option" where
  "undo_one tx u b =
     (case u of
        (k, Some v) \<Rightarrow> map_option (\<lambda>(s, _, b). (s, b)) (Put k v tx False b)
      | (k, None) \<Rightarrow> map_option (\<lambda>(s, _, b). (if s = kNotFound then kOk else s, b)) (Delete k tx False b))"

fun undo_loop :: "TxId \<Rightarrow> UndoAction list \<Rightarrow> BufferPool \<Rightarrow> (Status \<times> BufferPool) option" where
  "undo_loop tx [] b = Some (kOk, b)"
| "undo_loop tx (u # us) b =
     Option.bind (undo_one tx u b) (\<lambda>(s, b). if s \<noteq> kOk then Some (s, b) else undo_loop tx us b)"

definition Abort :: "TxnImpl \<Rightarrow> DbImpl \<Rightarrow> (Status \<times> TxnImpl \<times> DbImpl) option" where
  "Abort t db =
     (if \<not> active t then Some (kInternal, t, db)
      else
        let t = t\<lparr>active := False\<rparr>;
            finish = (\<lambda>db. (kOk, t, db\<lparr>lock_manager := ReleaseAll (lock_manager db) (txn_id t)\<rparr>))
        in if begun t then
             map_option (\<lambda>(s, b).
               let db = db\<lparr>pool := b\<rparr> in
               case (if s = kOk then LogTxnMarker (txn_id t) kAbort db else (s, db)) of (s, db) \<Rightarrow>
                 if s \<noteq> kOk then (s, Poison t db)
                 else finish (db\<lparr>active_begun_txns := active_begun_txns db - 1\<rparr>))
               (undo_loop (txn_id t) (rev (undo t)) (pool db))
           else Some (finish db))"

definition TxnImpl_destroy :: "TxnImpl \<Rightarrow> DbImpl \<Rightarrow> DbImpl option" where
  "TxnImpl_destroy t db = (if active t then map_option (\<lambda>(_, _, db). db) (Abort t db) else Some db)"

end
