(* ===== verification/Pool_Log.thy ===== *)
theory Pool_Log
  imports BTree_Store
begin

section \<open>The log under the operations of the tree\<close>

text \<open>
  Every operation of the pool and the tree only appends to the log (with the flushes the write-ahead rule causes), whatever
  the operating system does and whatever the pages contain. The rules are stated so that they chain along an
  operation from a fixed starting state.
\<close>

named_theorems evo "one step further along an evolution"

definition log_is :: "BufferPool \<Rightarrow> LogRecord list \<Rightarrow> bool" where
  "log_is b rs \<longleftrightarrow> (\<exists>w. wal b = Some w \<and> wal_inv w rs)"

definition log_synced :: "BufferPool \<Rightarrow> LogRecord list \<Rightarrow> bool" where
  "log_synced b rs \<longleftrightarrow> (\<exists>w. wal b = Some w \<and> wal_inv w rs \<and> synced (wfile w) = ser rs)"

definition log_bytes :: "BufferPool \<Rightarrow> nat" where
  "log_bytes b = (case wal b of None \<Rightarrow> 0 | Some w \<Rightarrow> file_bytes w + length (buffer w))"

text \<open>The size bound keeps LSNs, which are byte offsets, from wrapping around.\<close>

definition evolves :: "BufferPool \<Rightarrow> BufferPool \<Rightarrow> bool" where
  "evolves b b' \<longleftrightarrow> log_bytes b \<le> log_bytes b' \<and> mreserved (meta (pager b')) = mreserved (meta (pager b)) \<and>
     length (frames b') = length (frames b) \<and>
     (\<forall>rs. log_is b rs \<longrightarrow> log_bytes b' < 2 ^ 64 \<longrightarrow> (\<exists>rs'. log_is b' (rs @ rs')))"

lemma evolves_refl: "evolves b b"
  by (auto simp: evolves_def intro: exI [of _ "[]"])

lemma evolves_trans:
  assumes "evolves a b" and "evolves b c"
  shows "evolves a c"
proof -
  have "\<exists>rs'. log_is c (rs @ rs')" if l: "log_is a rs" "log_bytes c < 2 ^ 64" for rs
  proof -
    have "log_bytes b < 2 ^ 64" using assms(2) l(2) by (simp add: evolves_def)
    then obtain r1 where "log_is b (rs @ r1)" using assms(1) l(1) by (auto simp: evolves_def)
    then obtain r2 where "log_is c ((rs @ r1) @ r2)" using assms(2) l(2) unfolding evolves_def by blast
    then show ?thesis by auto
  qed
  then show ?thesis using assms by (auto simp: evolves_def)
qed

lemma evolves_same:
  assumes "wal b' = wal b" and "mreserved (meta (pager b')) = mreserved (meta (pager b))" and "length (frames b') = length (frames b)"
  shows "evolves a b' = evolves a b"
  using assms by (simp add: evolves_def log_is_def log_bytes_def)

lemma evolves_frames [simp]:
  "evolves a (set_frame b f fr) = evolves a b" "evolves a (set_gpage b f p) = evolves a b" "evolves a (MarkDirty b f) = evolves a b"
  "evolves a (ReleaseGuard b f) = evolves a b" "evolves a (drop_frame b f) = evolves a b" "evolves a (install b f q p) = evolves a b"
  "evolves a (b\<lparr>free_frames := fs\<rparr>) = evolves a b" "evolves a (b\<lparr>replacer := r\<rparr>) = evolves a b" "evolves a (b\<lparr>stats := st\<rparr>) = evolves a b"
  "evolves a (b\<lparr>io := i\<rparr>) = evolves a b"
  by (rule evolves_same; simp add: set_frame_def set_gpage_def MarkDirty_def ReleaseGuard_def drop_frame_def install_def Let_def)+

lemma evolves_pager [simp]:
  "evolves a (b\<lparr>pager := AddToNumKeys (pager b) d\<rparr>) = evolves a b" "evolves a (b\<lparr>pager := SetRootPageId (pager b) r\<rparr>) = evolves a b"
  "evolves a (b\<lparr>pager := AddToNumKeys (SetRootPageId (pager b) r) d\<rparr>) = evolves a b"
  by (rule evolves_same; simp add: AddToNumKeys_def SetRootPageId_def)+

lemma evolves_release_all [simp]: "evolves a (release_all gs b) = evolves a b"
  by (induction gs arbitrary: b) (simp_all add: release_all_def)

lemma FlushLocked_bytes: "FlushLocked w i = (s, w', i') \<Longrightarrow> file_bytes w' + length (buffer w') = file_bytes w + length (buffer w)"
  by (auto simp: FlushLocked_def split: if_splits prod.splits sum.splits)

lemma evolves_flush:
  assumes "wal b = Some w" and "Flush w i = (s, w', i')"
  shows "evolves b (b\<lparr>wal := Some w', io := i''\<rparr>)"
proof -
  have "log_is (b\<lparr>wal := Some w', io := i''\<rparr>) (rs @ [])" if "log_is b rs" for rs
    using that assms FlushLocked_inv(1) [of w rs i s w' i'] by (auto simp: log_is_def Flush_def)
  then show ?thesis using assms FlushLocked_bytes [of w i s w' i'] unfolding evolves_def
    by (auto simp: log_bytes_def Flush_def intro: exI [of _ "[]"])
qed

lemma EnforceWalRule_evo [evo]: "EnforceWalRule b fr = (s, b') \<Longrightarrow> evolves a b \<Longrightarrow> evolves a b'"
  by (auto simp: EnforceWalRule_def split: option.splits if_splits prod.splits intro: evolves_trans evolves_flush)

lemma write_back_evo [evo]:
  assumes wb: "write_back b f = (s, b')" and a: "evolves a b"
  shows "evolves a b'"
proof -
  obtain s1 b1 where e: "EnforceWalRule b (frames b ! f) = (s1, b1)" by fastforce
  have a1: "evolves a b1" by (rule EnforceWalRule_evo [OF e a])
  obtain s2 pg p i where w: "WritePage (pager b1) (fpid (frames b1 ! f)) (fpage (frames b1 ! f)) (io b1) = (s2, pg, p, i)" by (metis prod_cases4)
  have "meta p = meta (pager b1)" using w by (auto simp: WritePage_def Let_def split: if_splits prod.splits sum.splits)
  then have "evolves a (b1\<lparr>pager := p, io := i\<rparr>)" using a1 evolves_same [of "b1\<lparr>pager := p, io := i\<rparr>" b1 a] by simp
  then show ?thesis using wb e w a1 by (auto simp: write_back_def Let_def split: if_splits)
qed

lemma AcquireFrameLocked_evo [evo]: "AcquireFrameLocked b = (r, b') \<Longrightarrow> evolves a b \<Longrightarrow> evolves a b'"
  by (auto simp: AcquireFrameLocked_def Let_def split: list.splits prod.splits option.splits if_splits dest: evo)

lemma FetchPageInternal_evo [evo]: "FetchPageInternal b pid = (r, b') \<Longrightarrow> evolves a b \<Longrightarrow> evolves a b'"
  by (auto simp: FetchPageInternal_def Let_def split: option.splits prod.splits sum.splits dest: evo)

lemma NewPage_evo [evo]:
  assumes n: "NewPage b = (r, b')" and a: "evolves a b"
  shows "evolves a b'"
proof -
  obtain x b1 where x: "AcquireFrameLocked b = (x, b1)" by fastforce
  have a1: "evolves a b1" by (rule AcquireFrameLocked_evo [OF x a])
  obtain y p i where y: "AllocatePage (pager b1) (io b1) = (y, p, i)" by (metis prod_cases3)
  have "mreserved (meta p) = mreserved (meta (pager b1))"
    using y by (auto simp: AllocatePage_def Let_def split: if_splits prod.splits sum.splits)
  then have "evolves a (b1\<lparr>pager := p, io := i\<rparr>)" using a1 evolves_same [of "b1\<lparr>pager := p, io := i\<rparr>" b1 a] by simp
  then show ?thesis using n x y a1 by (auto simp: NewPage_def split: sum.splits)
qed

subsection \<open>Appending\<close>

lemma evolves_record:
  assumes w: "wal b = Some w" and f: "rec_fits r" and l: "lsn r = end_lsn w"
    and b': "b' = b\<lparr>wal := Some (BufferRecordLocked w r\<lparr>imaged := im\<rparr>)\<rparr>"
  shows "evolves b b'"
proof -
  have n: "log_bytes b' = log_bytes b + SerializedSize r" by (simp add: b' log_bytes_def w BufferRecordLocked_def AppendTo_eq)
  have "log_is b' (rs @ [r])" if s: "log_is b rs" "log_bytes b' < 2 ^ 64" for rs
  proof -
    have i: "wal_inv w rs" using s(1) w by (simp add: log_is_def)
    then have "file_bytes w + length (buffer w) = length (ser rs)" by (auto simp: wal_inv_def)
    then have "length (ser rs) + SerializedSize r < 2 ^ 64" using s(2) n w by (simp add: log_bytes_def)
    from wal_inv_buffer [OF i f l this] show ?thesis by (simp add: b' log_is_def wal_inv_def)
  qed
  then show ?thesis using n by (auto simp: evolves_def b')
qed

lemma Append_evo:
  assumes "wal b = Some w" and "rec_fits r" and "Append w r = (l, w')"
  shows "evolves b (b\<lparr>wal := Some w'\<rparr>)"
proof -
  have "w' = BufferRecordLocked w (r\<lparr>lsn := end_lsn w\<rparr>)" using assms(3) by (auto simp: Append_def Let_def)
  moreover have "w'\<lparr>imaged := imaged w'\<rparr> = w'" by simp
  ultimately show ?thesis using assms(2)
    by (intro evolves_record [OF assms(1), of "r\<lparr>lsn := end_lsn w\<rparr>" _ "imaged w'"]) (simp_all add: rec_fits_def)
qed

lemma AppendPageImage_evo:
  assumes w: "wal b = Some w" and a: "AppendPageImage w pid p tx oe = (l, q, w')"
  shows "evolves b (b\<lparr>wal := Some w'\<rparr>)"
proof -
  let ?r = "LogRecord_init\<lparr>lsn := end_lsn w, txid := tx, rtype := kPageImage, rpage := pid, op_end := oe,
      rvalue := RawData (p\<lparr>hdr := (hdr p)\<lparr>page_lsn := end_lsn w\<rparr>\<rparr>)\<rparr>"
  have "w' = BufferRecordLocked w ?r\<lparr>imaged := insert pid (imaged (BufferRecordLocked w ?r))\<rparr>"
    using a by (auto simp: AppendPageImage_def Let_def)
  then show ?thesis
    by (intro evolves_record [OF w, of ?r _ "insert pid (imaged (BufferRecordLocked w ?r))"])
      (simp_all add: rec_fits_def LogRecord_init_def kPageSize_def)
qed

lemma LogPageImage_evo [evo]:
  assumes li: "LogPageImage b g tx oe = (s, b')" and a: "evolves a b"
  shows "evolves a b'"
proof (cases "wal b")
  case None
  then have "wal (MarkDirty b g) = None" by (simp add: MarkDirty_def set_frame_def)
  then show ?thesis using li a by (auto simp: LogPageImage_def Let_def)
next
  case (Some w)
  then have w: "wal (MarkDirty b g) = Some w" by (simp add: MarkDirty_def set_frame_def)
  obtain l q w' where ap: "AppendPageImage w (gid (MarkDirty b g) g) (gpage (MarkDirty b g) g) tx oe = (l, q, w')" by (metis prod_cases3)
  have "evolves a ((MarkDirty b g)\<lparr>wal := Some w'\<rparr>)" using evolves_trans [OF _ AppendPageImage_evo [OF w ap], of a] a by simp
  then show ?thesis using li w ap by (auto simp: LogPageImage_def Let_def)
qed

lemma log_delta_evo [evo]:
  assumes ld: "log_delta b g r = (s, b')" and f: "rec_fits r" and a: "evolves a b"
  shows "evolves a b'"
proof (cases "wal b")
  case (Some w)
  obtain l w' where ap: "Append w r = (l, w')" by fastforce
  show ?thesis using ld Some ap evolves_trans [OF a Append_evo [OF Some f ap]] by (auto simp: log_delta_def)
qed (use ld a in \<open>auto simp: log_delta_def\<close>)

lemma LogPageEvent_evo [evo]:
  assumes le: "LogPageEvent b t tx pid oe = (s, b')" and a: "evolves a b"
  shows "evolves a b'"
proof (cases "wal b")
  case (Some w)
  let ?r = "LogRecord_init\<lparr>rtype := t, txid := tx, rpage := pid, op_end := oe\<rparr>"
  obtain l w' where ap: "Append w ?r = (l, w')" by fastforce
  have "rec_fits ?r" by (simp add: rec_fits_def LogRecord_init_def)
  then show ?thesis using le Some ap evolves_trans [OF a Append_evo [OF Some _ ap]] by (auto simp: LogPageEvent_def)
qed (use le a in \<open>auto simp: LogPageEvent_def\<close>)

text \<open>
  Autocommit writes carry no before-image; the before-image of a transactional write is a value of the page, whose
  length has to fit the 16-bit length field of the record, with one value taken for an absent image.
\<close>

abbreviation small_before :: "bytes option \<Rightarrow> bool" where
  "small_before bef \<equiv> (case bef of None \<Rightarrow> True | Some x \<Rightarrow> length x < 65535)"

definition small_values :: "Page \<Rightarrow> bool" where
  "small_values p \<longleftrightarrow> (\<forall>i. length (GetValueAt p i) < 65535)"

lemma small_valuesD: "small_values p \<Longrightarrow> length (GetValueAt p i) < 65535"
  by (simp add: small_values_def)

lemma LogKeyRecord_evo [evo]:
  assumes lk: "LogKeyRecord b t tx g k v bef oe u = (s, b')" and sz: "length k + length v < 65000" and sb: "small_before bef" and a: "evolves a b"
  shows "evolves a b'"
proof -
  let ?b = "MarkDirty b g"
  let ?r = "LogRecord_init\<lparr>rtype := t, txid := tx, rpage := gid ?b g, op_end := oe, rkey := k, rvalue := v, before := bef\<rparr>"
  have f: "rec_fits ?r" using sz sb by (simp add: rec_fits_def LogRecord_init_def)
  have a1: "evolves a ?b" using a by simp
  show ?thesis
  proof (cases "wal ?b")
    case None
    then show ?thesis using lk a1 by (auto simp: LogKeyRecord_def Let_def)
  next
    case (Some w)
    show ?thesis
    proof (cases "NeedsImage w (gid ?b g)")
      case True
      obtain s1 b1 where li: "LogPageImage ?b g tx (oe \<and> \<not> u) = (s1, b1)" by fastforce
      have a2: "evolves a b1" by (rule LogPageImage_evo [OF li a1])
      show ?thesis using lk Some True li a2 log_delta_evo [OF _ f a2]
        by (auto simp: LogKeyRecord_def Let_def andthen_def split: if_splits)
    next
      case False
      then show ?thesis using lk Some log_delta_evo [OF _ f a1] by (auto simp: LogKeyRecord_def Let_def)
    qed
  qed
qed

subsection \<open>The tree\<close>

lemma descend_evo [evo]:
  assumes "descend k g b = Some (r, b')" and "evolves a b"
  shows "evolves a b'"
proof -
  have "evolves a b \<longrightarrow> evolves a (snd (r, b'))"
    using assms(1)
  proof (rule descend.raw_induct [rotated])
    fix rec k g b and x :: "FrameId Result \<times> BufferPool"
    assume IH: "\<And>k g b x. rec k g b = Some x \<Longrightarrow> evolves a b \<longrightarrow> evolves a (snd x)"
      and "(if IsLeaf (gpage b g) then Some (Inr g, b)
        else let child = FindChild (gpage b g) k in
          if child = kInvalidPageId then Some (Inl kInternal, ReleaseGuard b g)
          else case FetchPageInternal b child of (r, b) \<Rightarrow>
            let b = ReleaseGuard b g in case r of Inl s \<Rightarrow> Some (Inl s, b) | Inr c \<Rightarrow> rec k c b) = Some x"
    then show "evolves a b \<longrightarrow> evolves a (snd x)"
      by (auto simp: Let_def split: if_splits prod.splits sum.splits dest: evo dest!: IH)
  qed
  then show ?thesis using assms(2) by simp
qed

lemma leaf_guard_evo [evo]: "leaf_guard k b = Some (r, b') \<Longrightarrow> evolves a b \<Longrightarrow> evolves a b'"
  by (auto simp: leaf_guard_def split: if_splits prod.splits sum.splits dest: evo)

lemma Delete_evo:
  assumes d: "Delete k tx u b = Some (s, bef, b')" and k: "length k < 65000"
    and sv: "\<And>g b1. u \<Longrightarrow> leaf_guard k b = Some (Inr g, b1) \<Longrightarrow> small_values (gpage b1 g)"
  shows "evolves b b'"
proof -
  obtain r b1 where lg: "leaf_guard k b = Some (r, b1)" using d by (auto simp: Delete_def)
  have a: "evolves b b1" by (rule leaf_guard_evo [OF lg evolves_refl])
  have "evolves b b2" if r: "r = Inr g" and d: "delete_at_leaf k tx u g b1 = (s, bef, b2)" for g b2
  proof -
    obtain i found where f: "FindKeyIndex (gpage b1 g) k = (i, found)" by fastforce
    let ?bef = "if u then Some (GetValueAt (gpage b1 g) i) else None"
    obtain del q where q: "DeleteAt (gpage b1 g) i = (del, q)" by fastforce
    obtain s3 b3 where l: "LogKeyRecord (set_gpage b1 g q) kDelete tx g k [] ?bef True u = (s3, b3)" by fastforce
    have "small_before ?bef" using small_valuesD [OF sv] lg r by simp
    then have "evolves b b3" using LogKeyRecord_evo [OF l] k a by simp
    then show ?thesis using d a f q l by (auto simp: delete_at_leaf_def Let_def split: if_splits)
  qed
  then show ?thesis using d lg a by (auto simp: Delete_def split: sum.splits prod.splits)
qed

lemma descend_path_evo [evo]:
  assumes "descend_path k p st b = Some (r, b')" and "evolves a b"
  shows "evolves a b'"
proof -
  have "evolves a b \<longrightarrow> evolves a (snd (r, b'))"
    using assms(1)
  proof (rule descend_path.raw_induct [rotated])
    fix rec k p st b and x :: "FrameId list Result \<times> BufferPool"
    assume IH: "\<And>k p st b x. rec k p st b = Some x \<Longrightarrow> evolves a b \<longrightarrow> evolves a (snd x)"
      and "(case FetchPageInternal b p of (r, b) \<Rightarrow>
          case r of
            Inl s \<Rightarrow> Some (Inl s, release_all st b)
          | Inr g \<Rightarrow>
              if IsLeaf (gpage b g) then Some (Inr (g # st), b)
              else let child = FindChild (gpage b g) k in
                if child = kInvalidPageId then Some (Inl kInternal, release_all (g # st) b) else rec k child (g # st) b) = Some x"
    then show "evolves a b \<longrightarrow> evolves a (snd x)"
      by (auto simp: Let_def split: if_splits prod.splits sum.splits dest: evo dest!: IH)
  qed
  then show ?thesis using assms(2) by simp
qed

lemma relink_next_evo [evo]: "relink_next n p tx b = (s, gs, b') \<Longrightarrow> evolves a b \<Longrightarrow> evolves a b'"
  by (auto simp: relink_next_def Let_def split: if_splits prod.splits sum.splits dest!: evo)

lemma SplitLeaf_evo [evo]: "SplitLeaf g tx b = (r, gs, b') \<Longrightarrow> evolves a b \<Longrightarrow> evolves a b'"
  by (auto simp: SplitLeaf_def Let_def split: if_splits prod.splits sum.splits dest!: evo)

lemma SplitInternal_evo [evo]: "SplitInternal g tx b = (r, b') \<Longrightarrow> evolves a b \<Longrightarrow> evolves a b'"
  by (auto simp: SplitInternal_def Let_def split: if_splits prod.splits sum.splits dest!: evo)

lemma CreateNewRoot_evo [evo]: "CreateNewRoot k l r tx b = (s, b') \<Longrightarrow> evolves a b \<Longrightarrow> evolves a b'"
  by (auto simp: CreateNewRoot_def Let_def andthen_def split: if_splits prod.splits sum.splits dest!: evo)

lemma propagate_evo [evo]: "propagate st k l r tx ops b = (s, ops', b') \<Longrightarrow> evolves a b \<Longrightarrow> evolves a b'"
proof (induction st arbitrary: k l r ops b b')
  case Nil
  then show ?case by (auto split: prod.splits dest!: evo)
next
  case (Cons parent stack)
  obtain ins p where i: "InsertInternalAfterSplit (gpage b parent) k l r = (ins, p)" by fastforce
  let ?b1 = "set_gpage b parent p"
  have a1: "evolves a ?b1" using Cons.prems(2) by simp
  obtain x b2 where x: "SplitInternal parent tx ?b1 = (x, b2)" by fastforce
  have a2: "evolves a b2" by (rule SplitInternal_evo [OF x a1])
  show ?case
  proof (cases "ins \<or> (\<exists>e. x = Inl e)")
    case True
    have "evolves a b'" if "LogPageImage ?b1 parent tx True = (s, b')" by (rule LogPageImage_evo [OF that a1])
    then show ?thesis using True Cons.prems(1) i x a2 by (cases ins) (auto simp: Let_def split: prod.splits)
  next
    case False
    then obtain ng sk where y: "x = Inr (ng, sk)" "\<not> ins" by (metis obj_sumE surj_pair)
    let ?t = "if k < sk then parent else ng"
    obtain ins2 p2 where i2: "InsertInternalAfterSplit (gpage b2 ?t) k l r = (ins2, p2)" by fastforce
    obtain s3 b3 where l3: "LogPageImage (set_gpage b2 ?t p2) ?t tx False = (s3, b3)" by fastforce
    have a3: "evolves a (set_gpage b2 ?t p2)" using a2 by simp
    have a4: "evolves a b3" by (rule LogPageImage_evo [OF l3 a3])
    have "propagate (parent # stack) k l r tx ops b =
        (if \<not> ins2 then (kInternal, ng # ops, set_gpage b2 ?t p2) else if s3 \<noteq> kOk then (s3, ng # ops, b3)
         else propagate stack sk (gid b2 parent) (gid b2 ng) tx (ng # ops) b3)"
      using i x y i2 l3 by (simp add: Let_def)
    then show ?thesis using Cons.prems(1) a3 a4 Cons.IH [OF _ a4] by (auto split: if_splits)
  qed
qed


lemma put_split_evo:
  assumes p: "put_split k v tx u bef rp leaf st b = (s, ops, b')" and sz: "length k + length v < 65000" and sb: "small_before bef" and a: "evolves a b"
  shows "evolves a b'"
proof -
  obtain x gs b1 where x: "SplitLeaf leaf tx b = (x, gs, b1)" by (metis prod_cases3)
  have a1: "evolves a b1" by (rule SplitLeaf_evo [OF x a])
  show ?thesis
  proof (cases x)
    case (Inl e)
    then show ?thesis using p x a1 by (simp add: put_split_def)
  next
    case (Inr y)
    obtain ng sk where y: "y = (ng, sk)" by fastforce
    let ?t = "if k < sk then leaf else ng"
    obtain ins q where i: "InsertLeaf (gpage b1 ?t) k v = (ins, q)" by fastforce
    have a2: "evolves a (set_gpage b1 ?t q)" using a1 by simp
    obtain s3 b3 where l: "LogKeyRecord (set_gpage b1 ?t q) kPut tx ?t k v bef False u = (s3, b3)" by fastforce
    have a3: "evolves a (if rp then b3 else b3\<lparr>pager := AddToNumKeys (pager b3) 1\<rparr>)" "evolves a b3"
      using LogKeyRecord_evo [OF l sz sb a2] by auto
    show ?thesis using p x Inr y i l a2 a3 propagate_evo [OF _ a3(1)] by (auto simp: put_split_def Let_def split: if_splits)
  qed
qed

lemma insert_or_split_evo:
  assumes p: "insert_or_split k v tx u bef rp leaf st b = (s, ops, b')" and sz: "length k + length v < 65000" and sb: "small_before bef"
    and a: "evolves a b"
  shows "evolves a b'"
proof -
  obtain ins q where i: "InsertLeaf (gpage b leaf) k v = (ins, q)" by fastforce
  let ?b1 = "set_gpage b leaf q"
  have a1: "evolves a ?b1" using a by simp
  obtain s1 b2 where l: "LogKeyRecord ?b1 kPut tx leaf k v bef True u = (s1, b2)" by fastforce
  have "evolves a b2" by (rule LogKeyRecord_evo [OF l sz sb a1])
  then show ?thesis using p i l put_split_evo [OF _ sz sb a1] by (auto simp: insert_or_split_def Let_def andthen_def split: if_splits)
qed

lemma put_on_path_evo:
  assumes p: "put_on_path k v tx u leaf st b = (s, bef, b')" and sz: "length k + length v < 65000"
    and sv: "u \<Longrightarrow> small_values (gpage b leaf)" and a: "evolves a b"
  shows "evolves a b'"
proof -
  obtain i found where f: "FindKeyIndex (gpage b leaf) k = (i, found)" by fastforce
  let ?bef = "if u \<and> found then Some (GetValueAt (gpage b leaf) i) else None"
  have sb: "small_before ?bef" using small_valuesD [OF sv] by simp
  obtain upd q where u: "UpdateLeaf (gpage b leaf) k v = (upd, q)" by fastforce
  let ?b1 = "set_gpage b leaf q"
  have a1: "evolves a ?b1" using a by simp
  obtain s2 b2 where l: "LogKeyRecord ?b1 kPut tx leaf k v ?bef True u = (s2, b2)" by fastforce
  have a2: "evolves a b2" by (rule LogKeyRecord_evo [OF l sz sb a1])
  obtain del q3 where d: "DeleteAt (gpage ?b1 leaf) i = (del, q3)" by fastforce
  let ?b3 = "MarkDirty (set_gpage ?b1 leaf q3) leaf"
  have a3: "evolves a ?b3" "evolves a (set_gpage ?b1 leaf q3)" using a by simp_all
  show ?thesis
    using p f u l d a2 a3 insert_or_split_evo [OF _ sz sb a3(1)] insert_or_split_evo [OF _ sz sb a]
    by (auto simp: put_on_path_def Let_def split: if_splits prod.splits)
qed

lemma create_root_leaf_evo:
  assumes "create_root_leaf k v tx bef0 b = (s, bef, b')" and "evolves a b"
  shows "evolves a b'"
  using assms by (auto simp: create_root_leaf_def Let_def andthen_def split: if_splits prod.splits sum.splits dest!: evo)

lemma PutPessimistic_evo:
  assumes p: "PutPessimistic k v tx u bef0 b = Some (s, bef, b')" and sz: "length k + length v < 65000" and a: "evolves a b"
    and sv: "\<And>g st b1. u \<Longrightarrow> \<not> IsEmpty b \<Longrightarrow> descend_path k (root_page_id (meta (pager b))) [] b = Some (Inr (g # st), b1) \<Longrightarrow> small_values (gpage b1 g)"
  shows "evolves a b'"
proof (cases "IsEmpty b")
  case True
  then show ?thesis using p create_root_leaf_evo [OF _ a] by (auto simp: PutPessimistic_def)
next
  case False
  obtain r b1 where d: "descend_path k (root_page_id (meta (pager b))) [] b = Some (r, b1)" using p False by (auto simp: PutPessimistic_def)
  have a1: "evolves a b1" by (rule descend_path_evo [OF d a])
  have "evolves a b2" if "r = Inr (g # st)" "put_on_path k v tx u g st b1 = (s, bef, b2)" for g st b2
    by (rule put_on_path_evo [OF that(2) sz _ a1]) (use sv False d that(1) in simp)
  then show ?thesis using p False d a1 by (auto simp: PutPessimistic_def split: sum.splits list.splits)
qed

lemma put_fast_evo:
  assumes p: "put_fast k v tx u g b = (r, bef, b')" and sz: "length k + length v < 65000" and a: "evolves a b"
    and sv: "u \<Longrightarrow> small_values (gpage b g)"
  shows "evolves a b'"
proof -
  obtain i found where f: "FindKeyIndex (gpage b g) k = (i, found)" by fastforce
  let ?bef = "if u \<and> found then Some (GetValueAt (gpage b g) i) else None"
  have "evolves a b2" if "LogKeyRecord (set_gpage b g q) kPut tx g k v ?bef True u = (s, b2)" for q s b2
    by (rule LogKeyRecord_evo [OF that sz]) (use a small_valuesD [OF sv] in simp_all)
  then show ?thesis using p a f by (auto simp: put_fast_def Let_def andthen_def split: if_splits prod.splits)
qed

text \<open>The values of a page that represents a leaf are short, so the before-images of a stored tree fit.\<close>

lemma leaf_small_values:
  assumes "leaf_rep p es" shows "small_values p"
proof -
  have ok: "page_ok p" and v: "slots_view p = map (Some \<circ> enc_leaf) es" using assms by (auto simp: leaf_rep_def)
  note e = leaf_rep_entries(1,2) [OF assms]
  have "length (GetValueAt p i) < 65535" if i: "i < length es" for i
  proof -
    obtain k w where kw: "es ! i = (k, w)" by fastforce
    have "GetValueAt p i = w" using arg_cong [OF e(2), of "\<lambda>x. x ! i"] i e(1) kw by (simp add: leaf_entries_def)
    moreover have "Some (enc_leaf (k, w)) \<in> set (slots_view p)" using v i kw by (metis comp_apply nth_mem image_eqI set_map)
    ultimately show ?thesis using view_size_ge room_view [OF ok] by fastforce
  qed
  moreover have "GetValueAt p i = []" if "\<not> i < length es" for i using that e(1) by (simp add: GetValueAt_def NumKeys_def)
  ultimately show ?thesis unfolding small_values_def by (metis list.size(3) zero_less_numeral)
qed

lemma leaf_guard_small:
  assumes "tree_ok b t" and "leaf_guard k b = Some (Inr g, b1)"
  shows "small_values (gpage b1 g)" and "tree_ok b1 t" and "\<exists>cs p es. at_leaf b1 t k (PinCount b) g cs p es"
proof -
  have l: "pc.reads b b1" "\<exists>cs p es. at_leaf b1 t k (PinCount b) g cs p es" using leaf_guard_ok [OF assms(1), of k] assms(2) by auto
  show "tree_ok b1 t" by (rule tree_ok_reads [OF assms(1) l(1)])
  then show "small_values (gpage b1 g)" using l(2) at_leaf_facts(1) leaf_small_values by blast
  show "\<exists>cs p es. at_leaf b1 t k (PinCount b) g cs p es" by (rule l(2))
qed

lemma descend_path_small:
  assumes t: "tree_ok b t" and d: "descend_path k (root_page_id (meta (pager b))) [] b = Some (Inr (g # st), b1)"
  shows "small_values (gpage b1 g)"
proof -
  have root: "root_page_id (meta (pager b)) = troot t" using t by (simp add: tree_ok_def)
  have o: "owns b (PinCount b) []" by (simp add: owns_def)
  obtain cs p es where l: "pc.reads b b1" "holds b1 p g" "t = plug cs (Lf p es)"
    using descend_path_ok [OF t _ _ _ o, of "[]" t k] d root by (auto simp: bound_defs)
  have t1: "tree_ok b1 t" by (rule tree_ok_reads [OF t l(1)])
  then have "leaf_rep (pview b1 p) es" using l(3) by (simp add: tree_ok_def rep_plug)
  then show ?thesis using gpage_leaf(1) [OF _ l(2)] t1 leaf_small_values by (simp add: tree_ok_def)
qed

lemma stored_tree: "stored_off d b es \<Longrightarrow> \<not> IsEmpty b \<Longrightarrow> \<exists>t. tree_ok b t"
  by (auto simp: stored_off_def)

lemma refetch_leaf:
  assumes t: "tree_ok b t" and l: "at_leaf b t k f g cs p es" and x: "FetchPageInternal (ReleaseGuard b g) (gid b g) = (Inr h, b')"
  shows "tree_ok b' t" and "at_leaf b' t k f h cs p es"
proof -
  note rl = at_leaf_release [OF t l] and gp = at_leaf_facts(6) [OF t l]
  note t2 = tree_ok_reads [OF t rl(1)]
  have "pool_ok b" "holds b p g" using t l by (auto simp: tree_ok_def at_leaf_def)
  then have ok2: "pool_ok (ReleaseGuard b g)" "live_page (ReleaseGuard b g) p"
    using t2 rl(1) pc.holds_page [of b p g] by (auto simp: tree_ok_def pc.reads_def)
  show "tree_ok b' t" by (rule tree_ok_reads [OF t2 pc.fetch_reads [OF ok2 x [unfolded gp]]])
  show "at_leaf b' t k f h cs p es" using pc.fetch_Inr [OF ok2 x [unfolded gp]] rl(2) l by (simp add: at_leaf_def)
qed

lemma put_fast_restart:
  assumes "tree_ok b t" and "at_leaf b t k f g cs p es" and "put_fast k v tx u g b = (None, bef, b')" and "length k + length v < 65000"
  shows "tree_ok (ReleaseGuard b' g) t"
  using put_fast_ok(2) [OF assms(1,2,4,3)] tree_ok_reads [OF assms(1) at_leaf_release(1) [OF assms(1,2)]] by simp

lemma Put_evo:
  assumes p: "Put k v tx u b = Some (s, bef, b')" and st: "u \<Longrightarrow> stored_off d b es"
  shows "evolves b b'"
proof (cases "kMaxLeafRecordBytes < 4 + length k + length v")
  case True
  then show ?thesis using p evolves_refl by (simp add: Put_def)
next
  case f: False
  have sz: "length k + length v < 65000" using f by (simp add: kMaxLeafRecordBytes_def layout_defs)
  show ?thesis
  proof (cases "IsEmpty b")
    case True
    then have "PutPessimistic k v tx u None b = Some (s, bef, b')" using p f by (simp add: Put_def)
    then show ?thesis by (rule PutPessimistic_evo [OF _ sz evolves_refl]) (use True in simp)
  next
    case False
    obtain r b1 where lg: "leaf_guard k b = Some (r, b1)" using p f False by (auto simp: Put_def split: bind_splits)
    have a1: "evolves b b1" by (rule leaf_guard_evo [OF lg evolves_refl])
    show ?thesis
    proof (cases r)
      case (Inl e)
      then show ?thesis using p f False lg a1 by (auto simp: Put_def)
    next
      case (Inr g)
      obtain x b2 where x: "FetchPageInternal (ReleaseGuard b1 g) (gid b1 g) = (x, b2)" by fastforce
      have a2: "evolves b b2" by (rule FetchPageInternal_evo [OF x]) (use a1 in simp)
      show ?thesis
      proof (cases x)
        case (Inl e)
        then show ?thesis using p f False lg Inr x a2 by (auto simp: Put_def Let_def)
      next
        case (Inr h)
        have leaf: "\<exists>t f cs q es. tree_ok b2 t \<and> at_leaf b2 t k f h cs q es" if u: u
        proof -
          obtain t where t: "tree_ok b t" using stored_tree [OF st [OF u] False] by blast
          obtain cs q es where l: "at_leaf b1 t k (PinCount b) g cs q es" and t1: "tree_ok b1 t"
            using leaf_guard_small(2,3) [OF t] lg \<open>r = Inr g\<close> by blast
          from refetch_leaf [OF t1 l] x Inr show ?thesis by blast
        qed
        obtain y bf b3 where y: "put_fast k v tx u h b2 = (y, bf, b3)" by (metis prod_cases3)
        have a3: "evolves b (ReleaseGuard b3 h)"
          using put_fast_evo [OF y sz a2] leaf at_leaf_facts(1) leaf_small_values by (metis evolves_frames(4))
        have a4: "evolves b b4" if "y = None" "PutPessimistic k v tx u bf (ReleaseGuard b3 h) = Some (s, bef, b4)" for b4
          by (rule PutPessimistic_evo [OF that(2) sz a3]) (use leaf put_fast_restart sz y that(1) descend_path_small in metis)
        show ?thesis using p f False lg \<open>r = Inr g\<close> x Inr y a3 a4
          by (auto simp: Put_def Let_def split: option.splits)
      qed
    qed
  qed
qed

lemma Delete_stored_evo:
  assumes "Delete k tx u b = Some (s, bef, b')" and "length k < 65000" and "stored_off d b es"
  shows "evolves b b'"
proof (rule Delete_evo [OF assms(1,2)])
  fix g b1 assume g: "leaf_guard k b = Some (Inr g, b1)"
  then have "\<not> IsEmpty b" by (auto simp: leaf_guard_def)
  then show "small_values (gpage b1 g)" using stored_tree [OF assms(3)] leaf_guard_small(1) g by blast
qed

end
