(* ===== verification/Checkpoints.thy ===== *)
theory Checkpoints
  imports Db Pool_Log
begin

section \<open>Checkpoints\<close>

text \<open>
  A checkpoint, for every behaviour of the operating system: what is stored does not change; at every point where it can
  stop, either the log still holds all its records or the data file holds, synced, every page and the meta data; with a begun
  transaction in flight or on a poisoned handle the log is never cut.
\<close>

subsection \<open>States that store the same\<close>

definition same_store :: "BufferPool \<Rightarrow> BufferPool \<Rightarrow> bool" where
  "same_store b b' \<longleftrightarrow> pool_ok b' \<and> live_page b' = live_page b \<and> PinCount b' = PinCount b \<and>
     (\<forall>j. live_page b j \<longrightarrow> pview b' j = pview b j) \<and>
     root_page_id (meta (pager b')) = root_page_id (meta (pager b)) \<and> num_keys (meta (pager b')) = num_keys (meta (pager b)) \<and>
     num_pages (meta (pager b')) = num_pages (meta (pager b)) \<and> mreserved (meta (pager b')) = mreserved (meta (pager b))"

lemma same_store_refl: "pool_ok b \<Longrightarrow> same_store b b"
  by (simp add: same_store_def)

lemma same_store_trans: "same_store a b \<Longrightarrow> same_store b c \<Longrightarrow> same_store a c"
  by (simp add: same_store_def)

lemma same_store_ok: "same_store b b' \<Longrightarrow> pool_ok b'"
  by (simp add: same_store_def)

lemma same_store_stored:
  assumes s: "same_store b b'" and st: "stored_off d b es"
  shows "stored_off d b' es"
proof -
  have "tree_ok b' t" if t: "tree_ok b t" for t
  proof -
    have v: "\<And>p. p \<in> set (pages t) \<Longrightarrow> pview b' p = pview b p" using s t by (auto simp: same_store_def tree_ok_def)
    have "rep (pview b') t = rep (pview b) t" by (rule rep_cong) (rule v)
    moreover have "linked (pview b') (leaf_ids t) kInvalidPageId = linked (pview b) (leaf_ids t) kInvalidPageId"
      using v leaf_ids_pages [of t] by (intro linked_cong) (auto simp: subset_iff)
    ultimately show ?thesis using s t by (simp add: same_store_def tree_ok_def)
  qed
  then show ?thesis using st s by (auto simp: stored_off_def same_store_def IsEmpty_def)
qed


text \<open>The changes a checkpoint makes to the state: the log and the pager, as long as the data pages stay on disk.\<close>

lemma same_store_wal: "pool_ok b \<Longrightarrow> same_store b (b\<lparr>wal := w, io := i\<rparr>)" "pool_ok b \<Longrightarrow> same_store b (b\<lparr>wal := w\<rparr>)"
  by (simp_all add: same_store_def pool_ok_def pool_inv_def core_inv_def frame_ok_def rep_inv_def free_pages_def live_page_def fun_eq_iff
      pview_def PinCount_def cong: option.case_cong)

lemma same_store_pager:
  assumes ok: "pool_ok b" and inv: "pager_inv p" and m: "root_page_id (meta p) = root_page_id (meta (pager b))"
      "num_keys (meta p) = num_keys (meta (pager b))" "num_pages (meta p) = num_pages (meta (pager b))"
      "free_list_head (meta p) = free_list_head (meta (pager b))" "mreserved (meta p) = mreserved (meta (pager b))"
    and d: "\<And>j. data_page (pager b) j \<Longrightarrow> disk p j = disk (pager b) j"
  shows "same_store b (b\<lparr>pager := p, io := i\<rparr>)"
proof -
  let ?b = "b\<lparr>pager := p, io := i\<rparr>"
  have core: "core_inv {} b" and rep: "rep_inv {} b" using ok by (auto simp: pool_ok_def pool_inv_def)
  have dp: "data_page p = data_page (pager b)" by (simp add: data_page_def fun_eq_iff m(3))
  have res: "data_page (pager b) j" if "j \<in> fst ` set (page_table b)" for j
    using that core_invD(2) [OF core] by (auto simp: frame_ok_def)
  have "core_inv {} ?b" by (rule core_inv_pager [OF core inv]) (use m(3) d res in auto)
  moreover have "rep_inv {} ?b" using rep by (simp add: rep_inv_def)
  moreover have fl: "flist p h ids \<longleftrightarrow> flist (pager b) h ids" for h ids
  proof
    assume f: "flist p h ids"
    show "flist (pager b) h ids" by (rule flist_frame [OF f]) (use flist_data_page [OF f] d dp m(3) in auto)
  next
    assume f: "flist (pager b) h ids"
    show "flist p h ids" by (rule flist_frame [OF f]) (use flist_data_page [OF f] d m(3) in auto)
  qed
  ultimately have "pool_ok ?b" using ok m(4) by (simp add: pool_ok_def pool_inv_def free_pages_def)
  moreover have "live_page ?b = live_page b" by (simp add: live_page_def free_pages_def fl m(4) dp fun_eq_iff)
  moreover have "pview ?b j = pview b j" if "live_page b j" for j using that d by (intro pview_pager) (simp add: live_page_def)
  moreover have "PinCount ?b = PinCount b" by (simp add: PinCount_def fun_eq_iff cong: option.case_cong)
  ultimately show ?thesis using m by (simp add: same_store_def)
qed

lemma flush_loop_disk:
  assumes "pool_inv {} b" and "\<forall>f \<in> set fs. f \<in> resident b \<and> 0 < pin_count (frames b ! f)" and "distinct fs"
    and "flush_loop fs s0 b = (s, b')" and "data_page (pager b) j" and "map_of (page_table b) j = None"
  shows "disk (pager b') j = disk (pager b) j"
  using assms
proof (induction fs arbitrary: s0 b)
  case (Cons f fs)
  obtain s1 b1 where fo: "(if s0 = kOk \<and> dirty (frames b ! f) then write_back b f else (s0, b)) = (s1, b1)" by fastforce
  obtain pid where res: "(pid, f) \<in> set (page_table b)" using Cons.prems(2) by auto
  note o = flush_one [OF Cons.prems(1) res fo]
  have pin: "0 < pin_count (frames b1 ! f)" and res1: "(pid, f) \<in> set (page_table b1)" using Cons.prems(2) o(2,5) res by auto
  note g = ReleaseGuard_ok [OF o(1) res1 pin]
  let ?b2 = "ReleaseGuard b1 f"
  have core: "core_inv {} b" using Cons.prems(1) by (simp add: pool_inv_def)
  have d1: "disk (pager b1) j = disk (pager b) j"
    using fo write_back_disk [OF core res _ Cons.prems(5,6)] by (auto split: if_splits)
  have fl: "f < length (frames b1)" using pinned_resident(2) [OF o(1) res1] .
  have pre: "\<forall>h \<in> set fs. h \<in> resident ?b2 \<and> 0 < pin_count (frames ?b2 ! h)"
    using Cons.prems(2,3) fl unfolding g(4) o(2) by (auto simp: g(5) o(5) nth_list_update)
  have "disk (pager b') j = disk (pager ?b2) j"
    by (rule Cons.IH [OF g(1) pre]) (use Cons.prems fo o(2,3) in \<open>auto simp: g(3,4) data_page_def\<close>)
  then show ?case using d1 by (simp add: g(3))
qed simp

lemma same_store_FlushAll:
  assumes ok: "pool_ok b" and fl: "FlushAll b = (s, b')"
  shows "same_store b b'" and "s = kOk \<Longrightarrow> data_page (pager b') j \<Longrightarrow> stamp (page_of_bytes (disk (pager b') j)) 0 = pview b' j"
    and "meta (pager b') = meta (pager b)"
proof -
  have inv: "pool_inv {} b" using ok by (simp add: pool_ok_def)
  note f = FlushAll_ok [OF inv fl]
  let ?fs = "map snd (page_table b)" let ?b1 = "fold pin_frame ?fs b"
  have d: "distinct ?fs" using inv by (simp add: pool_inv_def core_inv_def)
  have p: "pool_inv {} ?b1" "page_table ?b1 = page_table b" "pager ?b1 = pager b"
    "\<And>g. frames ?b1 ! g = (frames b ! g)\<lparr>pin_count := pin_count (frames b ! g) + (if g \<in> set ?fs then 1 else 0)\<rparr>"
    using pin_fold_ok [OF inv _ d] by auto
  have pre: "\<forall>f \<in> set ?fs. f \<in> resident ?b1 \<and> 0 < pin_count (frames ?b1 ! f)" by (auto simp: p(2,4) image_iff)
  have dk: "disk (pager b') j = disk (pager b) j" if "data_page (pager b) j" "map_of (page_table b) j = None" for j
    using flush_loop_disk [OF p(1) pre d, of kOk s b' j] fl that by (simp add: FlushAll_def Let_def p(2,3))
  have dp: "data_page (pager b') = data_page (pager b)" by (simp add: data_page_def fun_eq_iff f(3))
  have free: "free_pages b' ids" if fp: "free_pages b ids" for ids
  proof -
    have fl: "flist (pager b) (free_list_head (meta (pager b))) ids" using fp by (simp add: free_pages_def)
    have "map_of (page_table b) x = None" if "x \<in> set ids" for x using fp that by (auto simp: free_pages_def map_of_eq_None_iff)
    then have "flist (pager b') (free_list_head (meta (pager b'))) ids"
      unfolding f(3) by (intro flist_frame [OF fl]) (use dk flist_data_page [OF fl] f(3) in auto)
    then show ?thesis using fp by (simp add: free_pages_def f(2))
  qed
  obtain ids where ids: "free_pages b ids" using ok by (auto simp: pool_ok_def)
  have only: "free_pages c xs \<Longrightarrow> free_pages c ys \<Longrightarrow> xs = ys" for c xs ys using flist_unique by (auto simp: free_pages_def)
  have "free_pages b = (\<lambda>xs. xs = ids)" "free_pages b' = (\<lambda>xs. xs = ids)" using only ids free [OF ids] by (intro ext; blast)+
  then have "live_page b' = live_page b" by (simp add: live_page_def fun_eq_iff dp)
  moreover have "PinCount b' = PinCount b" by (simp add: PinCount_def fun_eq_iff f(2,5) split: option.split)
  ultimately show "same_store b b'" using f(1,3,4) free [OF ids] by (auto simp: same_store_def pool_ok_def live_page_def)
  show "stamp (page_of_bytes (disk (pager b') j)) 0 = pview b' j" if "s = kOk" "data_page (pager b') j"
    using f(4,6) that dp by simp
  show "meta (pager b') = meta (pager b)" by (rule f(3))
qed

subsection \<open>The phases\<close>

lemma andthen_cases:
  assumes "andthen r f = (s, b')"
  obtains "r = (s, b')" and "s \<noteq> kOk" | b1 where "r = (kOk, b1)" and "f b1 = (s, b')"
  using assms by (cases r) (auto simp: andthen_def split: if_splits)

text \<open>The data file holds, synced, the current content of every page.\<close>

definition data_synced :: "BufferPool \<Rightarrow> bool" where
  "data_synced b \<longleftrightarrow> synced (pfile (pager b)) = content (pfile (pager b)) \<and>
     (\<forall>j. data_page (pager b) j \<longrightarrow> stamp (page_of_bytes (disk (pager b) j)) 0 = pview b j)"

definition meta_synced :: "BufferPool \<Rightarrow> bool" where
  "meta_synced b \<longleftrightarrow> synced (pfile (pager b)) = content (pfile (pager b)) \<and>
     meta_copy (pfile (pager b)) (unat (generation (meta (pager b)) mod 2)) = meta (pager b)"

lemma wal_flush_ok:
  assumes "pool_ok b" and "wal_flush b = (s, b')"
  shows "same_store b b'" and "pager b' = pager b" and "log_is b rs \<Longrightarrow> log_is b' rs" and "log_is b rs \<Longrightarrow> s = kOk \<Longrightarrow> log_synced b' rs"
proof -
  show "same_store b b'" "pager b' = pager b" using assms same_store_wal [of b] same_store_refl
    by (auto simp: wal_flush_def split: option.splits prod.splits)
  assume l: "log_is b rs"
  then obtain w where w: "wal b = Some w" "wal_inv w rs" by (auto simp: log_is_def)
  obtain s1 w1 i1 where f: "Flush w (io b) = (s1, w1, i1)" by (metis prod_cases3)
  note fl = FlushLocked_inv [OF w(2) f [unfolded Flush_def]]
  show "log_is b' rs" "s = kOk \<Longrightarrow> log_synced b' rs" using assms(2) w(1) f fl(1,5) by (auto simp: wal_flush_def log_is_def log_synced_def)
qed

lemma FlushAll_log: "pool_ok b \<Longrightarrow> FlushAll b = (s, b') \<Longrightarrow> log_is b rs \<Longrightarrow> log_is b' rs"
  using FlushAll_wal [of b s b' rs] by (auto simp: pool_ok_def log_is_def wal_rule_def)

lemma wal_append_ok:
  assumes ok: "pool_ok b" and ap: "wal_append r b = (s, b')"
  shows "s = kOk" and "same_store b b'" and "pager b' = pager b"
    and "log_is b rs \<Longrightarrow> rec_fits r \<Longrightarrow> length (ser rs) + SerializedSize r < 2 ^ 64 \<Longrightarrow> \<exists>l. log_is b' (rs @ [r\<lparr>lsn := l\<rparr>])"
proof -
  show "s = kOk" "same_store b b'" "pager b' = pager b"
    using ap same_store_wal [OF ok] same_store_refl [OF ok] by (auto simp: wal_append_def split: option.splits)
  assume l: "log_is b rs" and f: "rec_fits r" "length (ser rs) + SerializedSize r < 2 ^ 64"
  then obtain w where w: "wal b = Some w" "wal_inv w rs" by (auto simp: log_is_def)
  have "wal b' = Some (snd (Append w r))" using ap w(1) by (auto simp: wal_append_def)
  then show "\<exists>l. log_is b' (rs @ [r\<lparr>lsn := l\<rparr>])" using Append_inv(2) [OF w(2) f surjective_pairing] unfolding log_is_def by blast
qed

lemma SyncData_ok:
  assumes "pager_inv p" and "SyncData p i = (s, p', i')"
  shows "pager_inv p'" and "meta p' = meta p" and "content (pfile p') = content (pfile p)"
    and "s = kOk \<Longrightarrow> synced (pfile p') = content (pfile p')"
  using assms by (auto simp: SyncData_def Sync_def pager_inv_def split: prod.splits sum.splits if_splits)

lemma pager_sync_data_ok:
  assumes ok: "pool_ok b" and sy: "pager_sync_data b = (s, b')"
  shows "same_store b b'" and "wal b' = wal b" and "meta (pager b') = meta (pager b)"
    and "s = kOk \<Longrightarrow> (\<And>j. data_page (pager b) j \<Longrightarrow> stamp (page_of_bytes (disk (pager b) j)) 0 = pview b j) \<Longrightarrow> data_synced b'"
proof -
  obtain s1 p i where d: "SyncData (pager b) (io b) = (s1, p, i)" by (metis prod_cases3)
  have inv: "pager_inv (pager b)" using ok by (simp add: pool_ok_def pool_inv_def core_inv_def)
  note sd = SyncData_ok [OF inv d]
  have r: "s = s1" "b' = b\<lparr>pager := p, io := i\<rparr>" using sy d by (auto simp: pager_sync_data_def)
  have dk: "disk p j = disk (pager b) j" for j by (simp add: file_page_def sd(3))
  show "same_store b b'" unfolding r by (rule same_store_pager [OF ok sd(1)]) (simp_all add: sd(2) dk)
  show "wal b' = wal b" "meta (pager b') = meta (pager b)" by (simp_all add: r sd(2))
  show "data_synced b'" if "s = kOk" "\<And>j. data_page (pager b) j \<Longrightarrow> stamp (page_of_bytes (disk (pager b) j)) 0 = pview b j"
    using that sd(2,4) dk pview_pager [of p _ b i] by (simp add: data_synced_def r data_page_def)
qed

lemma PersistMeta_data:
  assumes inv: "pager_inv p" and l: "length (mreserved (meta p)) = 4048" and pm: "PersistMeta p i = (s, p', i')"
  shows "pager_inv p'" and "data_page p j \<Longrightarrow> disk p' j = disk p j" and "synced (pfile p') = synced (pfile p)"
    and "root_page_id (meta p') = root_page_id (meta p)" and "num_keys (meta p') = num_keys (meta p)" and "num_pages (meta p') = num_pages (meta p)"
    and "free_list_head (meta p') = free_list_head (meta p)" and "checkpoint_lsn (meta p') = checkpoint_lsn (meta p)" and "mreserved (meta p') = mreserved (meta p)"
    and "s = kOk \<Longrightarrow> meta_copy (pfile p') (unat (generation (meta p') mod 2)) = meta p'"
proof -
  show "pager_inv p'" by (rule PersistMeta_file(1) [OF inv l pm])
  let ?g = "generation (meta p) + 1" define k where "k = unat (?g mod 2)"
  let ?m0 = "(meta p)\<lparr>generation := ?g\<rparr>" let ?m = "?m0\<lparr>mchecksum := ComputeMetaChecksum ?m0\<rparr>"
  obtain r f i1 where w: "Write (pfile p) (k * kPageSize) (meta_bytes ?m) i = (r, f, i1)" by (metis prod_cases3)
  have i01: "k = 0 \<or> k = 1" unfolding k_def by (rule mod2_cases)
  then have ui: "unat (of_nat k :: PageId) = k" by auto
  have len: "length (meta_bytes ?m) = kPageSize" using l by (intro length_meta_bytes) simp
  have w': "Write (pfile p) (unat (of_nat k :: PageId) * kPageSize) (meta_bytes ?m) i = (r, f, i1)" unfolding ui by (rule w)
  have wp: "\<And>j. j \<noteq> k \<Longrightarrow> j * kPageSize + kPageSize \<le> length (content (pfile p)) \<Longrightarrow> file_page f j = file_page (pfile p) j"
    using Write_page(3) [OF inv w' len] unfolding ui .
  have f: "pfile p' = f" using pm w by (auto simp: PersistMeta_def Let_def k_def [symmetric] split: sum.splits)
  show "disk p' j = disk p j" if "data_page p j" for j
  proof -
    have "unat j \<noteq> k" using that i01 by (auto simp: data_page_def kFirstDataPage_def word_le_nat_alt)
    then show ?thesis unfolding f using that data_page_room [OF inv, of j] by (intro wp) (simp_all add: data_page_def)
  qed
  show "synced (pfile p') = synced (pfile p)"
    using w unfolding f by (auto simp: Write_def do_pwrite_def split: if_splits prod.splits option.splits)
  show "root_page_id (meta p') = root_page_id (meta p)" "num_keys (meta p') = num_keys (meta p)" "num_pages (meta p') = num_pages (meta p)"
    "free_list_head (meta p') = free_list_head (meta p)" "checkpoint_lsn (meta p') = checkpoint_lsn (meta p)" "mreserved (meta p') = mreserved (meta p)"
    using pm w by (auto simp: PersistMeta_def Let_def k_def [symmetric] split: sum.splits)
  show "meta_copy (pfile p') (unat (generation (meta p') mod 2)) = meta p'" if "s = kOk"
  proof -
    have "meta_copy (pfile p') k = meta p'" "meta p' = (meta p)\<lparr>generation := ?g, mchecksum := mchecksum (meta p')\<rparr>"
      using PersistMeta_file(3) [OF inv l pm that] by (auto simp: k_def)
    then show ?thesis unfolding k_def by (metis MetaPage.select_convs(8) MetaPage.surjective MetaPage.update_convs(7) MetaPage.update_convs(8))
  qed
qed

lemma pager_sync_ok:
  assumes ok: "pool_ok b" and l: "length (mreserved (meta (pager b))) = 4048" and sy: "pager_sync b = (s, b')"
  shows "same_store b b'" and "wal b' = wal b" and "checkpoint_lsn (meta (pager b')) = checkpoint_lsn (meta (pager b))"
    and "s = kOk \<Longrightarrow> data_synced b \<Longrightarrow> data_synced b' \<and> meta_synced b'"
proof -
  have inv: "pager_inv (pager b)" using ok by (simp add: pool_ok_def pool_inv_def core_inv_def)
  obtain s1 p1 i1 where pm: "PersistMeta (pager b) (io b) = (s1, p1, i1)" by (metis prod_cases3)
  note pd = PersistMeta_data [OF inv l pm]
  obtain s2 p2 i2 where sd: "SyncData p1 i1 = (s2, p2, i2)" by (metis prod_cases3)
  note so = SyncData_ok [OF pd(1) sd]
  define p where "p = (if s1 = kOk then p2 else p1)"
  have r: "b' = b\<lparr>pager := p, io := (if s1 = kOk then i2 else i1)\<rparr>" "s = (if s1 = kOk then s2 else s1)"
    using sy pm sd by (auto simp: pager_sync_def Pager_Sync_def p_def split: if_splits)
  have pp: "pager_inv p" "meta p = meta p1" "\<And>j. disk p j = disk p1 j" using pd(1) so(1-3) by (auto simp: p_def file_page_def)
  have dk: "disk p j = disk (pager b) j" if "data_page (pager b) j" for j using pp(3) pd(2) [OF that] by simp
  show "same_store b b'" unfolding r by (rule same_store_pager [OF ok pp(1)]) (simp_all add: pp(2) pd(4-7,9) dk)
  show "wal b' = wal b" "checkpoint_lsn (meta (pager b')) = checkpoint_lsn (meta (pager b))" by (simp_all add: r pp(2) pd(8))
  assume s: "s = kOk" and d: "data_synced b"
  then have k: "s1 = kOk" "s2 = kOk" using r(2) by (auto split: if_splits)
  have sy: "synced (pfile p) = content (pfile p)" using so(4) [OF k(2)] k(1) by (simp add: p_def)
  have "pview b' j = pview b j" if "data_page (pager b) j" for j unfolding r by (rule pview_pager) (use dk that in simp)
  moreover have "data_page (pager b') = data_page (pager b)" by (simp add: r data_page_def fun_eq_iff pp(2) pd(6))
  ultimately have "data_synced b'" using sy d dk by (simp add: data_synced_def r(1))
  moreover have "meta_synced b'" using sy pd(10) [OF k(1)] so(3) k(1) pp(2) by (simp add: meta_synced_def r(1) p_def file_page_def)
  ultimately show "data_synced b' \<and> meta_synced b'" ..
qed

lemma wal_truncate_ok:
  assumes ok: "pool_ok b" and tr: "wal_truncate l b = (s, b')"
  shows "same_store b b'" and "pager b' = pager b" and "s = kOk \<Longrightarrow> log_is b rs \<Longrightarrow> log_is b' []" and "wal b \<noteq> None \<Longrightarrow> wal b' \<noteq> None"
proof -
  show "same_store b b'" "pager b' = pager b" "wal b \<noteq> None \<Longrightarrow> wal b' \<noteq> None" using tr same_store_wal [OF ok] same_store_refl [OF ok]
    by (auto simp: wal_truncate_def split: option.splits prod.splits)
  assume s: "s = kOk" and "log_is b rs"
  then obtain w where w: "wal b = Some w" "wal_inv w rs" by (auto simp: log_is_def)
  obtain s1 w1 i1 where t: "Wal_Truncate w l (io b) = (s1, w1, i1)" by (metis prod_cases3)
  have "fd_open (wfile w)" using w(2) by (simp add: wal_inv_def)
  from Wal_Truncate_inv [OF this t] show "log_is b' []" using tr w(1) t s by (auto simp: wal_truncate_def log_is_def)
qed

lemma data_synced_same:
  assumes "data_synced b" and "pager b' = pager b" and "\<And>j. pview b' j = pview b j"
  shows "data_synced b'"
  using assms by (simp add: data_synced_def)

lemma pview_wal: "pview (b\<lparr>wal := w, io := i\<rparr>) j = pview b j" "pview (b\<lparr>wal := w\<rparr>) j = pview b j"
  by (simp_all add: pview_def cong: option.case_cong)

lemma wal_ops_view:
  "wal_flush b = (s, b') \<Longrightarrow> pview b' j = pview b j" "wal_append r b = (s, b') \<Longrightarrow> pview b' j = pview b j"
  "wal_truncate l b = (s, b') \<Longrightarrow> pview b' j = pview b j"
  by (auto simp: wal_flush_def wal_append_def wal_truncate_def pview_wal split: option.splits prod.splits)

lemma checkpoint_pages_ok:
  assumes ok: "pool_ok b" and ck: "checkpoint_pages b = (s, b')"
  shows "same_store b b'" and "log_is b rs \<Longrightarrow> log_is b' rs" and "meta (pager b') = meta (pager b)" and "s = kOk \<Longrightarrow> data_synced b'"
proof -
  have "same_store b b' \<and> (log_is b rs \<longrightarrow> log_is b' rs) \<and> meta (pager b') = meta (pager b) \<and> (s = kOk \<longrightarrow> data_synced b')"
    using ck unfolding checkpoint_pages_def
  proof (cases rule: andthen_cases)
    case 1
    from 1(1) show ?thesis
    proof (cases rule: andthen_cases)
      case 1
      then show ?thesis using wal_flush_ok [OF ok, of s b'] by auto
    next
      case (2 b1)
      note f = wal_flush_ok [OF ok 2(1)]
      note a = same_store_FlushAll [OF same_store_ok [OF f(1)] 2(2)]
      show ?thesis using same_store_trans [OF f(1) a(1)] FlushAll_log [OF same_store_ok [OF f(1)] 2(2) f(3)] a(3) f(2) 1(2) by simp
    qed
  next
    case (2 b2)
    from 2(1) obtain b1 where b1: "wal_flush b = (kOk, b1)" "FlushAll b1 = (kOk, b2)" by (rule andthen_cases) auto
    note f = wal_flush_ok [OF ok b1(1)]
    note a = same_store_FlushAll [OF same_store_ok [OF f(1)] b1(2)]
    note y = pager_sync_data_ok [OF same_store_ok [OF a(1)] 2(2)]
    have "log_is b rs \<longrightarrow> log_is b' rs" using FlushAll_log [OF same_store_ok [OF f(1)] b1(2) f(3)] y(2) by (simp add: log_is_def)
    moreover have "same_store b b'" by (rule same_store_trans [OF f(1) same_store_trans [OF a(1) y(1)]])
    moreover have "meta (pager b') = meta (pager b)" using y(3) a(3) f(2) by simp
    moreover have "s = kOk \<Longrightarrow> data_synced b'" using y(4) a(2) by simp
    ultimately show ?thesis by blast
  qed
  then show "same_store b b'" "log_is b rs \<Longrightarrow> log_is b' rs" "meta (pager b') = meta (pager b)" "s = kOk \<Longrightarrow> data_synced b'" by auto
qed

lemma SetCheckpointLsn_ok:
  assumes ok: "pool_ok b"
  shows "same_store b (b\<lparr>pager := SetCheckpointLsn (pager b) l\<rparr>)" and "data_synced b \<Longrightarrow> data_synced (b\<lparr>pager := SetCheckpointLsn (pager b) l\<rparr>)"
proof -
  let ?p = "SetCheckpointLsn (pager b) l"
  have inv: "pager_inv (pager b)" using ok by (simp add: pool_ok_def pool_inv_def core_inv_def)
  have "pager_inv ?p" using inv by (simp add: pager_inv_def SetCheckpointLsn_def)
  then have "same_store b (b\<lparr>pager := ?p, io := io b\<rparr>)" by (rule same_store_pager [OF ok]) (simp_all add: SetCheckpointLsn_def)
  then show "same_store b (b\<lparr>pager := ?p\<rparr>)" by simp
  show "data_synced (b\<lparr>pager := ?p\<rparr>)" if "data_synced b"
    using that pview_pager [of ?p _ b "io b"] by (simp add: data_synced_def SetCheckpointLsn_def data_page_def)
qed

lemma checkpoint_log_ok:
  assumes ok: "pool_ok b" and ck: "checkpoint_log b = (s, b')" and l: "log_is b rs" "length (ser rs) + 31 < 2 ^ 64"
    and d: "data_synced b" and res: "length (mreserved (meta (pager b))) = 4048"
  shows "same_store b b' \<and> ((\<exists>m. log_is b' (rs @ m)) \<or> data_synced b' \<and> meta_synced b') \<and>
    (s = kOk \<longrightarrow> log_is b' [] \<and> data_synced b' \<and> meta_synced b' \<and> checkpoint_lsn (meta (pager b')) = wal_end b')"
proof -
  let ?r = "LogRecord_init\<lparr>rtype := kCheckpoint, op_end := True\<rparr>"
  have fit: "rec_fits ?r" "length (ser rs) + SerializedSize ?r < 2 ^ 64"
    using l(2) by (simp_all add: rec_fits_def LogRecord_init_def SerializedSize_def rec_consts)
  from ck [unfolded checkpoint_log_def] show ?thesis
  proof (cases rule: andthen_cases)
    case 1
    from 1(1) show ?thesis
    proof (cases rule: andthen_cases)
      case 1
      then show ?thesis using wal_append_ok(1) [OF ok, of ?r s b'] by simp
    next
      case (2 b1)
      obtain x where a: "same_store b b1" "log_is b1 (rs @ [x])" using wal_append_ok [OF ok 2(1)] l(1) fit by blast
      note f = wal_flush_ok [OF same_store_ok [OF a(1)] 2(2)]
      show ?thesis using same_store_trans [OF a(1) f(1)] f(3) [OF a(2)] 1(2) by blast
    qed
  next
    case (2 b2)
    from 2(1) obtain b1 where b1: "wal_append ?r b = (kOk, b1)" "wal_flush b1 = (kOk, b2)" by (rule andthen_cases) auto
    obtain x where a: "same_store b b1" "pager b1 = pager b" "log_is b1 (rs @ [x])" using wal_append_ok [OF ok b1(1)] l(1) fit by blast
    note f = wal_flush_ok [OF same_store_ok [OF a(1)] b1(2)]
    let ?l = "wal_end b2" let ?b3 = "b2\<lparr>pager := SetCheckpointLsn (pager b2) ?l\<rparr>"
    have d2: "data_synced b2" by (rule data_synced_same [OF d]) (use a(2) f(2) wal_ops_view(1) [OF b1(2)] wal_ops_view(2) [OF b1(1)] in simp_all)
    note c = SetCheckpointLsn_ok [OF same_store_ok [OF f(1)], of ?l]
    have r3: "length (mreserved (meta (pager ?b3))) = 4048" using res a(2) f(2) by (simp add: SetCheckpointLsn_def)
    have st3: "same_store b ?b3" by (rule same_store_trans [OF a(1) same_store_trans [OF f(1) c(1)]])
    have lg: "log_is b2 (rs @ [x])" by (rule f(3) [OF a(3)])
    from 2(2) [unfolded Let_def] show ?thesis
    proof (cases rule: andthen_cases)
      case 1
      note p = pager_sync_ok [OF same_store_ok [OF c(1)] r3 1(1)]
      have "log_is b' (rs @ [x])" using lg p(2) by (simp add: log_is_def)
      then show ?thesis using same_store_trans [OF st3 p(1)] 1(2) by blast
    next
      case (2 b4)
      note p = pager_sync_ok [OF same_store_ok [OF c(1)] r3 2(1)]
      note t = wal_truncate_ok [OF same_store_ok [OF p(1)] 2(2)]
      have d4: "data_synced b4" "meta_synced b4" using p(4) c(2) [OF d2] by auto
      have "data_synced b'" by (rule data_synced_same [OF d4(1)]) (use t(2) wal_ops_view(3) [OF 2(2)] in simp_all)
      moreover have "meta_synced b'" using d4(2) t(2) by (simp add: meta_synced_def)
      moreover have "log_is b4 (rs @ [x])" using lg p(2) by (simp add: log_is_def)
      then have "log_is b' []" if "s = kOk" using t(3) that by blast
      moreover have "checkpoint_lsn (meta (pager b')) = wal_end b'" if "s = kOk"
      proof -
        obtain w where w: "wal b4 = Some w" using \<open>log_is b4 _\<close> by (auto simp: log_is_def)
        have "wal_end b' = ?l" using 2(2) that w by (auto simp: wal_truncate_def wal_end_def Wal_Truncate_def split: prod.splits sum.splits)
        then show ?thesis using t(2) p(3) by (simp add: SetCheckpointLsn_def)
      qed
      ultimately show ?thesis using same_store_trans [OF st3 same_store_trans [OF p(1) t(1)]] by blast
    qed
  qed
qed

text \<open>The contents do not depend on the state of the log.\<close>

lemma andthen_store:
  assumes "andthen r f = (s, b')" and "same_store b (snd r)"
    and "\<And>b1. r = (kOk, b1) \<Longrightarrow> f b1 = (s, b') \<Longrightarrow> same_store b b'"
  shows "same_store b b'"
  using assms(1)
proof (cases rule: andthen_cases)
  case 1
  then show ?thesis using assms(2) by simp
qed (rule assms(3))

lemma checkpoint_log_store:
  assumes ok: "pool_ok b" and ck: "checkpoint_log b = (s, b')" and res: "length (mreserved (meta (pager b))) = 4048"
  shows "same_store b b'"
proof (rule andthen_store [OF ck [unfolded checkpoint_log_def]])
  let ?r = "LogRecord_init\<lparr>rtype := kCheckpoint, op_end := True\<rparr>"
  obtain s1 b1 where a: "wal_append ?r b = (s1, b1)" by fastforce
  note w = wal_append_ok [OF ok a]
  obtain s2 b2 where f: "wal_flush b1 = (s2, b2)" by fastforce
  note wf = wal_flush_ok [OF same_store_ok [OF w(2)] f]
  have st: "same_store b b2" by (rule same_store_trans [OF w(2) wf(1)])
  have r: "andthen (wal_append ?r b) wal_flush = (s2, b2)" using a w(1) f by (simp add: andthen_def)
  show "same_store b (snd (andthen (wal_append ?r b) wal_flush))" using st r by simp
  fix b3 assume b3: "andthen (wal_append ?r b) wal_flush = (kOk, b3)"
    and f3: "(let l = wal_end b3 in andthen (pager_sync (b3\<lparr>pager := SetCheckpointLsn (pager b3) l\<rparr>)) (wal_truncate l)) = (s, b')"
  have e: "b3 = b2" using b3 r by simp
  let ?b = "b2\<lparr>pager := SetCheckpointLsn (pager b2) (wal_end b2)\<rparr>"
  note c = SetCheckpointLsn_ok [OF same_store_ok [OF wf(1)], of "wal_end b2"]
  have r3: "length (mreserved (meta (pager ?b))) = 4048" using res w(3) wf(2) by (simp add: SetCheckpointLsn_def)
  obtain s4 b4 where p: "pager_sync ?b = (s4, b4)" by fastforce
  note ps = pager_sync_ok [OF same_store_ok [OF c(1)] r3 p]
  have st4: "same_store b b4" by (rule same_store_trans [OF st same_store_trans [OF c(1) ps(1)]])
  show "same_store b b'"
  proof (rule andthen_store [OF f3 [unfolded Let_def e]])
    fix b5 assume "pager_sync ?b = (kOk, b5)" and t: "wal_truncate (wal_end b2) b5 = (s, b')"
    then have "b5 = b4" using p by simp
    then show "same_store b b'" using same_store_trans [OF st4 wal_truncate_ok(1) [OF same_store_ok [OF ps(1)]]] t by simp
  qed (use st4 p in simp)
qed

subsection \<open>The handle\<close>

lemma CheckpointLocked_store:
  assumes ok: "pool_ok (pool db)" and res: "length (mreserved (meta (pager (pool db)))) = 4048" and ck: "CheckpointLocked db = (s, db')"
  shows "same_store (pool db) (pool db')"
proof -
  obtain s1 b1 where c: "checkpoint_pages (pool db) = (s1, b1)" by fastforce
  note p = checkpoint_pages_ok [OF ok c]
  obtain s2 b2 where g: "checkpoint_log b1 = (s2, b2)" by fastforce
  have "same_store b1 b2" by (rule checkpoint_log_store [OF same_store_ok [OF p(1)] g]) (use res p(3) in simp)
  then show ?thesis using ck c g p(1) same_store_trans [OF p(1)] same_store_refl [OF ok]
    by (auto simp: CheckpointLocked_def Let_def split: if_splits)
qed

lemma CheckpointLocked_ok:
  assumes ok: "pool_ok (pool db)" and l: "log_is (pool db) rs" "length (ser rs) + 31 < 2 ^ 64"
    and res: "length (mreserved (meta (pager (pool db)))) = 4048" and ck: "CheckpointLocked db = (s, db')"
  shows "same_store (pool db) (pool db')"
    and "(\<exists>m. log_is (pool db') (rs @ m)) \<or> data_synced (pool db') \<and> meta_synced (pool db')"
    and "0 < active_begun_txns db \<or> needs_reopen db \<Longrightarrow> log_is (pool db') rs"
    and "s = kOk \<Longrightarrow> data_synced (pool db')"
    and "s = kOk \<Longrightarrow> active_begun_txns db \<le> 0 \<Longrightarrow>
      log_is (pool db') [] \<and> meta_synced (pool db') \<and> checkpoint_lsn (meta (pager (pool db'))) = wal_end (pool db')"
proof -
  have "same_store (pool db) (pool db') \<and> ((\<exists>m. log_is (pool db') (rs @ m)) \<or> data_synced (pool db') \<and> meta_synced (pool db')) \<and>
    (0 < active_begun_txns db \<or> needs_reopen db \<longrightarrow> log_is (pool db') rs) \<and> (s = kOk \<longrightarrow> data_synced (pool db')) \<and>
    (s = kOk \<longrightarrow> active_begun_txns db \<le> 0 \<longrightarrow>
      log_is (pool db') [] \<and> meta_synced (pool db') \<and> checkpoint_lsn (meta (pager (pool db'))) = wal_end (pool db'))"
  proof (cases "needs_reopen db")
    case True
    then show ?thesis using ck l(1) same_store_refl [OF ok] by (auto simp: CheckpointLocked_def intro: exI [of _ "[]"])
  next
    case False
    obtain s1 b1 where c: "checkpoint_pages (pool db) = (s1, b1)" by fastforce
    note p = checkpoint_pages_ok(1) [OF ok c] checkpoint_pages_ok(2) [OF ok c l(1)] checkpoint_pages_ok(3,4) [OF ok c]
    show ?thesis
    proof (cases "s1 = kOk \<and> active_begun_txns db \<le> 0")
      case True
      obtain s2 b2 where g: "checkpoint_log b1 = (s2, b2)" by fastforce
      have "length (mreserved (meta (pager b1))) = 4048" using res p(3) by simp
      note q = checkpoint_log_ok [OF same_store_ok [OF p(1)] g p(2) l(2) _ this]
      have "s = s2" "pool db' = b2" using ck c g True False by (auto simp: CheckpointLocked_def)
      then show ?thesis using q p(4) True False same_store_trans [OF p(1)] by auto
    next
      case False
      then have "s = s1" "pool db' = b1" using ck c \<open>\<not> needs_reopen db\<close> by (auto simp: CheckpointLocked_def Let_def split: if_splits)
      then show ?thesis using p False by (auto intro: exI [of _ "[]"])
    qed
  qed
  then show "same_store (pool db) (pool db')"
    "(\<exists>m. log_is (pool db') (rs @ m)) \<or> data_synced (pool db') \<and> meta_synced (pool db')"
    "0 < active_begun_txns db \<or> needs_reopen db \<Longrightarrow> log_is (pool db') rs"
    "s = kOk \<Longrightarrow> data_synced (pool db')"
    "s = kOk \<Longrightarrow> active_begun_txns db \<le> 0 \<Longrightarrow>
      log_is (pool db') [] \<and> meta_synced (pool db') \<and> checkpoint_lsn (meta (pager (pool db'))) = wal_end (pool db')" by blast+
qed

subsection \<open>Properties\<close>

text \<open>
  C6: a checkpoint never loses data, wherever it stops. Whatever the operating system does, the stored entries stay the same, and
  afterwards either the log still has all its records (possibly followed by the checkpoint marker) or the data file
  holds, synced, the current content of every page and the meta data; with a begun transaction in flight, or on a poisoned
  handle, the log is kept in any case. A checkpoint that reports Ok has synced every data page, and with no
  transaction in flight it has emptied the log, whose next LSN is the checkpoint LSN of the meta page.
\<close>

theorem Checkpoint_never_loses_data:
  assumes "stored (pool db) es" and "log_is (pool db) rs" and "length (ser rs) + 31 < 2 ^ 64"
    and "length (mreserved (meta (pager (pool db)))) = 4048" and "Checkpoint db = (s, db')"
  shows "stored (pool db') es \<and>
    ((\<exists>m. log_is (pool db') (rs @ m)) \<or> data_synced (pool db') \<and> meta_synced (pool db')) \<and>
    (0 < active_begun_txns db \<or> needs_reopen db \<longrightarrow> log_is (pool db') rs) \<and>
    (s = kOk \<longrightarrow> data_synced (pool db') \<and> (active_begun_txns db \<le> 0 \<longrightarrow>
       log_is (pool db') [] \<and> meta_synced (pool db') \<and> checkpoint_lsn (meta (pager (pool db'))) = wal_end (pool db')))"
proof -
  note c = CheckpointLocked_ok [OF stored_inv [OF assms(1)] assms(2-4) assms(5) [unfolded Checkpoint_def]]
  show ?thesis using same_store_stored [OF c(1) assms(1)] c(2-5) by blast
qed

text \<open>A new database of three pages with an empty log.\<close>

definition new_db :: DbImpl where
  "new_db = DbImpl_init ''db'' Options_init \<lparr>fd_open = True, content = [], synced = []\<rparr> pager3 empty_log calm 16"

lemma new_db_ok: "stored (pool new_db) []" "roomy (pool new_db)" "log_is (pool new_db) []"
  "length (mreserved (meta (pager (pool new_db)))) = 4048" "PinCount (pool new_db) p = 0"
proof -
  let ?b = "BufferPool_init pager3 (Some empty_log) calm 16"
  have b: "pool new_db = ?b" by (simp add: new_db_def DbImpl_init_def)
  have m: "meta (pager ?b) = Meta_Init\<lparr>num_pages := 3\<rparr>" by (simp add: BufferPool_init_def Let_def)
  have "free_pages ?b []" by (rule BufferPool_init_ok(3) [OF small_pager]) (simp add: Meta_Init_def)
  then have "pool_ok ?b" using BufferPool_init_ok(1) [OF small_pager] by (auto simp: pool_ok_def)
  then show "stored (pool new_db) []" using m by (simp add: b stored_def IsEmpty_def Meta_Init_def)
  show "roomy (pool new_db)" "length (mreserved (meta (pager (pool new_db)))) = 4048" using m by (simp_all add: b roomy_def Meta_Init_def)
  show "log_is (pool new_db) []" using empty_log_inv by (simp add: b log_is_def BufferPool_init_def Let_def)
  show "PinCount (pool new_db) p = 0" by (simp add: b PinCount_def BufferPool_init_def Let_def)
qed

theorem Checkpoint_never_loses_data_witness:
  "let (s, db') = Checkpoint new_db in s = kOk \<and> stored (pool db') [] \<and> log_is (pool db') []"
proof -
  obtain s db' where c: "Checkpoint new_db = (s, db')" by fastforce
  have "s = kOk"
    using c by (auto simp: new_db_def DbImpl_init_def BufferPool_init_def Checkpoint_def CheckpointLocked_def checkpoint_pages_def checkpoint_log_def
        wal_flush_def wal_append_def wal_truncate_def pager_sync_data_def pager_sync_def Pager_Sync_def SyncData_def PersistMeta_def
        Wal_Truncate_def Truncate_def Flush_def FlushLocked_def FlushAll_def Write_def Sync_def next_sys_def take_credit_def do_pwrite_def
        Append_def BufferRecordLocked_def AppendTo_eq andthen_def Let_def SetCheckpointLsn_def rec_bytes_nonempty)
  have "active_begun_txns new_db \<le> 0" by (simp add: new_db_def DbImpl_init_def)
  then show ?thesis using Checkpoint_never_loses_data [OF new_db_ok(1,3) _ new_db_ok(4) c] c \<open>s = kOk\<close> by (simp add: ser_def)
qed

end
