(* ===== verification/Db_Store.thy ===== *)
theory Db_Store
  imports Checkpoints
begin

section \<open>What the database promises about its contents\<close>

text \<open>
  The autocommit operations of the handle against the list of stored entries: range scans, writes with their outcome on the
  handle, the log and the disk, and what a poisoned handle still allows.
\<close>

subsection \<open>Scans\<close>

fun visit :: "('s \<Rightarrow> key \<Rightarrow> bytes \<Rightarrow> bool \<times> 's) \<Rightarrow> 's \<Rightarrow> (key \<times> bytes) list \<Rightarrow> 's" where
  "visit callback st [] = st"
| "visit callback st ((k, v) # L) = (case callback st k v of (go, st) \<Rightarrow> if go then visit callback st L else st)"

abbreviation key_range :: "key \<Rightarrow> key \<Rightarrow> (key \<times> bytes) list \<Rightarrow> (key \<times> bytes) list" where
  "key_range start end_key es \<equiv> filter (\<lambda>e. start \<le> fst e \<and> (end_key = [] \<or> fst e < end_key)) es"

lemma filter_dropWhile_sorted:
  assumes "sorted_wrt (<) (map fst es)"
  shows "dropWhile (\<lambda>e. fst e < start) es = filter (\<lambda>e. start \<le> fst (e :: key \<times> bytes)) es"
  using assms
proof (induction es)
  case (Cons e es)
  show ?case
  proof (cases "fst e < start")
    case False
    then have "\<forall>x \<in> set es. start \<le> fst x" using Cons.prems by (auto simp: not_less intro: order.trans less_imp_le)
    then show ?thesis using False by (simp add: not_less)
  qed (use Cons in \<open>simp add: not_le\<close>)
qed simp

lemma filter_takeWhile_sorted:
  assumes "sorted_wrt (<) (map fst es)"
  shows "takeWhile (\<lambda>e. end_key = [] \<or> fst e < end_key) es = filter (\<lambda>e. end_key = [] \<or> fst (e :: key \<times> bytes) < end_key) es"
  using assms
proof (induction es)
  case (Cons e es)
  show ?case
  proof (cases "end_key = [] \<or> fst e < end_key")
    case False
    then have "\<forall>x \<in> set es. \<not> fst x < end_key" using Cons.prems by (auto simp: not_less intro: order.trans less_imp_le)
    then show ?thesis using False by (simp add: filter_empty_conv)
  qed (use Cons in simp)
qed simp

lemma scan_loop_ok:
  fixes end_key :: key
  assumes "cursor_at b es c L"
  defines "R \<equiv> takeWhile (\<lambda>e. end_key = [] \<or> fst e < end_key) L"
  shows "\<exists>c' st' b'. scan_loop end_key callback c st b = Some (c', st', b') \<and> pc.reads b b' \<and> PinCount b' = PinCount b \<and>
    (cstatus c' = kOk \<and> st' = visit callback st R \<or> io_error (cstatus c') \<and> (\<exists>n. st' = visit callback st (take n R)))"
  using assms(1) unfolding R_def
proof (induction L arbitrary: b c st)
  case Nil
  then show ?case using cursor_at_facts(2) [OF Nil] pc.reads_refl [OF cursor_at_facts(1) [OF Nil]]
    by (simp add: scan_loop.simps)
next
  case (Cons e L)
  obtain k v where e: "e = (k, v)" by fastforce
  note f = cursor_at_facts(3) [OF Cons.prems [unfolded e]]
  have st0: "cstatus c = kOk" using Cons.prems by (auto simp: cursor_at_def cursor_on_def at_cursor_def)
  obtain go st1 where cb: "callback st k v = (go, st1)" by fastforce
  show ?case
  proof (cases "(end_key = [] \<or> k < end_key) \<and> go")
    case False
    then have "scan_loop end_key callback c st b = Some (c, if end_key = [] \<or> k < end_key then st1 else st, b)"
      using f cb by (subst scan_loop.simps) (auto simp: not_less)
    then show ?thesis using False cb st0 pc.reads_refl [OF cursor_at_facts(1) [OF Cons.prems]] e by auto
  next
    case True
    obtain c1 b1 where n: "Next c b = Some (c1, b1)" "pc.reads b b1" "PinCount b1 = PinCount b"
      "cursor_at b1 es c1 L \<or> \<not> cvalid c1 \<and> io_error (cstatus c1)" using Next_stored [OF Cons.prems] by blast
    have s: "scan_loop end_key callback c st b = scan_loop end_key callback c1 st1 b1"
      using f cb True n(1) by (subst scan_loop.simps) (auto simp: not_less)
    let ?R = "takeWhile (\<lambda>e. end_key = [] \<or> fst e < end_key) L"
    have v: "takeWhile (\<lambda>e. end_key = [] \<or> fst e < end_key) (e # L) = (k, v) # ?R" "visit callback st ((k, v) # ?R) = visit callback st1 ?R"
      "visit callback st (take (Suc n) ((k, v) # ?R)) = visit callback st1 (take n ?R)" for n using True cb e by auto
    from n(4) show ?thesis
    proof
      assume "cursor_at b1 es c1 L"
      from Cons.IH [OF this, of st1] show ?thesis using s v pc.reads_trans [OF n(2)] n(3) by metis
    next
      assume "\<not> cvalid c1 \<and> io_error (cstatus c1)"
      then have "scan_loop end_key callback c st b = Some (c1, st1, b1)" using s by (simp add: scan_loop.simps)
      then show ?thesis using n v(3) [of 0] v(1) \<open>\<not> cvalid c1 \<and> _\<close> by (metis take0 visit.simps(1))
    qed
  qed
qed

lemma Db_Scan_ok:
  assumes "stored_off d (pool db) es"
  shows "\<exists>s st' b'. Db_Scan start end_key callback st db = Some (s, st', db\<lparr>pool := b'\<rparr>) \<and> stored_off d b' es \<and> PinCount b' = PinCount (pool db) \<and>
    (s = kOk \<and> st' = visit callback st (key_range start end_key es) \<or>
     io_error s \<and> (\<exists>n. st' = visit callback st (take n (key_range start end_key es))))"
proof -
  let ?L = "dropWhile (\<lambda>e. fst e < start) es" let ?R = "takeWhile (\<lambda>e. end_key = [] \<or> fst e < end_key) ?L"
  obtain c b where k: "Seek start (pool db) = Some (c, b)" "pc.reads (pool db) b" "PinCount b = PinCount (pool db)"
    "cursor_at b es c ?L \<or> \<not> cvalid c \<and> io_error (cstatus c)" using Seek_stored [OF assms] by blast
  have so: "sorted_wrt (<) (map fst es)" by (rule stored_sorted [OF assms])
  have R: "?R = key_range start end_key es"
    using so by (simp add: filter_dropWhile_sorted filter_takeWhile_sorted sorted_wrt_map sorted_wrt_filter conj_commute)
  from k(4) show ?thesis
  proof
    assume "cursor_at b es c ?L"
    from scan_loop_ok [OF this, of end_key callback st] obtain c' st' b' where l:
      "scan_loop end_key callback c st b = Some (c', st', b')" "pc.reads b b'" "PinCount b' = PinCount b"
      "cstatus c' = kOk \<and> st' = visit callback st ?R \<or> io_error (cstatus c') \<and> (\<exists>n. st' = visit callback st (take n ?R))" by blast
    have "Db_Scan start end_key callback st db = Some (cstatus c', st', db\<lparr>pool := b'\<rparr>)" using k(1) l(1) by (simp add: Db_Scan_def)
    moreover have "PinCount b' = PinCount (pool db)" using k(3) l(3) by simp
    ultimately show ?thesis using l(4) stored_reads [OF assms pc.reads_trans [OF k(2) l(2)]] unfolding R by blast
  next
    assume "\<not> cvalid c \<and> io_error (cstatus c)"
    moreover from this have "Db_Scan start end_key callback st db = Some (cstatus c, st, db\<lparr>pool := b\<rparr>)"
      using k(1) by (simp add: Db_Scan_def scan_loop.simps)
    moreover have "st = visit callback st (take 0 (key_range start end_key es))" by simp
    ultimately show ?thesis using k(3) stored_reads [OF assms k(2)] by blast
  qed
qed

subsection \<open>Autocommit writes\<close>

definition durable :: "BufferPool \<Rightarrow> LogRecord list \<Rightarrow> bool" where
  "durable b rs \<longleftrightarrow> log_synced b rs \<or> data_synced b \<and> meta_synced b"

lemma MaybeAutoCheckpoint_cases: "MaybeAutoCheckpoint db = (kOk, db) \<or> MaybeAutoCheckpoint db = CheckpointLocked db \<and> active_begun_txns db \<le> 0"
  by (simp add: MaybeAutoCheckpoint_def)

lemma CheckpointLocked_flags: "CheckpointLocked db = (s, db') \<Longrightarrow> needs_reopen db' = needs_reopen db \<and> options db' = options db"
  by (auto simp: CheckpointLocked_def Let_def split: if_splits prod.splits)

lemma MaybeAutoCheckpoint_ok:
  assumes "stored (pool db) es" and "length (mreserved (meta (pager (pool db)))) = 4048" and "MaybeAutoCheckpoint db = (s, db')"
  shows "stored (pool db') es" and "needs_reopen db' = needs_reopen db" and "PinCount (pool db') = PinCount (pool db)"
    and "log_synced (pool db) rs \<Longrightarrow> length (ser rs) + 31 < 2 ^ 64 \<Longrightarrow> s = kOk \<Longrightarrow> durable (pool db') rs"
proof -
  have ok: "pool_ok (pool db)" by (rule stored_inv [OF assms(1)])
  have c: "s = kOk \<and> db' = db \<or> CheckpointLocked db = (s, db') \<and> active_begun_txns db \<le> 0"
    using MaybeAutoCheckpoint_cases [of db] assms(3) by auto
  have "same_store (pool db) (pool db')" using c same_store_refl [OF ok] CheckpointLocked_store [OF ok assms(2)] by auto
  then show "stored (pool db') es" "PinCount (pool db') = PinCount (pool db)" using same_store_stored assms(1) by (auto simp: same_store_def)
  show "needs_reopen db' = needs_reopen db" using c CheckpointLocked_flags by auto
  assume l: "log_synced (pool db) rs" "length (ser rs) + 31 < 2 ^ 64" "s = kOk"
  then have "log_is (pool db) rs" by (auto simp: log_synced_def log_is_def)
  from CheckpointLocked_ok(4,5) [OF ok this l(2) assms(2)] show "durable (pool db') rs" using c l by (auto simp: durable_def)
qed

lemma acknowledge_ok:
  assumes st: "stored (pool db) es" and r: "length (mreserved (meta (pager (pool db)))) = 4048" and ak: "acknowledge db = (s, db')"
  shows "stored (pool db') es" and "needs_reopen db' = needs_reopen db" and "PinCount (pool db') = PinCount (pool db)"
    and "log_is (pool db) rs \<Longrightarrow> length (ser rs) + 31 < 2 ^ 64 \<Longrightarrow> s = kOk \<Longrightarrow> sync_on_write (options db) \<Longrightarrow> durable (pool db') rs"
proof -
  have ok: "pool_ok (pool db)" by (rule stored_inv [OF st])
  obtain s1 b1 where f: "(if sync_on_write (options db) then wal_flush (pool db) else (kOk, pool db)) = (s1, b1)" by fastforce
  have w: "same_store (pool db) b1 \<and> pager b1 = pager (pool db)"
  proof (cases "sync_on_write (options db)")
    case True
    then show ?thesis using f wal_flush_ok(1,2) [OF ok, of s1 b1] by (simp only: if_True)
  next
    case False
    then show ?thesis using f same_store_refl [OF ok] by auto
  qed
  note w = conjunct1 [OF w] conjunct2 [OF w]
  let ?db = "db\<lparr>pool := b1\<rparr>"
  have st1: "stored (pool ?db) es" "length (mreserved (meta (pager (pool ?db)))) = 4048" using same_store_stored [OF w(1) st] w(2) r by auto
  have c: "s \<noteq> kOk \<and> s = s1 \<and> db' = ?db \<or> s1 = kOk \<and> MaybeAutoCheckpoint ?db = (s, db')"
    using ak f by (auto simp: acknowledge_def Let_def split: if_splits)
  note m = MaybeAutoCheckpoint_ok [OF st1]
  show "stored (pool db') es" "needs_reopen db' = needs_reopen db" using c st1(1) m(1,2) by auto
  have "PinCount b1 = PinCount (pool db)" using w(1) by (simp add: same_store_def)
  then show "PinCount (pool db') = PinCount (pool db)" using c m(3) by auto
  assume l: "log_is (pool db) rs" "length (ser rs) + 31 < 2 ^ 64" "s = kOk" "sync_on_write (options db)"
  then have "log_synced b1 rs" using wal_flush_ok(4) [OF ok] f c by auto
  then show "durable (pool db') rs" using c l(2,3) m(4) by auto
qed

lemma written_durable:
  assumes e: "evolves b b'" and l: "log_is b rs" and n: "log_bytes b' + 31 < 2 ^ 64"
  obtains rs' where "log_is b' (rs @ rs')" and "length (ser (rs @ rs')) + 31 < 2 ^ 64"
proof -
  obtain rs' where r: "log_is b' (rs @ rs')" using e l n unfolding evolves_def by fastforce
  then obtain w where w: "wal b' = Some w" "wal_inv w (rs @ rs')" by (auto simp: log_is_def)
  have "file_bytes w + length (buffer w) = length (ser (rs @ rs'))" using w(2) by (auto simp: wal_inv_def)
  then show ?thesis using that [OF r] n w(1) by (simp add: log_bytes_def)
qed

text \<open>
  What a write on a healthy handle leads to: refused before any change, failed in the tree and the handle poisoned, or applied;
  an applied write that is acknowledged is durable.
\<close>

definition write_outcome :: "Status \<Rightarrow> bool \<Rightarrow> (key \<times> bytes) list \<Rightarrow> (key \<times> bytes) list \<Rightarrow> LogRecord list \<Rightarrow> DbImpl \<Rightarrow> Status \<Rightarrow> DbImpl \<Rightarrow> bool" where
  "write_outcome refusal refused es es' rs db s db' \<longleftrightarrow>
     (if refused then s = refusal \<and> stored (pool db') es \<and> \<not> needs_reopen db'
      else needs_reopen db' \<and> io_error s \<or>
        \<not> needs_reopen db' \<and> stored (pool db') es' \<and> PinCount (pool db') = PinCount (pool db) \<and>
        (s = kOk \<longrightarrow> sync_on_write (options db) \<longrightarrow> (\<exists>rs'. durable (pool db') (rs @ rs'))))"

lemma Db_Put_ok:
  assumes st: "stored (pool db) es" and rm: "roomy (pool db)" and l: "log_is (pool db) rs"
    and r: "length (mreserved (meta (pager (pool db)))) = 4048" and h: "\<not> needs_reopen db"
    and n: "\<And>s bef b. Put k v (next_id (txn_manager db)) False (pool db) = Some (s, bef, b) \<Longrightarrow> log_bytes b + 31 < 2 ^ 64"
  shows "\<exists>s db'. Db_Put k v db = Some (s, db') \<and> write_outcome kInvalidArgument (4048 < 4 + length k + length v) es (upsert k v es) rs db s db'"
proof -
  let ?tx = "next_id (txn_manager db)" let ?tm = "snd (Txn_Begin (txn_manager db))"
  obtain s bef b where p: "Put k v ?tx False (pool db) = Some (s, bef, b)"
    "if s = kOk then stored b (upsert k v es) \<and> PinCount b = PinCount (pool db) \<and> bef = None
     else s = kInvalidArgument \<and> 4048 < 4 + length k + length v \<and> b = pool db \<or> io_error s"
    using Put_stored [OF st rm, of k v ?tx False] unfolding if_False by blast
  have big: "4048 < 4 + length k + length v \<Longrightarrow> s = kInvalidArgument \<and> b = pool db"
    using p(1) by (simp add: Put_def kMaxLeafRecordBytes_def layout_defs)
  let ?db = "db\<lparr>txn_manager := ?tm, pool := b\<rparr>"
  have d: "Db_Put k v db = Some (if s \<noteq> kOk then (s, if s \<noteq> kInvalidArgument then ?db\<lparr>needs_reopen := True\<rparr> else ?db) else acknowledge ?db)"
    using h p(1) by (simp add: Db_Put_def Txn_Begin_def Let_def)
  show ?thesis
  proof (cases "s = kOk")
    case False
    then show ?thesis using d p(2) big st h by (auto simp: write_outcome_def io_error_def split: if_splits)
  next
    case True
    obtain s' db' where a: "acknowledge ?db = (s', db')" by fastforce
    have e: "evolves (pool db) b" by (rule Put_evo [OF p(1) st])
    obtain rs' where rs': "log_is b (rs @ rs')" "length (ser (rs @ rs')) + 31 < 2 ^ 64" using written_durable [OF e l n [OF p(1)]] .
    have "stored (pool ?db) (upsert k v es)" "length (mreserved (meta (pager (pool ?db)))) = 4048" using p(2) True r e by (auto simp: evolves_def)
    note ak = acknowledge_ok [OF this a]
    have "\<not> 4048 < 4 + length k + length v" using big True by auto
    then show ?thesis using d a True ak(1-3) ak(4) [of "rs @ rs'"] rs' h p(2) by (auto simp: write_outcome_def)
  qed
qed

lemma Db_Delete_ok:
  assumes st: "stored (pool db) es" and l: "log_is (pool db) rs" and k: "length k < 65000"
    and r: "length (mreserved (meta (pager (pool db)))) = 4048" and h: "\<not> needs_reopen db"
    and n: "\<And>s bef b. Delete k (next_id (txn_manager db)) False (pool db) = Some (s, bef, b) \<Longrightarrow> log_bytes b + 31 < 2 ^ 64"
  shows "\<exists>s db'. Db_Delete k db = Some (s, db') \<and>
    (write_outcome kNotFound (map_of es k = None) es (remove_key k es) rs db s db' \<or> needs_reopen db' \<and> stored (pool db') es \<and> io_error s)"
proof -
  let ?tx = "next_id (txn_manager db)" let ?tm = "snd (Txn_Begin (txn_manager db))"
  obtain s bef b where p: "Delete k ?tx False (pool db) = Some (s, bef, b)" "PinCount b = PinCount (pool db)"
    "if s = kOk then stored b (remove_key k es) \<and> map_of es k \<noteq> None \<and> bef = None
     else stored b es \<and> bef = None \<and> (s = kNotFound \<and> map_of es k = None \<or> io_error s)"
    using Delete_stored [OF st, of k ?tx False] unfolding if_False by blast
  let ?db = "db\<lparr>txn_manager := ?tm, pool := b\<rparr>"
  have d: "Db_Delete k db = Some (if s \<noteq> kOk then (s, if s \<noteq> kNotFound then ?db\<lparr>needs_reopen := True\<rparr> else ?db) else acknowledge ?db)"
    using h p(1) by (simp add: Db_Delete_def Txn_Begin_def Let_def)
  show ?thesis
  proof (cases "s = kOk")
    case False
    then show ?thesis using d p(2,3) h by (auto simp: write_outcome_def io_error_def)
  next
    case True
    obtain s' db' where a: "acknowledge ?db = (s', db')" by fastforce
    have e: "evolves (pool db) b" by (rule Delete_stored_evo [OF p(1) k st])
    obtain rs' where rs': "log_is b (rs @ rs')" "length (ser (rs @ rs')) + 31 < 2 ^ 64" using written_durable [OF e l n [OF p(1)]] .
    have "stored (pool ?db) (remove_key k es)" "length (mreserved (meta (pager (pool ?db)))) = 4048" using p(3) True r e by (auto simp: evolves_def)
    note ak = acknowledge_ok [OF this a]
    show ?thesis using d a True ak(1-3) ak(4) [of "rs @ rs'"] rs' h p(2,3) by (auto simp: write_outcome_def)
  qed
qed

subsection \<open>Properties\<close>

text \<open>
  C2: autocommit \<^verbatim>\<open>Put\<close> on a healthy handle. It always returns. A record that does not fit a page is refused with
  InvalidArgument, nothing changes and the handle stays usable. A storage failure inside the tree is reported and poisons
  the handle. Otherwise the entry is stored, everything else is as before and the handle stays usable; when Ok is
  reported and \<^verbatim>\<open>sync_on_write\<close> is set, the write is durable: the log, extended by the records of this write, is synced to
  its last byte, or a checkpoint has synced the data pages and the meta page.
\<close>

theorem Db_Put_is_durable:
  assumes "stored (pool db) es" and "roomy (pool db)" and "log_is (pool db) rs" and "length (mreserved (meta (pager (pool db)))) = 4048"
    and "\<not> needs_reopen db"
    and "\<forall>s bef b. Put k v (next_id (txn_manager db)) False (pool db) = Some (s, bef, b) \<longrightarrow> log_bytes b + 31 < 2 ^ 64"
  shows "\<exists>s db'. Db_Put k v db = Some (s, db') \<and>
    (if 4048 < 4 + length k + length v then s = kInvalidArgument \<and> stored (pool db') es \<and> \<not> needs_reopen db'
     else needs_reopen db' \<and> io_error s \<or>
       \<not> needs_reopen db' \<and> stored (pool db') (upsert k v es) \<and> PinCount (pool db') = PinCount (pool db) \<and>
       (s = kOk \<longrightarrow> sync_on_write (options db) \<longrightarrow> (\<exists>rs'. durable (pool db') (rs @ rs'))))"
  using Db_Put_ok [OF assms(1-5)] assms(6) unfolding write_outcome_def by blast

text \<open>
  Autocommit \<^verbatim>\<open>Delete\<close> on a healthy handle, likewise: NotFound exactly when the key is absent (unless the storage
  failed), with nothing changed and the handle usable; a deletion that is acknowledged under \<^verbatim>\<open>sync_on_write\<close> is durable; a storage
  failure is reported and poisons the handle.
\<close>

theorem Db_Delete_is_durable:
  assumes "stored (pool db) es" and "log_is (pool db) rs" and "length k < 65000" and "length (mreserved (meta (pager (pool db)))) = 4048"
    and "\<not> needs_reopen db"
    and "\<forall>s bef b. Delete k (next_id (txn_manager db)) False (pool db) = Some (s, bef, b) \<longrightarrow> log_bytes b + 31 < 2 ^ 64"
  shows "\<exists>s db'. Db_Delete k db = Some (s, db') \<and>
    (needs_reopen db' \<and> io_error s \<or>
     \<not> needs_reopen db' \<and> map_of es k = None \<and> s = kNotFound \<and> stored (pool db') es \<or>
     \<not> needs_reopen db' \<and> map_of es k \<noteq> None \<and> stored (pool db') (remove_key k es) \<and>
       (s = kOk \<longrightarrow> sync_on_write (options db) \<longrightarrow> (\<exists>rs'. durable (pool db') (rs @ rs'))))"
  using Db_Delete_ok [OF assms(1-5)] assms(6) unfolding write_outcome_def by (fastforce split: if_splits)

text \<open>
  C16: \<^verbatim>\<open>Scan\<close> visits exactly the entries of the key range, in key order. With status Ok the caller's callback has been applied, from
  left to right, to the stored entries from \<open>start\<close> on and before \<open>end_key\<close> (no upper bound when it is empty) until it asked to stop;
  otherwise a storage error is reported after a prefix of them. The stored entries and the pins do not change, and the
  scan always ends.
\<close>

theorem Scan_visits_the_range:
  assumes "stored (pool db) es"
  shows "\<exists>s st' db'. Db_Scan start end_key callback st db = Some (s, st', db') \<and> stored (pool db') es \<and>
    PinCount (pool db') = PinCount (pool db) \<and>
    (s = kOk \<and> st' = visit callback st (key_range start end_key es) \<or>
     io_error s \<and> (\<exists>n. st' = visit callback st (take n (key_range start end_key es))))"
proof -
  obtain s st' b' where d: "Db_Scan start end_key callback st db = Some (s, st', db\<lparr>pool := b'\<rparr>)" "stored b' es" "PinCount b' = PinCount (pool db)"
    "s = kOk \<and> st' = visit callback st (key_range start end_key es) \<or> io_error s \<and> (\<exists>n. st' = visit callback st (take n (key_range start end_key es)))"
    using Db_Scan_ok [OF assms, of start end_key callback st] by blast
  then show ?thesis by (intro exI [of _ s] exI [of _ st'] exI [of _ "db\<lparr>pool := b'\<rparr>"]) simp
qed

text \<open>The database after one insertion.\<close>

lemma LogPage_bytes:
  "LogPageEvent b t tx pid oe = (s, b') \<Longrightarrow> log_bytes b' \<le> log_bytes b + 31"
  "LogPageImage b g tx oe = (s, b') \<Longrightarrow> log_bytes b' \<le> log_bytes b + 4127"
  by (auto simp: LogPageEvent_def LogPageImage_def Append_def AppendPageImage_def BufferRecordLocked_def AppendTo_eq log_bytes_def Let_def
      SerializedSize_def LogRecord_init_def rec_consts kPageSize_def set_gpage_def set_frame_def MarkDirty_def split: option.splits)

lemma log_bytes_frames [simp]:
  "log_bytes (set_gpage b g p) = log_bytes b" "log_bytes (ReleaseGuard b g) = log_bytes b" "log_bytes (b\<lparr>pager := q\<rparr>) = log_bytes b"
  by (simp_all add: log_bytes_def set_gpage_def set_frame_def ReleaseGuard_def Let_def)

lemma create_root_leaf_bytes:
  assumes "create_root_leaf k v tx bef0 b = (s, bef, b')"
  shows "log_bytes b' \<le> log_bytes (snd (NewPage b)) + 4189"
  using assms by (auto simp: create_root_leaf_def Let_def andthen_def split: if_splits prod.splits sum.splits dest!: LogPage_bytes)

lemma new_db_NewPage: "(\<exists>x. fst (NewPage (pool new_db)) = Inr x) \<and> log_bytes (snd (NewPage (pool new_db))) = 0"
  by (auto simp: new_db_def DbImpl_init_def NewPage_def AcquireFrameLocked_def upt_rec AllocatePage_def Meta_Init_def Write_def take_credit_def
      next_sys_def do_pwrite_def Let_def BufferPool_init_def kMinFrames_def install_def set_frame_def log_bytes_def)

lemma new_db_Put:
  assumes sz: "4 + length k + length v \<le> 4048"
  obtains b where "Put k v tx False (pool new_db) = Some (kOk, None, b)" and "stored b [(k, v)]" and "log_bytes b \<le> 4189"
    and "\<exists>rs. log_is b rs" and "roomy b" and "length (mreserved (meta (pager b))) = 4048"
proof -
  obtain s bef b where c: "create_root_leaf k v tx None (pool new_db) = (s, bef, b)" by (metis prod_cases3)
  have e: "pool_ok (pool new_db)" "IsEmpty (pool new_db)"
    using stored_inv [OF new_db_ok(1)] by (auto simp: IsEmpty_def new_db_def DbImpl_init_def BufferPool_init_def Let_def Meta_Init_def)
  note r = create_root_leaf_ok [OF e sz new_db_ok(2) c]
  have s: "s = kOk" using r(3) new_db_NewPage by (metis Inl_Inr_False)
  have p: "Put k v tx False (pool new_db) = Some (kOk, None, b)"
    using c s r(1) e(2) sz by (simp add: Put_def PutPessimistic_def kMaxLeafRecordBytes_def layout_defs)
  have n: "log_bytes b \<le> 4189" using create_root_leaf_bytes [OF c] new_db_NewPage by simp
  have ev: "evolves (pool new_db) b" by (rule Put_evo [OF p new_db_ok(1)])
  have "unat (num_pages (meta (pager b))) \<le> 4"
    using r(2) s by (auto simp: new_db_def DbImpl_init_def BufferPool_init_def Let_def Meta_Init_def)
  then have ro: "roomy b" by (simp add: roomy_def)
  have "entries (Lf r [(k, v)]) = [(k, v)]" for r by (simp add: entries_def)
  then have st: "stored b [(k, v)]" using r(2) s new_db_ok(1) unfolding stored_def by auto
  obtain rs where "log_is b ([] @ rs)" using written_durable [OF ev new_db_ok(3)] n by auto
  then show ?thesis using that [OF p st n _ ro] ev new_db_ok(4) by (auto simp: evolves_def)
qed

theorem Db_Put_is_durable_witness:
  "\<exists>s db'. Db_Put [107] [118] new_db = Some (s, db') \<and> \<not> needs_reopen db' \<and> stored (pool db') [([107], [118])] \<and>
     (s = kOk \<longrightarrow> (\<exists>rs'. durable (pool db') rs'))"
proof -
  have sz: "4 + length [107 :: 8 word] + length [118 :: 8 word] \<le> 4048" by simp
  have h: "\<not> needs_reopen new_db" "sync_on_write (options new_db)" by (simp_all add: new_db_def DbImpl_init_def Options_init_def)
  let ?tx = "next_id (txn_manager new_db)"
  obtain b where b: "Put [107] [118] ?tx False (pool new_db) = Some (kOk, None, b)" "stored b [([107], [118])]" "log_bytes b \<le> 4189"
    "length (mreserved (meta (pager b))) = 4048" using new_db_Put [OF sz, of ?tx] by metis
  have n: "\<forall>s bef b'. Put [107] [118] ?tx False (pool new_db) = Some (s, bef, b') \<longrightarrow> log_bytes b' + 31 < 2 ^ 64" using b(1,3) by simp
  obtain s db' where d: "Db_Put [107] [118] new_db = Some (s, db')"
    "needs_reopen db' \<and> io_error s \<or> \<not> needs_reopen db' \<and> stored (pool db') (upsert [107] [118] []) \<and>
       (s = kOk \<longrightarrow> (\<exists>rs'. durable (pool db') ([] @ rs')))"
    using Db_Put_is_durable [OF new_db_ok(1-4) h(1) n] h(2) by auto
  moreover have "\<not> needs_reopen db'"
  proof -
    let ?db = "new_db\<lparr>txn_manager := snd (Txn_Begin (txn_manager new_db)), pool := b\<rparr>"
    have "acknowledge ?db = (s, db')" using d(1) b(1) h(1) by (simp add: Db_Put_def Txn_Begin_def Let_def)
    then show ?thesis using h(1) acknowledge_ok(2) [of ?db "[([107], [118])]" s db'] b(2,4) by simp
  qed
  ultimately show ?thesis by auto
qed

theorem Db_Delete_is_durable_witness:
  "\<exists>s db'. Db_Delete [107] new_db = Some (s, db') \<and> s = kNotFound \<and> \<not> needs_reopen db' \<and> stored (pool db') []"
proof -
  have h: "\<not> needs_reopen new_db" "IsEmpty (pool new_db)"
    by (simp_all add: new_db_def DbImpl_init_def IsEmpty_def BufferPool_init_def Let_def Meta_Init_def)
  have d: "Delete [107] tx False (pool new_db) = Some (kNotFound, None, pool new_db)" for tx using h(2) by (simp add: Delete_def leaf_guard_def)
  have "log_bytes (pool new_db) = 0" by (simp add: new_db_def DbImpl_init_def BufferPool_init_def Let_def log_bytes_def)
  then have n: "\<forall>s bef b. Delete [107] (next_id (txn_manager new_db)) False (pool new_db) = Some (s, bef, b) \<longrightarrow> log_bytes b + 31 < 2 ^ 64" using d by auto
  have k: "length [107 :: 8 word] < 65000" by simp
  have "Db_Delete [107] new_db = Some (kNotFound, new_db\<lparr>txn_manager := snd (Txn_Begin (txn_manager new_db))\<rparr>)"
    using h(1) d by (simp add: Db_Delete_def Txn_Begin_def Let_def)
  then show ?thesis using Db_Delete_is_durable [OF new_db_ok(1,3) k new_db_ok(4) h(1) n] by (auto simp: io_error_def)
qed

definition one_db :: DbImpl where
  "one_db = new_db\<lparr>pool := snd (snd (the (Put [107] [118] 1 False (pool new_db))))\<rparr>"

lemma one_db_ok: "stored (pool one_db) [([107], [118])]" "roomy (pool one_db)" "\<exists>rs. log_is (pool one_db) rs"
  "length (mreserved (meta (pager (pool one_db)))) = 4048"
proof -
  have sz: "4 + length [107 :: 8 word] + length [118 :: 8 word] \<le> 4048" by simp
  obtain b where b: "Put [107] [118] 1 False (pool new_db) = Some (kOk, None, b)" "stored b [([107], [118])]" "\<exists>rs. log_is b rs" "roomy b"
    "length (mreserved (meta (pager b))) = 4048" using new_db_Put [OF sz, of 1] by metis
  then show "stored (pool one_db) [([107], [118])]" "roomy (pool one_db)" "\<exists>rs. log_is (pool one_db) rs"
    "length (mreserved (meta (pager (pool one_db)))) = 4048" by (simp_all add: one_db_def)
qed

theorem Scan_visits_the_range_witness:
  "\<exists>s st' db'. Db_Scan [100] [120] (\<lambda>st k v. (True, st @ [(k, v)])) [] one_db = Some (s, st', db') \<and>
     (s = kOk \<and> st' = [([107], [118])] \<or> io_error s)"
  using Scan_visits_the_range [OF one_db_ok(1), of "[100]" "[120]" "\<lambda>st k v. (True, st @ [(k, v)])" "[]"] by fastforce

subsection \<open>Poisoned handles\<close>

abbreviation poisoned :: "DbImpl \<Rightarrow> DbImpl" where
  "poisoned db \<equiv> db\<lparr>needs_reopen := True\<rparr>"

lemma needs_reopen_unread:
  "Acquire to t k m (poisoned db) = map_option (\<lambda>(s, db). (s, poisoned db)) (Acquire to t k m db)"
  "EnsureBegun t (poisoned db) = (case EnsureBegun t db of (s, t, db) \<Rightarrow> (s, t, poisoned db))"
  "Poison t (poisoned db) = (case Poison t db of (t, db) \<Rightarrow> (t, poisoned db))"
  by (auto simp: Acquire_def EnsureBegun_def LogTxnMarker_def Poison_def split: Attempt.splits prod.splits)

text \<open>
  C35: what poisoning stops. After a write failed half-applied, autocommit writes, new transactions and checkpoints (the
  destructor's included) are refused and leave the handle as it is. The writes of a transaction that is already open
  are not: they behave exactly as on a healthy handle.
\<close>

theorem poison_stops_all_but_open_transactions:
  "Db_Put k v (poisoned db) = Some (kInternal, poisoned db) \<and> Db_Delete k (poisoned db) = Some (kInternal, poisoned db) \<and>
   Db_Begin r (poisoned db) = (Inl kInternal, poisoned db) \<and> Checkpoint (poisoned db) = (kInternal, poisoned db) \<and>
   DbImpl_destroy (poisoned db) = poisoned db \<and>
   Txn_Put to k v t (poisoned db) = map_option (\<lambda>(s, t, db). (s, t, poisoned db)) (Txn_Put to k v t db) \<and>
   Txn_Delete to k t (poisoned db) = map_option (\<lambda>(s, t, db). (s, t, poisoned db)) (Txn_Delete to k t db)"
proof (intro conjI)
  show "Txn_Put to k v t (poisoned db) = map_option (\<lambda>(s, t, db). (s, t, poisoned db)) (Txn_Put to k v t db)"
    by (cases "Acquire to t k kExclusive db")
      (auto simp: Txn_Put_def needs_reopen_unread option.map_comp comp_def Let_def Poison_def split: prod.splits intro!: option.map_cong0)
  show "Txn_Delete to k t (poisoned db) = map_option (\<lambda>(s, t, db). (s, t, poisoned db)) (Txn_Delete to k t db)"
    by (cases "Acquire to t k kExclusive db")
      (auto simp: Txn_Delete_def needs_reopen_unread option.map_comp comp_def Let_def Poison_def split: prod.splits intro!: option.map_cong0)
qed (simp_all add: Db_Put_def Db_Delete_def Db_Begin_def Checkpoint_def CheckpointLocked_def DbImpl_destroy_def)

end
