(* ===== verification/Recovery.thy ===== *)
theory Recovery
  imports Db_Store
begin

section \<open>Recovery and opening (db.cc)\<close>

text \<open>
  \<^verbatim>\<open>Recover\<close>: the choice of the log records to apply, redo guarded by the page LSN, the rollback of transactions that were
  in flight, the recount of the keys. \<^verbatim>\<open>DB::Open\<close>: locking, opening the data file and the log, recovery, with the destructor of
  the handle on the paths that leave with an error.
\<close>

subsection \<open>Which records to apply\<close>

fun mark_groups :: "Lsn \<Rightarrow> (nat \<times> LogRecord) list \<Rightarrow> (TxId \<Rightarrow> nat list) \<Rightarrow> bool list \<Rightarrow> bool list" where
  "mark_groups checkpoint [] open_group ap = ap"
| "mark_groups checkpoint ((i, r) # rs) open_group ap =
     (if lsn r < checkpoint then mark_groups checkpoint rs open_group ap
      else
        let grp = open_group (txid r) @ [i] in
        if op_end r then mark_groups checkpoint rs (open_group(txid r := [])) (fold (\<lambda>j ap. ap[j := True]) grp ap)
        else mark_groups checkpoint rs (open_group(txid r := grp)) ap)"

definition applicable :: "Lsn \<Rightarrow> LogRecord list \<Rightarrow> bool list" where
  "applicable checkpoint rs =
     mark_groups checkpoint (enumerate 0 rs) (\<lambda>_. []) (replicate (length rs) False)"

text \<open>The two bits kept per transaction: has begun, has ended.\<close>

definition txn_flags :: "Lsn \<Rightarrow> LogRecord list \<Rightarrow> TxId \<Rightarrow> bool \<times> bool" where
  "txn_flags checkpoint rs =
     fold (\<lambda>r flags.
        if lsn r < checkpoint then flags
        else if rtype r = kBegin then flags(txid r := (True, snd (flags (txid r))))
        else if rtype r = kCommit \<or> rtype r = kAbort then flags(txid r := (fst (flags (txid r)), True))
        else flags) rs (\<lambda>_. (False, False))"

definition is_loser :: "Lsn \<Rightarrow> LogRecord list \<Rightarrow> TxId \<Rightarrow> bool" where
  "is_loser checkpoint rs tx = (case txn_flags checkpoint rs tx of (began, ended) \<Rightarrow> began \<and> \<not> ended)"

subsection \<open>Redo\<close>

partial_function (option) ensure_page_exists :: "PageId \<Rightarrow> BufferPool \<Rightarrow> (Status \<times> BufferPool) option" where
  "ensure_page_exists pid b =
     (if num_pages (meta (pager b)) \<le> pid then
        let n = num_pages (meta (pager b)) in
        case AllocatePage (pager b) (io b) of (r, p, i) \<Rightarrow>
          let b = b\<lparr>pager := p, io := i\<rparr> in
          case r of
            Inl s \<Rightarrow> Some (s, b)
          | Inr _ \<Rightarrow> if num_pages (meta (pager b)) = n then Some (kCorruption, b) else ensure_page_exists pid b
      else Some (kOk, b))"

definition with_lsn :: "Page \<Rightarrow> Lsn \<Rightarrow> Page" where
  "with_lsn p l = p\<lparr>hdr := (hdr p)\<lparr>page_lsn := l\<rparr>\<rparr>"

text \<open>The page after the redo of a put; on failure it may have been changed already.\<close>

definition RedoPut :: "LogRecord \<Rightarrow> Page \<Rightarrow> Status \<times> Page" where
  "RedoPut r p =
     (case FindKeyIndex p (rkey r) of (index, found) \<Rightarrow>
        if found then
          case UpdateLeaf p (rkey r) (rvalue r) of (upd, p) \<Rightarrow>
            if upd then (kOk, with_lsn p (lsn r))
            else case DeleteAt p index of (del, p) \<Rightarrow>
              if \<not> del then (kCorruption, p)
              else case InsertLeaf p (rkey r) (rvalue r) of (ins, p) \<Rightarrow>
                if \<not> ins then (kCorruption, p) else (kOk, with_lsn p (lsn r))
        else case InsertLeaf p (rkey r) (rvalue r) of (ins, p) \<Rightarrow>
          if \<not> ins then (kCorruption, p) else (kOk, with_lsn p (lsn r)))"

definition RedoDelete :: "LogRecord \<Rightarrow> Page \<Rightarrow> Status \<times> Page" where
  "RedoDelete r p =
     (case FindKeyIndex p (rkey r) of (index, found) \<Rightarrow>
        case (if found then DeleteAt p index else (True, p)) of (done, p) \<Rightarrow>
          if \<not> done then (kCorruption, p) else (kOk, with_lsn p (lsn r)))"

text \<open>The body shared by the records that change one page: compare the LSNs, change, mark dirty, drop the guard.\<close>

definition redo_at :: "FrameId \<Rightarrow> LogRecord \<Rightarrow> (Page \<Rightarrow> Status \<times> Page) \<Rightarrow> BufferPool \<Rightarrow> Status \<times> bool \<times> BufferPool" where
  "redo_at g r f b =
     (if page_lsn (hdr (gpage b g)) < lsn r then
        case f (gpage b g) of (s, p) \<Rightarrow>
          let b = set_gpage b g p in
          if s \<noteq> kOk then (s, False, ReleaseGuard b g) else (kOk, True, ReleaseGuard (MarkDirty b g) g)
      else (kOk, False, ReleaseGuard b g))"

definition redo_page :: "LogRecord \<Rightarrow> (Page \<Rightarrow> Status \<times> Page) \<Rightarrow> BufferPool \<Rightarrow> Status \<times> bool \<times> BufferPool" where
  "redo_page r f b =
     (case FetchPageInternal b (rpage r) of
        (Inl s, b) \<Rightarrow> (s, False, b)
      | (Inr g, b) \<Rightarrow> redo_at g r f b)"

text \<open>A page image replaces the page; a page whose checksum is wrong on disk is overwritten there.\<close>

definition redo_image :: "LogRecord \<Rightarrow> BufferPool \<Rightarrow> Status \<times> bool \<times> BufferPool" where
  "redo_image r b =
     (case FetchPageInternal b (rpage r) of
        (Inl s, b) \<Rightarrow>
          if s \<noteq> kCorruption then (s, False, b)
          else (case WritePage (pager b) (rpage r) (page_of_bytes (rvalue r)) (io b) of (s, _, p, i) \<Rightarrow>
            (s, s = kOk, b\<lparr>pager := p, io := i\<rparr>))
      | (Inr g, b) \<Rightarrow> redo_at g r (\<lambda>_. (kOk, page_of_bytes (rvalue r))) b)"

text \<open>The second component says whether the page contents or the root changed (\<^verbatim>\<open>applied_any\<close>).\<close>

definition ApplyRecord :: "LogRecord \<Rightarrow> BufferPool \<Rightarrow> (Status \<times> bool \<times> BufferPool) option" where
  "ApplyRecord r b =
     (case rtype r of
        kAllocPage \<Rightarrow> map_option (\<lambda>(s, b). (s, False, b)) (ensure_page_exists (rpage r) b)
      | kPageImage \<Rightarrow>
          if length (rvalue r) \<noteq> kPageSize then Some (kCorruption, False, b)
          else map_option (\<lambda>(s, b). if s \<noteq> kOk then (s, False, b) else redo_image r b) (ensure_page_exists (rpage r) b)
      | kPut \<Rightarrow> Some (redo_page r (RedoPut r) b)
      | kDelete \<Rightarrow> Some (redo_page r (RedoDelete r) b)
      | kRootChange \<Rightarrow> Some (kOk, True, b\<lparr>pager := SetRootPageId (pager b) (rpage r)\<rparr>)
      | kFreePage \<Rightarrow> Some (kOk, False, b)
      | kCheckpoint \<Rightarrow> Some (kOk, False, b)
      | kBegin \<Rightarrow> Some (kOk, False, b)
      | kCommit \<Rightarrow> Some (kOk, False, b)
      | kAbort \<Rightarrow> Some (kOk, False, b))"

fun redo_loop :: "(LogRecord \<times> bool) list \<Rightarrow> bool \<Rightarrow> BufferPool \<Rightarrow> (Status \<times> bool \<times> BufferPool) option" where
  "redo_loop [] any b = Some (kOk, any, b)"
| "redo_loop ((r, ap) # rs) any b =
     (if \<not> ap then redo_loop rs any b
      else Option.bind (ApplyRecord r b) (\<lambda>(s, applied, b).
        if s \<noteq> kOk then Some (s, any \<or> applied, b) else redo_loop rs (any \<or> applied) b))"

subsection \<open>Undo\<close>

text \<open>The rollback of one record of a loser, or nothing.\<close>

definition undo_record :: "TxId \<Rightarrow> LogRecord \<Rightarrow> BufferPool \<Rightarrow> (Status \<times> bool \<times> BufferPool) option" where
  "undo_record tx r b =
     (if rtype r = kPut then
        map_option (\<lambda>(s, _, b). if s \<noteq> kOk \<and> s \<noteq> kNotFound then (s, False, b) else (kOk, True, b))
          (case before r of Some v \<Rightarrow> Put (rkey r) v tx False b | None \<Rightarrow> Delete (rkey r) tx False b)
      else case (rtype r, before r) of
        (kDelete, Some v) \<Rightarrow>
          map_option (\<lambda>(s, _, b). if s \<noteq> kOk then (s, False, b) else (kOk, True, b)) (Put (rkey r) v tx False b)
      | _ \<Rightarrow> Some (kOk, False, b))"

text \<open>Over the records newest first.\<close>

fun rollback_loop :: "Lsn \<Rightarrow> (TxId \<Rightarrow> bool) \<Rightarrow> TxId \<Rightarrow> (LogRecord \<times> bool) list \<Rightarrow> bool \<Rightarrow> BufferPool \<Rightarrow> (Status \<times> bool \<times> BufferPool) option" where
  "rollback_loop ck loser tx [] any b = Some (kOk, any, b)"
| "rollback_loop ck loser tx ((r, ap) # rs) any b =
     (if \<not> ap then rollback_loop ck loser tx rs any b
      else if lsn r < ck \<or> \<not> loser (txid r) then rollback_loop ck loser tx rs any b
      else Option.bind (undo_record tx r b) (\<lambda>(s, applied, b).
        if s \<noteq> kOk then Some (s, any \<or> applied, b) else rollback_loop ck loser tx rs (any \<or> applied) b))"

partial_function (option) count_loop :: "Cursor \<Rightarrow> u64 \<Rightarrow> BufferPool \<Rightarrow> (Cursor \<times> u64 \<times> BufferPool) option" where
  "count_loop c n b =
     (if \<not> cvalid c then Some (c, n, b)
      else Option.bind (Next c b) (\<lambda>(c, b). count_loop c (n + 1) b))"

definition recount :: "BufferPool \<Rightarrow> (Status \<times> BufferPool) option" where
  "recount b =
     Option.bind (SeekToFirst b) (\<lambda>(c, b). map_option (\<lambda>(c, n, b).
       if cstatus c \<noteq> kOk then (cstatus c, b) else (kOk, b\<lparr>pager := SetNumKeys (pager b) n\<rparr>)) (count_loop c 0 b))"

definition Recover :: "LogRecord list \<Rightarrow> DbImpl \<Rightarrow> (Status \<times> DbImpl) option" where
  "Recover rs db =
     (let ck = checkpoint_lsn (meta (pager (pool db))); ap = applicable ck rs in
      Option.bind (redo_loop (zip rs ap) False (pool db)) (\<lambda>(s, any, b).
        if s \<noteq> kOk then Some (s, db\<lparr>pool := b\<rparr>)
        else case Txn_Begin (txn_manager db) of (undo_txid, tm) \<Rightarrow>
          let db = db\<lparr>txn_manager := tm\<rparr> in
          Option.bind (rollback_loop ck (is_loser ck rs) undo_txid (rev (zip rs ap)) any b) (\<lambda>(s, any, b).
            if s \<noteq> kOk then Some (s, db\<lparr>pool := b\<rparr>)
            else if any then map_option (\<lambda>(s, b). (s, db\<lparr>pool := b\<rparr>)) (recount b)
            else Some (kOk, db\<lparr>pool := b\<rparr>))))"

subsection \<open>Opening\<close>

text \<open>\<open>env\<close> is the number in the environment variable, when it is set and not empty.\<close>

definition ResolvePoolFrames :: "Options \<Rightarrow> int option \<Rightarrow> nat" where
  "ResolvePoolFrames opts env =
     (let kMinTreeFrames = 16;
          n = (if buffer_pool_frames opts \<noteq> 0 then buffer_pool_frames opts
               else case env of None \<Rightarrow> 64 | Some parsed \<Rightarrow> if 0 < parsed then nat parsed else 64)
      in if n < kMinTreeFrames then kMinTreeFrames else n)"

text \<open>What the path names, and the files of a database directory.\<close>

record Disk =
  lock_on_disk :: "PosixFile option"
  data_on_disk :: "PosixFile option"
  wal_on_disk :: "PosixFile option"

datatype PathState = Missing | NotADirectory | Directory Disk

text \<open>The files a handle leaves behind.\<close>

definition disk_of :: "DbImpl \<Rightarrow> Disk" where
  "disk_of db = \<lparr>lock_on_disk = Some (File_Close (lock_file db)), data_on_disk = Some (File_Close (pfile (pager (pool db)))),
     wal_on_disk = map_option (\<lambda>w. File_Close (wfile w)) (wal (pool db))\<rparr>"

definition ensure_directory :: "bool \<Rightarrow> PathState \<Rightarrow> Io \<Rightarrow> Disk Result \<times> Io" where
  "ensure_directory create st i =
     (case st of
        Directory d \<Rightarrow> (Inr d, i)
      | NotADirectory \<Rightarrow> (Inl kInvalidArgument, i)
      | Missing \<Rightarrow>
          if \<not> create then (Inl kNotFound, i)
          else case next_sys i of (o1, i) \<Rightarrow>
            if o1 = Errno then (Inl kIoError, i)
            else (Inr \<lparr>lock_on_disk = None, data_on_disk = None, wal_on_disk = None\<rparr>, i))"

definition lock_directory :: "bool \<Rightarrow> Disk \<Rightarrow> Io \<Rightarrow> PosixFile Result \<times> Disk \<times> Io" where
  "lock_directory held_elsewhere d i =
     (case File_Open True (lock_on_disk d) i of
        (Inl _, i) \<Rightarrow> (Inl kIoError, d, i)
      | (Inr f, i) \<Rightarrow>
          let d = d\<lparr>lock_on_disk := Some f\<rparr> in
          (case TryLockExclusive f held_elsewhere i of
             (Inl Busy, i) \<Rightarrow> (Inl kBusy, d, i)
           | (Inl _, i) \<Rightarrow> (Inl kIoError, d, i)
           | (Inr _, i) \<Rightarrow> (Inr f, d, i)))"

text \<open>
  From the locked directory to the handle before recovery: the data file, the records of the old log, the writer. The last
  component of the result is the directory's files at that point.
\<close>

definition open_files ::
  "string \<Rightarrow> Options \<Rightarrow> int option \<Rightarrow> PosixFile \<Rightarrow> Disk \<Rightarrow> Io \<Rightarrow> (LogRecord list \<times> bool \<times> DbImpl) Result \<times> Disk \<times> Io" where
  "open_files p opts env lock d i =
     (case Pager_Open (create_if_missing opts) (opt_verify_checksums opts) (data_on_disk d) i of
        (Inl s, data, i) \<Rightarrow> (Inl s, d\<lparr>data_on_disk := data\<rparr>, i)
      | (Inr pgr, data, i) \<Rightarrow>
          let d = d\<lparr>data_on_disk := data\<rparr> in
          (case ReadAll (wal_on_disk d) i of
             (Inl s, i) \<Rightarrow> (Inl s, d, i)
           | (Inr rs, i) \<Rightarrow>
               let wal_has_bytes = (case wal_on_disk d of None \<Rightarrow> False | Some f \<Rightarrow> content f \<noteq> []);
                   base = (if rs \<noteq> [] then lsn (hd rs)
                           else if checkpoint_lsn (meta pgr) = kInvalidLsn then kFirstLsn else checkpoint_lsn (meta pgr))
               in case LogWriter_Open (wal_on_disk d) base i of
                    (Inl s, log, i) \<Rightarrow> (Inl s, d\<lparr>wal_on_disk := log\<rparr>, i)
                  | (Inr w, log, i) \<Rightarrow>
                      (Inr (rs, wal_has_bytes, DbImpl_init p opts lock pgr w i (ResolvePoolFrames opts env)), d\<lparr>wal_on_disk := log\<rparr>, i)))"

text \<open>Recovery of a fresh handle. When it fails, the handle is destroyed on the way out.\<close>

definition recover_handle :: "LogRecord list \<Rightarrow> DbImpl \<Rightarrow> (Status \<times> DbImpl) option" where
  "recover_handle rs db =
     map_option (\<lambda>(s, db).
       if s \<noteq> kOk then (s, DbImpl_destroy db)
       else case Checkpoint db of (s, db) \<Rightarrow> if s \<noteq> kOk then (s, DbImpl_destroy db) else (kOk, db)) (Recover rs db)"

definition DB_Open ::
  "string \<Rightarrow> Options \<Rightarrow> int option \<Rightarrow> bool \<Rightarrow> PathState \<Rightarrow> Io \<Rightarrow> (DbImpl Result \<times> Disk option \<times> Io) option" where
  "DB_Open p opts env held_elsewhere st i =
     (case ensure_directory (create_if_missing opts) st i of
        (Inl s, i) \<Rightarrow> Some (Inl s, None, i)
      | (Inr d, i) \<Rightarrow>
          (case lock_directory held_elsewhere d i of
             (Inl s, d, i) \<Rightarrow> Some (Inl s, Some d, i)
           | (Inr lock, d, i) \<Rightarrow>
               (case open_files p opts env lock d i of
                  (Inl s, d, i) \<Rightarrow> Some (Inl s, Some d, i)
                | (Inr (rs, wal_has_bytes, db), d, i) \<Rightarrow>
                    if wal_has_bytes then
                      map_option (\<lambda>(s, db).
                        (if s \<noteq> kOk then Inl s else Inr db, Some (disk_of db), io (pool db))) (recover_handle rs db)
                    else Some (Inr db, Some d, i))))"

subsection \<open>Operation groups\<close>

text \<open>Record \<open>j\<close> belongs to an operation whose end is among the first \<open>n\<close> records.\<close>

definition completed :: "Lsn \<Rightarrow> LogRecord list \<Rightarrow> nat \<Rightarrow> nat \<Rightarrow> bool" where
  "completed ck rs n j \<longleftrightarrow> ck \<le> lsn (rs ! j) \<and>
     (\<exists>i \<in> {j ..< n}. ck \<le> lsn (rs ! i) \<and> txid (rs ! i) = txid (rs ! j) \<and> op_end (rs ! i))"

definition pending :: "Lsn \<Rightarrow> LogRecord list \<Rightarrow> nat \<Rightarrow> TxId \<Rightarrow> nat list" where
  "pending ck rs n tx = filter (\<lambda>j. ck \<le> lsn (rs ! j) \<and> txid (rs ! j) = tx \<and> \<not> completed ck rs n j) [0 ..< n]"

definition marked :: "Lsn \<Rightarrow> LogRecord list \<Rightarrow> nat \<Rightarrow> bool list" where
  "marked ck rs n = map (completed ck rs n) [0 ..< length rs]"

lemma completed_Suc: "completed ck rs (Suc n) j \<longleftrightarrow> completed ck rs n j \<or>
    j \<le> n \<and> ck \<le> lsn (rs ! j) \<and> ck \<le> lsn (rs ! n) \<and> txid (rs ! n) = txid (rs ! j) \<and> op_end (rs ! n)"
  by (auto simp: completed_def less_Suc_eq)

lemma pending_Suc:
  "pending ck rs (Suc n) tx =
     (if ck \<le> lsn (rs ! n) \<and> txid (rs ! n) = tx then if op_end (rs ! n) then [] else pending ck rs n tx @ [n] else pending ck rs n tx)"
proof -
  have "\<not> completed ck rs n n" by (simp add: completed_def)
  then show ?thesis by (auto simp: pending_def completed_Suc filter_empty_conv intro!: filter_cong)
qed

lemma fold_mark: "(\<forall>j \<in> set js. j < length ap) \<Longrightarrow> fold (\<lambda>j ap. ap[j := True]) js ap = map (\<lambda>j. ap ! j \<or> j \<in> set js) [0 ..< length ap]"
proof (induction js arbitrary: ap)
  case Nil
  then show ?case by (simp add: map_nth)
next
  case (Cons j js)
  then have "fold (\<lambda>j ap. ap[j := True]) (j # js) ap = map (\<lambda>i. ap[j := True] ! i \<or> i \<in> set js) [0 ..< length ap]" by simp
  then show ?case using Cons.prems by (auto simp: nth_list_update)
qed

lemma marked_Suc:
  assumes "n < length rs" and "ck \<le> lsn (rs ! n)" and "op_end (rs ! n)"
  shows "fold (\<lambda>j ap. ap[j := True]) (pending ck rs n (txid (rs ! n)) @ [n]) (marked ck rs n) = marked ck rs (Suc n)"
proof -
  have "\<forall>j \<in> set (pending ck rs n (txid (rs ! n)) @ [n]). j < length (marked ck rs n)"
    using assms(1) by (auto simp: pending_def marked_def)
  then show ?thesis using assms by (subst fold_mark) (auto simp: marked_def completed_Suc pending_def)
qed

lemma marked_skip: "\<not> (ck \<le> lsn (rs ! n) \<and> op_end (rs ! n)) \<Longrightarrow> marked ck rs (Suc n) = marked ck rs n"
  by (auto simp: marked_def completed_Suc)

lemma mark_groups_marked:
  assumes "n \<le> length rs"
  shows "mark_groups ck (enumerate n (drop n rs)) (pending ck rs n) (marked ck rs n) = marked ck rs (length rs)"
  using assms
proof (induction "length rs - n" arbitrary: n)
  case 0
  then show ?case by simp
next
  case (Suc m)
  then have n: "n < length rs" by simp
  have IH: "mark_groups ck (enumerate (Suc n) (drop (Suc n) rs)) (pending ck rs (Suc n)) (marked ck rs (Suc n)) = marked ck rs (length rs)"
    by (rule Suc.hyps(1)) (use Suc.hyps(2) n in simp_all)
  have d: "enumerate n (drop n rs) = (n, rs ! n) # enumerate (Suc n) (drop (Suc n) rs)"
    using n by (simp add: Cons_nth_drop_Suc [symmetric])
  consider "lsn (rs ! n) < ck" | "ck \<le> lsn (rs ! n)" "op_end (rs ! n)" | "ck \<le> lsn (rs ! n)" "\<not> op_end (rs ! n)" by fastforce
  then show ?case
  proof cases
    case 1
    then have "pending ck rs (Suc n) = pending ck rs n" by (auto simp: pending_Suc fun_eq_iff)
    moreover have "marked ck rs (Suc n) = marked ck rs n" using 1 by (intro marked_skip) (simp add: not_le)
    ultimately show ?thesis using IH 1 by (simp add: d)
  next
    case 2
    then have "pending ck rs (Suc n) = (pending ck rs n)(txid (rs ! n) := [])" by (auto simp: pending_Suc fun_eq_iff)
    then show ?thesis using IH 2 leD [OF 2(1)] marked_Suc [OF n 2] by (simp add: d Let_def)
  next
    case 3
    then have "pending ck rs (Suc n) = (pending ck rs n)(txid (rs ! n) := pending ck rs n (txid (rs ! n)) @ [n])"
      by (auto simp: pending_Suc fun_eq_iff)
    then show ?thesis using IH 3 leD [OF 3(1)] marked_skip [of ck rs n] by (simp add: d Let_def)
  qed
qed

lemma applicable_marked: "applicable ck rs = marked ck rs (length rs)"
proof -
  have "completed ck rs 0 = (\<lambda>_. False)" by (simp add: completed_def fun_eq_iff)
  then have "pending ck rs 0 = (\<lambda>_. [])" "marked ck rs 0 = replicate (length rs) False"
    by (simp_all add: pending_def [abs_def] marked_def map_replicate_const)
  then show ?thesis using mark_groups_marked [of 0 rs ck] by (simp add: applicable_def)
qed

lemma txn_flags_eq:
  "txn_flags ck rs tx = (\<exists>r \<in> set rs. ck \<le> lsn r \<and> txid r = tx \<and> rtype r = kBegin,
     \<exists>r \<in> set rs. ck \<le> lsn r \<and> txid r = tx \<and> (rtype r = kCommit \<or> rtype r = kAbort))"
proof (induction rs rule: rev_induct)
  case (snoc r rs)
  then show ?case by (auto simp: txn_flags_def)
qed (simp add: txn_flags_def)

text \<open>
  C7: the log analysis of recovery. The grouping loop over the interleaved log marks exactly the records past the checkpoint
  whose operation completed, i.e. that are followed (or ended) by a record of the same transaction that carries the
  end-of-operation bit; a transaction is rolled back exactly when its begin marker is past the checkpoint and neither a commit nor an
  abort marker is.
\<close>

theorem recovery_applies_complete_operations:
  "applicable ck rs = map (\<lambda>j. ck \<le> lsn (rs ! j) \<and>
       (\<exists>i \<in> {j ..< length rs}. ck \<le> lsn (rs ! i) \<and> txid (rs ! i) = txid (rs ! j) \<and> op_end (rs ! i))) [0 ..< length rs] \<and>
   (is_loser ck rs tx \<longleftrightarrow> (\<exists>r \<in> set rs. ck \<le> lsn r \<and> txid r = tx \<and> rtype r = kBegin) \<and>
       (\<nexists>r. r \<in> set rs \<and> ck \<le> lsn r \<and> txid r = tx \<and> (rtype r = kCommit \<or> rtype r = kAbort)))"
proof
  show "applicable ck rs = map (\<lambda>j. ck \<le> lsn (rs ! j) \<and>
       (\<exists>i \<in> {j ..< length rs}. ck \<le> lsn (rs ! i) \<and> txid (rs ! i) = txid (rs ! j) \<and> op_end (rs ! i))) [0 ..< length rs]"
    unfolding applicable_marked by (simp add: marked_def completed_def [abs_def])
  show "is_loser ck rs tx \<longleftrightarrow> (\<exists>r \<in> set rs. ck \<le> lsn r \<and> txid r = tx \<and> rtype r = kBegin) \<and>
       (\<nexists>r. r \<in> set rs \<and> ck \<le> lsn r \<and> txid r = tx \<and> (rtype r = kCommit \<or> rtype r = kAbort))"
    unfolding is_loser_def txn_flags_eq by auto
qed

subsection \<open>A failed recovery\<close>

abbreviation log_emptied :: "BufferPool \<Rightarrow> bool" where
  "log_emptied b \<equiv> \<forall>w. wal b = Some w \<longrightarrow> content (wfile w) = [] \<and> buffer w = [] \<and> base_lsn w = checkpoint_lsn (meta (pager b))"

lemma wal_truncate_empties:
  assumes "wal_truncate l b = (kOk, b')" and "wal b' = Some w"
  shows "content (wfile w) = [] \<and> buffer w = [] \<and> base_lsn w = l" and "pager b' = pager b"
  using assms by (auto simp: wal_truncate_def Wal_Truncate_def Truncate_def ftruncate_def Sync_def split: prod.splits sum.splits if_splits option.splits)

lemma pager_sync_checkpoint_lsn:
  "pager_sync b = (s, b') \<Longrightarrow> checkpoint_lsn (meta (pager b')) = checkpoint_lsn (meta (pager b))"
  by (auto simp: pager_sync_def Pager_Sync_def SyncData_def PersistMeta_def Let_def split: prod.splits sum.splits if_splits)

lemma checkpoint_log_empties:
  assumes "checkpoint_log b = (kOk, b')"
  shows "log_emptied b'"
proof -
  obtain b2 b3 where p: "pager_sync (b2\<lparr>pager := SetCheckpointLsn (pager b2) (wal_end b2)\<rparr>) = (kOk, b3)" "wal_truncate (wal_end b2) b3 = (kOk, b')"
    using assms by (auto simp: checkpoint_log_def andthen_def Let_def split: if_splits prod.splits)
  then show ?thesis using wal_truncate_empties [OF p(2)] pager_sync_checkpoint_lsn [OF p(1)] by (auto simp: SetCheckpointLsn_def)
qed

text \<open>The three places where \<^verbatim>\<open>Recover\<close> returns.\<close>

lemma Recover_cases:
  assumes "Recover rs db = Some (s, db')"
  obtains b tm where "db' = db\<lparr>pool := b\<rparr> \<or> db' = db\<lparr>txn_manager := tm, pool := b\<rparr>"
proof -
  let ?ck = "checkpoint_lsn (meta (pager (pool db)))" let ?l = "zip rs (applicable ?ck rs)"
  obtain tx tm where t: "Txn_Begin (txn_manager db) = (tx, tm)" by fastforce
  obtain s1 any1 b1 where r: "redo_loop ?l False (pool db) = Some (s1, any1, b1)"
    using assms by (auto simp: Recover_def Let_def Option.bind_eq_Some_conv simp del: redo_loop.simps)
  show thesis
  proof (cases "s1 = kOk")
    case False
    then show thesis using assms r that by (auto simp: Recover_def Let_def)
  next
    case True
    then obtain s2 any2 b2 where u: "rollback_loop ?ck (is_loser ?ck rs) tx (rev ?l) any1 b1 = Some (s2, any2, b2)"
      using assms r t by (auto simp: Recover_def Let_def Option.bind_eq_Some_conv)
    have "\<exists>b. db' = db\<lparr>txn_manager := tm, pool := b\<rparr>" using assms r t u True by (auto simp: Recover_def Let_def split: if_splits)
    then show thesis using that by blast
  qed
qed

lemma Recover_keeps_handle:
  assumes "Recover rs db = Some (s, db')"
  shows "needs_reopen db' = needs_reopen db \<and> active_begun_txns db' = active_begun_txns db"
  by (rule Recover_cases [OF assms]) (elim disjE, simp_all)

lemma Checkpoint_empties:
  assumes "Checkpoint db = (kOk, db')" and "active_begun_txns db \<le> 0"
  shows "log_emptied (pool db')"
proof -
  obtain b where "checkpoint_log b = (kOk, pool db')"
    using assms by (auto simp: Checkpoint_def CheckpointLocked_def Let_def split: if_splits prod.splits)
  then show ?thesis by (rule checkpoint_log_empties)
qed

text \<open>
  C36: a failed recovery destroys the log it failed to replay. When \<^verbatim>\<open>Recover\<close> returns an error, \<^verbatim>\<open>DB::Open\<close> returns that error and
  drops the handle; nothing has marked the handle as poisoned, so the destructor's checkpoint goes through, and whenever it
  succeeds the log file is empty and the checkpoint LSN of the meta page is moved past every record, whether it was replayed or not.
\<close>

theorem failed_recovery_truncates_log:
  assumes "Recover rs db = Some (s, db1)" and "s \<noteq> kOk" and "\<not> needs_reopen db" and "active_begun_txns db = 0"
    and "Checkpoint db1 = (kOk, db2)"
  shows "recover_handle rs db = Some (s, db2) \<and> log_emptied (pool db2) \<and> \<not> needs_reopen db2"
proof -
  have "active_begun_txns db1 \<le> 0" "\<not> needs_reopen db1" using Recover_keeps_handle [OF assms(1)] assms(3,4) by auto
  then show ?thesis using assms Checkpoint_empties [OF assms(5)] CheckpointLocked_flags
    by (auto simp: recover_handle_def DbImpl_destroy_def Checkpoint_def)
qed

text \<open>
  A database whose log file holds a page image of the wrong size, followed by a complete put of another transaction; the
  checksums of the log are right.
\<close>

definition bad_log :: "LogRecord list" where
  "bad_log = [LogRecord_init\<lparr>rtype := kPageImage, txid := 1, op_end := True, rpage := 2, rvalue := [0], lsn := 1\<rparr>,
              LogRecord_init\<lparr>rtype := kPut, txid := 2, op_end := True, rpage := 2, rkey := [107], rvalue := [118], lsn := 33\<rparr>]"

definition bad_db :: DbImpl where
  "bad_db = DbImpl_init ''db'' Options_init \<lparr>fd_open = True, content = [], synced = []\<rparr> pager3
     \<lparr>wfile = \<lparr>fd_open = True, content = ser bad_log, synced = ser bad_log\<rparr>, buffer = [], base_lsn = 1,
      end_lsn = 1 + of_nat (length (ser bad_log)), flushed_lsn = 1 + of_nat (length (ser bad_log)),
      file_bytes = length (ser bad_log), imaged = {}\<rparr> calm 16"

theorem failed_recovery_truncates_log_witness:
  "\<exists>db'. recover_handle bad_log bad_db = Some (kCorruption, db') \<and> log_emptied (pool db') \<and> ser bad_log \<noteq> []"
proof -
  have r: "Recover bad_log bad_db = Some (kCorruption, bad_db)"
    by (simp add: Recover_def bad_log_def applicable_def ApplyRecord_def LogRecord_init_def layout_defs bad_db_def DbImpl_init_def
        BufferPool_init_def Let_def Meta_Init_def kInvalidLsn_def kMinFrames_def)
  obtain s db' where c: "Checkpoint bad_db = (s, db')" by fastforce
  have "s = kOk"
    using c by (auto simp: bad_db_def DbImpl_init_def BufferPool_init_def Checkpoint_def CheckpointLocked_def checkpoint_pages_def checkpoint_log_def
        wal_flush_def wal_append_def wal_truncate_def pager_sync_data_def pager_sync_def Pager_Sync_def SyncData_def PersistMeta_def
        Wal_Truncate_def Truncate_def Flush_def FlushLocked_def FlushAll_def Write_def Sync_def next_sys_def take_credit_def do_pwrite_def
        Append_def BufferRecordLocked_def AppendTo_eq andthen_def Let_def SetCheckpointLsn_def rec_bytes_nonempty)
  moreover have "ser bad_log \<noteq> []" by (simp add: ser_def bad_log_def rec_bytes_nonempty)
  ultimately show ?thesis using failed_recovery_truncates_log [OF r _ _ _ c [unfolded \<open>s = kOk\<close>]] by (simp add: bad_db_def DbImpl_init_def)
qed

end
