(* ===== verification/Redo.thy ===== *)
theory Redo
  imports Recovery
begin

section \<open>Redo repeats history\<close>

text \<open>
  What the redo pass makes of the pages it finds after a crash. The effect of a log record on the shape of a page (the entries
  and link of a leaf, the routing table of an internal node) is a function; the versions of the pages at run time are its
  iterates. A crash leaves, for every page on its own, some version: the one before the first record, the last one, one in
  between, a torn write, or no page at all where the file had grown. The theorem says that the redo pass, which skips a
  record when the LSN stamped on the page is not older, brings every page to its last version.
\<close>

subsection \<open>Records as functions on pages\<close>

datatype shape = Blank | LeafPage "(key \<times> bytes) list" PageId | NodePage "(key \<times> PageId) list" PageId

fun shaped :: "Page \<Rightarrow> shape \<Rightarrow> bool" where
  "shaped pg Blank = True"
| "shaped pg (LeafPage es nx) = (leaf_rep pg es \<and> GetNextLeaf pg = nx)"
| "shaped pg (NodePage zs rm) = int_page pg zs rm"

text \<open>The shape of any page; one that is neither a leaf nor an internal node of the tree has none.\<close>

definition shape_of :: "Page \<Rightarrow> shape" where
  "shape_of pg = (if leaf_ok pg then LeafPage (leaf_entries pg) (GetNextLeaf pg)
     else if int_page pg (int_entries pg) (GetRightmostChild pg) then NodePage (int_entries pg) (GetRightmostChild pg) else Blank)"

lemma shaped_shape_of [simp]: "shaped pg (shape_of pg)"
  by (simp add: shape_of_def leaf_ok_def)

type_synonym page_state = "shape \<times> Lsn"

definition changes_page :: "LogRecord \<Rightarrow> bool" where
  "changes_page r \<longleftrightarrow> rtype r = kPut \<or> rtype r = kDelete \<or> rtype r = kPageImage"

fun on_leaf :: "((key \<times> bytes) list \<Rightarrow> (key \<times> bytes) list) \<Rightarrow> shape \<Rightarrow> shape" where
  "on_leaf f (LeafPage es nx) = LeafPage (f es) nx"
| "on_leaf f sh = sh"

definition after :: "LogRecord \<Rightarrow> shape \<Rightarrow> shape" where
  "after r sh =
     (if rtype r = kPut then on_leaf (upsert (rkey r) (rvalue r)) sh
      else if rtype r = kDelete then on_leaf (remove_key (rkey r)) sh
      else shape_of (page_of_bytes (rvalue r)))"

definition logged :: "LogRecord \<Rightarrow> (PageId \<Rightarrow> page_state) \<Rightarrow> PageId \<Rightarrow> page_state" where
  "logged r E = (if changes_page r then E(rpage r := (after r (fst (E (rpage r))), lsn r)) else E)"

abbreviation history :: "LogRecord list \<Rightarrow> (PageId \<Rightarrow> page_state) \<Rightarrow> PageId \<Rightarrow> page_state" where
  "history rs E \<equiv> fold logged rs E"

subsection \<open>One leaf\<close>

definition leaf_size :: "(key \<times> bytes) list \<Rightarrow> nat" where
  "leaf_size es = sum_list (map (\<lambda>(k, v). length k + length v + 12) es)"

lemma leaf_free_room:
  assumes "leaf_rep p es" shows "room p + leaf_size es = 4056"
proof -
  have "view_size (map (Some \<circ> enc_leaf) xs) + 8 * length xs = leaf_size xs" for xs :: "(key \<times> bytes) list"
    by (induction xs) (auto simp: view_size_def leaf_size_def)
  from this [of es] show ?thesis using room_view [of p] leaf_rep_entries(1) [OF assms] assms by (simp add: leaf_rep_def)
qed

lemma leaf_size_upsert:
  assumes "sorted_wrt (<) (map fst es)"
  shows "leaf_size (upsert k v es) + (case map_of es k of None \<Rightarrow> 0 | Some w \<Rightarrow> length k + length w + 12) = leaf_size es + length k + length v + 12"
  using assms
proof (induction es)
  case (Cons e es)
  obtain k' v' where e: "e = (k', v')" by fastforce
  have "k < k' \<Longrightarrow> k \<notin> fst ` set es" using Cons.prems e by (auto dest: less_asym less_trans)
  then have "k < k' \<Longrightarrow> map_of es k = None" by (simp add: map_of_eq_None_iff)
  then show ?case using Cons e by (auto simp: leaf_size_def split: option.splits)
qed (simp add: leaf_size_def)

lemma leaf_size_upsert_ge: "length k + length v + 12 \<le> leaf_size (upsert k v es)"
  by (induction es) (auto simp: leaf_size_def)

text \<open>The redo of a put succeeds exactly when the entries fit a page afterwards.\<close>

lemma RedoPut_ok:
  assumes rep: "leaf_rep p es" and m: "mem_ok p" and fit: "leaf_size (upsert (rkey r) (rvalue r) es) \<le> 4056"
  shows "\<exists>q. RedoPut r p = (kOk, with_lsn q (lsn r)) \<and> leaf_rep q (upsert (rkey r) (rvalue r) es) \<and> mem_ok q \<and> GetNextLeaf q = GetNextLeaf p"
proof -
  let ?k = "rkey r" let ?v = "rvalue r"
  have so: "sorted_wrt (<) (map fst es)" using rep by (simp add: leaf_rep_def)
  have sz: "length ?k + length ?v < 65000" "length ?k + length ?v < 65532" using leaf_size_upsert_ge [of ?k ?v es] fit by linarith+
  note size = leaf_size_upsert [OF so, of ?k ?v] and rm = leaf_free_room [OF rep]
  have fk: "FindKeyIndex p ?k = (lb (map fst es) ?k, ?k \<in> fst ` set es)" by (rule leaf_FindKeyIndex [OF rep])
  show ?thesis
  proof (cases "map_of es ?k")
    case None
    then have nk: "?k \<notin> fst ` set es" by (simp add: map_of_eq_None_iff)
    obtain ins q where i: "InsertLeaf p ?k ?v = (ins, q)" by fastforce
    note I = InsertLeaf_ok [OF rep i]
    have "ins" using I(1) nk None size fit rm by simp
    moreover have "leaf_rep q (ins_at es ?k ?v)" using I(2) \<open>ins\<close> by simp
    moreover have "ins_at es ?k ?v = upsert ?k ?v es"
      by (rule sorted_list_unique [OF _ upsert_sorted [OF so]]) (use ins_at_props [OF so nk] upsert_map in auto)
    moreover have "mem_ok q" using InsertLeaf_mem [OF _ m sz(1) i] rep by (simp add: leaf_rep_def)
    moreover have "GetNextLeaf q = GetNextLeaf p" by (rule same_next [OF I(3)])
    ultimately show ?thesis using fk nk i by (auto simp: RedoPut_def)
  next
    case (Some w)
    then have k: "?k \<in> fst ` set es" by (metis map_of_eq_None_iff option.distinct(1))
    obtain upd q where u: "UpdateLeaf p ?k ?v = (upd, q)" by fastforce
    note U = UpdateLeaf_ok [OF rep sz(2) u]
    have "upd" using U(1) Some size fit rm by simp
    have lr: "leaf_rep q (es[lb (map fst es) ?k := (?k, ?v)])" using U(2) \<open>upd\<close> by simp
    moreover have "es[lb (map fst es) ?k := (?k, ?v)] = upsert ?k ?v es"
      by (rule sorted_list_unique [OF _ upsert_sorted [OF so]]) (use lr U(4) [OF \<open>upd\<close>] upsert_map in \<open>auto simp: leaf_rep_def\<close>)
    moreover have "mem_ok q" by (rule UpdateLeaf_mem [OF rep m sz(2) u])
    moreover have "GetNextLeaf q = GetNextLeaf p" by (rule same_next [OF U(3)])
    ultimately show ?thesis using fk k u \<open>upd\<close> by (auto simp: RedoPut_def)
  qed
qed

lemma RedoDelete_ok:
  assumes rep: "leaf_rep p es" and m: "mem_ok p"
  shows "\<exists>q. RedoDelete r p = (kOk, with_lsn q (lsn r)) \<and> leaf_rep q (remove_key (rkey r) es) \<and> mem_ok q \<and> GetNextLeaf q = GetNextLeaf p"
proof -
  let ?k = "rkey r" let ?i = "lb (map fst es) ?k"
  have so: "sorted_wrt (<) (map fst es)" using rep by (simp add: leaf_rep_def)
  have fk: "FindKeyIndex p ?k = (?i, ?k \<in> fst ` set es)" by (rule leaf_FindKeyIndex [OF rep])
  show ?thesis
  proof (cases "?k \<in> fst ` set es")
    case False
    then have "remove_key ?k es = es" by (force simp: filter_id_conv)
    then show ?thesis using False fk rep m by (auto simp: RedoDelete_def)
  next
    case True
    note i = lb_entry [OF so True]
    obtain q where q: "DeleteAt p ?i = (True, q)" using DeleteAt_leaf(1) [OF rep] i(1) by (metis (full_types) prod.exhaust_sel)
    note D = DeleteAt_leaf [OF rep q]
    have "take ?i es @ drop (Suc ?i) es = remove_key ?k es"
      by (rule sorted_list_unique [OF _ remove_key_sorted [OF so]]) (use D(2,4) i(2) remove_key_map in \<open>auto simp: leaf_rep_def\<close>)
    then show ?thesis using D(2) same_next [OF D(3)] True fk q DeleteAt_mem [of p ?i] rep m by (auto simp: RedoDelete_def leaf_rep_def)
  qed
qed

text \<open>Images have the size of a page and are stamped with the LSN of their record.\<close>

definition image_ok :: "LogRecord \<Rightarrow> bool" where
  "image_ok r \<longleftrightarrow> length (rvalue r) = kPageSize \<and> page_lsn (hdr (page_of_bytes (rvalue r))) = lsn r"

text \<open>A put or a delete is about a leaf, and a put fits it.\<close>

definition change_fits :: "LogRecord \<Rightarrow> shape \<Rightarrow> bool" where
  "change_fits r sh \<longleftrightarrow> rtype r = kPageImage \<or>
     (\<exists>es nx. sh = LeafPage es nx \<and> (rtype r = kPut \<longrightarrow> leaf_size (upsert (rkey r) (rvalue r) es) \<le> 4056))"

text \<open>The effect of a page record, in the switch of \<^verbatim>\<open>ApplyRecord\<close>.\<close>

abbreviation redo_fun :: "LogRecord \<Rightarrow> Page \<Rightarrow> Status \<times> Page" where
  "redo_fun r \<equiv> if rtype r = kPut then RedoPut r else if rtype r = kDelete then RedoDelete r else (\<lambda>_. (kOk, page_of_bytes (rvalue r)))"

lemma shaped_lsn [simp]: "shaped (with_lsn q l) sh = shaped q sh"
  by (cases sh) (simp_all add: with_lsn_def int_page_def)

lemma shaped_stamp [simp]: "shaped (stamp q c) sh = shaped q sh"
  by (cases sh) (simp_all add: int_page_def)

lemma redo_fun_ok:
  assumes c: "changes_page r" and sh: "shaped p sh" and m: "mem_ok p" and fit: "change_fits r sh" and im: "rtype r = kPageImage \<Longrightarrow> image_ok r"
  shows "\<exists>q. redo_fun r p = (kOk, q) \<and> shaped q (after r sh) \<and> mem_ok q \<and> page_lsn (hdr q) = lsn r"
proof (cases "rtype r = kPageImage")
  case True
  then show ?thesis using im by (simp add: after_def image_ok_def)
next
  case False
  then obtain es nx where l: "sh = LeafPage es nx" and f: "rtype r = kPut \<Longrightarrow> leaf_size (upsert (rkey r) (rvalue r) es) \<le> 4056"
    using fit by (auto simp: change_fits_def)
  have rep: "leaf_rep p es" "GetNextLeaf p = nx" using sh l by simp_all
  have lsn: "page_lsn (hdr (with_lsn q (lsn r))) = lsn r" "mem_ok (with_lsn q (lsn r)) = mem_ok q" for q by (simp_all add: with_lsn_def mem_ok_def)
  show ?thesis
  proof (cases "rtype r = kPut")
    case True
    then obtain q where q: "RedoPut r p = (kOk, with_lsn q (lsn r))" "leaf_rep q (upsert (rkey r) (rvalue r) es)" "mem_ok q" "GetNextLeaf q = nx"
      using RedoPut_ok [OF rep(1) m f] rep(2) by blast
    then have "shaped q (after r sh)" using True l by (simp add: after_def)
    then show ?thesis using True q lsn by auto
  next
    case False
    then have d: "rtype r = kDelete" using c \<open>rtype r \<noteq> kPageImage\<close> by (simp add: changes_page_def)
    then obtain q where q: "RedoDelete r p = (kOk, with_lsn q (lsn r))" "leaf_rep q (remove_key (rkey r) es)" "mem_ok q" "GetNextLeaf q = nx"
      using RedoDelete_ok [OF rep(1) m] rep(2) by blast
    then have "shaped q (after r sh)" using d l by (simp add: after_def)
    then show ?thesis using d q lsn by auto
  qed
qed

subsection \<open>Pages found on disk\<close>

definition page_at :: "BufferPool \<Rightarrow> PageId \<Rightarrow> page_state \<Rightarrow> bool" where
  "page_at b p x \<longleftrightarrow> live_page b p \<and> shaped (pview b p) (fst x) \<and> page_lsn (hdr (pview b p)) = snd x"

text \<open>A page whose last write was torn by the crash: not cached, and its checksum does not match.\<close>

definition torn :: "BufferPool \<Rightarrow> PageId \<Rightarrow> bool" where
  "torn b p \<longleftrightarrow> live_page b p \<and> map_of (page_table b) p = None \<and> verify_checksums (pager b) \<and> \<not> trusted (page_of_bytes (disk (pager b) p))"

lemma fetch_disk:
  assumes inv: "pool_inv {} b" and ft: "FetchPageInternal b q = (r, b')" and p: "data_page (pager b) p" "map_of (page_table b) p = None"
  shows "disk (pager b') p = disk (pager b) p" and "p \<noteq> q \<or> (\<exists>s. r = Inl s) \<Longrightarrow> map_of (page_table b') p = None"
    and "p = q \<Longrightarrow> r = Inr g \<Longrightarrow> verify_checksums (pager b) \<Longrightarrow> trusted (page_of_bytes (disk (pager b) p))"
proof -
  let ?b0 = "b\<lparr>stats := (stats b)\<lparr>misses := misses (stats b) + 1\<rparr>\<rparr>"
  have inv0: "pool_inv {} ?b0" using inv by (auto simp: pool_inv_def rep_inv_def intro: core_inv_cong)
  obtain r1 b1 where ac: "AcquireFrameLocked ?b0 = (r1, b1)" by fastforce
  have d: "disk (pager b1) p = disk (pager b) p" "map_of (page_table b1) p = None"
    using AcquireFrameLocked_disk [OF inv0 ac, of p] AcquireFrameLocked_pages [OF inv0 ac, of p] p by auto
  have v: "verify_checksums (pager b1) = verify_checksums (pager b)" using AcquireFrameLocked_ok [OF inv0 ac] by (auto simp: keeps_def)
  have "disk (pager b') p = disk (pager b) p \<and> (p \<noteq> q \<or> (\<exists>s. r = Inl s) \<longrightarrow> map_of (page_table b') p = None) \<and>
      (p = q \<longrightarrow> r = Inr g \<longrightarrow> verify_checksums (pager b) \<longrightarrow> trusted (page_of_bytes (disk (pager b) p)))"
  proof (cases "map_of (page_table b) q")
    case (Some f)
    then show ?thesis using ft p by (auto simp: FetchPageInternal_def Let_def set_frame_def)
  next
    case None
    show ?thesis
    proof (cases r1)
      case (Inl s)
      then show ?thesis using ft None ac d by (auto simp: FetchPageInternal_def)
    next
      case (Inr f)
      obtain x i where x: "ReadPage (pager b1) q (io b1) = (x, i)" by fastforce
      then show ?thesis using ft None ac Inr d v ReadPage_Inr(2,3) [of "pager b1" q "io b1"]
        by (cases x) (auto simp: FetchPageInternal_def install_def Let_def set_frame_def)
    qed
  qed
  then show "disk (pager b') p = disk (pager b) p" "p \<noteq> q \<or> (\<exists>s. r = Inl s) \<Longrightarrow> map_of (page_table b') p = None"
    "p = q \<Longrightarrow> r = Inr g \<Longrightarrow> verify_checksums (pager b) \<Longrightarrow> trusted (page_of_bytes (disk (pager b) p))" by blast+
qed

lemma torn_fetch:
  assumes inv: "pool_ok b" and t: "torn b p" and lv: "live_page b q" and ft: "FetchPageInternal b q = (r, b')"
  shows "q \<noteq> p \<Longrightarrow> torn b' p" and "q = p \<Longrightarrow> \<exists>s. r = Inl s"
proof -
  have i: "pool_inv {} b" using inv by (simp add: pool_ok_def)
  have p: "data_page (pager b) p" "map_of (page_table b) p = None" "verify_checksums (pager b)" "\<not> trusted (page_of_bytes (disk (pager b) p))"
    using t by (auto simp: torn_def live_page_def)
  note f = fetch_disk [OF i ft p(1,2)]
  have "verify_checksums (pager b') = verify_checksums (pager b)" using FetchPageInternal_ok [OF i ft] by (auto simp: keeps_def)
  then show "torn b' p" if "q \<noteq> p" using f(1,2) that p(3,4) pc.fetch_keeps [OF inv lv ft] t by (simp add: torn_def)
  show "\<exists>s. r = Inl s" if "q = p" using f(3) that p(3,4) by (cases r) auto
qed

text \<open>Writing a page that is not cached straight to the file, as the redo of an image does with a torn page.\<close>

lemma write_through:
  assumes inv: "pool_ok b" and lv: "live_page b p" and nr: "map_of (page_table b) p = None" and m: "mem_ok pg"
    and wr: "WritePage (pager b) p pg (io b) = (kOk, pg', q, i)"
  defines "b' \<equiv> b\<lparr>pager := q, io := i\<rparr>"
  shows "pool_ok b'" and "live_page b' = live_page b" and "pview b' p = stamp pg 0" and "\<And>j. live_page b j \<Longrightarrow> j \<noteq> p \<Longrightarrow> pview b' j = pview b j"
    and "\<And>j. torn b j \<Longrightarrow> j \<noteq> p \<Longrightarrow> torn b' j"
proof -
  have core: "core_inv {} b" and rep: "rep_inv {} b" using inv by (auto simp: pool_ok_def pool_inv_def)
  note w = WritePage_cases [OF core_invD(1) [OF core] wr]
  have dp: "data_page q = data_page (pager b)" by (simp add: data_page_def fun_eq_iff w(2))
  have dk: "disk q j = disk (pager b) j" if "data_page (pager b) j" "j \<noteq> p" for j using w(4) that by (simp add: data_page_def)
  have res: "data_page (pager b) j \<and> j \<noteq> p" if "j \<in> fst ` set (page_table b)" for j
    using that core_invD(2) [OF core] nr by (auto simp: frame_ok_def map_of_eq_None_iff image_iff)
  have "core_inv {} b'" unfolding b'_def by (rule core_inv_pager [OF core w(1)]) (use w(2) dk res in auto)
  moreover have "rep_inv {} b'" using rep by (simp add: rep_inv_def b'_def)
  moreover have fp: "free_pages b' ids \<longleftrightarrow> free_pages b ids" if "p \<notin> set ids" for ids
  proof -
    have "flist q h ids \<longleftrightarrow> flist (pager b) h ids" for h
    proof
      assume f: "flist q h ids"
      have "disk (pager b) x = disk q x" if "x \<in> set ids" for x using dk [of x] flist_data_page [OF f that] dp that \<open>p \<notin> set ids\<close> by metis
      then show "flist (pager b) h ids" by (rule flist_frame [OF f]) (use w(2) in auto)
    next
      assume f: "flist (pager b) h ids"
      show "flist q h ids" by (rule flist_frame [OF f]) (use flist_data_page [OF f] dk w(2) that in auto)
    qed
    then show ?thesis by (simp add: free_pages_def b'_def w(2))
  qed
  moreover obtain ids where ids: "free_pages b ids" "p \<notin> set ids" using inv lv by (auto simp: pool_ok_def live_page_def)
  ultimately show ok: "pool_ok b'" by (auto simp: pool_ok_def pool_inv_def)
  show lp: "live_page b' = live_page b"
    using live_pageI [OF ids(1)] live_pageI [of b' ids] ids fp by (auto simp: fun_eq_iff b'_def dp)
  have "page_of_bytes (RawData (stamp pg c)) = stamp pg c" for c using m by (intro page_of_bytes_RawData) simp
  then show "pview b' p = stamp pg 0" using w(5) nr by (simp add: pview_def b'_def)
  show "pview b' j = pview b j" if "live_page b j" "j \<noteq> p" for j
    unfolding b'_def by (rule pview_pager) (use dk that in \<open>simp add: live_page_def\<close>)
  show "torn b' j" if "torn b j" "j \<noteq> p" for j
    using that dk w(3) lp by (auto simp: torn_def b'_def live_page_def)
qed

subsection \<open>One record\<close>

lemma redo_at_ok:
  assumes inv: "pool_ok b" and h: "Page_Cache.holds b p g" and at: "page_at b p (sh, l)"
    and f: "l < lsn r \<Longrightarrow> f (gpage b g) = (kOk, q)" "l < lsn r \<Longrightarrow> shaped q sh' \<and> mem_ok q \<and> page_lsn (hdr q) = lsn r"
  shows "\<exists>any b'. redo_at g r f b = (kOk, any, b') \<and> pool_ok b' \<and> live_page b' = live_page b \<and> (\<forall>j. j \<noteq> p \<longrightarrow> pview b' j = pview b j) \<and>
    page_at b' p (if l < lsn r then (sh', lsn r) else (sh, l))"
proof -
  have l: "page_lsn (hdr (gpage b g)) = l" using at by (simp add: page_at_def gpage_view(1) [OF inv h, symmetric])
  show ?thesis
  proof (cases "l < lsn r")
    case True
    let ?b = "guard_write b g q"
    have m: "mem_ok q" using f(2) True by simp
    note u = pc.update_one [OF inv h m]
    have h': "Page_Cache.holds ?b p g" "pool_ok ?b" using u h by auto
    note rel = pc.release_keeps [OF h'(2,1)]
    have "redo_at g r f b = (kOk, True, ReleaseGuard ?b g)" using True f(1) l by (simp add: redo_at_def set_then_mark)
    then show ?thesis using True u rel f(2) at by (auto simp: page_at_def)
  next
    case False
    note rel = pc.release_keeps [OF inv h]
    have "redo_at g r f b = (kOk, False, ReleaseGuard b g)" using False l by (simp add: redo_at_def)
    then show ?thesis using False rel at by (auto simp: page_at_def)
  qed
qed

lemma redo_at_files: "redo_at g r f b = (s, any, b') \<Longrightarrow> pager b' = pager b \<and> page_table b' = page_table b"
  by (auto simp: redo_at_def Let_def MarkDirty_def set_gpage_def set_frame_def ReleaseGuard_def split: if_splits prod.splits)

text \<open>The pages that recovery has not created yet.\<close>

abbreviation missing :: "BufferPool \<Rightarrow> PageId \<Rightarrow> bool" where
  "missing b p \<equiv> num_pages (meta (pager b)) \<le> p"

text \<open>The other pages, intact or torn, stay what they are, missing ones may have been created; root and key count stay.\<close>

definition frame_rest :: "BufferPool \<Rightarrow> PageId \<Rightarrow> BufferPool \<Rightarrow> bool" where
  "frame_rest b p b' \<longleftrightarrow> pool_ok b' \<and> root_page_id (meta (pager b')) = root_page_id (meta (pager b)) \<and>
     num_keys (meta (pager b')) = num_keys (meta (pager b)) \<and> (\<forall>j x. j \<noteq> p \<longrightarrow> page_at b j x \<longrightarrow> page_at b' j x) \<and>
     (\<forall>j. j \<noteq> p \<longrightarrow> torn b j \<longrightarrow> torn b' j) \<and> (\<forall>j. j \<noteq> p \<longrightarrow> missing b j \<longrightarrow> missing b' j \<or> page_at b' j (Blank, 0))"

lemma frame_rest_trans:
  assumes "frame_rest a p b" and "frame_rest b p c"
  shows "frame_rest a p c"
proof -
  have "missing c j \<or> page_at c j (Blank, 0)" if "j \<noteq> p" "missing a j" for j using assms that unfolding frame_rest_def by blast
  then show ?thesis using assms unfolding frame_rest_def by auto
qed

lemma redo_fetched:
  assumes inv: "pool_ok b" and at: "page_at b p (sh, l)" and ft: "FetchPageInternal b p = (Inr g, b1)"
    and f: "\<And>pg. l < lsn r \<Longrightarrow> shaped pg sh \<Longrightarrow> mem_ok pg \<Longrightarrow> \<exists>q. f pg = (kOk, q) \<and> shaped q sh' \<and> mem_ok q \<and> page_lsn (hdr q) = lsn r"
  shows "\<exists>any b'. redo_at g r f b1 = (kOk, any, b') \<and> frame_rest b p b' \<and> page_at b' p (if l < lsn r then (sh', lsn r) else (sh, l))"
proof -
  have lv: "live_page b p" using at by (simp add: page_at_def)
  note k = pc.fetch_keeps [OF inv lv ft] and h = conjunct1 [OF pc.fetch_Inr [OF inv lv ft]]
  have v: "pool_ok b1" "live_page b1 = live_page b" "meta (pager b1) = meta (pager b)" "\<And>j. live_page b j \<Longrightarrow> pview b1 j = pview b j" using k by auto
  have at1: "page_at b1 j x" if "page_at b j x" for j x using that v by (auto simp: page_at_def)
  have g: "shaped (gpage b1 g) sh" "mem_ok (gpage b1 g)"
    using gpage_view(2) [OF v(1) h] at1 [OF at] by (simp_all add: page_at_def gpage_view(1) [OF v(1) h, symmetric])
  obtain q where q: "l < lsn r \<Longrightarrow> f (gpage b1 g) = (kOk, q)" "l < lsn r \<Longrightarrow> shaped q sh' \<and> mem_ok q \<and> page_lsn (hdr q) = lsn r" using f [OF _ g] by blast
  obtain any b' where b': "redo_at g r f b1 = (kOk, any, b')" "pool_ok b'" "live_page b' = live_page b1" "\<forall>j. j \<noteq> p \<longrightarrow> pview b' j = pview b1 j"
    "page_at b' p (if l < lsn r then (sh', lsn r) else (sh, l))"
    using redo_at_ok [where f = f, OF v(1) h at1 [OF at] q] by blast
  have "torn b' j" if "j \<noteq> p" "torn b j" for j
    using torn_fetch(1) [OF inv that(2) lv ft] that(1) redo_at_files [OF b'(1)] b'(3) by (auto simp: torn_def)
  moreover have "page_at b' j x" if "j \<noteq> p" "page_at b j x" for j x using at1 [OF that(2)] that(1) b'(3,4) by (auto simp: page_at_def)
  ultimately show ?thesis using b'(1,2,5) v(3) redo_at_files [OF b'(1)] by (auto simp: frame_rest_def)
qed

lemma ensure_page_exists_there: "\<not> missing b p \<Longrightarrow> ensure_page_exists p b = Some (kOk, b)"
  by (subst ensure_page_exists.simps) auto

lemma live_not_missing: "live_page b p \<Longrightarrow> \<not> missing b p"
  by (auto simp: live_page_def data_page_def)

lemma redo_heal:
  assumes inv: "pool_ok b" and lv: "live_page b p" and ft: "FetchPageInternal b p = (Inl kCorruption, b1)"
    and im: "image_ok r" "rtype r = kPageImage" "rpage r = p" and ap: "redo_image r b = (kOk, any, b')"
  shows "frame_rest b p b'" and "page_at b' p (after r sh, lsn r)"
proof -
  have i: "pool_inv {} b" using inv by (simp add: pool_ok_def)
  have nr: "map_of (page_table b) p = None" using ft by (auto simp: FetchPageInternal_def Let_def split: option.splits)
  have nr1: "map_of (page_table b1) p = None" using fetch_disk(2) [OF i ft _ nr] lv by (simp add: live_page_def)
  have k: "pool_ok b1" "live_page b1 = live_page b" "meta (pager b1) = meta (pager b)" "\<And>j. live_page b j \<Longrightarrow> pview b1 j = pview b j"
    using pc.fetch_keeps [OF inv lv ft] by auto
  let ?pg = "page_of_bytes (rvalue r)"
  obtain s pg' q i' where w: "WritePage (pager b1) p ?pg (io b1) = (s, pg', q, i')" by (metis prod_cases4)
  have "s = kOk" "b' = b1\<lparr>pager := q, io := i'\<rparr>" using ap ft im(3) w by (auto simp: redo_image_def)
  note W = write_through [OF k(1) _ nr1 mem_ok_page_of_bytes w [unfolded \<open>s = kOk\<close>], folded \<open>b' = _\<close>]
  have W: "pool_ok b'" "live_page b' = live_page b" "pview b' p = stamp ?pg 0" "\<And>j. live_page b j \<Longrightarrow> j \<noteq> p \<Longrightarrow> pview b' j = pview b1 j"
    "\<And>j. torn b1 j \<Longrightarrow> j \<noteq> p \<Longrightarrow> torn b' j" using W lv k(2) by simp_all
  have "page_at b' j x" if "j \<noteq> p" "page_at b j x" for j x using that W(2,4) k(4) by (auto simp: page_at_def)
  moreover have "torn b' j" if "j \<noteq> p" "torn b j" for j using W(5) torn_fetch(1) [OF inv that(2) lv ft] that(1) by simp
  moreover have "meta q = meta (pager b1)" using w by (auto simp: WritePage_def Let_def split: if_splits prod.splits sum.splits)
  ultimately show "frame_rest b p b'" using W(1) k(3) by (simp add: frame_rest_def \<open>b' = _\<close>)
  show "page_at b' p (after r sh, lsn r)" using W(2,3) lv im by (simp add: page_at_def after_def image_ok_def)
qed

subsection \<open>Extending the file\<close>

text \<open>
  What creating missing pages leaves alone. New pages are zeroed, with LSN 0. The pool's cached pages and the log are not touched.
\<close>

definition extends :: "BufferPool \<Rightarrow> BufferPool \<Rightarrow> bool" where
  "extends b b' \<longleftrightarrow> pool_ok b' \<and> num_pages (meta (pager b)) \<le> num_pages (meta (pager b')) \<and>
     root_page_id (meta (pager b')) = root_page_id (meta (pager b)) \<and> num_keys (meta (pager b')) = num_keys (meta (pager b)) \<and>
     (\<forall>j x. page_at b j x \<longrightarrow> page_at b' j x) \<and> (\<forall>j. torn b j \<longrightarrow> torn b' j) \<and>
     (\<forall>j. missing b j \<longrightarrow> \<not> missing b' j \<longrightarrow> page_at b' j (Blank, 0))"

lemma extends_refl: "pool_ok b \<Longrightarrow> extends b b"
  by (simp add: extends_def)

lemma extends_trans:
  assumes "extends a b" and "extends b c"
  shows "extends a c"
proof -
  have "page_at c j (Blank, 0)" if "missing a j" "\<not> missing c j" for j
    using assms that unfolding extends_def by blast
  moreover have "num_pages (meta (pager a)) \<le> num_pages (meta (pager c))"
    using assms order_trans [of "num_pages (meta (pager a))"] unfolding extends_def by blast
  ultimately show ?thesis using assms unfolding extends_def by auto
qed

lemma extends_frame: "extends b b' \<Longrightarrow> frame_rest b p b'"
  unfolding extends_def frame_rest_def by blast

lemma zero_page_lsn: "page_lsn (hdr zero_page) = 0"
proof -
  have "GetLE (replicate n (0 :: byte)) = (0 :: u64)" for n by (induction n) simp_all
  then show ?thesis by (simp add: zero_page_def page_of_bytes_def header_of_bytes_def Let_def kPageSize_def)
qed

lemma grow_one:
  assumes ok: "pool_ok b" and bound: "unat (num_pages (meta (pager b))) + 1 < 2 ^ 32" and al: "AllocatePage (pager b) (io b) = (Inr x, p, i)"
    and n: "num_pages (meta p) \<noteq> num_pages (meta (pager b))"
  shows "extends b (b\<lparr>pager := p, io := i\<rparr>)" and "num_pages (meta p) = num_pages (meta (pager b)) + 1"
proof -
  let ?b = "b\<lparr>pager := p, io := i\<rparr>"
  obtain ids where inv: "pool_inv {} b" and fp: "free_pages b ids" using ok by (auto simp: pool_ok_def)
  note g = pool_grow [OF inv fp bound al]
  have pi: "pager_inv (pager b)" using inv core_invD(1) [of "{}" b] by (simp add: pool_inv_def)
  have fl: "flist (pager b) (free_list_head (meta (pager b))) ids" using fp by (simp add: free_pages_def)
  note a = AllocatePage_ok [OF pi fl bound al]
  have ids: "ids = []" and np: "num_pages (meta p) = num_pages (meta (pager b)) + 1" and x: "x = num_pages (meta (pager b))"
    using a(3) n by (auto split: list.splits)
  show "num_pages (meta p) = num_pages (meta (pager b)) + 1" by (rule np)
  have dk: "disk p j = disk (pager b) j" if "data_page (pager b) j" for j using a(3) that x by (auto simp: data_page_def)
  have fp': "free_pages ?b []" using g(3) ids by (auto simp: free_pages_def)
  then have ok': "pool_ok ?b" using g(1) by (auto simp: pool_ok_def)
  have lv: "live_page b j = data_page (pager b) j" "live_page ?b j = data_page p j" for j
    using live_pageI [OF fp] live_pageI [OF fp'] ids by (auto simp: live_page_def)
  have v: "pview ?b j = pview b j" if "live_page b j" for j using g(2) that lv ids by simp
  have gx: "page_of_bytes (disk p x) = zero_page" "data_page p x" "x \<notin> fst ` set (page_table b)" using g(3) [OF refl] by blast+
  then have nr: "map_of (page_table b) x = None" by (simp add: map_of_eq_None_iff)
  have new: "page_at ?b x (Blank, 0)" using gx(1,2) lv nr by (simp add: page_at_def pview_def zero_page_lsn)
  have le: "num_pages (meta (pager b)) \<le> num_pages (meta p)" using np bound by (simp add: word_le_nat_alt unat_word_ariths)
  have "j = x" if "missing b j" "\<not> missing ?b j" for j
    using that bound unfolding x np by (simp add: np word_le_nat_alt unat_word_ariths) (metis Suc_leI le_antisym not_less_eq_eq word_unat_eq_iff)
  moreover have "page_at ?b j y" if "page_at b j y" for j y using that v lv g(4) by (auto simp: page_at_def)
  moreover have "torn ?b j" if "torn b j" for j using that dk lv g(4) AllocatePage_keeps [OF al] by (auto simp: torn_def)
  ultimately show "extends b ?b" using ok' le new AllocatePage_meta(1,2) [OF al] by (auto simp: extends_def)
qed

lemma ensure_page_exists_ok:
  assumes "pool_ok b" and "unat pid + 1 < 2 ^ 32"
  shows "\<exists>s b'. ensure_page_exists pid b = Some (s, b') \<and> (if s = kOk then extends b b' \<and> \<not> missing b' pid else io_error s)"
  using assms(1)
proof (induction "unat pid + 1 - unat (num_pages (meta (pager b)))" arbitrary: b)
  case 0
  then have "\<not> missing b pid" by (simp add: word_le_nat_alt)
  then show ?case using extends_refl [OF 0(2)] by (simp add: ensure_page_exists_there)
next
  case (Suc m)
  then have ms: "missing b pid" and bound: "unat (num_pages (meta (pager b))) + 1 < 2 ^ 32" using assms(2) by (simp_all add: word_le_nat_alt)
  obtain r p i where al: "AllocatePage (pager b) (io b) = (r, p, i)" by (metis prod_cases3)
  let ?b = "b\<lparr>pager := p, io := i\<rparr>"
  show ?case
  proof (cases r)
    case (Inl s)
    obtain ids where "free_pages b ids" using Suc.prems by (auto simp: pool_ok_def)
    then have "io_error s" using AllocatePage_error al Inl by blast
    then show ?thesis using ms al Inl by (subst ensure_page_exists.simps) (auto simp: Let_def)
  next
    case (Inr x)
    show ?thesis
    proof (cases "num_pages (meta p) = num_pages (meta (pager b))")
      case True
      then show ?thesis using ms al Inr by (subst ensure_page_exists.simps) (auto simp: Let_def io_error_def)
    next
      case False
      note g = grow_one [OF Suc.prems bound al [unfolded Inr] False]
      have "unat (num_pages (meta p)) = unat (num_pages (meta (pager b))) + 1" using g(2) bound by (simp add: unat_word_ariths)
      then have "m = unat pid + 1 - unat (num_pages (meta (pager ?b)))" "pool_ok ?b" using Suc.hyps(2) g(1) by (simp_all add: extends_def)
      from Suc.hyps(1) [OF this] obtain s b' where b': "ensure_page_exists pid ?b = Some (s, b')" "if s = kOk then extends ?b b' \<and> \<not> missing b' pid else io_error s"
        by blast
      moreover have "ensure_page_exists pid b = ensure_page_exists pid ?b" using ms al Inr False by (subst ensure_page_exists.simps) (simp add: Let_def)
      ultimately show ?thesis using extends_trans [OF g(1)] by (intro exI [of _ s] exI [of _ b']) auto
    qed
  qed
qed

subsection \<open>One record\<close>

lemma ApplyRecord_page:
  assumes "changes_page r" and "live_page b (rpage r)" and "rtype r = kPageImage \<Longrightarrow> image_ok r" and ft: "FetchPageInternal b (rpage r) = (x, b1)"
  shows "ApplyRecord r b = Some (case x of Inr g \<Rightarrow> redo_at g r (redo_fun r) b1
    | Inl s \<Rightarrow> if rtype r = kPageImage \<and> s = kCorruption then redo_image r b else (s, False, b1))"
  using assms live_not_missing [OF assms(2)] ensure_page_exists_there [of b "rpage r"]
  by (auto simp: ApplyRecord_def changes_page_def redo_page_def redo_image_def image_ok_def split: sum.splits)

lemma redo_image_status:
  assumes lv: "live_page b p" and inv: "pool_ok b" and p: "rpage r = p" and ft: "FetchPageInternal b p = (Inl s0, b1)" and ri: "redo_image r b = (s, any, b')"
  shows "s = kOk \<or> io_error s"
proof -
  obtain s' y where w: "WritePage (pager b1) p (page_of_bytes (rvalue r)) (io b1) = (s', y)" by (metis surj_pair)
  have "data_page (pager b1) p" using lv pc.fetch_keeps [OF inv lv ft] by (metis live_page_def)
  from WritePage_error [OF w this] show ?thesis
    using pc.fetch_Inl [OF inv lv ft] p ft ri w by (auto simp: redo_image_def split: if_splits prod.splits)
qed

text \<open>The page could not be fetched: an image heals a page whose checksum is wrong.\<close>

lemma ApplyRecord_unreadable:
  assumes inv: "pool_ok b" and c: "changes_page r" and lv: "live_page b (rpage r)" and im: "rtype r = kPageImage \<Longrightarrow> image_ok r"
    and ft: "FetchPageInternal b (rpage r) = (Inl s0, b1)"
  shows "\<exists>s any b'. ApplyRecord r b = Some (s, any, b') \<and> (s = kOk \<or> io_error s) \<and>
    (s = kOk \<longrightarrow> frame_rest b (rpage r) b' \<and> page_at b' (rpage r) (after r sh, lsn r) \<and> rtype r = kPageImage)"
proof -
  have e: "io_error s0" using pc.fetch_Inl [OF inv lv ft] by simp
  note A = ApplyRecord_page [OF c lv im ft]
  show ?thesis
  proof (cases "rtype r = kPageImage \<and> s0 = kCorruption")
    case False
    then show ?thesis using A e by (auto simp: io_error_def)
  next
    case True
    obtain s' any b' where h: "redo_image r b = (s', any, b')" by (metis prod_cases3)
    have "ApplyRecord r b = Some (s', any, b')" using A True h by simp
    then show ?thesis
      using redo_image_status [OF lv inv refl ft h] redo_heal(1) [OF inv lv _ im] redo_heal(2) [OF inv lv _ im, where sh = sh] ft True h by blast
  qed
qed

lemma ApplyRecord_version:
  assumes inv: "pool_ok b" and c: "changes_page r" and at: "page_at b (rpage r) (sh, l)" and im: "rtype r = kPageImage \<Longrightarrow> image_ok r"
    and fit: "l < lsn r \<Longrightarrow> change_fits r sh"
  shows "\<exists>s any b'. ApplyRecord r b = Some (s, any, b') \<and> (s = kOk \<or> io_error s) \<and> (s = kOk \<longrightarrow> frame_rest b (rpage r) b' \<and>
    (page_at b' (rpage r) (if l < lsn r then (after r sh, lsn r) else (sh, l)) \<or> page_at b' (rpage r) (after r sh, lsn r) \<and> rtype r = kPageImage))"
proof -
  have lv: "live_page b (rpage r)" using at by (simp add: page_at_def)
  obtain x b1 where ft: "FetchPageInternal b (rpage r) = (x, b1)" by fastforce
  show ?thesis
  proof (cases x)
    case (Inl s)
    from ApplyRecord_unreadable [OF inv c lv im ft [unfolded Inl], where sh = sh] show ?thesis by blast
  next
    case (Inr g)
    note A = ApplyRecord_page [OF c lv im ft]
    have f: "\<exists>q. redo_fun r pg = (kOk, q) \<and> shaped q (after r sh) \<and> mem_ok q \<and> page_lsn (hdr q) = lsn r"
      if "l < lsn r" "shaped pg sh" "mem_ok pg" for pg by (rule redo_fun_ok [OF c that(2,3) fit [OF that(1)] im])
    from redo_fetched [OF inv at ft [unfolded Inr] f] show ?thesis using A Inr by fastforce
  qed
qed

lemma ApplyRecord_torn:
  assumes inv: "pool_ok b" and c: "changes_page r" and t: "torn b (rpage r)" and im: "rtype r = kPageImage \<Longrightarrow> image_ok r"
  shows "\<exists>s any b'. ApplyRecord r b = Some (s, any, b') \<and> (s = kOk \<or> io_error s) \<and>
    (s = kOk \<longrightarrow> frame_rest b (rpage r) b' \<and> page_at b' (rpage r) (after r sh, lsn r) \<and> rtype r = kPageImage)"
proof -
  have lv: "live_page b (rpage r)" using t by (simp add: torn_def)
  obtain x b1 where ft: "FetchPageInternal b (rpage r) = (x, b1)" by fastforce
  obtain s where x: "x = Inl s" using torn_fetch(2) [OF inv t lv ft] by blast
  show ?thesis by (rule ApplyRecord_unreadable [OF inv c lv im ft [unfolded x]])
qed

lemma valid_page_id:
  assumes "p \<noteq> kInvalidPageId"
  shows "unat p + 1 < 2 ^ 32"
proof -
  have "unat p < 2 ^ 32" by (rule order_less_le_trans [OF unsigned_less]) simp
  moreover have "unat p \<noteq> 2 ^ 32 - 1" using assms by (simp add: kInvalidPageId_def word_unat_eq_iff)
  ultimately show ?thesis by linarith
qed

text \<open>An image of a page that is missing extends the file first.\<close>

lemma ApplyRecord_missing:
  assumes inv: "pool_ok b" and ty: "rtype r = kPageImage" and ms: "missing b (rpage r)" and im: "image_ok r" and l: "0 < lsn r"
    and p: "rpage r \<noteq> kInvalidPageId"
  shows "\<exists>s any b'. ApplyRecord r b = Some (s, any, b') \<and> (s = kOk \<or> io_error s) \<and>
    (s = kOk \<longrightarrow> frame_rest b (rpage r) b' \<and> page_at b' (rpage r) (after r sh, lsn r))"
proof -
  obtain s b0 where e: "ensure_page_exists (rpage r) b = Some (s, b0)" "if s = kOk then extends b b0 \<and> \<not> missing b0 (rpage r) else io_error s"
    using ensure_page_exists_ok [OF inv valid_page_id [OF p]] by blast
  have c: "changes_page r" using ty by (simp add: changes_page_def)
  show ?thesis
  proof (cases "s = kOk")
    case False
    then show ?thesis using e ty im by (auto simp: ApplyRecord_def image_ok_def)
  next
    case True
    then have x: "extends b b0" "\<not> missing b0 (rpage r)" using e(2) by simp_all
    have "ApplyRecord r b = ApplyRecord r b0"
      using e(1) True ty im ensure_page_exists_there [OF x(2)] by (simp add: ApplyRecord_def image_ok_def)
    moreover have "page_at b0 (rpage r) (Blank, 0)" "pool_ok b0" using x ms by (auto simp: extends_def)
    ultimately show ?thesis using ApplyRecord_version [OF _ c, of b0 Blank 0] im ty l frame_rest_trans [OF extends_frame [OF x(1)]]
      by (auto simp: change_fits_def after_def)
  qed
qed

subsection \<open>The versions of a page\<close>

text \<open>
  A log of a run over the pages \<open>P\<close>: rising LSNs past those of the pages at its start, records about pages of \<open>P\<close>, images
  stamped with their LSN, puts and deletes about leaves, puts that fitted their leaf when they were logged.
\<close>

definition run_log :: "PageId set \<Rightarrow> (PageId \<Rightarrow> page_state) \<Rightarrow> LogRecord list \<Rightarrow> bool" where
  "run_log P E rs \<longleftrightarrow> sorted_wrt (<) (map lsn rs) \<and> (\<forall>r \<in> set rs. (\<forall>p \<in> P. snd (E p) < lsn r) \<and>
     (changes_page r \<longrightarrow> rpage r \<in> P) \<and> (changes_page r \<or> rtype r = kAllocPage \<longrightarrow> rpage r \<noteq> kInvalidPageId) \<and>
     (rtype r = kPageImage \<longrightarrow> image_ok r)) \<and>
     (\<forall>j < length rs. changes_page (rs ! j) \<longrightarrow> change_fits (rs ! j) (fst (history (take j rs) E (rpage (rs ! j)))))"

definition touches :: "LogRecord \<Rightarrow> PageId \<Rightarrow> bool" where
  "touches r p \<longleftrightarrow> changes_page r \<and> rpage r = p"

lemma logged_at: "logged r E p = (if touches r p then (after r (fst (E p)), lsn r) else E p)"
  by (auto simp: logged_def touches_def)

lemma history_Suc:
  "j < length rs \<Longrightarrow> history (take (Suc j) rs) E p =
     (if touches (rs ! j) p then (after (rs ! j) (fst (history (take j rs) E p)), lsn (rs ! j)) else history (take j rs) E p)"
  by (simp add: take_Suc_conv_app_nth logged_at)

lemma run_log_lsn: "run_log P E rs \<Longrightarrow> i < j \<Longrightarrow> j < length rs \<Longrightarrow> lsn (rs ! i) < lsn (rs ! j)"
  by (auto simp: run_log_def sorted_wrt_iff_nth_less)

lemma history_before: "run_log P E rs \<Longrightarrow> p \<in> P \<Longrightarrow> n \<le> i \<Longrightarrow> i < length rs \<Longrightarrow> snd (history (take n rs) E p) < lsn (rs ! i)"
proof (induction n)
  case 0
  then show ?case by (simp add: run_log_def)
next
  case (Suc n)
  then show ?case using run_log_lsn [of P E rs n i] by (simp add: history_Suc)
qed

lemma history_after:
  assumes "run_log P E rs" and "p \<in> P" and "touches (rs ! j) p" and "j < n" and "n \<le> length rs"
  shows "lsn (rs ! j) \<le> snd (history (take n rs) E p)"
  using assms(4,5)
proof (induction n)
  case (Suc n)
  then show ?case using assms(3) run_log_lsn [OF assms(1), of j n] by (cases "j = n") (auto simp: history_Suc)
qed simp

text \<open>
  What the redo loop keeps when it has done the first \<open>j\<close> records: a page is at a version that has them, or still torn with
  a record about it to come, or still missing and without a record so far.
\<close>

definition caught_up :: "LogRecord list \<Rightarrow> (PageId \<Rightarrow> page_state) \<Rightarrow> nat \<Rightarrow> BufferPool \<Rightarrow> PageId \<Rightarrow> bool" where
  "caught_up rs E j b p \<longleftrightarrow> (\<exists>n. j \<le> n \<and> n \<le> length rs \<and> page_at b p (history (take n rs) E p)) \<or>
     (torn b p \<and> (\<exists>i \<ge> j. i < length rs \<and> touches (rs ! i) p)) \<or> (missing b p \<and> history (take j rs) E p = (Blank, 0))"

lemma caught_up_at: "j \<le> n \<Longrightarrow> n \<le> length rs \<Longrightarrow> page_at b p (history (take n rs) E p) \<Longrightarrow> caught_up rs E j b p"
  by (auto simp: caught_up_def)

lemma caught_up_untouched:
  assumes c: "caught_up rs E j b p" and j: "j < length rs" and t: "\<not> touches (rs ! j) p"
    and keep: "\<And>x. page_at b p x \<Longrightarrow> page_at b' p x" "torn b p \<Longrightarrow> torn b' p" "missing b p \<Longrightarrow> missing b' p \<or> page_at b' p (Blank, 0)"
  shows "caught_up rs E (Suc j) b' p"
proof -
  have h: "history (take (Suc j) rs) E p = history (take j rs) E p" using t history_Suc [OF j, of E p] by simp
  from c [unfolded caught_up_def] show ?thesis
  proof (elim disjE exE conjE)
    fix n assume n: "j \<le> n" "n \<le> length rs" "page_at b p (history (take n rs) E p)"
    show ?thesis using n keep(1) h j caught_up_at [of "Suc j" n rs b' p E] caught_up_at [of "Suc j" "Suc j" rs b' p E]
      by (cases "n = j") auto
  next
    fix i assume "torn b p" "j \<le> i" "i < length rs" "touches (rs ! i) p"
    then show ?thesis using t keep(2) unfolding caught_up_def by (metis Suc_leI le_neq_implies_less)
  next
    assume "missing b p" "history (take j rs) E p = (Blank, 0)"
    then show ?thesis using keep(3) h j caught_up_at [of "Suc j" "Suc j" rs b' p E] by (auto simp: caught_up_def)
  qed
qed

lemma caught_up_touched:
  assumes lg: "run_log P E rs" and p: "p \<in> P" and c: "caught_up rs E j b p" and j: "j < length rs" and t: "touches (rs ! j) p" and inv: "pool_ok b"
  shows "\<exists>s any b'. ApplyRecord (rs ! j) b = Some (s, any, b') \<and> (s = kOk \<or> io_error s) \<and>
    (s = kOk \<longrightarrow> frame_rest b p b' \<and> caught_up rs E (Suc j) b' p)"
proof -
  let ?r = "rs ! j"
  have r: "changes_page ?r" "rpage ?r = p" "rtype ?r = kPageImage \<Longrightarrow> image_ok ?r" "p \<noteq> kInvalidPageId"
    "change_fits ?r (fst (history (take j rs) E p))" using t lg j by (auto simp: touches_def run_log_def)
  have now: "history (take (Suc j) rs) E p = (after ?r (fst (history (take j rs) E p)), lsn ?r)" using t j by (simp add: history_Suc)
  have img: "after ?r sh = after ?r sh'" if "rtype ?r = kPageImage" for sh sh' using that by (simp add: after_def)
  note up = caught_up_at [of "Suc j" _ rs _ p E]
  from c [unfolded caught_up_def] show ?thesis
  proof (elim disjE exE conjE)
    fix n assume n: "j \<le> n" "n \<le> length rs" "page_at b p (history (take n rs) E p)"
    obtain sh l where h: "history (take n rs) E p = (sh, l)" by fastforce
    have l: "l < lsn ?r \<longleftrightarrow> n = j"
      using history_before [OF lg p, of n j] history_after [OF lg p t _ n(2)] n(1) j h by (cases "n = j") (auto simp: not_less)
    have fit: "change_fits ?r sh" if "l < lsn ?r" using that r(5) h l by simp
    have at: "page_at b (rpage ?r) (sh, l)" using n(3) h r(2) by simp
    obtain s any b' where a: "ApplyRecord ?r b = Some (s, any, b')" "s = kOk \<or> io_error s"
      "s = kOk \<Longrightarrow> frame_rest b p b'" "s = kOk \<Longrightarrow> page_at b' p (if l < lsn ?r then (after ?r sh, lsn ?r) else (sh, l)) \<or>
         page_at b' p (after ?r sh, lsn ?r) \<and> rtype ?r = kPageImage"
      using ApplyRecord_version [OF inv r(1) at r(3) fit] unfolding r(2) by blast
    have "caught_up rs E (Suc j) b' p" if "s = kOk"
      using a(4) [OF that] now img [of sh "fst (history (take j rs) E p)"] up [of n b'] up [of "Suc j" b'] n(1,2) j h l
      by (cases "n = j") auto
    then show ?thesis using a by blast
  next
    assume tn: "torn b p"
    have "torn b (rpage ?r)" using tn r(2) by simp
    from ApplyRecord_torn [OF inv r(1) this r(3), of "fst (history (take j rs) E p)"] show ?thesis using r(2) now up [of "Suc j"] j by auto
  next
    assume m: "missing b p" "history (take j rs) E p = (Blank, 0)"
    have ty: "rtype ?r = kPageImage" using r(5) m(2) by (simp add: change_fits_def)
    have "0 < lsn ?r" using history_before [OF lg p _ j, of j] m(2) by simp
    from ApplyRecord_missing [OF inv ty _ r(3) [OF ty] this, of Blank] show ?thesis using r(2,4) m now up [of "Suc j"] j by auto
  qed
qed

text \<open>Records that change no page: allocations, root changes and markers.\<close>

lemma root_change_keeps: "page_at (b\<lparr>pager := SetRootPageId (pager b) r\<rparr>) = page_at b" "torn (b\<lparr>pager := SetRootPageId (pager b) r\<rparr>) = torn b"
proof -
  have "pfile (SetRootPageId q r) = pfile q" "verify_checksums (SetRootPageId q r) = verify_checksums q" for q by (simp_all add: SetRootPageId_def)
  then show "page_at (b\<lparr>pager := SetRootPageId (pager b) r\<rparr>) = page_at b" "torn (b\<lparr>pager := SetRootPageId (pager b) r\<rparr>) = torn b"
    by (simp_all add: page_at_def torn_def fun_eq_iff)
qed

definition root_after :: "LogRecord \<Rightarrow> PageId \<Rightarrow> PageId" where
  "root_after r root = (if rtype r = kRootChange then rpage r else root)"

lemma ApplyRecord_no_page:
  assumes "\<not> changes_page r" and "rtype r = kAllocPage \<Longrightarrow> rpage r \<noteq> kInvalidPageId" and "pool_ok b"
  shows "\<exists>s any b'. ApplyRecord r b = Some (s, any, b') \<and> (s = kOk \<or> io_error s) \<and> (s = kOk \<longrightarrow>
    pool_ok b' \<and> root_page_id (meta (pager b')) = root_after r (root_page_id (meta (pager b))) \<and> num_keys (meta (pager b')) = num_keys (meta (pager b)) \<and>
    (\<forall>j x. page_at b j x \<longrightarrow> page_at b' j x) \<and> (\<forall>j. torn b j \<longrightarrow> torn b' j) \<and> (\<forall>j. missing b j \<longrightarrow> missing b' j \<or> page_at b' j (Blank, 0)))"
proof (cases "rtype r = kAllocPage")
  case True
  obtain s b' where e: "ensure_page_exists (rpage r) b = Some (s, b')" "if s = kOk then extends b b' \<and> \<not> missing b' (rpage r) else io_error s"
    using ensure_page_exists_ok [OF assms(3) valid_page_id [OF assms(2) [OF True]]] by blast
  then have "ApplyRecord r b = Some (s, False, b')" using True by (simp add: ApplyRecord_def)
  then show ?thesis using e(2) True by (auto simp: extends_def root_after_def split: if_splits)
next
  case False
  then show ?thesis using assms by (cases "rtype r") (auto simp: ApplyRecord_def changes_page_def root_change_keeps root_after_def)
qed

subsection \<open>The redo pass\<close>

text \<open>One iteration of the loop, whatever the record.\<close>

lemma redo_step:
  assumes lg: "run_log P E rs" and inv: "pool_ok b" and up: "\<And>p. p \<in> P \<Longrightarrow> caught_up rs E j b p" and j: "j < length rs"
  shows "\<exists>s any b'. ApplyRecord (rs ! j) b = Some (s, any, b') \<and> (s = kOk \<or> io_error s) \<and> (s = kOk \<longrightarrow> pool_ok b' \<and>
    (\<forall>p \<in> P. caught_up rs E (Suc j) b' p) \<and> root_page_id (meta (pager b')) = root_after (rs ! j) (root_page_id (meta (pager b))) \<and>
    num_keys (meta (pager b')) = num_keys (meta (pager b)))"
proof (cases "changes_page (rs ! j)")
  case True
  then have t: "touches (rs ! j) (rpage (rs ! j))" "rpage (rs ! j) \<in> P" and rt: "rtype (rs ! j) \<noteq> kRootChange"
    using lg j by (auto simp: touches_def run_log_def changes_page_def)
  from caught_up_touched [OF lg t(2) up [OF t(2)] j t(1) inv] obtain s any b' where a:
    "ApplyRecord (rs ! j) b = Some (s, any, b')" "s = kOk \<or> io_error s" "s = kOk \<Longrightarrow> frame_rest b (rpage (rs ! j)) b'"
    "s = kOk \<Longrightarrow> caught_up rs E (Suc j) b' (rpage (rs ! j))" by blast
  have "caught_up rs E (Suc j) b' p" if "s = kOk" "p \<in> P" for p
    using a(3,4) that caught_up_untouched [OF up j, of p b'] by (cases "p = rpage (rs ! j)") (auto simp: frame_rest_def touches_def)
  then show ?thesis using a rt by (auto simp: frame_rest_def root_after_def)
next
  case False
  have "rpage (rs ! j) \<noteq> kInvalidPageId" if "rtype (rs ! j) = kAllocPage" using that lg j by (auto simp: run_log_def)
  from ApplyRecord_no_page [OF False this inv] show ?thesis
    using caught_up_untouched [OF up j] False by (fastforce simp: touches_def)
qed

lemma redo_from:
  assumes "run_log P E rs" and "pool_ok b" and "\<And>p. p \<in> P \<Longrightarrow> caught_up rs E j b p" and "j \<le> length rs"
  shows "\<exists>s any' b'. redo_loop (map (\<lambda>r. (r, True)) (drop j rs)) any b = Some (s, any', b') \<and> (s = kOk \<or> io_error s) \<and>
    (s = kOk \<longrightarrow> pool_ok b' \<and> (\<forall>p \<in> P. caught_up rs E (length rs) b' p) \<and>
      root_page_id (meta (pager b')) = fold root_after (drop j rs) (root_page_id (meta (pager b))) \<and> num_keys (meta (pager b')) = num_keys (meta (pager b)))"
  using assms(2-4)
proof (induction "length rs - j" arbitrary: j any b)
  case 0
  then show ?case by simp
next
  case (Suc m)
  have j: "j < length rs" using Suc.hyps(2) by simp
  have d: "drop j rs = rs ! j # drop (Suc j) rs" using j by (rule Cons_nth_drop_Suc [symmetric])
  from redo_step [OF assms(1) Suc.prems(1,2) j] obtain s any1 b1 where a: "ApplyRecord (rs ! j) b = Some (s, any1, b1)" "s = kOk \<or> io_error s"
    "s = kOk \<Longrightarrow> pool_ok b1" "\<And>p. s = kOk \<Longrightarrow> p \<in> P \<Longrightarrow> caught_up rs E (Suc j) b1 p"
    "s = kOk \<Longrightarrow> root_page_id (meta (pager b1)) = root_after (rs ! j) (root_page_id (meta (pager b)))"
    "s = kOk \<Longrightarrow> num_keys (meta (pager b1)) = num_keys (meta (pager b))" by blast
  show ?case
  proof (cases "s = kOk")
    case True
    from Suc.hyps(1) [of "Suc j" b1 "any \<or> any1"] show ?thesis using Suc.hyps(2) a True j by (simp add: d)
  next
    case False
    then show ?thesis using a by (simp add: d)
  qed
qed

text \<open>The records the analysis marked.\<close>

abbreviation selected :: "(LogRecord \<times> bool) list \<Rightarrow> LogRecord list" where
  "selected l \<equiv> map fst (filter snd l)"

lemma redo_loop_selected: "redo_loop l any b = redo_loop (map (\<lambda>r. (r, True)) (selected l)) any b"
proof (induction l any b rule: redo_loop.induct)
  case (2 r ap rs any b)
  then show ?case by (cases "ApplyRecord r b") auto
qed simp

text \<open>What a crash can leave of a page: a version, a torn write that some record is about, or no page yet.\<close>

definition crashed :: "LogRecord list \<Rightarrow> (PageId \<Rightarrow> page_state) \<Rightarrow> BufferPool \<Rightarrow> PageId \<Rightarrow> bool" where
  "crashed rs E b p \<longleftrightarrow> (\<exists>n \<le> length rs. page_at b p (history (take n rs) E p)) \<or> (torn b p \<and> (\<exists>r \<in> set rs. touches r p)) \<or>
     (missing b p \<and> E p = (Blank, 0))"

lemma redo_pass:
  assumes "pool_ok b" and "run_log P E (selected l)" and "\<And>p. p \<in> P \<Longrightarrow> crashed (selected l) E b p"
  shows "\<exists>s any b'. redo_loop l False b = Some (s, any, b') \<and> (if s = kOk then pool_ok b' \<and>
      (\<forall>p \<in> P. page_at b' p (history (selected l) E p) \<or> fst (history (selected l) E p) = Blank) \<and>
      root_page_id (meta (pager b')) = fold root_after (selected l) (root_page_id (meta (pager b))) \<and> num_keys (meta (pager b')) = num_keys (meta (pager b))
    else io_error s)"
proof -
  define rs where "rs = selected l"
  have "caught_up rs E 0 b p" if "p \<in> P" for p
    using assms(3) [OF that, folded rs_def] by (auto simp: caught_up_def crashed_def in_set_conv_nth)
  from redo_from [OF assms(2) [folded rs_def] assms(1) this, of False] obtain s any b' where
    r: "redo_loop (map (\<lambda>r. (r, True)) rs) False b = Some (s, any, b')" "s = kOk \<or> io_error s"
    "s = kOk \<Longrightarrow> pool_ok b'" "\<And>p. s = kOk \<Longrightarrow> p \<in> P \<Longrightarrow> caught_up rs E (length rs) b' p"
    "s = kOk \<Longrightarrow> root_page_id (meta (pager b')) = fold root_after rs (root_page_id (meta (pager b)))"
    "s = kOk \<Longrightarrow> num_keys (meta (pager b')) = num_keys (meta (pager b))" by auto
  have "page_at b' p (history rs E p) \<or> fst (history rs E p) = Blank" if "s = kOk" "p \<in> P" for p
    using r(4) [OF that] by (auto simp: caught_up_def)
  then show ?thesis using r unfolding redo_loop_selected [of l] rs_def [symmetric] by (intro exI [of _ s] exI [of _ any] exI [of _ b']) auto
qed

text \<open>
  C5: redo repeats history. Whatever mixture of page versions a crash leaves on disk, each page on its own at the version
  before, between or after any of its log records, torn by an unfinished write and then the subject of some record, or not
  there because the file had not grown yet: the redo pass over the log always returns; when it reports success every page, leaf or
  internal node, holds the version that the whole log describes, with the LSN of the last record about it, so that a record is
  neither lost nor applied twice, and the root is that of the last root change; otherwise it reports a storage error.
\<close>

theorem redo_converges:
  assumes "pool_ok b" and "run_log P E (selected l)" and "\<And>p. p \<in> P \<Longrightarrow> crashed (selected l) E b p"
  shows "\<exists>s any b'. redo_loop l False b = Some (s, any, b') \<and>
    (if s = kOk then pool_ok b' \<and> (\<forall>p \<in> P. page_at b' p (history (selected l) E p) \<or> fst (history (selected l) E p) = Blank) \<and>
       root_page_id (meta (pager b')) = fold root_after (selected l) (root_page_id (meta (pager b)))
     else io_error s)"
  using redo_pass [OF assms] by (fastforce split: if_splits)

theorem redo_converges_witness:
  "\<exists>s any b'. redo_loop [(LogRecord_init\<lparr>lsn := 5, rpage := 2, rkey := [97], rvalue := [1]\<rparr>, True), (LogRecord_init\<lparr>lsn := 6\<rparr>, False)]
       False (dirty_pool None) = Some (s, any, b') \<and> (s = kOk \<longrightarrow> page_at b' 2 (LeafPage [([97], [1])] kInvalidPageId, 5))"
proof -
  let ?r = "LogRecord_init\<lparr>lsn := 5, rpage := 2, rkey := [97], rvalue := [1]\<rparr>"
  let ?E = "\<lambda>_ :: PageId. (LeafPage [] kInvalidPageId, 0 :: Lsn)"
  have fp: "free_pages (dirty_pool None) []" by (simp add: free_pages_def dirty_pool_ok Meta_Init_def)
  then have "pool_ok (dirty_pool None)" using dirty_pool_ok(1) [of None] by (auto simp: pool_ok_def)
  moreover have "run_log {2} ?E [?r]"
    by (simp add: run_log_def LogRecord_init_def changes_page_def change_fits_def leaf_size_def kInvalidPageId_def)
  moreover have "leaf_rep (Page_Init 2 kLeaf) []" using InitLeaf_rep [of 2 kLeaf] by (simp add: InitLeaf_def Page_Init_def header_Init_def)
  then have "page_at (dirty_pool None) 2 (?E 2)"
    using live_pageI [OF fp, of 2] dirty_pool_ok(2,3) [of None]
    by (simp add: page_at_def data_page_def kFirstDataPage_def Meta_Init_def Page_Init_def header_Init_def kInvalidLsn_def GetNextLeaf_def)
  then have "crashed [?r] ?E (dirty_pool None) p" if "p \<in> {2}" for p using that by (auto simp: crashed_def intro!: exI [of _ 0])
  moreover have "history [?r] ?E 2 = (LeafPage [([97], [1])] kInvalidPageId, 5)" by (simp add: logged_def changes_page_def LogRecord_init_def after_def)
  ultimately show ?thesis
    using redo_converges [of "dirty_pool None" "{2}" ?E "[(?r, True), (LogRecord_init\<lparr>lsn := 6\<rparr>, False)]"] by (fastforce split: if_splits)
qed

subsection \<open>From pages to the tree\<close>

text \<open>The shapes of the pages describe a tree with a chain of leaves.\<close>

fun outlines :: "(PageId \<Rightarrow> shape) \<Rightarrow> ptree \<Rightarrow> bool" where
  "outlines S (Lf p es) = ((\<exists>nx. S p = LeafPage es nx) \<and> p \<noteq> kInvalidPageId)"
| "outlines S (Nd p ts t) = (S p = NodePage (roots ts) (troot t) \<and> p \<noteq> kInvalidPageId \<and> (\<forall>(s, c) \<in> set ts. outlines S c) \<and> outlines S t)"

fun chained :: "(PageId \<Rightarrow> shape) \<Rightarrow> PageId list \<Rightarrow> bool" where
  "chained S [] = True"
| "chained S (p # ps) = ((\<exists>es. S p = LeafPage es (case ps of [] \<Rightarrow> kInvalidPageId | q # _ \<Rightarrow> q)) \<and> chained S ps)"

definition describes :: "(PageId \<Rightarrow> shape) \<Rightarrow> PageId \<Rightarrow> ptree \<Rightarrow> bool" where
  "describes S root t \<longleftrightarrow> outlines S t \<and> bnd None None t \<and> distinct (pages t) \<and> chained S (leaf_ids t) \<and> root = troot t"

lemma outlines_rep: "outlines S t \<Longrightarrow> (\<And>p. p \<in> set (pages t) \<Longrightarrow> shaped (v p) (S p)) \<Longrightarrow> rep v t"
proof (induction t)
  case (Lf p es)
  then obtain nx where "S p = LeafPage es nx" "p \<noteq> kInvalidPageId" by auto
  then show ?case using Lf.prems(2) [of p] by simp
next
  case (Nd p ts t)
  have "rep v c" if "(s, c) \<in> set ts" for s c
    by (rule Nd.IH(1) [OF that, of c]) (use Nd.prems that in auto)
  moreover have "rep v t" using Nd.IH(2) Nd.prems by simp
  ultimately show ?case using Nd.prems(1) Nd.prems(2) [of p] by auto
qed

lemma chained_linked: "chained S ps \<Longrightarrow> (\<And>p. p \<in> set ps \<Longrightarrow> shaped (v p) (S p)) \<Longrightarrow> linked v ps kInvalidPageId"
  by (induction ps) fastforce+

lemma describes_tree:
  assumes "describes S (root_page_id (meta (pager b))) t" and "pool_ok b" and "\<And>p. p \<in> set (pages t) \<Longrightarrow> live_page b p \<and> shaped (pview b p) (S p)"
  shows "tree_ok b t"
  using assms outlines_rep [of S t "pview b"] chained_linked [of S "leaf_ids t" "pview b"] leaf_ids_pages [of t]
  by (auto simp: tree_ok_def describes_def)

lemma outlines_not_blank: "outlines S t \<Longrightarrow> p \<in> set (pages t) \<Longrightarrow> S p \<noteq> Blank"
proof (induction t)
  case (Nd q ts t)
  have "S p \<noteq> Blank" if "(s, c) \<in> set ts" "p \<in> set (pages c)" for s c
    by (rule Nd.IH(1) [OF that(1), of c]) (use Nd.prems that in auto)
  then show ?case using Nd.IH(2) Nd.prems by auto
qed auto

end
