(* ===== verification/Undo.thy ===== *)
theory Undo
  imports Recovery
begin

section \<open>The undo pass of recovery\<close>

text \<open>
  After redo the transactions in flight at the crash are rolled back through the tree, newest write first, and the keys are counted
  again. The interface between the rollback and the tree is the locale \<open>entry_store\<close>; it is interpreted on \<open>Put\<close> and \<open>Delete\<close> over
  trees whose key count may be off, which is what a crash leaves.
\<close>

subsection \<open>Rolling back over a store\<close>

fun undo_all :: "(key \<Rightarrow> bytes \<Rightarrow> 's \<Rightarrow> (Status \<times> 's) option) \<Rightarrow> (key \<Rightarrow> 's \<Rightarrow> (Status \<times> 's) option) \<Rightarrow> (key \<times> bytes option) list \<Rightarrow> 's \<Rightarrow> (Status \<times> 's) option" where
  "undo_all put del [] s = Some (kOk, s)"
| "undo_all put del ((k, bef) # us) s =
     Option.bind (case bef of Some v \<Rightarrow> put k v s | None \<Rightarrow> del k s) (\<lambda>(st, s).
       if st = kOk \<or> st = kNotFound \<and> bef = None then undo_all put del us s else Some (st, s))"

fun undo_room :: "('s \<Rightarrow> bool) \<Rightarrow> (key \<Rightarrow> bytes \<Rightarrow> 's \<Rightarrow> (Status \<times> 's) option) \<Rightarrow> (key \<Rightarrow> 's \<Rightarrow> (Status \<times> 's) option) \<Rightarrow>
    (key \<times> bytes option) list \<Rightarrow> 's \<Rightarrow> bool" where
  "undo_room space put del [] s = True"
| "undo_room space put del ((k, bef) # us) s =
     (space s \<and> (case (case bef of Some v \<Rightarrow> put k v s | None \<Rightarrow> del k s) of
        None \<Rightarrow> True | Some (st, s') \<Rightarrow> undo_room space put del us s'))"

abbreviation image_fits :: "key \<times> bytes option \<Rightarrow> bool" where
  "image_fits u \<equiv> 4 + length (fst u) + length (case snd u of Some v \<Rightarrow> v | None \<Rightarrow> []) \<le> 4048"

locale entry_store =
  fixes holds :: "'s \<Rightarrow> (key \<rightharpoonup> bytes) \<Rightarrow> bool"
    and space :: "'s \<Rightarrow> bool"
    and put :: "key \<Rightarrow> bytes \<Rightarrow> 's \<Rightarrow> (Status \<times> 's) option"
    and del :: "key \<Rightarrow> 's \<Rightarrow> (Status \<times> 's) option"
  assumes put_law: "holds s m \<Longrightarrow> space s \<Longrightarrow> 4 + length k + length v \<le> 4048 \<Longrightarrow>
      \<exists>st s'. put k v s = Some (st, s') \<and> (if st = kOk then holds s' (m(k \<mapsto> v)) else io_error st)"
    and del_law: "holds s m \<Longrightarrow> length k < 65000 \<Longrightarrow>
      \<exists>st s'. del k s = Some (st, s') \<and> (if st = kOk \<or> st = kNotFound then holds s' (m(k := None)) else io_error st)"
begin

lemma restore_one:
  assumes "holds s m" and "space s" and "image_fits (k, bef)"
  shows "\<exists>st s'. (case bef of Some v \<Rightarrow> put k v s | None \<Rightarrow> del k s) = Some (st, s') \<and>
    (if st = kOk \<or> st = kNotFound \<and> bef = None then holds s' (m(k := bef)) else io_error st)"
proof (cases bef)
  case None
  then have "length k < 65000" using assms(3) by simp
  from del_law [OF assms(1) this] show ?thesis unfolding None by (simp del: if_split)
next
  case (Some v)
  then have "4 + length k + length v \<le> 4048" using assms(3) by simp
  from put_law [OF assms(1,2) this] show ?thesis unfolding Some by (simp del: if_split)
qed

lemma undo_all_ok:
  assumes "holds s m" and "undo_room space put del us s" and "\<forall>u \<in> set us. image_fits u"
  shows "\<exists>st s'. undo_all put del us s = Some (st, s') \<and>
    (if st = kOk then holds s' (\<lambda>k. case map_of (rev us) k of Some bef \<Rightarrow> bef | None \<Rightarrow> m k) else io_error st)"
  using assms
proof (induction us arbitrary: s m)
  case (Cons u us)
  obtain k bef where u: "u = (k, bef)" by fastforce
  obtain st s1 where r: "(case bef of Some v \<Rightarrow> put k v s | None \<Rightarrow> del k s) = Some (st, s1)"
    "if st = kOk \<or> st = kNotFound \<and> bef = None then holds s1 (m(k := bef)) else io_error st"
    using restore_one [of s m k bef] Cons.prems u by auto
  show ?case
  proof (cases "st = kOk \<or> st = kNotFound \<and> bef = None")
    case True
    have "(\<lambda>j. case map_of (rev us) j of Some x \<Rightarrow> x | None \<Rightarrow> (m(k := bef)) j) =
        (\<lambda>j. case map_of (rev (u # us)) j of Some x \<Rightarrow> x | None \<Rightarrow> m j)"
      by (auto simp: u map_add_def fun_eq_iff split: option.split)
    moreover have "undo_all put del (u # us) s = undo_all put del us s1" using True r(1) u by simp
    moreover have "holds s1 (m(k := bef))" "undo_room space put del us s1" "\<forall>u \<in> set us. image_fits u" using True r Cons.prems u by auto
    ultimately show ?thesis using Cons.IH [of s1 "m(k := bef)"] by presburger
  next
    case False
    then have "undo_all put del (u # us) s = Some (st, s1)" "io_error st" using r u by auto
    then show ?thesis by (auto simp: io_error_def)
  qed
qed simp

end

subsection \<open>The tree as such a store\<close>

text \<open>The count is off by \<open>d\<close>; the log and the meta page evolve from those of \<open>b0\<close>, and no page stays pinned.\<close>

definition holds_off :: "u64 \<Rightarrow> BufferPool \<Rightarrow> BufferPool \<Rightarrow> (key \<rightharpoonup> bytes) \<Rightarrow> bool" where
  "holds_off d b0 b m \<longleftrightarrow> (\<exists>es. stored_off d b es \<and> map_of es = m) \<and> evolves b0 b \<and> PinCount b = PinCount b0"

abbreviation tree_put :: "TxId \<Rightarrow> key \<Rightarrow> bytes \<Rightarrow> BufferPool \<Rightarrow> (Status \<times> BufferPool) option" where
  "tree_put tx k v b \<equiv> map_option (\<lambda>(s, _, b). (s, b)) (Put k v tx False b)"

abbreviation tree_delete :: "TxId \<Rightarrow> key \<Rightarrow> BufferPool \<Rightarrow> (Status \<times> BufferPool) option" where
  "tree_delete tx k b \<equiv> map_option (\<lambda>(s, _, b). (s, b)) (Delete k tx False b)"

interpretation ts: entry_store "holds_off d b0" roomy "tree_put tx" "tree_delete tx"
proof
  fix b m and k v :: "8 word list" assume h: "holds_off d b0 b m" and r: "roomy b" and f: "4 + length k + length v \<le> 4048"
  then obtain es where es: "stored_off d b es" "map_of es = m" by (auto simp: holds_off_def)
  obtain s bef b' where p: "Put k v tx False b = Some (s, bef, b')"
    "if s = kOk then stored_off d b' (upsert k v es) \<and> PinCount b' = PinCount b else io_error s"
    using Put_stored [OF es(1) r, of k v tx False] f by (auto split: if_splits)
  have "evolves b b'" by (rule Put_evo [OF p(1) es(1)])
  then show "\<exists>st b'. tree_put tx k v b = Some (st, b') \<and> (if st = kOk then holds_off d b0 b' (m(k \<mapsto> v)) else io_error st)"
    using p h es(2) upsert_map [of k v es] evolves_trans by (auto simp: holds_off_def)
next
  fix b m k assume h: "holds_off d b0 b m" and k: "length (k :: key) < 65000"
  then obtain es where es: "stored_off d b es" "map_of es = m" by (auto simp: holds_off_def)
  obtain s bef b' where p: "Delete k tx False b = Some (s, bef, b')" "PinCount b' = PinCount b"
    "if s = kOk then stored_off d b' (remove_key k es) else stored_off d b' es \<and> (s = kNotFound \<and> map_of es k = None \<or> io_error s)"
    using Delete_stored [OF es(1), of k tx False] by (auto split: if_splits)
  have e: "evolves b0 b'" by (rule evolves_trans [OF _ Delete_stored_evo [OF p(1) k es(1)]]) (use h in \<open>simp add: holds_off_def\<close>)
  have "holds_off d b0 b' (m(k := None))" if "s = kOk \<or> s = kNotFound"
  proof (cases "s = kOk")
    case True
    then show ?thesis using p e es(2) remove_key_map [of k es] h by (auto simp: holds_off_def)
  next
    case False
    then have "stored_off d b' es" "m k = None" using that p(3) es(2) by (auto simp: io_error_def)
    then show ?thesis using p(2) e es(2) h by (auto simp: holds_off_def fun_upd_idem)
  qed
  then show "\<exists>st b'. tree_delete tx k b = Some (st, b') \<and> (if st = kOk \<or> st = kNotFound then holds_off d b0 b' (m(k := None)) else io_error st)"
    using p by (auto split: if_splits)
qed

subsection \<open>The rollback loop\<close>

text \<open>The records that are taken back and their before-images, in the order of the log.\<close>

definition taken_back :: "Lsn \<Rightarrow> (TxId \<Rightarrow> bool) \<Rightarrow> LogRecord \<times> bool \<Rightarrow> bool" where
  "taken_back ck loser = (\<lambda>(r, ap). ap \<and> ck \<le> lsn r \<and> loser (txid r) \<and> (rtype r = kPut \<or> rtype r = kDelete \<and> before r \<noteq> None))"

definition loser_images :: "Lsn \<Rightarrow> (TxId \<Rightarrow> bool) \<Rightarrow> (LogRecord \<times> bool) list \<Rightarrow> (key \<times> bytes option) list" where
  "loser_images ck loser l = map (\<lambda>(r, ap). (rkey r, before r)) (filter (taken_back ck loser) l)"

lemma undo_record_eq:
  "undo_record tx r b =
     (if rtype r = kPut \<or> rtype r = kDelete \<and> before r \<noteq> None then
        map_option (\<lambda>(s, b). if s = kOk \<or> s = kNotFound \<and> rtype r = kPut then (kOk, True, b) else (s, False, b))
          (case before r of Some v \<Rightarrow> tree_put tx (rkey r) v b | None \<Rightarrow> tree_delete tx (rkey r) b)
      else Some (kOk, False, b))"
  by (auto simp: undo_record_def option.map_comp comp_def case_prod_beta split: option.splits LogRecordType.splits intro!: option.map_cong)

text \<open>\<^verbatim>\<open>Put\<close> never reports NotFound, so both branches of the loop body are the same restoration.\<close>

lemma rollback_loop_undo_all:
  assumes "holds_off d b0 b m" and "undo_room roomy (tree_put tx) (tree_delete tx) (loser_images ck loser l) b"
    and "\<forall>u \<in> set (loser_images ck loser l). image_fits u"
  shows "\<exists>any'. rollback_loop ck loser tx l any b =
    map_option (\<lambda>(s, b). (s, any', b)) (undo_all (tree_put tx) (tree_delete tx) (loser_images ck loser l) b) \<and>
    (fst (the (undo_all (tree_put tx) (tree_delete tx) (loser_images ck loser l) b)) = kOk \<longrightarrow> any' = (any \<or> loser_images ck loser l \<noteq> []))"
  using assms
proof (induction l arbitrary: any b m)
  case Nil
  then show ?case by (simp add: loser_images_def)
next
  case (Cons x l)
  obtain r ap where x: "x = (r, ap)" by fastforce
  show ?case
  proof (cases "taken_back ck loser x")
    case False
    then have "loser_images ck loser (x # l) = loser_images ck loser l" by (simp add: loser_images_def)
    moreover have "rollback_loop ck loser tx (x # l) any b = rollback_loop ck loser tx l any b"
      using False x by (auto simp: taken_back_def undo_record_eq not_less)
    ultimately show ?thesis using Cons by simp
  next
    case True
    let ?us = "loser_images ck loser l"
    have li: "loser_images ck loser (x # l) = (rkey r, before r) # ?us" using True x by (simp add: loser_images_def)
    have k: "rtype r = kPut \<or> rtype r = kDelete \<and> before r \<noteq> None" "ap \<and> \<not> lsn r < ck \<and> loser (txid r)"
      using True x by (auto simp: taken_back_def)
    have pr: "roomy b" "image_fits (rkey r, before r)" "\<forall>u \<in> set ?us. image_fits u" using Cons.prems(2,3) unfolding li by auto
    obtain s b1 where r1: "(case before r of Some v \<Rightarrow> tree_put tx (rkey r) v b | None \<Rightarrow> tree_delete tx (rkey r) b) = Some (s, b1)"
      "if s = kOk \<or> s = kNotFound \<and> before r = None then holds_off d b0 b1 (m(rkey r := before r)) else io_error s"
      using ts.restore_one [OF Cons.prems(1) pr(1,2), of tx] by blast
    have nf: "s = kNotFound \<Longrightarrow> before r = None" using r1(2) by (auto simp: io_error_def split: if_splits)
    have room: "undo_room roomy (tree_put tx) (tree_delete tx) ?us b1" using Cons.prems(2) r1(1) unfolding li by auto
    show ?thesis
    proof (cases "s = kOk \<or> s = kNotFound")
      case ok: True
      then have u: "undo_record tx r b = Some (kOk, True, b1)" using k(1) r1(1) nf by (auto simp: undo_record_eq)
      have "holds_off d b0 b1 (m(rkey r := before r))" using ok r1(2) nf by auto
      from Cons.IH [OF this room pr(3), of True] show ?thesis
        using ok nf u k(2) r1(1) li unfolding x by (auto 0 3)
    next
      case False
      then have "undo_record tx r b = Some (s, False, b1)" using k(1) r1(1) by (auto simp: undo_record_eq)
      then show ?thesis using False k(2) r1(1) li unfolding x by auto
    qed
  qed
qed

text \<open>Taking back newest first leaves, for every key, the before-image of the oldest record.\<close>

abbreviation rolled_back :: "Lsn \<Rightarrow> (TxId \<Rightarrow> bool) \<Rightarrow> (LogRecord \<times> bool) list \<Rightarrow> (key \<rightharpoonup> bytes) \<Rightarrow> key \<rightharpoonup> bytes" where
  "rolled_back ck loser l m \<equiv> \<lambda>k. case map_of (loser_images ck loser l) k of Some bef \<Rightarrow> bef | None \<Rightarrow> m k"

definition rollback_roomy :: "Lsn \<Rightarrow> (TxId \<Rightarrow> bool) \<Rightarrow> TxId \<Rightarrow> (LogRecord \<times> bool) list \<Rightarrow> BufferPool \<Rightarrow> bool" where
  "rollback_roomy ck loser tx l b = undo_room roomy (tree_put tx) (tree_delete tx) (rev (loser_images ck loser l)) b"

lemma loser_images_rev: "loser_images ck loser (rev l) = rev (loser_images ck loser l)"
  by (simp add: loser_images_def rev_filter rev_map)

lemma rollback_loop_ok:
  assumes h: "holds_off d b0 b m" and r: "rollback_roomy ck loser tx l b" and f: "\<forall>u \<in> set (loser_images ck loser l). image_fits u"
  shows "\<exists>s any' b'. rollback_loop ck loser tx (rev l) any b = Some (s, any', b') \<and>
    (if s = kOk then holds_off d b0 b' (rolled_back ck loser l m) \<and> any' = (any \<or> loser_images ck loser l \<noteq> []) else io_error s)"
proof -
  note li = loser_images_rev [of ck loser l] and r' = r [unfolded rollback_roomy_def]
  obtain s b' where u: "undo_all (tree_put tx) (tree_delete tx) (rev (loser_images ck loser l)) b = Some (s, b')"
    "if s = kOk then holds_off d b0 b' (rolled_back ck loser l m) else io_error s"
    using ts.undo_all_ok [OF h r'] f unfolding rev_rev_ident set_rev by blast
  obtain any' where "rollback_loop ck loser tx (rev l) any b = Some (s, any', b')" "s = kOk \<longrightarrow> any' = (any \<or> loser_images ck loser l \<noteq> [])"
    using rollback_loop_undo_all [OF h, of tx ck loser "rev l" any, unfolded li, OF r'] f u(1) by auto
  with u(2) show ?thesis by (intro exI [of _ s] exI [of _ any'] exI [of _ b']) simp
qed

lemma rollback_loop_nothing: "loser_images ck loser l = [] \<Longrightarrow> rollback_loop ck loser tx l any b = Some (kOk, any, b)"
  by (induction l) (auto simp: loser_images_def taken_back_def undo_record_eq not_less split: if_splits)

subsection \<open>The recount\<close>

lemma count_loop_ok:
  assumes "cursor_at b es c L"
  shows "\<exists>c' n' b'. count_loop c n b = Some (c', n', b') \<and> pc.reads b b' \<and> PinCount b' = PinCount b \<and>
    (cstatus c' = kOk \<and> n' = n + of_nat (length L) \<or> io_error (cstatus c'))"
  using assms
proof (induction L arbitrary: b c n)
  case Nil
  then show ?case using cursor_at_facts(2) [OF Nil] pc.reads_refl [OF cursor_at_facts(1) [OF Nil]] by (simp add: count_loop.simps)
next
  case (Cons e L)
  obtain k v where e: "e = (k, v)" by fastforce
  obtain c1 b1 where x: "Next c b = Some (c1, b1)" "pc.reads b b1" "PinCount b1 = PinCount b"
    "cursor_at b1 es c1 L \<or> \<not> cvalid c1 \<and> io_error (cstatus c1)" using Next_stored [OF Cons.prems] by blast
  have s: "count_loop c n b = count_loop c1 (n + 1) b1"
    using cursor_at_facts(3) [OF Cons.prems [unfolded e]] x(1) by (subst count_loop.simps) simp
  from x(4) show ?case
  proof
    assume "cursor_at b1 es c1 L"
    from Cons.IH [OF this, of "n + 1"] obtain c' n' b' where "count_loop c1 (n + 1) b1 = Some (c', n', b')" "pc.reads b1 b'"
      "PinCount b' = PinCount b1" "cstatus c' = kOk \<and> n' = n + 1 + of_nat (length L) \<or> io_error (cstatus c')" by blast
    then show ?thesis using s pc.reads_trans [OF x(2)] x(3) by (auto simp: algebra_simps)
  next
    assume "\<not> cvalid c1 \<and> io_error (cstatus c1)"
    then show ?thesis using s x by (simp add: count_loop.simps)
  qed
qed

lemma stored_SetNumKeys:
  assumes "stored_off d b es"
  shows "stored_off (n - of_nat (length es)) (b\<lparr>pager := SetNumKeys (pager b) n\<rparr>) es"
proof -
  have "SetNumKeys (pager b) n = AddToNumKeys (pager b) (uint (n - num_keys (meta (pager b))))"
    by (simp add: SetNumKeys_def AddToNumKeys_def)
  then show ?thesis using assms by (auto simp: stored_off_def tree_ok_def IsEmpty_def)
qed

text \<open>Reading with a cursor may flush the log but appends nothing to it.\<close>

lemma SkipToLiveEntry_evo [evo]:
  assumes "SkipToLiveEntry c b = Some (c', b')" and "evolves a b"
  shows "evolves a b'"
proof -
  have "evolves a b \<longrightarrow> evolves a (snd (c', b'))"
    using assms(1)
  proof (rule SkipToLiveEntry.raw_induct [rotated])
    fix rec c b and x :: "Cursor \<times> BufferPool"
    assume IH: "\<And>c b x. rec c b = Some x \<Longrightarrow> evolves a b \<longrightarrow> evolves a (snd x)"
      and "(if cindex c < NumKeys (cpage c) then Some (c, b)
        else let next = GetNextLeaf (cpage c) in
          if next = kInvalidPageId then Some (c\<lparr>cvalid := False\<rparr>, b)
          else case FetchPageInternal b next of (r, b) \<Rightarrow>
            case r of Inl s \<Rightarrow> Some (c\<lparr>cvalid := False, cstatus := s\<rparr>, b)
            | Inr g \<Rightarrow> let c = c\<lparr>cpage := gpage b g\<rparr>; b = ReleaseGuard b g in
                if \<not> IsLeaf (cpage c) then Some (c\<lparr>cvalid := False, cstatus := kCorruption\<rparr>, b)
                else rec (c\<lparr>cindex := 0\<rparr>) b) = Some x"
    then show "evolves a b \<longrightarrow> evolves a (snd x)"
      by (auto simp: Let_def split: if_splits prod.splits sum.splits dest: evo dest!: IH)
  qed
  then show ?thesis using assms(2) by simp
qed

lemma descend_first_evo [evo]:
  assumes "descend_first g b = Some (r, b')" and "evolves a b"
  shows "evolves a b'"
proof -
  have "evolves a b \<longrightarrow> evolves a (snd (r, b'))"
    using assms(1)
  proof (rule descend_first.raw_induct [rotated])
    fix rec g b and x :: "FrameId Result \<times> BufferPool"
    assume IH: "\<And>g b x. rec g b = Some x \<Longrightarrow> evolves a b \<longrightarrow> evolves a (snd x)"
      and "(if IsLeaf (gpage b g) then Some (Inr g, b)
        else let child = if 0 < NumKeys (gpage b g) then GetChild (gpage b g) 0 else GetRightmostChild (gpage b g) in
          if child = kInvalidPageId then Some (Inl kInternal, ReleaseGuard b g)
          else case FetchPageInternal b child of (r, b) \<Rightarrow>
            let b = ReleaseGuard b g in case r of Inl s \<Rightarrow> Some (Inl s, b) | Inr c \<Rightarrow> rec c b) = Some x"
    then show "evolves a b \<longrightarrow> evolves a (snd x)"
      by (auto simp: Let_def split: if_splits prod.splits sum.splits dest: evo dest!: IH)
  qed
  then show ?thesis using assms(2) by simp
qed

lemma MoveTo_evo [evo]: "MoveTo c pid i b = Some (c', b') \<Longrightarrow> evolves a b \<Longrightarrow> evolves a b'"
  by (auto simp: MoveTo_def split: prod.splits sum.splits elim!: SkipToLiveEntry_evo dest: FetchPageInternal_evo)

lemma Next_evo [evo]: "Next c b = Some (c', b') \<Longrightarrow> evolves a b \<Longrightarrow> evolves a b'"
  by (auto simp: Next_def split: if_splits dest: evo)

lemma SeekToFirst_evo [evo]:
  assumes "SeekToFirst b = Some (c, b')" and "evolves a b"
  shows "evolves a b'"
proof (cases "IsEmpty b")
  case False
  obtain x b1 where f: "FetchPageInternal b (root_page_id (meta (pager b))) = (x, b1)" by fastforce
  show ?thesis
  proof (cases x)
    case (Inr g)
    then obtain y b2 where y: "descend_first g b1 = Some (y, b2)" using assms(1) False f by (auto simp: SeekToFirst_def Option.bind_eq_Some_conv)
    have "evolves a b2" by (rule descend_first_evo [OF y FetchPageInternal_evo [OF f assms(2)]])
    then show ?thesis using assms(1) False f Inr y by (cases y) (auto simp: SeekToFirst_def Let_def elim!: MoveTo_evo)
  qed (use assms False f FetchPageInternal_evo in \<open>auto simp: SeekToFirst_def\<close>)
qed (use assms in \<open>simp add: SeekToFirst_def\<close>)

lemma count_loop_evo [evo]:
  assumes "count_loop c n b = Some (c', n', b')" and "evolves a b"
  shows "evolves a b'"
proof -
  have "evolves a b \<longrightarrow> evolves a (snd (snd (c', n', b')))"
    using assms(1)
  proof (rule count_loop.raw_induct [rotated])
    fix rec c n b and x :: "Cursor \<times> u64 \<times> BufferPool"
    assume IH: "\<And>c n b x. rec c n b = Some x \<Longrightarrow> evolves a b \<longrightarrow> evolves a (snd (snd x))"
      and "(if \<not> cvalid c then Some (c, n, b) else Option.bind (Next c b) (\<lambda>(c, b). rec c (n + 1) b)) = Some x"
    then show "evolves a b \<longrightarrow> evolves a (snd (snd x))"
      by (auto simp: Option.bind_eq_Some_conv split: if_splits prod.splits dest: evo dest!: IH)
  qed
  then show ?thesis using assms(2) by simp
qed

lemma recount_ok:
  assumes st: "stored_off d b es"
  shows "\<exists>s b'. recount b = Some (s, b') \<and> (s = kOk \<and> stored b' es \<and> PinCount b' = PinCount b \<and> evolves b b' \<or> io_error s)"
proof -
  obtain c b1 where k: "SeekToFirst b = Some (c, b1)" "pc.reads b b1" "PinCount b1 = PinCount b"
    "cursor_at b1 es c es \<or> \<not> cvalid c \<and> io_error (cstatus c)" using SeekToFirst_stored [OF st] by blast
  from k(4) show ?thesis
  proof
    assume "cursor_at b1 es c es"
    from count_loop_ok [OF this, of 0] obtain c' n' b2 where l: "count_loop c 0 b1 = Some (c', n', b2)" "pc.reads b1 b2" "PinCount b2 = PinCount b1"
      "cstatus c' = kOk \<and> n' = of_nat (length es) \<or> io_error (cstatus c')" by auto
    have "stored_off d b2 es" by (rule stored_reads [OF st pc.reads_trans [OF k(2) l(2)]])
    note s = stored_SetNumKeys [OF this, of "of_nat (length es)"]
    have e: "recount b = Some (if cstatus c' \<noteq> kOk then (cstatus c', b2) else (kOk, b2\<lparr>pager := SetNumKeys (pager b2) n'\<rparr>))"
      using k(1) l(1) by (simp add: recount_def)
    have "evolves b b2" by (rule count_loop_evo [OF l(1) SeekToFirst_evo [OF k(1) evolves_refl]])
    then have "evolves b (b2\<lparr>pager := SetNumKeys (pager b2) n\<rparr>)" for n
      using evolves_same [of "b2\<lparr>pager := SetNumKeys (pager b2) n\<rparr>" b2 b] by (simp add: SetNumKeys_def)
    moreover have "PinCount (b2\<lparr>pager := SetNumKeys (pager b2) n\<rparr>) = PinCount b2" for n by (simp add: PinCount_def [abs_def] cong: option.case_cong)
    ultimately show ?thesis using e s l(3,4) k(3) by (auto simp: io_error_def)
  next
    assume "\<not> cvalid c \<and> io_error (cstatus c)"
    then show ?thesis using k(1) by (auto simp: recount_def count_loop.simps io_error_def)
  qed
qed

subsection \<open>Properties\<close>

text \<open>
  C8: recovery takes back the writes of the transactions in flight. On any stored tree, even one whose key count is off, the undo
  pass over the log, newest record first, returns; when it reports success, every key that a complete operation of such a
  transaction wrote past the checkpoint has the before-image of the oldest of these records, every other key keeps its
  value, and no page stays pinned; otherwise a storage error is reported.
\<close>

theorem rollback_undoes_losers:
  assumes "stored_off d b es" and "rollback_roomy ck loser tx l b" and "\<forall>u \<in> set (loser_images ck loser l). image_fits u"
  shows "\<exists>s any' b'. rollback_loop ck loser tx (rev l) any b = Some (s, any', b') \<and> (if s = kOk then PinCount b' = PinCount b \<and>
      (\<exists>es'. stored_off d b' es' \<and> (\<forall>k. map_of es' k = (case map_of (loser_images ck loser l) k of Some bef \<Rightarrow> bef | None \<Rightarrow> map_of es k)))
    else io_error s)"
proof -
  have "holds_off d b b (map_of es)" using assms(1) evolves_refl by (auto simp: holds_off_def)
  from rollback_loop_ok [OF this assms(2,3)] obtain s any' b' where r: "rollback_loop ck loser tx (rev l) any b = Some (s, any', b')"
    "if s = kOk then holds_off d b b' (rolled_back ck loser l (map_of es)) \<and> any' = (any \<or> loser_images ck loser l \<noteq> []) else io_error s" by blast
  then show ?thesis by (cases "s = kOk") (auto simp: holds_off_def)
qed

theorem rollback_undoes_losers_witness:
  "\<exists>s any' b'. rollback_loop 0 (\<lambda>_. True) 9 [(LogRecord_init\<lparr>rtype := kPut, txid := 1, op_end := True, rkey := [107], rvalue := [118]\<rparr>, True)]
       False (store1 [107] [118]) = Some (s, any', b') \<and> (s = kOk \<longrightarrow> (\<exists>es'. stored b' es' \<and> map_of es' [107] = None))"
proof -
  let ?l = "[(LogRecord_init\<lparr>rtype := kPut, txid := 1, op_end := True, rkey := [107 :: byte], rvalue := [118]\<rparr>, True)]"
  have i: "loser_images 0 (\<lambda>_. True) ?l = [([107], None)]" by (simp add: loser_images_def taken_back_def LogRecord_init_def)
  have st: "stored (store1 [107] [118]) [([107], [118])]" "roomy (store1 [107] [118])" using store1_ok [of "[107]" "[118]"] by simp_all
  have "rollback_roomy 0 (\<lambda>_. True) 9 ?l (store1 [107] [118])" using st(2) by (auto simp: rollback_roomy_def i split: option.splits)
  moreover have "\<forall>u \<in> set (loser_images 0 (\<lambda>_. True) ?l). image_fits u" by (simp add: i)
  ultimately obtain s any' b' where "rollback_loop 0 (\<lambda>_. True) 9 (rev ?l) False (store1 [107] [118]) = Some (s, any', b')"
    "s = kOk \<Longrightarrow> \<exists>es'. stored b' es' \<and> (\<forall>k. map_of es' k = (case map_of (loser_images 0 (\<lambda>_. True) ?l) k of Some bef \<Rightarrow> bef | None \<Rightarrow> map_of [([107], [118])] k))"
    using rollback_undoes_losers [OF st(1), of 0 "\<lambda>_. True" 9 ?l False] by (auto split: if_splits)
  then show ?thesis unfolding i by fastforce
qed

end
