(* ===== verification/Recovered.thy ===== *)
theory Recovered
  imports Redo Undo
begin

section \<open>Recovery as a whole\<close>

text \<open>
  The two passes, the recount and the closing checkpoint together: from the pages a crash left behind and the log, to a tree that
  holds the logged entries without the writes of the transactions in flight.
\<close>

subsection \<open>Recovery and the log\<close>

lemma ensure_page_exists_evo [evo]:
  assumes "ensure_page_exists pid b = Some (s, b')" and "evolves a b"
  shows "evolves a b'"
proof -
  have "evolves a b \<longrightarrow> evolves a (snd (s, b'))"
    using assms(1)
  proof (rule ensure_page_exists.raw_induct [rotated])
    fix rec pid b and x :: "Status \<times> BufferPool"
    assume IH: "\<And>pid b x. rec pid b = Some x \<Longrightarrow> evolves a b \<longrightarrow> evolves a (snd x)"
      and e: "(if missing b pid then let n = num_pages (meta (pager b)) in
          case AllocatePage (pager b) (io b) of (r, p, i) \<Rightarrow>
            let b = b\<lparr>pager := p, io := i\<rparr> in
            case r of Inl s \<Rightarrow> Some (s, b) | Inr _ \<Rightarrow> if num_pages (meta (pager b)) = n then Some (kCorruption, b) else rec pid b
        else Some (kOk, b)) = Some x"
    obtain r p i where al: "AllocatePage (pager b) (io b) = (r, p, i)" by (metis prod_cases3)
    have "mreserved (meta p) = mreserved (meta (pager b))"
      using al by (auto simp: AllocatePage_def Let_def split: if_splits prod.splits sum.splits)
    then have "evolves a b \<Longrightarrow> evolves a (b\<lparr>pager := p, io := i\<rparr>)" using evolves_same [of "b\<lparr>pager := p, io := i\<rparr>" b a] by simp
    then show "evolves a b \<longrightarrow> evolves a (snd x)"
      using e al by (auto simp: Let_def split: if_splits sum.splits dest!: IH)
  qed
  then show ?thesis using assms(2) by simp
qed

lemma redo_at_evo [evo]: "redo_at g r f b = (s, any, b') \<Longrightarrow> evolves a b \<Longrightarrow> evolves a b'"
  by (auto simp: redo_at_def Let_def split: if_splits prod.splits)

lemma redo_image_evo [evo]:
  assumes "redo_image r b = (s, any, b')" and a: "evolves a b"
  shows "evolves a b'"
proof -
  obtain x b1 where ft: "FetchPageInternal b (rpage r) = (x, b1)" by fastforce
  have a1: "evolves a b1" by (rule FetchPageInternal_evo [OF ft a])
  obtain s2 pg p i where w: "WritePage (pager b1) (rpage r) (page_of_bytes (rvalue r)) (io b1) = (s2, pg, p, i)" by (metis prod_cases4)
  have "meta p = meta (pager b1)" using w by (auto simp: WritePage_def Let_def split: if_splits prod.splits sum.splits)
  then have "evolves a (b1\<lparr>pager := p, io := i\<rparr>)" using a1 evolves_same [of "b1\<lparr>pager := p, io := i\<rparr>" b1 a] by simp
  then show ?thesis using assms(1) ft w a1 redo_at_evo by (auto simp: redo_image_def split: sum.splits if_splits)
qed

lemma redo_page_evo [evo]: "redo_page r f b = (s, any, b') \<Longrightarrow> evolves a b \<Longrightarrow> evolves a b'"
  by (auto simp: redo_page_def split: prod.splits sum.splits dest: evo)

lemma ApplyRecord_evo [evo]:
  assumes "ApplyRecord r b = Some (s, any, b')" and "evolves a b"
  shows "evolves a b'"
  using assms by (auto simp: ApplyRecord_def split: LogRecordType.splits if_splits prod.splits dest: evo)

lemma redo_loop_evo [evo]: "redo_loop l any b = Some (s, any', b') \<Longrightarrow> evolves a b \<Longrightarrow> evolves a b'"
proof (induction l arbitrary: any b)
  case (Cons x l)
  obtain r ap where x: "x = (r, ap)" by fastforce
  show ?case
  proof (cases ap)
    case True
    then obtain s1 any1 b1 where a: "ApplyRecord r b = Some (s1, any1, b1)" using Cons.prems(1) x by (auto simp: Option.bind_eq_Some_conv)
    have "evolves a b1" by (rule ApplyRecord_evo [OF a Cons.prems(2)])
    then show ?thesis using Cons x True a by (auto split: if_splits)
  qed (use Cons x in auto)
qed simp

subsection \<open>What the log and the pages hold\<close>

definition marked_log :: "DbImpl \<Rightarrow> LogRecord list \<Rightarrow> (LogRecord \<times> bool) list" where
  "marked_log db rs = zip rs (applicable (checkpoint_lsn (meta (pager (pool db)))) rs)"

text \<open>The last versions of the pages \<open>P\<close> form a tree with the entries \<open>es\<close>, or there is no root.\<close>

definition log_holds :: "PageId set \<Rightarrow> (PageId \<Rightarrow> shape) \<Rightarrow> PageId \<Rightarrow> (key \<times> bytes) list \<Rightarrow> bool" where
  "log_holds P S root es \<longleftrightarrow> root = kInvalidPageId \<and> es = [] \<or> (\<exists>t. describes S root t \<and> set (pages t) \<subseteq> P \<and> entries t = es)"

lemma redo_stores:
  assumes "pool_ok b" and "run_log P E (selected l)" and "\<And>p. p \<in> P \<Longrightarrow> crashed (selected l) E b p"
    and "log_holds P (fst \<circ> history (selected l) E) (fold root_after (selected l) (root_page_id (meta (pager b)))) es"
  shows "\<exists>s any b'. redo_loop l False b = Some (s, any, b') \<and>
    (if s = kOk then \<exists>d. stored_off d b' es else io_error s)"
proof -
  obtain s any b' where r: "redo_loop l False b = Some (s, any, b')" "if s = kOk then pool_ok b' \<and>
      (\<forall>p \<in> P. page_at b' p (history (selected l) E p) \<or> fst (history (selected l) E p) = Blank) \<and>
      root_page_id (meta (pager b')) = fold root_after (selected l) (root_page_id (meta (pager b))) \<and> num_keys (meta (pager b')) = num_keys (meta (pager b))
    else io_error s" using redo_pass [OF assms(1-3)] by blast
  show ?thesis
  proof (cases "s = kOk")
    case True
    define S where "S = fst \<circ> history (selected l) E"
    have ok: "pool_ok b'" and at: "p \<in> P \<Longrightarrow> page_at b' p (history (selected l) E p) \<or> S p = Blank"
      and h: "log_holds P S (root_page_id (meta (pager b'))) es" for p using r(2) True assms(4) by (auto simp: S_def)
    from h have "(pool_ok b' \<and> IsEmpty b' \<and> es = []) \<or> (\<exists>t. tree_ok b' t \<and> entries t = es)"
      unfolding log_holds_def
    proof (elim disjE exE conjE)
      fix t assume d: "describes S (root_page_id (meta (pager b'))) t" and P: "set (pages t) \<subseteq> P" and e: "entries t = es"
      have "live_page b' p \<and> shaped (pview b' p) (S p)" if "p \<in> set (pages t)" for p
        using at [of p] that P outlines_not_blank [of S t p] d by (auto simp: describes_def page_at_def S_def)
      then show ?thesis using describes_tree [OF d ok] e by blast
    qed (use ok in \<open>simp add: IsEmpty_def\<close>)
    then have "stored_off (num_keys (meta (pager b')) - of_nat (length es)) b' es" by (simp add: stored_off_def)
    then show ?thesis using r(1) True by auto
  qed (use r in auto)
qed

subsection \<open>The passes in sequence\<close>

abbreviation ckpt :: "DbImpl \<Rightarrow> Lsn" where
  "ckpt db \<equiv> checkpoint_lsn (meta (pager (pool db)))"

abbreviation undo_images :: "DbImpl \<Rightarrow> LogRecord list \<Rightarrow> (key \<times> bytes option) list" where
  "undo_images db rs \<equiv> loser_images (ckpt db) (is_loser (ckpt db) rs) (marked_log db rs)"

text \<open>Before-images fit a page and the tree does not run out of page ids on the way back.\<close>

definition undoable :: "DbImpl \<Rightarrow> LogRecord list \<Rightarrow> bool" where
  "undoable db rs \<longleftrightarrow> (\<forall>u \<in> set (undo_images db rs). image_fits u) \<and>
     (\<forall>any b. redo_loop (marked_log db rs) False (pool db) = Some (kOk, any, b) \<longrightarrow>
        rollback_roomy (ckpt db) (is_loser (ckpt db) rs) (fst (Txn_Begin (txn_manager db))) (marked_log db rs) b)"

lemma Recover_after_redo:
  assumes r: "redo_loop (marked_log db rs) False (pool db) = Some (kOk, any, b)" and st: "stored_off d b es" and u: "undoable db rs"
  shows "\<exists>s db'. Recover rs db = Some (s, db') \<and> (if s = kOk then
      evolves b (pool db') \<and> PinCount (pool db') = PinCount b \<and> (\<exists>es'. map_of es' = rolled_back (ckpt db) (is_loser (ckpt db) rs) (marked_log db rs) (map_of es) \<and>
        (if any \<or> undo_images db rs \<noteq> [] then stored (pool db') es' else es' = es \<and> pool db' = b))
    else io_error s)"
proof -
  let ?ck = "ckpt db" let ?l = "marked_log db rs" let ?lo = "is_loser ?ck rs"
  obtain tx tm where t: "Txn_Begin (txn_manager db) = (tx, tm)" by fastforce
  have h: "holds_off d b b (map_of es)" using st evolves_refl by (auto simp: holds_off_def)
  have rm: "rollback_roomy ?ck ?lo tx ?l b" and fit: "\<forall>u \<in> set (loser_images ?ck ?lo ?l). image_fits u" using u r t by (auto simp: undoable_def)
  obtain s1 any1 b1 where rb: "rollback_loop ?ck ?lo tx (rev ?l) any b = Some (s1, any1, b1)"
    "if s1 = kOk then holds_off d b b1 (rolled_back ?ck ?lo ?l (map_of es)) \<and> any1 = (any \<or> loser_images ?ck ?lo ?l \<noteq> []) else io_error s1"
    using rollback_loop_ok [OF h rm fit] by blast
  show ?thesis
  proof (cases "s1 = kOk")
    case False
    then have "Recover rs db = Some (s1, db\<lparr>txn_manager := tm, pool := b1\<rparr>)" using r t rb(1) by (simp add: Recover_def marked_log_def Let_def)
    then show ?thesis using rb(2) False by auto
  next
    case True
    then obtain es1 where e1: "stored_off d b1 es1" "map_of es1 = rolled_back ?ck ?lo ?l (map_of es)" and
      v: "evolves b b1" "PinCount b1 = PinCount b" and a1: "any1 = (any \<or> loser_images ?ck ?lo ?l \<noteq> [])" using rb(2) by (auto simp: holds_off_def)
    show ?thesis
    proof (cases any1)
      case a: True
      obtain s2 b2 where rc: "recount b1 = Some (s2, b2)" "s2 = kOk \<and> stored b2 es1 \<and> PinCount b2 = PinCount b1 \<and> evolves b1 b2 \<or> io_error s2"
        using recount_ok [OF e1(1)] by blast
      have "Recover rs db = Some (s2, db\<lparr>txn_manager := tm, pool := b2\<rparr>)" using r t rb(1) True a rc(1) by (simp add: Recover_def marked_log_def Let_def)
      then show ?thesis using rc(2) e1(2) v evolves_trans [OF v(1)] a a1 by (auto simp: io_error_def)
    next
      case a: False
      have nl: "loser_images ?ck ?lo ?l = []" using a a1 by simp
      have "rollback_loop ?ck ?lo tx (rev ?l) any b = Some (kOk, any, b)"
        by (rule rollback_loop_nothing) (simp add: loser_images_rev nl)
      then have "b1 = b" using rb(1) by simp
      have "Recover rs db = Some (kOk, db\<lparr>txn_manager := tm, pool := b1\<rparr>)" using r t rb(1) True a by (simp add: Recover_def marked_log_def Let_def)
      then show ?thesis using v e1 a a1 nl \<open>b1 = b\<close> by auto
    qed
  qed
qed

subsection \<open>The closing checkpoint\<close>

lemma Checkpoint_settles:
  assumes ok: "pool_ok (pool db)" and res: "length (mreserved (meta (pager (pool db)))) = 4048" and n: "active_begun_txns db \<le> 0"
    and ck: "Checkpoint db = (kOk, db')"
  shows "same_store (pool db) (pool db')" and "data_synced (pool db')" and "meta_synced (pool db')" and "log_emptied (pool db')"
proof -
  show st: "same_store (pool db) (pool db')" by (rule CheckpointLocked_store [OF ok res ck [unfolded Checkpoint_def]])
  show "log_emptied (pool db')" by (rule Checkpoint_empties [OF ck n])
  obtain b1 where c: "checkpoint_pages (pool db) = (kOk, b1)" and g: "checkpoint_log b1 = (kOk, pool db')"
    using ck n by (auto simp: Checkpoint_def CheckpointLocked_def Let_def split: if_splits prod.splits)
  note p = checkpoint_pages_ok [OF ok c]
  let ?r = "LogRecord_init\<lparr>rtype := kCheckpoint, op_end := True\<rparr>"
  obtain s2 b2 where a: "wal_append ?r b1 = (s2, b2)" by fastforce
  obtain b3 b5 where f: "wal_flush b2 = (kOk, b3)" and ps: "pager_sync (b3\<lparr>pager := SetCheckpointLsn (pager b3) (wal_end b3)\<rparr>) = (kOk, b5)"
    and t: "wal_truncate (wal_end b3) b5 = (kOk, pool db')"
    using g a by (auto simp: checkpoint_log_def andthen_def Let_def split: if_splits prod.splits)
  note wa = wal_append_ok [OF same_store_ok [OF p(1)] a]
  note wf = wal_flush_ok [OF same_store_ok [OF wa(2)] f]
  note c = SetCheckpointLsn_ok [OF same_store_ok [OF wf(1)], of "wal_end b3"]
  have d: "data_synced b3" by (rule data_synced_same [OF p(4)]) (use wa(3) wf(2) wal_ops_view(1) [OF f] wal_ops_view(2) [OF a] in simp_all)
  have r: "length (mreserved (meta (pager (b3\<lparr>pager := SetCheckpointLsn (pager b3) (wal_end b3)\<rparr>)))) = 4048"
    using res p(3) wa(3) wf(2) by (simp add: SetCheckpointLsn_def)
  note sy = pager_sync_ok [OF same_store_ok [OF c(1)] r ps]
  note t' = wal_truncate_ok [OF same_store_ok [OF sy(1)] t]
  have "data_synced b5" "meta_synced b5" using sy(4) c(2) [OF d] by simp_all
  then show "data_synced (pool db')" "meta_synced (pool db')"
    using data_synced_same [of b5 "pool db'"] t'(2) wal_ops_view(3) [OF t] by (simp_all add: meta_synced_def)
qed

subsection \<open>Properties\<close>

text \<open>
  What a crash leaves: the pages \<open>P\<close> in any mixture of their versions since \<open>E\<close>, and a log \<open>rs\<close> whose complete operations
  lead from \<open>E\<close> to a tree with the entries \<open>es\<close>.
\<close>

definition crash_state :: "PageId set \<Rightarrow> (PageId \<Rightarrow> page_state) \<Rightarrow> LogRecord list \<Rightarrow> DbImpl \<Rightarrow> (key \<times> bytes) list \<Rightarrow> bool" where
  "crash_state P E rs db es \<longleftrightarrow> pool_ok (pool db) \<and> run_log P E (selected (marked_log db rs)) \<and>
     (\<forall>p \<in> P. crashed (selected (marked_log db rs)) E (pool db) p) \<and>
     log_holds P (fst \<circ> history (selected (marked_log db rs)) E)
       (fold root_after (selected (marked_log db rs)) (root_page_id (meta (pager (pool db))))) es"

lemma Recover_ok:
  assumes "crash_state P E rs db es" and "undoable db rs"
  shows "\<exists>s db'. Recover rs db = Some (s, db') \<and> (if s = kOk then evolves (pool db) (pool db') \<and> (\<exists>es' d. stored_off d (pool db') es' \<and>
      (\<forall>k. map_of es' k = (case map_of (undo_images db rs) k of Some bef \<Rightarrow> bef | None \<Rightarrow> map_of es k)) \<and>
      (d = 0 \<or> redo_loop (marked_log db rs) False (pool db) = Some (kOk, False, pool db') \<and> undo_images db rs = []))
    else io_error s)"
proof -
  obtain s any b where r: "redo_loop (marked_log db rs) False (pool db) = Some (s, any, b)" "if s = kOk then \<exists>d. stored_off d b es else io_error s"
    using redo_stores [of "pool db" P E "marked_log db rs" es] assms(1) unfolding crash_state_def by blast
  show ?thesis
  proof (cases "s = kOk")
    case False
    then have "Recover rs db = Some (s, db\<lparr>pool := b\<rparr>)" using r(1) by (simp add: Recover_def marked_log_def Let_def)
    then show ?thesis using False r(2) by auto
  next
    case True
    then obtain d where d: "stored_off d b es" using r(2) by auto
    have e: "evolves (pool db) b" by (rule redo_loop_evo [OF r(1) evolves_refl])
    obtain s' db' where R: "Recover rs db = Some (s', db')" "if s' = kOk then
      evolves b (pool db') \<and> PinCount (pool db') = PinCount b \<and> (\<exists>es'. map_of es' = rolled_back (ckpt db) (is_loser (ckpt db) rs) (marked_log db rs) (map_of es) \<and>
        (if any \<or> undo_images db rs \<noteq> [] then stored (pool db') es' else es' = es \<and> pool db' = b))
      else io_error s'" using Recover_after_redo [OF r(1) [unfolded True] d assms(2)] by blast
    show ?thesis
    proof (cases "s' = kOk")
      case ok: True
      then obtain es' where es': "evolves b (pool db')" "map_of es' = rolled_back (ckpt db) (is_loser (ckpt db) rs) (marked_log db rs) (map_of es)"
        "if any \<or> undo_images db rs \<noteq> [] then stored (pool db') es' else es' = es \<and> pool db' = b"
        using R(2) by auto
      have "\<exists>d'. stored_off d' (pool db') es' \<and>
        (d' = 0 \<or> redo_loop (marked_log db rs) False (pool db) = Some (kOk, False, pool db') \<and> undo_images db rs = [])"
        using es'(3) d r(1) True by (cases any) (auto split: if_splits)
      then show ?thesis using R(1) ok evolves_trans [OF e es'(1)] es'(2) by (intro exI [of _ s'] exI [of _ db']) (auto simp: fun_eq_iff)
    qed (use R in auto)
  qed
qed

text \<open>
  C4: recovery restores the committed state. After a crash that left every page at any of its versions since the checkpoint, torn, or
  not created yet, \<^verbatim>\<open>Recover\<close> returns. When it reports success the tree holds what the complete operations of the log
  add up to, except that every key written by a transaction in flight has the before-image of that transaction's oldest
  record about it; the key count is exact, unless neither pass changed anything, when it is not looked at. Otherwise a storage error is reported.
\<close>

theorem recovery_restores_committed_state:
  assumes "crash_state P E rs db es" and "undoable db rs"
  shows "\<exists>s db'. Recover rs db = Some (s, db') \<and> (if s = kOk then \<exists>es' d. stored_off d (pool db') es' \<and>
      (\<forall>k. map_of es' k = (case map_of (undo_images db rs) k of Some bef \<Rightarrow> bef | None \<Rightarrow> map_of es k)) \<and>
      (d = 0 \<or> redo_loop (marked_log db rs) False (pool db) = Some (kOk, False, pool db') \<and> undo_images db rs = [])
    else io_error s)"
  using Recover_ok [OF assms] by (fastforce split: if_splits)

text \<open>
  C9: an opened database is settled. When opening replays a log and succeeds, the recovered entries are all in the data
  file, synced, the meta page on disk is the one in memory, and the log has been emptied with its next LSN recorded as the checkpoint.
\<close>

theorem recovered_database_is_settled:
  assumes "crash_state P E rs db es" and "undoable db rs"
    and "length (mreserved (meta (pager (pool db)))) = 4048" and "active_begun_txns db = 0"
  shows "\<exists>s db'. recover_handle rs db = Some (s, db') \<and> (s = kOk \<longrightarrow> data_synced (pool db') \<and> meta_synced (pool db') \<and> log_emptied (pool db') \<and>
    (\<exists>es' d. stored_off d (pool db') es' \<and>
      (\<forall>k. map_of es' k = (case map_of (undo_images db rs) k of Some bef \<Rightarrow> bef | None \<Rightarrow> map_of es k))))"
proof -
  obtain s db1 where R: "Recover rs db = Some (s, db1)" and ok: "s = kOk \<Longrightarrow> evolves (pool db) (pool db1)"
    "s = kOk \<Longrightarrow> \<exists>es' d. stored_off d (pool db1) es' \<and> (\<forall>k. map_of es' k = (case map_of (undo_images db rs) k of Some bef \<Rightarrow> bef | None \<Rightarrow> map_of es k))"
    using Recover_ok [OF assms(1,2)] by (fastforce split: if_splits)
  obtain s2 db2 where c: "Checkpoint db1 = (s2, db2)" by fastforce
  show ?thesis
  proof (cases "s = kOk \<and> s2 = kOk")
    case False
    then show ?thesis using R c by (auto simp: recover_handle_def)
  next
    case True
    then obtain es' d where es': "stored_off d (pool db1) es'"
      "\<forall>k. map_of es' k = (case map_of (undo_images db rs) k of Some bef \<Rightarrow> bef | None \<Rightarrow> map_of es k)" using ok(2) by blast
    have "length (mreserved (meta (pager (pool db1)))) = 4048" "active_begun_txns db1 \<le> 0"
      using assms(3,4) ok(1) True Recover_keeps_handle [OF R] by (simp_all add: evolves_def)
    note k = Checkpoint_settles [OF stored_inv [OF es'(1)] this c [unfolded conjunct2 [OF True]]]
    have "recover_handle rs db = Some (kOk, db2)" using R c True by (simp add: recover_handle_def)
    then show ?thesis using k(2-4) same_store_stored [OF k(1) es'(1)] es'(2) by blast
  qed
qed

text \<open>A log that made page 2 the root and wrote an entry into it, and a database whose page 2 has not seen the write.\<close>

definition crash_log :: "LogRecord list" where
  "crash_log = [LogRecord_init\<lparr>rtype := kRootChange, txid := 1, rpage := 2, lsn := 4\<rparr>,
     LogRecord_init\<lparr>rtype := kPut, txid := 1, op_end := True, rpage := 2, rkey := [97], rvalue := [1], lsn := 50\<rparr>]"

definition crash_db :: DbImpl where
  "crash_db = new_db\<lparr>pool := dirty_pool (Some empty_log)\<rparr>"

lemma crash_db_ok:
  "crash_state {2} (\<lambda>_. (LeafPage [] kInvalidPageId, 0)) crash_log crash_db [([97], [1])]" "undoable crash_db crash_log"
  "length (mreserved (meta (pager (pool crash_db)))) = 4048" "active_begun_txns crash_db = 0" "undo_images crash_db crash_log = []"
proof -
  let ?b = "dirty_pool (Some empty_log)" let ?E = "\<lambda>_ :: PageId. (LeafPage [] kInvalidPageId, 0 :: Lsn)"
  have m: "meta (pager ?b) = Meta_Init\<lparr>num_pages := 3\<rparr>" by (simp add: dirty_pool_ok(3))
  have ml: "marked_log crash_db crash_log = map (\<lambda>r. (r, True)) crash_log"
    by (simp add: marked_log_def crash_db_def m crash_log_def applicable_def LogRecord_init_def Meta_Init_def kInvalidLsn_def)
  then have sel: "selected (marked_log crash_db crash_log) = crash_log" by (simp add: comp_def)
  have fp: "free_pages ?b []" by (simp add: free_pages_def dirty_pool_ok Meta_Init_def)
  then have ok: "pool_ok ?b" using dirty_pool_ok(1) by (auto simp: pool_ok_def)
  have rl: "run_log {2} ?E crash_log"
    by (simp add: run_log_def crash_log_def LogRecord_init_def changes_page_def change_fits_def leaf_size_def kInvalidPageId_def logged_def less_Suc_eq)
  have "leaf_rep (Page_Init 2 kLeaf) []" using InitLeaf_rep [of 2 kLeaf] by (simp add: InitLeaf_def Page_Init_def header_Init_def)
  then have "page_at ?b 2 (?E 2)"
    using live_pageI [OF fp, of 2] dirty_pool_ok(2,3) [of "Some empty_log"]
    by (simp add: page_at_def data_page_def kFirstDataPage_def Meta_Init_def Page_Init_def header_Init_def kInvalidLsn_def GetNextLeaf_def)
  then have cr: "crashed crash_log ?E ?b 2" by (auto simp: crashed_def intro!: exI [of _ 0])
  have "describes (fst \<circ> history crash_log ?E) (fold root_after crash_log kInvalidPageId) (Lf 2 [([97], [1])])"
    by (simp add: describes_def crash_log_def logged_def changes_page_def LogRecord_init_def after_def root_after_def kInvalidPageId_def above_def below_def)
  then have lh: "log_holds {2} (fst \<circ> history crash_log ?E) (fold root_after crash_log kInvalidPageId) [([97], [1])]"
    unfolding log_holds_def by (intro disjI2 exI [of _ "Lf 2 [([97], [1])]"]) (simp add: entries_def)
  show "crash_state {2} ?E crash_log crash_db [([97], [1])]"
    unfolding crash_state_def sel using ok rl cr lh by (simp add: crash_db_def m Meta_Init_def)
  show no: "undo_images crash_db crash_log = []"
    by (simp add: loser_images_def ml crash_log_def taken_back_def is_loser_def txn_flags_def LogRecord_init_def)
  then show "undoable crash_db crash_log" by (simp add: undoable_def rollback_roomy_def)
  show "length (mreserved (meta (pager (pool crash_db)))) = 4048" "active_begun_txns crash_db = 0"
    using m new_db_ok(4) by (simp_all add: crash_db_def new_db_def DbImpl_init_def Meta_Init_def)
qed

theorem recovery_restores_committed_state_witness:
  "\<exists>s db'. Recover crash_log crash_db = Some (s, db') \<and> (s = kOk \<longrightarrow> (\<exists>es' d. stored_off d (pool db') es' \<and> map_of es' [97] = Some [1]))"
proof -
  obtain s db' where r: "Recover crash_log crash_db = Some (s, db')" and "s = kOk \<Longrightarrow> \<exists>es' d. stored_off d (pool db') es' \<and>
      (\<forall>k. map_of es' k = (case map_of (undo_images crash_db crash_log) k of Some bef \<Rightarrow> bef | None \<Rightarrow> map_of [([97], [1])] k))"
    using recovery_restores_committed_state [OF crash_db_ok(1,2)] by (metis (no_types, lifting))
  then show ?thesis unfolding crash_db_ok(5) by fastforce
qed

theorem recovered_database_is_settled_witness:
  "\<exists>s db'. recover_handle crash_log crash_db = Some (s, db') \<and> (s = kOk \<longrightarrow> data_synced (pool db') \<and> log_emptied (pool db') \<and>
     (\<exists>es' d. stored_off d (pool db') es' \<and> map_of es' [97] = Some [1]))"
proof -
  obtain s db' where r: "recover_handle crash_log crash_db = Some (s, db')" and "s = kOk \<Longrightarrow> data_synced (pool db') \<and> log_emptied (pool db')"
    and "s = kOk \<Longrightarrow> \<exists>es' d. stored_off d (pool db') es' \<and>
      (\<forall>k. map_of es' k = (case map_of (undo_images crash_db crash_log) k of Some bef \<Rightarrow> bef | None \<Rightarrow> map_of [([97], [1])] k))"
    using recovered_database_is_settled [OF crash_db_ok(1-4)] by blast
  then show ?thesis unfolding crash_db_ok(5) by fastforce
qed

text \<open>
  C37: a stale key count can survive recovery. When every page had reached the disk before the crash, which a checkpoint that stops
  before its meta page or runs beside an open transaction brings about, redo applies nothing; with nothing to undo
  either, recovery succeeds without counting, and the count of the last persisted meta page stays, whatever the tree holds.
\<close>

theorem stale_count_survives_recovery:
  assumes "crash_state P E rs db es" and "redo_loop (marked_log db rs) False (pool db) = Some (kOk, False, b)" and "undo_images db rs = []"
  shows "\<exists>db'. Recover rs db = Some (kOk, db') \<and> (\<exists>d. stored_off d (pool db') es) \<and>
    num_keys (meta (pager (pool db'))) = num_keys (meta (pager (pool db)))"
proof -
  obtain tx tm where t: "Txn_Begin (txn_manager db) = (tx, tm)" by fastforce
  have "rollback_loop (ckpt db) (is_loser (ckpt db) rs) tx (rev (marked_log db rs)) False b = Some (kOk, False, b)"
    by (rule rollback_loop_nothing) (simp add: loser_images_rev assms(3))
  then have "Recover rs db = Some (kOk, db\<lparr>txn_manager := tm, pool := b\<rparr>)" using assms(2) t by (simp add: Recover_def marked_log_def Let_def)
  moreover have "\<exists>d. stored_off d b es" "num_keys (meta (pager b)) = num_keys (meta (pager (pool db)))"
    using redo_stores [of "pool db" P E "marked_log db rs" es] redo_pass [of "pool db" P E "marked_log db rs"] assms(1,2)
    unfolding crash_state_def by fastforce+
  ultimately show ?thesis by auto
qed

text \<open>The page has the write and its LSN, the meta page still counts no key.\<close>

definition stale_log :: "LogRecord list" where
  "stale_log = [LogRecord_init\<lparr>rtype := kPut, txid := 1, op_end := True, rpage := 2, rkey := [97], rvalue := [1], lsn := 50\<rparr>]"

definition stale_db :: DbImpl where
  "stale_db = new_db\<lparr>pool := (guard_write (dirty_pool (Some empty_log)) 0 (snd (RedoPut (hd stale_log) (Page_Init 2 kLeaf))))
     \<lparr>pager := SetRootPageId pager3 2\<rparr>\<rparr>"

lemma stale_db_ok:
  "crash_state {2} (\<lambda>_. (LeafPage [] kInvalidPageId, 0)) stale_log stale_db [([97], [1])]" "undo_images stale_db stale_log = []"
  "\<exists>b. redo_loop (marked_log stale_db stale_log) False (pool stale_db) = Some (kOk, False, b)"
  "num_keys (meta (pager (pool stale_db))) = 0"
proof -
  let ?E = "\<lambda>_ :: PageId. (LeafPage [] kInvalidPageId, 0 :: Lsn)" let ?d = "dirty_pool (Some empty_log)" let ?p = "Page_Init 2 kLeaf"
  let ?r = "hd stale_log" let ?S = "LeafPage [([97], [1])] kInvalidPageId"
  have r: "rtype ?r = kPut" "lsn ?r = 50" "rpage ?r = 2" "after ?r (LeafPage [] kInvalidPageId) = ?S" "changes_page ?r" "txid ?r = 1" "op_end ?r"
    by (simp_all add: stale_log_def LogRecord_init_def after_def changes_page_def)
  have fit: "change_fits ?r (LeafPage [] kInvalidPageId)" by (simp add: change_fits_def stale_log_def LogRecord_init_def leaf_size_def)
  have rep: "shaped ?p (LeafPage [] kInvalidPageId)" "mem_ok ?p"
    using InitLeaf_rep [of 2 kLeaf] by (simp_all add: InitLeaf_def Page_Init_def header_Init_def mem_ok_def GetNextLeaf_def)
  obtain q where q: "RedoPut ?r ?p = (kOk, q)" "shaped q ?S" "mem_ok q" "page_lsn (hdr q) = 50"
    using redo_fun_ok [OF r(5) rep fit] r(1,2,4) by auto
  define b where "b = guard_write ?d 0 q"
  have pg: "pager b = pager3" "page_table b = [(2, 0)]" by (simp_all add: b_def guard_write_def MarkDirty_def set_frame_def dirty_pool_ok(3,5))
  have db: "pool stale_db = b\<lparr>pager := SetRootPageId (pager b) 2\<rparr>" unfolding pg(1) by (simp add: stale_db_def q(1) b_def)
  have m: "meta (pager (pool stale_db)) = Meta_Init\<lparr>num_pages := 3, root_page_id := 2\<rparr>" by (simp add: db pg(1) SetRootPageId_def)
  then show "num_keys (meta (pager (pool stale_db))) = 0" by (simp add: Meta_Init_def)
  have gw: "pool_inv {} b" "pview b 2 = stamp q 0" using guard_write_ok [OF dirty_pool_ok(1) _ q(3), of 2 0 "Some empty_log"] by (simp_all add: b_def dirty_pool_ok(5))
  have fp: "free_pages b []" by (simp add: free_pages_def pg Meta_Init_def)
  have ok: "pool_ok (pool stale_db)" using gw(1) fp by (auto simp: db pool_ok_def [of b])
  have "live_page b 2" using live_pageI [OF fp, of 2] by (simp add: pg(1) data_page_def kFirstDataPage_def Meta_Init_def)
  then have "page_at b 2 (?S, 50)" using gw(2) q(2,4) by (simp add: page_at_def del: shaped.simps)
  then have at: "page_at (pool stale_db) 2 (?S, 50)" unfolding db root_change_keeps .
  have ml: "marked_log stale_db stale_log = [(?r, True)]"
    by (simp add: marked_log_def m stale_log_def applicable_def LogRecord_init_def Meta_Init_def kInvalidLsn_def)
  have h: "history [?r] ?E 2 = (?S, 50)" by (simp add: logged_def r)
  show "undo_images stale_db stale_log = []" by (simp add: loser_images_def ml taken_back_def is_loser_def txn_flags_def stale_log_def LogRecord_init_def)
  have "run_log {2} ?E [?r]" using fit by (simp add: run_log_def r kInvalidPageId_def)
  moreover have "crashed [?r] ?E (pool stale_db) 2" using at h by (auto simp: crashed_def intro!: exI [of _ 1])
  moreover have "log_holds {2} (fst \<circ> history [?r] ?E) 2 [([97], [1])]"
    unfolding log_holds_def by (intro disjI2 exI [of _ "Lf 2 [([97], [1])]"])
      (use h in \<open>simp add: describes_def entries_def above_def below_def kInvalidPageId_def\<close>)
  ultimately show "crash_state {2} ?E stale_log stale_db [([97], [1])]" unfolding crash_state_def ml using ok by (simp add: m root_after_def r)
  obtain b1 where ft: "FetchPageInternal (pool stale_db) 2 = (Inr 0, b1)" by (simp add: FetchPageInternal_def db pg(2) Let_def)
  have lv: "live_page (pool stale_db) 2" using at by (simp add: page_at_def)
  have k: "pool_ok b1" "pview b1 2 = pview (pool stale_db) 2" "Page_Cache.holds b1 2 0"
    using pc.fetch_keeps [OF ok lv ft] pc.fetch_Inr [OF ok lv ft] lv by auto
  have "page_lsn (hdr (stamp (gpage b1 0) 0)) = 50" unfolding gpage_view(1) [OF k(1,3)] k(2) using at by (simp add: page_at_def)
  then have "ApplyRecord ?r (pool stale_db) = Some (kOk, False, ReleaseGuard b1 0)"
    using ApplyRecord_page [OF r(5), of "pool stale_db" "Inr 0" b1] lv ft r by (simp add: redo_at_def)
  then show "\<exists>b. redo_loop (marked_log stale_db stale_log) False (pool stale_db) = Some (kOk, False, b)" by (simp add: ml)
qed

theorem stale_count_survives_recovery_witness:
  "\<exists>db'. Recover stale_log stale_db = Some (kOk, db') \<and> (\<exists>d. stored_off d (pool db') [([97], [1])]) \<and> num_keys (meta (pager (pool db'))) = 0"
proof -
  obtain b where "redo_loop (marked_log stale_db stale_log) False (pool stale_db) = Some (kOk, False, b)" using stale_db_ok(3) by blast
  from stale_count_survives_recovery [OF stale_db_ok(1) this stale_db_ok(2)] show ?thesis using stale_db_ok(4) by simp
qed

end
