(* ===== verification/Logging.thy ===== *)
theory Logging
  imports Recovered
begin

section \<open>The log redoes what the operations do\<close>

text \<open>
  The state of a page is its shape with its LSN. An operation of the tree is followed from one logged change to the next: after
  every step the states of all pages are the history that the records appended so far describe. With that the log of
  any sequence of writes leads, through the redo pass, to the tree the writes made.
\<close>

subsection \<open>States of pages\<close>

definition state_of :: "BufferPool \<Rightarrow> PageId \<Rightarrow> page_state" where
  "state_of b p = (if live_page b p then (shape_of (pview b p), page_lsn (hdr (pview b p))) else (Blank, 0))"

lemma shape_leaf: "leaf_rep pg es \<Longrightarrow> shape_of pg = LeafPage es (GetNextLeaf pg)"
  using leaf_rep_entries [of pg es] by (simp add: shape_of_def leaf_ok_def)

lemma shape_node:
  assumes "int_page pg zs rm"
  shows "shape_of pg = NodePage zs rm"
proof -
  have "\<not> leaf_ok pg" using assms leaf_or_int(1) [of pg] leaf_or_int(2) [of pg zs] by (auto simp: leaf_ok_def int_page_def)
  then show ?thesis using assms int_rep_entries(2) [of pg zs] by (simp add: shape_of_def int_page_def)
qed

lemma shape_same:
  assumes "\<And>es. leaf_rep q es = leaf_rep p es" and "\<And>zs. int_rep q zs = int_rep p zs"
    and "GetNextLeaf q = GetNextLeaf p" and "GetRightmostChild q = GetRightmostChild p" and "dead q = dead p"
  shows "shape_of q = shape_of p"
proof (cases "\<exists>es. leaf_rep p es")
  case True
  then obtain es where "leaf_rep p es" "leaf_rep q es" using assms(1) by blast
  then show ?thesis using shape_leaf assms(3) by simp
next
  case False
  then have nl: "\<not> leaf_ok p" "\<not> leaf_ok q" using assms(1) by (auto simp: leaf_ok_def)
  show ?thesis
  proof (cases "\<exists>zs. int_rep p zs \<and> dead p = 0")
    case True
    then obtain zs where "int_rep p zs" "int_rep q zs" "dead p = 0" using assms(2) by blast
    then show ?thesis using shape_node [of p zs "GetRightmostChild p"] shape_node [of q zs "GetRightmostChild p"] assms(4,5) by (simp add: int_page_def)
  next
    case False
    then have "\<not> int_page p x y" "\<not> int_page q x y" for x y using assms(2,5) by (auto simp: int_page_def)
    then show ?thesis using nl by (simp add: shape_of_def)
  qed
qed

lemma shape_lsn [simp]: "shape_of (at_lsn p l) = shape_of p" "shape_of (stamp p c) = shape_of p"
  "shape_of (p\<lparr>hdr := (hdr p)\<lparr>page_lsn := l, checksum := c\<rparr>\<rparr>) = shape_of p"
  by (rule shape_same; simp add: int_page_def)+

lemma state_reads: "pc.reads b b' \<Longrightarrow> state_of b' = state_of b"
  by (auto simp: state_of_def pc.reads_def fun_eq_iff)

lemma zero_shape: "shape_of zero_page = Blank"
proof -
  have "ptype (hdr zero_page) = 0" by (simp add: zero_page_def page_of_bytes_def header_of_bytes_def Let_def kPageSize_def)
  then have "\<not> IsLeaf zero_page" "\<not> IsInternal zero_page" by (simp_all add: IsLeaf_def IsInternal_def kLeaf_def kInternalNode_def)
  then show ?thesis by (simp add: shape_of_def leaf_ok_def leaf_rep_def int_page_def int_rep_def)
qed

text \<open>A new page has no state yet.\<close>

lemma state_new:
  assumes ok: "pool_ok b" and n: "unat (num_pages (meta (pager b))) + 1 < 2 ^ 32" and nw: "NewPage b = (Inr (g, p), b')"
  shows "state_of b' = state_of b"
proof
  fix j
  obtain ids where inv: "pool_inv {} b" and fp: "free_pages b ids" using ok by (auto simp: pool_ok_def)
  note k = NewPage_ok [OF inv fp n nw] and a = pc.alloc_new [OF ok n nw]
  have k4: "pview b' p = stamp zero_page 0" "p = (case ids of [] \<Rightarrow> num_pages (meta (pager b)) | y # _ \<Rightarrow> y)" "free_pages b' (tl ids)" using k(4) by blast+
  have lp: "live_page b' p" using a pc.holds_page by blast
  have np: "num_pages (meta (pager b')) = (if ids = [] then num_pages (meta (pager b)) + 1 else num_pages (meta (pager b)))"
  proof -
    obtain b1 q i where ac: "AcquireFrameLocked b = (Inr g, b1)" and al: "AllocatePage (pager b1) (io b1) = (Inr p, q, i)"
      and b': "b' = install (b1\<lparr>pager := q, io := i\<rparr>) g p zero_page"
      using nw by (auto simp: NewPage_def split: sum.splits prod.splits)
    have m: "meta (pager b1) = meta (pager b)" "core_inv {g} b1" using AcquireFrameLocked_ok [OF inv ac] keepsD(2) by (auto simp: pool_inv_def)
    have "flist (pager b1) (free_list_head (meta (pager b1))) ids" using AcquireFrameLocked_free_pages [OF inv ac fp] by (simp add: free_pages_def)
    from AllocatePage_ok(3) [OF core_invD(1) [OF m(2)] this n [folded m(1)] al refl]
    have "num_pages (meta q) = (if ids = [] then num_pages (meta (pager b)) + 1 else num_pages (meta (pager b)))"
      unfolding m(1) by (auto split: list.splits)
    then show ?thesis by (simp add: b' install_def Let_def set_frame_def)
  qed
  have new: "j = p" if lv: "live_page b' j" "\<not> live_page b j"
  proof (cases ids)
    case Nil
    then have "j < num_pages (meta (pager b)) + 1" "\<not> j < num_pages (meta (pager b))"
      using lv np unfolding live_pageI [OF fp] live_pageI [OF k4(3)] by (auto simp: data_page_def)
    then show ?thesis using Nil k4(2) n by (simp add: word_less_nat_alt unat_word_ariths not_less word_unat_eq_iff)
  next
    case (Cons y ys)
    then show ?thesis using lv np k4(2) unfolding live_pageI [OF fp] live_pageI [OF k4(3)] by (auto simp: data_page_def)
  qed
  show "state_of b' j = state_of b j"
  proof (cases "live_page b j")
    case True
    then show ?thesis using a by (simp add: state_of_def)
  next
    case False
    then show ?thesis using new k4(1) zero_page_lsn by (auto simp: state_of_def zero_shape)
  qed
qed

subsection \<open>Steps that append nothing\<close>

text \<open>Where the log of a pool begins, when there is one.\<close>

definition log_base :: "BufferPool \<Rightarrow> Lsn option" where
  "log_base b = map_option base_lsn (wal b)"

lemma log_base_None: "log_base b = None \<longleftrightarrow> wal b = None"
  by (simp add: log_base_def)

definition quiet :: "BufferPool \<Rightarrow> BufferPool \<Rightarrow> bool" where
  "quiet b b' \<longleftrightarrow> log_bytes b' = log_bytes b \<and> log_base b' = log_base b"

lemma quiet_trans: "quiet a b \<Longrightarrow> quiet b c \<Longrightarrow> quiet a c"
  by (simp add: quiet_def)

lemma quiet_same: "wal b' = wal b \<Longrightarrow> quiet a b' = quiet a b"
  by (simp add: quiet_def log_bytes_def log_base_def)

lemma quiet_refl: "quiet b b"
  by (simp add: quiet_def)

named_theorems hush "one step further without appending"

lemma quiet_frames [simp]:
  "quiet a (set_frame b f fr) = quiet a b" "quiet a (set_gpage b f p) = quiet a b" "quiet a (MarkDirty b f) = quiet a b" "quiet a (guard_write b f p) = quiet a b"
  "quiet a (ReleaseGuard b f) = quiet a b" "quiet a (drop_frame b f) = quiet a b" "quiet a (install b f q p) = quiet a b"
  "quiet a (b\<lparr>free_frames := fs\<rparr>) = quiet a b" "quiet a (b\<lparr>replacer := r\<rparr>) = quiet a b" "quiet a (b\<lparr>stats := st\<rparr>) = quiet a b"
  "quiet a (b\<lparr>io := i\<rparr>) = quiet a b" "quiet a (b\<lparr>pager := q'\<rparr>) = quiet a b"
  by (rule quiet_same; simp add: set_frame_def set_gpage_def guard_write_def MarkDirty_def ReleaseGuard_def drop_frame_def install_def Let_def)+

lemma FlushLocked_base: "FlushLocked w i = (s, w', i') \<Longrightarrow> base_lsn w' = base_lsn w"
  by (auto simp: FlushLocked_def split: if_splits prod.splits sum.splits)

lemma EnforceWalRule_hush [hush]: "EnforceWalRule b fr = (s, b') \<Longrightarrow> quiet a b \<Longrightarrow> quiet a b'"
  using FlushLocked_base by (fastforce simp: EnforceWalRule_def Flush_def quiet_def log_bytes_def log_base_def dest: FlushLocked_bytes split: option.splits if_splits prod.splits)

lemma write_back_hush [hush]: "write_back b f = (s, b') \<Longrightarrow> quiet a b \<Longrightarrow> quiet a b'"
  using EnforceWalRule_hush [of b "frames b ! f" _ _ a]
  by (auto simp: write_back_def Let_def split: if_splits prod.splits)

lemma AcquireFrameLocked_hush [hush]: "AcquireFrameLocked b = (r, b') \<Longrightarrow> quiet a b \<Longrightarrow> quiet a b'"
  by (auto simp: AcquireFrameLocked_def Let_def split: list.splits prod.splits option.splits if_splits dest: hush)

lemma FetchPageInternal_hush [hush]: "FetchPageInternal b pid = (r, b') \<Longrightarrow> quiet a b \<Longrightarrow> quiet a b'"
  by (auto simp: FetchPageInternal_def Let_def split: option.splits prod.splits sum.splits dest: hush)

lemma NewPage_hush [hush]: "NewPage b = (r, b') \<Longrightarrow> quiet a b \<Longrightarrow> quiet a b'"
  by (auto simp: NewPage_def dest: hush split: prod.splits sum.splits)

lemma quiet_release_all [simp]: "quiet a (release_all gs b) = quiet a b"
  by (induction gs arbitrary: b) (simp_all add: release_all_def)

lemma descend_hush [hush]:
  assumes "descend k g b = Some (r, b')" and "quiet a b"
  shows "quiet a b'"
proof -
  have "quiet a b \<longrightarrow> quiet a (snd (r, b'))"
    using assms(1)
  proof (rule descend.raw_induct [rotated])
    fix rec k g b and x :: "FrameId Result \<times> BufferPool"
    assume IH: "\<And>k g b x. rec k g b = Some x \<Longrightarrow> quiet a b \<longrightarrow> quiet a (snd x)"
      and "(if IsLeaf (gpage b g) then Some (Inr g, b)
        else let child = FindChild (gpage b g) k in
          if child = kInvalidPageId then Some (Inl kInternal, ReleaseGuard b g)
          else case FetchPageInternal b child of (r, b) \<Rightarrow>
            let b = ReleaseGuard b g in case r of Inl s \<Rightarrow> Some (Inl s, b) | Inr c \<Rightarrow> rec k c b) = Some x"
    then show "quiet a b \<longrightarrow> quiet a (snd x)"
      by (auto simp: Let_def split: if_splits prod.splits sum.splits dest: hush dest!: IH)
  qed
  then show ?thesis using assms(2) by simp
qed

lemma leaf_guard_hush [hush]: "leaf_guard k b = Some (r, b') \<Longrightarrow> quiet a b \<Longrightarrow> quiet a b'"
  by (auto simp: leaf_guard_def split: if_splits prod.splits sum.splits dest: hush)

lemma descend_path_hush [hush]:
  assumes "descend_path k p st b = Some (r, b')" and "quiet a b"
  shows "quiet a b'"
proof -
  have "quiet a b \<longrightarrow> quiet a (snd (r, b'))"
    using assms(1)
  proof (rule descend_path.raw_induct [rotated])
    fix rec k p st b and x :: "FrameId list Result \<times> BufferPool"
    assume IH: "\<And>k p st b x. rec k p st b = Some x \<Longrightarrow> quiet a b \<longrightarrow> quiet a (snd x)"
      and "(case FetchPageInternal b p of (r, b) \<Rightarrow>
          case r of
            Inl s \<Rightarrow> Some (Inl s, release_all st b)
          | Inr g \<Rightarrow>
              if IsLeaf (gpage b g) then Some (Inr (g # st), b)
              else let child = FindChild (gpage b g) k in
                if child = kInvalidPageId then Some (Inl kInternal, release_all (g # st) b) else rec k child (g # st) b) = Some x"
    then show "quiet a b \<longrightarrow> quiet a (snd x)"
      by (auto simp: Let_def split: if_splits prod.splits sum.splits dest: hush dest!: IH)
  qed
  then show ?thesis using assms(2) by simp
qed

subsection \<open>Logs that describe a run\<close>

text \<open>Exactly the records \<open>rs\<close> are appended.\<close>

definition appends :: "BufferPool \<Rightarrow> BufferPool \<Rightarrow> LogRecord list \<Rightarrow> bool" where
  "appends a b rs \<longleftrightarrow> wal a \<noteq> None \<and> log_base b = log_base a \<and> log_bytes a \<le> log_bytes b \<and>
     (\<forall>r0. log_is a r0 \<longrightarrow> log_bytes b < 2 ^ 64 \<longrightarrow> log_is b (r0 @ rs))"

lemma appends_trans: "appends a b rs \<Longrightarrow> appends b c rs' \<Longrightarrow> appends a c (rs @ rs')"
  unfolding appends_def by (fastforce simp flip: append_assoc)

lemma log_is_bytes: "log_is b rs \<Longrightarrow> log_bytes b = length (ser rs)"
  by (auto simp: log_is_def log_bytes_def wal_inv_def)

lemma appends_nothing:
  assumes "evolves b b'" and "quiet b b'" and "wal b \<noteq> None"
  shows "appends b b' []"
proof -
  have "log_is b' (r0 @ [])" if l: "log_is b r0" "log_bytes b' < 2 ^ 64" for r0
  proof -
    obtain rs where rs: "log_is b' (r0 @ rs)" using assms(1) l by (auto simp: evolves_def)
    have "length (ser rs) = 0" using log_is_bytes [OF rs] log_is_bytes [OF l(1)] assms(2) by (simp add: quiet_def ser_def)
    then have "rs = []" using SerializedSize_ge [of "hd rs"] by (cases rs) (auto simp: ser_def)
    then show ?thesis using rs by simp
  qed
  then show ?thesis using assms by (auto simp: appends_def quiet_def)
qed

lemma appends_record:
  assumes w: "wal b = Some w" and f: "rec_fits r" and l: "lsn r = end_lsn w" and w': "wal b' = Some (BufferRecordLocked w r\<lparr>imaged := im\<rparr>)"
  shows "appends b b' [r]"
proof -
  have n: "log_bytes b' = log_bytes b + SerializedSize r" by (simp add: w' log_bytes_def w BufferRecordLocked_def AppendTo_eq)
  have "log_is b' (rs @ [r])" if s: "log_is b rs" "log_bytes b' < 2 ^ 64" for rs
  proof -
    have i: "wal_inv w rs" using s(1) w by (simp add: log_is_def)
    have "length (ser rs) + SerializedSize r < 2 ^ 64" using s n log_is_bytes [OF s(1)] by simp
    from wal_inv_buffer [OF i f l this] show ?thesis by (simp add: w' log_is_def wal_inv_def)
  qed
  moreover have "log_base b' = log_base b" by (simp add: log_base_def w w' BufferRecordLocked_def)
  ultimately show ?thesis using n w by (auto simp: appends_def)
qed

text \<open>Every record can be redone where it stands in the log.\<close>

fun good_log :: "(PageId \<Rightarrow> page_state) \<Rightarrow> LogRecord list \<Rightarrow> bool" where
  "good_log E [] = True"
| "good_log E (r # rs) = ((changes_page r \<or> rtype r = kAllocPage \<longrightarrow> rpage r \<noteq> kInvalidPageId) \<and> (rtype r = kPageImage \<longrightarrow> image_ok r) \<and>
     (changes_page r \<longrightarrow> change_fits r (fst (E (rpage r)))) \<and> good_log (logged r E) rs)"

lemma good_log_append: "good_log E (rs @ rs') \<longleftrightarrow> good_log E rs \<and> good_log (history rs E) rs'"
  by (induction rs arbitrary: E) simp_all

text \<open>
  The records \<open>rs\<close> lead from the page states \<open>E\<close> at pool \<open>a\<close> to the pages of pool \<open>b\<close>.
\<close>

definition leads :: "(PageId \<Rightarrow> page_state) \<Rightarrow> BufferPool \<Rightarrow> BufferPool \<Rightarrow> LogRecord list \<Rightarrow> bool" where
  "leads E a b rs \<longleftrightarrow> appends a b rs \<and> good_log E rs \<and> state_of b = history rs E \<and>
     root_page_id (meta (pager b)) = fold root_after rs (root_page_id (meta (pager a))) \<and>
     (\<forall>j. live_page a j \<longrightarrow> live_page b j) \<and> (\<forall>r \<in> set rs. rtype r \<noteq> kBegin \<and> (changes_page r \<longrightarrow> live_page b (rpage r)))"

text \<open>The same for the records of one operation; \<open>fin\<close> says that the last one ends it.\<close>

definition led :: "TxId \<Rightarrow> (PageId \<Rightarrow> page_state) \<Rightarrow> BufferPool \<Rightarrow> BufferPool \<Rightarrow> bool \<Rightarrow> bool" where
  "led tx E a b fin \<longleftrightarrow> (\<exists>rs. leads E a b rs \<and> (\<forall>r \<in> set rs. txid r = tx) \<and> (fin \<longrightarrow> rs \<noteq> [] \<and> op_end (last rs)))"

lemma leads_trans: "leads E a b rs \<Longrightarrow> leads (state_of b) b c rs' \<Longrightarrow> leads E a c (rs @ rs')"
  using appends_trans [of a b rs c rs'] by (auto simp: leads_def good_log_append)

lemma led_trans: "led tx E a b f \<Longrightarrow> led tx (state_of b) b c f' \<Longrightarrow> led tx E a c f'"
  unfolding led_def using leads_trans by fastforce

lemma led_wal: "led tx E a b f \<Longrightarrow> wal a \<noteq> None \<and> wal b \<noteq> None"
  by (auto simp: led_def leads_def appends_def simp flip: log_base_None)

text \<open>Steps that leave log, pages and root alone.\<close>

definition still :: "BufferPool \<Rightarrow> BufferPool \<Rightarrow> bool" where
  "still b c \<longleftrightarrow> evolves b c \<and> quiet b c \<and> state_of c = state_of b \<and> (\<forall>j. live_page b j \<longrightarrow> live_page c j) \<and>
     root_page_id (meta (pager c)) = root_page_id (meta (pager b))"

lemma still_leads: "still b c \<Longrightarrow> wal b \<noteq> None \<Longrightarrow> leads (state_of b) b c []"
  using appends_nothing [of b c] by (simp add: still_def leads_def)

lemma led_still:
  assumes l: "led tx E a b f" and "still b c"
  shows "led tx E a c f"
proof -
  obtain rs where rs: "leads E a b rs" "(\<forall>r \<in> set rs. txid r = tx) \<and> (f \<longrightarrow> rs \<noteq> [] \<and> op_end (last rs))" using l by (auto simp: led_def)
  have "leads E a c (rs @ [])" by (rule leads_trans [OF rs(1) still_leads]) (use assms led_wal in blast)+
  then show ?thesis using rs(2) by (auto simp: led_def)
qed

lemma still_led:
  assumes "still a b" and "wal a \<noteq> None" and "led tx (state_of b) b c f"
  shows "led tx (state_of a) a c f"
proof -
  obtain rs where rs: "leads (state_of b) b c rs" "(\<forall>r \<in> set rs. txid r = tx) \<and> (f \<longrightarrow> rs \<noteq> [] \<and> op_end (last rs))" using assms(3) by (auto simp: led_def)
  show ?thesis using leads_trans [OF still_leads [OF assms(1,2)] rs(1)] rs(2) by (auto simp: led_def)
qed

lemma still_reads: "pc.reads b c \<Longrightarrow> evolves b c \<Longrightarrow> quiet b c \<Longrightarrow> still b c"
  using state_reads by (simp add: still_def pc.reads_def)

lemma still_trans: "still a b \<Longrightarrow> still b c \<Longrightarrow> still a c"
  unfolding still_def using evolves_trans quiet_trans by metis

lemma still_wal: "still b c \<Longrightarrow> (wal c = None) = (wal b = None)"
  by (simp add: still_def quiet_def flip: log_base_None)

lemma still_fetch: "pool_ok b \<Longrightarrow> live_page b p \<Longrightarrow> FetchPageInternal b p = (r, b') \<Longrightarrow> still b b'"
  by (rule still_reads [OF pc.fetch_reads]) (auto intro: FetchPageInternal_evo FetchPageInternal_hush evolves_refl quiet_refl)

lemma still_release: "still b (ReleaseGuard b g)"
proof -
  let ?b = "ReleaseGuard b g"
  have f: "fpage (frames ?b ! h) = fpage (frames b ! h)" for h
    by (cases "g < length (frames b)"; cases "h = g") (simp_all add: ReleaseGuard_def Let_def set_frame_def list_update_beyond)
  have "pager ?b = pager b" "page_table ?b = page_table b" by (simp_all add: ReleaseGuard_def Let_def set_frame_def)
  then have "pview ?b = pview b" "live_page ?b = live_page b" "pager ?b = pager b"
    using f by (simp_all add: pview_def live_page_def fun_eq_iff free_pages_def cong: option.case_cong)
  then show ?thesis by (simp add: still_def evolves_refl quiet_refl state_of_def fun_eq_iff)
qed

lemma still_release_all: "still b (release_all gs b)"
proof (induction gs arbitrary: b)
  case Nil
  then show ?case by (simp add: release_all_def still_def evolves_refl quiet_refl)
next
  case (Cons g gs)
  show ?case using still_trans [OF still_release Cons [of "ReleaseGuard b g"]] by (simp add: release_all_def)
qed

lemma still_count: "still b (b\<lparr>pager := AddToNumKeys (pager b) d\<rparr>)"
  by (simp add: still_def state_of_def fun_eq_iff evolves_refl quiet_refl)

lemma still_new:
  assumes "pool_ok b" and "unat (num_pages (meta (pager b))) + 1 < 2 ^ 32" and "NewPage b = (Inr (g, p), b')"
  shows "still b b'"
  using state_new [OF assms] pc.alloc_new [OF assms] NewPage_evo [OF assms(3) evolves_refl] NewPage_hush [OF assms(3) quiet_refl]
  by (simp add: still_def)

subsection \<open>Logged writes\<close>

lemma guard_twice: "g < length (frames b) \<Longrightarrow> guard_write ((guard_write b g p)\<lparr>wal := w\<rparr>) g q = (guard_write b g q)\<lparr>wal := w\<rparr>"
  by (simp add: guard_write_def MarkDirty_def set_frame_def frame_swap)

lemma state_write:
  assumes "pool_ok b" and h: "Page_Cache.holds b p g" and q: "mem_ok q"
  shows "state_of ((guard_write b g (at_lsn q l))\<lparr>wal := w\<rparr>) = (state_of b)(p := (shape_of q, l))"
proof -
  have "mem_ok (at_lsn q l)" using q by simp
  note u = pc.update_one [OF assms(1) h this]
  have "live_page b p" using pc.holds_page [OF assms(1) h] by blast
  then show ?thesis using u by (auto simp: state_of_def fun_eq_iff)
qed

text \<open>One record with the page it is about, written through a guard.\<close>

lemma leads_record:
  assumes ok: "pool_ok b" and h: "Page_Cache.holds b p g" and q: "mem_ok q" and w: "wal b = Some w"
    and r: "rec_fits r" "lsn r = end_lsn w" "changes_page r" "rpage r = p" "rtype r = kPageImage \<Longrightarrow> image_ok r"
    and E: "\<And>j. j \<noteq> p \<Longrightarrow> E j = state_of b j" "change_fits r (fst (E p))" "after r (fst (E p)) = shape_of q"
    and b': "b' = (guard_write b g (at_lsn q (lsn r)))\<lparr>wal := Some (BufferRecordLocked w r\<lparr>imaged := im\<rparr>)\<rparr>"
  shows "leads E b b' [r]"
proof -
  have a: "appends b b' [r]" by (rule appends_record [OF w r(1,2)]) (simp add: b')
  have lp: "live_page b' = live_page b" "meta (pager b') = meta (pager b)"
    using pc.update_one [OF ok h, of "at_lsn q (lsn r)"] q by (simp_all add: b')
  have live: "live_page b p" using pc.holds_page [OF ok h] by blast
  have "state_of b' = history [r] E"
    using state_write [OF ok h q] E(1,3) r(3,4) by (auto simp: b' logged_def fun_eq_iff)
  moreover have "rtype r \<noteq> kRootChange" "rtype r \<noteq> kBegin" using r(3) by (auto simp: changes_page_def)
  ultimately show ?thesis using a lp live live_not_invalid [OF live] r E(2) by (auto simp: leads_def root_after_def)
qed

lemma image_led:
  assumes ok: "pool_ok b" and h: "Page_Cache.holds b p g" and q: "mem_ok q" and w: "wal b \<noteq> None"
    and E: "\<And>j. j \<noteq> p \<Longrightarrow> E j = state_of b j" and li: "LogPageImage (set_gpage b g q) g tx oe = (s, b')"
  shows "led tx E b b' oe"
proof -
  obtain x where x: "wal b = Some x" using w by auto
  note gl = holds_frame [OF ok h] and gi = gpage_view(3) [OF ok h]
  let ?l = "end_lsn x"
  let ?r = "LogRecord_init\<lparr>lsn := ?l, txid := tx, rtype := kPageImage, rpage := p, op_end := oe, rvalue := RawData (at_lsn q ?l)\<rparr>"
  have m: "MarkDirty (set_gpage b g q) g = (guard_write b g q)\<lparr>wal := Some x\<rparr>"
    using x by (simp add: set_then_mark) (simp add: guard_write_def MarkDirty_def set_frame_def)
  have "b' = (guard_write b g (at_lsn q (lsn ?r)))\<lparr>wal := Some (BufferRecordLocked x ?r\<lparr>imaged := insert p (imaged x)\<rparr>)\<rparr>"
    using li guard_write_simps(2) [OF gl] guard_write_simps(3,4) [OF gl, of q] gi unfolding LogPageImage_def m
    by (auto simp: Let_def AppendPageImage_def BufferRecordLocked_def)
  moreover have "rec_fits ?r" "image_ok ?r" "changes_page ?r" "after ?r (fst (E p)) = shape_of q"
    using q by (simp_all add: rec_fits_def LogRecord_init_def image_ok_def changes_page_def after_def page_of_bytes_RawData) (simp add: kPageSize_def)
  ultimately have "leads E b b' [?r]"
    by (intro leads_record [OF ok h q x]) (auto simp: E change_fits_def)
  then show ?thesis by (auto simp: led_def intro!: exI [of _ "[?r]"])
qed

text \<open>The effect of a logical record on a leaf, in the log and on the page.\<close>

abbreviation leaf_change :: "LogRecordType \<Rightarrow> key \<Rightarrow> bytes \<Rightarrow> (key \<times> bytes) list \<Rightarrow> (key \<times> bytes) list" where
  "leaf_change t k v es \<equiv> (if t = kPut then upsert k v es else remove_key k es)"

lemma upsert_twice: "upsert k v (upsert k v es) = upsert k v es"
  by (induction k v es rule: upsert.induct) auto

lemma leaf_change_twice: "leaf_change t k v (leaf_change t k v es) = leaf_change t k v es"
  by (simp add: upsert_twice)

lemma delta_led:
  assumes ok: "pool_ok b" and h: "Page_Cache.holds b p g" and q: "mem_ok q" "leaf_rep q (leaf_change t k v es)"
    and w: "wal b \<noteq> None" and t: "t = kPut \<or> t = kDelete" and sz: "length k + length v < 65000" "small_before bef"
    and E: "\<And>j. j \<noteq> p \<Longrightarrow> E j = state_of b j" "fst (E p) = LeafPage es (GetNextLeaf q)"
    and r: "r = LogRecord_init\<lparr>rtype := t, txid := tx, rpage := p, op_end := oe, rkey := k, rvalue := v, before := bef\<rparr>"
    and ld: "log_delta (MarkDirty (set_gpage b g q) g) g r = (s, b')"
  shows "led tx E b b' oe"
proof -
  obtain x where x: "wal b = Some x" using w by auto
  note gl = holds_frame [OF ok h]
  let ?l = "end_lsn x" let ?r = "r\<lparr>lsn := ?l\<rparr>"
  have m: "MarkDirty (set_gpage b g q) g = (guard_write b g q)\<lparr>wal := Some x\<rparr>"
    using x by (simp add: set_then_mark) (simp add: guard_write_def MarkDirty_def set_frame_def)
  have b': "b' = (guard_write b g (at_lsn q (lsn ?r)))\<lparr>wal := Some (BufferRecordLocked x ?r\<lparr>imaged := imaged x\<rparr>)\<rparr>"
    using ld guard_write_simps(2) [OF gl] guard_write_simps(3) [OF gl, of q] unfolding m
    by (auto simp: log_delta_def Let_def Append_def BufferRecordLocked_def)
  have f: "rec_fits ?r" "changes_page ?r" using sz t by (auto simp: r rec_fits_def LogRecord_init_def changes_page_def)
  have a: "after ?r (fst (E p)) = shape_of q" using shape_leaf [OF q(2)] E(2) t by (auto simp: r after_def)
  have "leaf_size (leaf_change t k v es) \<le> 4056" using leaf_free_room [OF q(2)] by simp
  then have c: "change_fits ?r (fst (E p))" using E(2) by (auto simp: r change_fits_def)
  have "leads E b b' [?r]"
    by (rule leads_record [OF ok h q(1) x f(1) _ f(2) _ _ E(1) c a b']) (use t in \<open>auto simp: r\<close>)
  then show ?thesis by (auto simp: led_def r intro!: exI [of _ "[?r]"])
qed

lemma key_led:
  assumes ok: "pool_ok b" and h: "Page_Cache.holds b p g" and q: "mem_ok q" "leaf_rep q (leaf_change t k v es)"
    and w: "wal b \<noteq> None" and t: "t = kPut \<or> t = kDelete" and sz: "length k + length v < 65000" "small_before bef"
    and E: "\<And>j. j \<noteq> p \<Longrightarrow> E j = state_of b j" "fst (E p) = LeafPage es (GetNextLeaf q)"
    and lk: "LogKeyRecord (set_gpage b g q) t tx g k v bef oe u = (s, b')"
  shows "led tx E b b' oe"
proof -
  note gl = holds_frame [OF ok h] and gi = gpage_view(3) [OF ok h]
  let ?b = "MarkDirty (set_gpage b g q) g"
  let ?r = "LogRecord_init\<lparr>rtype := t, txid := tx, rpage := p, op_end := oe, rkey := k, rvalue := v, before := bef\<rparr>"
  obtain x where x: "wal b = Some x" using w by auto
  have m: "?b = (guard_write b g q)\<lparr>wal := Some x\<rparr>"
    using x by (simp add: set_then_mark) (simp add: guard_write_def MarkDirty_def set_frame_def)
  have gp: "wal ?b = Some x" "gid ?b g = p" using gi guard_write_simps(4) [OF gl, of q] by (simp_all add: m)
  have mm: "LogPageImage ?b g tx oe' = LogPageImage (set_gpage b g q) g tx oe'" for oe'
    using guard_write_simps(1) [OF gl, where p = q and w = "Some x"] by (simp add: LogPageImage_def flip: m)
  obtain s1 b1 where li: "LogPageImage (set_gpage b g q) g tx (oe \<and> \<not> u) = (s1, b1)" by fastforce
  note I = image_led [where E = E, OF ok h q(1) w E(1) li] and G = guard_image [OF ok h q(1) li]
  show ?thesis
  proof (cases "NeedsImage x p")
    case False
    then have "log_delta ?b g ?r = (s, b')" using lk gp by (simp add: LogKeyRecord_def Let_def)
    show ?thesis by (rule delta_led [OF ok h q w t sz E(1) E(2) refl \<open>log_delta ?b g ?r = (s, b')\<close>])
  next
    case True
    then have k: "(if \<not> u then (kOk, b1) else log_delta b1 g ?r) = (s, b')"
      using lk li G(1) unfolding LogKeyRecord_def Let_def gp by (simp add: mm andthen_def)
    show ?thesis
    proof (cases u)
      case False
      then show ?thesis using k I by simp
    next
      case u: True
      obtain l w1 where b1: "b1 = (guard_write b g (at_lsn q l))\<lparr>wal := w1\<rparr>" using LogPageImage_write [OF gl] li by (metis prod.inject)
      have ok1: "pool_ok b1" "Page_Cache.holds b1 p g" using wroteD(1,4) [OF G(2)] h by auto
      have gp1: "gpage b1 g = at_lsn q l" using guard_write_simps(3) [OF gl] by (simp add: b1)
      have "MarkDirty (set_gpage b1 g (at_lsn q l)) g = b1" using guard_write_simps(1) [OF gl] gp1 by (metis b1 set_gpage_same)
      then have d: "log_delta (MarkDirty (set_gpage b1 g (at_lsn q l)) g) g ?r = (s, b')" using k u by simp
      have st: "state_of b1 p = (LeafPage (leaf_change t k v es) (GetNextLeaf (at_lsn q l)), l)"
        using state_write [OF ok h q(1)] shape_leaf [OF q(2)] by (simp add: b1)
      have "led tx (state_of b1) b1 b' oe"
        by (rule delta_led [OF ok1 _ _ _ t sz _ _ refl d]) (use q led_wal [OF I] st in \<open>simp_all add: leaf_change_twice\<close>)
      then show ?thesis using led_trans I by blast
    qed
  qed
qed

text \<open>A record about no page.\<close>

lemma event_leads:
  assumes w: "wal b \<noteq> None" and t: "t = kAllocPage \<and> pid \<noteq> kInvalidPageId \<or> t = kRootChange" and le: "LogPageEvent b t tx pid oe = (s, b')"
    and c: "c = (if t = kRootChange then b'\<lparr>pager := SetRootPageId (pager b') pid\<rparr> else b')"
  shows "\<exists>r. leads (state_of b) b c [r] \<and> \<not> changes_page r \<and> op_end r = oe \<and> txid r = tx"
proof -
  obtain x where x: "wal b = Some x" using w by auto
  let ?r = "LogRecord_init\<lparr>rtype := t, txid := tx, rpage := pid, op_end := oe, lsn := end_lsn x\<rparr>"
  have b': "b' = b\<lparr>wal := Some (BufferRecordLocked x ?r\<lparr>imaged := imaged x\<rparr>)\<rparr>"
    using le x by (auto simp: LogPageEvent_def Append_def Let_def BufferRecordLocked_def)
  have a: "appends b c [?r]"
    by (rule appends_record [OF x, where im = "imaged x"]) (simp_all add: rec_fits_def LogRecord_init_def c b')
  have n: "\<not> changes_page ?r" using t by (auto simp: changes_page_def)
  have "state_of b' = state_of b" "live_page b' = live_page b" by (simp_all add: b' state_of_def fun_eq_iff)
  moreover have "state_of c = state_of b'" "live_page c = live_page b'" by (simp_all add: c state_of_def fun_eq_iff)
  moreover have "root_page_id (meta (pager c)) = root_after ?r (root_page_id (meta (pager b)))" by (simp add: c b' root_after_def)
  ultimately have "leads (state_of b) b c [?r]" using a n t by (auto simp: leads_def logged_def)
  then show ?thesis using n by (intro exI [of _ ?r]) simp
qed

lemma event_led:
  assumes "wal b \<noteq> None" and "t = kAllocPage \<and> pid \<noteq> kInvalidPageId \<or> t = kRootChange" and "LogPageEvent b t tx pid oe = (s, b')"
    and "c = (if t = kRootChange then b'\<lparr>pager := SetRootPageId (pager b') pid\<rparr> else b')"
  shows "led tx (state_of b) b c oe"
proof -
  obtain r where "leads (state_of b) b c [r]" "op_end r = oe" "txid r = tx" using event_leads [OF assms] by blast
  then show ?thesis by (auto simp: led_def intro!: exI [of _ "[r]"])
qed

subsection \<open>Writes to one leaf\<close>

lemma leaf_state:
  assumes "pool_ok b" and h: "Page_Cache.holds b p g" and "leaf_rep (gpage b g) es"
  shows "fst (state_of b p) = LeafPage es (GetNextLeaf (gpage b g))"
  using assms(3) gpage_leaf(1,3) [OF assms(1,2)] pc.holds_page [OF assms(1,2)] shape_leaf [of "pview b p" es] by (simp add: state_of_def)

lemma put_page_upsert:
  assumes "put_page p es k v q es'" and "leaf_rep p es"
  shows "es' = upsert k v es"
  using assms sorted_list_unique [of es' "upsert k v es"] upsert_sorted [of es k v] upsert_map [of k v es]
  by (auto simp: put_page_def leaf_rep_def)

text \<open>
  A put on a leaf that the log knows with the entries \<open>es0\<close>; an earlier value of the key may have been removed without a record.
\<close>

lemma put_led:
  assumes ok: "pool_ok b" and h: "Page_Cache.holds b p g" and rep: "leaf_rep (gpage b g) es" and q: "put_page (gpage b g) es k v q es'"
    and w: "wal b \<noteq> None" and sz: "length k + length v < 65000" "small_before bef"
    and E: "\<And>j. j \<noteq> p \<Longrightarrow> E j = state_of b j" "fst (E p) = LeafPage es0 (GetNextLeaf (gpage b g))" "upsert k v es0 = upsert k v es"
    and lk: "LogKeyRecord (set_gpage b g q) kPut tx g k v bef oe u = (s, b')"
  shows "led tx E b b' oe"
proof -
  have "leaf_rep q (leaf_change kPut k v es0)" "mem_ok q" "fst (E p) = LeafPage es0 (GetNextLeaf q)"
    using q put_page_upsert [OF q rep] E(2,3) by (simp_all add: put_page_def)
  then show ?thesis using key_led [OF ok h _ _ w _ sz, of q kPut es0 E tx oe u s b'] E(1) lk by simp
qed

lemma before_small:
  assumes "leaf_rep p es" and "i < length es"
  shows "length (GetValueAt p i) < 65535"
  using leaf_entry_bound [OF assms(1), of "fst (es ! i)" "snd (es ! i)"] leaf_page_facts(2) [OF assms] assms(2) by simp

lemma Delete_led:
  assumes t: "tree_ok b t" and w: "wal b \<noteq> None" and d: "Delete k tx u b = Some (kOk, bef, b')"
  shows "led tx (state_of b) b b' True"
proof -
  obtain r b1 where lg: "leaf_guard k b = Some (r, b1)" "pc.reads b b1"
    "case r of Inl s \<Rightarrow> io_error s \<and> PinCount b1 = PinCount b | Inr g \<Rightarrow> \<exists>cs p es. at_leaf b1 t k (PinCount b) g cs p es"
    using leaf_guard_ok [OF t, of k] by auto
  have s1: "still b b1" by (rule still_reads [OF lg(2)]) (use lg(1) leaf_guard_evo leaf_guard_hush evolves_refl quiet_refl in blast)+
  have w1: "wal b1 \<noteq> None" using still_wal [OF s1] w by simp
  obtain g where r: "r = Inr g" using lg(1,3) d io_error_not_ok by (cases r) (auto simp: Delete_def)
  then obtain cs p es where l: "at_leaf b1 t k (PinCount b) g cs p es" using lg(3) by auto
  have t1: "tree_ok b1 t" by (rule tree_ok_reads [OF t lg(2)])
  note f = at_leaf_facts [OF t1 l]
  have h: "Page_Cache.holds b1 p g" "pool_ok b1" using l t1 by (auto simp: at_leaf_def tree_ok_def)
  let ?i = "lb (map fst es) k"
  have fk: "FindKeyIndex (gpage b1 g) k = (?i, k \<in> fst ` set es)" by (rule leaf_FindKeyIndex [OF f(1)])
  have dl: "delete_at_leaf k tx u g b1 = (kOk, bef, b2) \<Longrightarrow> b' = ReleaseGuard b2 g" for b2
    using d lg(1) r by (simp add: Delete_def)
  have found: "k \<in> fst ` set es" using d lg(1) r fk by (auto simp: Delete_def delete_at_leaf_def split: if_splits)
  have s: "sorted_wrt (<) (map fst es)" using f(1) by (simp add: leaf_rep_def)
  have k: "length k < 65000" using found leaf_entry_bound [OF f(1)] by force
  note i = lb_entry [OF s found]
  obtain q where q: "DeleteAt (gpage b1 g) ?i = (True, q)" using DeleteAt_leaf(1) [OF f(1)] i(1) by (metis (full_types) prod.exhaust_sel)
  note D = DeleteAt_leaf [OF f(1) q]
  have qm: "mem_ok q" using DeleteAt_mem [of "gpage b1 g" ?i] f(1,4) q by (simp add: leaf_rep_def)
  let ?bef = "if u then Some (GetValueAt (gpage b1 g) ?i) else None"
  obtain s2 b2 where lk: "LogKeyRecord (set_gpage b1 g q) kDelete tx g k [] ?bef True u = (s2, b2)" by fastforce
  note K = guard_key_record [OF h(2,1) qm lk]
  have "take ?i es @ drop (Suc ?i) es = remove_key k es"
    by (rule sorted_list_unique [OF _ remove_key_sorted [OF s]]) (use D(2,4) i(2) remove_key_map in \<open>auto simp: leaf_rep_def\<close>)
  then have "leaf_rep q (leaf_change kDelete k [] es)" using D(2) by simp
  moreover have "fst (state_of b1 p) = LeafPage es (GetNextLeaf q)" using leaf_state [OF h(2,1) f(1)] same_next [OF D(3)] by simp
  moreover have "small_before ?bef" using before_small [OF f(1) i(1)] by simp
  ultimately have L: "led tx (state_of b1) b1 b2 True" using key_led [OF h(2,1) qm _ w1 _ _ _ _ _ lk] k by auto
  let ?b3 = "b2\<lparr>pager := AddToNumKeys (pager b2) (- 1)\<rparr>"
  have b': "b' = ReleaseGuard ?b3 g" using d lg(1) r fk found q lk K(1) by (auto simp: Delete_def delete_at_leaf_def)
  have h3: "pool_ok ?b3" "Page_Cache.holds ?b3 p g" using wroteD(1,4) [OF K(2)] h(1) by simp_all
  show ?thesis unfolding b'
    by (rule still_led [OF s1 w led_still [OF led_still [OF L still_count] still_release]])
qed

lemma put_fast_led:
  assumes t: "tree_ok b t" and l: "at_leaf b t k f g cs p es" and sz: "length k + length v < 65000" and w: "wal b \<noteq> None"
    and res: "put_fast k v tx u g b = (Some s, bef, b')"
  shows "led tx (state_of b) b b' True"
proof -
  note F = at_leaf_facts [OF t l]
  have h: "Page_Cache.holds b p g" "pool_ok b" using l t by (auto simp: at_leaf_def tree_ok_def)
  let ?i = "lb (map fst es) k" let ?found = "k \<in> fst ` set es"
  let ?bef = "if u \<and> ?found then Some (GetValueAt (gpage b g) ?i) else None"
  have fk: "FindKeyIndex (gpage b g) k = (?i, ?found)" by (rule leaf_FindKeyIndex [OF F(1)])
  have so: "sorted_wrt (<) (map fst es)" using F(1) by (simp add: leaf_rep_def)
  have sb: "small_before ?bef" using before_small [OF F(1)] lb_entry(1) [OF so] by simp
  have L: "led tx (state_of b) b b2 True \<and> s2 = kOk" if "put_page (gpage b g) es k v q es'" "LogKeyRecord (set_gpage b g q) kPut tx g k v ?bef True u = (s2, b2)" for q es' s2 b2
    using put_led [where E = "state_of b", OF h(2,1) F(1) that(1) w sz sb _ leaf_state [OF h(2,1) F(1)] refl that(2)] guard_key_record(1) [OF h(2,1) _ that(2)] that(1)
    by (simp add: put_page_def)
  show ?thesis
  proof (cases ?found)
    case True
    obtain upd q where q: "UpdateLeaf (gpage b g) k v = (upd, q)" by fastforce
    obtain s2 b2 where lk: "LogKeyRecord (set_gpage b g q) kPut tx g k v ?bef True u = (s2, b2)" by fastforce
    have "upd" "b' = b2" using res fk True q lk by (auto simp: put_fast_def Let_def split: if_splits)
    then show ?thesis using UpdateLeaf_page [OF F(1,4) sz, of q] q L [OF _ lk] by auto
  next
    case False
    obtain ins q where q: "InsertLeaf (gpage b g) k v = (ins, q)" by fastforce
    obtain s2 b2 where lk: "LogKeyRecord (set_gpage b g q) kPut tx g k v ?bef True u = (s2, b2)" by fastforce
    have i: "ins" using res fk False q by (auto simp: put_fast_def Let_def split: if_splits)
    then have L2: "led tx (state_of b) b b2 True" "s2 = kOk" using InsertLeaf_page [OF F(1,4) sz, of q] q L [OF _ lk] by auto
    have "b' = b2\<lparr>pager := AddToNumKeys (pager b2) 1\<rparr>" using res fk False q lk i L2(2) by (auto simp: put_fast_def Let_def andthen_def)
    then show ?thesis using led_still [OF L2(1) still_count] by simp
  qed
qed

end
