(* ===== verification/Log_Splits.thy ===== *)
theory Log_Splits
  imports Logging
begin

section \<open>Splits and Put in the log\<close>

text \<open>
  The records of the operations that change several pages: the splits of leaves and internal nodes, the new root, the separator on its
  way up, and \<^verbatim>\<open>Put\<close> on every path through them.
\<close>

subsection \<open>Splits\<close>

text \<open>A new page and the record of its allocation, which changes no page.\<close>

definition tells :: "TxId \<Rightarrow> BufferPool \<Rightarrow> BufferPool \<Rightarrow> bool" where
  "tells tx b c \<longleftrightarrow> (\<exists>rs. leads (state_of b) b c rs \<and> (\<forall>r \<in> set rs. \<not> changes_page r \<and> txid r = tx))"

lemma alloc_tells:
  assumes ok: "pool_ok b" and n: "unat (num_pages (meta (pager b))) + 1 < 2 ^ 32" and w: "wal b \<noteq> None"
    and nw: "NewPage b = (Inr (g, p), b1)" and le: "LogPageEvent b1 kAllocPage tx p False = (s, b2)"
  shows "tells tx b b2" and "pool_ok b2" and "Page_Cache.holds b2 p g" and "\<And>q h. Page_Cache.holds b q h \<Longrightarrow> Page_Cache.holds b2 q h"
    and "s = kOk" and "\<And>j. live_page b j \<Longrightarrow> live_page b2 j \<and> pview b2 j = pview b j" and "\<not> live_page b p"
proof -
  note W = wrote_new [OF ok n nw] and s1 = still_new [OF ok n nw]
  have w1: "wal b1 \<noteq> None" using still_wal [OF s1] w by simp
  obtain x where x: "LogPageEvent b1 kAllocPage tx p False = (kOk, b1\<lparr>wal := x\<rparr>)" using LogPageEvent_wal by blast
  have b2: "s = kOk" "b2 = b1\<lparr>wal := x\<rparr>" using le x by auto
  show "s = kOk" "\<not> live_page b p" by (fact b2(1) W(2))+
  show h: "pool_ok b2" "Page_Cache.holds b2 p g" "\<And>q h. Page_Cache.holds b q h \<Longrightarrow> Page_Cache.holds b2 q h" using W(3) wroteD(1,4) [OF W(1)] b2 by auto
  show "\<And>j. live_page b j \<Longrightarrow> live_page b2 j \<and> pview b2 j = pview b j" using wroteD(2,3) [OF W(1)] b2 by auto
  have "p \<noteq> kInvalidPageId" using live_not_invalid pc.holds_page [OF h(1,2)] by blast
  then obtain r where "leads (state_of b1) b1 b2 [r]" "\<not> changes_page r" "txid r = tx" using event_leads [OF w1 _ le, of b2] by auto
  then show "tells tx b b2" using leads_trans [OF still_leads [OF s1 w]] by (force simp: tells_def)
qed

lemma tells_led: "tells tx b c \<Longrightarrow> led tx (state_of b) b c False"
  by (auto simp: tells_def led_def)

lemma unlogged: "(\<forall>r \<in> set rs. \<not> changes_page r) \<Longrightarrow> history rs E = E"
  by (induction rs) (simp_all add: logged_def)

text \<open>So it can come before the first record about a page whose state the log does not know yet.\<close>

lemma tells_then:
  assumes "tells tx b c" and "led tx E c d f"
  shows "led tx E b d f"
proof -
  obtain rs rs' where rs: "leads (state_of b) b c rs" "\<forall>r \<in> set rs. \<not> changes_page r" "\<forall>r \<in> set rs. txid r = tx"
    and rs': "leads E c d rs'" "\<forall>r \<in> set rs'. txid r = tx" "f \<longrightarrow> rs' \<noteq> [] \<and> op_end (last rs')"
    using assms by (auto simp: tells_def led_def)
  have g: "good_log E rs = good_log (state_of b) rs" using rs(2) by (induction rs) (simp_all add: logged_def)
  have "leads E b d (rs @ rs')"
    using rs rs'(1) g appends_trans [of b c rs d rs'] unlogged [OF rs(2)] by (auto simp: leads_def good_log_append)
  then show ?thesis using rs(3) rs'(2,3) by (auto simp: led_def intro!: exI [of _ "rs @ rs'"])
qed

lemma half_internal:
  assumes rep: "int_rep node zs" and "m \<le> NumKeys node"
    and f: "fill_internal (SetRightmostChild (InitInternal (Page_Init i t)) c) (map (\<lambda>i. (GetKey node i, GetChild node i)) [j ..< m]) = (True, q)"
  shows "mem_ok q"
proof -
  have m: "m \<le> length zs" using assms(2) int_rep_entries(1) [OF rep] by simp
  have "sorted_wrt (<) (map fst zs)" using rep by (simp add: int_rep_def)
  then have s: "sorted_wrt (<) (map fst ([] @ drop j (take m zs)))"
    by (simp add: sorted_wrt_drop sorted_wrt_take flip: drop_map take_map)
  have "\<forall>(k, c) \<in> set (drop j (take m zs)). length k < 65000"
    by (auto dest!: in_set_dropD in_set_takeD int_key_short [OF rep])
  from fill_internal_ok [OF InitInternal_rep empty_nodes(1,2) s this] show ?thesis using f int_entries_map [OF rep m, of j] by simp
qed

lemma half_leaf:
  assumes rep: "leaf_rep node es" and "m \<le> NumKeys node"
    and f: "fill_leaf (SetNextLeaf (SetPrevLeaf (InitLeaf (Page_Init i t)) a) c) (map (\<lambda>i. (GetKey node i, GetValueAt node i)) [j ..< m]) = (True, q)"
  shows "mem_ok q"
proof -
  have m: "m \<le> length es" using assms(2) leaf_page_facts(1) [OF rep] by simp
  have "sorted_wrt (<) (map fst es)" using rep by (simp add: leaf_rep_def)
  then have s: "sorted_wrt (<) (map fst ([] @ drop j (take m es)))"
    by (simp add: sorted_wrt_drop sorted_wrt_take flip: drop_map take_map)
  have "\<forall>(k, v) \<in> set (drop j (take m es)). length k + length v \<le> 4044"
    using leaf_entry_bound [OF rep] by (auto dest: in_set_takeD in_set_dropD)
  from fill_leaf_ok [OF empty_nodes(6,5) s this] show ?thesis using f leaf_entries_map [OF rep m, of j] by simp
qed

text \<open>Images of two pages in a row.\<close>

lemma two_images_led:
  assumes ok: "pool_ok b" and h: "Page_Cache.holds b p g" "Page_Cache.holds b np ng" and q: "mem_ok q" "mem_ok q'" and w: "wal b \<noteq> None"
    and E: "\<And>j. j \<noteq> p \<Longrightarrow> E j = state_of b j" and li: "LogPageImage (set_gpage b g q) g tx False = (s, b1)"
    and ri: "LogPageImage (set_gpage b1 ng q') ng tx False = (s', b2)"
  shows "led tx E b b2 False" and "wrote {p, np} b b2"
proof -
  have L: "led tx E b b1 False" using image_led [OF ok h(1) q(1) w _ li] E by blast
  note G = guard_image [OF ok h(1) q(1) li]
  have h1: "pool_ok b1" "Page_Cache.holds b1 np ng" using wroteD(1,4) [OF G(2)] h(2) by auto
  have "led tx (state_of b1) b1 b2 False" using image_led [OF h1 q(2) _ _ ri] led_wal [OF L] by blast
  then show "led tx E b b2 False" by (rule led_trans [OF L])
  show "wrote {p, np} b b2" using wrote_trans [OF G(2) guard_image(2) [OF h1 q(2) ri]] by (simp add: insert_commute)
qed

lemma SplitInternal_led:
  assumes ok: "pool_ok b" and h: "Page_Cache.holds b pp g" and zs: "int_page (pview b pp) zs rm" and n: "unat (num_pages (meta (pager b))) + 1 < 2 ^ 32"
    and w: "wal b \<noteq> None" and res: "SplitInternal g tx b = (Inr (ng, nk), b')"
  shows "led tx (state_of b) b b' False"
proof -
  let ?node = "gpage b g" let ?i = "NumKeys ?node div 2"
  have nr: "int_rep ?node zs" using zs gpage_leaf(2) [OF ok h] by (simp add: int_page_def)
  obtain np b1 b2 lp b3 rp where nw: "NewPage b = (Inr (ng, np), b1)" and le: "LogPageEvent b1 kAllocPage tx np False = (kOk, b2)"
    and lp: "fill_internal (SetRightmostChild (InitInternal (Page_Init (gid b2 g) kInternalNode)) (GetChild ?node ?i))
       (map (\<lambda>i. (GetKey ?node i, GetChild ?node i)) [0 ..< ?i]) = (True, lp)" and li: "LogPageImage (set_gpage b2 g lp) g tx False = (kOk, b3)"
    and rp: "fill_internal (SetRightmostChild (InitInternal (Page_Init np kInternalNode)) (GetRightmostChild ?node))
       (map (\<lambda>i. (GetKey ?node i, GetChild ?node i)) [?i + 1 ..< NumKeys ?node]) = (True, rp)" and ri: "LogPageImage (set_gpage b3 ng rp) ng tx False = (kOk, b')"
    using res by (auto simp: SplitInternal_def Let_def split: prod.splits sum.splits if_splits)
  note A = alloc_tells [OF ok n w nw le]
  have m: "mem_ok lp" "mem_ok rp" using half_internal [OF nr _ lp] half_internal [OF nr _ rp] by simp_all
  have w2: "wal b2 \<noteq> None" using led_wal [OF tells_led [OF A(1)]] by blast
  have "led tx (state_of b2) b2 b' False" using two_images_led(1) [OF A(2) A(4) [OF h] A(3) m w2 _ li ri] by blast
  then show ?thesis by (rule led_trans [OF tells_led [OF A(1)]])
qed

lemma CreateNewRoot_led:
  assumes ok: "pool_ok b" and n: "unat (num_pages (meta (pager b))) + 1 < 2 ^ 32" and w: "wal b \<noteq> None" and sz: "length sk < 65000"
    and res: "CreateNewRoot sk l r tx b = (kOk, b')"
  shows "led tx (state_of b) b b' True"
proof -
  let ?p0 = "\<lambda>id. InitInternal (Page_Init id kInternalNode)"
  obtain g id b1 where nw: "NewPage b = (Inr (g, id), b1)"
    using res NewPage_error [OF ok] io_error_not_ok by (fastforce simp: CreateNewRoot_def split: prod.splits sum.splits)
  obtain s2 b2 where le: "LogPageEvent b1 kAllocPage tx id False = (s2, b2)" by fastforce
  note A = alloc_tells [OF ok n w nw le]
  obtain ins p where ip: "InsertInternal (?p0 id) sk l = (ins, p)" by fastforce
  let ?q = "SetRightmostChild p r"
  obtain s3 b3 where li: "LogPageImage (set_gpage b2 g ?q) g tx False = (s3, b3)" by fastforce
  have i: "ins" using res nw le A(5) ip by (auto simp: CreateNewRoot_def andthen_def split: if_splits)
  have "int_rep (?p0 id) []" using InitInternal_rep [of id kInternalNode 0] by simp
  then have "mem_ok p" using InsertInternal_mem [OF _ empty_nodes(3) sz ip] by (simp add: int_rep_def)
  then have q: "mem_ok ?q" by simp
  note G = guard_image [OF A(2,3) q li]
  obtain s4 b4 where lr: "LogPageEvent b3 kRootChange tx id True = (s4, b4)" by fastforce
  let ?b5 = "b4\<lparr>pager := SetRootPageId (pager b4) id\<rparr>"
  have s4: "s4 = kOk" "\<exists>x. b4 = b3\<lparr>wal := x\<rparr>" using LogPageEvent_wal [of b3 kRootChange tx id True] lr by auto
  have b': "b' = ReleaseGuard ?b5 g" using res nw le A(5) ip i li G(1) lr s4(1) by (simp add: CreateNewRoot_def andthen_def)
  have h5: "pool_ok ?b5" "Page_Cache.holds ?b5 id g" using wroteD(1,4) [OF G(2)] A(3) s4(2) by auto
  have w2: "wal b2 \<noteq> None" using led_wal [OF tells_led [OF A(1)]] by blast
  have L3: "led tx (state_of b2) b2 b3 False" using image_led [OF A(2,3) q w2 _ li] by blast
  have L5: "led tx (state_of b3) b3 ?b5 True" using event_led [OF _ _ lr, of ?b5] led_wal [OF L3] by simp
  show ?thesis unfolding b'
    by (rule led_still [OF led_trans [OF led_trans [OF tells_led [OF A(1)] L3] L5] still_release])
qed

lemma relink_next_led:
  assumes ok: "pool_ok b" and lv: "nx \<noteq> kInvalidPageId \<Longrightarrow> live_page b nx" and w: "wal b \<noteq> None"
    and res: "relink_next nx np tx b = (kOk, gs, b')"
  shows "led tx (state_of b) b b' False"
proof (cases "nx = kInvalidPageId")
  case True
  then have "b' = b" using res by (simp add: relink_next_def)
  moreover have "still b b" by (simp add: still_def evolves_refl quiet_refl)
  ultimately show ?thesis using still_leads [of b b, OF _ w] by (auto simp: led_def intro!: exI [of _ "[]"])
next
  case False
  note lv = lv [OF False]
  obtain r b1 where ft: "FetchPageInternal b nx = (r, b1)" by fastforce
  obtain g where r: "r = Inr g"
    using res ft False pc.fetch_Inl [OF ok lv, of _ b1] by (cases r) (auto simp: relink_next_def io_error_def)
  have h: "pool_ok b1" "Page_Cache.holds b1 nx g" using pc.fetch_keeps [OF ok lv ft] pc.fetch_Inr [OF ok lv ft [unfolded r]] by auto
  have mq: "mem_ok (SetPrevLeaf (gpage b1 g) np)" using gpage_view(2) [OF h] by simp
  obtain s b2 where lg: "LogPageImage (set_gpage b1 g (SetPrevLeaf (gpage b1 g) np)) g tx False = (s, b2)" by fastforce
  have b': "b' = b2" using res ft r False lg guard_image(1) [OF h mq lg] by (auto simp: relink_next_def)
  note st = still_fetch [OF ok lv ft]
  have "led tx (state_of b1) b1 b2 False" using image_led [OF h mq _ _ lg] still_wal [OF st] w by blast
  then show ?thesis unfolding b' by (rule still_led [OF st w])
qed

lemma SplitLeaf_led:
  assumes ok: "pool_ok b" and h: "Page_Cache.holds b p g" and rp: "leaf_rep (gpage b g) es" and n: "unat (num_pages (meta (pager b))) + 1 < 2 ^ 32"
    and w: "wal b \<noteq> None" and nx: "GetNextLeaf (gpage b g) \<noteq> kInvalidPageId \<Longrightarrow> live_page b (GetNextLeaf (gpage b g))"
    and E: "\<And>j. j \<noteq> p \<Longrightarrow> E j = state_of b j" and res: "SplitLeaf g tx b = (Inr (ng, sk), gs, b')"
  shows "led tx E b b' False"
proof -
  let ?node = "gpage b g" let ?i = "NumKeys ?node div 2"
  obtain np b1 b2 lp b3 rp b4 where nw: "NewPage b = (Inr (ng, np), b1)" and le: "LogPageEvent b1 kAllocPage tx np False = (kOk, b2)"
    and lp: "fill_leaf (SetNextLeaf (SetPrevLeaf (InitLeaf (Page_Init (gid b2 g) kLeaf)) (GetPrevLeaf ?node)) np)
       (map (\<lambda>i. (GetKey ?node i, GetValueAt ?node i)) [0 ..< ?i]) = (True, lp)" and li: "LogPageImage (set_gpage b2 g lp) g tx False = (kOk, b3)"
    and rpg: "fill_leaf (SetNextLeaf (SetPrevLeaf (InitLeaf (Page_Init np kLeaf)) (gid b2 g)) (GetNextLeaf ?node))
       (map (\<lambda>i. (GetKey ?node i, GetValueAt ?node i)) [?i ..< NumKeys ?node]) = (True, rp)" and ri: "LogPageImage (set_gpage b3 ng rp) ng tx False = (kOk, b4)"
    and rl: "relink_next (GetNextLeaf ?node) np tx b4 = (kOk, gs, b')"
    using res by (auto simp: SplitLeaf_def Let_def split: prod.splits sum.splits if_splits)
  note A = alloc_tells [OF ok n w nw le]
  have st2: "state_of b2 = state_of b" using A(1) unlogged [of _ "state_of b"] by (auto simp: tells_def leads_def)
  have m: "mem_ok lp" "mem_ok rp" using half_leaf [OF rp _ lp] half_leaf [OF rp _ rpg] by simp_all
  have w2: "wal b2 \<noteq> None" using led_wal [OF tells_led [OF A(1)]] by blast
  note T = two_images_led [where E = E, OF A(2) A(4) [OF h] A(3) m w2 _ li ri]
  have L4: "led tx E b b4 False" by (rule tells_then [OF A(1) T(1)]) (use E st2 in simp)
  have "led tx (state_of b4) b4 b' False"
    by (rule relink_next_led [OF wroteD(1) [OF T(2)] _ _ rl]) (use nx A(6) wroteD(2) [OF T(2)] E st2 led_wal [OF L4] in auto)
  then show ?thesis by (rule led_trans [OF L4])
qed

lemma propagate_led:
  assumes "forest b cs h1 sk h2" and "path_held b cs stack" and "length sk < 65000"
    and "unat (num_pages (meta (pager b))) + length cs + 1 < 2 ^ 32" and "wal b \<noteq> None"
    and "propagate stack sk (troot h1) (troot h2) tx ops b = (kOk, ops', b')"
  shows "led tx (state_of b) b b' True"
  using assms
proof (induction cs arbitrary: b h1 sk h2 stack ops)
  case Nil
  have "pool_ok b" "unat (num_pages (meta (pager b))) + 1 < 2 ^ 32" using Nil.prems(1,4) by (simp_all add: forest_def)
  moreover have "CreateNewRoot sk (troot h1) (troot h2) tx b = (kOk, b')" using Nil.prems(2,6) by (auto split: prod.splits)
  ultimately show ?case using CreateNewRoot_led Nil.prems(3,5) by blast
next
  case (Cons c cs)
  obtain pp ls rs where c: "c = (pp, ls, rs)" by (cases c)
  obtain g stack' where st: "stack = g # stack'" "Page_Cache.holds b pp g" "path_held b cs stack'" using Cons.prems(2) c by auto
  note F = Cons.prems(1) [unfolded c]
  note P = forest_parent [OF F refl refl]
  obtain ins p where ip: "InsertInternalAfterSplit (gpage b g) sk (troot h1) (troot h2) = (ins, p)" by fastforce
  note ig = insert_at_guard [OF P(1) st(2) P(2,3) Cons.prems(3) P(5) ip]
  show ?case
  proof (cases ins)
    case True
    then have "LogPageImage (set_gpage b g p) g tx True = (kOk, b')" using Cons.prems(6) st(1) ip by (auto simp: Let_def split: prod.splits)
    then show ?thesis using image_led [OF P(1) st(2) _ Cons.prems(5)] ig(1) [OF True] by blast
  next
    case False
    then have p: "p = gpage b g" and ipf: "InsertInternalAfterSplit (gpage b g) sk (troot h1) (troot h2) = (False, p)" using ig(2) ip by simp_all
    obtain ng nk b1 q b2 where sp: "SplitInternal g tx b = (Inr (ng, nk), b1)"
      and q: "InsertInternalAfterSplit (gpage b1 (if sk < nk then g else ng)) sk (troot h1) (troot h2) = (True, q)"
      and lg: "LogPageImage (set_gpage b1 (if sk < nk then g else ng) q) (if sk < nk then g else ng) tx False = (kOk, b2)"
      and rec: "propagate stack' nk (gid b1 g) (gid b1 ng) tx (ng # ops) b2 = (kOk, ops', b')"
      using Cons.prems(6) SplitInternal_error [OF P(1), of g tx] io_error_not_ok unfolding st(1) propagate.simps ip p prod.case Let_def set_gpage_same
      by (fastforce simp: False split: prod.splits sum.splits if_splits)
    have n: "unat (num_pages (meta (pager b))) + 1 < 2 ^ 32" using Cons.prems(4) by simp
    obtain np L R where S: "wrote {pp} b b2" "gid b1 g = pp" "gid b1 ng = np" "troot L = pp" "troot R = np"
      "unat (num_pages (meta (pager b2))) \<le> unat (num_pages (meta (pager b))) + 1" "length nk < 65000" "forest b2 cs L nk R"
      using split_and_insert [OF F st(2) Cons.prems(3) n ipf sp refl q lg] by blast
    have L1: "led tx (state_of b) b b1 False" by (rule SplitInternal_led [OF P(1) st(2) P(2) n Cons.prems(5) sp])
    obtain np' where S1: "wrote {pp} b b1" "Page_Cache.holds b1 np' ng"
      "\<exists>zs rm. int_page (pview b1 (if sk < nk then pp else np')) zs rm"
      using SplitInternal_ok [OF P(1) st(2) P(2) n sp] by (cases "sk < nk") (auto split: if_splits)
    let ?tp = "if sk < nk then pp else np'" and ?t = "if sk < nk then g else ng"
    have ok1: "pool_ok b1" "Page_Cache.holds b1 ?tp ?t" using wroteD(1,4) [OF S1(1)] st(2) S1(2) by auto
    obtain zs where "int_rep (gpage b1 ?t) zs" using S1(3) gpage_leaf(2) [OF ok1] unfolding int_page_def by blast
    then have "mem_ok q" using InsertInternalAfterSplit_mem [OF _ gpage_view(2) [OF ok1] Cons.prems(3) q] by blast
    then have L2: "led tx (state_of b1) b1 b2 False" using image_led [OF ok1 _ _ _ lg] led_wal [OF L1] by blast
    have "path_held b2 cs stack'" by (rule path_held_mono [OF st(3)]) (rule wroteD(4) [OF S(1)])
    moreover have "unat (num_pages (meta (pager b2))) + length cs + 1 < 2 ^ 32" using S(6) Cons.prems(4) by simp
    ultimately have "led tx (state_of b2) b2 b' True"
      using Cons.IH [OF S(8) _ S(7)] led_wal [OF L2] rec unfolding S(2-5) by blast
    then show ?thesis by (rule led_trans [OF led_trans [OF L1 L2]])
  qed
qed

subsection \<open>Put\<close>

lemma put_split_led:
  assumes t: "tree_ok b (plug cs (Lf p es))" and k: "above (clo cs) k" "below (chi cs) k" "k \<notin> fst ` set es"
    and h: "Page_Cache.holds b p leaf" and full: "room (gpage b leaf) < length k + length v + 12" and sz: "4 + length k + length v \<le> 4048" "small_before bef"
    and ph: "path_held b cs stack" and o: "owns b f (leaf # stack)" and n: "unat (num_pages (meta (pager b))) + length cs + 2 < 2 ^ 32"
    and w: "wal b \<noteq> None" and E: "\<And>j. j \<noteq> p \<Longrightarrow> E j = state_of b j"
    and res: "put_split k v tx u bef replacing leaf stack b = (kOk, ops, b')"
  shows "led tx E b b' True"
proof -
  have ok: "pool_ok b" using t by (simp add: tree_ok_def)
  have nr: "leaf_rep (gpage b leaf) es" using t gpage_leaf(1) [OF ok h] by (simp add: tree_ok_def rep_plug)
  have ne: "es \<noteq> []" using empty_leaf_room [of "gpage b leaf"] nr full sz by auto
  have sz': "length k + length v < 65000" and n1: "unat (num_pages (meta (pager b))) + 1 < 2 ^ 32" using sz n by simp_all
  let ?i = "length es div 2"
  obtain r gs b1 where sl0: "SplitLeaf leaf tx b = (r, gs, b1)" by (metis prod_cases3)
  note S0 = SplitLeaf_ok [OF t h n1 ne o sl0]
  obtain ng sk where r: "r = Inr (ng, sk)" using S0 res sl0 by (cases r) (auto simp: put_split_def)
  note sl = sl0 [unfolded r]
  obtain np W where S: "sk = fst (es ! ?i)" "wrote W b b1" "Page_Cache.holds b1 np ng"
    "unat (num_pages (meta (pager b1))) \<le> unat (num_pages (meta (pager b))) + 1" "leaf_rep (pview b1 p) (take ?i es)" "leaf_rep (pview b1 np) (drop ?i es)"
    "sabove (clo cs) sk \<longrightarrow> forest b1 cs (Lf p (take ?i es)) sk (Lf np (drop ?i es))"
    using S0 unfolding r by auto
  have L1: "led tx E b b1 False"
    by (rule SplitLeaf_led [OF ok h nr n1 w _ E sl]) (use next_leaf_live [OF t] gpage_leaf(3) [OF ok h] in simp)
  have ok1: "pool_ok b1" "Page_Cache.holds b1 p leaf" using wroteD(1,4) [OF S(2)] h by auto
  have gids: "gid b1 leaf = p" "gid b1 ng = np" using gpage_view(3) [OF ok1] gpage_view(3) [OF ok1(1) S(3)] by auto
  define tg where "tg = (if k < sk then leaf else ng)"
  have htg: "Page_Cache.holds b1 (if k < sk then p else np) tg" using ok1 S(3) by (simp add: tg_def)
  obtain pg b2 where i: "InsertLeaf (gpage b1 tg) k v = (True, pg)"
    and lk: "LogKeyRecord (set_gpage b1 tg pg) kPut tx tg k v bef False u = (kOk, b2)"
    and pr0: "propagate stack sk p np tx (ng # gs) (if replacing then b2 else b2\<lparr>pager := AddToNumKeys (pager b2) 1\<rparr>) = (kOk, ops, b')"
    using res unfolding put_split_def sl prod.case sum.case Let_def tg_def [symmetric] gids by (auto split: prod.splits if_splits)
  have sa: "sabove (clo cs) sk"
  proof (rule split_key_above [OF t ne S(1) k(1) nr full])
    assume "sk \<le> k"
    then have "\<not> k < sk" by simp
    then show "leaf_rep (gpage b1 ng) (drop ?i es) \<and> InsertLeaf (gpage b1 ng) k v = (True, pg)"
      using i S(6) gpage_leaf(1) [OF ok1(1) S(3)] by (simp add: tg_def)
  qed
  have kt: "k \<notin> fst ` set (take ?i es)" using k(3) by (meson image_mono set_take_subset subsetD)
  obtain l r' where K: "wrote {if k < sk then p else np} b1 b2" "meta (pager b2) = meta (pager b1)" "forest b2 cs (Lf p l) sk (Lf np r')"
    using split_insert_leaf [OF S(7) [rule_format, OF sa] k(1,2) kt refl htg sz' i lk] by auto
  obtain e0 where e0: "leaf_rep (gpage b1 tg) e0" using S(5,6) gpage_leaf(1) [OF ok1(1) htg] by (cases "k < sk") auto
  note pp = conjunct1 [OF InsertLeaf_page [OF e0 gpage_view(2) [OF ok1(1) htg] sz' i]]
  have L2: "led tx (state_of b1) b1 b2 False"
    using put_led [where E = "state_of b1", OF ok1(1) htg e0 pp _ sz' sz(2) _ leaf_state [OF ok1(1) htg e0] refl lk] led_wal [OF L1] by simp
  define b3 where "b3 = (if replacing then b2 else b2\<lparr>pager := AddToNumKeys (pager b2) 1\<rparr>)"
  have L3: "led tx E b b3 False" using led_still [OF led_trans [OF L1 L2] still_count, of 1] led_trans [OF L1 L2] by (simp add: b3_def)
  have F3: "forest b3 cs (Lf p l) sk (Lf np r')" using K(3) forest_count by (simp add: b3_def)
  have "path_held b2 cs stack" by (rule path_held_mono [OF ph]) (rule wroteD(4) [OF K(1) wroteD(4) [OF S(2)]])
  then have ph3: "path_held b3 cs stack" using path_count by (simp add: b3_def)
  have n3: "unat (num_pages (meta (pager b3))) + length cs + 1 < 2 ^ 32" using n S(4) K(2) by (simp add: b3_def)
  have "?i < length es" using ne by (cases es) auto
  then have "es ! ?i \<in> set es" by (rule nth_mem)
  then have skl: "length sk < 65000" using leaf_entry_bound [OF nr, of sk "snd (es ! ?i)"] S(1) by simp
  have "led tx (state_of b3) b3 b' True"
    by (rule propagate_led [OF F3 ph3 skl n3]) (use led_wal [OF L3] pr0 in \<open>auto simp: b3_def\<close>)
  then show ?thesis by (rule led_trans [OF L3])
qed

text \<open>The log may still know the leaf with an earlier value of the key.\<close>

lemma insert_or_split_led:
  assumes t: "tree_ok b (plug cs (Lf p es))" and k: "above (clo cs) k" "below (chi cs) k" "k \<notin> fst ` set es"
    and h: "Page_Cache.holds b p leaf" and sz: "4 + length k + length v \<le> 4048" "small_before bef"
    and ph: "path_held b cs stack" and o: "owns b f (leaf # stack)" and n: "unat (num_pages (meta (pager b))) + length cs + 2 < 2 ^ 32"
    and w: "wal b \<noteq> None" and E: "\<And>j. j \<noteq> p \<Longrightarrow> E j = state_of b j" "fst (E p) = LeafPage es0 (GetNextLeaf (gpage b leaf))"
    and es0: "upsert k v es0 = upsert k v es" and res: "insert_or_split k v tx u bef replacing leaf stack b = (kOk, ops, b')"
  shows "led tx E b b' True"
proof -
  have ok: "pool_ok b" using t by (simp add: tree_ok_def)
  note F = at_leaf_facts [OF t at_leafI [OF ok h refl k(1,2)]]
  have sz': "length k + length v < 65000" using sz by simp
  obtain ins q where i: "InsertLeaf (gpage b leaf) k v = (ins, q)" by fastforce
  show ?thesis
  proof (cases ins)
    case False
    then have q: "q = gpage b leaf" "room (gpage b leaf) < length k + length v + 12" using InsertLeaf_fail [OF F(1) k(3), of v q] i by simp_all
    have "put_split k v tx u bef replacing leaf stack b = (kOk, ops, b')" using res i False q(1) by (simp add: insert_or_split_def)
    from put_split_led [where E = E, OF t k h q(2) sz ph o n w _ this] show ?thesis using E(1) by blast
  next
    case True
    have pp: "put_page (gpage b leaf) es k v q (ins_at es k v)" using InsertLeaf_page [OF F(1,4) sz', of q] i True by auto
    obtain s b1 where lk: "LogKeyRecord (set_gpage b leaf q) kPut tx leaf k v bef True u = (s, b1)" by fastforce
    have L: "led tx E b b1 True" using put_led [where E = E, OF ok h F(1) pp w sz' sz(2) _ E(2) es0 lk] E(1) by blast
    have "b' = (if replacing then b1 else b1\<lparr>pager := AddToNumKeys (pager b1) 1\<rparr>)"
      using res i True lk by (auto simp: insert_or_split_def andthen_def split: if_splits)
    then show ?thesis using L led_still [OF L still_count, of 1] by simp
  qed
qed

lemma upsert_removed: "sorted_wrt (<) (map fst es) \<Longrightarrow> upsert k v es = upsert k v (remove_key k es)"
  by (rule sorted_list_unique) (simp_all add: upsert_sorted remove_key_sorted upsert_map remove_key_map)

lemma led_start:
  assumes "led tx E a b f" and "wal a' = wal a" and "root_page_id (meta (pager a')) = root_page_id (meta (pager a))" and "live_page a' = live_page a"
  shows "led tx E a' b f"
  using assms by (simp add: led_def leads_def appends_def log_is_def log_bytes_def log_base_def)

text \<open>A value that does not fit in place: the old entry is removed without a record before the new one is inserted.\<close>

lemma replace_led:
  assumes t: "tree_ok b (plug cs (Lf p es))" and k: "above (clo cs) k" "below (chi cs) k" "k \<in> fst ` set es"
    and h: "Page_Cache.holds b p leaf" and sz: "4 + length k + length v \<le> 4048" "small_before bef"
    and ph: "path_held b cs stack" and o: "owns b f (leaf # stack)" and n: "unat (num_pages (meta (pager b))) + length cs + 2 < 2 ^ 32"
    and w: "wal b \<noteq> None" and d: "DeleteAt (gpage b leaf) (lb (map fst es) k) = (True, d)"
    and res: "insert_or_split k v tx u bef True leaf stack (MarkDirty (set_gpage b leaf d) leaf) = (kOk, ops, b')"
  shows "led tx (state_of b) b b' True"
proof -
  have ok: "pool_ok b" using t by (simp add: tree_ok_def)
  note l = at_leafI [OF ok h refl k(1,2), of es] note F = at_leaf_facts [OF t l]
  have so: "sorted_wrt (<) (map fst es)" using F(1) by (simp add: leaf_rep_def)
  let ?i = "lb (map fst es) k" let ?es = "take ?i es @ drop (Suc ?i) es"
  note i = lb_entry [OF so k(3)] and D = DeleteAt_leaf [OF F(1) d]
  have dm: "mem_ok d" using DeleteAt_mem [of "gpage b leaf" ?i] F(1,4) d by (simp add: leaf_rep_def)
  have es: "?es = remove_key k es"
    by (rule sorted_list_unique [OF _ remove_key_sorted [OF so]]) (use D(2,4) i(2) remove_key_map in \<open>auto simp: leaf_rep_def\<close>)
  have lr: "leaf_rep d (remove_key k es)" using D(2) es by simp
  let ?x = "page_lsn (hdr d)" let ?b2 = "(guard_write b leaf (at_lsn d ?x))\<lparr>wal := wal b\<rparr>"
  have gw: "MarkDirty (set_gpage b leaf d) leaf = ?b2" by (simp add: set_then_mark) (simp add: guard_write_def MarkDirty_def set_frame_def)
  have "fst ` set (remove_key k es) \<subseteq> insert k (fst ` set es)" by auto
  note lw = leaf_write [where x = ?x and w = "wal b", OF t l lr dm same_next [OF D(3)] this refl]
  note W = wrote_guard [where x = ?x and w = "wal b", OF ok h dm]
  have h2: "Page_Cache.holds ?b2 p leaf" "pool_ok ?b2" using wroteD(1,4) [OF W(1)] h by auto
  have ph2: "path_held ?b2 cs stack" by (rule path_held_mono [OF ph]) (rule wroteD(4) [OF W(1)])
  have o2: "owns ?b2 f (leaf # stack)" by (rule owns_wrote [OF ok o W(1,3)])
  have n2: "unat (num_pages (meta (pager ?b2))) + length cs + 2 < 2 ^ 32" using n W(4) by simp
  have kd: "k \<notin> fst ` set (remove_key k es)" by auto
  have "state_of b j = state_of ?b2 j" if "j \<noteq> p" for j using fun_cong [OF state_write [where l = ?x and w = "wal b", OF ok h dm], of j] that by simp
  moreover have "GetNextLeaf (gpage ?b2 leaf) = GetNextLeaf (gpage b leaf)"
    using guard_write_simps(3) [OF holds_frame [OF ok h]] same_next [OF D(3)] by simp
  then have "fst (state_of b p) = LeafPage es (GetNextLeaf (gpage ?b2 leaf))" using leaf_state [OF ok h F(1)] by simp
  moreover have "wal ?b2 \<noteq> None" using w by simp
  ultimately have "led tx (state_of b) ?b2 b' True"
    using insert_or_split_led [where E = "state_of b", OF lw(1) k(1,2) kd h2(1) sz ph2 o2 n2 _ _ _ upsert_removed [OF so] res [unfolded gw]] by blast
  then show ?thesis
    by (rule led_start) (use pc.update_one [OF ok h, of "at_lsn d ?x"] dm in simp_all)
qed

lemma put_on_path_led:
  assumes t: "tree_ok b t" and tp: "t = plug cs (Lf p es)" and k: "above (clo cs) k" "below (chi cs) k"
    and h: "Page_Cache.holds b p leaf" and sz: "4 + length k + length v \<le> 4048"
    and ph: "path_held b cs stack" and o: "owns b f (leaf # stack)" and n: "unat (num_pages (meta (pager b))) + length cs + 2 < 2 ^ 32"
    and w: "wal b \<noteq> None" and res: "put_on_path k v tx u leaf stack b = (kOk, bef, b')"
  shows "led tx (state_of b) b b' True"
proof -
  have ok: "pool_ok b" using t by (simp add: tree_ok_def)
  note l = at_leafI [OF ok h tp k] note F = at_leaf_facts [OF t l]
  have sz': "length k + length v < 65000" using sz by simp
  let ?i = "lb (map fst es) k" let ?found = "k \<in> fst ` set es"
  let ?bef = "if u \<and> ?found then Some (GetValueAt (gpage b leaf) ?i) else None"
  have fk: "FindKeyIndex (gpage b leaf) k = (?i, ?found)" by (rule leaf_FindKeyIndex [OF F(1)])
  have so: "sorted_wrt (<) (map fst es)" using F(1) by (simp add: leaf_rep_def)
  have sb: "small_before ?bef" using before_small [OF F(1)] lb_entry(1) [OF so] by simp
  have st: "fst (state_of b p) = LeafPage es (GetNextLeaf (gpage b leaf))" by (rule leaf_state [OF ok h F(1)])
  have fresh: "led tx (state_of b) b b1 True" if "insert_or_split k v tx u ?bef False leaf stack b = (kOk, ops, b1)" "\<not> ?found" for ops b1
    using insert_or_split_led [where E = "state_of b", OF t [unfolded tp] k that(2) h sz sb ph o n w _ st refl that(1)] by simp
  show ?thesis
  proof (cases ?found)
    case False
    then obtain ops b1 where "insert_or_split k v tx u ?bef False leaf stack b = (kOk, ops, b1)" "b' = release_all (leaf # stack @ ops) b1"
      using res fk unfolding put_on_path_def by (auto simp: Let_def split: prod.splits)
    then show ?thesis using led_still [OF fresh still_release_all] False by blast
  next
    case True
    obtain upd q where q: "UpdateLeaf (gpage b leaf) k v = (upd, q)" by fastforce
    show ?thesis
    proof (cases upd)
      case upd: True
      obtain es' where pp: "put_page (gpage b leaf) es k v q es'" using UpdateLeaf_page [OF F(1,4) sz', of q] q upd by auto
      obtain b1 where lk: "LogKeyRecord (set_gpage b leaf q) kPut tx leaf k v ?bef True u = (kOk, b1)" and b': "b' = release_all (leaf # stack @ []) b1"
        using res fk True q upd unfolding put_on_path_def by (auto simp: Let_def split: prod.splits)
      have "led tx (state_of b) b b1 True" using put_led [where E = "state_of b", OF ok h F(1) pp w sz' sb _ st refl lk] by simp
      then show ?thesis unfolding b' by (rule led_still [OF _ still_release_all])
    next
      case noupd: False
      then have q': "q = gpage b leaf" using UpdateLeaf_fail [OF F(1), of k v q] q sz by simp
      note i = lb_entry [OF so True]
      obtain d where d: "DeleteAt (gpage b leaf) ?i = (True, d)" using DeleteAt_leaf(1) [OF F(1)] i(1) by (metis (full_types) prod.exhaust_sel)
      note D = DeleteAt_leaf [OF F(1) d]
      let ?b2 = "MarkDirty (set_gpage b leaf d) leaf"
      obtain ops b1 where io: "insert_or_split k v tx u ?bef True leaf stack ?b2 = (kOk, ops, b1)" and b': "b' = release_all (leaf # stack @ ops) b1"
        using res fk True q noupd q' d unfolding put_on_path_def by (auto simp: Let_def split: prod.splits)
      have "led tx (state_of b) b b1 True" by (rule replace_led [OF t [unfolded tp] k True h sz sb ph o n w d io])
      then show ?thesis unfolding b' by (rule led_still [OF _ still_release_all])
    qed
  qed
qed

lemma PutPessimistic_led:
  assumes t: "tree_ok b t" and sz: "4 + length k + length v \<le> 4048" and rm: "roomy b" and w: "wal b \<noteq> None"
    and res: "PutPessimistic k v tx u bef0 b = Some (kOk, bef, b')"
  shows "led tx (state_of b) b b' True"
proof -
  have ok: "pool_ok b" and ne: "\<not> IsEmpty b" and root: "root_page_id (meta (pager b)) = troot t"
    using t rep_root [of "pview b" t] by (auto simp: IsEmpty_def tree_ok_def)
  have o0: "owns b (PinCount b) []" by (simp add: owns_def)
  obtain r b1 where dp: "descend_path k (troot t) [] b = Some (r, b1)" and rd: "pc.reads b b1"
    and R: "case r of Inl s \<Rightarrow> io_error s \<and> PinCount b1 = PinCount b
     | Inr gs \<Rightarrow> \<exists>g gs' cs' p es. gs = g # gs' \<and> owns b1 (PinCount b) gs \<and> path_held b1 cs' gs' \<and> Page_Cache.holds b1 p g \<and>
         t = plug cs' (Lf p es) \<and> above (clo cs') k \<and> below (chi cs') k"
    using descend_path_ok [OF t, of "[]" t k "PinCount b" "[]"] o0 by (auto simp: bound_defs)
  have st: "still b b1" by (rule still_reads [OF rd]) (use dp descend_path_evo descend_path_hush evolves_refl quiet_refl in blast)+
  have "PutPessimistic k v tx u bef0 b = Some (case r of Inr (leaf # stack) \<Rightarrow> put_on_path k v tx u leaf stack b1
      | Inr [] \<Rightarrow> (kInternal, bef0, b1) | Inl s \<Rightarrow> (s, bef0, b1))"
    using ne dp root by (simp add: PutPessimistic_def)
  then obtain g gs cs p es where G: "r = Inr (g # gs)" "owns b1 (PinCount b) (g # gs)" "path_held b1 cs gs" "Page_Cache.holds b1 p g"
    "t = plug cs (Lf p es)" "above (clo cs) k" "below (chi cs) k" and pp: "put_on_path k v tx u g gs b1 = (kOk, bef, b')"
    using R res by (cases r) (auto simp: io_error_def)
  have t1: "tree_ok b1 t" by (rule tree_ok_reads [OF t rd])
  have "roomy b1" using rm rd by (simp add: roomy_def pc.reads_def)
  then have n: "unat (num_pages (meta (pager b1))) + length cs + 2 < 2 ^ 32" using roomy_path [of b1 cs "Lf p es"] t1 G(5) by simp
  have "led tx (state_of b1) b1 b' True"
    using put_on_path_led [OF t1 G(5-7,4) sz G(3,2) n _ pp] still_wal [OF st] w by simp
  then show ?thesis by (rule still_led [OF st w])
qed

lemma create_root_leaf_led:
  assumes ok: "pool_ok b" and sz: "4 + length k + length v \<le> 4048" and rm: "roomy b" and w: "wal b \<noteq> None"
    and res: "create_root_leaf k v tx bef0 b = (kOk, bef, b')"
  shows "led tx (state_of b) b b' True"
proof -
  have n: "unat (num_pages (meta (pager b))) + 1 < 2 ^ 32" and sz': "length k + length v < 65000" using rm sz by (simp_all add: roomy_def)
  obtain g id b1 where nw: "NewPage b = (Inr (g, id), b1)"
    using res NewPage_error [OF ok] io_error_not_ok by (fastforce simp: create_root_leaf_def split: prod.splits sum.splits)
  let ?p0 = "InitLeaf (Page_Init id kLeaf)"
  obtain ins p where ip: "InsertLeaf ?p0 k v = (ins, p)" by fastforce
  have i: "ins" using res nw ip by (auto simp: create_root_leaf_def Let_def split: if_splits)
  have q: "mem_ok p" using InsertLeaf_page [OF InitLeaf_rep empty_nodes(4) sz', of id kLeaf p] ip i by (simp add: put_page_def)
  obtain y where y: "wal b1 = Some y" using still_wal [OF still_new [OF ok n nw]] w by auto
  define x where "x = Some (snd (Append y (LogRecord_init\<lparr>rtype := kAllocPage, txid := tx, rpage := id, op_end := False\<rparr>)))"
  have le: "LogPageEvent b1 kAllocPage tx id False = (kOk, b1\<lparr>wal := x\<rparr>)" using y by (simp add: LogPageEvent_def x_def split: prod.split)
  have le': "LogPageEvent (set_gpage b1 g p) kAllocPage tx id False = (kOk, set_gpage (b1\<lparr>wal := x\<rparr>) g p)"
    using y by (simp add: LogPageEvent_def x_def set_gpage_def set_frame_def split: prod.split)
  let ?b2 = "b1\<lparr>wal := x\<rparr>"
  note A = alloc_tells [OF ok n w nw le]
  obtain s3 b3 where li: "LogPageImage (set_gpage ?b2 g p) g tx False = (s3, b3)" by fastforce
  note G = guard_image [OF A(2,3) q li]
  obtain s4 b4 where lr: "LogPageEvent b3 kRootChange tx id True = (s4, b4)" by fastforce
  let ?b5 = "b4\<lparr>pager := SetRootPageId (pager b4) id\<rparr>"
  have s4: "s4 = kOk" using LogPageEvent_wal [of b3 kRootChange tx id True] lr by auto
  have b': "b' = ReleaseGuard (?b5\<lparr>pager := AddToNumKeys (pager ?b5) 1\<rparr>) g"
    using res nw ip i le' li G(1) lr s4 by (simp add: create_root_leaf_def andthen_def Let_def)
  have L2: "led tx (state_of b) b ?b2 False" by (rule tells_led [OF A(1)])
  have L3: "led tx (state_of ?b2) ?b2 b3 False" using image_led [OF A(2,3) q _ _ li] led_wal [OF L2] by blast
  have L5: "led tx (state_of b3) b3 ?b5 True" using event_led [OF _ _ lr, of ?b5] led_wal [OF L3] by simp
  show ?thesis unfolding b'
    by (rule led_still [OF led_still [OF led_trans [OF led_trans [OF L2 L3] L5] still_count] still_release])
qed

lemma Put_led:
  assumes st: "stored_off d b es" and rm: "roomy b" and w: "wal b \<noteq> None" and res: "Put k v tx u b = Some (kOk, bef, b')"
  shows "led tx (state_of b) b b' True"
proof -
  have sz: "4 + length k + length v \<le> 4048" using res by (auto simp: Put_def kMaxLeafRecordBytes_def layout_defs split: if_splits)
  then have sz': "length k + length v < 65000" and fits: "\<not> kMaxLeafRecordBytes < 4 + length k + length v" by (simp_all add: kMaxLeafRecordBytes_def layout_defs)
  show ?thesis using st
  proof (cases rule: stored_cases)
    case 1
    then have "create_root_leaf k v tx None b = (kOk, bef, b')" using res fits by (simp add: Put_def PutPessimistic_def)
    then show ?thesis by (rule create_root_leaf_led [OF 1(1) sz rm w])
  next
    case (2 t)
    have ne: "\<not> IsEmpty b" using 2(1) rep_root [of "pview b" t] by (auto simp: IsEmpty_def tree_ok_def)
    obtain r b1 where lg: "leaf_guard k b = Some (r, b1)" "pc.reads b b1"
      "case r of Inl s \<Rightarrow> io_error s \<and> PinCount b1 = PinCount b | Inr g \<Rightarrow> \<exists>cs p es. at_leaf b1 t k (PinCount b) g cs p es"
      using leaf_guard_ok [OF 2(1), of k] by auto
    obtain g where r: "r = Inr g" using lg(1,3) res ne fits io_error_not_ok by (cases r) (auto simp: Put_def)
    then obtain cs p es' where l: "at_leaf b1 t k (PinCount b) g cs p es'" using lg(3) by auto
    have t1: "tree_ok b1 t" by (rule tree_ok_reads [OF 2(1) lg(2)])
    let ?b2 = "ReleaseGuard b1 g"
    note rl = at_leaf_release [OF t1 l] and gp = at_leaf_facts(6) [OF t1 l]
    note t2 = tree_ok_reads [OF t1 rl(1)]
    have "pool_ok b1" "Page_Cache.holds b1 p g" using t1 l by (auto simp: tree_ok_def at_leaf_def)
    then have ok2: "pool_ok ?b2" "live_page ?b2 p" using t2 rl(1) pc.holds_page [of b1 p g] by (auto simp: tree_ok_def pc.reads_def)
    obtain x b3 where ft: "FetchPageInternal ?b2 p = (x, b3)" by fastforce
    obtain h where x: "x = Inr h"
      using pc.fetch_Inl [OF ok2, of _ b3] ft res lg(1) r gp ne fits io_error_not_ok by (cases x) (auto simp: Put_def)
    have l3: "at_leaf b3 t k (PinCount b) h cs p es'" using pc.fetch_Inr [OF ok2 ft [unfolded x]] rl(2) l by (simp add: at_leaf_def)
    have t3: "tree_ok b3 t" by (rule tree_ok_reads [OF t2 pc.fetch_reads [OF ok2 ft]])
    have "still b b1" by (rule still_reads [OF lg(2)]) (use lg(1) leaf_guard_evo leaf_guard_hush evolves_refl quiet_refl in blast)+
    then have s3: "still b b3" using still_trans still_release still_fetch [OF ok2 ft] by blast
    then have w3: "wal b3 \<noteq> None" using still_wal [of b b3] w by simp
    obtain y bef1 b4 where y: "put_fast k v tx u h b3 = (y, bef1, b4)" by (metis prod_cases3)
    have P: "Put k v tx u b = (case y of Some s \<Rightarrow> Some (s, bef1, ReleaseGuard b4 h) | None \<Rightarrow> PutPessimistic k v tx u bef1 (ReleaseGuard b4 h))"
      using lg(1) r gp ft x ne fits y by (simp add: Put_def Let_def)
    show ?thesis
    proof (cases y)
      case (Some s)
      then have "b' = ReleaseGuard b4 h" using P res by simp
      then show ?thesis using still_led [OF s3 w led_still [OF put_fast_led [OF t3 l3 sz' w3 y [unfolded Some]] still_release]] by simp
    next
      case None
      let ?b5 = "ReleaseGuard b3 h"
      have "b4 = b3" using put_fast_ok(2) [OF t3 l3 sz' y] None by simp
      then have pp: "PutPessimistic k v tx u bef1 ?b5 = Some (kOk, bef, b')" using P res None by simp
      have s5: "still b ?b5" by (rule still_trans [OF s3 still_release])
      note rl3 = at_leaf_release [OF t3 l3]
      have "roomy ?b5" using rm rl3(1) rl(1) lg(2) pc.fetch_reads [OF ok2 ft] by (simp add: roomy_def pc.reads_def)
      then have "led tx (state_of ?b5) ?b5 b' True"
        using PutPessimistic_led [OF tree_ok_reads [OF t3 rl3(1)] sz _ _ pp] still_wal [OF s5] w by blast
      then show ?thesis by (rule still_led [OF s5 w])
    qed
  qed
qed

end
