(* ===== verification/Replay.thy ===== *)
theory Replay
  imports Log_Splits
begin

section \<open>Writes survive a crash\<close>

text \<open>
  Sequences of writes, the log they leave, and what recovery makes of it.
\<close>

subsection \<open>Sequences of writes\<close>

datatype tree_op = PutOp key bytes TxId bool | DeleteOp key TxId bool | GetOp key | FlushOp

fun do_op :: "tree_op \<Rightarrow> BufferPool \<Rightarrow> (Status \<times> BufferPool) option" where
  "do_op (PutOp k v tx u) b = map_option (\<lambda>(s, _, b). (s, b)) (Put k v tx u b)"
| "do_op (DeleteOp k tx u) b = map_option (\<lambda>(s, _, b). (s, b)) (Delete k tx u b)"
| "do_op (GetOp k) b = map_option (\<lambda>(r, b). (case r of Inl s \<Rightarrow> s | Inr _ \<Rightarrow> kOk, b)) (Get k b)"
| "do_op FlushOp b = Some (wal_flush b)"

text \<open>The outcomes that are not storage errors; all other statuses poison the handle.\<close>

definition orderly :: "Status \<Rightarrow> bool" where
  "orderly s \<longleftrightarrow> s = kOk \<or> s = kNotFound \<or> s = kInvalidArgument"

text \<open>A sequence of them, as long as the storage works.\<close>

fun perform :: "tree_op list \<Rightarrow> BufferPool \<Rightarrow> BufferPool option" where
  "perform [] b = Some b"
| "perform (x # xs) b = Option.bind (do_op x b) (\<lambda>(s, b). if orderly s then perform xs b else None)"

text \<open>There are page ids left before each of them.\<close>

fun roomy_run :: "tree_op list \<Rightarrow> BufferPool \<Rightarrow> bool" where
  "roomy_run [] b = True"
| "roomy_run (x # xs) b = (roomy b \<and> (case do_op x b of None \<Rightarrow> True | Some (s, b) \<Rightarrow> roomy_run xs b))"

text \<open>What they do to the entries: a record that does not fit a page is refused.\<close>

fun apply_op :: "tree_op \<Rightarrow> (key \<times> bytes) list \<Rightarrow> (key \<times> bytes) list" where
  "apply_op (PutOp k v tx u) es = (if kMaxLeafRecordBytes < 4 + length k + length v then es else upsert k v es)"
| "apply_op (DeleteOp k tx u) es = remove_key k es"
| "apply_op (GetOp k) es = es"
| "apply_op FlushOp es = es"

text \<open>Every record is followed by the end of its operation.\<close>

definition finished :: "LogRecord list \<Rightarrow> bool" where
  "finished rs \<longleftrightarrow> (\<forall>j < length rs. \<exists>i. j \<le> i \<and> i < length rs \<and> txid (rs ! i) = txid (rs ! j) \<and> op_end (rs ! i))"

lemma finished_append: "finished rs \<Longrightarrow> finished rs' \<Longrightarrow> finished (rs @ rs')"
proof -
  assume f: "finished rs" "finished rs'"
  have "\<exists>i. j \<le> i \<and> i < length (rs @ rs') \<and> txid ((rs @ rs') ! i) = txid ((rs @ rs') ! j) \<and> op_end ((rs @ rs') ! i)" if j: "j < length (rs @ rs')" for j
  proof (cases "j < length rs")
    case True
    then obtain i where "j \<le> i" "i < length rs" "txid (rs ! i) = txid (rs ! j)" "op_end (rs ! i)" using f(1) by (auto simp: finished_def)
    then show ?thesis using True by (intro exI [of _ i]) (simp add: nth_append)
  next
    case False
    then obtain i where "j - length rs \<le> i" "i < length rs'" "txid (rs' ! i) = txid (rs' ! (j - length rs))" "op_end (rs' ! i)"
      using f(2) j unfolding finished_def by (metis add_diff_inverse_nat length_append nat_add_left_cancel_less)
    then show ?thesis using False by (intro exI [of _ "length rs + i"]) (simp add: nth_append)
  qed
  then show ?thesis by (simp add: finished_def)
qed

lemma finished_operation: "(\<forall>r \<in> set rs. txid r = tx) \<Longrightarrow> rs \<noteq> [] \<Longrightarrow> op_end (last rs) \<Longrightarrow> finished rs"
  unfolding finished_def by (intro allI impI exI [of _ "length rs - 1"]) (auto simp: last_conv_nth)

lemma finished_still: "still b b' \<Longrightarrow> wal b \<noteq> None \<Longrightarrow> \<exists>rs. leads (state_of b) b b' rs \<and> finished rs"
  using still_leads by (auto simp: finished_def intro!: exI [of _ "[]"])

lemma finished_led: "led tx (state_of b) b b' True \<Longrightarrow> \<exists>rs. leads (state_of b) b b' rs \<and> finished rs"
  using finished_operation by (auto simp: led_def)

lemma put_step:
  assumes st: "stored_off d b es" and rm: "roomy b" and w: "wal b \<noteq> None" and p: "Put k v tx u b = Some (s, bef, b')" and o: "orderly s"
  shows "stored_off d b' (apply_op (PutOp k v tx u) es)" and "\<exists>rs. leads (state_of b) b b' rs \<and> finished rs"
proof -
  have max: "kMaxLeafRecordBytes = 4048" by (simp add: kMaxLeafRecordBytes_def layout_defs)
  have "s = kOk \<and> stored_off d b' (upsert k v es) \<or> 4048 < 4 + length k + length v \<and> b' = b"
    using Put_stored [OF st rm, of k v tx u] p o by (auto simp: orderly_def io_error_def split: if_splits)
  moreover have "\<not> 4048 < 4 + length k + length v" if "s = kOk" using p that max by (auto simp: Put_def split: if_splits)
  moreover have "still b b" by (simp add: still_def evolves_refl quiet_refl)
  ultimately show "stored_off d b' (apply_op (PutOp k v tx u) es)" "\<exists>rs. leads (state_of b) b b' rs \<and> finished rs"
    using st max finished_still [OF _ w] finished_led [OF Put_led [OF st rm w]] p by auto
qed

text \<open>A lookup, and a deletion that finds nothing, only read.\<close>

lemma guard_still:
  assumes "leaf_guard k b = Some (r, b1)" and "pc.reads b b'" and "b' = b1 \<or> b' = ReleaseGuard b1 g"
  shows "still b b'"
  using leaf_guard_evo [OF assms(1) evolves_refl] leaf_guard_hush [OF assms(1) quiet_refl] assms(3) by (intro still_reads [OF assms(2)]) auto

lemma LogKeyRecord_status: "fst (LogKeyRecord b t tx g k v bef oe u) = kOk"
  using LogPage_status(1) [of "MarkDirty b g" g tx "oe \<and> \<not> u"]
  by (auto simp: LogKeyRecord_def log_delta_def andthen_def Let_def split: option.split prod.split)

lemma Delete_missed:
  assumes t: "tree_ok b t" and p: "Delete k tx u b = Some (kNotFound, bef, b')"
  shows "still b b'"
proof -
  obtain r b1 where lg: "leaf_guard k b = Some (r, b1)" using p by (auto simp: Delete_def)
  have "pc.reads b b'" using Delete_tree [OF t, of k tx u] p by auto
  moreover have "b2 = b1" if d: "delete_at_leaf k tx u g b1 = (kNotFound, bef, b2)" for g b2
  proof -
    have "LogKeyRecord c kDelete tx g k [] x True u \<noteq> (kNotFound, y)" for c x y
      using LogKeyRecord_status [of c kDelete tx g k "[]" x True u] by auto
    then show ?thesis using d by (auto simp: delete_at_leaf_def Let_def split: prod.splits if_splits)
  qed
  then have "b' = b1 \<or> (\<exists>g. b' = ReleaseGuard b1 g)" using p lg by (auto simp: Delete_def split: sum.splits prod.splits)
  ultimately show ?thesis using guard_still [OF lg] by blast
qed

lemma delete_step:
  assumes st: "stored_off d b es" and w: "wal b \<noteq> None" and p: "Delete k tx u b = Some (s, bef, b')" and o: "orderly s"
  shows "stored_off d b' (remove_key k es)" and "\<exists>rs. leads (state_of b) b b' rs \<and> finished rs"
proof -
  have D: "if s = kOk then stored_off d b' (remove_key k es) \<and> map_of es k \<noteq> None else stored_off d b' es \<and> s = kNotFound \<and> map_of es k = None"
    using Delete_stored [OF st, of k tx u] p o by (auto simp: orderly_def io_error_def split: if_splits)
  have "remove_key k es = es" if "map_of es k = None" using that by (induction es) (auto split: if_splits)
  then show "stored_off d b' (remove_key k es)" using D by (auto split: if_splits)
  show "\<exists>rs. leads (state_of b) b b' rs \<and> finished rs" using st
  proof (cases rule: stored_cases)
    case 1
    then have "b' = b" using p by (auto simp: Delete_def leaf_guard_def)
    then show ?thesis using finished_still [OF _ w] by (simp add: still_def evolves_refl quiet_refl)
  next
    case (2 t)
    then show ?thesis
      using finished_led [OF Delete_led [OF 2(1) w]] finished_still [OF Delete_missed [OF 2(1)] w] p D by (cases "s = kOk") auto
  qed
qed

lemma get_step:
  assumes st: "stored_off d b es" and p: "Get k b = Some (r, b')"
  shows "still b b'"
proof -
  have "pc.reads b b'" using Get_stored [OF st, of k] p by auto
  moreover obtain r1 b1 where lg: "leaf_guard k b = Some (r1, b1)" using p by (auto simp: Get_def)
  moreover have "b' = b1 \<or> (\<exists>g. b' = ReleaseGuard b1 g)" using p lg by (auto simp: Get_def split: sum.splits)
  ultimately show ?thesis using guard_still by blast
qed

lemma flush_step:
  assumes "wal_flush b = (s, b')"
  shows "still b b'"
proof -
  have "evolves b b'" using assms evolves_flush evolves_refl by (auto simp: wal_flush_def split: option.splits prod.splits)
  moreover have "quiet b b'"
    using assms by (auto simp: wal_flush_def Flush_def quiet_def log_bytes_def log_base_def dest: FlushLocked_bytes FlushLocked_base split: option.splits prod.splits)
  moreover have s: "pager b' = pager b" "page_table b' = page_table b" "frames b' = frames b"
    using assms by (auto simp: wal_flush_def split: option.splits prod.splits)
  then have "pview b' = pview b" "live_page b' = live_page b" by (simp_all add: pview_def live_page_def free_pages_def fun_eq_iff cong: option.case_cong)
  ultimately show ?thesis using s(1) by (simp add: still_def state_of_def fun_eq_iff)
qed

lemma op_step:
  assumes st: "stored_off d b es" and rm: "roomy b" and w: "wal b \<noteq> None" and res: "do_op x b = Some (s, b')" and o: "orderly s"
  shows "stored_off d b' (apply_op x es) \<and> (\<exists>rs. leads (state_of b) b b' rs \<and> finished rs)"
proof (cases x)
  case (PutOp k v tx u)
  then show ?thesis using res put_step [OF st rm w _ o, of k v tx u] by (fastforce simp del: apply_op.simps)
next
  case (DeleteOp k tx u)
  then show ?thesis using res delete_step [OF st w _ o, of k tx u] by fastforce
next
  case (GetOp k)
  then obtain r where g: "Get k b = Some (r, b')" using res by auto
  have "pc.reads b b'" using Get_stored [OF st, of k] g by auto
  then show ?thesis using stored_reads [OF st] finished_still [OF get_step [OF st g] w] GetOp by simp
next
  case FlushOp
  then have f: "wal_flush b = (s, b')" using res by simp
  have "stored_off d b' es" using same_store_stored [OF wal_flush_ok(1) [OF stored_inv [OF st] f] st] .
  then show ?thesis using finished_still [OF flush_step [OF f] w] FlushOp by simp
qed

lemma perform_leads:
  assumes "stored_off d a es" and "wal a \<noteq> None" and "roomy_run xs a" and "perform xs a = Some b"
  shows "stored_off d b (fold apply_op xs es) \<and> (\<exists>rs. leads (state_of a) a b rs \<and> finished rs)"
  using assms
proof (induction xs arbitrary: a es)
  case Nil
  then show ?case using finished_still [of a b] by (simp add: still_def evolves_refl quiet_refl)
next
  case (Cons x xs)
  obtain s a1 where x: "do_op x a = Some (s, a1)" "orderly s" and xs: "perform xs a1 = Some b"
    using Cons.prems(4) by (auto simp: Option.bind_eq_Some_conv split: if_splits)
  have r: "roomy a" "roomy_run xs a1" using Cons.prems(3) x by auto
  obtain rs where W: "stored_off d a1 (apply_op x es)" and rs: "leads (state_of a) a a1 rs" "finished rs"
    using op_step [OF Cons.prems(1) r(1) Cons.prems(2) x] by blast
  have "wal a1 \<noteq> None" using rs(1) by (simp add: leads_def appends_def flip: log_base_None)
  with Cons.IH [OF W] r xs obtain rs' where "stored_off d b (fold apply_op xs (apply_op x es))" "leads (state_of a1) a1 b rs'" "finished rs'" by blast
  then show ?case using leads_trans [OF rs(1)] finished_append [OF rs(2)] by auto
qed

subsection \<open>The log of a run\<close>

lemma good_log_nth: "good_log E rs \<Longrightarrow> j < length rs \<Longrightarrow> (changes_page (rs ! j) \<or> rtype (rs ! j) = kAllocPage \<longrightarrow> rpage (rs ! j) \<noteq> kInvalidPageId) \<and>
    (rtype (rs ! j) = kPageImage \<longrightarrow> image_ok (rs ! j)) \<and> (changes_page (rs ! j) \<longrightarrow> change_fits (rs ! j) (fst (history (take j rs) E (rpage (rs ! j)))))"
proof (induction rs arbitrary: E j)
  case (Cons r rs)
  then show ?case by (cases j) auto
qed simp

text \<open>LSNs are byte offsets: they grow along the log while they do not wrap around.\<close>

lemma chain_lsns:
  assumes "chain l rs" and "unat l + length (ser rs) < 2 ^ 64"
  shows "sorted_wrt (<) (map lsn rs)" and "\<forall>r \<in> set rs. l \<le> lsn r \<and> unat (lsn r) < unat l + length (ser rs)"
proof -
  have "sorted_wrt (<) (map lsn rs) \<and> (\<forall>r \<in> set rs. l \<le> lsn r \<and> unat (lsn r) < unat l + length (ser rs))"
    using assms
  proof (induction rs arbitrary: l)
    case (Cons r rs)
    have s: "length (ser (r # rs)) = SerializedSize r + length (ser rs)" "31 \<le> SerializedSize r" using SerializedSize_ge by (simp_all add: ser_def)
    have u: "unat (l + of_nat (SerializedSize r)) = unat l + SerializedSize r"
      using Cons.prems(2) s by (simp add: unat_word_ariths unat_of_nat)
    have IH: "sorted_wrt (<) (map lsn rs)" "\<And>x. x \<in> set rs \<Longrightarrow> l + of_nat (SerializedSize r) \<le> lsn x \<and> unat (lsn x) < unat l + length (ser (r # rs))"
      using Cons.IH [of "l + of_nat (SerializedSize r)"] Cons.prems s u by auto
    have "l < lsn x" if "x \<in> set rs" for x using IH(2) [OF that] u s by (simp add: word_less_nat_alt word_le_nat_alt)
    then show ?case using IH Cons.prems(1) s by (auto intro: less_imp_le)
  qed simp
  then show "sorted_wrt (<) (map lsn rs)" "\<forall>r \<in> set rs. l \<le> lsn r \<and> unat (lsn r) < unat l + length (ser rs)" by blast+
qed

lemma leads_log:
  assumes l: "leads (state_of a) a b rs" and w: "wal a = Some w" "wal_inv w r0" and old: "\<And>j. snd (state_of a j) < end_lsn w"
    and sz: "unat (base_lsn w) + log_bytes b < 2 ^ 64"
  shows "log_is b (r0 @ rs)" and "run_log {p. live_page b p} (state_of a) rs"
    and "\<And>r. r \<in> set rs \<Longrightarrow> end_lsn w \<le> lsn r"
proof -
  show lb: "log_is b (r0 @ rs)" using l w sz by (auto simp: leads_def appends_def log_is_def)
  then obtain w' where w': "wal b = Some w'" "wal_inv w' (r0 @ rs)" by (auto simp: log_is_def)
  have ba: "base_lsn w' = base_lsn w" using l w(1) w'(1) by (simp add: leads_def appends_def log_base_def)
  have n: "log_bytes b = length (ser r0) + length (ser rs)" using log_is_bytes [OF lb] by (simp add: ser_def)
  have e: "end_lsn w = base_lsn w + of_nat (length (ser r0))" using w(2) by (simp add: wal_inv_def)
  have ue: "unat (end_lsn w) = unat (base_lsn w) + length (ser r0)" using sz n unfolding e by (simp add: unat_word_ariths unat_of_nat)
  have "chain (end_lsn w) rs" using w'(2) ba e by (simp add: wal_inv_def chain_append)
  note c1 = chain_lsns [OF this]
  show ge: "end_lsn w \<le> lsn r" if "r \<in> set rs" for r using c1(2) that sz n ue by auto
  have "sorted_wrt (<) (map lsn rs)" using c1(1) sz n ue by simp
  moreover have "snd (state_of a j) < lsn r" if "r \<in> set rs" for j r using old [of j] ge [OF that] by simp
  ultimately show "run_log {p. live_page b p} (state_of a) rs"
    using l good_log_nth [of "state_of a" rs] by (auto simp: run_log_def leads_def in_set_conv_nth)
qed

text \<open>The tree in the pool, described by the states of its pages.\<close>

lemma rep_outlines: "rep v t \<Longrightarrow> (\<And>p. p \<in> set (pages t) \<Longrightarrow> S p = shape_of (v p)) \<Longrightarrow> outlines S t"
proof (induction t)
  case (Lf p es)
  then show ?case using shape_leaf [of "v p" es] by simp
next
  case (Nd p ts t)
  have "outlines S c" if "(s, c) \<in> set ts" for s c
    by (rule Nd.IH(1) [OF that, of c]) (use Nd.prems that in auto)
  moreover have "outlines S t" using Nd.IH(2) Nd.prems by simp
  ultimately show ?case using Nd.prems(1) Nd.prems(2) [of p] shape_node [of "v p" "roots ts" "troot t"] by auto
qed

lemma rep_leaf_ids: "rep v t \<Longrightarrow> p \<in> set (leaf_ids t) \<Longrightarrow> \<exists>es. leaf_rep (v p) es"
proof (induction t)
  case (Nd q ts t)
  have "\<exists>es. leaf_rep (v p) es" if "(s, c) \<in> set ts" "p \<in> set (leaf_ids c)" for s c
    by (rule Nd.IH(1) [OF that(1), of c]) (use Nd.prems that in auto)
  moreover have "\<exists>es. leaf_rep (v p) es" if "p \<in> set (leaf_ids t)" using Nd.IH(2) Nd.prems(1) that by simp
  moreover have "p \<in> set (leaf_ids t) \<or> (\<exists>s c. (s, c) \<in> set ts \<and> p \<in> set (leaf_ids c))" using Nd.prems(2) by force
  ultimately show ?case by blast
qed auto

lemma linked_chained: "linked v ps kInvalidPageId \<Longrightarrow> (\<And>p. p \<in> set ps \<Longrightarrow> (\<exists>es. leaf_rep (v p) es) \<and> S p = shape_of (v p)) \<Longrightarrow> chained S ps"
proof (induction ps)
  case (Cons p ps)
  obtain es where "leaf_rep (v p) es" "S p = shape_of (v p)" using Cons.prems(2) [of p] by auto
  then show ?case using Cons shape_leaf [of "v p" es] by auto
qed simp

lemma tree_described:
  assumes t: "tree_ok b t"
  shows "describes (fst \<circ> state_of b) (root_page_id (meta (pager b))) t" and "set (pages t) \<subseteq> {p. live_page b p}"
proof -
  have s: "(fst \<circ> state_of b) p = shape_of (pview b p)" if "p \<in> set (pages t)" for p using t that by (simp add: tree_ok_def state_of_def)
  have r: "rep (pview b) t" using t by (simp add: tree_ok_def)
  have "(\<exists>es. leaf_rep (pview b p) es) \<and> (fst \<circ> state_of b) p = shape_of (pview b p)" if "p \<in> set (leaf_ids t)" for p
    using rep_leaf_ids [OF r that] s [of p] leaf_ids_pages [of t] that by blast
  then show "describes (fst \<circ> state_of b) (root_page_id (meta (pager b))) t"
    using t rep_outlines [where S = "fst \<circ> state_of b", OF r s] linked_chained [of "pview b" "leaf_ids t" "fst \<circ> state_of b"] by (auto simp: tree_ok_def describes_def)
  show "set (pages t) \<subseteq> {p. live_page b p}" using t by (auto simp: tree_ok_def)
qed

lemma stored_described:
  assumes "stored_off d b es"
  shows "log_holds {p. live_page b p} (fst \<circ> state_of b) (root_page_id (meta (pager b))) es"
  using assms
proof (cases rule: stored_cases)
  case 1
  then show ?thesis by (simp add: log_holds_def IsEmpty_def)
next
  case (2 t)
  then show ?thesis using tree_described [OF 2(1)] by (auto simp: log_holds_def)
qed

subsection \<open>Recovery after a run\<close>

text \<open>
  What a crash leaves of a run from \<open>a\<close> to \<open>b\<close> that logged \<open>rs\<close>: the root of some moment, and for every page of its own some
  version, a torn write, or no page yet.
\<close>

definition crash_of :: "BufferPool \<Rightarrow> BufferPool \<Rightarrow> LogRecord list \<Rightarrow> BufferPool \<Rightarrow> bool" where
  "crash_of a b rs c \<longleftrightarrow> pool_ok c \<and>
     (\<exists>n \<le> length rs. root_page_id (meta (pager c)) = fold root_after (take n rs) (root_page_id (meta (pager a)))) \<and>
     (\<forall>p. live_page b p \<longrightarrow> crashed rs (state_of a) c p)"

lemma root_replay: "fold root_after rs (fold root_after (take n rs) x) = fold root_after rs x"
proof (cases "\<exists>r \<in> set rs. rtype r = kRootChange")
  case True
  then have "fold root_after rs y = fold root_after rs z" for y z
    by (induction rs arbitrary: y z) (auto simp: root_after_def)
  then show ?thesis by blast
next
  case False
  then have "fold root_after rs y = y" "fold root_after (take n rs) y = y" for y
    by (induction rs arbitrary: n y) (auto simp: root_after_def take_Cons split: nat.splits)
  then show ?thesis by simp
qed

text \<open>Every operation of the run is complete, and none of them belongs to a transaction that has begun.\<close>

lemma run_selected:
  assumes "\<And>r. r \<in> set r0 \<Longrightarrow> lsn r < ckpt db" and "\<And>r. r \<in> set rs \<Longrightarrow> ckpt db \<le> lsn r" and f: "finished rs"
  shows "selected (marked_log db (r0 @ rs)) = rs"
proof -
  let ?n = "length r0" and ?rs = "r0 @ rs"
  have old: "\<not> completed (ckpt db) ?rs (length ?rs) j" if "j < ?n" for j
    using assms(1) [of "r0 ! j"] that by (auto simp: completed_def nth_append)
  have new: "completed (ckpt db) ?rs (length ?rs) j" if jn: "\<not> j < ?n" "j < length ?rs" for j
  proof -
    obtain j' where j: "j = ?n + j'" "j' < length rs" using jn by (auto simp: not_less le_iff_add)
    then obtain i where i: "j' \<le> i" "i < length rs" "txid (rs ! i) = txid (rs ! j')" "op_end (rs ! i)" using f by (auto simp: finished_def)
    have "ckpt db \<le> lsn (rs ! i)" "ckpt db \<le> lsn (rs ! j')" using assms(2) i(2) j(2) nth_mem by blast+
    then show ?thesis unfolding completed_def using i j by (intro conjI bexI [of _ "?n + i"]) simp_all
  qed
  have "marked (ckpt db) ?rs (length ?rs) = replicate ?n False @ replicate (length rs) True"
    by (rule nth_equalityI) (use old new in \<open>auto simp: marked_def nth_append\<close>)
  then have "marked_log db ?rs = map (\<lambda>r. (r, False)) r0 @ map (\<lambda>r. (r, True)) rs"
    by (simp add: marked_log_def applicable_marked zip_append zip_replicate2)
  then show ?thesis by (simp add: comp_def)
qed

lemma no_losers:
  assumes "\<And>r. r \<in> set rs \<Longrightarrow> ck \<le> lsn r \<Longrightarrow> rtype r \<noteq> kBegin"
  shows "is_loser ck rs tx = False"
proof -
  let ?step = "\<lambda>r flags. if lsn r < ck then flags
        else if rtype r = kBegin then flags(txid r := (True, snd (flags (txid r))))
        else if rtype r = kCommit \<or> rtype r = kAbort then flags(txid r := (fst (flags (txid r)), True)) else flags"
  have "\<not> fst (fold ?step rs F tx)" if "\<And>tx. \<not> fst (F tx)" for F :: "TxId \<Rightarrow> bool \<times> bool"
    using assms that by (induction rs arbitrary: F) (auto simp: not_less)
  from this [of "\<lambda>_. (False, False)"] show ?thesis by (simp add: is_loser_def txn_flags_def case_prod_beta')
qed

lemma run_recovers:
  assumes st: "stored_off d b es" and l: "leads (state_of a) a b rs" and f: "finished rs" and w: "wal a = Some w" "wal_inv w r0"
    and old: "\<And>j. snd (state_of a j) < end_lsn w" and sz: "unat (base_lsn w) + log_bytes b < 2 ^ 64"
    and c: "crash_of a b rs (pool db)" and ck: "\<And>r. r \<in> set r0 \<Longrightarrow> lsn r < ckpt db" "ckpt db \<le> end_lsn w"
  shows "\<exists>s db'. Recover (r0 @ rs) db = Some (s, db') \<and> (if s = kOk then \<exists>d. stored_off d (pool db') es else io_error s)"
proof -
  note L = leads_log [OF l w old sz]
  have sel: "selected (marked_log db (r0 @ rs)) = rs" by (rule run_selected [OF ck(1) order_trans [OF ck(2) L(3)] f])
  have "log_holds {p. live_page b p} (fst \<circ> history rs (state_of a)) (fold root_after rs (root_page_id (meta (pager (pool db))))) es"
    using stored_described [OF st] l c by (auto simp: leads_def crash_of_def root_replay)
  then have cs: "crash_state {p. live_page b p} (state_of a) (r0 @ rs) db es"
    using c L(2) by (auto simp: crash_state_def crash_of_def sel)
  have "is_loser (ckpt db) (r0 @ rs) = (\<lambda>_. False)"
    using no_losers [of "r0 @ rs" "ckpt db"] l ck(1) by (fastforce simp: leads_def)
  then have u: "undo_images db (r0 @ rs) = []" by (simp add: loser_images_def taken_back_def case_prod_beta')
  then have "undoable db (r0 @ rs)" by (simp add: undoable_def rollback_roomy_def)
  from Recover_ok [OF cs this] obtain s db' where R: "Recover (r0 @ rs) db = Some (s, db')"
    "s = kOk \<Longrightarrow> \<exists>es' d. stored_off d (pool db') es' \<and> (\<forall>k. map_of es' k = map_of es k)" "s \<noteq> kOk \<Longrightarrow> io_error s"
    unfolding u by (fastforce split: if_splits)
  have "es' = es" if "stored_off d' (pool db') es'" "\<forall>k. map_of es' k = map_of es k" for d' es'
    by (rule sorted_list_unique [OF stored_sorted [OF that(1)] stored_sorted [OF st]]) (use that(2) in auto)
  then show ?thesis using R by (cases "s = kOk") (simp_all, blast)
qed

text \<open>
  C1: acknowledged writes survive a crash. Start from a database at a checkpoint and let any sequence of \<^verbatim>\<open>Put\<close>, \<^verbatim>\<open>Delete\<close>, \<^verbatim>\<open>Get\<close> and log flushes end
  without a storage error, with every update in place, split and new root they cause. The log they leave describes them: whichever mixture of page versions, torn
  and missing pages a crash leaves behind, recovery over that log returns, and when it reports success the tree holds exactly the
  entries the writes add up to; otherwise it reports a storage error.
\<close>

theorem recovery_replays_writes:
  assumes "stored_off d a es" and "wal a = Some w" and "wal_inv w r0" and "\<And>j. snd (state_of a j) < end_lsn w"
    and "roomy_run xs a" and "perform xs a = Some b" and "unat (base_lsn w) + log_bytes b < 2 ^ 64"
  shows "\<exists>rs. log_is b (r0 @ rs) \<and> (\<forall>db. crash_of a b rs (pool db) \<longrightarrow> (\<forall>r \<in> set r0. lsn r < ckpt db) \<longrightarrow> ckpt db \<le> end_lsn w \<longrightarrow>
    (\<exists>s db'. Recover (r0 @ rs) db = Some (s, db') \<and> (if s = kOk then \<exists>d. stored_off d (pool db') (fold apply_op xs es) else io_error s)))"
proof -
  have w: "wal a \<noteq> None" using assms(2) by simp
  obtain rs where st: "stored_off d b (fold apply_op xs es)" and rs: "leads (state_of a) a b rs" "finished rs"
    using perform_leads [OF assms(1) w assms(5,6)] by blast
  have "log_is b (r0 @ rs)" by (rule leads_log(1) [OF rs(1) assms(2-4,7)])
  then show ?thesis using run_recovers [OF st rs assms(2-4,7)] by blast
qed

text \<open>A new database, its first write, and a crash before any page of it reached the file.\<close>

lemma crash_before_writing:
  assumes ok: "pool_ok a" and fp: "free_pages a []"
  shows "crash_of a b rs a"
proof -
  have "crashed rs (state_of a) a p" if lv: "live_page b p" for p
  proof (cases "live_page a p")
    case True
    then have "page_at a p (state_of a p)" by (simp add: page_at_def state_of_def)
    then show ?thesis by (auto simp: crashed_def intro!: exI [of _ 0])
  next
    case False
    then have "missing a p" using lv live_pageI [OF fp, of p] by (auto simp: live_page_def data_page_def)
    then show ?thesis using False by (simp add: crashed_def state_of_def)
  qed
  then show ?thesis using ok by (auto simp: crash_of_def intro!: exI [of _ 0])
qed

theorem recovery_replays_writes_witness:
  "\<exists>b rs s db'. perform [PutOp [97] [1] 1 False] (pool new_db) = Some b \<and> log_is b rs \<and> Recover rs new_db = Some (s, db') \<and>
    (if s = kOk then \<exists>d. stored_off d (pool db') [([97], [1])] else io_error s)"
proof -
  let ?a = "pool new_db" let ?xs = "[PutOp [97] [1] 1 False]"
  have a: "?a = BufferPool_init pager3 (Some empty_log) calm 16" by (simp add: new_db_def DbImpl_init_def)
  have m: "meta (pager ?a) = Meta_Init\<lparr>num_pages := 3\<rparr>" "wal ?a = Some empty_log" "IsEmpty ?a"
    by (simp_all add: a BufferPool_init_def Let_def IsEmpty_def Meta_Init_def)
  have fp: "free_pages ?a []" unfolding a by (rule BufferPool_init_ok(3) [OF small_pager]) (simp add: Meta_Init_def)
  have ok: "pool_ok ?a" by (rule stored_inv [OF new_db_ok(1)])
  obtain s bef b where c: "create_root_leaf [97] [1] 1 None ?a = (s, bef, b)" by (metis prod_cases3)
  have s: "s = kOk" using create_root_leaf_ok(3) [OF ok m(3) _ new_db_ok(2) c] new_db_NewPage by fastforce
  then have p: "perform ?xs ?a = Some b"
    using c m(3) by (simp add: orderly_def Put_def PutPessimistic_def kMaxLeafRecordBytes_def layout_defs)
  have old: "snd (state_of ?a j) < end_lsn empty_log" for j
  proof (cases "live_page ?a j")
    case True
    then have "unat j < 3" using live_pageI [OF fp, of j] m(1) by (simp add: data_page_def Meta_Init_def word_less_nat_alt)
    then have "disk (pager ?a) j = replicate kPageSize 0" by (simp add: a BufferPool_init_def Let_def file_page_def kPageSize_def)
    then have "pview ?a j = stamp zero_page 0" by (simp add: pview_def a BufferPool_init_def Let_def zero_page_def)
    then show ?thesis using True by (simp add: state_of_def zero_page_lsn)
  qed (simp add: state_of_def)
  have sz: "unat (base_lsn empty_log) + log_bytes b < 2 ^ 64" using create_root_leaf_bytes [OF c] new_db_NewPage by simp
  have room: "roomy_run ?xs ?a" using new_db_ok(2) by (simp split: option.split)
  have e: "fold apply_op ?xs [] = [([97], [1])]" "ckpt new_db \<le> end_lsn empty_log"
    using m(1) by (simp_all add: kMaxLeafRecordBytes_def layout_defs Meta_Init_def kInvalidLsn_def)
  obtain rs where rs: "log_is b ([] @ rs)" "\<forall>db. crash_of ?a b rs (pool db) \<longrightarrow> (\<forall>r \<in> set ([] :: LogRecord list). lsn r < ckpt db) \<longrightarrow> ckpt db \<le> end_lsn empty_log \<longrightarrow>
      (\<exists>s db'. Recover ([] @ rs) db = Some (s, db') \<and> (if s = kOk then \<exists>d. stored_off d (pool db') [([97], [1])] else io_error s))"
    using recovery_replays_writes [OF new_db_ok(1) m(2) empty_log_inv old room p sz] unfolding e(1) by blast
  have "\<exists>s db'. Recover rs new_db = Some (s, db') \<and> (if s = kOk then \<exists>d. stored_off d (pool db') [([97], [1])] else io_error s)"
    using spec [OF rs(2), of new_db] crash_before_writing [OF ok fp, of b rs] e(2) by simp
  then show ?thesis using p rs(1) unfolding append_Nil by blast
qed

end
