(* ===== verification/Rerun.thy ===== *)
theory Rerun
  imports Replay
begin

section \<open>The log that recovery leaves\<close>

text \<open>
  Redo and the recount append nothing to the log; the undo pass does, under an id of its own. The last theorem shows what that id
  does to a second recovery.
\<close>

subsection \<open>Passes that append nothing\<close>

lemma ensure_page_exists_hush [hush]:
  assumes "ensure_page_exists pid b = Some (s, b')" and "quiet a b"
  shows "quiet a b'"
proof -
  have "quiet a b \<longrightarrow> quiet a (snd (s, b'))"
    using assms(1)
  proof (rule ensure_page_exists.raw_induct [rotated])
    fix rec pid b and x :: "Status \<times> BufferPool"
    assume IH: "\<And>pid b x. rec pid b = Some x \<Longrightarrow> quiet a b \<longrightarrow> quiet a (snd x)"
      and e: "(if missing b pid then let n = num_pages (meta (pager b)) in
          case AllocatePage (pager b) (io b) of (r, p, i) \<Rightarrow>
            let b = b\<lparr>pager := p, io := i\<rparr> in
            case r of Inl s \<Rightarrow> Some (s, b) | Inr _ \<Rightarrow> if num_pages (meta (pager b)) = n then Some (kCorruption, b) else rec pid b
        else Some (kOk, b)) = Some x"
    then show "quiet a b \<longrightarrow> quiet a (snd x)"
      by (auto simp: Let_def split: if_splits sum.splits prod.splits dest!: IH)
  qed
  then show ?thesis using assms(2) by simp
qed

lemma redo_at_hush [hush]: "redo_at g r f b = (s, any, b') \<Longrightarrow> quiet a b \<Longrightarrow> quiet a b'"
  by (auto simp: redo_at_def Let_def split: if_splits prod.splits)

lemma redo_image_hush [hush]: "redo_image r b = (s, any, b') \<Longrightarrow> quiet a b \<Longrightarrow> quiet a b'"
  by (auto simp: redo_image_def split: sum.splits if_splits prod.splits dest: hush)

lemma redo_page_hush [hush]: "redo_page r f b = (s, any, b') \<Longrightarrow> quiet a b \<Longrightarrow> quiet a b'"
  by (auto simp: redo_page_def split: prod.splits sum.splits dest: hush)

lemma ApplyRecord_hush [hush]: "ApplyRecord r b = Some (s, any, b') \<Longrightarrow> quiet a b \<Longrightarrow> quiet a b'"
  by (auto simp: ApplyRecord_def split: LogRecordType.splits if_splits prod.splits dest: hush)

lemma redo_loop_hush [hush]: "redo_loop l any b = Some (s, any', b') \<Longrightarrow> quiet a b \<Longrightarrow> quiet a b'"
proof (induction l arbitrary: any b)
  case (Cons x l)
  obtain r ap where x: "x = (r, ap)" by fastforce
  show ?case
  proof (cases ap)
    case True
    then obtain s1 any1 b1 where a: "ApplyRecord r b = Some (s1, any1, b1)" using Cons.prems(1) x by (auto simp: Option.bind_eq_Some_conv)
    have "quiet a b1" by (rule ApplyRecord_hush [OF a Cons.prems(2)])
    then show ?thesis using Cons x True a by (auto split: if_splits)
  qed (use Cons x in auto)
qed simp

lemma SkipToLiveEntry_hush [hush]:
  assumes "SkipToLiveEntry c b = Some (c', b')" and "quiet a b"
  shows "quiet a b'"
proof -
  have "quiet a b \<longrightarrow> quiet a (snd (c', b'))"
    using assms(1)
  proof (rule SkipToLiveEntry.raw_induct [rotated])
    fix rec c b and x :: "Cursor \<times> BufferPool"
    assume IH: "\<And>c b x. rec c b = Some x \<Longrightarrow> quiet a b \<longrightarrow> quiet a (snd x)"
      and "(if cindex c < NumKeys (cpage c) then Some (c, b)
        else let next = GetNextLeaf (cpage c) in
          if next = kInvalidPageId then Some (c\<lparr>cvalid := False\<rparr>, b)
          else case FetchPageInternal b next of (r, b) \<Rightarrow>
            case r of Inl s \<Rightarrow> Some (c\<lparr>cvalid := False, cstatus := s\<rparr>, b)
            | Inr g \<Rightarrow> let c = c\<lparr>cpage := gpage b g\<rparr>; b = ReleaseGuard b g in
                if \<not> IsLeaf (cpage c) then Some (c\<lparr>cvalid := False, cstatus := kCorruption\<rparr>, b)
                else rec (c\<lparr>cindex := 0\<rparr>) b) = Some x"
    then show "quiet a b \<longrightarrow> quiet a (snd x)"
      by (auto simp: Let_def split: if_splits prod.splits sum.splits dest: hush dest!: IH)
  qed
  then show ?thesis using assms(2) by simp
qed

lemma descend_first_hush [hush]:
  assumes "descend_first g b = Some (r, b')" and "quiet a b"
  shows "quiet a b'"
proof -
  have "quiet a b \<longrightarrow> quiet a (snd (r, b'))"
    using assms(1)
  proof (rule descend_first.raw_induct [rotated])
    fix rec g b and x :: "FrameId Result \<times> BufferPool"
    assume IH: "\<And>g b x. rec g b = Some x \<Longrightarrow> quiet a b \<longrightarrow> quiet a (snd x)"
      and "(if IsLeaf (gpage b g) then Some (Inr g, b)
        else let child = if 0 < NumKeys (gpage b g) then GetChild (gpage b g) 0 else GetRightmostChild (gpage b g) in
          if child = kInvalidPageId then Some (Inl kInternal, ReleaseGuard b g)
          else case FetchPageInternal b child of (r, b) \<Rightarrow>
            let b = ReleaseGuard b g in case r of Inl s \<Rightarrow> Some (Inl s, b) | Inr c \<Rightarrow> rec c b) = Some x"
    then show "quiet a b \<longrightarrow> quiet a (snd x)"
      by (auto simp: Let_def split: if_splits prod.splits sum.splits dest: hush dest!: IH)
  qed
  then show ?thesis using assms(2) by simp
qed

lemma MoveTo_hush [hush]: "MoveTo c pid i b = Some (c', b') \<Longrightarrow> quiet a b \<Longrightarrow> quiet a b'"
  by (auto simp: MoveTo_def split: prod.splits sum.splits elim!: SkipToLiveEntry_hush dest: FetchPageInternal_hush)

lemma Next_hush [hush]: "Next c b = Some (c', b') \<Longrightarrow> quiet a b \<Longrightarrow> quiet a b'"
  by (auto simp: Next_def split: if_splits dest: hush)

lemma SeekToFirst_hush [hush]:
  assumes "SeekToFirst b = Some (c, b')" and "quiet a b"
  shows "quiet a b'"
proof (cases "IsEmpty b")
  case False
  obtain x b1 where f: "FetchPageInternal b (root_page_id (meta (pager b))) = (x, b1)" by fastforce
  show ?thesis
  proof (cases x)
    case (Inr g)
    then obtain y b2 where y: "descend_first g b1 = Some (y, b2)" using assms(1) False f by (auto simp: SeekToFirst_def Option.bind_eq_Some_conv)
    have "quiet a b2" by (rule descend_first_hush [OF y FetchPageInternal_hush [OF f assms(2)]])
    then show ?thesis using assms(1) False f Inr y by (cases y) (auto simp: SeekToFirst_def Let_def elim!: MoveTo_hush)
  qed (use assms False f FetchPageInternal_hush in \<open>auto simp: SeekToFirst_def\<close>)
qed (use assms in \<open>simp add: SeekToFirst_def\<close>)

lemma count_loop_hush [hush]:
  assumes "count_loop c n b = Some (c', n', b')" and "quiet a b"
  shows "quiet a b'"
proof -
  have "quiet a b \<longrightarrow> quiet a (snd (snd (c', n', b')))"
    using assms(1)
  proof (rule count_loop.raw_induct [rotated])
    fix rec c n b and x :: "Cursor \<times> u64 \<times> BufferPool"
    assume IH: "\<And>c n b x. rec c n b = Some x \<Longrightarrow> quiet a b \<longrightarrow> quiet a (snd (snd x))"
      and "(if \<not> cvalid c then Some (c, n, b) else Option.bind (Next c b) (\<lambda>(c, b). rec c (n + 1) b)) = Some x"
    then show "quiet a b \<longrightarrow> quiet a (snd (snd x))"
      by (auto simp: Option.bind_eq_Some_conv split: if_splits prod.splits dest: hush dest!: IH)
  qed
  then show ?thesis using assms(2) by simp
qed

lemma recount_hush [hush]: "recount b = Some (s, b') \<Longrightarrow> quiet a b \<Longrightarrow> quiet a b'"
  by (auto simp: recount_def Option.bind_eq_Some_conv split: if_splits dest!: SeekToFirst_hush count_loop_hush)

subsection \<open>The records of the undo pass\<close>

text \<open>Records of complete operations of one transaction, at the end of the log.\<close>

definition signs :: "TxId \<Rightarrow> BufferPool \<Rightarrow> BufferPool \<Rightarrow> LogRecord list \<Rightarrow> bool" where
  "signs tx a b rs \<longleftrightarrow> appends a b rs \<and> (\<forall>r \<in> set rs. txid r = tx) \<and> (rs \<noteq> [] \<longrightarrow> op_end (last rs))"

lemma signs_trans: "signs tx a b rs \<Longrightarrow> signs tx b c rs' \<Longrightarrow> signs tx a c (rs @ rs')"
  using appends_trans [of a b rs c rs'] by (auto simp: signs_def last_append)

lemma signs_nothing: "evolves b b' \<Longrightarrow> quiet b b' \<Longrightarrow> wal b \<noteq> None \<Longrightarrow> signs tx b b' []"
  using appends_nothing by (simp add: signs_def)

lemma signs_wal: "signs tx a b rs \<Longrightarrow> wal b \<noteq> None"
  by (auto simp: signs_def appends_def simp flip: log_base_None)

lemma led_signs: "led tx E a b True \<Longrightarrow> \<exists>rs. signs tx a b rs \<and> rs \<noteq> []"
  by (auto simp: led_def leads_def signs_def)

text \<open>One restoration: a record is written, unless there was nothing to delete.\<close>

lemma restore_signs:
  assumes st: "stored_off d b es" and w: "wal b \<noteq> None" and rm: "roomy b" and f: "image_fits (k, bef)"
    and u: "(case bef of Some v \<Rightarrow> tree_put tx k v b | None \<Rightarrow> tree_delete tx k b) = Some (s, b')" and s: "s = kOk \<or> s = kNotFound \<and> bef = None"
  shows "\<exists>rs es'. signs tx b b' rs \<and> stored_off d b' es' \<and> (rs = [] \<longrightarrow> es' = es) \<and> map_of es' = (map_of es)(k := bef)"
proof (cases bef)
  case (Some v)
  then obtain x where p: "Put k v tx False b = Some (kOk, x, b')" using u s by auto
  have "stored_off d b' (upsert k v es)" using Put_stored [OF st rm, of k v tx False] p f Some by auto
  then show ?thesis using led_signs [OF Put_led [OF st rm w p]] Some upsert_map [of k v es] by metis
next
  case None
  then obtain x where p: "Delete k tx False b = Some (s, x, b')" using u by auto
  have D: "if s = kOk then stored_off d b' (remove_key k es) else stored_off d b' es \<and> map_of es k = None"
    using Delete_stored [OF st, of k tx False] p s by (auto simp: io_error_def split: if_splits)
  then have m: "map_of (remove_key k es) = (map_of es)(k := None)" "s \<noteq> kOk \<Longrightarrow> (map_of es)(k := None) = map_of es"
    using remove_key_map [of k es] by (auto simp: fun_eq_iff)
  from st show ?thesis
  proof (cases rule: stored_cases)
    case 1
    then have "s = kNotFound" "b' = b" using p by (auto simp: Delete_def leaf_guard_def)
    then show ?thesis using st signs_nothing [OF evolves_refl quiet_refl w] m(2) None by force
  next
    case (2 t)
    show ?thesis
    proof (cases "s = kOk")
      case True
      then show ?thesis using led_signs [OF Delete_led [OF 2(1) w]] p D m(1) None by metis
    next
      case False
      then have "still b b'" using Delete_missed [OF 2(1)] p s by blast
      then show ?thesis using signs_nothing [of b b'] w D False m(2) None by (force simp: still_def)
    qed
  qed
qed

lemma undo_all_signs:
  assumes "stored_off d b es" and "wal b \<noteq> None" and "undo_room roomy (tree_put tx) (tree_delete tx) us b" and "\<forall>u \<in> set us. image_fits u"
    and "undo_all (tree_put tx) (tree_delete tx) us b = Some (kOk, b')"
  shows "\<exists>rs es'. signs tx b b' rs \<and> stored_off d b' es' \<and> (rs = [] \<longrightarrow> es' = es) \<and>
    map_of es' = (\<lambda>k. case map_of (rev us) k of Some bef \<Rightarrow> bef | None \<Rightarrow> map_of es k)"
  using assms
proof (induction us arbitrary: b es)
  case Nil
  then show ?case using signs_nothing [OF evolves_refl quiet_refl, of b tx] by auto
next
  case (Cons u us)
  obtain k bef where u: "u = (k, bef)" by fastforce
  obtain s b1 where p: "(case bef of Some v \<Rightarrow> tree_put tx k v b | None \<Rightarrow> tree_delete tx k b) = Some (s, b1)"
    and s: "s = kOk \<or> s = kNotFound \<and> bef = None" and r: "undo_all (tree_put tx) (tree_delete tx) us b1 = Some (kOk, b')"
    using Cons.prems(5) u by (auto simp: Option.bind_eq_Some_conv split: if_splits)
  have rm: "roomy b" "undo_room roomy (tree_put tx) (tree_delete tx) us b1" using Cons.prems(3) u p by simp_all
  obtain rs1 es1 where a: "signs tx b b1 rs1" "stored_off d b1 es1" "rs1 = [] \<longrightarrow> es1 = es" "map_of es1 = (map_of es)(k := bef)"
    using restore_signs [OF Cons.prems(1,2) rm(1) _ p s] Cons.prems(4) u by auto
  obtain rs2 es2 where c: "signs tx b1 b' rs2" "stored_off d b' es2" "rs2 = [] \<longrightarrow> es2 = es1"
    "map_of es2 = (\<lambda>k. case map_of (rev us) k of Some bef \<Rightarrow> bef | None \<Rightarrow> map_of es1 k)"
    using Cons.IH [OF a(2) signs_wal [OF a(1)] rm(2) _ r] Cons.prems(4) by auto
  have "map_of es2 = (\<lambda>k. case map_of (rev (u # us)) k of Some bef \<Rightarrow> bef | None \<Rightarrow> map_of es k)"
    using c(4) a(4) u by (auto simp: fun_eq_iff map_add_def split: option.split)
  then show ?case using signs_trans [OF a(1) c(1)] c(2,3) a(3) by blast
qed

lemma Recover_signs:
  assumes c: "crash_state P E rs db es" and u: "undoable db rs" and w: "wal (pool db) \<noteq> None" and R: "Recover rs db = Some (kOk, db')"
    and ch: "map_of (undo_images db rs) k = Some bef" "bef \<noteq> map_of es k"
  shows "\<exists>rs'. signs (fst (Txn_Begin (txn_manager db))) (pool db) (pool db') rs' \<and> rs' \<noteq> []"
proof -
  let ?ck = "ckpt db" let ?l = "marked_log db rs" let ?lo = "is_loser ?ck rs"
  obtain tx tm where t: "Txn_Begin (txn_manager db) = (tx, tm)" by fastforce
  obtain s any b where r: "redo_loop ?l False (pool db) = Some (s, any, b)" "if s = kOk then \<exists>d. stored_off d b es else io_error s"
    using redo_stores [of "pool db" P E ?l es] c unfolding crash_state_def by blast
  have s: "s = kOk" using R r(1) by (auto simp: Recover_def marked_log_def Let_def split: if_splits)
  then obtain d where st: "stored_off d b es" using r(2) by auto
  have s1: "signs tx (pool db) b []"
    by (rule signs_nothing) (use w r(1) redo_loop_evo redo_loop_hush evolves_refl quiet_refl in blast)+
  have rm: "rollback_roomy ?ck ?lo tx ?l b" and fit: "\<forall>v \<in> set (loser_images ?ck ?lo ?l). image_fits v" using u r(1) s t by (auto simp: undoable_def)
  have h: "holds_off d b b (map_of es)" using st evolves_refl by (auto simp: holds_off_def)
  note lr = loser_images_rev [of ?ck ?lo ?l]
  obtain any' where ra: "rollback_loop ?ck ?lo tx (rev ?l) any b =
      map_option (\<lambda>(s, b). (s, any', b)) (undo_all (tree_put tx) (tree_delete tx) (rev (loser_images ?ck ?lo ?l)) b)"
    using rollback_loop_undo_all [OF h, of tx ?ck ?lo "rev ?l" any] rm fit unfolding lr rollback_roomy_def by auto
  obtain any1 b1 where rb: "rollback_loop ?ck ?lo tx (rev ?l) any b = Some (kOk, any1, b1)"
    and fin: "(if any1 then map_option (\<lambda>(s, b). (s, db\<lparr>txn_manager := tm, pool := b\<rparr>)) (recount b1) else Some (kOk, db\<lparr>txn_manager := tm, pool := b1\<rparr>)) = Some (kOk, db')"
    using R r(1) s t by (auto simp: Recover_def marked_log_def Let_def Option.bind_eq_Some_conv split: if_splits)
  have ua: "undo_all (tree_put tx) (tree_delete tx) (rev (loser_images ?ck ?lo ?l)) b = Some (kOk, b1)"
    using rb unfolding ra by (auto simp: map_option_eq_Some)
  have "\<forall>v \<in> set (rev (loser_images ?ck ?lo ?l)). image_fits v" using fit by simp
  from undo_all_signs [OF st signs_wal [OF s1] rm [unfolded rollback_roomy_def] this ua]
  obtain rs2 es2 where g: "signs tx b b1 rs2" "stored_off d b1 es2" "rs2 = [] \<longrightarrow> es2 = es" "map_of es2 = rolled_back ?ck ?lo ?l (map_of es)"
    unfolding rev_rev_ident by blast
  have "map_of es2 k = bef" by (simp add: g(4) ch(1))
  then have ne: "rs2 \<noteq> []" using ch(2) g(3) by blast
  have "signs tx b1 (pool db') []"
  proof (cases any1)
    case True
    then obtain b2 where "recount b1 = Some (kOk, b2)" "pool db' = b2" using fin by auto
    then show ?thesis using recount_ok [OF g(2)] recount_hush [OF _ quiet_refl, of b1 kOk b2] signs_wal [OF g(1)]
      by (intro signs_nothing) (auto simp: io_error_def)
  next
    case False
    then have "pool db' = b1" using fin by auto
    then show ?thesis using signs_nothing [OF evolves_refl quiet_refl signs_wal [OF g(1)]] by simp
  qed
  from signs_trans [OF signs_trans [OF s1 g(1)] this] show ?thesis using ne t by auto
qed

text \<open>
  C38: the records of the undo pass can complete an operation that the crash cut off. Transaction ids start again with each handle, so
  whenever recovery takes a write back, the records that its undo pass appends to the log carry the id of the first transaction of
  the crashed run, and the last of them ends an operation. If a second crash comes before the closing checkpoint, the log analysis takes
  this as the end of whatever that first transaction had left unfinished: every record of it past the checkpoint is then
  marked for redo, those of the half operation too that the first recovery had rightly left out.
\<close>

theorem undo_pass_completes_cut_operations:
  assumes "crash_state P E rs db es" and "undoable db rs" and "txn_manager db = TxnManager_init"
    and "wal (pool db) = Some w" and "wal_inv w rs" and "map_of (undo_images db rs) k = Some bef" and "bef \<noteq> map_of es k"
  shows "\<exists>s db'. Recover rs db = Some (s, db') \<and> (s = kOk \<longrightarrow> unat (base_lsn w) + log_bytes (pool db') < 2 ^ 64 \<longrightarrow>
    (\<exists>rs'. log_is (pool db') (rs @ rs') \<and> rs' \<noteq> [] \<and> (\<forall>r \<in> set rs'. txid r = kFirstTxId) \<and> op_end (last rs') \<and>
      (\<forall>j < length rs. txid (rs ! j) = kFirstTxId \<longrightarrow> ckpt db \<le> lsn (rs ! j) \<longrightarrow> applicable (ckpt db) (rs @ rs') ! j)))"
proof -
  obtain s db' where R: "Recover rs db = Some (s, db')" using Recover_ok [OF assms(1,2)] by blast
  have "\<exists>rs'. log_is (pool db') (rs @ rs') \<and> rs' \<noteq> [] \<and> (\<forall>r \<in> set rs'. txid r = kFirstTxId) \<and> op_end (last rs') \<and>
      (\<forall>j < length rs. txid (rs ! j) = kFirstTxId \<longrightarrow> ckpt db \<le> lsn (rs ! j) \<longrightarrow> applicable (ckpt db) (rs @ rs') ! j)"
    if s: "s = kOk" and sz: "unat (base_lsn w) + log_bytes (pool db') < 2 ^ 64"
  proof -
    have tx: "fst (Txn_Begin (txn_manager db)) = kFirstTxId" using assms(3) by (simp add: Txn_Begin_def TxnManager_init_def)
    obtain rs' where g: "signs kFirstTxId (pool db) (pool db') rs'" "rs' \<noteq> []"
      using Recover_signs [OF assms(1,2) _ R [unfolded s] assms(6,7)] assms(4) unfolding tx by auto
    have l: "log_is (pool db') (rs @ rs')" using g(1) assms(4,5) sz by (auto simp: signs_def appends_def log_is_def)
    then obtain w' where w': "wal (pool db') = Some w'" "wal_inv w' (rs @ rs')" by (auto simp: log_is_def)
    have "base_lsn w' = base_lsn w" using g(1) assms(4) w'(1) by (simp add: signs_def appends_def log_base_def)
    then have lt: "sorted_wrt (<) (map lsn (rs @ rs'))" using chain_lsns(1) [of "base_lsn w" "rs @ rs'"] w'(2) sz log_is_bytes [OF l] by (simp add: wal_inv_def)
    have "applicable (ckpt db) (rs @ rs') ! j" if j: "j < length rs" "txid (rs ! j) = kFirstTxId" "ckpt db \<le> lsn (rs ! j)" for j
    proof -
      let ?i = "length (rs @ rs') - 1"
      have i: "(rs @ rs') ! ?i = last rs'" "?i < length (rs @ rs')" "j < ?i" using g(2) j(1) by (cases rs' rule: rev_cases; auto simp: nth_append)+
      have "lsn (rs ! j) < lsn (last rs')" using sorted_wrt_nth_less [OF lt, of j ?i] i j(1) by (simp only: nth_map length_map) (simp add: nth_append)
      moreover have "txid (last rs') = kFirstTxId" "op_end (last rs')" using g by (auto simp: signs_def)
      ultimately have "completed (ckpt db) (rs @ rs') (length (rs @ rs')) j"
        unfolding completed_def using i j by (intro conjI bexI [of _ ?i]) (auto simp: nth_append)
      then show ?thesis using j(1) by (simp add: applicable_marked marked_def)
    qed
    then show ?thesis using l g by (auto simp: signs_def)
  qed
  then show ?thesis using R by blast
qed

subsection \<open>A second recovery that goes wrong\<close>

text \<open>Pools whose only page, a leaf, is in memory: recovery runs through them without the help of the operating system.\<close>

definition one_page :: "BufferPool \<Rightarrow> Page \<Rightarrow> LogWriter \<Rightarrow> Pager \<Rightarrow> bool" where
  "one_page b p w q \<longleftrightarrow> page_table b = [(2, 0)] \<and> 0 < length (frames b) \<and> fpage (frames b ! 0) = p \<and> fpid (frames b ! 0) = 2 \<and> wal b = Some w \<and> pager b = q"

lemma one_page_steps:
  assumes "one_page b p w q"
  shows "one_page (ReleaseGuard b 0) p w q" and "one_page (MarkDirty b 0) p w q" and "one_page (set_gpage b 0 p') p' w q"
    and "one_page (b\<lparr>wal := Some w'\<rparr>) p w' q" and "one_page (b\<lparr>pager := q'\<rparr>) p w q'" and "gpage b 0 = p" and "gid b 0 = 2"
    and "wal b = Some w" and "pager b = q"
  using assms by (auto simp: one_page_def ReleaseGuard_def MarkDirty_def set_gpage_def set_frame_def gpage_def gid_def Let_def)

lemma one_page_fetch: "one_page b p w q \<Longrightarrow> \<exists>b'. FetchPageInternal b 2 = (Inr 0, b') \<and> one_page b' p w q"
  by (auto simp: FetchPageInternal_def one_page_def Let_def set_frame_def)

lemma one_page_redo:
  assumes o: "one_page b p w q" and r: "rpage r = 2" "rtype r = kPut" "page_lsn (hdr p) < lsn r" "RedoPut r p = (kOk, p')"
  shows "\<exists>b'. ApplyRecord r b = Some (kOk, True, b') \<and> one_page b' p' w q"
proof -
  obtain b1 where f: "FetchPageInternal b 2 = (Inr 0, b1)" "one_page b1 p w q" using one_page_fetch [OF o] by blast
  show ?thesis using f r one_page_steps(1) [OF one_page_steps(2) [OF one_page_steps(3) [OF f(2)]]]
    by (auto simp: ApplyRecord_def redo_page_def redo_at_def one_page_steps(6) [OF f(2)] Let_def)
qed

lemma one_page_Delete:
  assumes o: "one_page b p w q" and m: "root_page_id (meta q) = 2" and rep: "leaf_rep p [(k, v)]" and im: "NeedsImage w 2"
  shows "\<exists>b' p' w'. Delete k tx False b = Some (kOk, None, b') \<and> one_page b' p' w' (AddToNumKeys q (- 1)) \<and> leaf_rep p' [] \<and>
    GetNextLeaf p' = GetNextLeaf p \<and> file_bytes w' + length (buffer w') = file_bytes w + length (buffer w) + 4127"
proof -
  obtain b1 where f: "FetchPageInternal b 2 = (Inr 0, b1)" and o1: "one_page b1 p w q" using one_page_fetch [OF o] by blast
  have l: "IsLeaf p" using rep by (simp add: leaf_rep_def)
  have g: "leaf_guard k b = Some (Inr 0, b1)"
    using f m l one_page_steps(9) [OF o] one_page_steps(6) [OF o1] by (simp add: leaf_guard_def IsEmpty_def kInvalidPageId_def descend.simps)
  have "keys p = [k]" using leaf_rep_entries [OF rep] by simp
  then have fk: "FindKeyIndex p k = (0, True)" using FindKeyIndex_eq [of p k] by (simp add: lb_def)
  obtain dn p1 where d: "DeleteAt p 0 = (dn, p1)" by fastforce
  have d1: "dn" "leaf_rep p1 []" "GetNextLeaf p1 = GetNextLeaf p" using DeleteAt_leaf(1,2,3) [OF rep d] ident_fields [of p1 p] by (auto simp: GetNextLeaf_def)
  let ?p = "at_lsn p1 (end_lsn w)"
  let ?r = "LogRecord_init\<lparr>lsn := end_lsn w, txid := tx, rtype := kPageImage, rpage := 2, op_end := True, rvalue := RawData ?p\<rparr>"
  let ?w = "(BufferRecordLocked w ?r)\<lparr>imaged := insert 2 (imaged w)\<rparr>"
  note o2 = one_page_steps(2) [OF one_page_steps(2) [OF one_page_steps(3) [OF o1, of p1]]]
  let ?b2 = "MarkDirty (MarkDirty (set_gpage b1 0 p1) 0) 0" let ?b3 = "set_gpage (?b2\<lparr>wal := Some ?w\<rparr>) 0 ?p"
  have lk: "LogKeyRecord (set_gpage b1 0 p1) kDelete tx 0 k [] None True False = (kOk, ?b3)"
    using im one_page_steps(6-8) [OF o2] one_page_steps(7,8) [OF one_page_steps(2) [OF one_page_steps(3) [OF o1, of p1]]]
    by (simp add: LogKeyRecord_def LogPageImage_def AppendPageImage_def andthen_def Let_def BufferRecordLocked_def)
  have o3: "one_page ?b3 ?p ?w q" by (rule one_page_steps(3) [OF one_page_steps(4) [OF o2]])
  have "Delete k tx False b = Some (kOk, None, ReleaseGuard (?b3\<lparr>pager := AddToNumKeys q (- 1)\<rparr>) 0)"
    using g fk d d1(1) lk one_page_steps(6) [OF o1] one_page_steps(9) [OF o3] by (simp add: Delete_def delete_at_leaf_def Let_def)
  moreover have "one_page (ReleaseGuard (?b3\<lparr>pager := AddToNumKeys q (- 1)\<rparr>) 0) ?p ?w (AddToNumKeys q (- 1))"
    by (rule one_page_steps(1) [OF one_page_steps(5) [OF o3]])
  moreover have "SerializedSize ?r = 4127" by (simp add: SerializedSize_def LogRecord_init_def rec_consts kPageSize_def)
  ultimately show ?thesis using d1(2,3) by (fastforce simp: BufferRecordLocked_def AppendTo_eq GetNextLeaf_def)
qed

lemma one_page_recount:
  assumes o: "one_page b p w q" and m: "root_page_id (meta q) = 2" and rep: "leaf_rep p []" and nx: "GetNextLeaf p = kInvalidPageId"
  shows "\<exists>b'. recount b = Some (kOk, b') \<and> wal b' = Some w"
proof -
  obtain b1 where f: "FetchPageInternal b 2 = (Inr 0, b1)" and o1: "one_page b1 p w q" using one_page_fetch [OF o] by blast
  have l: "IsLeaf p" "NumKeys p = 0" using rep leaf_rep_entries(1) [OF rep] by (simp_all add: leaf_rep_def)
  obtain b2 where f2: "FetchPageInternal (ReleaseGuard b1 0) 2 = (Inr 0, b2)" and o2: "one_page b2 p w q"
    using one_page_fetch [OF one_page_steps(1) [OF o1]] by blast
  let ?c = "Cursor_init\<lparr>cpage := p, cindex := 0, cvalid := False\<rparr>"
  have "SeekToFirst b = Some (?c, ReleaseGuard b2 0)"
    using f f2 m l nx one_page_steps(9) [OF o] one_page_steps(6,7) [OF o1] one_page_steps(6) [OF o2]
    by (simp add: SeekToFirst_def IsEmpty_def kInvalidPageId_def descend_first.simps MoveTo_def SkipToLiveEntry.simps Let_def)
  then show ?thesis using one_page_steps(8) [OF one_page_steps(1) [OF o2]] by (simp add: recount_def count_loop.simps Cursor_init_def)
qed

text \<open>
  Transaction 2 makes page 2 the root and puts an entry into it; transaction 1 is cut off in the middle of an operation on the same
  page. The log has been read back, the page is still empty on disk.
\<close>

definition cut_log :: "LogRecord list" where
  "cut_log =
    [LogRecord_init\<lparr>rtype := kBegin, txid := 2, op_end := True, rpage := kInvalidPageId, lsn := 1\<rparr>,
     LogRecord_init\<lparr>rtype := kRootChange, txid := 2, rpage := 2, lsn := 32\<rparr>,
     LogRecord_init\<lparr>rtype := kPut, txid := 2, op_end := True, rpage := 2, rkey := [97], rvalue := [1], lsn := 63\<rparr>,
     LogRecord_init\<lparr>rtype := kPut, txid := 1, rpage := 2, rkey := [98], rvalue := [2], lsn := 96\<rparr>]"

definition cut_writer :: LogWriter where
  "cut_writer = fold (\<lambda>r w. snd (Append w r)) cut_log empty_log"

definition cut_db :: DbImpl where
  "cut_db = new_db\<lparr>pool := dirty_pool (Some cut_writer)\<rparr>"

lemma appended_inv:
  assumes "wal_inv w rs" and "length (ser (rs @ l)) < 2 ^ 64" and "chain (end_lsn w) l"
  shows "wal_inv (fold (\<lambda>r w. snd (Append w r)) l w) (rs @ l)"
  using assms
proof (induction l arbitrary: w rs)
  case (Cons r l)
  have r: "r\<lparr>lsn := end_lsn w\<rparr> = r" using Cons.prems(3) by (cases r) simp
  have a: "Append w r = (end_lsn w, BufferRecordLocked w r)" using Cons.prems(3) by (simp add: Append_def Let_def r)
  have "length (ser rs) + SerializedSize r < 2 ^ 64" "rec_fits r" using Cons.prems(2,3) by (simp_all add: ser_def)
  then have i: "wal_inv (snd (Append w r)) (rs @ [r])" using Append_inv(2) [OF Cons.prems(1) _ _ a] unfolding a r by simp
  have "end_lsn (snd (Append w r)) = end_lsn w + of_nat (SerializedSize r)" by (simp add: a BufferRecordLocked_def)
  then show ?case using Cons.IH [OF i] Cons.prems(2,3) by simp
qed simp

lemma cut_writer_ok: "wal_inv cut_writer cut_log" "NeedsImage cut_writer 2" "base_lsn cut_writer = 1" "file_bytes cut_writer + length (buffer cut_writer) = 128"
proof -
  note R = LogRecord_init_def rec_fits_def SerializedSize_def rec_consts
  have e: "Append w r = (end_lsn w, BufferRecordLocked w (r\<lparr>lsn := end_lsn w\<rparr>))" for w r by (simp add: Append_def Let_def)
  have "wal_inv cut_writer ([] @ cut_log)"
    unfolding cut_writer_def by (rule appended_inv [OF empty_log_inv]) (simp_all add: cut_log_def ser_def R)
  then show "wal_inv cut_writer cut_log" by (simp add: cut_log_def)
  show "NeedsImage cut_writer 2" "base_lsn cut_writer = 1" "file_bytes cut_writer + length (buffer cut_writer) = 128"
    by (simp_all add: cut_writer_def cut_log_def e BufferRecordLocked_def NeedsImage_def AppendTo_eq R)
qed

lemma cut_db_ok:
  "crash_state {2} (\<lambda>_. (LeafPage [] kInvalidPageId, 0)) cut_log cut_db [([97], [1])]" "undo_images cut_db cut_log = [([97], None)]"
  "ckpt cut_db = 0" "marked_log cut_db cut_log = zip cut_log [True, True, True, False]" "is_loser 0 cut_log 2"
  "one_page (pool cut_db) (Page_Init 2 kLeaf) cut_writer pager3"
proof -
  let ?b = "dirty_pool (Some cut_writer)" let ?E = "\<lambda>_ :: PageId. (LeafPage [] kInvalidPageId, 0 :: Lsn)" let ?L = "take 3 cut_log"
  have m: "meta (pager ?b) = Meta_Init\<lparr>num_pages := 3\<rparr>" by (simp add: dirty_pool_ok(3))
  show ck: "ckpt cut_db = 0" by (simp add: cut_db_def m Meta_Init_def kInvalidLsn_def)
  show ml: "marked_log cut_db cut_log = zip cut_log [True, True, True, False]"
    unfolding marked_log_def ck by (simp add: cut_log_def applicable_def LogRecord_init_def)
  then have sel: "selected (marked_log cut_db cut_log) = ?L" by (simp add: cut_log_def)
  show lo: "is_loser 0 cut_log 2" by (simp add: is_loser_def txn_flags_def cut_log_def LogRecord_init_def)
  show "undo_images cut_db cut_log = [([97], None)]"
    unfolding ck ml using lo by (simp add: loser_images_def taken_back_def cut_log_def LogRecord_init_def)
  show "one_page (pool cut_db) (Page_Init 2 kLeaf) cut_writer pager3" by (simp add: one_page_def cut_db_def dirty_pool_ok)
  have fp: "free_pages ?b []" by (simp add: free_pages_def dirty_pool_ok Meta_Init_def)
  then have ok: "pool_ok ?b" using dirty_pool_ok(1) by (auto simp: pool_ok_def)
  have rl: "run_log {2} ?E ?L"
    by (simp add: run_log_def cut_log_def LogRecord_init_def changes_page_def change_fits_def leaf_size_def kInvalidPageId_def logged_def less_Suc_eq)
  have "leaf_rep (Page_Init 2 kLeaf) []" using InitLeaf_rep [of 2 kLeaf] by (simp add: InitLeaf_def Page_Init_def header_Init_def)
  then have "page_at ?b 2 (?E 2)"
    using live_pageI [OF fp, of 2] dirty_pool_ok(2,3) [of "Some cut_writer"]
    by (simp add: page_at_def data_page_def kFirstDataPage_def Meta_Init_def Page_Init_def header_Init_def kInvalidLsn_def GetNextLeaf_def)
  then have cr: "crashed ?L ?E ?b 2" by (auto simp: crashed_def intro!: exI [of _ 0])
  have "describes (fst \<circ> history ?L ?E) (fold root_after ?L kInvalidPageId) (Lf 2 [([97], [1])])"
    by (simp add: describes_def cut_log_def logged_def changes_page_def LogRecord_init_def after_def root_after_def kInvalidPageId_def above_def below_def)
  then have lh: "log_holds {2} (fst \<circ> history ?L ?E) (fold root_after ?L kInvalidPageId) [([97], [1])]"
    unfolding log_holds_def by (intro disjI2 exI [of _ "Lf 2 [([97], [1])]"]) (simp add: entries_def)
  show "crash_state {2} ?E cut_log cut_db [([97], [1])]"
    unfolding crash_state_def sel using ok rl cr lh by (simp add: cut_db_def m Meta_Init_def)
qed

lemma cut_recovery:
  obtains b where "\<exists>b0. redo_loop (marked_log cut_db cut_log) False (pool cut_db) = Some (kOk, True, b0) \<and> roomy b0"
    and "Recover cut_log cut_db = Some (kOk, cut_db\<lparr>txn_manager := snd (Txn_Begin (txn_manager cut_db)), pool := b\<rparr>)" and "log_bytes b = 4255"
proof -
  let ?q = "SetRootPageId pager3 2" let ?p = "Page_Init 2 kLeaf" let ?S = "LeafPage [([97], [1])] kInvalidPageId"
  obtain r0 r1 r2 r3 where l: "cut_log = [r0, r1, r2, r3]" by (simp add: cut_log_def)
  have r: "rtype r0 = kBegin" "rtype r1 = kRootChange" "rpage r1 = 2" "rtype r2 = kPut" "rpage r2 = 2" "lsn r2 = 63" "rkey r2 = [97]"
    "before r2 = None" "txid r0 = 2" "txid r1 = 2" "txid r2 = 2" "changes_page r2" "after r2 (LeafPage [] kInvalidPageId) = ?S"
    "change_fits r2 (LeafPage [] kInvalidPageId)"
    using l by (auto simp: cut_log_def LogRecord_init_def changes_page_def after_def change_fits_def leaf_size_def)
  have sh: "shaped ?p (LeafPage [] kInvalidPageId)" "mem_ok ?p"
    using InitLeaf_rep [of 2 kLeaf] by (simp_all add: InitLeaf_def Page_Init_def header_Init_def mem_ok_def GetNextLeaf_def)
  obtain p where p: "RedoPut r2 ?p = (kOk, p)" "leaf_rep p [([97], [1])]" "GetNextLeaf p = kInvalidPageId"
    using redo_fun_ok [OF r(12) sh r(14)] r(4,13) by auto
  have ls: "page_lsn (hdr ?p) < lsn r2" by (simp add: r(6) Page_Init_def header_Init_def kInvalidLsn_def)
  note o0 = one_page_steps(5) [OF cut_db_ok(6), of ?q]
  obtain b0 where a: "ApplyRecord r2 ((pool cut_db)\<lparr>pager := ?q\<rparr>) = Some (kOk, True, b0)" "one_page b0 p cut_writer ?q"
    using one_page_redo [OF o0 r(5,4) ls p(1)] by blast
  have "ApplyRecord r0 b = Some (kOk, False, b)" "ApplyRecord r1 b = Some (kOk, True, b\<lparr>pager := SetRootPageId (pager b) 2\<rparr>)" for b
    using r(1-3) by (simp_all add: ApplyRecord_def)
  then have redo: "redo_loop (marked_log cut_db cut_log) False (pool cut_db) = Some (kOk, True, b0)"
    unfolding cut_db_ok(4) unfolding l using a(1) one_page_steps(9) [OF cut_db_ok(6)] by simp
  have q: "root_page_id (meta ?q) = 2" "root_page_id (meta (AddToNumKeys ?q (- 1))) = 2" "num_pages (meta ?q) = 3" by (simp_all add: SetRootPageId_def)
  have ro: "roomy b0" using one_page_steps(9) [OF a(2)] q(3) by (simp add: roomy_def)
  let ?tx = "fst (Txn_Begin (txn_manager cut_db))"
  obtain b1 p1 w1 where d: "Delete [97] ?tx False b0 = Some (kOk, None, b1)" "one_page b1 p1 w1 (AddToNumKeys ?q (- 1))" "leaf_rep p1 []"
      "GetNextLeaf p1 = GetNextLeaf p" "file_bytes w1 + length (buffer w1) = file_bytes cut_writer + length (buffer cut_writer) + 4127"
    using one_page_Delete [OF a(2) q(1) p(2) cut_writer_ok(2)] by blast
  have un: "undo_record ?tx r2 b0 = Some (kOk, True, b1)" "undo_record ?tx r1 b1 = Some (kOk, False, b1)" "undo_record ?tx r0 b1 = Some (kOk, False, b1)"
    using r d(1) by (simp_all add: undo_record_def)
  have rb: "rollback_loop 0 (is_loser 0 cut_log) ?tx (rev (marked_log cut_db cut_log)) True b0 = Some (kOk, True, b1)"
    unfolding cut_db_ok(4) using cut_db_ok(5) un r by (simp add: l)
  obtain b2 where c: "recount b1 = Some (kOk, b2)" "wal b2 = Some w1" using one_page_recount [OF d(2) q(2) d(3)] d(4) p(3) by auto
  have "Recover cut_log cut_db = Some (kOk, cut_db\<lparr>txn_manager := snd (Txn_Begin (txn_manager cut_db)), pool := b2\<rparr>)"
    using redo rb c(1) by (simp add: Recover_def marked_log_def cut_db_ok(3) Let_def case_prod_beta)
  moreover have "log_bytes b2 = 4255" using c(2) d(5) cut_writer_ok(4) by (simp add: log_bytes_def)
  ultimately show thesis using that redo ro by blast
qed

theorem undo_pass_completes_cut_operations_witness:
  "\<exists>db' rs'. Recover cut_log cut_db = Some (kOk, db') \<and> log_is (pool db') (cut_log @ rs') \<and>
     \<not> applicable (ckpt cut_db) cut_log ! 3 \<and> applicable (ckpt cut_db) (cut_log @ rs') ! 3"
proof -
  obtain b b0 where R: "redo_loop (marked_log cut_db cut_log) False (pool cut_db) = Some (kOk, True, b0)" "roomy b0"
    "Recover cut_log cut_db = Some (kOk, cut_db\<lparr>txn_manager := snd (Txn_Begin (txn_manager cut_db)), pool := b\<rparr>)" "log_bytes b = 4255"
    using cut_recovery by metis
  have t: "txn_manager cut_db = TxnManager_init" by (simp add: cut_db_def new_db_def DbImpl_init_def)
  have u: "undoable cut_db cut_log" using R(1,2) cut_db_ok(2) by (auto simp: undoable_def rollback_roomy_def split: option.split)
  have w: "wal (pool cut_db) = Some cut_writer" by (rule one_page_steps(8) [OF cut_db_ok(6)])
  have c: "txid (cut_log ! 3) = kFirstTxId" "length cut_log = 4" "\<not> applicable 0 cut_log ! 3"
    by (simp_all add: cut_log_def LogRecord_init_def kFirstTxId_def applicable_def)
  have k: "map_of (undo_images cut_db cut_log) [97] = Some None" "None \<noteq> map_of [([97], [1])] [97]" by (simp_all add: cut_db_ok(2))
  show ?thesis using undo_pass_completes_cut_operations [OF cut_db_ok(1) u t w cut_writer_ok(1) k] R(3,4) c cut_writer_ok(3)
    by (auto simp: cut_db_ok(3))
qed

end
