(* ===== verification/Transactions.thy ===== *)
theory Transactions
  imports Db_Store
begin

section \<open>Interleaved transactions\<close>

text \<open>
  Any number of explicit transactions run on one handle, their operations interleaved, together with autocommit writes on
  keys that no open transaction has written (the restriction the interface documents) and checkpoints. Next to the handle and the
  transaction objects the runs carry two specification variables: the committed map, and for every transaction its
  uncommitted writes. The theorems say that the stored entries are the committed map overlaid with the uncommitted writes, whose
  keys are disjoint, so that commit publishes exactly a transaction's writes and abort takes exactly them back, and that a
  transactional read sees the committed map and the reader's own writes only.
\<close>

type_synonym overlay = "key \<Rightarrow> bytes option option"

definition seen :: "(key \<rightharpoonup> bytes) \<Rightarrow> overlay \<Rightarrow> key \<rightharpoonup> bytes" where
  "seen C W k = (case W k of None \<Rightarrow> C k | Some x \<Rightarrow> x)"

text \<open>The rollback writes through the tree, which must not run out of page ids on the way.\<close>

fun undo_roomy :: "TxId \<Rightarrow> UndoAction list \<Rightarrow> BufferPool \<Rightarrow> bool" where
  "undo_roomy tx [] b = True"
| "undo_roomy tx (u # us) b =
     (roomy b \<and> (case undo_one tx u b of None \<Rightarrow> True | Some (s, b') \<Rightarrow> s = kOk \<longrightarrow> undo_roomy tx us b'))"

text \<open>
  The states of a handle that no operation has poisoned. A transaction whose lock request is still blocked has not returned
  from its operation and takes no step.
\<close>

inductive runs :: "DbImpl \<Rightarrow> (TxId \<rightharpoonup> TxnImpl) \<Rightarrow> (key \<rightharpoonup> bytes) \<Rightarrow> (TxId \<Rightarrow> overlay) \<Rightarrow> bool" where
  fresh: "stored (pool db) es \<Longrightarrow> lock_manager db = LockManager_init \<Longrightarrow> length (mreserved (meta (pager (pool db)))) = 4048 \<Longrightarrow>
    \<not> needs_reopen db \<Longrightarrow> runs db Map.empty (map_of es) (\<lambda>_ _. None)"
| begin_txn: "runs db ts C W \<Longrightarrow> Db_Begin retry_of db = (Inr t, db') \<Longrightarrow> ts (txn_id t) = None \<Longrightarrow> runs db' (ts(txn_id t \<mapsto> t)) C W"
| get: "runs db ts C W \<Longrightarrow> ts tx = Some t \<Longrightarrow> Txn_Get timeout k t db = Some (r, t', db') \<Longrightarrow> runs db' (ts(tx \<mapsto> t')) C W"
| put: "runs db ts C W \<Longrightarrow> ts tx = Some t \<Longrightarrow> roomy (pool db) \<Longrightarrow> Txn_Put timeout k v t db = Some (s, t', db') \<Longrightarrow> \<not> needs_reopen db' \<Longrightarrow>
    runs db' (ts(tx \<mapsto> t')) C (if s = kOk then W(tx := (W tx)(k \<mapsto> Some v)) else W)"
| delete: "runs db ts C W \<Longrightarrow> ts tx = Some t \<Longrightarrow> length k < 65000 \<Longrightarrow> Txn_Delete timeout k t db = Some (s, t', db') \<Longrightarrow> \<not> needs_reopen db' \<Longrightarrow>
    runs db' (ts(tx \<mapsto> t')) C (if s = kOk then W(tx := (W tx)(k \<mapsto> None)) else W)"
| commit: "runs db ts C W \<Longrightarrow> ts tx = Some t \<Longrightarrow> active t \<Longrightarrow> Commit t db = (s, t', db') \<Longrightarrow> \<not> needs_reopen db' \<Longrightarrow>
    runs db' (ts(tx \<mapsto> t')) (seen C (W tx)) (W(tx := \<lambda>_. None))"
| abort: "runs db ts C W \<Longrightarrow> ts tx = Some t \<Longrightarrow> active t \<Longrightarrow> undo_roomy tx (rev (undo t)) (pool db) \<Longrightarrow> Abort t db = Some (s, t', db') \<Longrightarrow>
    \<not> needs_reopen db' \<Longrightarrow> runs db' (ts(tx \<mapsto> t')) C (W(tx := \<lambda>_. None))"
| auto_put: "runs db ts C W \<Longrightarrow> (\<And>tx. W tx k = None) \<Longrightarrow> roomy (pool db) \<Longrightarrow> Db_Put k v db = Some (s, db') \<Longrightarrow> \<not> needs_reopen db' \<Longrightarrow>
    runs db' ts (if 4048 < 4 + length k + length v then C else C(k \<mapsto> v)) W"
| auto_delete: "runs db ts C W \<Longrightarrow> (\<And>tx. W tx k = None) \<Longrightarrow> length k < 65000 \<Longrightarrow> Db_Delete k db = Some (s, db') \<Longrightarrow> \<not> needs_reopen db' \<Longrightarrow>
    runs db' ts (C(k := None)) W"
| checkpoint: "runs db ts C W \<Longrightarrow> Checkpoint db = (s, db') \<Longrightarrow> runs db' ts C W"

subsection \<open>The rollback\<close>

fun restore :: "UndoAction list \<Rightarrow> (key \<rightharpoonup> bytes) \<Rightarrow> key \<rightharpoonup> bytes" where
  "restore [] m = m"
| "restore ((k, bef) # us) m = restore us (m(k := bef))"

lemma restore_append: "restore (us @ vs) m = restore vs (restore us m)"
  by (induction us arbitrary: m) auto

text \<open>Going through the writes newest first, the oldest before-image of a key is written last.\<close>

lemma restore_rev: "restore (rev us) m k = (case map_of us k of Some bef \<Rightarrow> bef | None \<Rightarrow> m k)"
  by (induction us) (auto simp: restore_append)

definition holds_store :: "BufferPool \<Rightarrow> (key \<rightharpoonup> bytes) \<Rightarrow> bool" where
  "holds_store b m \<longleftrightarrow> (\<exists>es. stored b es \<and> map_of es = m) \<and> length (mreserved (meta (pager b))) = 4048"

lemma holds_store_evolves:
  "stored b' es \<Longrightarrow> evolves b b' \<Longrightarrow> length (mreserved (meta (pager b))) = 4048 \<Longrightarrow> holds_store b' (map_of es)"
  by (auto simp: holds_store_def evolves_def)

lemma Put_holds:
  assumes h: "holds_store b m" and r: "roomy b" and p: "Put k v tx u b = Some (s, bef, b')"
  shows "s = kOk \<Longrightarrow> holds_store b' (m(k \<mapsto> v)) \<and> bef = (if u then m k else None)"
    and "s = kInvalidArgument \<longleftrightarrow> 4048 < 4 + length k + length v" and "s = kInvalidArgument \<Longrightarrow> b' = b"
proof -
  obtain es where es: "stored b es" "map_of es = m" and l: "length (mreserved (meta (pager b))) = 4048" using h by (auto simp: holds_store_def)
  note P = Put_stored [OF es(1) r, of k v tx u, unfolded p]
  have big: "Put k v tx u b = Some (kInvalidArgument, None, b)" if "4048 < 4 + length k + length v"
    using that by (simp add: Put_def kMaxLeafRecordBytes_def layout_defs)
  show "s = kInvalidArgument \<longleftrightarrow> 4048 < 4 + length k + length v" "s = kInvalidArgument \<Longrightarrow> b' = b"
    using P p big by (auto simp: io_error_def split: if_splits)
  assume "s = kOk"
  then have "stored b' (upsert k v es)" "bef = (if u then m k else None)" using P es(2) by auto
  then show "holds_store b' (m(k \<mapsto> v)) \<and> bef = (if u then m k else None)"
    using holds_store_evolves [OF _ Put_evo [OF p es(1)] l, of "upsert k v es"] es(2) by (simp add: upsert_map)
qed

lemma Delete_holds:
  assumes h: "holds_store b m" and k: "length k < 65000" and p: "Delete k tx u b = Some (s, bef, b')"
  shows "s = kOk \<Longrightarrow> holds_store b' (m(k := None)) \<and> m k \<noteq> None \<and> bef = (if u then m k else None)"
    and "s \<noteq> kOk \<Longrightarrow> holds_store b' m" and "s = kNotFound \<Longrightarrow> m k = None"
proof -
  obtain es where es: "stored b es" "map_of es = m" and l: "length (mreserved (meta (pager b))) = 4048" using h by (auto simp: holds_store_def)
  note P = Delete_stored [OF es(1), of k tx u, unfolded p] and H = holds_store_evolves [OF _ Delete_stored_evo [OF p k es(1)] l]
  show "s \<noteq> kOk \<Longrightarrow> holds_store b' m" "s = kNotFound \<Longrightarrow> m k = None" using P H es(2) by (auto simp: io_error_def)
  assume "s = kOk"
  then have "stored b' (remove_key k es)" "m k \<noteq> None \<and> bef = (if u then m k else None)" using P es(2) by auto
  then show "holds_store b' (m(k := None)) \<and> m k \<noteq> None \<and> bef = (if u then m k else None)" using H [of "remove_key k es"] es(2) by (simp add: remove_key_map)
qed

lemma Get_holds:
  assumes h: "holds_store b m" and p: "Get k b = Some (r, b')"
  shows "holds_store b' m" and "case r of Inr v \<Rightarrow> m k = Some v | Inl s \<Rightarrow> s = kNotFound \<and> m k = None \<or> io_error s"
proof -
  obtain es where es: "stored b es" "map_of es = m" and l: "length (mreserved (meta (pager b))) = 4048" using h by (auto simp: holds_store_def)
  have g: "pc.reads b b'" "case r of Inr v \<Rightarrow> map_of es k = Some v | Inl s \<Rightarrow> s = kNotFound \<and> map_of es k = None \<or> io_error s"
    using Get_stored [OF es(1), of k] p by auto
  then show "case r of Inr v \<Rightarrow> m k = Some v | Inl s \<Rightarrow> s = kNotFound \<and> m k = None \<or> io_error s" unfolding es(2) by simp
  show "holds_store b' m" using stored_reads [OF es(1) g(1)] g(1) es(2) l by (auto simp: holds_store_def pc.reads_def)
qed

lemma holds_store_same: "holds_store b m \<Longrightarrow> same_store b b' \<Longrightarrow> holds_store b' m"
  using same_store_stored by (fastforce simp: holds_store_def same_store_def)

lemma holds_store_ok: "holds_store b m \<Longrightarrow> pool_ok b" "holds_store b m \<Longrightarrow> length (mreserved (meta (pager b))) = 4048"
  using stored_inv by (auto simp: holds_store_def)

lemma undo_one_ok:
  assumes h: "holds_store b m" and r: "roomy b" and k: "length k < 65000" and u: "undo_one tx (k, bef) b = Some (kOk, b')"
  shows "holds_store b' (m(k := bef))"
proof (cases bef)
  case (Some v)
  then obtain x where "Put k v tx False b = Some (kOk, x, b')" using u by (auto simp: undo_one_def)
  then show ?thesis using Put_holds(1) [OF h r] Some by fastforce
next
  case None
  then obtain s x where d: "Delete k tx False b = Some (s, x, b')" "s = kNotFound \<or> s = kOk" using u by (auto simp: undo_one_def split: if_splits)
  note D = Delete_holds [OF h k d(1)]
  from d(2) show ?thesis
  proof
    assume s: "s = kNotFound"
    then have "holds_store b' m" "m k = None" using D(2,3) by simp_all
    then show ?thesis using None by (metis fun_upd_idem)
  qed (use D(1) None in simp)
qed

lemma undo_loop_ok:
  assumes "holds_store b m" and "undo_roomy tx us b" and "\<forall>u \<in> set us. length (fst u) < 65000" and "undo_loop tx us b = Some (kOk, b')"
  shows "holds_store b' (restore us m)"
  using assms
proof (induction us arbitrary: b m)
  case (Cons u us)
  obtain k bef where u: "u = (k, bef)" by fastforce
  obtain b1 where b1: "undo_one tx (k, bef) b = Some (kOk, b1)" "undo_loop tx us b1 = Some (kOk, b')"
    using Cons.prems(4) u by (auto simp: Option.bind_eq_Some_conv split: if_splits)
  have "holds_store b1 (m(k := bef))" by (rule undo_one_ok [OF Cons.prems(1) _ _ b1(1)]) (use Cons.prems(2,3) u in auto)
  then have "holds_store b' (restore us (m(k := bef)))" by (rule Cons.IH [OF _ _ _ b1(2)]) (use Cons.prems(2,3) b1(1) u in auto)
  then show ?case unfolding u restore.simps .
qed simp

subsection \<open>Locks\<close>

text \<open>What a granted request changes, seen by the holders of exclusive locks.\<close>

abbreviation has_X :: "LockManager \<Rightarrow> TxId \<Rightarrow> key \<Rightarrow> bool" where
  "has_X l tx k \<equiv> \<exists>h. Locks.holds l tx k = Some h \<and> mode h = kExclusive"

lemma has_X_unique: "lock_inv l \<Longrightarrow> has_X l tx k \<Longrightarrow> has_X l ux k \<Longrightarrow> tx = ux"
  using lock_inv_excl by blast

lemma Acquire_granted:
  assumes inv: "lock_inv (lock_manager db)" and a: "Acquire timeout t k m db = Some (kOk, db')"
  obtains l where "db' = db\<lparr>lock_manager := l\<rparr>" and "lock_inv l"
    and "\<And>u j. has_X (lock_manager db) u j \<Longrightarrow> has_X l u j" and "m = kExclusive \<Longrightarrow> has_X l (txn_id t) k"
    and "\<And>u. u \<noteq> txn_id t \<Longrightarrow> \<not> has_X (lock_manager db) u k"
proof -
  let ?l = "grant (lock_manager db) (txn_id t) (txn_priority t) k m"
  have c: "conflicting (lock_manager db) (txn_id t) k m = {}" and d: "db' = db\<lparr>lock_manager := ?l\<rparr>"
    using a unfolding Acquire_def acquire_try_eq [OF inv] by (auto split: if_splits)
  have h: "Locks.holds ?l u j = (if u = txn_id t \<and> j = k then
       Some (case Locks.holds (lock_manager db) (txn_id t) k of None \<Rightarrow> \<lparr>mode = m, priority = txn_priority t\<rparr>
             | Some h \<Rightarrow> if m = kExclusive then h\<lparr>mode := kExclusive\<rparr> else h) else Locks.holds (lock_manager db) u j)" for u j
    by (rule holds_grant [OF inv])
  show ?thesis
  proof (rule that [OF d grant_inv [OF inv c]])
    show "has_X ?l u j" if "has_X (lock_manager db) u j" for u j using that by (auto simp: h)
    show "has_X ?l (txn_id t) k" if "m = kExclusive" unfolding that by (simp add: h [unfolded that] split: option.split)
    show "\<not> has_X (lock_manager db) u k" if "u \<noteq> txn_id t" for u using that c by (fastforce simp: conflicting_def Conflicts_def)
  qed
qed

lemma Acquire_refused: "Acquire timeout t k m db = Some (s, db') \<Longrightarrow> s \<noteq> kOk \<Longrightarrow> db' = db \<and> s = kBusy"
  by (auto simp: Acquire_def split: Attempt.splits if_splits)

lemma has_X_ReleaseAll: "lock_inv l \<Longrightarrow> has_X (ReleaseAll l t) u k \<longleftrightarrow> u \<noteq> t \<and> has_X l u k"
  by (simp add: holds_ReleaseAll)

subsection \<open>The invariant\<close>

definition txn_ok :: "LockManager \<Rightarrow> (key \<rightharpoonup> bytes) \<Rightarrow> TxId \<Rightarrow> TxnImpl \<Rightarrow> overlay \<Rightarrow> bool" where
  "txn_ok l C tx t W \<longleftrightarrow> txn_id t = tx \<and>
     (if active t then
        (undo t \<noteq> [] \<longrightarrow> begun t) \<and> (\<forall>k. W k \<noteq> None \<longleftrightarrow> map_of (undo t) k \<noteq> None) \<and>
        (\<forall>k. W k \<noteq> None \<longrightarrow> length k < 65000 \<and> map_of (undo t) k = Some (C k) \<and> has_X l tx k)
      else \<forall>k. W k = None)"

definition agrees :: "(key \<rightharpoonup> bytes) \<Rightarrow> (key \<rightharpoonup> bytes) \<Rightarrow> (TxId \<Rightarrow> overlay) \<Rightarrow> bool" where
  "agrees m C W \<longleftrightarrow> (\<forall>tx k x. W tx k = Some x \<longrightarrow> m k = x) \<and> (\<forall>k. (\<forall>tx. W tx k = None) \<longrightarrow> m k = C k)"

lemma agrees_unique:
  assumes "agrees m C W" and "agrees m' C W"
  shows "m = m'"
proof (rule ext)
  fix k
  show "m k = m' k"
  proof (cases "\<forall>tx. W tx k = None")
    case False
    then obtain tx x where "W tx k = Some x" by auto
    then have "m k = x" "m' k = x" using assms by (simp_all add: agrees_def)
    then show ?thesis by simp
  qed (use assms in \<open>simp add: agrees_def\<close>)
qed

definition sys_ok :: "DbImpl \<Rightarrow> (TxId \<rightharpoonup> TxnImpl) \<Rightarrow> (key \<rightharpoonup> bytes) \<Rightarrow> (TxId \<Rightarrow> overlay) \<Rightarrow> bool" where
  "sys_ok db ts C W \<longleftrightarrow> \<not> needs_reopen db \<and> lock_inv (lock_manager db) \<and> (\<exists>m. holds_store (pool db) m \<and> agrees m C W) \<and>
     (\<forall>tx k. ts tx = None \<longrightarrow> W tx k = None) \<and> (\<forall>tx t. ts tx = Some t \<longrightarrow> txn_ok (lock_manager db) C tx t (W tx))"

lemma sys_okD:
  assumes "sys_ok db ts C W"
  shows "\<not> needs_reopen db" and "lock_inv (lock_manager db)" and "\<exists>m. holds_store (pool db) m \<and> agrees m C W"
    and "ts tx = Some t \<Longrightarrow> txn_ok (lock_manager db) C tx t (W tx)" and "W tx k \<noteq> None \<Longrightarrow> has_X (lock_manager db) tx k"
    and "W tx k \<noteq> None \<Longrightarrow> W ux k \<noteq> None \<Longrightarrow> tx = ux"
proof -
  show s: "\<not> needs_reopen db" "lock_inv (lock_manager db)" "\<exists>m. holds_store (pool db) m \<and> agrees m C W" using assms by (auto simp: sys_ok_def)
  show t: "ts tx = Some t \<Longrightarrow> txn_ok (lock_manager db) C tx t (W tx)" for tx t using assms by (simp add: sys_ok_def)
  have x: "has_X (lock_manager db) tx k" if w: "W tx k \<noteq> None" for tx
  proof -
    have "ts ux = None \<Longrightarrow> W ux j = None" for ux j using assms by (simp add: sys_ok_def)
    then obtain t where "ts tx = Some t" using w by (cases "ts tx") auto
    then show ?thesis using t [of tx] w by (auto simp: txn_ok_def split: if_splits)
  qed
  show "W tx k \<noteq> None \<Longrightarrow> has_X (lock_manager db) tx k" by (rule x)
  show "W tx k \<noteq> None \<Longrightarrow> W ux k \<noteq> None \<Longrightarrow> tx = ux" using x has_X_unique [OF s(2)] by blast
qed

lemma txn_okD:
  assumes "txn_ok l C tx t W" and "active t"
  shows "W k = None \<longleftrightarrow> map_of (undo t) k = None" and "W k \<noteq> None \<Longrightarrow> map_of (undo t) k = Some (C k)"
    and "k \<in> fst ` set (undo t) \<Longrightarrow> length k < 65000" and "undo t \<noteq> [] \<Longrightarrow> begun t"
proof -
  have w: "\<forall>k. W k \<noteq> None \<longleftrightarrow> map_of (undo t) k \<noteq> None" "\<forall>k. W k \<noteq> None \<longrightarrow> length k < 65000 \<and> map_of (undo t) k = Some (C k) \<and> has_X l tx k"
    and b: "undo t \<noteq> [] \<longrightarrow> begun t"
    using assms by (simp_all add: txn_ok_def)
  show "W k = None \<longleftrightarrow> map_of (undo t) k = None" "W k \<noteq> None \<Longrightarrow> map_of (undo t) k = Some (C k)" "undo t \<noteq> [] \<Longrightarrow> begun t"
    using w b by blast+
  show "length k < 65000" if "k \<in> fst ` set (undo t)" using w that map_of_eq_None_iff [of "undo t" k] by blast
qed

text \<open>Steps that write nothing, perhaps after acquiring a lock.\<close>

lemma sys_ok_step:
  assumes s: "sys_ok db ts C W" and t: "ts tx = Some t" and n: "\<not> needs_reopen db'" and i: "lock_inv (lock_manager db')"
    and p: "\<And>m. holds_store (pool db) m \<Longrightarrow> holds_store (pool db') m" and x: "\<And>u j. has_X (lock_manager db) u j \<Longrightarrow> has_X (lock_manager db') u j"
    and t': "txn_id t' = txn_id t" "undo t' = undo t" "active t' = active t" "begun t \<Longrightarrow> begun t'"
  shows "sys_ok db' (ts(tx \<mapsto> t')) C W"
proof -
  have "txn_ok (lock_manager db') C ux u (W ux)" if "txn_ok (lock_manager db) C ux u (W ux)" for ux u
    using that x by (fastforce simp: txn_ok_def split: if_splits)
  moreover have "txn_ok (lock_manager db') C tx t' (W tx)" if "txn_ok (lock_manager db') C tx t (W tx)" using that t' by (auto simp: txn_ok_def)
  ultimately have "(ts(tx \<mapsto> t')) ux = Some u \<Longrightarrow> txn_ok (lock_manager db') C ux u (W ux)" for ux u
    using sys_okD(4) [OF s] t by (auto split: if_splits)
  moreover have "(ts(tx \<mapsto> t')) ux = None \<Longrightarrow> W ux k = None" for ux k using s by (auto simp: sys_ok_def split: if_splits)
  moreover have "\<exists>m. holds_store (pool db') m \<and> agrees m C W" using sys_okD(3) [OF s] p by blast
  ultimately show ?thesis using n i unfolding sys_ok_def by blast
qed

text \<open>A transaction writes a key on which it has the exclusive lock.\<close>

lemma sys_ok_write:
  assumes s: "sys_ok db ts C W" and t: "ts tx = Some t" "active t" "begun t" and k: "length k < 65000" and x: "has_X (lock_manager db) tx k"
    and m: "holds_store (pool db) m" "agrees m C W" "holds_store b (m(k := v))"
  shows "sys_ok (db\<lparr>pool := b\<rparr>) (ts(tx \<mapsto> t\<lparr>undo := undo t @ [(k, m k)]\<rparr>)) C (W(tx := (W tx)(k \<mapsto> v)))"
proof -
  have own: "W ux k = None" if "ux \<noteq> tx" for ux using sys_okD(5) [OF s] x has_X_unique [OF sys_okD(2) [OF s]] that by blast
  have ok: "txn_ok (lock_manager db) C tx t (W tx)" by (rule sys_okD(4) [OF s t(1)])
  have first: "map_of (undo t @ [(k, m k)]) j = (if j = k then Some (C k) else map_of (undo t) j)" for j
  proof (cases "j = k \<and> W tx k = None")
    case True
    then have "\<forall>ux. W ux k = None" using own by metis
    then have "m k = C k" using m(2) by (simp add: agrees_def)
    moreover have "map_of (undo t) k = None" using txn_okD(1) [OF ok t(2)] True by blast
    ultimately show ?thesis using True by (simp add: map_add_def)
  next
    case False
    have "W tx k \<noteq> None \<Longrightarrow> map_of (undo t) k = Some (C k)" by (rule txn_okD(2) [OF ok t(2)])
    then show ?thesis using False by (auto simp: map_add_def split: option.split)
  qed
  have "txn_ok (lock_manager db) C tx (t\<lparr>undo := undo t @ [(k, m k)]\<rparr>) ((W tx)(k \<mapsto> v))"
    using ok t k x by (auto simp: txn_ok_def first simp del: map_of_append)
  moreover have "agrees (m(k := v)) C (W(tx := (W tx)(k \<mapsto> v)))" using m(2) own by (auto simp: agrees_def)
  ultimately show ?thesis using s m(3) by (auto simp: sys_ok_def)
qed

subsection \<open>The operations keep it\<close>

lemma LogTxnMarker_ok:
  assumes "holds_store (pool db) m" and "LogTxnMarker tx t db = (s, db')"
  shows "s = kOk" and "\<exists>b. db' = db\<lparr>pool := b\<rparr> \<and> same_store (pool db) b"
proof -
  obtain s1 b where a: "wal_append (LogRecord_init\<lparr>rtype := t, txid := tx, op_end := True, rpage := kInvalidPageId\<rparr>) (pool db) = (s1, b)" by fastforce
  note w = wal_append_ok [OF holds_store_ok(1) [OF assms(1)] a]
  show "s = kOk" "\<exists>b. db' = db\<lparr>pool := b\<rparr> \<and> same_store (pool db) b" using assms(2) a w(1,2) by (auto simp: LogTxnMarker_def)
qed

lemma EnsureBegun_ok:
  assumes h: "holds_store (pool db) m" and e: "EnsureBegun t db = (s, t', db')"
  shows "s = kOk" and "t' = t\<lparr>begun := True\<rparr>" and "\<exists>b n. db' = db\<lparr>pool := b, active_begun_txns := n\<rparr> \<and> same_store (pool db) b"
proof -
  obtain s1 db1 where l: "LogTxnMarker (txn_id t) kBegin db = (s1, db1)" by fastforce
  note L = LogTxnMarker_ok [OF h l]
  obtain b where b: "db1 = db\<lparr>pool := b\<rparr>" "same_store (pool db) b" using L(2) by blast
  show "s = kOk" "t' = t\<lparr>begun := True\<rparr>" using e l L(1) by (auto simp: EnsureBegun_def split: if_splits)
  have "db' = db \<and> begun t \<or> db' = db\<lparr>pool := b, active_begun_txns := active_begun_txns db + 1\<rparr>"
    using e l L(1) b by (auto simp: EnsureBegun_def split: if_splits)
  then show "\<exists>b n. db' = db\<lparr>pool := b, active_begun_txns := n\<rparr> \<and> same_store (pool db) b"
  proof
    assume "db' = db \<and> begun t"
    moreover have "db = db\<lparr>pool := pool db, active_begun_txns := active_begun_txns db\<rparr>" by simp
    ultimately show ?thesis using same_store_refl [OF holds_store_ok(1) [OF h]] by metis
  qed (use b in blast)
qed

text \<open>The common beginning of \<^verbatim>\<open>Put\<close> and \<^verbatim>\<open>Delete\<close>: the exclusive lock and the begin marker.\<close>

lemma write_prologue:
  assumes s: "sys_ok db ts C W" and t: "ts tx = Some t" "active t" and a: "Acquire timeout t k kExclusive db = Some (kOk, db1)"
    and e: "EnsureBegun t db1 = (s1, t1, db2)"
  shows "s1 = kOk" and "t1 = t\<lparr>begun := True\<rparr>" and "sys_ok db2 (ts(tx \<mapsto> t1)) C W" and "has_X (lock_manager db2) tx k"
    and "roomy (pool db) \<Longrightarrow> roomy (pool db2)"
proof -
  have id: "txn_id t = tx" using sys_okD(4) [OF s t(1)] by (simp add: txn_ok_def)
  obtain m where m: "holds_store (pool db) m" using sys_okD(3) [OF s] by blast
  obtain l where l: "db1 = db\<lparr>lock_manager := l\<rparr>" "lock_inv l" "\<And>u j. has_X (lock_manager db) u j \<Longrightarrow> has_X l u j" "has_X l tx k"
    using Acquire_granted [OF sys_okD(2) [OF s] a] id by metis
  have "holds_store (pool db1) m" using m l(1) by simp
  note E = EnsureBegun_ok [OF this e]
  show "s1 = kOk" "t1 = t\<lparr>begun := True\<rparr>" by (rule E(1), rule E(2))
  obtain b n where b: "db2 = db\<lparr>lock_manager := l, pool := b, active_begun_txns := n\<rparr>" "same_store (pool db) b" using E(3) l(1) by auto
  show "sys_ok db2 (ts(tx \<mapsto> t1)) C W"
    by (rule sys_ok_step [OF s t(1)]) (use b l E(2) sys_okD(1) [OF s] holds_store_same in auto)
  show "has_X (lock_manager db2) tx k" using b(1) l(4) by simp
  show "roomy (pool db2)" if "roomy (pool db)" using b that by (simp add: roomy_def same_store_def)
qed

lemma sys_ok_same: "sys_ok db ts C W \<Longrightarrow> ts tx = Some t \<Longrightarrow> sys_ok db (ts(tx \<mapsto> t)) C W"
  by (simp add: fun_upd_idem)

lemma Txn_Put_ok:
  assumes s: "sys_ok db ts C W" and t: "ts tx = Some t" and r: "roomy (pool db)"
    and p: "Txn_Put timeout k v t db = Some (st, t', db')" and n: "\<not> needs_reopen db'"
  shows "sys_ok db' (ts(tx \<mapsto> t')) C (if st = kOk then W(tx := (W tx)(k \<mapsto> Some v)) else W)"
proof (cases "active t")
  case False
  then show ?thesis using p sys_ok_same [OF s t] by (auto simp: Txn_Put_def)
next
  case True
  obtain s1 db1 where a: "Acquire timeout t k kExclusive db = Some (s1, db1)" using p True by (auto simp: Txn_Put_def Option.bind_eq_Some_conv)
  show ?thesis
  proof (cases "s1 = kOk")
    case False
    then show ?thesis using p True a Acquire_refused [OF a] sys_ok_same [OF s t] by (auto simp: Txn_Put_def)
  next
    case k: True
    obtain s2 t2 db2 where e: "EnsureBegun t db1 = (s2, t2, db2)" by (metis prod_cases3)
    note w = write_prologue [OF s t True a [unfolded k] e]
    obtain s3 bef b where q: "Put k v (txn_id t2) True (pool db2) = Some (s3, bef, b)"
      using p True a k e w(1) by (auto simp: Txn_Put_def)
    obtain m where m: "holds_store (pool db2) m" "agrees m C W" using sys_okD(3) [OF w(3)] by blast
    note P = Put_holds [OF m(1) w(5) [OF r] q]
    have res: "(st, t', db') = (if s3 \<noteq> kOk then if s3 = kInvalidArgument then (s3, t2, db2\<lparr>pool := b\<rparr>) else (s3, Poison t2 (db2\<lparr>pool := b\<rparr>))
        else (kOk, t2\<lparr>undo := undo t2 @ [(k, bef)]\<rparr>, db2\<lparr>pool := b\<rparr>))"
      using p True a k e w(1) q by (auto simp: Txn_Put_def Let_def)
    show ?thesis
    proof (cases "s3 = kOk")
      case False
      then have "s3 = kInvalidArgument" using res n by (auto simp: Poison_def split: if_splits)
      then show ?thesis using res P(3) w(3) False by auto
    next
      case ok: True
      have len: "length k < 65000" using P(2) ok by simp
      have "sys_ok (db2\<lparr>pool := b\<rparr>) ((ts(tx \<mapsto> t2))(tx \<mapsto> t2\<lparr>undo := undo t2 @ [(k, m k)]\<rparr>)) C (W(tx := (W tx)(k \<mapsto> Some v)))"
        by (rule sys_ok_write [OF w(3) _ _ _ len w(4) m]) (use True w(2) P(1) [OF ok] in auto)
      then show ?thesis using res ok P(1) [OF ok] by simp
    qed
  qed
qed

lemma Txn_Delete_ok:
  assumes s: "sys_ok db ts C W" and t: "ts tx = Some t" and len: "length k < 65000"
    and p: "Txn_Delete timeout k t db = Some (st, t', db')" and n: "\<not> needs_reopen db'"
  shows "sys_ok db' (ts(tx \<mapsto> t')) C (if st = kOk then W(tx := (W tx)(k \<mapsto> None)) else W)"
proof (cases "active t")
  case False
  then show ?thesis using p sys_ok_same [OF s t] by (auto simp: Txn_Delete_def)
next
  case True
  obtain s1 db1 where a: "Acquire timeout t k kExclusive db = Some (s1, db1)" using p True by (auto simp: Txn_Delete_def Option.bind_eq_Some_conv)
  show ?thesis
  proof (cases "s1 = kOk")
    case False
    then show ?thesis using p True a Acquire_refused [OF a] sys_ok_same [OF s t] by (auto simp: Txn_Delete_def)
  next
    case k: True
    obtain s2 t2 db2 where e: "EnsureBegun t db1 = (s2, t2, db2)" by (metis prod_cases3)
    note w = write_prologue [OF s t True a [unfolded k] e]
    obtain s3 bef b where q: "Delete k (txn_id t2) True (pool db2) = Some (s3, bef, b)"
      using p True a k e w(1) by (auto simp: Txn_Delete_def)
    obtain m where m: "holds_store (pool db2) m" "agrees m C W" using sys_okD(3) [OF w(3)] by blast
    note P = Delete_holds [OF m(1) len q]
    have res: "(st, t', db') = (if s3 = kNotFound then (s3, t2, db2\<lparr>pool := b\<rparr>) else if s3 \<noteq> kOk then (s3, Poison t2 (db2\<lparr>pool := b\<rparr>))
        else (kOk, t2\<lparr>undo := undo t2 @ [(k, bef)]\<rparr>, db2\<lparr>pool := b\<rparr>))"
      using p True a k e w(1) q by (auto simp: Txn_Delete_def Let_def)
    show ?thesis
    proof (cases "s3 = kOk")
      case False
      then have "s3 = kNotFound" using res n by (auto simp: Poison_def split: if_splits)
      moreover have "sys_ok (db2\<lparr>pool := b\<rparr>) ((ts(tx \<mapsto> t2))(tx \<mapsto> t2)) C W"
        by (rule sys_ok_step [OF w(3)]) (use sys_okD(1,2) [OF w(3)] Delete_holds(2) [OF _ len q False] in auto)
      ultimately show ?thesis using res False by simp
    next
      case ok: True
      have "sys_ok (db2\<lparr>pool := b\<rparr>) ((ts(tx \<mapsto> t2))(tx \<mapsto> t2\<lparr>undo := undo t2 @ [(k, m k)]\<rparr>)) C (W(tx := (W tx)(k \<mapsto> None)))"
        by (rule sys_ok_write [OF w(3) _ _ _ len w(4) m]) (use True w(2) P(1) [OF ok] in auto)
      then show ?thesis using res ok P(1) [OF ok] by simp
    qed
  qed
qed

text \<open>A granted read sees the committed map under the reader's own writes.\<close>

lemma Txn_Get_ok:
  assumes s: "sys_ok db ts C W" and t: "ts tx = Some t" and p: "Txn_Get timeout k t db = Some (r, t', db')"
  shows "sys_ok db' (ts(tx \<mapsto> t')) C W"
    and "active t \<Longrightarrow> case r of Inr v \<Rightarrow> seen C (W tx) k = Some v
      | Inl e \<Rightarrow> e = kNotFound \<and> seen C (W tx) k = None \<or> e = kBusy \<or> io_error e"
proof -
  have "sys_ok db' (ts(tx \<mapsto> t')) C W \<and> (active t \<longrightarrow> (case r of Inr v \<Rightarrow> seen C (W tx) k = Some v
      | Inl e \<Rightarrow> e = kNotFound \<and> seen C (W tx) k = None \<or> e = kBusy \<or> io_error e))"
  proof (cases "active t")
    case False
    then show ?thesis using p sys_ok_same [OF s t] by (auto simp: Txn_Get_def)
  next
    case True
    obtain s1 db1 where a: "Acquire timeout t k kShared db = Some (s1, db1)" using p True by (auto simp: Txn_Get_def Option.bind_eq_Some_conv)
    have id: "txn_id t = tx" using sys_okD(4) [OF s t] by (simp add: txn_ok_def)
    show ?thesis
    proof (cases "s1 = kOk")
      case False
      then show ?thesis using p True a Acquire_refused [OF a] sys_ok_same [OF s t] by (auto simp: Txn_Get_def)
    next
      case k: True
      obtain l where l: "db1 = db\<lparr>lock_manager := l\<rparr>" "lock_inv l" "\<And>u j. has_X (lock_manager db) u j \<Longrightarrow> has_X l u j"
        "kShared = kExclusive \<Longrightarrow> has_X l tx k" "\<And>u. u \<noteq> tx \<Longrightarrow> \<not> has_X (lock_manager db) u k"
        by (rule Acquire_granted [OF sys_okD(2) [OF s] a [unfolded k], unfolded id]) blast
      obtain b where g: "Get k (pool db) = Some (r, b)" "t' = t" "db' = db1\<lparr>pool := b\<rparr>" using p True a k l(1) by (auto simp: Txn_Get_def)
      obtain m where m: "holds_store (pool db) m" "agrees m C W" using sys_okD(3) [OF s] by blast
      have "W u k = None" if "u \<noteq> tx" for u using l(5) [OF that] sys_okD(5) [OF s, of u k] by blast
      then have "m k = seen C (W tx) k" using m(2) unfolding agrees_def seen_def by (metis option.case_eq_if option.collapse)
      moreover have "sys_ok db' (ts(tx \<mapsto> t')) C W"
        by (rule sys_ok_step [OF s t]) (use g l sys_okD(1) [OF s] Get_holds(1) [OF _ g(1)] in auto)
      ultimately show ?thesis using Get_holds(2) [OF m(1) g(1)] by (auto split: sum.splits)
    qed
  qed
  then show "sys_ok db' (ts(tx \<mapsto> t')) C W" "active t \<Longrightarrow> case r of Inr v \<Rightarrow> seen C (W tx) k = Some v
      | Inl e \<Rightarrow> e = kNotFound \<and> seen C (W tx) k = None \<or> e = kBusy \<or> io_error e" by blast+
qed

text \<open>The end of a transaction: its locks are released and its writes published, or taken back.\<close>

lemma sys_ok_end:
  assumes s: "sys_ok db ts C W" and t: "ts tx = Some t" "txn_id t' = tx" "\<not> active t'"
    and n: "\<not> needs_reopen db'" "lock_manager db' = ReleaseAll (lock_manager db) tx"
    and C': "\<And>k. W tx k = None \<Longrightarrow> C' k = C k"
    and m: "holds_store (pool db') m'" "\<And>m k. holds_store (pool db) m \<Longrightarrow> agrees m C W \<Longrightarrow> m' k = (if W tx k = None then m k else C' k)"
  shows "sys_ok db' (ts(tx \<mapsto> t')) C' (W(tx := \<lambda>_. None))"
proof -
  have inv: "lock_inv (lock_manager db)" by (rule sys_okD(2) [OF s])
  obtain m where m0: "holds_store (pool db) m" "agrees m C W" using sys_okD(3) [OF s] by blast
  have apart: "W tx k = None" if "W ux k \<noteq> None" "ux \<noteq> tx" for ux k using sys_okD(6) [OF s that(1), of tx] that(2) by blast
  have "txn_ok (lock_manager db') C' ux u (W ux)" if u: "ts ux = Some u" "ux \<noteq> tx" for ux u
  proof -
    have ok: "txn_ok (lock_manager db) C ux u (W ux)" by (rule sys_okD(4) [OF s u(1)])
    have "C' k = C k \<and> has_X (lock_manager db') ux k" if "W ux k \<noteq> None" for k
      using C' [OF apart [OF that u(2)]] sys_okD(5) [OF s that] has_X_ReleaseAll [OF inv] n(2) u(2) by simp
    then show ?thesis using ok unfolding txn_ok_def by (cases "active u") simp_all
  qed
  moreover have "agrees m' C' (W(tx := \<lambda>_. None))"
    unfolding agrees_def
  proof (intro conjI allI impI)
    fix ux k x assume x: "(W(tx := \<lambda>_. None)) ux k = Some x"
    then have w: "W ux k = Some x" "ux \<noteq> tx" by (auto split: if_splits)
    then have "W tx k = None" using apart by blast
    then show "m' k = x" using m(2) [OF m0, of k] m0(2) w(1) by (simp add: agrees_def)
  next
    fix k assume a: "\<forall>ux. (W(tx := \<lambda>_. None)) ux k = None"
    show "m' k = C' k"
    proof (cases "W tx k = None")
      case True
      then have "\<forall>ux. W ux k = None" using a by (metis fun_upd_apply)
      then show ?thesis using True m(2) [OF m0, of k] m0(2) C' by (simp add: agrees_def)
    qed (auto simp: m(2) [OF m0, of k])
  qed
  moreover have "lock_inv (lock_manager db')" unfolding n(2) by (rule ReleaseAll_inv [OF inv])
  moreover have "txn_ok (lock_manager db') C' tx t' (\<lambda>_. None)" using t(2,3) by (simp add: txn_ok_def)
  moreover have "ts ux = None \<Longrightarrow> W ux k = None" for ux k using s by (simp add: sys_ok_def)
  ultimately show ?thesis using m(1) n(1) unfolding sys_ok_def by (auto split: if_splits)
qed

lemma MaybeAutoCheckpoint_holds:
  assumes h: "holds_store (pool db) m" and c: "MaybeAutoCheckpoint db = (s, db')"
  shows "\<exists>b. db' = db\<lparr>pool := b\<rparr> \<and> holds_store b m"
proof -
  have st: "\<exists>b. db1 = db\<lparr>pool := b\<rparr> \<and> holds_store b m" if "CheckpointLocked db = (s1, db1)" for s1 db1
  proof -
    have "holds_store (pool db1) m" by (rule holds_store_same [OF h CheckpointLocked_store [OF holds_store_ok [OF h] that]])
    moreover have "db1 = db\<lparr>pool := pool db1\<rparr>" using that by (auto simp: CheckpointLocked_def Let_def split: if_splits prod.splits)
    ultimately show ?thesis by blast
  qed
  have "db = db\<lparr>pool := pool db\<rparr>" by simp
  then show ?thesis using MaybeAutoCheckpoint_cases [of db] c st h by (metis prod.inject)
qed

lemma Checkpoint_holds:
  assumes h: "holds_store (pool db) m" and c: "Checkpoint db = (s, db')"
  shows "\<exists>b. db' = db\<lparr>pool := b\<rparr> \<and> holds_store b m"
proof -
  have c: "CheckpointLocked db = (s, db')" using c by (simp add: Checkpoint_def)
  have "holds_store (pool db') m" by (rule holds_store_same [OF h CheckpointLocked_store [OF holds_store_ok [OF h] c]])
  moreover have "db' = db\<lparr>pool := pool db'\<rparr>" using c by (auto simp: CheckpointLocked_def Let_def split: if_splits prod.splits)
  ultimately show ?thesis by blast
qed

lemma wal_flush_holds: "holds_store b m \<Longrightarrow> wal_flush b = (s, b') \<Longrightarrow> holds_store b' m"
  using holds_store_same wal_flush_ok(1) holds_store_ok(1) by blast

lemma acknowledge_holds:
  assumes h: "holds_store (pool db) m" and a: "acknowledge db = (s, db')"
  shows "\<exists>b. db' = db\<lparr>pool := b\<rparr> \<and> holds_store b m"
proof -
  obtain s1 b1 where f: "(if sync_on_write (options db) then wal_flush (pool db) else (kOk, pool db)) = (s1, b1)" by fastforce
  have h1: "holds_store b1 m" using f h wal_flush_holds [OF h] by (auto split: if_splits)
  show ?thesis
  proof (cases "s1 = kOk")
    case False
    then show ?thesis using a f h1 by (auto simp: acknowledge_def Let_def)
  next
    case True
    then have "MaybeAutoCheckpoint (db\<lparr>pool := b1\<rparr>) = (s, db')" using a f by (auto simp: acknowledge_def Let_def)
    then show ?thesis using MaybeAutoCheckpoint_holds [of "db\<lparr>pool := b1\<rparr>" m s db'] h1 by auto
  qed
qed

lemmas commit_defs = commit_trace_def commit_calls_def log_commit_def flush_commit_def end_commit_def release_locks_def checkpoint_after_commit_def

text \<open>The two ways a commit ends, apart from the refusal for a transaction that is not active.\<close>

lemma Commit_cases:
  assumes h: "holds_store (pool db) m" and a: "active t" and c: "Commit t db = (s, t', db')" and n: "\<not> needs_reopen db'"
  shows "t' = t\<lparr>active := False\<rparr> \<and> lock_manager db' = ReleaseAll (lock_manager db) (txn_id t) \<and> holds_store (pool db') m"
proof -
  have fin: "lock_manager db' = ReleaseAll (lock_manager db) (txn_id t) \<and> holds_store (pool db') m"
    if "MaybeAutoCheckpoint (db\<lparr>pool := b, active_begun_txns := x, lock_manager := ReleaseAll (lock_manager db) (txn_id t)\<rparr>) = (s, db')" "holds_store b m" for b x
    using MaybeAutoCheckpoint_holds [OF _ that(1), of m] that(2) by auto
  show ?thesis
  proof (cases "begun t")
    case False
    show ?thesis using c a False h fin [of "active_begun_txns db" "pool db"] by (auto simp: Commit_def commit_defs split: prod.splits)
  next
    case True
    obtain s1 db1 where l: "LogTxnMarker (txn_id t) kCommit db = (s1, db1)" by fastforce
    note L = LogTxnMarker_ok [OF h l]
    obtain b1 where b1: "db1 = db\<lparr>pool := b1\<rparr>" "holds_store b1 m" using L(2) holds_store_same [OF h] by blast
    obtain s2 b2 where f: "(if s1 = kOk \<and> sync_on_write (options db) then wal_flush b1 else (s1, b1)) = (s2, b2)" by fastforce
    have h2: "holds_store b2 m" using f b1(2) wal_flush_holds [OF b1(2)] by (auto split: if_splits)
    let ?t = "t\<lparr>active := False\<rparr>"
    let ?db = "db\<lparr>pool := b2, active_begun_txns := active_begun_txns db - 1, lock_manager := ReleaseAll (lock_manager db) (txn_id t)\<rparr>"
    have C: "Commit t db = (if s2 \<noteq> kOk then (s2, Poison ?t (db\<lparr>pool := b2\<rparr>)) else case MaybeAutoCheckpoint ?db of (s, db) \<Rightarrow> (s, ?t, db))"
      using a True l b1(1) f by (auto simp: Commit_def commit_defs Let_def split: prod.splits if_splits)
    have "s2 = kOk" using C c n by (auto simp: Poison_def split: if_splits)
    then show ?thesis using C c fin [OF _ h2, of "active_begun_txns db - 1"] by (auto split: prod.splits)
  qed
qed

lemma Commit_ok:
  assumes s: "sys_ok db ts C W" and t: "ts tx = Some t" "active t" and c: "Commit t db = (st, t', db')" and n: "\<not> needs_reopen db'"
  shows "sys_ok db' (ts(tx \<mapsto> t')) (seen C (W tx)) (W(tx := \<lambda>_. None))"
proof -
  have id: "txn_id t = tx" using sys_okD(4) [OF s t(1)] by (simp add: txn_ok_def)
  obtain m where m: "holds_store (pool db) m" "agrees m C W" using sys_okD(3) [OF s] by blast
  note e = Commit_cases [OF _ t(2) c n]
  show ?thesis
  proof (rule sys_ok_end [OF s t(1) _ _ n])
    show "txn_id t' = tx" "\<not> active t'" "lock_manager db' = ReleaseAll (lock_manager db) tx" "holds_store (pool db') m" using e [OF m(1)] id by auto
    show "seen C (W tx) k = C k" if "W tx k = None" for k using that by (simp add: seen_def)
    fix m1 k assume m1: "holds_store (pool db) m1" "agrees m1 C W"
    have "m = m1" by (rule agrees_unique [OF m(2) m1(2)])
    then show "m k = (if W tx k = None then m1 k else seen C (W tx) k)" using m(2) by (auto simp: agrees_def seen_def split: option.split)
  qed
qed

lemma Abort_ok:
  assumes s: "sys_ok db ts C W" and t: "ts tx = Some t" "active t" and r: "undo_roomy tx (rev (undo t)) (pool db)"
    and c: "Abort t db = Some (st, t', db')" and n: "\<not> needs_reopen db'"
  shows "sys_ok db' (ts(tx \<mapsto> t')) C (W(tx := \<lambda>_. None))"
proof -
  have ok: "txn_ok (lock_manager db) C tx t (W tx)" by (rule sys_okD(4) [OF s t(1)])
  then have id: "txn_id t = tx" by (simp add: txn_ok_def)
  obtain m where m: "holds_store (pool db) m" "agrees m C W" using sys_okD(3) [OF s] by blast
  have res: "restore (rev (undo t)) m k = (if W tx k = None then m k else C k)" for k
    unfolding restore_rev using txn_okD(1,2) [OF ok t(2), of k] by (auto split: option.split)
  have e: "t' = t\<lparr>active := False\<rparr> \<and> lock_manager db' = ReleaseAll (lock_manager db) tx \<and> holds_store (pool db') (restore (rev (undo t)) m)"
  proof (cases "begun t")
    case False
    then have "undo t = []" using txn_okD(4) [OF ok t(2)] by blast
    then show ?thesis using c t(2) False m(1) id by (auto simp: Abort_def Let_def)
  next
    case True
    obtain s1 b where u: "undo_loop tx (rev (undo t)) (pool db) = Some (s1, b)" using c t(2) True id by (auto simp: Abort_def Let_def)
    obtain s2 db2 where l: "LogTxnMarker tx kAbort (db\<lparr>pool := b\<rparr>) = (s2, db2)" by fastforce
    let ?t = "t\<lparr>active := False\<rparr>"
    have A: "(st, t', db') = (if s1 \<noteq> kOk then (s1, Poison ?t (db\<lparr>pool := b\<rparr>)) else if s2 \<noteq> kOk then (s2, Poison ?t db2)
        else (kOk, ?t, db2\<lparr>active_begun_txns := active_begun_txns db2 - 1, lock_manager := ReleaseAll (lock_manager db2) tx\<rparr>))"
      using c t(2) True id u l by (cases "s1 = kOk") (auto simp: Abort_def Let_def split: if_splits)
    then have k: "s1 = kOk" using n by (auto simp: Poison_def split: if_splits)
    have h: "holds_store b (restore (rev (undo t)) m)"
      by (rule undo_loop_ok [OF m(1) r _ u [unfolded k]]) (use txn_okD(3) [OF ok t(2)] in auto)
    then have L: "s2 = kOk" "\<exists>b2. db2 = db\<lparr>pool := b2\<rparr> \<and> same_store b b2"
      using LogTxnMarker_ok [OF _ l, of "restore (rev (undo t)) m"] by auto
    obtain b2 where "db2 = db\<lparr>pool := b2\<rparr>" "holds_store b2 (restore (rev (undo t)) m)" using L(2) holds_store_same [OF h] by blast
    then show ?thesis using A k L(1) by simp
  qed
  show ?thesis
  proof (rule sys_ok_end [OF s t(1) _ _ n])
    show "txn_id t' = tx" "\<not> active t'" "lock_manager db' = ReleaseAll (lock_manager db) tx"
      "holds_store (pool db') (restore (rev (undo t)) m)" using e id by auto
    fix m1 k assume "holds_store (pool db) m1" "agrees m1 C W"
    then have "m = m1" using agrees_unique m(2) by blast
    then show "restore (rev (undo t)) m k = (if W tx k = None then m1 k else C k)" using res by simp
  qed simp
qed

text \<open>Autocommit writes, on keys that no open transaction has written.\<close>

lemma sys_ok_autocommit:
  assumes s: "sys_ok db ts C W" and w: "\<And>tx. W tx k = None" and n: "\<not> needs_reopen db'" "lock_manager db' = lock_manager db"
    and p: "\<And>m. holds_store (pool db) m \<Longrightarrow> agrees m C W \<Longrightarrow> holds_store (pool db') (m(k := v))"
  shows "sys_ok db' ts (C(k := v)) W"
proof -
  obtain m where m: "holds_store (pool db) m" "agrees m C W" using sys_okD(3) [OF s] by blast
  have "agrees (m(k := v)) (C(k := v)) W" using m(2) w by (auto simp: agrees_def)
  moreover have "txn_ok (lock_manager db) (C(k := v)) tx t (W tx)" if "txn_ok (lock_manager db) C tx t (W tx)" for tx t
  proof -
    have "W tx j \<noteq> None \<Longrightarrow> (C(k := v)) j = C j" for j using w [of tx] by auto
    then show ?thesis using that unfolding txn_ok_def by (cases "active t") (simp_all del: not_None_eq)
  qed
  ultimately show ?thesis using s n p [OF m] unfolding sys_ok_def by metis
qed

lemma auto_put_ok:
  assumes s: "sys_ok db ts C W" and w: "\<And>tx. W tx k = None" and r: "roomy (pool db)" and p: "Db_Put k v db = Some (st, db')" and n: "\<not> needs_reopen db'"
  shows "sys_ok db' ts (if 4048 < 4 + length k + length v then C else C(k \<mapsto> v)) W"
proof -
  let ?tx = "next_id (txn_manager db)" let ?db = "\<lambda>b. db\<lparr>txn_manager := (txn_manager db)\<lparr>next_id := ?tx + 1\<rparr>, pool := b\<rparr>"
  have h: "\<not> needs_reopen db" by (rule sys_okD(1) [OF s])
  obtain m where m: "holds_store (pool db) m" "agrees m C W" using sys_okD(3) [OF s] by blast
  obtain s1 bef b where q: "Put k v ?tx False (pool db) = Some (s1, bef, b)" using p h by (auto simp: Db_Put_def Txn_Begin_def Let_def)
  note P = Put_holds [OF m(1) r q]
  have res: "(st, db') = (if s1 \<noteq> kOk then (s1, if s1 \<noteq> kInvalidArgument then (?db b)\<lparr>needs_reopen := True\<rparr> else ?db b) else acknowledge (?db b))"
    using p h q by (auto simp: Db_Put_def Txn_Begin_def Let_def split: if_splits)
  show ?thesis
  proof (cases "s1 = kOk")
    case False
    then have "s1 = kInvalidArgument" using res n by (auto split: if_splits)
    then show ?thesis using res P(2,3) s m(1) by (auto simp: sys_ok_def)
  next
    case True
    then obtain b' where b': "db' = ?db b'" "holds_store b' (m(k \<mapsto> v))" using acknowledge_holds [of "?db b" "m(k \<mapsto> v)" st db'] res P(1) by auto
    have "sys_ok db' ts (C(k \<mapsto> v)) W"
      by (rule sys_ok_autocommit [OF s w n]) (use b' m(2) agrees_unique in auto)
    then show ?thesis using P(2) True by simp
  qed
qed

lemma auto_delete_ok:
  assumes s: "sys_ok db ts C W" and w: "\<And>tx. W tx k = None" and k: "length k < 65000" and p: "Db_Delete k db = Some (st, db')" and n: "\<not> needs_reopen db'"
  shows "sys_ok db' ts (C(k := None)) W"
proof -
  let ?tx = "next_id (txn_manager db)" let ?db = "\<lambda>b. db\<lparr>txn_manager := (txn_manager db)\<lparr>next_id := ?tx + 1\<rparr>, pool := b\<rparr>"
  have h: "\<not> needs_reopen db" by (rule sys_okD(1) [OF s])
  obtain m where m: "holds_store (pool db) m" "agrees m C W" using sys_okD(3) [OF s] by blast
  obtain s1 bef b where q: "Delete k ?tx False (pool db) = Some (s1, bef, b)" using p h by (auto simp: Db_Delete_def Txn_Begin_def Let_def)
  note P = Delete_holds [OF m(1) k q]
  have res: "(st, db') = (if s1 \<noteq> kOk then (s1, if s1 \<noteq> kNotFound then (?db b)\<lparr>needs_reopen := True\<rparr> else ?db b) else acknowledge (?db b))"
    using p h q by (auto simp: Db_Delete_def Txn_Begin_def Let_def split: if_splits)
  have "\<exists>b'. db' = ?db b' \<and> holds_store b' (m(k := None))"
  proof (cases "s1 = kOk")
    case False
    then have nf: "s1 = kNotFound" using res n by (auto split: if_splits)
    then have "m(k := None) = m" using P(3) by (metis fun_upd_idem)
    then show ?thesis using res P(2) [OF False] False nf by auto
  next
    case True
    then show ?thesis using acknowledge_holds [of "?db b" "m(k := None)" st db'] res P(1) by auto
  qed
  then obtain b' where b': "db' = ?db b'" "holds_store b' (m(k := None))" by blast
  show ?thesis by (rule sys_ok_autocommit [OF s w n]) (use b' m(2) agrees_unique in auto)
qed

lemma begin_ok:
  assumes s: "sys_ok db ts C W" and b: "Db_Begin retry_of db = (Inr t, db')" and f: "ts (txn_id t) = None"
  shows "sys_ok db' (ts(txn_id t \<mapsto> t)) C W"
proof -
  have d: "active t" "undo t = []" "\<forall>k. W (txn_id t) k = None"
    using b f s by (auto simp: Db_Begin_def Txn_Begin_def TxnImpl_init_def sys_ok_def split: if_splits)
  then have "txn_ok (lock_manager db) C (txn_id t) t (W (txn_id t))" by (simp add: txn_ok_def)
  moreover have "needs_reopen db' = needs_reopen db" "lock_manager db' = lock_manager db" "pool db' = pool db"
    using b by (auto simp: Db_Begin_def Txn_Begin_def split: if_splits)
  ultimately show ?thesis using s d(3) by (auto simp: sys_ok_def)
qed

lemma page_kind:
  shows "leaf_rep p es \<Longrightarrow> \<not> int_page p xs r" and "leaf_rep p es \<Longrightarrow> leaf_rep p es' \<Longrightarrow> es = es'"
    and "int_page p xs r \<Longrightarrow> int_page p xs' r' \<Longrightarrow> xs = xs' \<and> r = r'"
proof -
  show "leaf_rep p es \<Longrightarrow> \<not> int_page p xs r"
    by (auto simp: leaf_rep_def int_rep_def int_page_def IsLeaf_def IsInternal_def kLeaf_def kInternalNode_def)
  show "leaf_rep p es \<Longrightarrow> leaf_rep p es' \<Longrightarrow> es = es'" using leaf_rep_entries(2) by metis
  show "int_page p xs r \<Longrightarrow> int_page p xs' r' \<Longrightarrow> xs = xs' \<and> r = r'" using int_rep_entries(2) unfolding int_page_def by metis
qed

lemma rep_unique: "rep v t \<Longrightarrow> rep v t' \<Longrightarrow> troot t = troot t' \<Longrightarrow> t = t'"
proof (induction t arbitrary: t')
  case (Lf p es)
  then show ?case using page_kind(1,2) by (cases t') auto
next
  case (Nd p ts t)
  then obtain ts' u where t': "t' = Nd p ts' u" using page_kind(1) by (cases t') auto
  have "int_page (v p) (roots ts) (troot t)" "int_page (v p) (roots ts') (troot u)" using Nd.prems t' by auto
  then have r: "roots ts = roots ts'" "troot t = troot u" using page_kind(3) by blast+
  have "t = u" by (rule Nd.IH(2)) (use Nd.prems t' r in auto)
  moreover have "ts = ts'"
  proof (rule nth_equalityI)
    show l: "length ts = length ts'" using arg_cong [OF r(1), of length] by simp
    fix i assume i: "i < length ts"
    obtain a c a' c' where c: "ts ! i = (a, c)" "ts' ! i = (a', c')" by fastforce
    have m: "(a, c) \<in> set ts" "(a', c') \<in> set ts'" using c i l by (metis nth_mem)+
    have e: "a = a'" "troot c = troot c'" using arg_cong [OF r(1), of "\<lambda>x. x ! i"] c i l by auto
    have "c = c'" by (rule Nd.IH(1) [OF m(1)]) (use Nd.prems t' m e in auto)
    then show "ts ! i = ts' ! i" using c e by simp
  qed
  ultimately show ?case using t' by simp
qed

lemma tree_unique: "tree_ok b t \<Longrightarrow> tree_ok b t' \<Longrightarrow> t = t'"
  by (rule rep_unique) (auto simp: tree_ok_def)

lemma tree_not_empty: "tree_ok b t \<Longrightarrow> \<not> IsEmpty b"
  using rep_root by (auto simp: tree_ok_def IsEmpty_def)

lemma stored_functional:
  assumes "stored b es" and "stored b es'"
  shows "es = es'"
  using assms(1)
proof (cases rule: stored_cases)
  case 1
  then show ?thesis using assms(2) tree_not_empty by (auto simp: stored_def)
next
  case (2 t)
  then show ?thesis using assms(2) tree_unique tree_not_empty unfolding stored_def by metis
qed

lemma runs_ok: "runs db ts C W \<Longrightarrow> sys_ok db ts C W"
proof (induction rule: runs.induct)
  case (fresh db es)
  have "lock_inv LockManager_init" by (simp add: lock_inv_def LockManager_init_def Locks.holds_def)
  then show ?case using fresh by (auto simp: sys_ok_def holds_store_def agrees_def)
next
  case (checkpoint db ts C W s db')
  obtain m where m: "holds_store (pool db) m" "agrees m C W" using sys_okD(3) [OF checkpoint.IH] by blast
  then obtain b where "db' = db\<lparr>pool := b\<rparr>" "holds_store b m" using Checkpoint_holds checkpoint.hyps(2) by blast
  then show ?case using checkpoint.IH m(2) by (auto simp: sys_ok_def)
next
  case (get db ts C W tx t timeout k r t' db')
  show ?case by (rule Txn_Get_ok(1) [OF get.IH get.hyps(2,3)])
next
  case (put db ts C W tx t timeout k v s t' db')
  show ?case by (rule Txn_Put_ok [OF put.IH put.hyps(2-5)])
next
  case (delete db ts C W tx t k timeout s t' db')
  show ?case by (rule Txn_Delete_ok [OF delete.IH delete.hyps(2-5)])
next
  case (commit db ts C W tx t s t' db')
  show ?case by (rule Commit_ok [OF commit.IH commit.hyps(2-5)])
next
  case (abort db ts C W tx t s t' db')
  show ?case by (rule Abort_ok [OF abort.IH abort.hyps(2-6)])
next
  case (auto_put db ts C W k v s db')
  show ?case by (rule auto_put_ok [OF auto_put.IH auto_put.hyps(2-5)])
next
  case (auto_delete db ts C W k s db')
  show ?case by (rule auto_delete_ok [OF auto_delete.IH auto_delete.hyps(2-5)])
qed (rule begin_ok)

subsection \<open>Properties\<close>

text \<open>
  C3: transactions are atomic. In every state that interleaved transactions, autocommit writes and checkpoints lead to (on a handle
  that has not been poisoned), the stored entries are the committed map overlaid with the uncommitted writes of the open
  transactions, and no key has uncommitted writes of two of them. Since a commit moves exactly the transaction's writes to the committed map
  and an abort drops exactly them, this is all-or-nothing for every transaction, whatever the others do.
\<close>

theorem transactions_are_atomic:
  assumes "runs db ts C W"
  shows "\<exists>es. stored (pool db) es \<and> (\<forall>tx k x. W tx k = Some x \<longrightarrow> map_of es k = x) \<and>
    (\<forall>k. (\<forall>tx. W tx k = None) \<longrightarrow> map_of es k = C k) \<and> (\<forall>tx ux k. W tx k \<noteq> None \<longrightarrow> W ux k \<noteq> None \<longrightarrow> tx = ux)"
proof -
  note s = runs_ok [OF assms]
  obtain m where m: "holds_store (pool db) m" "agrees m C W" using sys_okD(3) [OF s] by blast
  then obtain es where es: "stored (pool db) es" "map_of es = m" by (auto simp: holds_store_def)
  have "\<forall>tx ux k. W tx k \<noteq> None \<longrightarrow> W ux k \<noteq> None \<longrightarrow> tx = ux" using sys_okD(6) [OF s] by blast
  then show ?thesis using es m(2) unfolding agrees_def by blast
qed

text \<open>
  C15: transactions are isolated. A read of an active transaction that is granted its lock returns the value of the committed map under the
  reader's own writes, never an uncommitted write of another transaction, and NotFound only when that view has no
  entry; otherwise it reports Busy (wait-die or timeout) or a storage error.
\<close>

theorem reads_are_isolated:
  assumes "runs db ts C W" and "ts tx = Some t" and "active t" and "Txn_Get timeout k t db = Some (r, t', db')"
  shows "case r of Inr v \<Rightarrow> seen C (W tx) k = Some v | Inl e \<Rightarrow> e = kNotFound \<and> seen C (W tx) k = None \<or> e = kBusy \<or> io_error e"
  by (rule Txn_Get_ok(2) [OF runs_ok [OF assms(1)] assms(2,4,3)])

text \<open>
  C14: abort is a round trip. When an active transaction aborts, either the rollback fails on the storage, which is
  reported and poisons the handle, or every key the transaction wrote has its committed value again and every other key the value it
  had before the abort, the uncommitted writes of other transactions included.
\<close>

theorem Abort_restores_committed_values:
  assumes "runs db ts C W" and "ts tx = Some t" and "active t" and "undo_roomy tx (rev (undo t)) (pool db)"
    and "Abort t db = Some (s, t', db')" and "stored (pool db) es"
  shows "needs_reopen db' \<or>
    \<not> active t' \<and> (\<exists>es'. stored (pool db') es' \<and> (\<forall>k. map_of es' k = (if W tx k = None then map_of es k else C k)))"
proof (cases "needs_reopen db'")
  case False
  note s = runs_ok [OF assms(1)]
  obtain m where m: "holds_store (pool db) m" "agrees m C W" using sys_okD(3) [OF s] by blast
  then obtain es0 where "stored (pool db) es0" "map_of es0 = m" by (auto simp: holds_store_def)
  then have es: "map_of es = m" using stored_functional assms(6) by blast
  note s' = Abort_ok [OF s assms(2-5) False]
  obtain m' where m': "holds_store (pool db') m'" "agrees m' C (W(tx := \<lambda>_. None))" using sys_okD(3) [OF s'] by blast
  have "m' k = (if W tx k = None then m k else C k)" for k
  proof (cases "\<exists>ux. ux \<noteq> tx \<and> W ux k \<noteq> None")
    case True
    then obtain ux x where x: "ux \<noteq> tx" "W ux k = Some x" by blast
    then have "W tx k = None" using sys_okD(6) [OF s, of tx k ux] by blast
    moreover have "(W(tx := \<lambda>_. None)) ux k = Some x" using x by simp
    then have "m' k = x" using m'(2) unfolding agrees_def by blast
    moreover have "m k = x" using m(2) x(2) by (simp add: agrees_def)
    ultimately show ?thesis by simp
  next
    case none: False
    then have "\<forall>ux. (W(tx := \<lambda>_. None)) ux k = None" by auto
    then have "m' k = C k" using m'(2) unfolding agrees_def by blast
    moreover have "W tx k = None \<Longrightarrow> m k = C k" using m(2) none by (metis agrees_def)
    ultimately show ?thesis by simp
  qed
  moreover have "\<not> active t'" using assms(3,5) by (auto simp: Abort_def Poison_def Let_def split: if_splits prod.splits)
  ultimately show ?thesis using m'(1) es by (auto simp: holds_store_def)
qed simp

abbreviation commit_marker :: "TxId \<Rightarrow> Lsn \<Rightarrow> LogRecord" where
  "commit_marker tx l \<equiv> LogRecord_init\<lparr>rtype := kCommit, txid := tx, op_end := True, rpage := kInvalidPageId, lsn := l\<rparr>"

text \<open>The states a commit of a writing transaction goes through, and what each of them owes to the log.\<close>

lemma commit_trace_states:
  assumes st: "stored (pool db) es" and l: "log_is (pool db) rs" "length (ser rs) + 62 < 2 ^ 64"
    and t: "active t" "begun t" "sync_on_write (options db)"
  obtains l b1 s2 b2 where "log_is b1 (rs @ [commit_marker (txn_id t) l])" and "log_is b2 (rs @ [commit_marker (txn_id t) l])"
    and "s2 = kOk \<Longrightarrow> log_synced b2 (rs @ [commit_marker (txn_id t) l])" and "stored b1 es" and "stored b2 es"
    and "meta (pager b2) = meta (pager (pool db))" and "length (ser (rs @ [commit_marker (txn_id t) l])) + 31 < 2 ^ 64"
    and "commit_trace t db = (let t' = t\<lparr>active := False\<rparr>; db2 = db\<lparr>pool := b2\<rparr>; db3 = db2\<lparr>active_begun_txns := active_begun_txns db - 1\<rparr>;
            db4 = db3\<lparr>lock_manager := ReleaseAll (lock_manager db) (txn_id t)\<rparr>
         in (kOk, t', db\<lparr>pool := b1\<rparr>) # (if s2 \<noteq> kOk then [(s2, Poison t' db2)]
            else [(kOk, t', db2), (kOk, t', db3), (kOk, t', db4), (case MaybeAutoCheckpoint db4 of (s, db) \<Rightarrow> (s, t', db))]))"
proof -
  let ?c = "LogRecord_init\<lparr>rtype := kCommit, txid := txn_id t, op_end := True, rpage := kInvalidPageId\<rparr>"
  have ok: "pool_ok (pool db)" by (rule stored_inv [OF st])
  obtain s1 b1 where a: "wal_append ?c (pool db) = (s1, b1)" by fastforce
  note w = wal_append_ok [OF ok a]
  have fit: "rec_fits ?c" "SerializedSize ?c = 31" by (simp_all add: rec_fits_def LogRecord_init_def SerializedSize_def rec_consts)
  obtain ls where ls: "log_is b1 (rs @ [?c\<lparr>lsn := ls\<rparr>])" using w(4) [OF l(1) fit(1)] fit(2) l(2) by auto
  obtain s2 b2 where f: "wal_flush b1 = (s2, b2)" by fastforce
  note wf = wal_flush_ok [OF same_store_ok [OF w(2)] f]
  have sb: "stored b1 es" "stored b2 es" using same_store_stored [OF w(2) st] same_store_stored [OF wf(1)] by auto
  have m: "meta (pager b2) = meta (pager (pool db))" using w(3) wf(2) by simp
  have n: "length (ser (rs @ [?c\<lparr>lsn := ls\<rparr>])) + 31 < 2 ^ 64" using l(2) fit(2) by (simp add: ser_def length_rec_bytes SerializedSize_def)
  show thesis
    by (rule that [OF ls wf(3) [OF ls] wf(4) [OF ls] sb m n, of s2])
      (use t a w(1) f in \<open>auto simp: commit_defs LogTxnMarker_def Let_def split: prod.splits\<close>)
qed

text \<open>
  C13: a committed transaction is durable before its locks are released. Through the whole of \<^verbatim>\<open>Commit\<close>, call by call, a transaction that
  has written (with \<^verbatim>\<open>sync_on_write\<close>) keeps all its locks until the log with its commit marker is synced to the last
  byte: whenever another thread finds the locks gone, and the handle not poisoned, that log or a checkpoint taken after it is on
  disk. When Ok is returned it still is. When an error is returned, either the flush failed, the handle is poisoned and the marker is in
  the log, from which recovery decides the outcome; or the locks had been released with the commit on disk, the
  automatic checkpoint failed, and the log still has the marker unless the data and meta pages are synced. The stored entries never change.
\<close>

theorem Commit_is_durable:
  assumes "stored (pool db) es" and "log_is (pool db) rs" and "length (ser rs) + 62 < 2 ^ 64" and "length (mreserved (meta (pager (pool db)))) = 4048"
    and "active t" and "begun t" and "sync_on_write (options db)" and "Commit t db = (s, t', db')"
  shows "\<exists>l. let log = rs @ [commit_marker (txn_id t) l]; released = ReleaseAll (lock_manager db) (txn_id t) in
    (\<forall>(s1, t1, db1) \<in> set (commit_trace t db). \<not> active t1 \<and> stored (pool db1) es \<and>
       (s1 = kOk \<longrightarrow> lock_manager db1 = lock_manager db \<or> durable (pool db1) log)) \<and>
    (s, t', db') = last (commit_trace t db) \<and> lock_manager db' = released \<and>
    (s = kOk \<longrightarrow> durable (pool db') log \<and> needs_reopen db' = needs_reopen db) \<and>
    (s \<noteq> kOk \<longrightarrow> needs_reopen db' \<and> log_is (pool db') log \<or>
       (\<exists>(s1, t1, db1) \<in> set (commit_trace t db). s1 = kOk \<and> lock_manager db1 = released \<and> log_synced (pool db1) log) \<and>
       ((\<exists>ms. log_is (pool db') (log @ ms)) \<or> data_synced (pool db') \<and> meta_synced (pool db')))"
proof -
  let ?R = "ReleaseAll (lock_manager db) (txn_id t)"
  obtain l b1 s2 b2 where
    b: "log_is b1 (rs @ [commit_marker (txn_id t) l])" "log_is b2 (rs @ [commit_marker (txn_id t) l])"
      "s2 = kOk \<Longrightarrow> log_synced b2 (rs @ [commit_marker (txn_id t) l])" "stored b1 es" "stored b2 es"
      "meta (pager b2) = meta (pager (pool db))" "length (ser (rs @ [commit_marker (txn_id t) l])) + 31 < 2 ^ 64"
    and T: "commit_trace t db = (let t' = t\<lparr>active := False\<rparr>; db2 = db\<lparr>pool := b2\<rparr>; db3 = db2\<lparr>active_begun_txns := active_begun_txns db - 1\<rparr>;
            db4 = db3\<lparr>lock_manager := ReleaseAll (lock_manager db) (txn_id t)\<rparr>
         in (kOk, t', db\<lparr>pool := b1\<rparr>) # (if s2 \<noteq> kOk then [(s2, Poison t' db2)]
            else [(kOk, t', db2), (kOk, t', db3), (kOk, t', db4), (case MaybeAutoCheckpoint db4 of (s, db) \<Rightarrow> (s, t', db))]))"
    using commit_trace_states [OF assms(1-3,5-7)] by metis
  show ?thesis
  proof (cases "s2 = kOk")
    case False
    then show ?thesis using T b assms(8) by (auto simp: Commit_def Let_def Poison_def intro!: exI [of _ l])
  next
    case True
    let ?db = "db\<lparr>pool := b2, active_begun_txns := active_begun_txns db - 1, lock_manager := ?R\<rparr>"
    have m: "MaybeAutoCheckpoint ?db = (s, db')" "t' = t\<lparr>active := False\<rparr>"
      using T assms(8) True by (auto simp: Commit_def Let_def split: prod.splits)
    have st: "stored (pool ?db) es" "length (mreserved (meta (pager (pool ?db)))) = 4048" using b(5,6) assms(4) by simp_all
    note M = MaybeAutoCheckpoint_ok [OF st m(1)]
    have d: "log_synced b2 (rs @ [commit_marker (txn_id t) l])" by (rule b(3) [OF True])
    have "s = kOk \<Longrightarrow> durable (pool db') (rs @ [commit_marker (txn_id t) l])" using M(4) [of "rs @ [commit_marker (txn_id t) l]"] d b(7) by simp
    moreover have "holds_store (pool ?db) (map_of es)" using st by (auto simp: holds_store_def)
    from MaybeAutoCheckpoint_holds [OF this m(1)] have "lock_manager db' = ?R" by auto
    moreover have "(\<exists>ms. log_is (pool db') ((rs @ [commit_marker (txn_id t) l]) @ ms)) \<or> data_synced (pool db') \<and> meta_synced (pool db')"
      using MaybeAutoCheckpoint_cases [of ?db] m(1) b(2) CheckpointLocked_ok(2) [OF stored_inv [OF st(1)] _ b(7) st(2), of s db']
      by (auto intro: exI [of _ "[]"])
    ultimately show ?thesis using T True m M(1,2) b d by (auto simp: Let_def durable_def intro!: exI [of _ l])
  qed
qed

subsection \<open>Witnesses\<close>

text \<open>
  A transaction that holds the lock of one key commits on a new file, once with an operating system that does what it is
  asked and once with one that refuses the write of the log.
\<close>

abbreviation locking_db :: "Io \<Rightarrow> DbImpl" where
  "locking_db i \<equiv> new_db\<lparr>pool := BufferPool_init pager3 (Some empty_log) i 16, lock_manager := grant LockManager_init 1 1 [107] kExclusive\<rparr>"

lemma locking_db_ok: "stored (pool (locking_db i)) []" "log_is (pool (locking_db i)) []" "length (mreserved (meta (pager (pool (locking_db i))))) = 4048"
proof -
  let ?b = "BufferPool_init pager3 (Some empty_log) i 16"
  have m: "meta (pager ?b) = Meta_Init\<lparr>num_pages := 3\<rparr>" by (simp add: BufferPool_init_def Let_def)
  have "free_pages ?b []" by (rule BufferPool_init_ok(3) [OF small_pager]) (simp add: Meta_Init_def)
  then have "pool_ok ?b" using BufferPool_init_ok(1) [OF small_pager] by (auto simp: pool_ok_def)
  then show "stored (pool (locking_db i)) []" using m by (simp add: stored_def IsEmpty_def Meta_Init_def)
  show "length (mreserved (meta (pager (pool (locking_db i))))) = 4048" using m by (simp add: Meta_Init_def)
  show "log_is (pool (locking_db i)) []" using empty_log_inv by (simp add: log_is_def BufferPool_init_def Let_def)
qed

theorem Commit_is_durable_witness:
  "let t = (TxnImpl_init 1 1)\<lparr>begun := True\<rparr>; db = locking_db calm in
     (\<exists>l. durable (pool (snd (snd (Commit t db)))) [commit_marker 1 l]) \<and> fst (Commit t db) = kOk \<and>
     lock_manager (snd (snd (Commit t db))) \<noteq> lock_manager db \<and>
     (let db = locking_db (calm\<lparr>sys := [Errno]\<rparr>) in
        fst (Commit t db) = kIoError \<and> (\<exists>l. log_is (pool (snd (snd (Commit t db)))) [commit_marker 1 l]))"
proof -
  let ?t = "(TxnImpl_init 1 1)\<lparr>begun := True\<rparr>" let ?e = "calm\<lparr>sys := [Errno]\<rparr>"
  have t: "active ?t" "begun ?t" "sync_on_write (options (locking_db i))" "txn_id ?t = 1" for i
    by (simp_all add: TxnImpl_init_def new_db_def DbImpl_init_def Options_init_def)
  note defs = new_db_def DbImpl_init_def BufferPool_init_def Options_init_def TxnImpl_init_def Commit_def commit_defs LogTxnMarker_def
    wal_append_def wal_flush_def Append_def BufferRecordLocked_def AppendTo_eq Flush_def FlushLocked_def Write_def Sync_def next_sys_def
    take_credit_def do_pwrite_def MaybeAutoCheckpoint_def wal_size_def SizeBytes_def SerializedSize_def LogRecord_init_def rec_consts
    rec_bytes_nonempty Let_def Poison_def
  have n: "ReleaseAll (grant LockManager_init 1 1 [107] kExclusive) 1 \<noteq> grant LockManager_init 1 1 [107] kExclusive"
    by (auto simp: grant_def ReleaseAll_def LockManager_init_def dest: fun_cong [of _ _ 1])
  have s: "fst (Commit ?t (locking_db calm)) = kOk" "fst (Commit ?t (locking_db ?e)) = kIoError"
    "\<forall>x \<in> set (commit_trace ?t (locking_db ?e)). fst x = kOk \<longrightarrow> lock_manager (snd (snd x)) \<noteq> ReleaseAll (lock_manager (locking_db ?e)) 1"
    by (simp_all add: defs n [symmetric])
  obtain t1 db1 t2 db2 where c: "Commit ?t (locking_db calm) = (kOk, t1, db1)" "Commit ?t (locking_db ?e) = (kIoError, t2, db2)"
    using s(1,2) by (metis prod.collapse)
  note T = Commit_is_durable [OF locking_db_ok(1,2) _ locking_db_ok(3) t(1-3)]
  have "\<exists>l. durable (pool db1) [commit_marker 1 l]" "lock_manager db1 \<noteq> lock_manager (locking_db calm)"
    using T [OF _ c(1)] n by (auto simp: ser_def Let_def t(4))
  moreover have "\<exists>l. log_is (pool db2) [commit_marker 1 l]" using T [OF _ c(2)] s(3) by (fastforce simp: ser_def Let_def t(4))
  ultimately show ?thesis using c by (simp add: Let_def)
qed

text \<open>A transaction that has put one record into a new file.\<close>

abbreviation one_write :: "TxId \<Rightarrow> overlay" where
  "one_write \<equiv> (\<lambda>_ _. None)(1 := [[107] \<mapsto> Some [118]])"

lemma one_write_run:
  obtains t db where "runs db [1 \<mapsto> t] Map.empty one_write" and "active t" and "undo t = [([107], None)]" and "roomy (pool db)"
proof -
  let ?k = "[107] :: key" let ?v = "[118] :: bytes" let ?db = "new_db\<lparr>pool := new_store\<rparr>"
  have sz: "4 + length ?k + length ?v \<le> 4048" by simp
  let ?db1 = "?db\<lparr>txn_manager := \<lparr>next_id = 2\<rparr>\<rparr>" let ?t = "TxnImpl_init 1 1"
  have "runs ?db Map.empty (map_of []) (\<lambda>_ _. None)"
    by (rule runs.fresh) (use new_store_ok(1) in \<open>simp_all add: new_db_def DbImpl_init_def new_store_def BufferPool_init_def Let_def Meta_Init_def\<close>)
  then have "runs ?db1 [txn_id ?t \<mapsto> ?t] (map_of []) (\<lambda>_ _. None)"
    by (rule runs.begin_txn [where retry_of = 0])
      (simp_all add: Db_Begin_def Txn_Begin_def new_db_def DbImpl_init_def TxnManager_init_def kFirstTxId_def kInvalidTxId_def)
  then have r: "runs ?db1 [1 \<mapsto> ?t] Map.empty (\<lambda>_ _. None)" by (simp add: TxnImpl_init_def)
  have w: "wal new_store = None" by (simp add: new_store_def BufferPool_init_def Let_def)
  obtain s bef b where c: "create_root_leaf ?k ?v 1 None new_store = (s, bef, b)" by (metis prod_cases3)
  have e: "pool_ok new_store" "IsEmpty new_store"
    using stored_inv [OF new_store_ok(1)] by (auto simp: IsEmpty_def new_store_def BufferPool_init_def Let_def Meta_Init_def)
  note C = create_root_leaf_ok [OF e sz new_store_ok(2) c]
  have s: "s = kOk" using C(3) new_store_NewPage by (metis Inl_Inr_False)
  have p: "Put ?k ?v 1 True new_store = Some (kOk, None, b)"
    using c s C(1) e(2) sz by (simp add: Put_def PutPessimistic_def kMaxLeafRecordBytes_def layout_defs)
  have "unat (num_pages (meta (pager b))) \<le> 4" using C(2) s by (auto simp: new_store_def BufferPool_init_def Let_def Meta_Init_def)
  then have ro: "roomy b" by (simp add: roomy_def)
  let ?t2 = "?t\<lparr>begun := True, undo := [(?k, None)]\<rparr>"
  obtain l where l: "acquire_try LockManager_init 1 1 ?k kExclusive = Granted l" by (simp add: acquire_try_def LockManager_init_def)
  let ?db2 = "?db1\<lparr>lock_manager := l, active_begun_txns := 1, pool := b\<rparr>"
  have q: "Txn_Put True ?k ?v ?t ?db1 = Some (kOk, ?t2, ?db2)"
    using l w p by (simp add: Txn_Put_def TxnImpl_init_def Acquire_def EnsureBegun_def LogTxnMarker_def wal_append_def new_db_def DbImpl_init_def Let_def)
  have n: "\<not> needs_reopen ?db2" by (simp add: new_db_def DbImpl_init_def)
  have "runs ?db2 ([1 \<mapsto> ?t](1 \<mapsto> ?t2)) Map.empty (if kOk = kOk then (\<lambda>_ _. None)(1 := (\<lambda>_. None)(?k \<mapsto> Some ?v)) else (\<lambda>_ _. None))"
    by (rule runs.put [OF r _ _ q n]) (use new_store_ok(2) in simp_all)
  then have "runs ?db2 [1 \<mapsto> ?t2] Map.empty one_write" by simp
  then show ?thesis by (rule that) (use ro in \<open>simp_all add: TxnImpl_init_def\<close>)
qed

theorem transactions_are_atomic_witness:
  "\<exists>db ts es. runs db ts Map.empty one_write \<and> stored (pool db) es \<and> map_of es [107] = Some [118]"
proof (rule one_write_run)
  fix t db assume r: "runs db [1 \<mapsto> t] Map.empty one_write"
  have "one_write 1 [107] = Some (Some [118])" by simp
  then show ?thesis using transactions_are_atomic [OF r] r by blast
qed

theorem reads_are_isolated_witness:
  "\<exists>db ts t r t' db'. runs db ts Map.empty one_write \<and> Txn_Get True [107] t db = Some (r, t', db') \<and>
     (case r of Inr v \<Rightarrow> v = [118] | Inl e \<Rightarrow> e = kBusy \<or> io_error e)"
proof (rule one_write_run)
  fix t db assume r: "runs db [1 \<mapsto> t] Map.empty one_write" and t: "active t"
  obtain es where es: "stored (pool db) es" using transactions_are_atomic [OF r] by blast
  obtain s1 db1 where a: "Acquire True t [107] kShared db = Some (s1, db1)"
    by (cases "acquire_try (lock_manager db) (txn_id t) (txn_priority t) [107] kShared") (auto simp: Acquire_def)
  have "pool db1 = pool db" using a by (auto simp: Acquire_def split: Attempt.splits)
  then obtain r' b where "Get [107] (pool db1) = Some (r', b)" using Get_stored [OF es] by metis
  then obtain x t' db' where g: "Txn_Get True [107] t db = Some (x, t', db')" using a t by (cases "s1 = kOk") (simp_all add: Txn_Get_def)
  have "case x of Inr v \<Rightarrow> seen Map.empty (one_write 1) [107] = Some v
      | Inl e \<Rightarrow> e = kNotFound \<and> seen Map.empty (one_write 1) [107] = None \<or> e = kBusy \<or> io_error e"
    by (rule reads_are_isolated [OF r _ t g]) simp
  then show ?thesis using r g by (auto simp: seen_def split: sum.splits) blast+
qed

theorem Abort_restores_committed_values_witness:
  "\<exists>db ts t s t' db'. runs db ts Map.empty one_write \<and> Abort t db = Some (s, t', db') \<and>
     (needs_reopen db' \<or> \<not> active t' \<and> (\<exists>es'. stored (pool db') es' \<and> map_of es' [107] = None))"
proof (rule one_write_run)
  fix t db assume r: "runs db [1 \<mapsto> t] Map.empty one_write" and t: "active t" "undo t = [([107], None)]" and ro: "roomy (pool db)"
  obtain es where es: "stored (pool db) es" using transactions_are_atomic [OF r] by blast
  have id: "txn_id t = 1" using sys_okD(4) [OF runs_ok [OF r], of 1 t] by (simp add: txn_ok_def)
  have u: "undo_roomy 1 (rev (undo t)) (pool db)" using t(2) ro by (auto split: option.split)
  obtain s1 b where d: "undo_loop 1 (rev (undo t)) (pool db) = Some (s1, b)"
    using t(2) Delete_stored [OF es, of "[107]" 1 False] by (fastforce simp: undo_one_def)
  have "Abort t db \<noteq> None" using t(1) id d by (simp add: Abort_def Let_def del: not_None_eq)
  then obtain s t' db' where a: "Abort t db = Some (s, t', db')" by (metis not_None_eq prod_cases3)
  have "map_of es' [107] = None" if "\<forall>k. map_of es' k = (if one_write 1 k = None then map_of es k else Map.empty k)" for es' :: "(key \<times> bytes) list"
    using that by simp
  then show ?thesis using Abort_restores_committed_values [OF r _ t(1) u a es] r a by (metis fun_upd_same)
qed

end
