(* ===== verification/Checkpoint_Gate.thy ===== *)
theory Checkpoint_Gate
  imports Main
begin

section \<open>The checkpoint gate (db.cc)\<close>

text \<open>
  \<^verbatim>\<open>AcquireWriterLatch\<close> and \<^verbatim>\<open>AcquireCheckpointLatch\<close> as a step relation over any number of threads: the atomic counter of
  pending checkpoints, the reader-writer mutex, the gate's mutex and its condition variable, with one step for each
  access to one of them. The reader-writer mutex promises no fairness and the condition variable may wake a waiter for no reason.
\<close>

subsection \<open>Threads and steps\<close>

text \<open>
  Where a thread stands: outside; before, inside and asleep in \<^verbatim>\<open>gate_cv_.wait\<close>; at and after the shared acquisition; at the
  exclusive acquisition, before and inside the block that lowers the counter, before \<^verbatim>\<open>notify_all\<close>, and after it.
\<close>

datatype Pc = Idle | Gate_Lock | Gate_Test | Asleep | Lock_Shared | Shared
  | Lock_Exclusive | Lower_Lock | Lower | Notify | Exclusive

record Latch =
  pending_ckpts :: int
  readers :: nat
  owned :: bool
  gate_locked :: bool
  threads :: "Pc list"

definition Latch_init :: "nat \<Rightarrow> Latch" where
  "Latch_init n = \<lparr>pending_ckpts = 0, readers = 0, owned = False, gate_locked = False, threads = replicate n Idle\<rparr>"

definition at_pc :: "Latch \<Rightarrow> nat \<Rightarrow> Pc \<Rightarrow> bool" where
  "at_pc s i c \<longleftrightarrow> i < length (threads s) \<and> threads s ! i = c"

definition go :: "nat \<Rightarrow> Pc \<Rightarrow> Latch \<Rightarrow> Latch" where
  "go i c s = s\<lparr>threads := (threads s)[i := c]\<rparr>"

definition wake :: "Pc \<Rightarrow> Pc" where
  "wake c = (if c = Asleep then Gate_Lock else c)"

datatype LatchEvent = Pass | Park | Gate_Acquire | Sleep | Gate_Pass | Spurious | Acquire_Shared | Release_Shared
  | Raise | Acquire_Exclusive | Lower_Acquire | Lower_Count | Notify_All | Release_Exclusive

inductive gstep :: "Latch \<Rightarrow> nat \<times> LatchEvent \<Rightarrow> Latch \<Rightarrow> bool" where
  pass: "at_pc s i Idle \<Longrightarrow> pending_ckpts s = 0 \<Longrightarrow> gstep s (i, Pass) (go i Lock_Shared s)"
| park: "at_pc s i Idle \<Longrightarrow> pending_ckpts s \<noteq> 0 \<Longrightarrow> gstep s (i, Park) (go i Gate_Lock s)"
| gate_acquire: "at_pc s i Gate_Lock \<Longrightarrow> \<not> gate_locked s \<Longrightarrow> gstep s (i, Gate_Acquire) (go i Gate_Test (s\<lparr>gate_locked := True\<rparr>))"
| sleep: "at_pc s i Gate_Test \<Longrightarrow> pending_ckpts s \<noteq> 0 \<Longrightarrow> gstep s (i, Sleep) (go i Asleep (s\<lparr>gate_locked := False\<rparr>))"
| gate_pass: "at_pc s i Gate_Test \<Longrightarrow> pending_ckpts s = 0 \<Longrightarrow> gstep s (i, Gate_Pass) (go i Lock_Shared (s\<lparr>gate_locked := False\<rparr>))"
| spurious: "at_pc s i Asleep \<Longrightarrow> gstep s (i, Spurious) (go i Gate_Lock s)"
| acquire_shared: "at_pc s i Lock_Shared \<Longrightarrow> \<not> owned s \<Longrightarrow> gstep s (i, Acquire_Shared) (go i Shared (s\<lparr>readers := readers s + 1\<rparr>))"
| release_shared: "at_pc s i Shared \<Longrightarrow> gstep s (i, Release_Shared) (go i Idle (s\<lparr>readers := readers s - 1\<rparr>))"
| raise: "at_pc s i Idle \<Longrightarrow> gstep s (i, Raise) (go i Lock_Exclusive (s\<lparr>pending_ckpts := pending_ckpts s + 1\<rparr>))"
| acquire_exclusive: "at_pc s i Lock_Exclusive \<Longrightarrow> \<not> owned s \<Longrightarrow> readers s = 0 \<Longrightarrow>
    gstep s (i, Acquire_Exclusive) (go i Lower_Lock (s\<lparr>owned := True\<rparr>))"
| lower_acquire: "at_pc s i Lower_Lock \<Longrightarrow> \<not> gate_locked s \<Longrightarrow> gstep s (i, Lower_Acquire) (go i Lower (s\<lparr>gate_locked := True\<rparr>))"
| lower_count: "at_pc s i Lower \<Longrightarrow>
    gstep s (i, Lower_Count) (go i Notify (s\<lparr>pending_ckpts := pending_ckpts s - 1, gate_locked := False\<rparr>))"
| notify_all: "at_pc s i Notify \<Longrightarrow> gstep s (i, Notify_All) (go i Exclusive (s\<lparr>threads := map wake (threads s)\<rparr>))"
| release_exclusive: "at_pc s i Exclusive \<Longrightarrow> gstep s (i, Release_Exclusive) (go i Idle (s\<lparr>owned := False\<rparr>))"

inductive_cases gstepE: "gstep s e s'"

inductive greach :: "Latch \<Rightarrow> bool" where
  init: "greach (Latch_init n)"
| step: "greach s \<Longrightarrow> gstep s e s' \<Longrightarrow> greach s'"

subsection \<open>The invariant\<close>

definition count :: "(Pc \<Rightarrow> bool) \<Rightarrow> Latch \<Rightarrow> nat" where
  "count P s = length (filter P (threads s))"

abbreviation pending_pc :: "Pc \<Rightarrow> bool" where
  "pending_pc c \<equiv> c = Lock_Exclusive \<or> c = Lower_Lock \<or> c = Lower"

abbreviation owner_pc :: "Pc \<Rightarrow> bool" where
  "owner_pc c \<equiv> c = Lower_Lock \<or> c = Lower \<or> c = Notify \<or> c = Exclusive"

abbreviation gate_pc :: "Pc \<Rightarrow> bool" where
  "gate_pc c \<equiv> c = Gate_Test \<or> c = Lower"

definition latch_inv :: "Latch \<Rightarrow> bool" where
  "latch_inv s \<longleftrightarrow> pending_ckpts s = int (count pending_pc s) \<and> readers s = count (\<lambda>c. c = Shared) s \<and>
     of_bool (owned s) = count owner_pc s \<and> of_bool (gate_locked s) = count gate_pc s \<and> (owned s \<longrightarrow> readers s = 0) \<and>
     (0 < count (\<lambda>c. c = Asleep) s \<longrightarrow> pending_ckpts s \<noteq> 0 \<or> 0 < count (\<lambda>c. c = Notify) s)"

lemma length_filter_update:
  "i < length xs \<Longrightarrow> length (filter P (xs[i := y])) + of_bool (P (xs ! i)) = length (filter P xs) + of_bool (P y)"
proof (induction xs arbitrary: i)
  case (Cons x xs)
  then show ?case by (cases i) (auto simp: of_bool_def)
qed simp

lemma go_fields [simp]:
  "pending_ckpts (go i c s) = pending_ckpts s" "readers (go i c s) = readers s" "owned (go i c s) = owned s" "gate_locked (go i c s) = gate_locked s"
  by (simp_all add: go_def)

lemma count_pos: "0 < count P s \<longleftrightarrow> (\<exists>i c. at_pc s i c \<and> P c)"
  by (force simp: count_def at_pc_def filter_empty_conv in_set_conv_nth)

text \<open>Every step moves one thread, the notification also all sleeping ones.\<close>

fun src :: "LatchEvent \<Rightarrow> Pc" where
  "src Pass = Idle" | "src Park = Idle" | "src Gate_Acquire = Gate_Lock" | "src Sleep = Gate_Test" | "src Gate_Pass = Gate_Test"
| "src Spurious = Asleep" | "src Acquire_Shared = Lock_Shared" | "src Release_Shared = Shared" | "src Raise = Idle"
| "src Acquire_Exclusive = Lock_Exclusive" | "src Lower_Acquire = Lower_Lock" | "src Lower_Count = Lower" | "src Notify_All = Notify"
| "src Release_Exclusive = Exclusive"

fun dst :: "LatchEvent \<Rightarrow> Pc" where
  "dst Pass = Lock_Shared" | "dst Park = Gate_Lock" | "dst Gate_Acquire = Gate_Test" | "dst Sleep = Asleep" | "dst Gate_Pass = Lock_Shared"
| "dst Spurious = Gate_Lock" | "dst Acquire_Shared = Shared" | "dst Release_Shared = Idle" | "dst Raise = Lock_Exclusive"
| "dst Acquire_Exclusive = Lower_Lock" | "dst Lower_Acquire = Lower" | "dst Lower_Count = Notify" | "dst Notify_All = Exclusive"
| "dst Release_Exclusive = Idle"

lemma gstep_moves:
  assumes "gstep s (i, e) s'"
  shows "at_pc s i (src e)" and "threads s' = (if e = Notify_All then map wake (threads s) else threads s)[i := dst e]"
  using assms by (cases; simp add: go_def)+

lemma gstep_count:
  assumes "gstep s e s'" and w: "(\<forall>c. P (wake c) \<longleftrightarrow> P c) \<or> snd e \<noteq> Notify_All"
  shows "count P s' + of_bool (P (src (snd e))) = count P s + of_bool (P (dst (snd e)))"
proof -
  obtain i a where e: "e = (i, a)" by fastforce
  let ?ts = "if a = Notify_All then map wake (threads s) else threads s"
  note m = gstep_moves [OF assms(1) [unfolded e]]
  have i: "i < length ?ts" "P (?ts ! i) \<longleftrightarrow> P (src a)" using m(1) w by (auto simp: at_pc_def e)
  have "length (filter P ?ts) = count P s" using w by (auto simp: count_def e filter_map comp_def)
  then show ?thesis using length_filter_update [OF i(1), of P "dst a"] m(2) i(2) by (simp add: count_def e)
qed

lemma wake_simps [simp]: "wake c = d \<longleftrightarrow> c = d \<and> d \<noteq> Asleep \<or> c = Asleep \<and> d = Gate_Lock"
  by (auto simp: wake_def)

lemma gstep_asleep: "gstep s (i, Notify_All) s' \<Longrightarrow> count (\<lambda>c. c = Asleep) s' = 0"
  using gstep_moves(2) [of s i Notify_All s'] set_update_subset_insert [of "map wake (threads s)" i Exclusive]
  by (auto simp: count_def filter_empty_conv wake_def split: if_splits)

lemma latch_inv_init: "latch_inv (Latch_init n)"
  by (simp add: latch_inv_def Latch_init_def count_def)

lemma gstep_inv:
  assumes "gstep s e s'" and "latch_inv s"
  shows "latch_inv s'"
proof -
  note c = gstep_count [OF assms(1)] and inv = assms(2) [unfolded latch_inv_def]
  have "pending_ckpts s' = int (count pending_pc s')" using assms(1) by (cases; use c [of pending_pc] inv in simp)
  moreover have "readers s' = count (\<lambda>c. c = Shared) s'" using assms(1) by (cases; use c [of "\<lambda>c. c = Shared"] inv in simp)
  moreover have "of_bool (owned s') = count owner_pc s'" using assms(1) by (cases; use c [of owner_pc] inv in \<open>cases "owned s"; simp\<close>)
  moreover have "of_bool (gate_locked s') = count gate_pc s'" using assms(1) by (cases; use c [of gate_pc] inv in \<open>cases "gate_locked s"; simp\<close>)
  moreover have "owned s' \<longrightarrow> readers s' = 0" using assms(1) by (cases; use inv in auto)
  moreover have "0 < count (\<lambda>c. c = Asleep) s' \<longrightarrow> pending_ckpts s' \<noteq> 0 \<or> 0 < count (\<lambda>c. c = Notify) s'"
  proof (cases "snd e = Notify_All")
    case True
    then show ?thesis using gstep_asleep [of s "fst e" s'] assms(1) by (metis less_nat_zero_code prod.collapse)
  next
    case False
    have a: "0 < count (\<lambda>c. c = Asleep) s \<longrightarrow> pending_ckpts s \<noteq> 0 \<or> 0 < count (\<lambda>c. c = Notify) s" using inv by (elim conjE)
    have b: "count (\<lambda>c. c = Asleep) s' + of_bool (src (snd e) = Asleep) = count (\<lambda>c. c = Asleep) s + of_bool (dst (snd e) = Asleep)"
      using c [of "\<lambda>c. c = Asleep"] False by simp
    have "0 < pending_ckpts s + 1" using inv by simp
    with assms(1) show ?thesis by (cases; use a b c [of "\<lambda>c. c = Notify"] False in auto)
  qed
  ultimately show ?thesis by (simp only: latch_inv_def)
qed

lemma greach_inv: "greach s \<Longrightarrow> latch_inv s"
  by (induction rule: greach.induct) (simp_all add: latch_inv_init gstep_inv)




text \<open>One writer past the gate, one checkpoint announced; then the latch taken and the writer asleep.\<close>

lemma greach_pending: "greach \<lparr>pending_ckpts = 1, readers = 0, owned = False, gate_locked = False, threads = [Lock_Exclusive, Lock_Shared]\<rparr>"
  using greach.step [OF greach.step [OF greach.init [of 2] gstep.pass [of _ 1]] gstep.raise [of _ 0]]
  by (simp add: at_pc_def go_def Latch_init_def numeral_2_eq_2)



subsection \<open>A pending checkpoint is not starved\<close>

text \<open>Runs during which a checkpoint is pending before every step.\<close>

inductive held_up :: "Latch \<Rightarrow> (nat \<times> LatchEvent) list \<Rightarrow> Latch \<Rightarrow> bool" where
  Nil: "held_up s [] s"
| Cons: "pending_ckpts s \<noteq> 0 \<Longrightarrow> gstep s e s' \<Longrightarrow> held_up s' es s'' \<Longrightarrow> held_up s (e # es) s''"

lemma held_up_reach: "held_up s es s' \<Longrightarrow> greach s \<Longrightarrow> greach s'"
  by (induction rule: held_up.induct) (auto intro: greach.step)

abbreviation entering :: "Latch \<Rightarrow> nat" where
  "entering s \<equiv> count (\<lambda>c. c = Lock_Shared) s"

lemma gstep_entering:
  assumes "gstep s e s'" and "pending_ckpts s \<noteq> 0"
  shows "entering s' + of_bool (snd e = Acquire_Shared) \<le> entering s"
  using assms(1) by (cases; use gstep_count [OF assms(1), of "\<lambda>c. c = Lock_Shared"] assms(2) in simp)

lemma held_up_entering: "held_up s es s' \<Longrightarrow> length (filter (\<lambda>e. snd e = Acquire_Shared) es) + entering s' \<le> entering s"
proof (induction rule: held_up.induct)
  case (Cons s e s' es s'')
  then show ?case using gstep_entering [OF Cons(2,1)] by (cases "snd e = Acquire_Shared") auto
qed simp

text \<open>The work left before the gate opens.\<close>

fun weight :: "nat \<Rightarrow> Pc \<Rightarrow> nat" where
  "weight n Asleep = 0"
| "weight n Gate_Test = 1"
| "weight n Gate_Lock = 2"
| "weight n Idle = 3"
| "weight n Shared = 4"
| "weight n Exclusive = 4"
| "weight n Lock_Shared = 5"
| "weight n Notify = 2 * n + 5"
| "weight n Lower = 2 * n + 6"
| "weight n Lower_Lock = 2 * n + 7"
| "weight n Lock_Exclusive = 2 * n + 8"

definition work :: "Latch \<Rightarrow> nat" where
  "work s = sum_list (map (weight (length (threads s))) (threads s))"

lemma sum_list_update:
  "i < length xs \<Longrightarrow> sum_list (map f (xs[i := y])) + f (xs ! i) = sum_list (map f xs) + (f y :: nat)"
proof (induction xs arbitrary: i)
  case (Cons x xs)
  then show ?case by (cases i) auto
qed simp

lemma gstep_work:
  assumes "gstep s e s'" and "pending_ckpts s \<noteq> 0" and "snd e \<noteq> Spurious" and "snd e \<noteq> Raise"
  shows "work s' < work s"
proof -
  obtain i a where e: "e = (i, a)" by fastforce
  let ?n = "length (threads s)"
  define ts where "ts = (if a = Notify_All then map wake (threads s) else threads s)"
  note m = gstep_moves [OF assms(1) [unfolded e], folded ts_def]
  have i: "i < length ts" "ts ! i = src a" "length ts = ?n" using m(1) by (auto simp: at_pc_def wake_def ts_def)
  have "sum_list (map (weight n) (map wake xs)) \<le> sum_list (map (weight n) xs) + 2 * length xs" for n xs by (induction xs) (auto simp: wake_def)
  then have "sum_list (map (weight ?n) ts) \<le> work s + (if a = Notify_All then 2 * ?n else 0)" by (simp add: work_def ts_def)
  moreover have "work s' + weight ?n (src a) = sum_list (map (weight ?n) ts) + weight ?n (dst a)"
    using sum_list_update [OF i(1), of "weight ?n" "dst a"] by (simp add: work_def m(2) i(2,3))
  moreover have "weight ?n (dst a) + (if a = Notify_All then 2 * ?n else 0) < weight ?n (src a)"
    using assms by (cases; auto simp: e)
  ultimately show ?thesis by linarith
qed

lemma work_bound: "work s \<le> length (threads s) * (2 * length (threads s) + 8)"
proof -
  have "weight n c \<le> 2 * n + 8" for n c by (cases c) auto
  then have "sum_list (map (weight n) xs) \<le> length xs * (2 * n + 8)" for n xs by (induction xs) (auto intro: add_mono)
  then show ?thesis by (simp add: work_def)
qed

lemma held_up_work:
  "held_up s es s' \<Longrightarrow> \<forall>e \<in> set es. snd e \<noteq> Spurious \<and> snd e \<noteq> Raise \<Longrightarrow> length es + work s' \<le> work s"
proof (induction rule: held_up.induct)
  case (Cons s e s' es s'')
  then show ?case using gstep_work [OF Cons(2,1)] by simp
qed simp

text \<open>Some thread inside the protocol can move while a checkpoint is pending.\<close>

lemma gate_progress:
  assumes inv: "latch_inv s" and pos: "pending_ckpts s \<noteq> 0"
  shows "\<exists>i e s'. gstep s (i, e) s' \<and> e \<notin> {Pass, Park, Raise, Spurious}"
proof -
  have step: "?thesis" if "at_pc s i c" "c \<in> {Lower, Notify, Exclusive, Shared, Gate_Test}" for i c
    using that pos gstep.lower_count [of s i] gstep.notify_all [of s i] gstep.release_exclusive [of s i] gstep.release_shared [of s i] gstep.sleep [of s i]
    by blast
  have lower: ?thesis if "at_pc s i Lower_Lock" for i
  proof (cases "gate_locked s")
    case True
    then have "0 < count gate_pc s" using inv by (simp add: latch_inv_def)
    then show ?thesis using step unfolding count_pos by blast
  qed (use gstep.lower_acquire [OF that] in blast)
  have "0 < count pending_pc s" using inv pos by (simp add: latch_inv_def)
  then obtain i c where c: "at_pc s i c" "pending_pc c" unfolding count_pos by blast
  show ?thesis
  proof (cases "c = Lock_Exclusive \<and> \<not> owned s \<and> readers s = 0")
    case True
    then show ?thesis using gstep.acquire_exclusive [of s i] c(1) by blast
  next
    case False
    then have "c \<noteq> Lock_Exclusive \<or> 0 < count owner_pc s \<or> 0 < count (\<lambda>c. c = Shared) s" using inv by (auto simp: latch_inv_def)
    then show ?thesis using c step lower unfolding count_pos by blast
  qed
qed

text \<open>
  C23: a pending checkpoint is not starved by a stream of writers, although the reader-writer mutex is not fair. While checkpoints are
  pending the shared side is acquired at most once by each of the threads that had passed the gate already; some thread
  inside the protocol can always move, so it does not deadlock; and without further announcements and
  spurious wake-ups every schedule reaches the end of the pending phase within a number of steps quadratic in the number of
  threads.
\<close>

theorem pending_checkpoint_gets_through:
  assumes "greach s" and "held_up s es s'"
  shows "length (filter (\<lambda>e. snd e = Acquire_Shared) es) \<le> entering s \<and>
    (pending_ckpts s' \<noteq> 0 \<longrightarrow> (\<exists>i e s''. gstep s' (i, e) s'' \<and> e \<notin> {Pass, Park, Raise, Spurious})) \<and>
    ((\<forall>e \<in> set es. snd e \<noteq> Spurious \<and> snd e \<noteq> Raise) \<longrightarrow> length es \<le> length (threads s) * (2 * length (threads s) + 8))"
  using held_up_entering [OF assms(2)] gate_progress [OF greach_inv [OF held_up_reach [OF assms(2,1)]]] held_up_work [OF assms(2)] work_bound [of s]
  by fastforce

theorem pending_checkpoint_gets_through_witness:
  "let s = \<lparr>pending_ckpts = 1, readers = 0, owned = False, gate_locked = False, threads = [Lock_Exclusive, Lock_Shared]\<rparr>;
       s' = \<lparr>pending_ckpts = 1, readers = 1, owned = False, gate_locked = False, threads = [Lock_Exclusive, Shared]\<rparr>
   in held_up s [(1, Acquire_Shared)] s' \<and> (\<exists>i e s''. gstep s' (i, e) s'' \<and> e \<notin> {Pass, Park, Raise, Spurious})"
proof -
  let ?s = "\<lparr>pending_ckpts = 1, readers = 0, owned = False, gate_locked = False, threads = [Lock_Exclusive, Lock_Shared]\<rparr>"
  let ?s' = "\<lparr>pending_ckpts = 1, readers = 1, owned = False, gate_locked = False, threads = [Lock_Exclusive, Shared]\<rparr>"
  have "gstep ?s (1, Acquire_Shared) ?s'" using gstep.acquire_shared [of ?s 1] by (simp add: at_pc_def go_def)
  then have "held_up ?s [(1, Acquire_Shared)] ?s'" by (auto intro: held_up.intros)
  with pending_checkpoint_gets_through [OF greach_pending this] show ?thesis by (simp add: Let_def)
qed

end
