(* ===== verification/Inspect.thy ===== *)
theory Inspect
  imports Pager Node
begin

section \<open>The offline checker (tools/kvstore\_inspect.cc)\<close>

text \<open>
  The tool that walks a closed data file: the tree from its root, the chain of leaves, the free list. Its printed report is
  left out, its verdict, the order of its reads and its exit code are modelled. The file is arbitrary, damaged ones included; the theorems
  say that the tool ends on every file and that it accepts exactly the files whose structure is intact.
\<close>

subsection \<open>The walk over the tree\<close>

text \<open>The first argument bounds the depth of the recursion; \<open>None\<close> when it is exceeded.\<close>

fun DumpSubtree :: "nat \<Rightarrow> Pager \<Rightarrow> PageId \<Rightarrow> PageId list \<Rightarrow> PageId set \<Rightarrow> Io \<Rightarrow> (bool \<times> PageId list \<times> PageId set \<times> Io) option"
and dump_children :: "nat \<Rightarrow> Pager \<Rightarrow> PageId list \<Rightarrow> bool \<Rightarrow> PageId list \<Rightarrow> PageId set \<Rightarrow> Io \<Rightarrow> (bool \<times> PageId list \<times> PageId set \<times> Io) option" where
  "DumpSubtree 0 p pid lvs tree_pages io = None"
| "DumpSubtree (Suc n) p pid lvs tree_pages io =
     (case ReadPage p pid io of
        (Inl _, io) \<Rightarrow> Some (False, lvs, tree_pages, io)
      | (Inr page, io) \<Rightarrow>
          if pid \<in> tree_pages then Some (False, lvs, tree_pages, io)
          else if \<not> Validate page then Some (False, lvs, insert pid tree_pages, io)
          else if IsLeaf page then Some (True, lvs @ [pid], insert pid tree_pages, io)
          else dump_children n p (map (GetChild page) [0 ..< NumKeys page] @ [GetRightmostChild page]) True lvs (insert pid tree_pages) io)"
| "dump_children n p [] good lvs tree_pages io = Some (good, lvs, tree_pages, io)"
| "dump_children n p (c # cs) good lvs tree_pages io =
     Option.bind (DumpSubtree n p c lvs tree_pages io) (\<lambda>(r, lvs, tree_pages, io). dump_children n p cs (r \<and> good) lvs tree_pages io)"

subsection \<open>The free list and the leaf chain\<close>

function free_walk :: "Pager \<Rightarrow> PageId set \<Rightarrow> PageId set \<Rightarrow> PageId \<Rightarrow> Io \<Rightarrow> bool \<times> Io" where
  "free_walk p tree_pages seen current io =
     (if current = kInvalidPageId then (True, io)
      else if current \<in> seen then (False, io)
      else if current \<in> tree_pages then (False, io)
      else case ReadPage p current io of
        (Inl _, io) \<Rightarrow> (False, io)
      | (Inr page, io) \<Rightarrow>
          if ptype (hdr page) \<noteq> kFree then (False, io) else free_walk p tree_pages (insert current seen) (free_next page) io)"
  by pat_completeness auto
termination
proof (relation "measure (\<lambda>(p, t, seen, c, io). card (- seen))")
  fix p :: Pager and t seen :: "PageId set" and c :: PageId and io
  assume "c \<notin> seen"
  then have "- insert c seen \<subset> - seen" by auto
  then show "((p, t, insert c seen, n, io'), (p, t, seen, c, io)) \<in> measure (\<lambda>(p, t, seen, c, io). card (- seen))" for n io'
    by (simp add: psubset_card_mono)
qed simp

definition CheckFreeList :: "Pager \<Rightarrow> PageId set \<Rightarrow> Io \<Rightarrow> bool \<times> Io" where
  "CheckFreeList p tree_pages io = free_walk p tree_pages {} (free_list_head (meta p)) io"

function chain_walk :: "Pager \<Rightarrow> nat \<Rightarrow> PageId \<Rightarrow> PageId list \<Rightarrow> PageId \<Rightarrow> Io \<Rightarrow> PageId list option \<times> Io" where
  "chain_walk p limit prev_expected forward current io =
     (if current = kInvalidPageId then (Some forward, io)
      else case ReadPage p current io of
        (Inl _, io) \<Rightarrow> (None, io)
      | (Inr page, io) \<Rightarrow>
          if GetPrevLeaf page \<noteq> prev_expected then (None, io)
          else if limit + 1 < length forward + 1 then (None, io)
          else chain_walk p limit current (forward @ [current]) (GetNextLeaf page) io)"
  by pat_completeness auto
termination by (relation "measure (\<lambda>(p, limit, prev, forward, c, io). limit + 2 - length forward)") auto

definition CheckLeafChain :: "Pager \<Rightarrow> PageId list \<Rightarrow> Io \<Rightarrow> bool \<times> Io" where
  "CheckLeafChain p tree_leaves io =
     (if tree_leaves = [] then (True, io)
      else case chain_walk p (length tree_leaves) kInvalidPageId [] (hd tree_leaves) io of
        (None, io) \<Rightarrow> (False, io)
      | (Some forward, io) \<Rightarrow> (forward = tree_leaves, io))"

declare free_walk.simps [simp del] chain_walk.simps [simp del]

subsection \<open>The program\<close>

text \<open>The checks on an open file, and \<^verbatim>\<open>main\<close>: the exit code for the number of arguments and the data file under the path.\<close>

definition inspect :: "Pager \<Rightarrow> Io \<Rightarrow> (bool \<times> Io) option" where
  "inspect p io =
     map_option (\<lambda>(ok, tree_pages, io). case CheckFreeList p tree_pages io of (free_ok, io) \<Rightarrow> (free_ok \<and> ok, io))
       (if root_page_id (meta p) = kInvalidPageId then Some (True, {}, io)
        else map_option (\<lambda>(ok, lvs, tree_pages, io). case CheckLeafChain p lvs io of (chain_ok, io) \<Rightarrow> (chain_ok \<and> ok, tree_pages, io))
          (DumpSubtree (unat (num_pages (meta p)) + 1) p (root_page_id (meta p)) [] {} io))"

definition inspect_main :: "nat \<Rightarrow> PosixFile option \<Rightarrow> Io \<Rightarrow> nat option" where
  "inspect_main argc file io =
     (if argc \<noteq> 2 then Some 2
      else case Pager_Open False True file io of
        (Inl _, _, io) \<Rightarrow> Some 1
      | (Inr p, _, io) \<Rightarrow> map_option (\<lambda>(ok, io). if ok then 0 else 1) (inspect p io))"

subsection \<open>What an intact file is\<close>

abbreviation page_at :: "Pager \<Rightarrow> PageId \<Rightarrow> Page" where
  "page_at p i \<equiv> page_of_bytes (disk p i)"

definition readable :: "Pager \<Rightarrow> PageId \<Rightarrow> bool" where
  "readable p i \<longleftrightarrow> data_page p i \<and> (verify_checksums p \<longrightarrow> trusted (page_at p i))"

text \<open>A tree of pages with the children in the order of the separators, the rightmost one last.\<close>

datatype itree = INode PageId "itree list"

fun iroot :: "itree \<Rightarrow> PageId" where
  "iroot (INode i ts) = i"

fun ipages :: "itree \<Rightarrow> PageId list" where
  "ipages (INode i ts) = i # concat (map ipages ts)"

fun ileaves :: "itree \<Rightarrow> PageId list" where
  "ileaves (INode i ts) = (if ts = [] then [i] else concat (map ileaves ts))"

definition child_ids :: "Page \<Rightarrow> PageId list" where
  "child_ids pg = (if IsLeaf pg then [] else map (GetChild pg) [0 ..< NumKeys pg] @ [GetRightmostChild pg])"

fun intact :: "Pager \<Rightarrow> itree \<Rightarrow> bool" where
  "intact p (INode i ts) \<longleftrightarrow> readable p i \<and> Validate (page_at p i) \<and> child_ids (page_at p i) = map iroot ts \<and> (\<forall>t \<in> set ts. intact p t)"

text \<open>Leaves linked in both directions, the first one after \<open>prev\<close>.\<close>

abbreviation first :: "PageId list \<Rightarrow> PageId" where
  "first ls \<equiv> (case ls of [] \<Rightarrow> kInvalidPageId | l # _ \<Rightarrow> l)"

fun chained :: "Pager \<Rightarrow> PageId \<Rightarrow> PageId list \<Rightarrow> bool" where
  "chained p prev [] \<longleftrightarrow> True"
| "chained p prev (l # ls) \<longleftrightarrow> readable p l \<and> GetPrevLeaf (page_at p l) = prev \<and> GetNextLeaf (page_at p l) = first ls \<and> chained p l ls"

definition intact_file :: "Pager \<Rightarrow> bool" where
  "intact_file p \<longleftrightarrow> (\<exists>pgs ids.
     (if root_page_id (meta p) = kInvalidPageId then pgs = []
      else \<exists>t. iroot t = root_page_id (meta p) \<and> intact p t \<and> pgs = ipages t \<and> distinct pgs \<and> chained p kInvalidPageId (ileaves t)) \<and>
     flist p (free_list_head (meta p)) ids \<and> set ids \<inter> set pgs = {})"

subsection \<open>Reads\<close>

lemma readable_valid: "readable p i \<Longrightarrow> i \<noteq> kInvalidPageId"
proof
  assume "readable p i" and "i = kInvalidPageId"
  then have "kInvalidPageId < num_pages (meta p)" by (simp add: readable_def data_page_def)
  then show False using unsigned_less [of "num_pages (meta p)", where ?'a = nat] by (simp add: kInvalidPageId_def word_less_nat_alt)
qed

lemma ReadPage_readable: "ReadPage p i io = (Inr pg, io') \<Longrightarrow> readable p i \<and> pg = page_at p i"
  using ReadPage_Inr [of p i io pg io'] by (auto simp: readable_def)

lemma ReadPage_calm: "pager_inv p \<Longrightarrow> readable p i \<Longrightarrow> sys io = [] \<Longrightarrow> ReadPage p i io = (Inr (page_at p i), io)"
  by (rule ReadPage_total) (auto simp: readable_def)

subsection \<open>The walk over the tree\<close>

text \<open>The recursion is never deeper than the number of pages not visited.\<close>

abbreviation unseen :: "Pager \<Rightarrow> PageId set \<Rightarrow> nat" where
  "unseen p P \<equiv> card ({i. data_page p i} - P)"

lemma unseen_insert: "data_page p i \<Longrightarrow> i \<notin> P \<Longrightarrow> unseen p (insert i P) < unseen p P"
  by (rule psubset_card_mono) auto

lemma unseen_mono: "P \<subseteq> Q \<Longrightarrow> unseen p Q \<le> unseen p P"
  by (rule card_mono) auto

lemma dump_depth:
  "unseen p P < n \<Longrightarrow> \<exists>r ls Q io'. DumpSubtree n p i lvs P io = Some (r, ls, Q, io') \<and> P \<subseteq> Q"
  "unseen p P < n \<Longrightarrow> \<exists>r ls Q io'. dump_children n p cs good lvs P io = Some (r, ls, Q, io') \<and> P \<subseteq> Q"
proof (induction n p i lvs P io and n p cs good lvs P io rule: DumpSubtree_dump_children.induct)
  case (2 n p i lvs P io)
  obtain x io1 where rd: "ReadPage p i io = (x, io1)" by fastforce
  show ?case
  proof (cases "\<exists>pg. x = Inr pg \<and> i \<notin> P \<and> Validate pg \<and> \<not> IsLeaf pg")
    case True
    then obtain pg where pg: "x = Inr pg" "i \<notin> P" "Validate pg" "\<not> IsLeaf pg" by blast
    have "unseen p (insert i P) < n"
      using unseen_insert [of p i P] ReadPage_readable [OF rd [unfolded pg(1)]] pg(2) "2.prems" by (simp add: readable_def)
    then show ?thesis using "2.IH" [OF rd [symmetric, unfolded pg(1)]] rd pg by fastforce
  next
    case False
    then show ?thesis using rd by (cases x) auto
  qed
next
  case (4 n p c cs good lvs P io)
  obtain r ls Q io1 where d: "DumpSubtree n p c lvs P io = Some (r, ls, Q, io1)" "P \<subseteq> Q" using "4.IH"(1) "4.prems" by blast
  have "unseen p Q < n" using unseen_mono [OF d(2), of p] "4.prems" by simp
  then show ?case using "4.IH"(2) [of "(r, ls, Q, io1)" r _ ls _ Q io1] d by fastforce
qed auto

text \<open>A positive verdict on a subtree, or on the children of a page, exhibits the tree that was walked.\<close>

abbreviation dumped :: "Pager \<Rightarrow> PageId list \<Rightarrow> itree list \<Rightarrow> PageId list \<Rightarrow> PageId set \<Rightarrow> PageId list \<Rightarrow> PageId set \<Rightarrow> bool" where
  "dumped p cs ts lvs P ls Q \<equiv> map iroot ts = cs \<and> (\<forall>t \<in> set ts. intact p t) \<and> distinct (concat (map ipages ts)) \<and>
     set (concat (map ipages ts)) \<inter> P = {} \<and> ls = lvs @ concat (map ileaves ts) \<and> Q = P \<union> set (concat (map ipages ts))"

lemma dump_sound:
  "DumpSubtree n p i lvs P io = Some (True, ls, Q, io') \<Longrightarrow> \<exists>t. dumped p [i] [t] lvs P ls Q"
  "dump_children n p cs good lvs P io = Some (True, ls, Q, io') \<Longrightarrow> good \<and> (\<exists>ts. dumped p cs ts lvs P ls Q)"
proof (induction n p i lvs P io and n p cs good lvs P io arbitrary: ls Q io' and ls Q io' rule: DumpSubtree_dump_children.induct)
  case (2 n p i lvs P io)
  obtain pg io1 where rd: "ReadPage p i io = (Inr pg, io1)" using "2.prems" by (auto split: prod.splits sum.splits)
  note r = ReadPage_readable [OF rd]
  have v: "i \<notin> P" "Validate pg" using "2.prems" rd by (auto split: if_splits)
  show ?case
  proof (cases "IsLeaf pg")
    case True
    then show ?thesis using "2.prems" rd v r by (intro exI [of _ "INode i []"]) (auto simp: child_ids_def)
  next
    case False
    have "dump_children n p (child_ids pg) True lvs (insert i P) io1 = Some (True, ls, Q, io')"
      using "2.prems" rd v False by (simp add: child_ids_def)
    then obtain ts where ts: "dumped p (child_ids pg) ts lvs (insert i P) ls Q"
      using "2.IH" [OF rd [symmetric] refl v(1) _ False] v(2) False by (auto simp: child_ids_def)
    have "ts \<noteq> []" using ts False by (auto simp: child_ids_def)
    then show ?thesis using ts r v by (intro exI [of _ "INode i ts"]) auto
  qed
next
  case (4 n p c cs good lvs P io)
  obtain r1 ls1 Q1 io1 where d: "DumpSubtree n p c lvs P io = Some (r1, ls1, Q1, io1)" "dump_children n p cs (r1 \<and> good) ls1 Q1 io1 = Some (True, ls, Q, io')"
    using "4.prems" by (auto simp: bind_eq_Some_conv)
  from "4.IH"(2) [OF d(1) refl refl refl d(2)] obtain ts where r: "r1" "good" and ts: "dumped p cs ts ls1 Q1 ls Q" by blast
  have "DumpSubtree n p c lvs P io = Some (True, ls1, Q1, io1)" using d(1) r(1) by simp
  from "4.IH"(1) [OF this] obtain t where "dumped p [c] [t] lvs P ls1 Q1" by (elim exE) (rule that)
  then show ?case using ts r by (intro conjI exI [of _ "t # ts"]) auto
qed auto

text \<open>An intact tree is accepted when no read fails; its pages bound the depth that is needed.\<close>

lemma dump_complete:
  assumes inv: "pager_inv p" and calm: "sys io = []"
  shows "intact p t \<Longrightarrow> distinct (ipages t) \<Longrightarrow> set (ipages t) \<inter> P = {} \<Longrightarrow> length (ipages t) \<le> n \<Longrightarrow>
    DumpSubtree n p (iroot t) lvs P io = Some (True, lvs @ ileaves t, P \<union> set (ipages t), io)"
proof (induction t arbitrary: P n lvs)
  case (INode i ts)
  have children: "\<forall>t \<in> set us. t \<in> set ts \<Longrightarrow> distinct (concat (map ipages us)) \<Longrightarrow> set (concat (map ipages us)) \<inter> P = {} \<Longrightarrow>
      length (concat (map ipages us)) \<le> n \<Longrightarrow>
      dump_children n p (map iroot us) True lvs P io = Some (True, lvs @ concat (map ileaves us), P \<union> set (concat (map ipages us)), io)" for us P n lvs
  proof (induction us arbitrary: P lvs)
    case (Cons u us)
    have "DumpSubtree n p (iroot u) lvs P io = Some (True, lvs @ ileaves u, P \<union> set (ipages u), io)"
      by (rule INode.IH) (use Cons.prems INode.prems(1) in auto)
    moreover have "dump_children n p (map iroot us) True (lvs @ ileaves u) (P \<union> set (ipages u)) io =
        Some (True, (lvs @ ileaves u) @ concat (map ileaves us), (P \<union> set (ipages u)) \<union> set (concat (map ipages us)), io)"
      by (rule Cons.IH) (use Cons.prems in auto)
    ultimately show ?case by (simp add: Un_assoc)
  qed simp
  let ?pg = "page_at p i"
  obtain m where n: "n = Suc m" using INode.prems(4) by (cases n) auto
  have rd: "ReadPage p i io = (Inr ?pg, io)" using INode.prems(1) by (intro ReadPage_calm [OF inv _ calm]) simp
  have i: "i \<notin> P" "Validate ?pg" "child_ids ?pg = map iroot ts" using INode.prems by auto
  show ?case
  proof (cases "IsLeaf ?pg")
    case True
    then show ?thesis using rd i by (simp add: n child_ids_def)
  next
    case False
    have "dump_children m p (map iroot ts) True lvs (insert i P) io =
        Some (True, lvs @ concat (map ileaves ts), insert i P \<union> set (concat (map ipages ts)), io)"
      by (rule children) (use INode.prems n in auto)
    moreover have "ts \<noteq> []" using i(3) False by (auto simp: child_ids_def)
    ultimately show ?thesis using rd i False by (simp add: n child_ids_def del: map_append)
  qed
qed

subsection \<open>The free list and the leaf chain\<close>

lemma free_walk_sound:
  "verify_checksums p \<Longrightarrow> free_walk p tree seen cur io = (True, io') \<Longrightarrow> \<exists>ids. flist p cur ids \<and> set ids \<inter> (seen \<union> tree) = {}"
proof (induction p tree seen cur io rule: free_walk.induct)
  case (1 p tree seen cur io)
  show ?case
  proof (cases "cur = kInvalidPageId")
    case True
    then show ?thesis by (intro exI [of _ "[]"]) simp
  next
    case False
    obtain pg io1 where rd: "ReadPage p cur io = (Inr pg, io1)" and c: "cur \<notin> seen" "cur \<notin> tree" "ptype (hdr pg) = kFree"
      and w: "free_walk p tree (insert cur seen) (free_next pg) io1 = (True, io')"
      using "1.prems"(2) False by (subst (asm) free_walk.simps) (auto split: if_splits prod.splits sum.splits)
    from "1.IH" [OF False c(1,2) rd [symmetric] refl _ "1.prems"(1) w] c(3) obtain ids where
      "flist p (free_next pg) ids" "set ids \<inter> (insert cur seen \<union> tree) = {}" by auto
    then show ?thesis using ReadPage_Inr [OF rd] c False "1.prems"(1) by (intro exI [of _ "cur # ids"]) (auto simp: Let_def)
  qed
qed

lemma free_walk_complete:
  assumes inv: "pager_inv p" and calm: "sys io = []"
  shows "flist p cur ids \<Longrightarrow> set ids \<inter> (seen \<union> tree) = {} \<Longrightarrow> free_walk p tree seen cur io = (True, io)"
proof (induction ids arbitrary: cur seen)
  case Nil
  then show ?case by (simp add: free_walk.simps)
next
  case (Cons x ids)
  then have x: "cur = x" "x \<noteq> kInvalidPageId" "readable p x" "ptype (hdr (page_at p x)) = kFree" "flist p (free_next (page_at p x)) ids" "x \<notin> set ids"
    by (auto simp: Let_def readable_def)
  have "free_walk p tree (insert x seen) (free_next (page_at p x)) io = (True, io)" by (rule Cons.IH) (use x Cons.prems(2) in auto)
  then show ?case using ReadPage_calm [OF inv x(3) calm] x(1,2,4) Cons.prems(2) by (subst free_walk.simps) simp
qed

lemma chain_walk_sound:
  "chain_walk p m prev fw cur io = (Some r, io') \<Longrightarrow> \<exists>ls. r = fw @ ls \<and> chained p prev ls \<and> cur = first ls"
proof (induction p m prev fw cur io rule: chain_walk.induct)
  case (1 p m prev fw cur io)
  show ?case
  proof (cases "cur = kInvalidPageId")
    case True
    then show ?thesis using "1.prems" by (intro exI [of _ "[]"]) (simp add: chain_walk.simps)
  next
    case False
    obtain pg io1 where rd: "ReadPage p cur io = (Inr pg, io1)" and c: "GetPrevLeaf pg = prev" "\<not> m + 1 < length fw + 1"
      and w: "chain_walk p m cur (fw @ [cur]) (GetNextLeaf pg) io1 = (Some r, io')"
      using "1.prems" False by (subst (asm) chain_walk.simps) (auto split: if_splits prod.splits sum.splits)
    from "1.IH" [OF False rd [symmetric] refl _ c(2) w] c(1) obtain ls where
      "r = (fw @ [cur]) @ ls" "chained p cur ls" "GetNextLeaf pg = first ls" by auto
    then show ?thesis using ReadPage_readable [OF rd] c(1) by (intro exI [of _ "cur # ls"]) auto
  qed
qed

lemma chain_walk_complete:
  assumes inv: "pager_inv p" and calm: "sys io = []"
  shows "chained p prev ls \<Longrightarrow> length fw + length ls \<le> m + 1 \<Longrightarrow> chain_walk p m prev fw (first ls) io = (Some (fw @ ls), io)"
proof (induction ls arbitrary: prev fw)
  case Nil
  then show ?case by (simp add: chain_walk.simps)
next
  case (Cons l ls)
  have "chain_walk p m l (fw @ [l]) (first ls) io = (Some ((fw @ [l]) @ ls), io)" by (rule Cons.IH) (use Cons.prems in auto)
  then show ?case using Cons.prems readable_valid [of p l] ReadPage_calm [OF inv _ calm, of l] by (subst chain_walk.simps) simp
qed

lemma CheckLeafChain_sound: "CheckLeafChain p ls io = (True, io') \<Longrightarrow> chained p kInvalidPageId ls"
  using chain_walk_sound [of p "length ls" kInvalidPageId "[]" "hd ls" io]
  by (auto simp: CheckLeafChain_def split: if_splits prod.splits option.splits)

lemma CheckLeafChain_complete:
  "pager_inv p \<Longrightarrow> sys io = [] \<Longrightarrow> chained p kInvalidPageId ls \<Longrightarrow> CheckLeafChain p ls io = (True, io)"
  using chain_walk_complete [of p io kInvalidPageId ls "[]" "length ls"] by (cases ls) (auto simp: CheckLeafChain_def)

subsection \<open>The verdict\<close>

declare DumpSubtree.simps [simp del]

lemma card_data_pages: "card {i. data_page p i} \<le> unat (num_pages (meta p))"
proof -
  have "card {i. data_page p i} = card (unat ` {i. data_page p i})" by (rule card_image [symmetric]) (simp add: inj_on_def word_unat_eq_iff)
  also have "\<dots> \<le> card {..< unat (num_pages (meta p))}" by (rule card_mono) (auto simp: data_page_def word_less_nat_alt)
  finally show ?thesis by simp
qed

lemma intact_pages: "intact p t \<Longrightarrow> set (ipages t) \<subseteq> {i. data_page p i}"
  by (induction t) (force simp: readable_def)

lemma inspect_tree:
  assumes "root_page_id (meta p) \<noteq> kInvalidPageId"
  obtains a ls Q io1 b io2 c io3 where "DumpSubtree (unat (num_pages (meta p)) + 1) p (root_page_id (meta p)) [] {} io = Some (a, ls, Q, io1)"
    and "CheckLeafChain p ls io1 = (b, io2)" and "CheckFreeList p Q io2 = (c, io3)" and "inspect p io = Some (c \<and> b \<and> a, io3)"
proof -
  have "unseen p {} < unat (num_pages (meta p)) + 1" using card_data_pages [of p] by simp
  from dump_depth(1) [OF this] obtain r ls Q io1
    where d: "DumpSubtree (unat (num_pages (meta p)) + 1) p (root_page_id (meta p)) [] {} io = Some (r, ls, Q, io1)" by blast
  obtain b io2 where c: "CheckLeafChain p ls io1 = (b, io2)" by fastforce
  obtain x io3 where f: "CheckFreeList p Q io2 = (x, io3)" by fastforce
  show thesis by (rule that [OF d c f]) (use assms d c f in \<open>simp add: inspect_def\<close>)
qed

lemma inspect_total: "\<exists>r io'. inspect p io = Some (r, io')"
proof (cases "root_page_id (meta p) = kInvalidPageId")
  case True
  then show ?thesis by (cases "CheckFreeList p {} io") (simp add: inspect_def)
next
  case False
  then show ?thesis by (rule inspect_tree) blast
qed

lemma inspect_sound:
  assumes v: "verify_checksums p" and "inspect p io = Some (True, io')"
  shows "intact_file p"
proof (cases "root_page_id (meta p) = kInvalidPageId")
  case True
  then show ?thesis using assms free_walk_sound [of p "{}" "{}"]
    by (fastforce simp: inspect_def intact_file_def CheckFreeList_def split: prod.splits)
next
  case False
  obtain ls Q io1 io2 where d: "DumpSubtree (unat (num_pages (meta p)) + 1) p (root_page_id (meta p)) [] {} io = Some (True, ls, Q, io1)"
    and c: "CheckLeafChain p ls io1 = (True, io2)" and f: "CheckFreeList p Q io2 = (True, io')"
    by (rule inspect_tree [OF False, of io]) (use assms(2) in auto)
  from dump_sound(1) [OF d] obtain t where t: "iroot t = root_page_id (meta p)" "intact p t" "distinct (ipages t)" "ls = ileaves t" "Q = set (ipages t)" by auto
  from free_walk_sound [OF v f [unfolded CheckFreeList_def]] obtain ids where "flist p (free_list_head (meta p)) ids" "set ids \<inter> Q = {}" by auto
  then show ?thesis using t False CheckLeafChain_sound [OF c] unfolding intact_file_def by auto
qed

lemma inspect_complete:
  assumes inv: "pager_inv p" and calm: "sys io = []" and "intact_file p"
  shows "inspect p io = Some (True, io)"
proof (cases "root_page_id (meta p) = kInvalidPageId")
  case True
  then show ?thesis using assms(3) free_walk_complete [OF inv calm, of _ _ "{}" "{}"] by (auto simp: inspect_def intact_file_def CheckFreeList_def)
next
  case False
  then obtain t ids where t: "iroot t = root_page_id (meta p)" "intact p t" "distinct (ipages t)" "chained p kInvalidPageId (ileaves t)"
    and ids: "flist p (free_list_head (meta p)) ids" "set ids \<inter> set (ipages t) = {}" using assms(3) by (auto simp: intact_file_def)
  have "length (ipages t) \<le> unat (num_pages (meta p)) + 1"
    using card_mono [OF _ intact_pages [OF t(2)]] card_data_pages [of p] by (simp add: distinct_card [OF t(3), symmetric])
  from dump_complete [OF inv calm t(2,3) _ this, of "{}" "[]"] show ?thesis
    using False t(1) CheckLeafChain_complete [OF inv calm t(4)] free_walk_complete [OF inv calm ids(1), of "{}" "set (ipages t)"] ids(2)
    by (simp add: inspect_def CheckFreeList_def)
qed

text \<open>
  C30: the checker ends on every file, intact or damaged, with cycles in the tree, the leaf chain or the free list, and for every
  behaviour of the operating system: its recursion is never deeper than the number of pages the file has, so that it
  always returns an exit code.
\<close>

theorem inspector_terminates: "\<exists>code. inspect_main argc file io = Some code"
  using inspect_total by (force simp: inspect_main_def split: prod.splits sum.splits)

text \<open>
  C29: what the checker's verdict means. Exit code 0 is returned only for an intact file: the pages reachable from the root form a
  tree in which no page occurs twice, every page of it is readable, has a matching checksum and a valid layout, the leaves are
  linked in tree order in both directions, and the free list is a duplicate-free chain of free pages disjoint from the tree. Conversely, when
  no read fails, every intact file is accepted.
\<close>

theorem inspector_accepts_intact_files:
  assumes "Pager_Open False True file io = (Inr p, f, io1)"
  shows "(inspect_main 2 file io = Some 0 \<longrightarrow> intact_file p) \<and>
    (pager_inv p \<longrightarrow> sys io1 = [] \<longrightarrow> intact_file p \<longrightarrow> inspect_main 2 file io = Some 0)"
proof -
  have v: "verify_checksums p" using assms by (auto simp: Pager_Open_def Let_def split: prod.splits sum.splits if_splits option.splits)
  show ?thesis using assms inspect_sound [OF v] inspect_complete [of p io1] inspect_total [of p io1]
    by (auto simp: inspect_main_def split: if_splits)
qed

text \<open>A file with one page, a leaf that is the root; \<open>nx\<close> is its link to the next leaf.\<close>

definition leaf_page :: "PageId \<Rightarrow> Page" where
  "leaf_page nx = (let l = SetNextLeaf (Page_Init 2 kLeaf) nx in stamp l (ComputeChecksum l))"

definition leaf_meta :: MetaPage where
  "leaf_meta = (let m = Meta_Init\<lparr>num_pages := 3, root_page_id := 2\<rparr> in m\<lparr>mchecksum := ComputeMetaChecksum m\<rparr>)"

definition leaf_file :: "PageId \<Rightarrow> PosixFile" where
  "leaf_file nx = \<lparr>fd_open = True, content = meta_bytes leaf_meta @ meta_bytes leaf_meta @ RawData (leaf_page nx), synced = []\<rparr>"

definition leaf_pager :: "PageId \<Rightarrow> Pager" where
  "leaf_pager nx = \<lparr>pfile = leaf_file nx, meta = leaf_meta, verify_checksums = True\<rparr>"

lemma leaf_file_ok:
  shows "Pager_Open False True (Some (leaf_file nx)) calm = (Inr (leaf_pager nx), Some (leaf_file nx), calm)" and "pager_inv (leaf_pager nx)"
    and "page_at (leaf_pager nx) 2 = leaf_page nx" and "readable (leaf_pager nx) 2" and "Validate (leaf_page nx)"
proof -
  have l: "length (meta_bytes leaf_meta) = kPageSize" "length (RawData (leaf_page nx)) = kPageSize"
    by (simp_all add: leaf_meta_def Meta_Init_def Let_def length_meta_bytes)
  have n: "num_pages leaf_meta = 3" "generation leaf_meta = 0" by (simp_all add: leaf_meta_def Meta_Init_def Let_def)
  have v: "meta_valid True leaf_meta"
  proof -
    have "meta_IsValid leaf_meta" by (simp add: leaf_meta_def Meta_Init_def Let_def meta_IsValid_def)
    then show ?thesis unfolding meta_valid_def by (simp add: leaf_meta_def Let_def)
  qed
  have c: "file_page (leaf_file nx) 0 = meta_bytes leaf_meta" "file_page (leaf_file nx) 1 = meta_bytes leaf_meta"
    "file_page (leaf_file nx) 2 = RawData (leaf_page nx)" "length (content (leaf_file nx)) = 3 * kPageSize" "fd_open (leaf_file nx)"
    using l by (simp_all add: leaf_file_def file_page_def)
  have "select_meta True (leaf_file nx) = Some leaf_meta" using c n v meta_roundtrip by (simp add: select_meta_def consider_meta_eq)
  then show "Pager_Open False True (Some (leaf_file nx)) calm = (Inr (leaf_pager nx), Some (leaf_file nx), calm)"
    using Pager_Open_existing [OF c(5), of calm False True] c(4) n(1) by (simp add: leaf_pager_def)
  show "pager_inv (leaf_pager nx)" using c(4,5) n(1) by (simp add: leaf_pager_def pager_inv_def kFirstDataPage_def)
  have "mem_ok (leaf_page nx)" by (simp add: leaf_page_def mem_ok_def Let_def SetNextLeaf_def Page_Init_def)
  then show at: "page_at (leaf_pager nx) 2 = leaf_page nx" using c(3) by (simp add: leaf_pager_def page_of_bytes_RawData)
  have "trusted (leaf_page nx)" unfolding leaf_page_def Let_def by (rule trusted_stamp)
  then show "readable (leaf_pager nx) 2" using n(1) unfolding readable_def at by (simp add: leaf_pager_def data_page_def kFirstDataPage_def)
  have "nslots (leaf_page nx) = 0" "fstart (leaf_page nx) = kHeaderSize" "fend (leaf_page nx) = kPageSize"
    by (simp_all add: leaf_page_def Let_def SetNextLeaf_def Page_Init_def header_Init_def nslots_def fstart_def fend_def layout_defs)
  then have "layout_ok (leaf_page nx)" by (simp add: layout_ok_def live_def layout_defs)
  then show "Validate (leaf_page nx)" by (simp add: Validate_iff)
qed

theorem inspector_accepts_intact_files_witness:
  "inspect_main 2 (Some (leaf_file kInvalidPageId)) calm = Some 0 \<and> inspect_main 2 (Some (leaf_file 2)) calm \<noteq> Some 0"
proof -
  have r: "root_page_id (meta (leaf_pager nx)) = 2" "free_list_head (meta (leaf_pager nx)) = kInvalidPageId" "(2::PageId) \<noteq> kInvalidPageId" for nx
    by (simp_all add: leaf_pager_def leaf_meta_def Meta_Init_def Let_def kInvalidPageId_def)
  have g: "IsLeaf (leaf_page nx)" "GetPrevLeaf (leaf_page nx) = kInvalidPageId" "GetNextLeaf (leaf_page nx) = nx" for nx
    by (simp_all add: leaf_page_def Let_def SetNextLeaf_def IsLeaf_def GetPrevLeaf_def GetNextLeaf_def Page_Init_def header_Init_def)
  have t: "intact (leaf_pager nx) (INode 2 ts) \<longleftrightarrow> ts = []" "chained (leaf_pager nx) kInvalidPageId (ileaves (INode 2 [])) \<longleftrightarrow> nx = kInvalidPageId" for nx ts
    using leaf_file_ok(3-5) [of nx] g [of nx] by (auto simp: child_ids_def)
  have "intact_file (leaf_pager kInvalidPageId)" unfolding intact_file_def using r
    by (intro exI [of _ "[2]"] exI [of _ "[]"]) (simp, rule exI [of _ "INode 2 []"], simp add: t del: intact.simps ileaves.simps chained.simps)
  moreover have "\<not> intact_file (leaf_pager 2)"
  proof
    assume "intact_file (leaf_pager 2)"
    then obtain t' where t': "iroot t' = 2" "intact (leaf_pager 2) t'" "chained (leaf_pager 2) kInvalidPageId (ileaves t')"
      unfolding intact_file_def r by (auto simp only: r if_False)
    show False using t' r(3) by (cases t') (simp add: t del: intact.simps ileaves.simps chained.simps)
  qed
  ultimately show ?thesis using inspector_accepts_intact_files [OF leaf_file_ok(1)] leaf_file_ok(2) by auto
qed

end
