(* ===== verification/Checksum_Arm.thy ===== *)
theory Checksum_Arm
  imports Checksum
begin

section \<open>CRC-32 with the ARMv8 instructions (page.cc)\<close>

text \<open>
  The other implementation of \<^verbatim>\<open>Crc32Update\<close> in \<^verbatim>\<open>src/storage/page.cc\<close>, compiled where the processor has the CRC32
  instructions. The intrinsics \<^verbatim>\<open>__crc32b\<close> and \<^verbatim>\<open>__crc32d\<close> are parameters; what the architecture manual says of them (one step of
  the reflected CRC-32 for each byte of the operand, least significant byte first) are the laws of the locale. The theorem says that files written
  by either build are checked alike by the other.
\<close>

subsection \<open>Definitions\<close>

text \<open>The three loops; \<open>addr\<close> is the address of the data, which decides how many bytes the first one consumes.\<close>

fun arm_align :: "(u32 \<Rightarrow> byte \<Rightarrow> u32) \<Rightarrow> nat \<Rightarrow> u32 \<Rightarrow> bytes \<Rightarrow> u32 \<times> bytes" where
  "arm_align crc32b addr crc [] = (crc, [])"
| "arm_align crc32b addr crc (b # bs) =
     (if addr mod 8 \<noteq> 0 then arm_align crc32b (addr + 1) (crc32b crc b) bs else (crc, b # bs))"

function arm_chunks :: "(u32 \<Rightarrow> u64 \<Rightarrow> u32) \<Rightarrow> u32 \<Rightarrow> bytes \<Rightarrow> u32 \<times> bytes" where
  "arm_chunks crc32d crc data =
     (if 8 \<le> length data then arm_chunks crc32d (crc32d crc (GetLE (take 8 data))) (drop 8 data) else (crc, data))"
  by pat_completeness auto
termination by (relation "measure (\<lambda>(f, crc, data). length data)") auto

fun arm_bytes :: "(u32 \<Rightarrow> byte \<Rightarrow> u32) \<Rightarrow> u32 \<Rightarrow> bytes \<Rightarrow> u32" where
  "arm_bytes crc32b crc [] = crc"
| "arm_bytes crc32b crc (b # bs) = arm_bytes crc32b (crc32b crc b) bs"

definition Crc32Update_arm :: "(u32 \<Rightarrow> byte \<Rightarrow> u32) \<Rightarrow> (u32 \<Rightarrow> u64 \<Rightarrow> u32) \<Rightarrow> nat \<Rightarrow> u32 \<Rightarrow> bytes \<Rightarrow> u32" where
  "Crc32Update_arm crc32b crc32d addr crc data =
     (case arm_align crc32b addr crc data of (crc, data) \<Rightarrow>
      case arm_chunks crc32d crc data of (crc, data) \<Rightarrow> arm_bytes crc32b crc data)"

declare arm_chunks.simps [simp del]

subsection \<open>The instructions\<close>

text \<open>Consuming bytes one at a time or in words of eight, against a byte step that is known.\<close>

locale crc_instructions =
  fixes byte_step :: "byte \<Rightarrow> u32 \<Rightarrow> u32" and crc32b :: "u32 \<Rightarrow> byte \<Rightarrow> u32" and crc32d :: "u32 \<Rightarrow> u64 \<Rightarrow> u32"
  assumes byte_law: "crc32b crc b = byte_step b crc"
    and word_law: "length bs = 8 \<Longrightarrow> crc32d crc (GetLE bs) = fold byte_step bs crc"
begin

lemma align_fold: "arm_align crc32b addr crc data = (crc', rest) \<Longrightarrow> fold byte_step rest crc' = fold byte_step data crc"
  by (induction data arbitrary: addr crc) (auto simp: byte_law split: if_splits)

lemma chunks_fold: "arm_chunks crc32d crc data = (crc', rest) \<Longrightarrow> fold byte_step rest crc' = fold byte_step data crc"
proof (induction "length data" arbitrary: crc data rule: less_induct)
  case less
  show ?case
  proof (cases "8 \<le> length data")
    case True
    have "arm_chunks crc32d (fold byte_step (take 8 data) crc) (drop 8 data) = (crc', rest)"
      using less.prems True by (subst (asm) arm_chunks.simps) (simp add: word_law)
    with less.hyps [of "drop 8 data"] True have "fold byte_step rest crc' = fold byte_step (drop 8 data) (fold byte_step (take 8 data) crc)" by simp
    also have "\<dots> = fold byte_step (take 8 data @ drop 8 data) crc" by (simp only: fold_append comp_apply)
    finally show ?thesis by simp
  next
    case False
    then show ?thesis using less.prems by (simp add: arm_chunks.simps)
  qed
qed

lemma bytes_fold: "arm_bytes crc32b crc data = fold byte_step data crc"
  by (induction data arbitrary: crc) (simp_all add: byte_law)

lemma update_fold: "Crc32Update_arm crc32b crc32d addr crc data = fold byte_step data crc"
  using align_fold chunks_fold by (auto simp: Crc32Update_arm_def bytes_fold split: prod.splits)

end

text \<open>The instructions as the manual describes them, bit by bit.\<close>

definition crc32d_ref :: "u32 \<Rightarrow> u64 \<Rightarrow> u32" where
  "crc32d_ref crc w = fold crc_ref_byte (PutLE 8 w) crc"

interpretation arm: crc_instructions crc_ref_byte "\<lambda>crc b. crc_ref_byte b crc" crc32d_ref
proof
  fix bs :: bytes and crc assume "length bs = 8"
  then have "PutLE 8 (GetLE bs :: u64) = bs" using PutLE_GetLE [where ?'a = 64, of bs] by simp
  then show "crc32d_ref crc (GetLE bs) = fold crc_ref_byte bs crc" by (simp add: crc32d_ref_def)
qed simp

text \<open>The steps of the portable loop obey the same laws.\<close>

interpretation portable: crc_instructions crc_ref_byte "\<lambda>crc b. tbl 0 ((crc XOR ucast b) AND 0xFF) XOR drop_bit 8 crc"
  "\<lambda>crc w. crc_slice8 crc (GetLE (take 4 (PutLE 8 w))) (GetLE (drop 4 (PutLE 8 w)))"
proof
  fix bs :: bytes and crc assume l: "length bs = 8"
  have "PutLE 8 (GetLE bs :: u64) = bs" using PutLE_GetLE [where ?'a = 64, of bs] l by simp
  then show "crc_slice8 crc (GetLE (take 4 (PutLE 8 (GetLE bs :: u64)))) (GetLE (drop 4 (PutLE 8 (GetLE bs :: u64)))) = fold crc_ref_byte bs crc"
    using crc_slice8_ref [of "take 4 bs" "drop 4 bs" crc] l by (simp add: crc_ref_def)
qed (rule crc_tail_step)

subsection \<open>Property\<close>

text \<open>
  C33: both builds compute the same checksums. When the two CRC32 instructions do what the architecture promises, the ARM
  implementation returns, for every address, start value and buffer, what the portable slicing-by-8 one returns.
\<close>

theorem Crc32Update_arm_is_portable:
  assumes "\<And>crc b. crc32b crc b = crc_ref_byte b crc" and "\<And>crc bs. length bs = 8 \<Longrightarrow> crc32d crc (GetLE bs) = fold crc_ref_byte bs crc"
  shows "Crc32Update_arm crc32b crc32d addr crc data = Crc32Update crc data"
  using crc_instructions.update_fold [of crc_ref_byte crc32b crc32d] assms by (simp add: crc_instructions_def Crc32Update_ref crc_ref_def)

theorem Crc32Update_arm_is_portable_witness:
  "Crc32Update_arm (\<lambda>crc b. crc_ref_byte b crc) crc32d_ref 5 0xFFFFFFFF [1, 2, 3, 4, 5, 6, 7, 8, 9, 10, 11, 12] =
     Crc32Update 0xFFFFFFFF [1, 2, 3, 4, 5, 6, 7, 8, 9, 10, 11, 12]"
  by (rule Crc32Update_arm_is_portable) (simp_all add: arm.word_law)

end
