(* ===== verification/Demo.thy ===== *)
theory Demo
  imports Recovery
begin

section \<open>The crash-demo client (main.cc)\<close>

text \<open>
  The program that loads numbered keys in order, to be killed at some point, and the one that checks after reopening that
  exactly a prefix of the load survived. Messages are left out. The theorems: the keys are ordered as their numbers, and the
  check accepts exactly the databases that hold a prefix.
\<close>

unbundle bit_operations_syntax

subsection \<open>Keys and values\<close>

text \<open>\<^verbatim>\<open>%016llu\<close> into a buffer of 17 bytes: decimal digits, padded with zeros, cut after 16 characters.\<close>

fun digits :: "nat \<Rightarrow> bytes" where
  "digits n = (if n < 10 then [of_nat (48 + n)] else digits (n div 10) @ [of_nat (48 + n mod 10)])"

declare digits.simps [simp del]

definition MakeKey :: "u64 \<Rightarrow> key" where
  "MakeKey index = (let ds = digits (unat index) in take 16 (replicate (16 - length ds) 48 @ ds))"

fun value_loop :: "nat \<Rightarrow> u64 \<Rightarrow> bytes" where
  "value_loop 0 x = []"
| "value_loop (Suc n) x =
     (let x = x XOR drop_bit 33 x; x = x * 0xFF51AFD7ED558CCD in of_nat (97 + unat x mod 26) # value_loop n x)"

definition MakeValue :: "u64 \<Rightarrow> bytes" where
  "MakeValue index = value_loop 100 (index * 0x9E3779B97F4A7C15 + 1)"

subsection \<open>Load and verify\<close>

partial_function (option) load_loop :: "u64 \<Rightarrow> u64 \<Rightarrow> DbImpl \<Rightarrow> (nat \<times> DbImpl) option" where
  "load_loop n i db =
     (if i < n then
        Option.bind (Db_Put (MakeKey i) (MakeValue i) db) (\<lambda>(s, db). if s \<noteq> kOk then Some (1, db) else load_loop n (i + 1) db)
      else Some (0, db))"

definition RunLoad :: "string \<Rightarrow> u64 \<Rightarrow> int option \<Rightarrow> bool \<Rightarrow> PathState \<Rightarrow> Io \<Rightarrow> (nat \<times> DbImpl option) option" where
  "RunLoad dir n env held_elsewhere st i =
     Option.bind (DB_Open dir (Options_init\<lparr>create_if_missing := True, sync_on_write := False\<rparr>) env held_elsewhere st i) (\<lambda>(r, _, _).
       case r of Inl _ \<Rightarrow> Some (1, None)
       | Inr db \<Rightarrow> map_option (\<lambda>(code, db). (code, Some (DbImpl_destroy db))) (load_loop n 0 db))"

text \<open>The callback of the scan; its state is \<open>expected\<close> and \<open>mismatch\<close>.\<close>

definition check_entry :: "u64 \<times> bool \<Rightarrow> key \<Rightarrow> bytes \<Rightarrow> bool \<times> u64 \<times> bool" where
  "check_entry st k v =
     (case st of (expected, mismatch) \<Rightarrow>
        if k \<noteq> MakeKey expected \<or> v \<noteq> MakeValue expected then (False, expected, True) else (True, expected + 1, mismatch))"

partial_function (option) probe_loop :: "u64 \<Rightarrow> u64 \<Rightarrow> u64 \<Rightarrow> DbImpl \<Rightarrow> (bool \<times> DbImpl) option" where
  "probe_loop n survivors probe db =
     (if probe < n then
        Option.bind (Db_Contains (MakeKey probe) db) (\<lambda>(found, db).
          if found then Some (False, db) else probe_loop n survivors (probe + ((n - survivors) div 128 + 1)) db)
      else Some (True, db))"

definition verify_db :: "u64 \<Rightarrow> DbImpl \<Rightarrow> (nat \<times> DbImpl) option" where
  "verify_db n db =
     Option.bind (Db_Scan [] [] check_entry (0, False) db) (\<lambda>(s, (expected, mismatch), db).
       if s \<noteq> kOk \<or> mismatch then Some (1, db)
       else map_option (\<lambda>(absent, db).
         if \<not> absent then (1, db) else if ApproximateKeyCount db \<noteq> expected then (1, db) else (0, db)) (probe_loop n expected expected db))"

definition RunVerify :: "string \<Rightarrow> u64 \<Rightarrow> int option \<Rightarrow> bool \<Rightarrow> PathState \<Rightarrow> Io \<Rightarrow> (nat \<times> DbImpl option) option" where
  "RunVerify dir n env held_elsewhere st i =
     Option.bind (DB_Open dir Options_init env held_elsewhere st i) (\<lambda>(r, _, _).
       case r of Inl _ \<Rightarrow> Some (1, None)
       | Inr db \<Rightarrow> map_option (\<lambda>(code, db). (code, Some (DbImpl_destroy db))) (verify_db n db))"

subsection \<open>The order of the keys\<close>

fun padded :: "nat \<Rightarrow> nat \<Rightarrow> bytes" where
  "padded 0 n = []"
| "padded (Suc w) n = padded w (n div 10) @ [of_nat (48 + n mod 10)]"

lemma length_padded [simp]: "length (padded w n) = w"
  by (induction w arbitrary: n) simp_all

lemma padded_zero: "padded w 0 = replicate w 48"
  by (induction w) (simp_all add: replicate_append_same)

lemma padded_digits: "n < 10 ^ w \<Longrightarrow> 0 < w \<Longrightarrow> length (digits n) \<le> w \<and> padded w n = replicate (w - length (digits n)) 48 @ digits n"
proof (induction w arbitrary: n)
  case (Suc w)
  show ?case
  proof (cases "n < 10")
    case True
    then show ?thesis by (simp add: digits.simps [of n] padded_zero)
  next
    case False
    then have "0 < w" "n div 10 < 10 ^ w" using Suc.prems(1) by (cases w; simp add: div_less_iff_less_mult)+
    then show ?thesis using Suc.IH [of "n div 10"] False by (simp add: digits.simps [of n])
  qed
qed simp

lemma MakeKey_padded: "unat i < 10 ^ 16 \<Longrightarrow> MakeKey i = padded 16 (unat i)"
  using padded_digits [of "unat i" 16] by (simp add: MakeKey_def Let_def)

lemma snoc_less: "length xs = length ys \<Longrightarrow> xs @ [a] < ys @ [b] \<longleftrightarrow> xs < ys \<or> xs = ys \<and> (a :: 'a :: linorder) < b"
  by (induction xs ys rule: list_induct2) auto

lemma padded_less: "m < n \<Longrightarrow> n < 10 ^ w \<Longrightarrow> padded w m < padded w n"
proof (induction w arbitrary: m n)
  case (Suc w)
  have w: "n div 10 < 10 ^ w" using Suc.prems(2) by (simp add: div_less_iff_less_mult)
  have d: "(of_nat (48 + m mod 10) :: byte) < of_nat (48 + n mod 10) \<longleftrightarrow> m mod 10 < n mod 10"
  proof -
    have "unat (of_nat (48 + x mod 10) :: byte) = 48 + x mod 10" for x
      by (rule unat_of_nat_less) (use mod_less_divisor [of 10 x] in simp)
    then show ?thesis unfolding word_less_nat_alt by simp
  qed
  consider "m div 10 < n div 10" | "m div 10 = n div 10" "m mod 10 < n mod 10"
    using Suc.prems(1) div_le_mono [of m n 10] by (metis div_mult_mod_eq nat_add_left_cancel_less le_neq_implies_less less_imp_le)
  then show ?case by cases (use Suc.IH [OF _ w] d in \<open>simp_all add: snoc_less\<close>)
qed simp

subsection \<open>The check\<close>

abbreviation load_entries :: "nat \<Rightarrow> (key \<times> bytes) list" where
  "load_entries n \<equiv> map (\<lambda>i. (MakeKey (of_nat i), MakeValue (of_nat i))) [0 ..< n]"

lemma check_entry_eq:
  "check_entry (e, m) k v = (if k = MakeKey e \<and> v = MakeValue e then (True, e + 1, m) else (False, e, True))"
  by (auto simp: check_entry_def)

lemma visit_check:
  "visit check_entry (e, False) es = (e', m) \<Longrightarrow> \<not> m \<longleftrightarrow> es = map (\<lambda>i. (MakeKey (e + of_nat i), MakeValue (e + of_nat i))) [0 ..< length es]"
  "visit check_entry (e, False) es = (e', False) \<Longrightarrow> e' = e + of_nat (length es)"
proof (induction es arbitrary: e)
  case (Cons x es)
  obtain k v where x: "x = (k, v)" by fastforce
  have up: "[0 ..< length (x # es)] = 0 # map Suc [0 ..< length es]" by (simp add: upt_conv_Cons map_Suc_upt del: upt_Suc)
  { case 1
    show ?case
    proof (cases "k = MakeKey e \<and> v = MakeValue e")
      case True
      then have "visit check_entry (e + 1, False) es = (e', m)" using 1 x by (simp add: check_entry_eq)
      from Cons.IH(1) [OF this] show ?thesis using True x unfolding up by (simp add: comp_def add.assoc del: upt_Suc)
    next
      case False
      then show ?thesis using 1 x unfolding up by (auto simp: check_entry_eq)
    qed
  next
    case 2
    then have "visit check_entry (e + 1, False) es = (e', False)" using x by (auto simp: check_entry_eq split: if_splits)
    from Cons.IH(2) [OF this] show ?case by simp }
qed simp_all

lemma Db_Contains_ok:
  assumes "stored_off d (pool db) es"
  shows "\<exists>f db'. Db_Contains k db = Some (f, db') \<and> stored_off d (pool db') es \<and> (f \<longrightarrow> map_of es k \<noteq> None)"
proof -
  obtain r b where g: "Get k (pool db) = Some (r, b)" "pc.reads (pool db) b" "case r of Inr v \<Rightarrow> map_of es k = Some v | Inl s \<Rightarrow> s = kNotFound \<and> map_of es k = None \<or> io_error s"
    using Get_stored [OF assms] by blast
  then show ?thesis using stored_reads [OF assms g(2)] by (auto simp: Db_Contains_def Contains_def split: sum.splits)
qed

lemma probe_step:
  fixes n s probe :: u64
  assumes "unat n \<le> 2 ^ 63" and "probe < n"
  shows "unat probe < unat (probe + ((n - s) div 128 + 1))" and "probe < probe + ((n - s) div 128 + 1)"
proof -
  have "unat ((n - s) div 128) < 2 ^ 57" using unsigned_less [of "n - s", where ?'a = nat] by (simp add: unat_div div_less_iff_less_mult)
  moreover from this have d: "unat ((n - s) div 128 + 1) = unat ((n - s) div 128) + 1" by (subst unat_add_less) simp_all
  moreover have "unat probe < 2 ^ 63" using assms by (simp add: word_less_nat_alt)
  ultimately have "unat (probe + ((n - s) div 128 + 1)) = unat probe + (unat ((n - s) div 128) + 1)" by (subst unat_add_less) simp_all
  then show "unat probe < unat (probe + ((n - s) div 128 + 1))" by simp
  then show "probe < probe + ((n - s) div 128 + 1)" by (simp add: word_less_nat_alt)
qed

lemma probe_loop_ok:
  assumes "unat n \<le> 2 ^ 63" and "stored_off d (pool db) es"
  shows "\<exists>a db'. probe_loop n s probe db = Some (a, db') \<and> stored_off d (pool db') es \<and>
    ((\<forall>p. probe \<le> p \<longrightarrow> p < n \<longrightarrow> map_of es (MakeKey p) = None) \<longrightarrow> a)"
  using assms(2)
proof (induction "unat n - unat probe" arbitrary: probe db rule: less_induct)
  case less
  show ?case
  proof (cases "probe < n")
    case True
    let ?q = "probe + ((n - s) div 128 + 1)"
    obtain f db1 where c: "Db_Contains (MakeKey probe) db = Some (f, db1)" "stored_off d (pool db1) es" "f \<Longrightarrow> map_of es (MakeKey probe) \<noteq> None"
      using Db_Contains_ok [OF less.prems] by blast
    note q = probe_step [OF assms(1) True, of s]
    have dec: "unat n - unat ?q < unat n - unat probe" using q(1) True by (simp add: word_less_nat_alt)
    obtain a db' where l: "probe_loop n s ?q db1 = Some (a, db')" "stored_off d (pool db') es"
      "(\<forall>p. ?q \<le> p \<longrightarrow> p < n \<longrightarrow> map_of es (MakeKey p) = None) \<Longrightarrow> a"
      using less.hyps [OF _ c(2), of ?q] dec by blast
    have "(\<forall>p. probe \<le> p \<longrightarrow> p < n \<longrightarrow> map_of es (MakeKey p) = None) \<Longrightarrow> \<not> f \<and> a" using c(3) l(3) True q(2) by force
    then show ?thesis using True c(1,2) l(1,2) by (subst probe_loop.simps) auto
  next
    case False
    then show ?thesis using less.prems by (subst probe_loop.simps) auto
  qed
qed

lemma load_keys:
  assumes "of_nat k \<le> p" and "unat p < 10 ^ 16" and "k < 2 ^ 64"
  shows "map_of (load_entries k) (MakeKey p) = None"
proof -
  have "unat (of_nat k :: u64) = k" by (rule unat_of_nat_less) (use assms(3) in simp)
  then have "k \<le> unat p" using assms(1) by (simp add: word_le_nat_alt)
  then have i: "i < unat p" "unat (of_nat i :: u64) = i" if "i < k" for i using that assms(3) by (auto intro: unat_of_nat_less)
  have "MakeKey (of_nat i) \<noteq> MakeKey p" if "i < k" for i
  proof -
    have "MakeKey (of_nat i) = padded 16 i" using MakeKey_padded [of "of_nat i"] i [OF that] assms(2) by simp
    then show ?thesis using padded_less [OF i(1) [OF that] assms(2)] MakeKey_padded [OF assms(2)] by auto
  qed
  then show ?thesis by (auto simp: map_of_eq_None_iff) metis
qed

text \<open>
  The keys of the workload are strictly increasing in their number, as long as the number has at most 16 digits.
\<close>

lemma MakeKey_increasing: "i < j \<Longrightarrow> unat j < 10 ^ 16 \<Longrightarrow> MakeKey i < MakeKey j"
  using padded_less [of "unat i" "unat j" 16] MakeKey_padded [of i] MakeKey_padded [of j] by (simp add: word_less_nat_alt)

text \<open>
  C34: the crash demo's verifier. On any well-formed tree, whose recorded key count may be off by any amount \<open>d\<close>, and for every number of
  loaded keys that the key format can hold, it returns and leaves the entries as they are. It reports success only when the entries are exactly the first keys of the
  load with their values and the recorded count is their number; and a database of which both are true is accepted, unless the scan reported a
  storage error. So a lost suffix of the load passes, and a hole, a foreign entry, a wrong value or a stale count do not.
\<close>

theorem verify_accepts_prefixes:
  assumes "stored_off d (pool db) es" and "length es < 2 ^ 64" and "unat n \<le> 10 ^ 16"
  shows "\<exists>code db'. verify_db n db = Some (code, db') \<and> stored_off d (pool db') es \<and>
    (code = 0 \<longrightarrow> es = load_entries (length es) \<and> d = 0) \<and>
    (es = load_entries (length es) \<and> d = 0 \<longrightarrow> code = 0 \<or> (\<exists>s st db1. Db_Scan [] [] check_entry (0, False) db = Some (s, st, db1) \<and> io_error s))"
proof -
  obtain s e m b where sc: "Db_Scan [] [] check_entry (0, False) db = Some (s, (e, m), db\<lparr>pool := b\<rparr>)" "stored_off d b es"
    "s = kOk \<and> visit check_entry (0, False) es = (e, m) \<or> io_error s"
    using Db_Scan_ok [OF assms(1), of "[]" "[]" check_entry "(0, False)"] by fastforce
  show ?thesis
  proof (cases "s = kOk \<and> \<not> m")
    case False
    then have "verify_db n db = Some (1, db\<lparr>pool := b\<rparr>)" using sc(1) by (auto simp: verify_db_def)
    then show ?thesis using sc visit_check(1) [of 0 es e m] False by auto
  next
    case True
    then have v: "visit check_entry (0, False) es = (e, False)" using sc(3) by (auto simp: io_error_def)
    have es: "es = load_entries (length es)" "e = of_nat (length es)" using visit_check(1) [OF v] visit_check(2) [OF v] by simp_all
    have "unat n \<le> 2 ^ 63" using assms(3) by simp
    from probe_loop_ok [OF this, of d "db\<lparr>pool := b\<rparr>" es e e] obtain a db' where p: "probe_loop n e e (db\<lparr>pool := b\<rparr>) = Some (a, db')" "stored_off d (pool db') es"
      "(\<forall>p. e \<le> p \<longrightarrow> p < n \<longrightarrow> map_of es (MakeKey p) = None) \<Longrightarrow> a" using sc(2) by auto
    have "a" by (rule p(3)) (use load_keys [of "length es"] es assms(2,3) in \<open>auto simp: word_less_nat_alt\<close>)
    moreover have "ApproximateKeyCount db' = d + e" using p(2) es(2) by (simp add: ApproximateKeyCount_def KeyCount_def stored_off_def)
    ultimately have "verify_db n db = Some (if d = 0 then 0 else 1, db')" using sc(1) True p(1) by (simp add: verify_db_def)
    then show ?thesis using p(2) es(1) by auto
  qed
qed

text \<open>
  A new database, which holds the first zero keys, is accepted; with a wrong key count, or with a foreign entry, it is not. The database
  that holds the first key of the load is accepted unless the scan fails.
\<close>

theorem verify_accepts_prefixes_witness:
  "\<exists>db1 c2 db2 c3 db3 c4 db4. verify_db 1000 new_db = Some (0, db1) \<and>
     verify_db 1000 (new_db\<lparr>pool := (pool new_db)\<lparr>pager := AddToNumKeys (pager (pool new_db)) 5\<rparr>\<rparr>) = Some (c2, db2) \<and> c2 \<noteq> 0 \<and>
     verify_db 1000 one_db = Some (c3, db3) \<and> c3 \<noteq> 0 \<and>
     verify_db 1000 (new_db\<lparr>pool := snd (snd (the (Put (MakeKey 0) (MakeValue 0) 1 False (pool new_db))))\<rparr>) = Some (c4, db4) \<and>
     (c4 = 0 \<or> (\<exists>s st db. Db_Scan [] [] check_entry (0, False)
        (new_db\<lparr>pool := snd (snd (the (Put (MakeKey 0) (MakeValue 0) 1 False (pool new_db))))\<rparr>) = Some (s, st, db) \<and> io_error s))"
proof -
  have "length (value_loop n x) = n" for n x by (induction n arbitrary: x) (simp_all add: Let_def)
  then have l: "length (MakeValue 0) = 100" "length (MakeKey 0) = 16" by (simp_all add: MakeValue_def MakeKey_padded)
  then have ne: "load_entries 1 \<noteq> [([107], [118])]" by auto
  have e: "IsEmpty (pool new_db)" by (simp add: new_db_def DbImpl_init_def IsEmpty_def BufferPool_init_def Let_def Meta_Init_def)
  have sc: "Db_Scan [] [] check_entry (0, False) new_db = Some (kOk, (0, False), new_db)"
    using e by (simp add: Db_Scan_def Seek_def FindLeaf_def leaf_guard_def scan_loop.simps Cursor_init_def)
  let ?b5 = "(pool new_db)\<lparr>pager := AddToNumKeys (pager (pool new_db)) 5\<rparr>"
  have "stored_off 5 ?b5 []" using new_db_ok(1) e stored_inv [OF new_db_ok(1)] by (auto simp: stored_off_def IsEmpty_def)
  then have s5: "stored_off 5 (pool (new_db\<lparr>pool := ?b5\<rparr>)) []" by simp
  obtain b where b: "Put (MakeKey 0) (MakeValue 0) 1 False (pool new_db) = Some (kOk, None, b)" "stored b [(MakeKey 0, MakeValue 0)]"
    using new_db_Put [of "MakeKey 0" "MakeValue 0" 1] l by auto
  then have s1: "stored (pool (new_db\<lparr>pool := b\<rparr>)) [(MakeKey 0, MakeValue 0)]" by simp
  obtain c1 db1 where "verify_db 1000 new_db = Some (c1, db1)" "c1 = 0"
    using verify_accepts_prefixes [OF new_db_ok(1), of 1000] sc by (auto simp: io_error_def)
  moreover obtain c2 db2 where "verify_db 1000 (new_db\<lparr>pool := ?b5\<rparr>) = Some (c2, db2)" "c2 \<noteq> 0"
    using verify_accepts_prefixes [OF s5, of 1000] by auto
  moreover obtain c3 db3 where "verify_db 1000 one_db = Some (c3, db3)" "c3 \<noteq> 0"
    using verify_accepts_prefixes [OF one_db_ok(1), of 1000] ne by auto
  moreover obtain c4 db4 where "verify_db 1000 (new_db\<lparr>pool := b\<rparr>) = Some (c4, db4)"
    "c4 = 0 \<or> (\<exists>s st db. Db_Scan [] [] check_entry (0, False) (new_db\<lparr>pool := b\<rparr>) = Some (s, st, db) \<and> io_error s)"
    using verify_accepts_prefixes [OF s1, of 1000] by auto
  ultimately show ?thesis using b(1) by auto
qed

end
