(* ===== verification/Spec2Isabelle.thy ===== *)
theory Spec2Isabelle
  imports Rerun Transactions Checkpoint_Gate Inspect Checksum_Arm Demo
begin

text \<open>
  \<^bold>\<open>Verification of PagerDB\<close>

  PagerDB is an embedded key-value store: a B+ tree of 4 KB slotted pages in one file, cached by a buffer pool, made durable by a
  write-ahead log, with row locks, explicit transactions and crash recovery. This library models its C++ code, component by
  component, as executable definitions and proves what each component promises.

  \<^bold>\<open>The program\<close> (paths under src/). \<^verbatim>\<open>DB::Open\<close> (src/db.cc) locks the directory, opens the data file (pager) and the log, runs
  recovery and hands out a handle. A write acquires the writer latch, changes the tree (btree.cc), which fetches pages through guards from the
  buffer pool, rewrites them through \<^verbatim>\<open>NodeView\<close> (node.cc) on \<^verbatim>\<open>Page\<close> (page\_format.h, page.cc), and appends records to the log
  (log_writer.cc). The pool writes a dirty page back only after the whole log is synced. A checkpoint syncs the pages and the meta page and
  truncates the log. Transactions (db.cc) lock keys (lock_manager.cc), keep an undo list, and log begin and end markers.

  \<^bold>\<open>The theories\<close>, each with the definitions of a component first and its lemmas after them.
  \<^item> \<open>Prelude\<close>: widths of the machine integers, little-endian encodings (log_record.cc), status codes, shared lemmas, and the locale \<open>record_store\<close>.
  \<^item> \<open>Checksum\<close>, \<open>Checksum_Arm\<close>: CRC-32 of page.cc in both builds, against the bit-serial CRC. The two processor instructions are parameters,
    their documented meaning the laws of the locale \<open>crc_instructions\<close>.
  \<^item> \<open>Page\<close>, \<open>Node\<close>, \<open>Node_Bytes\<close>: the slotted page as header fields and a byte memory; every operation of \<^verbatim>\<open>Page\<close> and \<^verbatim>\<open>NodeView\<close>. \<open>leaf_rep p es\<close>
    and \<open>int_rep\<close> relate the bytes of a page to a sorted list of entries; insertion, update, deletion and the binary search are
    shown to be the list operations, with exact conditions for success.
  \<^item> \<open>Posix_File\<close>: positioned reads and writes, sync, truncate, lock, the fault injection of file.cc. The operating system is the record \<open>Io\<close>: a
    list of outcomes consumed one per call, so that statements for every \<open>Io\<close> hold for every behaviour of the system; \<open>synced\<close> is what
    survives a crash for certain.
  \<^item> \<open>Wal\<close>: log records, reader and writer; the writer refines a list of records.
  \<^item> \<open>Pager\<close>: meta pages with their two copies, page input and output, the free list as a stack.
  \<^item> \<open>Pool\<close>, \<open>Page_Cache\<close>: LRU replacer, buffer pool and guards. The locale \<open>page_cache\<close> is the interface that the tree uses (fetching keeps every
    page's content, writing through a guard changes one page, guards are released); it is interpreted on the pool.
  \<^item> \<open>BTree\<close> (the code of btree.cc and cursor.cc), \<open>Ptree\<close> (abstract trees over page numbers), \<open>BTree_Read\<close>, \<open>BTree_Write\<close>, \<open>BTree_Put\<close>,
    \<open>BTree_Split\<close>, \<open>BTree_Store\<close>: \<open>stored b es\<close> says that the pool and file \<open>b\<close> hold a well-formed tree with the entries \<open>es\<close>;
    Get, Put, Delete and the cursor are the operations on sorted lists, for every outcome of the storage, and they end.
  \<^item> \<open>Pool_Log\<close>, \<open>Checkpoints\<close>: how an operation evolves the log (\<open>log_is\<close>) and the files; checkpoints lose nothing.
  \<^item> \<open>Locks\<close>: the lock manager and the transaction ids; threads as the step relation \<open>lstep\<close>, invariants by rule induction.
  \<^item> \<open>Db\<close> (the handle and the transactions of db.cc), \<open>Db_Store\<close> (autocommit operations, poisoning), \<open>Transactions\<close> (the relation \<open>runs\<close> over
    interleaved transactions, atomicity, isolation, abort and commit). \<^verbatim>\<open>Commit\<close> is the list of its calls, \<open>commit_calls\<close>, and
    \<open>commit_trace\<close> the states after each of them, so that the order of the log flush and the release of the locks is part of the statement.
  \<^item> \<open>Recovery\<close> (\<^verbatim>\<open>Recover\<close> and \<^verbatim>\<open>DB::Open\<close>, the log analysis), \<open>Redo\<close> (log records as functions on the shapes of pages; the redo
    pass repeats history on leaves, internal nodes, torn pages and pages not created yet), \<open>Undo\<close> (the rollback of transactions in flight over
    the locale \<open>entry_store\<close>, interpreted on trees whose key count is off, and the recount), \<open>Recovered\<close> (the passes and the closing
    checkpoint together).
  \<^item> \<open>Logging\<close>, \<open>Log_Splits\<close>, \<open>Replay\<close>: the other direction. \<open>leads E a b rs\<close> says that the records \<open>rs\<close>, and no others, were appended between the pools \<open>a\<close> and \<open>b\<close>
    and that they turn the page states \<open>E\<close> into those of \<open>b\<close>. It is proved for every write of the tree, so that the assumptions about the log
    under which recovery was shown correct hold for the logs that sequences of \<^verbatim>\<open>Put\<close>, \<^verbatim>\<open>Delete\<close>, \<^verbatim>\<open>Get\<close> and flushes (\<open>perform\<close>) really leave.
    What a crash may do to each page (\<open>crash_of\<close>) stays an assumption.
  \<^item> \<open>Rerun\<close>: the ids under which the undo pass of recovery logs, and what a second recovery makes of its records.
  \<^item> \<open>Checkpoint_Gate\<close>: the latch between writers and checkpoints, at the granularity of single accesses to the shared variables.
  \<^item> \<open>Inspect\<close> (tools/kvstore_inspect.cc) and \<open>Demo\<close> (main.cc): the offline checker and the crash demo.

  \<^bold>\<open>How code becomes definitions.\<close> Names are those of the source (a prefix such as \<open>Db_\<close>, \<open>Txn_\<close>, \<open>Wal_\<close> where methods of several classes
  share a name). State is passed explicitly. \<^verbatim>\<open>Status\<close> is its code (\<open>kOk\<close>, \<open>kNotFound\<close>, \dots), \<^verbatim>\<open>std::expected\<close> the sum type \<open>Result\<close>. Integers keep
  their width where they are stored or can wrap. Loops are recursive functions; where ending depends on the data (descents, cursors,
  redo) they are \<open>partial_function (option)\<close> and the theorems state that a result is returned.

  \<^bold>\<open>What the theorems show.\<close> Durability of acknowledged writes and commits; atomicity and isolation of transactions; safety of
  checkpoints; the log analysis, redo, undo and recount of recovery, each alone, from a crash state to the recovered entries, and
  from the writes themselves over any crash back to their result (recovery may also report a storage error, \<^verbatim>\<open>Corruption\<close> of a
  torn page among them: a page image that was redone is shown to have healed a torn page, not that its redo succeeds); the refinement of
  sorted lists by the tree and of maps by nodes; the write-ahead rule; torn writes of the log and of the meta page; mutual exclusion and absence of starvation of the latches;
  soundness, completeness and termination of the checker; round trips of the formats; and, as theorems about error paths, a few
  behaviours that surprise: a failed recovery loses the log, a recovery with nothing to redo keeps a stale key count, its undo records can complete
  a half operation of the crashed run, a leaf with one large entry cannot be split, open transactions write through a
  poisoned handle, \<^verbatim>\<open>CanFit\<close> wraps.

  \<^bold>\<open>Bounds.\<close> \<open>roomy\<close>: the page counter is far enough from \<open>2\<^sup>3\<^sup>2\<close> for one operation. \<open>log_bytes\<close> and the size conditions on the log: its
  end stays below \<open>2\<^sup>6\<^sup>4\<close>. \<open>length (mreserved m) = 4048\<close>: the meta page has its fixed size. Keys below 65000 bytes in a deletion: lengths
  are 16 bits wide in a record. \<open>roomy_run\<close>: the same before each operation of a sequence. \<open>undo_roomy\<close>, \<open>rollback_roomy\<close>: room for the rollback of a transaction, at run time and in recovery. The checker's recursion depth is the number of pages plus
  one, and \<open>inspector_terminates\<close> shows that this suffices on every file.

  \<^bold>\<open>Not modelled.\<close> Latches and interleavings inside one tree or pool operation: each is one atomic step. Diagnostic texts,
  \<^verbatim>\<open>Page::Dump\<close>, the printed reports, the smoke test of main.cc and the benchmarks.
\<close>

end
